(* ===== verification/Prelude.thy ===== *)
theory Prelude
  imports Main "HOL-Library.Word"
begin

text \<open>
  The vocabulary every other theory of the development uses: the machine's integer types, the
  error values a C function of the library can end with, the state-and-error shape of a C function
  that works on one object through a pointer, the heap allocator as the library sees it, and the
  generic lemmas on lists and words that the components share.

  The machine is the LP64 one the library is built for: \<open>size_t\<close>, \<open>uintptr_t\<close> and \<open>uint64_t\<close> are
  64 bits wide. Values the code only shifts and masks are words. Sizes and offsets, which index byte
  lists, are natural numbers below \<open>2 ^ 64\<close>, and every addition of the source that can wrap is
  written with \<^verbatim>\<open>wrap64\<close>.
\<close>

unbundle bit_operations_syntax

subsection \<open>Machine integers\<close>

type_synonym u8 = "8 word"
type_synonym u16 = "16 word"
type_synonym u32 = "32 word"
type_synonym u64 = "64 word"

text \<open>Bytes of memory, and C strings without their terminating nul.\<close>

type_synonym bytes = "u8 list"

text \<open>The bytes of a text.\<close>

definition ascii :: "string \<Rightarrow> bytes" where
  "ascii s = map of_char s"

text \<open>\<open>SIZE_MAX\<close>, \<open>SSIZE_MAX\<close> (also the largest object the C library hands out) and the
  wrap-around of \<open>size_t\<close> arithmetic.\<close>

definition SIZE_MAX :: nat where
  "SIZE_MAX = 2 ^ 64 - 1"

definition SSIZE_MAX :: nat where
  "SSIZE_MAX = 2 ^ 63 - 1"

definition wrap64 :: "nat \<Rightarrow> nat" where
  "wrap64 n = n mod 2 ^ 64"

text \<open>The conversion of a signed 64-bit value to \<open>size_t\<close>.\<close>

definition size_of_int :: "int \<Rightarrow> nat" where
  "size_of_int i = nat (i mod 2 ^ 64)"

subsection \<open>Errors\<close>

text \<open>The negated errno values the modelled functions return.\<close>

datatype errno =
    EINVAL | ENOMEM | ENOTSUP | EROFS | ENOSPC | ESPIPE | EOVERFLOW | EFAULT | EINTR | EILSEQ
  | ENOENT | ERANGE | EBUSY | EPIPE | EIO | EMFILE | EAFNOSUPPORT

text \<open>
  How a call can end without a value: it returns an errno; it panics (\<open>panic\<close>, \<open>ASSERT\<close>,
  \<open>VERIFY\<close>, all of which are compiled in unconditionally); it touches memory outside an object
  (\<open>Fault\<close>, where C leaves the behaviour undefined); it returns, but has stored an error pointer where a
  pointer to an object belongs, and no value of the model stands for what it left behind (\<open>Stray\<close>, which
  ends the run of the model, not that of the program); or the model's fuel ran out (\<open>Diverged\<close>, which
  the theorems about fuelled functions exclude).
\<close>

datatype error = Errno errno | Panic | Fault | Stray | Diverged

type_synonym 'a res = "error + 'a"

text \<open>A C function that works on an object of type \<open>'s\<close> through a pointer.\<close>

type_synonym ('s, 'a) cfun = "'s \<Rightarrow> 'a res \<times> 's"

abbreviation fail :: "errno \<Rightarrow> 'a res" where
  "fail e \<equiv> Inl (Errno e)"

definition cret :: "'a \<Rightarrow> ('s, 'a) cfun" where
  "cret x s = (Inr x, s)"

definition cerr :: "error \<Rightarrow> ('s, 'a) cfun" where
  "cerr e s = (Inl e, s)"

text \<open>Sequencing: \<open>if ((ret = f(s))) return ret; ...\<close>.\<close>

definition andthen :: "('s, 'a) cfun \<Rightarrow> ('a \<Rightarrow> ('s, 'b) cfun) \<Rightarrow> ('s, 'b) cfun" where
  "andthen f g s = (case f s of (Inl e, s') \<Rightarrow> (Inl e, s') | (Inr x, s') \<Rightarrow> g x s')"

text \<open>Results that are values or errnos: neither a panic, nor a fault, nor out of fuel.\<close>

fun safe_res :: "'a res \<Rightarrow> bool" where
  "safe_res (Inl (Errno _)) = True"
| "safe_res (Inl _) = False"
| "safe_res (Inr _) = True"

named_theorems cfun_simps \<open>unfolding of the sequencing combinators\<close>
named_theorems bound_simps \<open>the numeric limits of the machine\<close>

lemma cret_apply [simp]: "cret x s = (Inr x, s)"
  by (simp add: cret_def)

lemma cerr_apply [simp]: "cerr e s = (Inl e, s)"
  by (simp add: cerr_def)

lemma andthen_Inr [simp]: "f s = (Inr x, s') \<Longrightarrow> andthen f g s = g x s'"
  by (simp add: andthen_def)

lemma andthen_Inl [simp]: "f s = (Inl e, s') \<Longrightarrow> andthen f g s = (Inl e, s')"
  by (simp add: andthen_def)

lemma andthen_InrE:
  assumes "andthen f g s = (Inr y, s'')"
  obtains x s' where "f s = (Inr x, s')" and "g x s' = (Inr y, s'')"
  using assms by (auto simp: andthen_def split: prod.splits sum.splits)

lemma andthen_cases:
  obtains (err) e s' where "f s = (Inl e, s')" and "andthen f g s = (Inl e, s')"
    | (ok) x s' where "f s = (Inr x, s')" and "andthen f g s = g x s'"
proof (cases "f s")
  case (Pair r s')
  then show thesis
    by (cases r) (auto simp: andthen_def intro: err ok)
qed

lemma safe_res_Inl [simp]: "safe_res (Inl e) \<longleftrightarrow> (\<exists>n. e = Errno n)"
  by (cases e) auto

declare andthen_def [cfun_simps]

lemma SIZE_MAX_eq [bound_simps]: "SIZE_MAX = 18446744073709551615"
  by (simp add: SIZE_MAX_def)

lemma SSIZE_MAX_eq [bound_simps]: "SSIZE_MAX = 9223372036854775807"
  by (simp add: SSIZE_MAX_def)

lemma wrap64_id [simp]: "n < 18446744073709551616 \<Longrightarrow> wrap64 n = n"
  by (simp add: wrap64_def)

lemma wrap64_less: "wrap64 n < 18446744073709551616"
  by (simp add: wrap64_def)

subsection \<open>The C library's heap\<close>

text \<open>
  The allocator answers each request for memory with a block or with \<open>NULL\<close>. Which of the two is
  not the library's choice, so the state \<open>mem\<close> holds the answers for a whole run: the \<open>k\<close>-th request,
  if it is for \<open>n\<close> bytes, succeeds when \<open>m_ok k n\<close> holds, and the bytes nobody wrote yet are
  \<open>m_fresh k\<close>. No C library hands out an object of more than \<open>PTRDIFF_MAX\<close> bytes. Two flags say
  whether the platform has the overflow-checking array allocators
  (\<open>JEFFPC_HAVE_REALLOCARRAY\<close>, \<open>JEFFPC_HAVE_RECALLOCARRAY\<close>).
\<close>

record mem =
  m_ok :: "nat \<Rightarrow> nat \<Rightarrow> bool"
  m_fresh :: "nat \<Rightarrow> nat \<Rightarrow> u8"
  m_next :: nat
  m_have_reallocarray :: bool
  m_have_recallocarray :: bool

text \<open>One request for \<open>n\<close> bytes: does it succeed?\<close>

definition mem_request :: "nat \<Rightarrow> mem \<Rightarrow> bool \<times> mem" where
  "mem_request n m = (n \<le> SSIZE_MAX \<and> m_ok m (m_next m) n, m\<lparr>m_next := Suc (m_next m)\<rparr>)"

text \<open>\<open>realloc\<close>: the old contents up to the smaller size, then bytes nobody wrote.\<close>

definition c_realloc :: "bytes \<Rightarrow> nat \<Rightarrow> mem \<Rightarrow> bytes option \<times> mem" where
  "c_realloc old n m =
     (case mem_request n m of (ok, m') \<Rightarrow>
       (if ok then Some (map (\<lambda>i. if i < length old then old ! i else m_fresh m (m_next m) i) [0..<n])
        else None, m'))"

definition c_malloc :: "nat \<Rightarrow> mem \<Rightarrow> bytes option \<times> mem" where
  "c_malloc n m = c_realloc [] n m"

text \<open>An allocator that never runs out of memory (below the largest object size).\<close>

definition mem_plenty :: "mem \<Rightarrow> bool" where
  "mem_plenty m \<longleftrightarrow> (\<forall>k n. n \<le> SSIZE_MAX \<longrightarrow> m_ok m k n)"

text \<open>A concrete allocator for evaluations: it always has memory and hands out zeroed blocks.\<close>

definition plain_mem :: mem where
  "plain_mem = \<lparr>m_ok = (\<lambda>_ _. True), m_fresh = (\<lambda>_ _. 0), m_next = 0,
     m_have_reallocarray = True, m_have_recallocarray = False\<rparr>"

lemma mem_plenty_plain [simp]: "mem_plenty plain_mem"
  by (simp add: mem_plenty_def plain_mem_def)

lemma mem_plenty_next [simp]: "mem_plenty (m\<lparr>m_next := k\<rparr>) = mem_plenty m"
  by (simp add: mem_plenty_def)

lemma mem_request_plenty:
  "mem_plenty m \<Longrightarrow> n \<le> SSIZE_MAX \<Longrightarrow> mem_request n m = (True, m\<lparr>m_next := Suc (m_next m)\<rparr>)"
  by (simp add: mem_request_def mem_plenty_def)

lemma c_realloc_Some:
  assumes "c_realloc old n m = (Some d, m')"
  shows "length d = n" and "take (min n (length old)) d = take n old" and "n \<le> SSIZE_MAX"
    and "m' = m\<lparr>m_next := Suc (m_next m)\<rparr>"
proof -
  show "length d = n" and "n \<le> SSIZE_MAX" and "m' = m\<lparr>m_next := Suc (m_next m)\<rparr>"
    using assms by (auto simp: c_realloc_def mem_request_def split: if_splits)
  show "take (min n (length old)) d = take n old"
    using assms
    by (auto simp: c_realloc_def mem_request_def intro!: nth_equalityI split: if_splits)
qed

lemma c_realloc_plenty:
  assumes "mem_plenty m" and "n \<le> SSIZE_MAX"
  obtains d where "c_realloc old n m = (Some d, m\<lparr>m_next := Suc (m_next m)\<rparr>)"
  using assms by (auto simp: c_realloc_def mem_request_plenty)

subsection \<open>Blocks of memory\<close>

text \<open>\<open>memcpy\<close> into and out of a block, \<open>memset\<close> to zero; \<open>None\<close> is an access out of bounds.\<close>

definition blk_write :: "bytes \<Rightarrow> nat \<Rightarrow> bytes \<Rightarrow> bytes option" where
  "blk_write d off bs =
     (if off + length bs \<le> length d then Some (take off d @ bs @ drop (off + length bs) d) else None)"

definition blk_read :: "bytes \<Rightarrow> nat \<Rightarrow> nat \<Rightarrow> bytes option" where
  "blk_read d off n = (if off + n \<le> length d then Some (take n (drop off d)) else None)"

lemma length_blk_write: "blk_write d off bs = Some d' \<Longrightarrow> length d' = length d"
  by (auto simp: blk_write_def split: if_splits)

lemma take_blk_write:
  "blk_write d off bs = Some d' \<Longrightarrow> take (off + length bs) d' = take off d @ bs"
  by (auto simp: blk_write_def split: if_splits)

subsection \<open>Words, bit by bit\<close>

text \<open>
  Two words are equal when their bits are. For the fixed widths of the machine the bits can be
  listed, and the simplifier decides each of them with \<open>bit_simps\<close>.
\<close>

lemma word_eqI_upt:
  "list_all (\<lambda>n. bit a n = bit b n) [0..<LENGTH('a)] \<Longrightarrow> a = (b :: 'a::len word)"
  by (rule bit_word_eqI) (simp add: list_all_iff)

lemma upt_8: "[0..<8] =
     [0, 1, 2, 3, 4, 5, 6, 7]"
  by code_simp

lemma upt_16: "[0..<16] =
     [0, 1, 2, 3, 4, 5, 6, 7, 8, 9, 10, 11, 12, 13, 14, 15]"
  by code_simp

lemma upt_32: "[0..<32] =
     [0, 1, 2, 3, 4, 5, 6, 7, 8, 9, 10, 11, 12, 13, 14, 15, 16, 17, 18, 19, 20, 21, 22, 23, 24,
     25, 26, 27, 28, 29, 30, 31]"
  by code_simp

lemma upt_64: "[0..<64] =
     [0, 1, 2, 3, 4, 5, 6, 7, 8, 9, 10, 11, 12, 13, 14, 15, 16, 17, 18, 19, 20, 21, 22, 23, 24,
     25, 26, 27, 28, 29, 30, 31, 32, 33, 34, 35, 36, 37, 38, 39, 40, 41, 42, 43, 44, 45,
     46, 47, 48, 49, 50, 51, 52, 53, 54, 55, 56, 57, 58, 59, 60, 61, 62, 63]"
  by code_simp

lemmas bits_upt = upt_8 upt_16 upt_32 upt_64

lemma bit_u8_beyond [simp]: "8 \<le> n \<Longrightarrow> \<not> bit (x :: u8) n"
  by (auto dest: bit_imp_le_length)

lemma word_high_bits:
  assumes "unat (w :: 'a::len word) < 2 ^ k" and "k \<le> n"
  shows "\<not> bit w n"
proof
  assume "bit w n"
  then have "bit (unat w) n" by (simp add: bit_unsigned_iff bit_imp_le_length)
  moreover have "take_bit k (unat w) = unat w" using assms(1) by (rule take_bit_nat_eq_self)
  ultimately have "n < k" by (metis bit_take_bit_iff)
  with assms(2) show False by simp
qed

lemmas Suc_numerals = numeral_2_eq_2 [symmetric] numeral_3_eq_3 [symmetric]

lemma unat_u8_less: "unat (x :: u8) < 256"
  using unsigned_less [of x, where ?'a = nat] by simp

lemma of_nat_unat_u8 [simp]: "(word_of_nat (unat x) :: u8) = x"
  by simp

lemma unat_less_2_64: "unat (x :: u64) < 2 ^ 64"
  using unsigned_less [of x, where ?'a = nat] by simp

lemma unat_of_nat_u64: "n < 2 ^ 64 \<Longrightarrow> unat (word_of_nat n :: u64) = n"
  by (simp only: unsigned_of_nat) (simp add: take_bit_nat_eq_self)

lemma unat_of_nat_u8: "n < 256 \<Longrightarrow> unat (word_of_nat n :: u8) = n"
  by (simp only: unsigned_of_nat) (simp add: take_bit_nat_eq_self)

lemma unat_p2: "k < 64 \<Longrightarrow> unat ((2 :: u64) ^ k) = 2 ^ k"
  using unat_of_nat_u64 [of "2 ^ k"] power_strict_increasing [of k 64 "2 :: nat"] by simp

end
