(* ===== verification/Ints.thy ===== *)
theory Ints
  imports Prelude
begin

text \<open>
  \<^verbatim>\<open>src/include/jeffpc/int.h\<close>: string to integer conversion, powers of two, byte swapping, and the
  big-endian and little-endian loads and stores that the CBOR code uses.

  \<open>strtoull\<close> is the C library's function: it skips blanks, takes an optional sign, a \<open>0x\<close> prefix in
  base 16, and the longest run of digits of the base; out of range it answers \<open>ULLONG_MAX\<close> and sets
  errno; a minus sign negates the result in \<open>unsigned long long\<close>.
\<close>

unbundle bit_operations_syntax

subsection \<open>String to integer conversion\<close>

definition is_space :: "u8 \<Rightarrow> bool" where
  "is_space c \<longleftrightarrow> c = 32 \<or> (9 \<le> c \<and> c \<le> 13)"

definition digit_val :: "u8 \<Rightarrow> nat option" where
  "digit_val c =
     (if 48 \<le> c \<and> c \<le> 57 then Some (unat c - 48)
      else if 97 \<le> c \<and> c \<le> 122 then Some (unat c - 87)
      else if 65 \<le> c \<and> c \<le> 90 then Some (unat c - 55)
      else None)"

definition is_digit_of :: "nat \<Rightarrow> u8 \<Rightarrow> bool" where
  "is_digit_of base c = (case digit_val c of None \<Rightarrow> False | Some d \<Rightarrow> d < base)"

text \<open>The value of a run of digits, as an unbounded number.\<close>

definition digits_val :: "nat \<Rightarrow> bytes \<Rightarrow> nat" where
  "digits_val base ds = foldl (\<lambda>v c. v * base + the (digit_val c)) 0 ds"

text \<open>The prefix \<open>strtoull\<close> skips in base 16, when a hexadecimal digit follows it.\<close>

definition hex_prefix :: "nat \<Rightarrow> bytes \<Rightarrow> nat" where
  "hex_prefix base s =
     (if base = 16 \<and> 3 \<le> length s \<and> s ! 0 = 48 \<and> (s ! 1 = 120 \<or> s ! 1 = 88) \<and> is_digit_of 16 (s ! 2)
      then 2 else 0)"

text \<open>
  \<open>strtoull(s, &endptr, base)\<close> for a base from 2 to 36: the value, the offset \<open>endptr - s\<close> and errno.
  Any other base (0 apart, which no caller of the library passes) is an invalid argument.
\<close>

definition strtoull :: "bytes \<Rightarrow> nat \<Rightarrow> nat \<times> nat \<times> errno option" where
  "strtoull s base =
     (if base < 2 \<or> 36 < base then (0, 0, Some EINVAL)
      else
        let blanks = length (takeWhile is_space s);
            s1 = drop blanks s;
            neg = (s1 \<noteq> [] \<and> hd s1 = 45);
            sign = (if s1 \<noteq> [] \<and> (hd s1 = 45 \<or> hd s1 = 43) then 1 else 0);
            s2 = drop sign s1;
            pre = hex_prefix base s2;
            ds = takeWhile (is_digit_of base) (drop pre s2);
            v = digits_val base ds;
            end = blanks + sign + pre + length ds
        in if ds = [] then (0, 0, None)
           else if 2 ^ 64 \<le> v then (2 ^ 64 - 1, end, Some ERANGE)
           else (if neg then (2 ^ 64 - v) mod 2 ^ 64 else v, end, None))"

text \<open>The character a pointer into a C string points at: the nul beyond the last one.\<close>

definition cstr_at :: "bytes \<Rightarrow> nat \<Rightarrow> u8" where
  "cstr_at s i = (if i < length s then s ! i else 0)"

text \<open>
  \<open>str2u64_full\<close>, \<open>str2u32_full\<close>, \<open>str2u16_full\<close>, \<open>str2u8_full\<close>: the macro \<open>STR_TO_INT\<close> with its bound
  \<open>imax\<close>. The result is the returned errno and the value left in \<open>*i\<close>.
\<close>

definition str2u_full :: "nat \<Rightarrow> bytes \<Rightarrow> nat \<Rightarrow> u8 \<Rightarrow> unit res \<times> nat" where
  "str2u_full imax s base terminator =
     (if cstr_at s 0 = 45 then (fail ERANGE, 0)
      else case strtoull s base of (tmp, endptr, err) \<Rightarrow>
        (case err of
           Some e \<Rightarrow> (fail e, 0)
         | None \<Rightarrow>
             if endptr = 0 then (fail EINVAL, 0)
             else if cstr_at s endptr \<noteq> terminator then (fail EINVAL, 0)
             else if imax < tmp then (fail ERANGE, 0)
             else (Inr (), tmp)))"

definition str2u64 :: "bytes \<Rightarrow> unit res \<times> nat" where
  "str2u64 s = str2u_full 0xffffffffffffffff s 10 0"

definition str2u64_base :: "bytes \<Rightarrow> nat \<Rightarrow> unit res \<times> nat" where
  "str2u64_base s base = str2u_full 0xffffffffffffffff s base 0"

definition str2u32_base :: "bytes \<Rightarrow> nat \<Rightarrow> unit res \<times> nat" where
  "str2u32_base s base = str2u_full 0xffffffff s base 0"

subsection \<open>Powers of two\<close>

definition is_p2 :: "u64 \<Rightarrow> bool" where
  "is_p2 v \<longleftrightarrow> v AND (v - 1) = 0"

definition p2roundup :: "u64 \<Rightarrow> u64 \<Rightarrow> u64 res" where
  "p2roundup v align =
     (if align \<le> 1 then Inr v
      else if \<not> is_p2 align then Inl Panic
      else Inr ((v + (align - 1)) AND NOT (align - 1)))"

subsection \<open>Byte swapping\<close>

definition bswap_64 :: "u64 \<Rightarrow> u64" where
  "bswap_64 x =
     drop_bit 56 (x AND 0xff00000000000000) OR drop_bit 40 (x AND 0x00ff000000000000) OR
     drop_bit 24 (x AND 0x0000ff0000000000) OR drop_bit 8 (x AND 0x000000ff00000000) OR
     push_bit 8 (x AND 0x00000000ff000000) OR push_bit 24 (x AND 0x0000000000ff0000) OR
     push_bit 40 (x AND 0x000000000000ff00) OR push_bit 56 (x AND 0x00000000000000ff)"

definition bswap_32 :: "u32 \<Rightarrow> u32" where
  "bswap_32 x =
     drop_bit 24 (x AND 0xff000000) OR drop_bit 8 (x AND 0x00ff0000) OR
     push_bit 8 (x AND 0x0000ff00) OR push_bit 24 (x AND 0x000000ff)"

definition bswap_16 :: "u16 \<Rightarrow> u16" where
  "bswap_16 x = drop_bit 8 (x AND 0xff00) OR push_bit 8 (x AND 0x00ff)"

definition bswap_8 :: "u8 \<Rightarrow> u8" where
  "bswap_8 x = x AND 0xff"

subsection \<open>Unaligned big-endian and little-endian memory\<close>

text \<open>The loads read the first bytes behind a pointer; a caller checks that they are there.\<close>

definition be64_to_cpu_unaligned :: "bytes \<Rightarrow> u64" where
  "be64_to_cpu_unaligned p =
     push_bit 56 (ucast (p ! 0)) OR push_bit 48 (ucast (p ! 1)) OR push_bit 40 (ucast (p ! 2)) OR
     push_bit 32 (ucast (p ! 3)) OR push_bit 24 (ucast (p ! 4)) OR push_bit 16 (ucast (p ! 5)) OR
     push_bit 8 (ucast (p ! 6)) OR ucast (p ! 7)"

definition cpu64_to_be_unaligned :: "u64 \<Rightarrow> bytes" where
  "cpu64_to_be_unaligned x =
     [ucast (drop_bit 56 x AND 0xff), ucast (drop_bit 48 x AND 0xff), ucast (drop_bit 40 x AND 0xff),
      ucast (drop_bit 32 x AND 0xff), ucast (drop_bit 24 x AND 0xff), ucast (drop_bit 16 x AND 0xff),
      ucast (drop_bit 8 x AND 0xff), ucast (x AND 0xff)]"

definition be32_to_cpu_unaligned :: "bytes \<Rightarrow> u32" where
  "be32_to_cpu_unaligned p =
     push_bit 24 (ucast (p ! 0)) OR push_bit 16 (ucast (p ! 1)) OR push_bit 8 (ucast (p ! 2)) OR
     ucast (p ! 3)"

definition cpu32_to_be_unaligned :: "u32 \<Rightarrow> bytes" where
  "cpu32_to_be_unaligned x =
     [ucast (drop_bit 24 x AND 0xff), ucast (drop_bit 16 x AND 0xff), ucast (drop_bit 8 x AND 0xff),
      ucast (x AND 0xff)]"

definition be16_to_cpu_unaligned :: "bytes \<Rightarrow> u16" where
  "be16_to_cpu_unaligned p = push_bit 8 (ucast (p ! 0)) OR ucast (p ! 1)"

definition cpu16_to_be_unaligned :: "u16 \<Rightarrow> bytes" where
  "cpu16_to_be_unaligned x = [ucast (drop_bit 8 x AND 0xff), ucast (x AND 0xff)]"

definition be8_to_cpu_unaligned :: "bytes \<Rightarrow> u8" where
  "be8_to_cpu_unaligned p = p ! 0"

definition cpu8_to_be_unaligned :: "u8 \<Rightarrow> bytes" where
  "cpu8_to_be_unaligned x = [x]"

definition le64_to_cpu_unaligned :: "bytes \<Rightarrow> u64" where
  "le64_to_cpu_unaligned p = bswap_64 (be64_to_cpu_unaligned p)"

definition cpu64_to_le_unaligned :: "u64 \<Rightarrow> bytes" where
  "cpu64_to_le_unaligned x = cpu64_to_be_unaligned (bswap_64 x)"

definition le32_to_cpu_unaligned :: "bytes \<Rightarrow> u32" where
  "le32_to_cpu_unaligned p = bswap_32 (be32_to_cpu_unaligned p)"

definition cpu32_to_le_unaligned :: "u32 \<Rightarrow> bytes" where
  "cpu32_to_le_unaligned x = cpu32_to_be_unaligned (bswap_32 x)"

definition le16_to_cpu_unaligned :: "bytes \<Rightarrow> u16" where
  "le16_to_cpu_unaligned p = bswap_16 (be16_to_cpu_unaligned p)"

definition cpu16_to_le_unaligned :: "u16 \<Rightarrow> bytes" where
  "cpu16_to_le_unaligned x = cpu16_to_be_unaligned (bswap_16 x)"

text \<open>
  The conversions of a whole integer, on a big-endian (\<open>JEFFPC_CPU_BIG_ENDIAN\<close>) or a little-endian
  machine, and the bytes such a machine has in memory for an integer it stores.
\<close>

definition cpu64_to_be :: "bool \<Rightarrow> u64 \<Rightarrow> u64" where
  "cpu64_to_be big_endian x = (if big_endian then x else bswap_64 x)"

definition cpu32_to_be :: "bool \<Rightarrow> u32 \<Rightarrow> u32" where
  "cpu32_to_be big_endian x = (if big_endian then x else bswap_32 x)"

definition cpu16_to_be :: "bool \<Rightarrow> u16 \<Rightarrow> u16" where
  "cpu16_to_be big_endian x = (if big_endian then x else bswap_16 x)"

definition cpu8_to_be :: "bool \<Rightarrow> u8 \<Rightarrow> u8" where
  "cpu8_to_be big_endian x = (if big_endian then x else bswap_8 x)"

text \<open>The in-memory representation of an integer: its bytes, most or least significant first.\<close>

definition bytes_of :: "nat \<Rightarrow> 'a::len word \<Rightarrow> bytes" where
  "bytes_of n x = map (\<lambda>i. ucast (drop_bit (8 * i) x)) [0..<n]"

definition host_bytes :: "bool \<Rightarrow> nat \<Rightarrow> 'a::len word \<Rightarrow> bytes" where
  "host_bytes big_endian n x = (if big_endian then rev (bytes_of n x) else bytes_of n x)"

subsection \<open>Lemmas\<close>

lemmas be_unfold =
  be64_to_cpu_unaligned_def be32_to_cpu_unaligned_def be16_to_cpu_unaligned_def
  be8_to_cpu_unaligned_def cpu64_to_be_unaligned_def cpu32_to_be_unaligned_def
  cpu16_to_be_unaligned_def cpu8_to_be_unaligned_def

lemma be64_store_load [simp]: "be64_to_cpu_unaligned (cpu64_to_be_unaligned x @ r) = x"
  unfolding be_unfold by (rule word_eqI_upt) (simp add: bit_simps upt_64)

lemma be32_store_load [simp]: "be32_to_cpu_unaligned (cpu32_to_be_unaligned x @ r) = x"
  unfolding be_unfold by (rule word_eqI_upt) (simp add: bit_simps upt_32)

lemma be16_store_load [simp]: "be16_to_cpu_unaligned (cpu16_to_be_unaligned x @ r) = x"
  unfolding be_unfold by (rule word_eqI_upt) (simp add: bit_simps upt_16)

lemma be8_store_load [simp]: "be8_to_cpu_unaligned (cpu8_to_be_unaligned x @ r) = x"
  by (simp add: be_unfold)

lemma length_cpu_to_be [simp]:
  "length (cpu64_to_be_unaligned x) = 8" "length (cpu32_to_be_unaligned y) = 4"
  "length (cpu16_to_be_unaligned z) = 2" "length (cpu8_to_be_unaligned w) = 1"
  by (simp_all add: be_unfold)

lemma bswap_64_bswap_64 [simp]: "bswap_64 (bswap_64 x) = x"
  unfolding bswap_64_def by (rule word_eqI_upt) (simp add: bit_simps upt_64)

lemma bswap_32_bswap_32 [simp]: "bswap_32 (bswap_32 x) = x"
  unfolding bswap_32_def by (rule word_eqI_upt) (simp add: bit_simps upt_32)

lemma bswap_16_bswap_16 [simp]: "bswap_16 (bswap_16 x) = x"
  unfolding bswap_16_def by (rule word_eqI_upt) (simp add: bit_simps upt_16)

lemma bswap_8_id [simp]: "bswap_8 x = x"
  unfolding bswap_8_def by (rule word_eqI_upt) (simp add: bit_simps upt_8)

text \<open>On both kinds of machine a converted integer lies in memory in network order.\<close>

lemmas host_unfold = host_bytes_def bytes_of_def be_unfold cpu64_to_be_def cpu32_to_be_def
  cpu16_to_be_def cpu8_to_be_def bswap_64_def bswap_32_def bswap_16_def

lemma host_cpu64_to_be: "host_bytes be 8 (cpu64_to_be be x) = cpu64_to_be_unaligned x"
  unfolding host_unfold
  by (cases be) (auto simp: bits_upt bit_simps list_all_iff intro!: word_eqI_upt)

lemma host_cpu32_to_be: "host_bytes be 4 (cpu32_to_be be x) = cpu32_to_be_unaligned x"
  unfolding host_unfold
  by (cases be) (auto simp: upt_rec bits_upt bit_simps list_all_iff intro!: word_eqI_upt)

lemma host_cpu16_to_be: "host_bytes be 2 (cpu16_to_be be x) = cpu16_to_be_unaligned x"
  unfolding host_unfold
  by (cases be) (auto simp: upt_rec bits_upt bit_simps list_all_iff intro!: word_eqI_upt)

lemma host_cpu8_to_be: "host_bytes be 1 (cpu8_to_be be x) = cpu8_to_be_unaligned x"
  by (simp add: host_unfold)

lemmas host_cpu_to_be = host_cpu64_to_be host_cpu32_to_be host_cpu16_to_be host_cpu8_to_be

lemma le64_store_load: "le64_to_cpu_unaligned (cpu64_to_le_unaligned x @ r) = x"
  by (simp add: le64_to_cpu_unaligned_def cpu64_to_le_unaligned_def)

lemma le32_store_load: "le32_to_cpu_unaligned (cpu32_to_le_unaligned x @ r) = x"
  by (simp add: le32_to_cpu_unaligned_def cpu32_to_le_unaligned_def)

lemma le16_store_load: "le16_to_cpu_unaligned (cpu16_to_le_unaligned x @ r) = x"
  by (simp add: le16_to_cpu_unaligned_def cpu16_to_le_unaligned_def)

subsubsection \<open>Powers of two\<close>

lemma nat_and_pred_eq_0: "(n :: nat) AND (n - 1) = 0 \<longleftrightarrow> n = 0 \<or> (\<exists>k. n = 2 ^ k)"
proof (induction n rule: less_induct)
  case (less n)
  show ?case
  proof (cases "even n")
    case True
    then obtain m where m: "n = 2 * m" by (auto elim: evenE)
    show ?thesis
    proof (cases "m = 0")
      case False
      have pred_half: "(2 * m - Suc 0) div 2 = m - Suc 0"
        using False by arith
      have "n AND (n - 1) = 2 * (m AND (m - 1))"
        using False m by (subst and_nat_rec) (auto simp: pred_half)
      moreover have "(m AND (m - 1) = 0) = (m = 0 \<or> (\<exists>k. m = 2 ^ k))"
        using less.IH [of m] False m by auto
      moreover have "(\<exists>k. m = 2 ^ k) \<longleftrightarrow> (\<exists>k. n = 2 ^ k)"
      proof
        assume "\<exists>k. m = 2 ^ k"
        then show "\<exists>k. n = 2 ^ k" using m by (metis power_Suc)
      next
        assume "\<exists>k. n = 2 ^ k"
        then obtain k where k: "n = 2 ^ k" ..
        then have "k \<noteq> 0" using True by (cases k) auto
        then have "m = 2 ^ (k - 1)" using k m by (cases k) auto
        then show "\<exists>k. m = 2 ^ k" ..
      qed
      ultimately show ?thesis using False m by auto
    qed (simp add: m)
  next
    case False
    then obtain m where m: "n = 2 * m + 1" by (auto elim: oddE)
    have "n AND (n - 1) = 2 * m"
      using m by (subst and_nat_rec) auto
    moreover have "(\<exists>k. n = 2 ^ k) \<longleftrightarrow> m = 0"
    proof
      assume "\<exists>k. n = 2 ^ k"
      then obtain k where "n = 2 ^ k" ..
      then show "m = 0" using False m by (cases k) auto
    next
      assume "m = 0"
      then have "n = 2 ^ 0" using m by simp
      then show "\<exists>k. n = 2 ^ k" ..
    qed
    ultimately show ?thesis using m by auto
  qed
qed

lemma is_p2_iff: "is_p2 v \<longleftrightarrow> v = 0 \<or> (\<exists>k<64. v = 2 ^ k)"
proof (cases "v = 0")
  case False
  have pred: "unat (v - 1) = unat v - 1"
    using False by (simp add: unat_minus_one)
  have "is_p2 v \<longleftrightarrow> unat v AND (unat v - 1) = 0"
    unfolding is_p2_def by (simp add: unsigned_and_eq pred flip: unsigned_eq_0_iff [where ?'a = nat])
  also have "\<dots> \<longleftrightarrow> (\<exists>k. unat v = 2 ^ k)"
    using False nat_and_pred_eq_0 [of "unat v"] by (simp add: unat_eq_zero)
  also have "\<dots> \<longleftrightarrow> (\<exists>k<64. v = 2 ^ k)"
  proof
    assume "\<exists>k. unat v = 2 ^ k"
    then obtain k where k: "unat v = 2 ^ k" ..
    moreover have "unat v < 2 ^ 64" using unsigned_less [of v, where ?'a = nat] by simp
    ultimately have "k < 64" by (metis one_less_numeral_iff power_strict_increasing_iff semiring_norm(76))
    moreover have "v = word_of_nat (2 ^ k)" by (simp flip: k)
    ultimately show "\<exists>k<64. v = 2 ^ k" by auto
  next
    assume "\<exists>k<64. v = 2 ^ k"
    then show "\<exists>k. unat v = 2 ^ k" by (auto simp: unat_p2)
  qed
  finally show ?thesis using False by simp
qed (simp add: is_p2_def)

lemma and_not_mask_eq: "(x :: u64) AND NOT (2 ^ k - 1) = push_bit k (drop_bit k x)"
  by (rule bit_word_eqI) (auto simp: bit_simps simp flip: mask_eq_exp_minus_1)

lemma unat_push_drop_bit:
  "unat (push_bit k (drop_bit k (x :: u64))) = unat x div 2 ^ k * 2 ^ k"
proof -
  have "unat x div 2 ^ k * 2 ^ k \<le> unat x" by simp
  also note unat_less_2_64 [of x]
  finally have small: "unat x div 2 ^ k * 2 ^ k < 2 ^ 64" .
  have "unat (drop_bit k x) = unat x div 2 ^ k"
    by (simp only: unsigned_drop_bit_eq)
      (simp add: drop_bit_eq_div take_bit_nat_eq_self [OF unat_less_2_64])
  then show ?thesis
    using small by (simp only: unsigned_push_bit_eq) (simp add: push_bit_eq_mult take_bit_nat_eq_self)
qed

lemma p2roundup_correct:
  assumes k: "k < 64" and small: "unat v + (2 ^ k - 1) < 2 ^ 64"
  shows "\<exists>r. p2roundup v (2 ^ k) = Inr r \<and> unat r = (unat v + (2 ^ k - 1)) div 2 ^ k * 2 ^ k"
proof (cases "k = 0")
  case False
  then have gt: "\<not> (2 :: u64) ^ k \<le> 1"
    using k one_less_power [of "2::nat" k] by (simp add: word_le_nat_alt unat_p2)
  have sum: "unat (v + (2 ^ k - 1)) = unat v + (2 ^ k - 1)"
    using k small by (simp add: unat_word_ariths unat_minus_one unat_p2)
  have "is_p2 (2 ^ k)" using k by (auto simp: is_p2_iff)
  with gt have "p2roundup v (2 ^ k) = Inr (push_bit k (drop_bit k (v + (2 ^ k - 1))))"
    by (simp add: p2roundup_def and_not_mask_eq)
  then show ?thesis using sum by (simp add: unat_push_drop_bit)
qed (simp add: p2roundup_def)

subsubsection \<open>Parsing digits\<close>

lemma digit_val_range: "digit_val c = Some d \<Longrightarrow> d < 36"
  by (auto simp: digit_val_def word_le_nat_alt split: if_splits)

lemma digit_not_blank_or_sign:
  assumes "is_digit_of base c"
  shows "\<not> is_space c" and "c \<noteq> 45" and "c \<noteq> 43" and "c \<noteq> 0"
  using assms by (auto simp: is_digit_of_def digit_val_def is_space_def word_le_nat_alt split: if_splits)

lemma digit_16_not_x: "is_digit_of 16 c \<Longrightarrow> c \<noteq> 120 \<and> c \<noteq> 88"
  by (auto simp: is_digit_of_def digit_val_def word_le_nat_alt split: if_splits)

lemma hex_prefix_digits: "list_all (is_digit_of base) s \<Longrightarrow> hex_prefix base s = 0"
  by (auto simp: hex_prefix_def list_all_length dest!: spec [of _ "1::nat"] digit_16_not_x)

lemma strtoull_digits:
  assumes "2 \<le> base" and "base \<le> 36" and "s \<noteq> []" and "list_all (is_digit_of base) s"
  shows "strtoull s base =
    (if 2 ^ 64 \<le> digits_val base s then (2 ^ 64 - 1, length s, Some ERANGE)
     else (digits_val base s, length s, None))"
proof -
  have hd: "is_digit_of base (hd s)" and tw: "takeWhile (is_digit_of base) s = s"
    using assms by (auto simp: list_all_iff)
  have "takeWhile is_space s = []"
    using digit_not_blank_or_sign (1) [OF hd] assms(3) by (cases s) auto
  then show ?thesis
    using assms(1-3) digit_not_blank_or_sign [OF hd] hex_prefix_digits [OF assms(4)]
    by (simp add: strtoull_def Let_def tw)
qed

lemma str2u_full_digits:
  assumes "2 \<le> base" and "base \<le> 36" and "s \<noteq> []" and "list_all (is_digit_of base) s"
    and "imax < 2 ^ 64"
  shows "str2u_full imax s base 0 =
    (if digits_val base s \<le> imax then (Inr (), digits_val base s) else (fail ERANGE, 0))"
proof -
  have "cstr_at s 0 \<noteq> 45"
    using assms digit_not_blank_or_sign (2) [of base "s ! 0"] by (auto simp: cstr_at_def list_all_length)
  then show ?thesis
    using assms strtoull_digits [OF assms(1-4)] by (auto simp: str2u_full_def cstr_at_def)
qed

lemma str2u_full_bounded: "str2u_full imax s base t = (Inr (), v) \<Longrightarrow> v \<le> imax"
  by (auto simp: str2u_full_def split: if_splits prod.splits option.splits)

subsubsection \<open>Printing decimal numbers\<close>

text \<open>What the C library prints for \<open>%"PRIu64"\<close>.\<close>

fun dec_of_nat :: "nat \<Rightarrow> bytes" where
  "dec_of_nat n = (if n < 10 then [word_of_nat (48 + n)]
     else dec_of_nat (n div 10) @ [word_of_nat (48 + n mod 10)])"

declare dec_of_nat.simps [simp del]

lemma digit_val_decimal: "d < 10 \<Longrightarrow> digit_val (word_of_nat (48 + d)) = Some d"
  using unat_of_nat_u8 [of "48 + d"] by (simp add: digit_val_def word_le_nat_alt del: of_nat_add)

lemma is_digit_decimal: "d < 10 \<Longrightarrow> is_digit_of 10 (word_of_nat (48 + d))"
  unfolding is_digit_of_def by (simp only: digit_val_decimal) simp

lemma dec_of_nat_digits: "list_all (is_digit_of 10) (dec_of_nat n)"
proof (induction n rule: dec_of_nat.induct)
  case (1 n)
  show ?case
    using 1 is_digit_decimal [of n] is_digit_decimal [of "n mod 10"]
    by (subst dec_of_nat.simps) (auto simp del: of_nat_add)
qed

lemma dec_of_nat_val: "digits_val 10 (dec_of_nat n) = n"
proof (induction n rule: dec_of_nat.induct)
  case (1 n)
  show ?case
    using 1 digit_val_decimal [of n] digit_val_decimal [of "n mod 10"]
    by (subst dec_of_nat.simps) (auto simp: digits_val_def simp del: of_nat_add)
qed

lemma dec_of_nat_nonempty [simp]: "dec_of_nat n \<noteq> []"
  by (subst dec_of_nat.simps) simp

lemma le_round_up: "0 < (p :: nat) \<Longrightarrow> v \<le> (v + (p - 1)) div p * p"
  using div_mult_mod_eq [of "v + (p - 1)" p] mod_less_divisor [of p "v + (p - 1)"] by linarith

lemma round_up_least:
  assumes "p dvd q" and "v \<le> q" and "0 < (p :: nat)"
  shows "(v + (p - 1)) div p * p \<le> q"
proof -
  obtain c where c: "q = p * c" using assms(1) ..
  have "v + (p - 1) < p * Suc c" using assms(2,3) c by simp
  then have "(v + (p - 1)) div p < Suc c" using assms(3) by (simp add: less_mult_imp_div_less mult.commute)
  then have "(v + (p - 1)) div p \<le> c" by simp
  then have "(v + (p - 1)) div p * p \<le> c * p" by (rule mult_le_mono1)
  then show ?thesis using c by (simp add: mult.commute)
qed

subsubsection \<open>Decimal texts\<close>

text \<open>What a row of decimal digits stands for, without reference to the parser.\<close>

definition dec_digit :: "u8 \<Rightarrow> nat option" where
  "dec_digit c = map_of (zip (ascii ''0123456789'') [0..<10]) c"

definition is_decimal :: "bytes \<Rightarrow> bool" where
  "is_decimal s \<longleftrightarrow> s \<noteq> [] \<and> list_all (\<lambda>c. dec_digit c \<noteq> None) s"

definition dec_value :: "bytes \<Rightarrow> nat" where
  "dec_value s = foldl (\<lambda>v c. v * 10 + the (dec_digit c)) 0 s"

lemma dec_table: "zip (ascii ''0123456789'') [0..<10] = [(48, 0), (49, 1), (50, 2), (51, 3), (52, 4), (53, 5), (54, 6), (55, 7), (56, 8), (57, 9)]"
  by code_simp

lemma dec_range: "48 \<le> c \<and> c \<le> 57 \<longleftrightarrow> c \<in> {48, 49, 50, 51, 52, 53, 54, 55, 56, 57}" for c :: u8
  by (simp add: word_le_nat_alt word_unat_eq_iff, presburger)

lemma dec_digit_val: "dec_digit c = (if 48 \<le> c \<and> c \<le> 57 then digit_val c else None)"
  unfolding dec_digit_def dec_table dec_range by (auto simp: digit_val_def)

lemma dec_digit_is: "is_digit_of 10 c \<longleftrightarrow> dec_digit c \<noteq> None"
  by (auto simp: dec_digit_val is_digit_of_def digit_val_def word_le_nat_alt)

lemma dec_value_digits:
  assumes "list_all (is_digit_of 10) s"
  shows "dec_value s = digits_val 10 s"
proof -
  have "foldl (\<lambda>v c. v * 10 + the (dec_digit c)) k s = foldl (\<lambda>v c. v * 10 + the (digit_val c)) k s" for k
    using assms unfolding dec_digit_is by (induction s arbitrary: k) (auto simp: dec_digit_val split: if_splits)
  then show ?thesis
    by (simp add: dec_value_def digits_val_def)
qed

lemma str2u64_decimal:
  assumes "is_decimal s"
  shows "str2u64 s = (if dec_value s < 2 ^ 64 then (Inr (), dec_value s) else (fail ERANGE, 0))"
proof -
  have d: "list_all (is_digit_of 10) s" "s \<noteq> []"
    using assms by (auto simp: is_decimal_def dec_digit_is list_all_iff)
  then have "dec_value s = digits_val 10 s"
    by (intro dec_value_digits)
  then show ?thesis
    using str2u_full_digits [of 10 s "2 ^ 64 - 1"] d by (auto simp: str2u64_def)
qed

lemma length_dec_of_nat: "n < 10 ^ k \<Longrightarrow> 0 < k \<Longrightarrow> length (dec_of_nat n) \<le> k"
proof (induction k arbitrary: n)
  case (Suc k)
  show ?case
  proof (cases "n < 10")
    case True
    then show ?thesis by (subst dec_of_nat.simps) simp
  next
    case False
    then have "0 < k" using Suc.prems(1) by (cases k) auto
    moreover have "n div 10 < 10 ^ k" using Suc.prems(1) by (simp add: less_mult_imp_div_less mult.commute)
    ultimately show ?thesis using False Suc.IH [of "n div 10"] by (subst dec_of_nat.simps) simp
  qed
qed simp

lemma dec_of_nat_decimal: "is_decimal (dec_of_nat n) \<and> dec_value (dec_of_nat n) = n"
  using dec_of_nat_digits [of n] dec_of_nat_val [of n] dec_value_digits [of "dec_of_nat n"] dec_digit_is
  by (auto simp: is_decimal_def list_all_iff)

subsection \<open>Properties\<close>

text \<open>
  C3. A decimal number printed by the C library is read back by \<open>str2u64\<close>: the same number when it
  fits 64 bits, and \<open>-ERANGE\<close> with \<open>*i\<close> left 0 when it does not.
\<close>

theorem str2u64_dec_of_nat:
  "str2u64 (dec_of_nat n) = (if n < 2 ^ 64 then (Inr (), n) else (fail ERANGE, 0))"
  using str2u_full_digits [of 10 "dec_of_nat n" "2 ^ 64 - 1"] dec_of_nat_digits [of n]
  by (auto simp: str2u64_def dec_of_nat_val)

text \<open>
  Integers stored with the unaligned big-endian and little-endian stores are read back by the
  matching loads, whatever follows in memory, and on a machine of either endianness the bytes of a
  converted integer are those the big-endian store writes.
\<close>

theorem endian_roundtrip:
  "be64_to_cpu_unaligned (cpu64_to_be_unaligned x @ r) = x \<and>
   be32_to_cpu_unaligned (cpu32_to_be_unaligned y @ r) = y \<and>
   be16_to_cpu_unaligned (cpu16_to_be_unaligned z @ r) = z \<and>
   le64_to_cpu_unaligned (cpu64_to_le_unaligned x @ r) = x \<and>
   le32_to_cpu_unaligned (cpu32_to_le_unaligned y @ r) = y \<and>
   le16_to_cpu_unaligned (cpu16_to_le_unaligned z @ r) = z \<and>
   host_bytes big 8 (cpu64_to_be big x) = cpu64_to_be_unaligned x \<and>
   host_bytes big 4 (cpu32_to_be big y) = cpu32_to_be_unaligned y \<and>
   host_bytes big 2 (cpu16_to_be big z) = cpu16_to_be_unaligned z"
  by (simp add: le64_store_load le32_store_load le16_store_load host_cpu_to_be)

text \<open>
  Rounding up to a power of two gives the least multiple of it that is not below the value, as
  long as that multiple fits 64 bits.
\<close>

theorem p2roundup_least_multiple:
  assumes "k < 64" and "unat v + (2 ^ k - 1) < 2 ^ 64"
  shows "\<exists>r. p2roundup v (2 ^ k) = Inr r \<and> unat v \<le> unat r \<and> 2 ^ k dvd unat r \<and>
    (\<forall>q. 2 ^ k dvd q \<and> unat v \<le> q \<longrightarrow> unat r \<le> q)"
proof -
  obtain r where r: "p2roundup v (2 ^ k) = Inr r" "unat r = (unat v + (2 ^ k - 1)) div 2 ^ k * 2 ^ k"
    using p2roundup_correct [OF assms] by blast
  have "unat v \<le> unat r" unfolding r(2) by (rule le_round_up) simp
  moreover have "unat r \<le> q" if "2 ^ k dvd q" "unat v \<le> q" for q
    unfolding r(2) using that by (intro round_up_least) auto
  ultimately show ?thesis using r by auto
qed

theorem p2roundup_least_multiple_witness:
  "\<exists>r. p2roundup 13 8 = Inr r \<and> 13 \<le> unat r \<and> 8 dvd unat r"
  using p2roundup_least_multiple [of 3 13] by auto

text \<open>A minus sign behind a blank passes the check for negative numbers.\<close>

theorem str2u64_blank_minus: "str2u64 [32, 45, 49] = (Inr (), 2 ^ 64 - 1)"
  by (simp add: str2u64_def str2u_full_def strtoull_def cstr_at_def is_space_def hex_prefix_def
      is_digit_of_def digit_val_def digits_val_def Let_def)

text \<open>The test for a power of two accepts 0.\<close>

theorem is_p2_zero: "is_p2 0"
  by (simp add: is_p2_def)

end
