(* ===== verification/Buffer.thy ===== *)
theory Buffer
  imports Prelude
begin

text \<open>
  The buffer component: \<^verbatim>\<open>src/buffer.c\<close>, \<^verbatim>\<open>src/include/jeffpc/buffer.h\<close> and the five
  implementations \<^verbatim>\<open>src/buffer_heap.c\<close>, \<^verbatim>\<open>src/buffer_sink.c\<close>, \<^verbatim>\<open>src/buffer_static.c\<close> (read-only
  and read-write) and \<^verbatim>\<open>src/buffer_stdio.c\<close>.

  A \<open>struct buffer\<close> is the record \<open>buffer\<close>. Its vtable pointer \<open>ops\<close> is one of the five constants of
  the datatype \<open>buffer_ops\<close>; each entry of \<open>struct buffer_ops\<close> is a function of that datatype, with
  \<open>None\<close> for an entry the implementation leaves \<open>NULL\<close>. \<open>b_data\<close> is the block of memory the data
  pointer points to (\<open>None\<close> for \<open>NULL\<close>), whose length is the real size of the block, so an access
  beyond it is a \<open>Fault\<close>. \<open>b_mem\<close> is not a C field: it is the C library's allocator (see
  \<^verbatim>\<open>Prelude\<close>) as the calls on this buffer see it.

  The functions below take a buffer that is there; the guard \<open>if (!buffer) return -EINVAL\<close> they
  share is \<open>with_buffer\<close>.
\<close>

subsection \<open>Data\<close>

datatype buffer_ops = heap_buffer | sink_buffer | static_buffer_ro | static_buffer_rw | stdio_buffer

text \<open>A \<open>FILE *\<close>: the bytes written to it, the bytes it still accepts, the bytes left to read.\<close>

record cfile =
  f_out :: bytes
  f_room :: nat
  f_in :: bytes

record buffer =
  b_data :: "bytes option"
  b_off :: nat
  b_size :: nat
  b_allocsize :: nat
  b_ops :: buffer_ops
  b_private :: cfile
  b_heap :: bool
  b_mem :: mem

datatype whence = SEEK_SET | SEEK_CUR | SEEK_END | SEEK_OTHER

text \<open>\<open>fwrite(ptr, n, 1, f)\<close> and \<open>fread(ptr, n, 1, f)\<close>: one object of \<open>n\<close> bytes; they answer 0 for an
  object of no bytes.\<close>

definition c_fwrite :: "bytes \<Rightarrow> cfile \<Rightarrow> nat \<times> cfile" where
  "c_fwrite bs f =
     (if bs \<noteq> [] \<and> length bs \<le> f_room f
      then (1, f\<lparr>f_out := f_out f @ bs, f_room := f_room f - length bs\<rparr>) else (0, f))"

definition c_fread :: "nat \<Rightarrow> cfile \<Rightarrow> nat \<times> bytes \<times> cfile" where
  "c_fread n f =
     (if n \<noteq> 0 \<and> n \<le> length (f_in f) then (1, take n (f_in f), f\<lparr>f_in := drop n (f_in f)\<rparr>)
      else (0, [], f))"

subsection \<open>Generic implementations\<close>

text \<open>\<open>memset\<close>, \<open>memcpy\<close> to and from the data block; the source object of a copy has to hold the
  bytes that are copied.\<close>

definition data_write :: "nat \<Rightarrow> bytes \<Rightarrow> (buffer, unit) cfun" where
  "data_write off bs b =
     (case b_data b of
        None \<Rightarrow> (if bs = [] then Inr () else Inl Fault, b)
      | Some d \<Rightarrow>
          (case blk_write d off bs of
             None \<Rightarrow> (Inl Fault, b)
           | Some d' \<Rightarrow> (Inr (), b\<lparr>b_data := Some d'\<rparr>)))"

definition generic_buffer_clear_memset :: "nat \<Rightarrow> nat \<Rightarrow> (buffer, unit) cfun" where
  "generic_buffer_clear_memset off len = data_write off (replicate len 0)"

definition generic_buffer_clear_nop :: "nat \<Rightarrow> nat \<Rightarrow> (buffer, unit) cfun" where
  "generic_buffer_clear_nop off len = cret ()"

definition generic_buffer_clear_panic :: "nat \<Rightarrow> nat \<Rightarrow> (buffer, unit) cfun" where
  "generic_buffer_clear_panic off len = cerr Panic"

definition generic_buffer_copyin_memcpy :: "nat \<Rightarrow> bytes \<Rightarrow> nat \<Rightarrow> (buffer, unit) cfun" where
  "generic_buffer_copyin_memcpy off newdata newdatalen =
     (if length newdata < newdatalen then cerr Fault else data_write off (take newdatalen newdata))"

definition generic_buffer_copyin_nop :: "nat \<Rightarrow> bytes \<Rightarrow> nat \<Rightarrow> (buffer, unit) cfun" where
  "generic_buffer_copyin_nop off newdata newdatalen = cret ()"

definition generic_buffer_copyin_panic :: "nat \<Rightarrow> bytes \<Rightarrow> nat \<Rightarrow> (buffer, unit) cfun" where
  "generic_buffer_copyin_panic off newdata newdatalen = cerr Panic"

definition generic_buffer_copyout_memcpy :: "nat \<Rightarrow> nat \<Rightarrow> (buffer, bytes) cfun" where
  "generic_buffer_copyout_memcpy off datalen b =
     (case b_data b of
        None \<Rightarrow> (if datalen = 0 then Inr [] else Inl Fault, b)
      | Some d \<Rightarrow> (case blk_read d off datalen of None \<Rightarrow> Inl Fault | Some bs \<Rightarrow> Inr bs, b))"

definition generic_buffer_copyout_panic :: "nat \<Rightarrow> nat \<Rightarrow> (buffer, bytes) cfun" where
  "generic_buffer_copyout_panic off datalen = cerr Panic"

subsection \<open>The five implementations\<close>

definition sink_buffer_check_read :: "buffer \<Rightarrow> nat \<Rightarrow> nat \<Rightarrow> unit res" where
  "sink_buffer_check_read b len off = fail ENOTSUP"

definition static_buffer_check_append_ro :: "buffer \<Rightarrow> nat \<Rightarrow> unit res" where
  "static_buffer_check_append_ro b sz = fail EROFS"

definition static_buffer_check_append_rw :: "buffer \<Rightarrow> nat \<Rightarrow> unit res" where
  "static_buffer_check_append_rw b sz =
     (if wrap64 (b_size b + sz) \<le> b_allocsize b then Inr () else fail ENOSPC)"

definition static_buffer_check_truncate_ro :: "buffer \<Rightarrow> nat \<Rightarrow> unit res" where
  "static_buffer_check_truncate_ro b sz = fail EROFS"

definition static_buffer_check_truncate_rw :: "buffer \<Rightarrow> nat \<Rightarrow> unit res" where
  "static_buffer_check_truncate_rw b sz = (if sz \<le> b_allocsize b then Inr () else fail ENOSPC)"

definition static_buffer_check_write_ro :: "buffer \<Rightarrow> nat \<Rightarrow> nat \<Rightarrow> unit res" where
  "static_buffer_check_write_ro b len off = fail EROFS"

definition static_buffer_check_write_rw :: "buffer \<Rightarrow> nat \<Rightarrow> nat \<Rightarrow> unit res" where
  "static_buffer_check_write_rw b len off =
     (if wrap64 (off + len) \<le> b_allocsize b then Inr () else fail ENOSPC)"

definition stdio_buffer_check_truncate :: "buffer \<Rightarrow> nat \<Rightarrow> unit res" where
  "stdio_buffer_check_truncate b sz = fail ESPIPE"

definition stdio_buffer_check_seek :: "buffer \<Rightarrow> nat \<Rightarrow> unit res" where
  "stdio_buffer_check_seek b newoff = (if newoff = b_size b then Inr () else fail ENOTSUP)"

definition stdio_buffer_copyin :: "nat \<Rightarrow> bytes \<Rightarrow> nat \<Rightarrow> (buffer, unit) cfun" where
  "stdio_buffer_copyin off newdata newdatalen b =
     (if length newdata < newdatalen then (Inl Fault, b)
      else case c_fwrite (take newdatalen newdata) (b_private b) of (n, f) \<Rightarrow>
        (if n \<noteq> 1 then (Inl Panic, b) else (Inr (), b\<lparr>b_private := f\<rparr>)))"

definition stdio_buffer_copyout :: "nat \<Rightarrow> nat \<Rightarrow> (buffer, bytes) cfun" where
  "stdio_buffer_copyout off datalen b =
     (case c_fread datalen (b_private b) of (n, bs, f) \<Rightarrow>
        (if n \<noteq> 1 then (Inl Panic, b) else (Inr bs, b\<lparr>b_private := f\<rparr>)))"

text \<open>The vtables \<open>heap_buffer\<close>, \<open>sink_buffer\<close>, \<open>static_buffer_ro\<close>, \<open>static_buffer_rw\<close> and
  \<open>stdio_buffer\<close>, entry by entry.\<close>

fun op_check_append :: "buffer_ops \<Rightarrow> (buffer \<Rightarrow> nat \<Rightarrow> unit res) option" where
  "op_check_append static_buffer_ro = Some static_buffer_check_append_ro"
| "op_check_append static_buffer_rw = Some static_buffer_check_append_rw"
| "op_check_append _ = None"

fun op_check_read :: "buffer_ops \<Rightarrow> (buffer \<Rightarrow> nat \<Rightarrow> nat \<Rightarrow> unit res) option" where
  "op_check_read sink_buffer = Some sink_buffer_check_read"
| "op_check_read _ = None"

fun op_check_truncate :: "buffer_ops \<Rightarrow> (buffer \<Rightarrow> nat \<Rightarrow> unit res) option" where
  "op_check_truncate static_buffer_ro = Some static_buffer_check_truncate_ro"
| "op_check_truncate static_buffer_rw = Some static_buffer_check_truncate_rw"
| "op_check_truncate stdio_buffer = Some stdio_buffer_check_truncate"
| "op_check_truncate _ = None"

fun op_check_write :: "buffer_ops \<Rightarrow> (buffer \<Rightarrow> nat \<Rightarrow> nat \<Rightarrow> unit res) option" where
  "op_check_write static_buffer_ro = Some static_buffer_check_write_ro"
| "op_check_write static_buffer_rw = Some static_buffer_check_write_rw"
| "op_check_write _ = None"

fun op_check_seek :: "buffer_ops \<Rightarrow> (buffer \<Rightarrow> nat \<Rightarrow> unit res) option" where
  "op_check_seek stdio_buffer = Some stdio_buffer_check_seek"
| "op_check_seek _ = None"

fun op_realloc :: "buffer_ops \<Rightarrow> (bytes \<Rightarrow> nat \<Rightarrow> mem \<Rightarrow> bytes option \<times> mem) option" where
  "op_realloc heap_buffer = Some c_realloc"
| "op_realloc _ = None"

fun op_free :: "buffer_ops \<Rightarrow> bool" where
  "op_free heap_buffer = True"
| "op_free _ = False"

fun op_clear :: "buffer_ops \<Rightarrow> nat \<Rightarrow> nat \<Rightarrow> (buffer, unit) cfun" where
  "op_clear heap_buffer = generic_buffer_clear_memset"
| "op_clear sink_buffer = generic_buffer_clear_nop"
| "op_clear static_buffer_ro = generic_buffer_clear_panic"
| "op_clear static_buffer_rw = generic_buffer_clear_memset"
| "op_clear stdio_buffer = generic_buffer_clear_panic"

fun op_copyin :: "buffer_ops \<Rightarrow> nat \<Rightarrow> bytes \<Rightarrow> nat \<Rightarrow> (buffer, unit) cfun" where
  "op_copyin heap_buffer = generic_buffer_copyin_memcpy"
| "op_copyin sink_buffer = generic_buffer_copyin_nop"
| "op_copyin static_buffer_ro = generic_buffer_copyin_panic"
| "op_copyin static_buffer_rw = generic_buffer_copyin_memcpy"
| "op_copyin stdio_buffer = stdio_buffer_copyin"

fun op_copyout :: "buffer_ops \<Rightarrow> nat \<Rightarrow> nat \<Rightarrow> (buffer, bytes) cfun" where
  "op_copyout heap_buffer = generic_buffer_copyout_memcpy"
| "op_copyout sink_buffer = generic_buffer_copyout_panic"
| "op_copyout static_buffer_ro = generic_buffer_copyout_memcpy"
| "op_copyout static_buffer_rw = generic_buffer_copyout_memcpy"
| "op_copyout stdio_buffer = stdio_buffer_copyout"

text \<open>\<open>if (ops->check) { ret = ops->check(...); if (ret) return ret; }\<close>\<close>

definition run_check :: "(buffer \<Rightarrow> unit res) option \<Rightarrow> (buffer, unit) cfun" where
  "run_check c b = (case c of None \<Rightarrow> (Inr (), b) | Some f \<Rightarrow> (f b, b))"

subsection \<open>Operations\<close>

text \<open>Initialisation. \<open>no_file\<close> stands for the \<open>private\<close> pointer that only stdio buffers set.\<close>

definition no_file :: cfile where
  "no_file = \<lparr>f_out = [], f_room = 0, f_in = []\<rparr>"

definition buffer_init_heap :: "nat \<Rightarrow> mem \<Rightarrow> buffer res \<times> mem" where
  "buffer_init_heap expected_size m =
     (case c_malloc (if expected_size \<noteq> 0 then expected_size else 1) m of
        (None, m') \<Rightarrow> (fail ENOMEM, m')
      | (Some d, m') \<Rightarrow>
          (Inr \<lparr>b_data = Some d, b_off = 0, b_size = 0, b_allocsize = expected_size,
             b_ops = heap_buffer, b_private = no_file, b_heap = False, b_mem = m'\<rparr>, m'))"

definition sizeof_buffer :: nat where
  "sizeof_buffer = 56"

definition buffer_alloc :: "nat \<Rightarrow> mem \<Rightarrow> buffer res \<times> mem" where
  "buffer_alloc expected_size m =
     (case c_malloc sizeof_buffer m of
        (None, m') \<Rightarrow> (fail ENOMEM, m')
      | (Some _, m') \<Rightarrow>
          (case buffer_init_heap expected_size m' of
             (Inl e, m'') \<Rightarrow> (Inl e, m'')
           | (Inr b, m'') \<Rightarrow> (Inr (b\<lparr>b_heap := True\<rparr>), m'')))"

text \<open>\<open>buffer_free\<close>: is the data block released, is the structure itself released?\<close>

definition buffer_free :: "buffer option \<Rightarrow> bool \<times> bool" where
  "buffer_free b = (case b of None \<Rightarrow> (False, False) | Some b \<Rightarrow> (op_free (b_ops b), b_heap b))"

definition buffer_init_sink :: "mem \<Rightarrow> buffer" where
  "buffer_init_sink m =
     \<lparr>b_data = None, b_off = 0, b_size = 0, b_allocsize = SIZE_MAX,
      b_ops = sink_buffer, b_private = no_file, b_heap = False, b_mem = m\<rparr>"

definition buffer_init_static :: "bytes option \<Rightarrow> nat \<Rightarrow> nat \<Rightarrow> bool \<Rightarrow> mem \<Rightarrow> buffer res" where
  "buffer_init_static data sz bufsize writable m =
     (if bufsize < sz then Inl Panic
      else Inr \<lparr>b_data = data, b_off = 0, b_size = sz, b_allocsize = bufsize,
        b_ops = (if writable then static_buffer_rw else static_buffer_ro),
        b_private = no_file, b_heap = False, b_mem = m\<rparr>)"

definition buffer_init_stdio :: "cfile \<Rightarrow> mem \<Rightarrow> buffer" where
  "buffer_init_stdio f m =
     \<lparr>b_data = None, b_off = 0, b_size = 0, b_allocsize = SIZE_MAX,
      b_ops = stdio_buffer, b_private = f, b_heap = False, b_mem = m\<rparr>"

definition resize :: "nat \<Rightarrow> (buffer, unit) cfun" where
  "resize newsize b =
     (if newsize \<le> b_allocsize b then (Inr (), b)
      else case op_realloc (b_ops b) of
        None \<Rightarrow> (fail ENOTSUP, b)
      | Some ralloc \<Rightarrow>
          (case ralloc (case b_data b of None \<Rightarrow> [] | Some d \<Rightarrow> d) newsize (b_mem b) of
             (None, m) \<Rightarrow> (fail ENOMEM, b\<lparr>b_mem := m\<rparr>)
           | (Some tmp, m) \<Rightarrow> (Inr (), b\<lparr>b_data := Some tmp, b_allocsize := newsize, b_mem := m\<rparr>)))"

text \<open>
  The caller's object is \<open>data\<close> (\<open>None\<close> for a null pointer), of which \<open>sz\<close> bytes are appended.
\<close>

definition buffer_append :: "bytes option \<Rightarrow> nat \<Rightarrow> (buffer, unit) cfun" where
  "buffer_append data sz b =
     (if data = None \<and> sz \<noteq> 0 then (fail EINVAL, b)
      else andthen (run_check (map_option (\<lambda>c b. c b sz) (op_check_append (b_ops b)))) (\<lambda>_ b.
        if sz = 0 then (Inr (), b)
        else andthen (resize (wrap64 (b_size b + sz))) (\<lambda>_ b.
          andthen (op_copyin (b_ops b) (b_size b) (the data) sz) (\<lambda>_ b.
            (Inr (), b\<lparr>b_size := wrap64 (b_size b + sz)\<rparr>)) b) b) b)"

text \<open>
  \<open>off_t\<close> is a signed 64-bit integer; comparisons and sums with \<open>size_t\<close> are made in \<open>size_t\<close>.
\<close>

definition seek_newoff :: "int \<Rightarrow> whence \<Rightarrow> buffer \<Rightarrow> nat res" where
  "seek_newoff offset whence b =
     (case whence of
        SEEK_SET \<Rightarrow>
          if offset < 0 then fail EINVAL
          else if b_size b < size_of_int offset then fail EINVAL
          else Inr (size_of_int offset)
      | SEEK_CUR \<Rightarrow>
          if 0 < offset \<and> size_of_int (int (b_size b) - int (b_off b)) < size_of_int offset
          then fail EINVAL
          else if offset < 0 \<and> b_off b < size_of_int (- offset) then fail EINVAL
          else Inr (wrap64 (b_off b + size_of_int offset))
      | SEEK_END \<Rightarrow>
          if 0 < offset then fail EINVAL
          else if b_size b < size_of_int (- offset) then fail EINVAL
          else Inr (wrap64 (b_size b + size_of_int offset))
      | SEEK_OTHER \<Rightarrow> fail EINVAL)"

definition buffer_seek :: "int \<Rightarrow> whence \<Rightarrow> (buffer, nat) cfun" where
  "buffer_seek offset whence b =
     (case seek_newoff offset whence b of
        Inl e \<Rightarrow> (Inl e, b)
      | Inr newoff \<Rightarrow>
          if SSIZE_MAX < newoff then (fail EOVERFLOW, b)
          else andthen (run_check (map_option (\<lambda>c b. c b newoff) (op_check_seek (b_ops b)))) (\<lambda>_ b.
            (Inr newoff, b\<lparr>b_off := newoff\<rparr>)) b)"

definition buffer_truncate :: "nat \<Rightarrow> (buffer, unit) cfun" where
  "buffer_truncate sz b =
     andthen (run_check (map_option (\<lambda>c b. c b sz) (op_check_truncate (b_ops b)))) (\<lambda>_ b.
       andthen (resize sz) (\<lambda>_ b.
         andthen (if b_size b < sz then op_clear (b_ops b) (b_size b) (sz - b_size b) else cret ())
           (\<lambda>_ b. (Inr (), b\<lparr>b_size := sz, b_off := min (b_off b) sz\<rparr>)) b) b) b"

text \<open>
  The destination of a read is an object with room for \<open>cap\<close> bytes (\<open>buf = Some cap\<close>) or a null
  pointer; the result is the bytes that were copied out, whose number is the C return value.
\<close>

definition buffer_pread :: "nat option \<Rightarrow> nat \<Rightarrow> nat \<Rightarrow> (buffer, bytes) cfun" where
  "buffer_pread buf len off b =
     (case buf of
        None \<Rightarrow> (fail EINVAL, b)
      | Some cap \<Rightarrow>
          andthen (run_check (map_option (\<lambda>c b. c b len off) (op_check_read (b_ops b)))) (\<lambda>_ b.
            let ret = (if b_size b \<le> off then 0
                       else if b_size b < wrap64 (off + len) then b_size b - off
                       else len)
            in if ret = 0 then (Inr [], b)
               else if cap < ret then (Inl Fault, b)
               else op_copyout (b_ops b) off ret b) b)"

definition buffer_pwrite :: "bytes option \<Rightarrow> nat \<Rightarrow> nat \<Rightarrow> (buffer, nat) cfun" where
  "buffer_pwrite buf len off b =
     (case buf of
        None \<Rightarrow> (fail EINVAL, b)
      | Some data \<Rightarrow>
          andthen (run_check (map_option (\<lambda>c b. c b len off) (op_check_write (b_ops b)))) (\<lambda>_ b.
            andthen (resize (wrap64 (off + len))) (\<lambda>_ b.
              andthen (if b_size b < off then op_clear (b_ops b) (b_size b) (off - b_size b) else cret ())
                (\<lambda>_ b. andthen (op_copyin (b_ops b) off data len) (\<lambda>_ b.
                  (Inr len, b\<lparr>b_size := max (b_size b) (wrap64 (off + len))\<rparr>)) b) b) b) b)"

definition buffer_remain :: "buffer \<Rightarrow> nat" where
  "buffer_remain b = size_of_int (int (b_size b) - int (b_off b))"

definition buffer_size :: "buffer \<Rightarrow> nat" where
  "buffer_size b = b_size b"

definition buffer_offset :: "buffer \<Rightarrow> nat" where
  "buffer_offset b = b_off b"

text \<open>\<open>buffer_data_current\<close>: a null pointer at the end of the data, else the rest of the block.\<close>

definition buffer_data_current :: "buffer \<Rightarrow> bytes option" where
  "buffer_data_current b =
     (case b_data b of
        None \<Rightarrow> None
      | Some d \<Rightarrow> if b_off b = b_size b then None else Some (drop (b_off b) d))"

definition buffer_append_c :: "u8 \<Rightarrow> (buffer, unit) cfun" where
  "buffer_append_c c = buffer_append (Some [c]) 1"

definition buffer_append_cstr :: "bytes \<Rightarrow> (buffer, unit) cfun" where
  "buffer_append_cstr s = buffer_append (Some (s @ [0])) (length s)"

definition buffer_append_str :: "bytes option \<Rightarrow> (buffer, unit) cfun" where
  "buffer_append_str s = (case s of None \<Rightarrow> cret () | Some s \<Rightarrow> buffer_append_cstr s)"

definition buffer_read :: "nat option \<Rightarrow> nat \<Rightarrow> (buffer, bytes) cfun" where
  "buffer_read buf len b =
     andthen (buffer_pread buf len (b_off b)) (\<lambda>bs b.
       (Inr bs, b\<lparr>b_off := wrap64 (b_off b + length bs)\<rparr>)) b"

definition buffer_write :: "bytes option \<Rightarrow> nat \<Rightarrow> (buffer, nat) cfun" where
  "buffer_write buf len b =
     andthen (buffer_pwrite buf len (b_off b)) (\<lambda>n b.
       (Inr n, b\<lparr>b_off := wrap64 (b_off b + n)\<rparr>)) b"

text \<open>The guard against a null buffer pointer that the five operations start with.\<close>

fun with_buffer :: "(buffer, 'a) cfun \<Rightarrow> (buffer option, 'a) cfun" where
  "with_buffer f None = (fail EINVAL, None)"
| "with_buffer f (Some b) = (case f b of (r, b') \<Rightarrow> (r, Some b'))"

subsection \<open>Well-formed buffers and their contents\<close>

text \<open>
  The invariant between the fields: the offset is within the data, the data within the allocation,
  the allocation within the block. A sink and a stdio buffer own no block and pretend to be as large
  as can be.
\<close>

definition backed :: "buffer_ops \<Rightarrow> bool" where
  "backed ops \<longleftrightarrow> ops \<noteq> sink_buffer \<and> ops \<noteq> stdio_buffer"

definition buf_wf :: "buffer \<Rightarrow> bool" where
  "buf_wf b \<longleftrightarrow>
     b_off b \<le> b_size b \<and> b_size b \<le> b_allocsize b \<and> b_allocsize b \<le> SIZE_MAX \<and>
     (if backed (b_ops b)
      then (case b_data b of
              None \<Rightarrow> b_allocsize b = 0
            | Some d \<Rightarrow> b_allocsize b \<le> length d \<and> length d \<le> SSIZE_MAX)
      else b_allocsize b = SIZE_MAX)"

definition contents :: "buffer \<Rightarrow> bytes" where
  "contents b = (case b_data b of None \<Rightarrow> [] | Some d \<Rightarrow> take (b_size b) d)"

text \<open>What a write, a truncation and a read do to a string of bytes.\<close>

definition spec_pwrite :: "bytes \<Rightarrow> nat \<Rightarrow> bytes \<Rightarrow> bytes" where
  "spec_pwrite c off bs = take off (c @ replicate (off - length c) 0) @ bs @ drop (off + length bs) c"

definition spec_truncate :: "bytes \<Rightarrow> nat \<Rightarrow> bytes" where
  "spec_truncate c n = take n c @ replicate (n - length c) 0"

definition spec_pread :: "bytes \<Rightarrow> nat \<Rightarrow> nat \<Rightarrow> bytes" where
  "spec_pread c len off = take len (drop off c)"

lemma backed_simps [simp]:
  "backed heap_buffer" "backed static_buffer_ro" "backed static_buffer_rw"
  "\<not> backed sink_buffer" "\<not> backed stdio_buffer"
  by (simp_all add: backed_def)

lemma contents_Some: "b_data b = Some d \<Longrightarrow> contents b = take (b_size b) d"
  by (simp add: contents_def)

lemma length_contents: "buf_wf b \<Longrightarrow> backed (b_ops b) \<Longrightarrow> length (contents b) = b_size b"
  by (auto simp: buf_wf_def contents_def split: option.splits)

lemma buf_wf_sizes:
  "buf_wf b \<Longrightarrow> backed (b_ops b) \<Longrightarrow> b_allocsize b \<le> SSIZE_MAX"
  by (auto simp: buf_wf_def split: option.splits)

lemma buf_wf_off: "buf_wf b \<Longrightarrow> b_off b \<le> b_size b"
  and buf_wf_size: "buf_wf b \<Longrightarrow> b_size b \<le> b_allocsize b"
  by (simp_all add: buf_wf_def)

text \<open>Storing a value a field already has changes nothing.\<close>

lemma buffer_update_same:
  "b_data b = d \<Longrightarrow> b\<lparr>b_data := d\<rparr> = b" "b_size b = n \<Longrightarrow> b\<lparr>b_size := n\<rparr> = b"
  "b_off b = n \<Longrightarrow> b\<lparr>b_off := n\<rparr> = b" "b_mem b = m \<Longrightarrow> b\<lparr>b_mem := m\<rparr> = b"
  by (cases b; simp)+

lemma run_check_None [simp]: "run_check None b = (Inr (), b)"
  by (simp add: run_check_def)

lemma run_check_Some [simp]: "run_check (Some f) b = (f b, b)"
  by (simp add: run_check_def)

lemma size_of_int_nonneg [simp]: "0 \<le> i \<Longrightarrow> i < 18446744073709551616 \<Longrightarrow> size_of_int i = nat i"
  by (simp add: size_of_int_def)

lemma buffer_remain_wf: "buf_wf b \<Longrightarrow> buffer_remain b = b_size b - b_off b"
  by (auto simp: buffer_remain_def buf_wf_def bound_simps)

subsubsection \<open>Writing into the block\<close>

lemma data_write_ok:
  assumes "b_data b = Some d" and "off + length bs \<le> length d"
  shows "data_write off bs b = (Inr (), b\<lparr>b_data := Some (take off d @ bs @ drop (off + length bs) d)\<rparr>)"
  using assms by (simp add: data_write_def blk_write_def)

lemma data_write_nil [simp]: "off \<le> b_size b \<Longrightarrow> buf_wf b \<Longrightarrow> backed (b_ops b) \<Longrightarrow> data_write off [] b = (Inr (), b)"
  by (auto simp: data_write_def blk_write_def buf_wf_def split: option.splits)

lemma resize_cases:
  assumes "buf_wf b" and "n \<le> SIZE_MAX"
  obtains (ok) b' where "resize n b = (Inr (), b')" and "buf_wf b'" and "n \<le> b_allocsize b'"
      and "contents b' = contents b" and "b_size b' = b_size b" and "b_off b' = b_off b"
      and "b_ops b' = b_ops b" and "b_private b' = b_private b"
      and "mem_plenty (b_mem b') = mem_plenty (b_mem b)"
    | (unsupported) "resize n b = (fail ENOTSUP, b)" and "b_allocsize b < n" and "b_ops b \<noteq> heap_buffer"
    | (nomem) m where "resize n b = (fail ENOMEM, b\<lparr>b_mem := m\<rparr>)" and "b_allocsize b < n"
      and "b_ops b = heap_buffer" and "mem_plenty (b_mem b) \<Longrightarrow> SSIZE_MAX < n"
proof (cases "n \<le> b_allocsize b")
  case True
  with assms show ?thesis by (auto intro: ok simp: resize_def)
next
  case grow: False
  show ?thesis
  proof (cases "b_ops b = heap_buffer")
    case False
    then have "op_realloc (b_ops b) = None" by (cases "b_ops b") auto
    with grow False show ?thesis by (auto intro: unsupported simp: resize_def)
  next
    case heap: True
    obtain d m where r: "c_realloc (case b_data b of None \<Rightarrow> [] | Some d \<Rightarrow> d) n (b_mem b) = (d, m)"
      by fastforce
    show ?thesis
    proof (cases d)
      case None
      have "SSIZE_MAX < n" if "mem_plenty (b_mem b)"
        using r None that c_realloc_plenty [of "b_mem b" n] by (metis not_le option.distinct(1) prod.inject)
      with r None grow heap show ?thesis by (intro nomem [of m]) (auto simp: resize_def)
    next
      case (Some t)
      note r' = c_realloc_Some [OF r [unfolded Some]]
      have "contents (b\<lparr>b_data := Some t, b_allocsize := n, b_mem := m\<rparr>) = contents b"
      proof (cases "b_data b")
        case None
        with assms heap show ?thesis by (auto simp: contents_def buf_wf_def)
      next
        case (Some d0)
        then have "b_size b \<le> length d0" and "b_size b \<le> n"
          using assms heap grow by (auto simp: buf_wf_def)
        moreover have "take (b_size b) (take (min n (length d0)) t) = take (b_size b) (take n d0)"
          using r'(2) Some by simp
        ultimately show ?thesis using Some by (simp add: contents_def min_def split: if_splits)
      qed
      with r Some grow heap assms r' show ?thesis
        by (intro ok [of "b\<lparr>b_data := Some t, b_allocsize := n, b_mem := m\<rparr>"])
          (auto simp: resize_def buf_wf_def)
    qed
  qed
qed

subsubsection \<open>Filling in bytes\<close>

text \<open>
  Bytes written inside the allocation, with zeros in the gap between the old end of the data and
  them: what \<open>copyin\<close> and \<open>clear\<close> do together, on the block and on the contents.
\<close>

definition mem_rw :: "buffer_ops \<Rightarrow> bool" where
  "mem_rw ops \<longleftrightarrow> ops = heap_buffer \<or> ops = static_buffer_rw"

lemma mem_rw_ops:
  assumes "mem_rw ops"
  shows "backed ops" and "op_copyin ops = generic_buffer_copyin_memcpy"
    and "op_clear ops = generic_buffer_clear_memset"
    and "op_copyout ops = generic_buffer_copyout_memcpy"
    and "op_check_read ops = None" and "op_check_seek ops = None"
  using assms by (auto simp: mem_rw_def)

lemma clear_gap:
  assumes "buf_wf b" and "mem_rw (b_ops b)" and "off \<le> b_allocsize b"
  obtains d where
    "(if b_size b < off then op_clear (b_ops b) (b_size b) (off - b_size b) else cret ()) b =
       (Inr (), b\<lparr>b_data := d\<rparr>)"
    and "d = None \<longrightarrow> off = 0"
    and "\<And>d'. d = Some d' \<Longrightarrow> length d' = length (the (b_data b)) \<and>
       take (max (b_size b) off) d' = contents b @ replicate (off - b_size b) 0"
    and "(d = None) = (b_data b = None)"
proof (cases "b_data b")
  case None
  with assms mem_rw_ops [OF assms(2)] show ?thesis
    by (intro that [of None]) (auto simp: buf_wf_def buffer_update_same)
next
  case (Some d0)
  then have len: "off \<le> length d0" "b_size b \<le> length d0"
    using assms mem_rw_ops [OF assms(2)] by (auto simp: buf_wf_def)
  show ?thesis
  proof (cases "b_size b < off")
    case True
    let ?d = "take (b_size b) d0 @ replicate (off - b_size b) 0 @ drop off d0"
    have "op_clear (b_ops b) (b_size b) (off - b_size b) b = (Inr (), b\<lparr>b_data := Some ?d\<rparr>)"
      using True len Some mem_rw_ops [OF assms(2)]
      by (simp add: generic_buffer_clear_memset_def data_write_ok)
    with True len Some show ?thesis
      by (intro that [of "Some ?d"]) (auto simp: contents_def max_def)
  next
    case False
    with len Some show ?thesis
      by (intro that [of "Some d0"]) (auto simp: contents_def max_def)
  qed
qed

lemma fill_bytes:
  assumes "buf_wf b" and "mem_rw (b_ops b)" and "off + length bs \<le> b_allocsize b"
  obtains b' where
    "andthen (if b_size b < off then op_clear (b_ops b) (b_size b) (off - b_size b) else cret ())
       (\<lambda>_ b. data_write off bs b) b = (Inr (), b')"
    and "b' = b\<lparr>b_data := b_data b'\<rparr>"
    and "buf_wf (b'\<lparr>b_size := max (b_size b) (off + length bs)\<rparr>)"
    and "contents (b'\<lparr>b_size := max (b_size b) (off + length bs)\<rparr>) = spec_pwrite (contents b) off bs"
proof -
  have "off \<le> b_allocsize b" using assms(3) by simp
  from clear_gap [OF assms(1,2) this] obtain d where
    clr: "(if b_size b < off then op_clear (b_ops b) (b_size b) (off - b_size b) else cret ()) b =
       (Inr (), b\<lparr>b_data := d\<rparr>)" and none: "d = None \<longrightarrow> off = 0"
    and some: "\<And>d'. d = Some d' \<Longrightarrow> length d' = length (the (b_data b)) \<and>
       take (max (b_size b) off) d' = contents b @ replicate (off - b_size b) 0"
    and same: "(d = None) = (b_data b = None)" by blast
  have bk: "backed (b_ops b)" using assms(2) by (rule mem_rw_ops)
  show ?thesis
  proof (cases d)
    case None
    with same assms bk none have "b_data b = None" "bs = []" "b_size b = 0" "off = 0"
      by (auto simp: buf_wf_def)
    with clr None assms(1) show ?thesis
      by (intro that [of b])
        (auto simp: data_write_def spec_pwrite_def contents_def buffer_update_same)
  next
    case (Some d')
    obtain d0 where d0: "b_data b = Some d0" using same Some by auto
    have len: "length d' = length d0" "b_allocsize b \<le> length d0" "length d0 \<le> SSIZE_MAX"
      "b_size b \<le> length d'"
      using some [OF Some] d0 assms(1) bk by (auto simp: buf_wf_def)
    have lc: "length (contents b) = b_size b" using assms(1) bk by (rule length_contents)
    let ?d = "take off d' @ bs @ drop (off + length bs) d'"
    have w: "data_write off bs (b\<lparr>b_data := d\<rparr>) = (Inr (), b\<lparr>b_data := Some ?d\<rparr>)"
      using Some len assms(3) by (simp add: data_write_ok)
    have pre: "take off d' = take off (contents b @ replicate (off - b_size b) 0)"
      using some [OF Some] by (metis max.cobounded2 min.absorb1 take_take)
    have "take (max (b_size b) (off + length bs)) ?d =
        take off (contents b @ replicate (off - b_size b) 0) @ bs @ drop (off + length bs) (contents b)"
    proof (cases "b_size b \<le> off + length bs")
      case True
      then show ?thesis using len assms(3) lc by (simp add: pre max_def)
    next
      case False
      have "take (b_size b) d' = contents b"
        using some [OF Some] False lc by (simp add: max_def split: if_splits)
      then have "drop (off + length bs) (contents b) = take (b_size b - (off + length bs)) (drop (off + length bs) d')"
        by (metis drop_take)
      then show ?thesis using False len lc by (simp add: pre max_def)
    qed
    moreover have "contents (b\<lparr>b_data := Some ?d, b_size := max (b_size b) (off + length bs)\<rparr>) =
        take (max (b_size b) (off + length bs)) ?d"
      by (subst contents_def) simp
    ultimately have "contents (b\<lparr>b_data := Some ?d, b_size := max (b_size b) (off + length bs)\<rparr>) =
        spec_pwrite (contents b) off bs"
      by (simp only: spec_pwrite_def lc)
    moreover have "buf_wf (b\<lparr>b_data := Some ?d, b_size := max (b_size b) (off + length bs)\<rparr>)"
      using assms len bk by (auto simp: buf_wf_def)
    ultimately show ?thesis using clr w
      by (intro that [of "b\<lparr>b_data := Some ?d\<rparr>"]) auto
  qed
qed

subsubsection \<open>The operations on buffers backed by memory\<close>

lemma buffer_append_backed:
  assumes wf: "buf_wf b" and rw: "mem_rw (b_ops b)" and obj: "n \<le> length bs" "n \<le> SSIZE_MAX"
  obtains (ok) b' where "buffer_append (Some bs) n b = (Inr (), b')" and "buf_wf b'"
      and "contents b' = contents b @ take n bs" and "b_size b' = b_size b + n"
      and "b_off b' = b_off b" and "b_ops b' = b_ops b" and "b_size b + n \<le> b_allocsize b'"
      and "b_ops b = static_buffer_rw \<longrightarrow> b_allocsize b' = b_allocsize b"
      and "mem_plenty (b_mem b') = mem_plenty (b_mem b)"
    | (err) e m where "buffer_append (Some bs) n b = (fail e, b\<lparr>b_mem := m\<rparr>)"
      and "b_allocsize b < b_size b + n" and "e = (if b_ops b = heap_buffer then ENOMEM else ENOSPC)"
      and "b_ops b = heap_buffer \<Longrightarrow> mem_plenty (b_mem b) \<Longrightarrow> SSIZE_MAX < b_size b + n"
proof -
  note ops = mem_rw_ops [OF rw]
  have "b_size b \<le> SSIZE_MAX"
    using wf buf_wf_sizes [OF wf ops(1)] buf_wf_size [OF wf] by linarith
  then have nowrap: "wrap64 (b_size b + n) = b_size b + n" and small: "b_size b + n \<le> SIZE_MAX"
    using obj by (auto simp: bound_simps intro!: wrap64_id)
  show ?thesis
  proof (cases "b_ops b = static_buffer_rw \<and> b_allocsize b < b_size b + n")
    case True
    then show ?thesis
      by (intro err [of ENOSPC "b_mem b"])
        (auto simp: buffer_append_def static_buffer_check_append_rw_def nowrap buffer_update_same)
  next
    case fits: False
    have chk: "run_check (map_option (\<lambda>c b. c b n) (op_check_append (b_ops b))) b = (Inr (), b)"
      using rw fits by (auto simp: mem_rw_def static_buffer_check_append_rw_def nowrap)
    show ?thesis
    proof (cases "n = 0")
      case True
      with wf chk ops(1) show ?thesis by (intro ok [of b]) (auto simp: buffer_append_def buf_wf_def)
    next
      case pos: False
      from wf small show ?thesis
      proof (cases rule: resize_cases)
        case (ok b1)
        have rw1: "mem_rw (b_ops b1)" using ok(7) rw by simp
        have "b_size b1 + length (take n bs) \<le> b_allocsize b1" using ok(3,5) obj by simp
        from fill_bytes [OF ok(2) rw1 this] obtain b2 where
          w: "data_write (b_size b1) (take n bs) b1 = (Inr (), b2)" and
          b2: "b2 = b1\<lparr>b_data := b_data b2\<rparr>" and
          wf2: "buf_wf (b2\<lparr>b_size := max (b_size b1) (b_size b1 + length (take n bs))\<rparr>)" and
          c2: "contents (b2\<lparr>b_size := max (b_size b1) (b_size b1 + length (take n bs))\<rparr>) =
            spec_pwrite (contents b1) (b_size b1) (take n bs)"
          by (auto simp: andthen_def)
        have lc: "length (contents b1) = b_size b1"
          using ok(2) mem_rw_ops(1) [OF rw1] by (rule length_contents)
        have fields: "b_off b2 = b_off b" "b_ops b2 = b_ops b" "b_size b2 = b_size b"
          "b_allocsize b2 = b_allocsize b1" "b_mem b2 = b_mem b1"
          by (subst b2, simp add: ok)+
        have alloc: "b_ops b = static_buffer_rw \<longrightarrow> b_allocsize b1 = b_allocsize b"
          using ok(1) fits by (auto simp: resize_def split: if_splits)
        have "buffer_append (Some bs) n b = (Inr (), b2\<lparr>b_size := b_size b + n\<rparr>)"
          using pos chk ok(1) w obj mem_rw_ops(2) [OF rw1] fields
          by (simp add: buffer_append_def nowrap generic_buffer_copyin_memcpy_def)
        moreover have "max (b_size b1) (b_size b1 + length (take n bs)) = b_size b + n"
          using ok(5) obj by simp
        ultimately show ?thesis
          using wf2 c2 ok fields obj lc alloc
          by (intro that(1) [of "b2\<lparr>b_size := b_size b + n\<rparr>"]) (auto simp: spec_pwrite_def)
      next
        case unsupported
        with rw fits show ?thesis by (auto simp: mem_rw_def)
      next
        case (nomem m)
        with pos chk show ?thesis
          by (intro err [of ENOMEM m]) (auto simp: buffer_append_def nowrap)
      qed
    qed
  qed
qed

lemma buffer_pread_backed:
  assumes "buf_wf b" and "backed (b_ops b)" and "len \<le> SSIZE_MAX" and "len \<le> cap"
  shows "buffer_pread (Some cap) len off b = (Inr (spec_pread (contents b) len off), b)"
proof -
  have ops: "op_check_read (b_ops b) = None" "op_copyout (b_ops b) = generic_buffer_copyout_memcpy"
    using assms(2) by (cases "b_ops b"; simp)+
  note sz = buf_wf_size [OF assms(1)] buf_wf_sizes [OF assms(1,2)]
  have lc: "length (contents b) = b_size b" using assms(1,2) by (rule length_contents)
  show ?thesis
  proof (cases "b_size b \<le> off \<or> len = 0")
    case True
    with ops sz assms(3) lc show ?thesis
      by (auto simp: buffer_pread_def spec_pread_def Let_def bound_simps)
  next
    case False
    then have nowrap: "wrap64 (off + len) = off + len"
      using sz assms(3) by (intro wrap64_id) (auto simp: bound_simps)
    obtain d where d: "b_data b = Some d" and dl: "b_size b \<le> length d"
      using assms(1,2) False by (auto simp: buf_wf_def split: option.splits)
    show ?thesis
      using False ops d dl assms(4)
      by (auto simp: buffer_pread_def Let_def nowrap generic_buffer_copyout_memcpy_def blk_read_def
          spec_pread_def contents_def drop_take min_def)
  qed
qed

lemma buffer_pwrite_backed:
  assumes wf: "buf_wf b" and rw: "mem_rw (b_ops b)" and obj: "n \<le> length bs"
    and nowrap: "off + n \<le> SIZE_MAX"
  obtains (ok) b' where "buffer_pwrite (Some bs) n off b = (Inr n, b')" and "buf_wf b'"
      and "contents b' = spec_pwrite (contents b) off (take n bs)"
      and "b_size b' = max (b_size b) (off + n)" and "b_off b' = b_off b" and "b_ops b' = b_ops b"
      and "mem_plenty (b_mem b') = mem_plenty (b_mem b)"
    | (err) e m where "buffer_pwrite (Some bs) n off b = (fail e, b\<lparr>b_mem := m\<rparr>)"
      and "b_allocsize b < off + n" and "e = (if b_ops b = heap_buffer then ENOMEM else ENOSPC)"
      and "b_ops b = heap_buffer \<Longrightarrow> mem_plenty (b_mem b) \<Longrightarrow> SSIZE_MAX < off + n"
proof -
  have w64: "wrap64 (off + n) = off + n"
    using nowrap by (intro wrap64_id) (simp add: bound_simps)
  show ?thesis
  proof (cases "b_ops b = static_buffer_rw \<and> b_allocsize b < off + n")
    case True
    then show ?thesis
      by (intro err [of ENOSPC "b_mem b"])
        (auto simp: buffer_pwrite_def static_buffer_check_write_rw_def w64 buffer_update_same)
  next
    case fits: False
    have chk: "run_check (map_option (\<lambda>c b. c b n off) (op_check_write (b_ops b))) b = (Inr (), b)"
      using rw fits by (auto simp: mem_rw_def static_buffer_check_write_rw_def w64)
    from wf nowrap show ?thesis
    proof (cases rule: resize_cases)
      case (ok b1)
      have rw1: "mem_rw (b_ops b1)" using ok(7) rw by simp
      have "off + length (take n bs) \<le> b_allocsize b1" using ok(3) obj by simp
      from fill_bytes [OF ok(2) rw1 this] obtain b2 where
        w: "andthen (if b_size b1 < off then op_clear (b_ops b1) (b_size b1) (off - b_size b1) else cret ())
          (\<lambda>_ b. data_write off (take n bs) b) b1 = (Inr (), b2)" and
        b2: "b2 = b1\<lparr>b_data := b_data b2\<rparr>" and
        wf2: "buf_wf (b2\<lparr>b_size := max (b_size b1) (off + length (take n bs))\<rparr>)" and
        c2: "contents (b2\<lparr>b_size := max (b_size b1) (off + length (take n bs))\<rparr>) =
          spec_pwrite (contents b1) off (take n bs)"
        by blast
      from w obtain b3 where
        clr: "(if b_size b1 < off then op_clear (b_ops b1) (b_size b1) (off - b_size b1) else cret ()) b1 =
          (Inr (), b3)" and put: "data_write off (take n bs) b3 = (Inr (), b2)"
        by (elim andthen_InrE) auto
      have b3: "b_ops b3 = b_ops b1"
        using put b2 by (auto simp: data_write_def split: option.splits if_splits)
          (metis b2 buffer.select_convs(5) buffer.surjective buffer.update_convs(1))+
      have fields: "b_off b2 = b_off b" "b_ops b2 = b_ops b" "b_size b2 = b_size b"
        "b_mem b2 = b_mem b1"
        by (subst b2, simp add: ok)+
      have "buffer_pwrite (Some bs) n off b = (Inr n, b2\<lparr>b_size := max (b_size b) (off + n)\<rparr>)"
        using chk ok(1) clr put obj mem_rw_ops(2) [OF rw1] fields
        by (simp add: buffer_pwrite_def w64 generic_buffer_copyin_memcpy_def b3)
      then show ?thesis
        using wf2 c2 ok fields obj
        by (intro that(1) [of "b2\<lparr>b_size := max (b_size b) (off + n)\<rparr>"]) auto
    next
      case unsupported
      with rw fits show ?thesis by (auto simp: mem_rw_def)
    next
      case (nomem m)
      with chk show ?thesis by (intro err [of ENOMEM m]) (auto simp: buffer_pwrite_def w64)
    qed
  qed
qed

lemma buffer_truncate_backed:
  assumes wf: "buf_wf b" and rw: "mem_rw (b_ops b)" and n: "n \<le> SIZE_MAX"
  obtains (ok) b' where "buffer_truncate n b = (Inr (), b')" and "buf_wf b'"
      and "contents b' = spec_truncate (contents b) n" and "b_size b' = n"
      and "b_off b' = min (b_off b) n" and "b_ops b' = b_ops b"
      and "mem_plenty (b_mem b') = mem_plenty (b_mem b)"
    | (err) e m where "buffer_truncate n b = (fail e, b\<lparr>b_mem := m\<rparr>)"
      and "b_allocsize b < n" and "e = (if b_ops b = heap_buffer then ENOMEM else ENOSPC)"
      and "b_ops b = heap_buffer \<Longrightarrow> mem_plenty (b_mem b) \<Longrightarrow> SSIZE_MAX < n"
proof (cases "b_ops b = static_buffer_rw \<and> b_allocsize b < n")
  case True
  then show ?thesis
    by (intro err [of ENOSPC "b_mem b"])
      (auto simp: buffer_truncate_def static_buffer_check_truncate_rw_def buffer_update_same)
next
  case fits: False
  have chk: "run_check (map_option (\<lambda>c b. c b n) (op_check_truncate (b_ops b))) b = (Inr (), b)"
    using rw fits by (auto simp: mem_rw_def static_buffer_check_truncate_rw_def)
  from wf n show ?thesis
  proof (cases rule: resize_cases)
    case (ok b1)
    have rw1: "mem_rw (b_ops b1)" using ok(7) rw by simp
    have bk: "backed (b_ops b1)" using rw1 by (rule mem_rw_ops)
    have lc: "length (contents b1) = b_size b1" using ok(2) bk by (rule length_contents)
    from clear_gap [OF ok(2) rw1 ok(3)] obtain d where
      clr: "(if b_size b1 < n then op_clear (b_ops b1) (b_size b1) (n - b_size b1) else cret ()) b1 =
        (Inr (), b1\<lparr>b_data := d\<rparr>)" and none: "d = None \<longrightarrow> n = 0"
      and some: "\<And>d'. d = Some d' \<Longrightarrow> length d' = length (the (b_data b1)) \<and>
        take (max (b_size b1) n) d' = contents b1 @ replicate (n - b_size b1) 0"
      and same: "(d = None) = (b_data b1 = None)" by blast
    let ?b = "b1\<lparr>b_data := d, b_size := n, b_off := min (b_off b1) n\<rparr>"
    have "contents ?b = spec_truncate (contents b1) n"
    proof (cases d)
      case None
      with none same show ?thesis by (simp add: contents_def spec_truncate_def)
    next
      case (Some d')
      then have "take n d' = take n (contents b1 @ replicate (n - b_size b1) 0)"
        using some [OF Some] by (metis max.cobounded2 min.absorb1 take_take)
      then show ?thesis using Some contents_Some [of ?b d'] by (simp add: spec_truncate_def lc)
    qed
    moreover have "buf_wf ?b"
      using ok(2,3) bk none same some by (cases d) (auto simp: buf_wf_def split: option.splits)
    moreover have "buffer_truncate n b = (Inr (), ?b)"
      using chk ok(1) clr by (simp add: buffer_truncate_def)
    ultimately show ?thesis using ok by (intro that(1) [of ?b]) auto
  next
    case unsupported
    with rw fits show ?thesis by (auto simp: mem_rw_def)
  next
    case (nomem m)
    with chk show ?thesis by (intro err [of ENOMEM m]) (auto simp: buffer_truncate_def)
  qed
qed

lemma seek_newoff_wf:
  assumes "buf_wf b" and "seek_newoff offset whence b = Inr newoff"
    and "- (2 ^ 63) \<le> offset" and "offset < 2 ^ 63"
  shows "newoff \<le> b_size b \<and> int newoff =
    (case whence of SEEK_SET \<Rightarrow> 0 | SEEK_CUR \<Rightarrow> int (b_off b) | SEEK_END \<Rightarrow> int (b_size b) | SEEK_OTHER \<Rightarrow> 0)
      + offset"
proof -
  have neg: "size_of_int offset = nat (2 ^ 64 + offset)" if "offset < 0"
    using that assms(3) mod_pos_pos_trivial [of "2 ^ 64 + offset" "2 ^ 64"]
    by (simp add: size_of_int_def)
  have pos: "size_of_int offset = nat offset" if "0 \<le> offset"
    using that assms(4) by (simp add: size_of_int_def)
  have size: "b_size b < 2 ^ 64" "b_off b \<le> b_size b"
    using assms(1) by (auto simp: buf_wf_def bound_simps)
  have bwd: "wrap64 (k + size_of_int offset) = nat (int k + offset)"
    if "offset < 0" "- offset \<le> int k" "k < 2 ^ 64" for k
  proof -
    have "k + nat (2 ^ 64 + offset) = nat (int k + offset) + 2 ^ 64"
      using that assms(3) by (simp add: nat_add_distrib [symmetric] flip: nat_int_add)
    moreover have "nat (int k + offset) < 2 ^ 64" using that by linarith
    ultimately show ?thesis using neg [OF that(1)] by (simp add: wrap64_def)
  qed
  show ?thesis
  proof (cases "offset < 0")
    case True
    have m: "size_of_int (- offset) = nat (- offset)"
      using True assms(3) by (simp add: size_of_int_def)
    from True assms(2) size m bwd [of "b_off b"] bwd [of "b_size b"] show ?thesis
      by (auto simp: seek_newoff_def split: whence.splits if_splits)
  next
    case False
    have r: "size_of_int (int (b_size b) - int (b_off b)) = b_size b - b_off b"
      using size by simp
    from False assms(2) size pos r show ?thesis
      by (auto simp: seek_newoff_def split: whence.splits if_splits)
  qed
qed

subsection \<open>Every call keeps the invariant\<close>

text \<open>
  A legal call of one of the operations: the caller's object holds the bytes it says it holds and has
  a size C objects can have, and offsets and sizes do not run past \<open>SIZE_MAX\<close>. The middle argument is
  the error the call ended with, if any.
\<close>

definition outcome :: "'a res \<Rightarrow> error option" where
  "outcome r = (case r of Inl e \<Rightarrow> Some e | Inr _ \<Rightarrow> None)"

inductive buffer_call :: "buffer \<Rightarrow> error option \<Rightarrow> buffer \<Rightarrow> bool" where
  append: "n \<le> length bs \<Longrightarrow> length bs \<le> SSIZE_MAX \<Longrightarrow> b_size b + n \<le> SIZE_MAX \<Longrightarrow>
    buffer_append (Some bs) n b = (r, b') \<Longrightarrow> buffer_call b (outcome r) b'"
| append_null: "buffer_append None n b = (r, b') \<Longrightarrow> buffer_call b (outcome r) b'"
| seek: "- (2 ^ 63) \<le> offset \<Longrightarrow> offset < 2 ^ 63 \<Longrightarrow>
    buffer_seek offset whence b = (s, b') \<Longrightarrow> buffer_call b (outcome s) b'"
| truncate: "n \<le> SIZE_MAX \<Longrightarrow> buffer_truncate n b = (r, b') \<Longrightarrow> buffer_call b (outcome r) b'"
| pread: "n \<le> cap \<Longrightarrow> cap \<le> SSIZE_MAX \<Longrightarrow> off + n \<le> SIZE_MAX \<Longrightarrow> buffer_pread (Some cap) n off b = (t, b') \<Longrightarrow>
    buffer_call b (outcome t) b'"
| read_cur: "n \<le> cap \<Longrightarrow> cap \<le> SSIZE_MAX \<Longrightarrow> b_off b + n \<le> SIZE_MAX \<Longrightarrow> buffer_read (Some cap) n b = (t, b') \<Longrightarrow>
    buffer_call b (outcome t) b'"
| pwrite: "n \<le> length bs \<Longrightarrow> length bs \<le> SSIZE_MAX \<Longrightarrow> off + n \<le> SIZE_MAX \<Longrightarrow>
    buffer_pwrite (Some bs) n off b = (w, b') \<Longrightarrow> buffer_call b (outcome w) b'"
| write_cur: "n \<le> length bs \<Longrightarrow> length bs \<le> SSIZE_MAX \<Longrightarrow> b_off b + n \<le> SIZE_MAX \<Longrightarrow>
    buffer_write (Some bs) n b = (w, b') \<Longrightarrow> buffer_call b (outcome w) b'"

inductive buffer_reachable :: "buffer \<Rightarrow> bool" where
  heap: "n \<le> SSIZE_MAX \<Longrightarrow> buffer_init_heap n m = (Inr b, m') \<Longrightarrow> buffer_reachable b"
| sink: "buffer_reachable (buffer_init_sink m)"
| static: "bufsize \<le> length d \<Longrightarrow> length d \<le> SSIZE_MAX \<Longrightarrow>
    buffer_init_static (Some d) sz bufsize w m = Inr b \<Longrightarrow> buffer_reachable b"
| static_null: "buffer_init_static None 0 0 w m = Inr b \<Longrightarrow> buffer_reachable b"
| stdio: "buffer_reachable (buffer_init_stdio f m)"
| step: "buffer_reachable b \<Longrightarrow> buffer_call b e b' \<Longrightarrow> e \<noteq> Some Panic \<Longrightarrow> buffer_reachable b'"

text \<open>What a call may do: keep the invariant, and never touch memory it does not own; only a stdio
  buffer panics.\<close>

definition call_ok :: "buffer \<Rightarrow> 'a res \<times> buffer \<Rightarrow> bool" where
  "call_ok b rb \<longleftrightarrow> (case rb of (r, b') \<Rightarrow>
     buf_wf b' \<and> b_ops b' = b_ops b \<and> r \<noteq> Inl Fault \<and> r \<noteq> Inl Diverged \<and>
     (r = Inl Panic \<longrightarrow> b_ops b = stdio_buffer))"

lemma call_ok_simps [simp]:
  "call_ok b (Inr x, b') \<longleftrightarrow> buf_wf b' \<and> b_ops b' = b_ops b"
  "call_ok b (fail e, b') \<longleftrightarrow> buf_wf b' \<and> b_ops b' = b_ops b"
  "call_ok b (Inl Panic, b') \<longleftrightarrow> buf_wf b' \<and> b_ops b' = b_ops b \<and> b_ops b = stdio_buffer"
  by (auto simp: call_ok_def)

lemma buf_wf_mem [simp]: "buf_wf (b\<lparr>b_mem := m\<rparr>) = buf_wf b"
  and buf_wf_private [simp]: "buf_wf (b\<lparr>b_private := f\<rparr>) = buf_wf b"
  by (auto simp: buf_wf_def split: option.splits)

lemma unbacked_alloc: "buf_wf b \<Longrightarrow> \<not> backed (b_ops b) \<Longrightarrow> b_allocsize b = SIZE_MAX"
  by (simp add: buf_wf_def)

lemma unbacked_grow:
  "buf_wf b \<Longrightarrow> \<not> backed (b_ops b) \<Longrightarrow> n \<le> SIZE_MAX \<Longrightarrow> b_size b \<le> n \<Longrightarrow> buf_wf (b\<lparr>b_size := n\<rparr>)"
  by (auto simp: buf_wf_def)

lemma unbacked_resize:
  "buf_wf b \<Longrightarrow> \<not> backed (b_ops b) \<Longrightarrow> resize (wrap64 n) b = (Inr (), b)"
  using wrap64_less [of n] by (simp add: resize_def unbacked_alloc bound_simps)

lemma wrap64_SIZE_MAX: "n \<le> SIZE_MAX \<Longrightarrow> wrap64 n = n"
  by (simp add: bound_simps)

lemma buffer_append_call_ok:
  assumes "buf_wf b" and "n \<le> length bs" and "length bs \<le> SSIZE_MAX" and "b_size b + n \<le> SIZE_MAX"
  shows "call_ok b (buffer_append (Some bs) n b)"
proof (cases "b_ops b")
  case static_buffer_ro
  with assms(1) show ?thesis by (simp add: buffer_append_def static_buffer_check_append_ro_def)
next
  case sink_buffer
  with assms unbacked_grow [of b "b_size b + n"] unbacked_resize [of b "b_size b + n"] show ?thesis
    by (simp add: buffer_append_def generic_buffer_copyin_nop_def wrap64_SIZE_MAX)
next
  case stdio_buffer
  with assms unbacked_resize [of b "b_size b + n"] show ?thesis
    using unbacked_grow [of b "b_size b + n"]
    by (auto simp: buffer_append_def stdio_buffer_copyin_def c_fwrite_def wrap64_SIZE_MAX cfun_simps
        buf_wf_def)
qed (use assms buffer_append_backed [OF assms(1) _ assms(2)] in \<open>force simp: mem_rw_def\<close>)+

lemma buffer_pwrite_call_ok:
  assumes "buf_wf b" and "n \<le> length bs" and "off + n \<le> SIZE_MAX"
  shows "call_ok b (buffer_pwrite (Some bs) n off b)"
proof (cases "b_ops b")
  case static_buffer_ro
  with assms(1) show ?thesis by (simp add: buffer_pwrite_def static_buffer_check_write_ro_def)
next
  case sink_buffer
  with assms unbacked_resize [of b "off + n"] show ?thesis
    by (auto simp: buffer_pwrite_def generic_buffer_clear_nop_def generic_buffer_copyin_nop_def
        wrap64_SIZE_MAX buf_wf_def cfun_simps)
next
  case stdio_buffer
  with assms unbacked_resize [of b "off + n"] show ?thesis
    by (auto simp: buffer_pwrite_def generic_buffer_clear_panic_def stdio_buffer_copyin_def c_fwrite_def
        wrap64_SIZE_MAX buf_wf_def cfun_simps)
qed (use assms buffer_pwrite_backed [OF assms(1) _ assms(2,3)] in \<open>force simp: mem_rw_def\<close>)+

lemma buffer_truncate_call_ok:
  assumes "buf_wf b" and "n \<le> SIZE_MAX"
  shows "call_ok b (buffer_truncate n b)"
proof (cases "b_ops b")
  case static_buffer_ro
  with assms(1) show ?thesis by (simp add: buffer_truncate_def static_buffer_check_truncate_ro_def)
next
  case sink_buffer
  with assms unbacked_resize [of b n] show ?thesis
    by (auto simp: buffer_truncate_def generic_buffer_clear_nop_def wrap64_SIZE_MAX buf_wf_def
        cfun_simps)
next
  case stdio_buffer
  with assms show ?thesis by (simp add: buffer_truncate_def stdio_buffer_check_truncate_def)
qed (use assms buffer_truncate_backed [OF assms(1) _ assms(2)] in \<open>force simp: mem_rw_def\<close>)+

lemma buffer_pread_call_ok:
  assumes "buf_wf b" and "n \<le> cap" and "cap \<le> SSIZE_MAX" and "off + n \<le> SIZE_MAX"
  shows "call_ok b (buffer_pread (Some cap) n off b)"
    and "\<And>bs b'. buffer_pread (Some cap) n off b = (Inr bs, b') \<Longrightarrow>
      length bs \<le> b_size b - off \<and> b_off b' = b_off b \<and> b_size b' = b_size b"
proof -
  show "call_ok b (buffer_pread (Some cap) n off b)"
  proof (cases "b_ops b")
    case sink_buffer
    with assms show ?thesis by (simp add: buffer_pread_def sink_buffer_check_read_def)
  next
    case stdio_buffer
    with assms show ?thesis
      by (auto simp: buffer_pread_def stdio_buffer_copyout_def c_fread_def Let_def wrap64_SIZE_MAX)
  qed (use assms buffer_pread_backed [OF assms(1) _ _ assms(2)] in auto)
  show "length bs \<le> b_size b - off \<and> b_off b' = b_off b \<and> b_size b' = b_size b"
    if r: "buffer_pread (Some cap) n off b = (Inr bs, b')" for bs b'
  proof (cases "b_ops b")
    case sink_buffer
    with r show ?thesis by (simp add: buffer_pread_def sink_buffer_check_read_def)
  next
    case stdio_buffer
    with r assms show ?thesis
      by (auto simp: buffer_pread_def stdio_buffer_copyout_def c_fread_def Let_def wrap64_SIZE_MAX
          split: if_splits)
  qed (use r assms buffer_pread_backed [OF assms(1) _ _ assms(2), of off] length_contents [OF assms(1)]
      in \<open>auto simp: spec_pread_def\<close>)
qed

lemma buffer_seek_call_ok:
  assumes "buf_wf b" and "- (2 ^ 63) \<le> offset" and "offset < 2 ^ 63"
  shows "call_ok b (buffer_seek offset whence b)"
proof (cases "seek_newoff offset whence b")
  case (Inl e)
  then have "\<exists>n. e = Errno n"
    by (auto simp: seek_newoff_def split: whence.splits if_splits)
  with Inl assms(1) show ?thesis by (auto simp: buffer_seek_def)
next
  case (Inr newoff)
  then have "buf_wf (b\<lparr>b_off := newoff\<rparr>)"
    using seek_newoff_wf [OF assms(1) Inr assms(2,3)] assms(1) by (auto simp: buf_wf_def split: option.splits)
  with Inr assms(1) show ?thesis
    by (cases "b_ops b") (auto simp: buffer_seek_def stdio_buffer_check_seek_def run_check_def cfun_simps)
qed

lemma call_ok_outcome:
  assumes "call_ok b (r, b')"
  shows "buf_wf b' \<and> b_ops b' = b_ops b \<and> outcome r \<notin> {Some Fault, Some Diverged} \<and>
    (outcome r = Some Panic \<longrightarrow> b_ops b = stdio_buffer)"
  using assms by (auto simp: call_ok_def outcome_def split: sum.splits)

lemma buffer_read_call_ok:
  assumes "buf_wf b" and "n \<le> cap" and "cap \<le> SSIZE_MAX" and "b_off b + n \<le> SIZE_MAX"
  shows "call_ok b (buffer_read (Some cap) n b)"
proof (cases "buffer_pread (Some cap) n (b_off b) b")
  case (Pair r b1)
  note ok = buffer_pread_call_ok [OF assms]
  show ?thesis
  proof (cases r)
    case (Inr bs)
    then have "length bs \<le> b_size b - b_off b" "b_off b1 = b_off b" "b_size b1 = b_size b" "buf_wf b1"
      using ok Pair by auto
    moreover from this have "wrap64 (b_off b + length bs) = b_off b + length bs"
      using assms(1) by (intro wrap64_SIZE_MAX) (auto simp: buf_wf_def)
    ultimately have "buf_wf (b1\<lparr>b_off := wrap64 (b_off b + length bs)\<rparr>)"
      using assms(1) by (auto simp: buf_wf_def split: option.splits)
    with Pair Inr ok \<open>b_off b1 = b_off b\<close> show ?thesis by (simp add: buffer_read_def)
  qed (use Pair ok in \<open>simp add: buffer_read_def call_ok_def\<close>)
qed

lemma buffer_pwrite_len:
  assumes "buffer_pwrite (Some bs) n off b = (Inr k, b')" and "off + n \<le> SIZE_MAX"
  shows "k = n \<and> off + n \<le> b_size b' \<and> b_off b' = b_off b"
proof -
  have same: "b_off b2 = b_off b1" if "resize s b1 = (Inr (), b2)" for s b1 b2
    using that by (auto simp: resize_def split: if_splits option.splits prod.splits)
  have clr: "b_off b2 = b_off b1" if "op_clear (b_ops b1) s t b1 = (Inr (), b2)" for s t b1 b2
    using that by (cases "b_ops b1")
      (auto simp: generic_buffer_clear_memset_def data_write_def generic_buffer_clear_nop_def
        generic_buffer_clear_panic_def split: option.splits if_splits)
  have cpy: "b_off b2 = b_off b1" if "op_copyin (b_ops b1) s u t b1 = (Inr (), b2)" for s t u b1 b2
    using that by (cases "b_ops b1")
      (auto simp: generic_buffer_copyin_memcpy_def data_write_def generic_buffer_copyin_nop_def
        generic_buffer_copyin_panic_def stdio_buffer_copyin_def c_fwrite_def
        split: option.splits if_splits)
  have chk: "b2 = b1" if "run_check c b1 = (Inr (), b2)" for c b1 b2
    using that by (auto simp: run_check_def split: option.splits)
  show ?thesis
    using assms
    by (auto simp: buffer_pwrite_def wrap64_SIZE_MAX elim!: andthen_InrE dest!: same clr cpy chk
        split: if_splits)
qed

lemma buffer_write_call_ok:
  assumes "buf_wf b" and "n \<le> length bs" and "b_off b + n \<le> SIZE_MAX"
  shows "call_ok b (buffer_write (Some bs) n b)"
proof (cases "buffer_pwrite (Some bs) n (b_off b) b")
  case (Pair r b1)
  note ok = buffer_pwrite_call_ok [OF assms]
  show ?thesis
  proof (cases r)
    case (Inr k)
    note k = buffer_pwrite_len [OF Pair [unfolded Inr] assms(3)]
    have "buf_wf b1" using ok Pair Inr by simp
    then have "buf_wf (b1\<lparr>b_off := b_off b + n\<rparr>)"
      using k by (auto simp: buf_wf_def split: option.splits)
    with Pair Inr ok k assms(3) show ?thesis by (simp add: buffer_write_def wrap64_SIZE_MAX)
  qed (use Pair ok in \<open>simp add: buffer_write_def call_ok_def\<close>)
qed

lemma buffer_append_null: "buffer_append None n b = (r, b') \<Longrightarrow> buf_wf b \<Longrightarrow> call_ok b (r, b')"
  by (cases "b_ops b")
    (auto simp: buffer_append_def static_buffer_check_append_ro_def static_buffer_check_append_rw_def
      run_check_def cfun_simps split: if_splits)

lemma buffer_call_ok:
  assumes "buffer_call b e b'" and "buf_wf b"
  shows "buf_wf b' \<and> b_ops b' = b_ops b \<and> e \<notin> {Some Fault, Some Diverged} \<and>
    (e = Some Panic \<longrightarrow> b_ops b = stdio_buffer)"
  using assms
proof (cases rule: buffer_call.cases)
  case (append n bs r)
  with assms(2) buffer_append_call_ok [of b n bs] show ?thesis by (fastforce dest: call_ok_outcome)
next
  case (append_null n r)
  then show ?thesis using call_ok_outcome [OF buffer_append_null [OF append_null(2) assms(2)]] by simp
next
  case (seek offset whence s)
  with assms(2) buffer_seek_call_ok [of b offset whence] show ?thesis by (fastforce dest: call_ok_outcome)
next
  case (truncate n r)
  with assms(2) buffer_truncate_call_ok [of b n] show ?thesis by (fastforce dest: call_ok_outcome)
next
  case (pread n cap off t)
  with assms(2) buffer_pread_call_ok(1) [of b n cap off] show ?thesis by (fastforce dest: call_ok_outcome)
next
  case (read_cur n cap t)
  with assms(2) buffer_read_call_ok [of b n cap] show ?thesis by (fastforce dest: call_ok_outcome)
next
  case (pwrite n bs off w)
  with assms(2) buffer_pwrite_call_ok [of b n bs off] show ?thesis by (fastforce dest: call_ok_outcome)
next
  case (write_cur n bs w)
  with assms(2) buffer_write_call_ok [of b n bs] show ?thesis by (fastforce dest: call_ok_outcome)
qed

lemma buffer_reachable_buf_wf: "buffer_reachable b \<Longrightarrow> buf_wf b"
proof (induction rule: buffer_reachable.induct)
  case (heap n m b m')
  then show ?case
    by (auto simp: buffer_init_heap_def c_malloc_def buf_wf_def bound_simps
        dest!: c_realloc_Some(1) split: prod.splits option.splits if_splits)
next
  case (static bufsize d sz w m b)
  then show ?case by (auto simp: buffer_init_static_def buf_wf_def bound_simps split: if_splits)
next
  case (step b e b')
  then show ?case using buffer_call_ok by blast
qed (auto simp: buffer_init_sink_def buffer_init_stdio_def buffer_init_static_def buf_wf_def
    split: if_splits)

subsection \<open>Refinement: a heap buffer is a string of bytes with a cursor\<close>

text \<open>
  The calls a client makes, each with its own argument object, and what they answer. \<open>exec\<close> makes one
  call; \<open>exec_all\<close> makes a list of calls, carrying on after an error as a client may.
\<close>

datatype bop =
    Op_append bytes | Op_seek int whence | Op_truncate nat | Op_pread nat nat | Op_read nat
  | Op_pwrite bytes nat | Op_write bytes

datatype bval = RUnit | RNum nat | RBytes bytes

definition with_res :: "('a \<Rightarrow> bval) \<Rightarrow> (buffer, 'a) cfun \<Rightarrow> (buffer, bval) cfun" where
  "with_res f c = andthen c (\<lambda>x. cret (f x))"

fun exec :: "bop \<Rightarrow> (buffer, bval) cfun" where
  "exec (Op_append bs) = with_res (\<lambda>_. RUnit) (buffer_append (Some bs) (length bs))"
| "exec (Op_seek offset whence) = with_res RNum (buffer_seek offset whence)"
| "exec (Op_truncate n) = with_res (\<lambda>_. RUnit) (buffer_truncate n)"
| "exec (Op_pread n off) = with_res RBytes (buffer_pread (Some n) n off)"
| "exec (Op_read n) = with_res RBytes (buffer_read (Some n) n)"
| "exec (Op_pwrite bs off) = with_res RNum (buffer_pwrite (Some bs) (length bs) off)"
| "exec (Op_write bs) = with_res RNum (buffer_write (Some bs) (length bs))"

fun exec_all :: "bop list \<Rightarrow> buffer \<Rightarrow> bval res list \<times> buffer" where
  "exec_all [] b = ([], b)"
| "exec_all (x # xs) b =
     (case exec x b of (r, b1) \<Rightarrow> (case exec_all xs b1 of (rs, b2) \<Rightarrow> (r # rs, b2)))"

text \<open>The same calls on a string of bytes and a cursor.\<close>

type_synonym bstate = "bytes \<times> nat"

definition spec_seek :: "int \<Rightarrow> whence \<Rightarrow> bstate \<Rightarrow> bval res \<times> bstate" where
  "spec_seek offset whence s =
     (case s of (c, cur) \<Rightarrow>
        let base = (case whence of SEEK_CUR \<Rightarrow> int cur | SEEK_END \<Rightarrow> int (length c) | _ \<Rightarrow> 0)
        in if whence = SEEK_OTHER \<or> base + offset < 0 \<or> int (length c) < base + offset
           then (fail EINVAL, s)
           else (Inr (RNum (nat (base + offset))), (c, nat (base + offset))))"

fun spec_exec :: "bop \<Rightarrow> bstate \<Rightarrow> bval res \<times> bstate" where
  "spec_exec (Op_append bs) (c, cur) = (Inr RUnit, (c @ bs, cur))"
| "spec_exec (Op_seek offset whence) (c, cur) = spec_seek offset whence (c, cur)"
| "spec_exec (Op_truncate n) (c, cur) = (Inr RUnit, (spec_truncate c n, min cur n))"
| "spec_exec (Op_pread n off) (c, cur) = (Inr (RBytes (spec_pread c n off)), (c, cur))"
| "spec_exec (Op_read n) (c, cur) =
     (Inr (RBytes (spec_pread c n cur)), (c, cur + length (spec_pread c n cur)))"
| "spec_exec (Op_pwrite bs off) (c, cur) = (Inr (RNum (length bs)), (spec_pwrite c off bs, cur))"
| "spec_exec (Op_write bs) (c, cur) =
     (Inr (RNum (length bs)), (spec_pwrite c cur bs, cur + length bs))"

fun spec_exec_all :: "bop list \<Rightarrow> bstate \<Rightarrow> bval res list \<times> bstate" where
  "spec_exec_all [] s = ([], s)"
| "spec_exec_all (x # xs) s =
     (case spec_exec x s of (r, s1) \<Rightarrow> (case spec_exec_all xs s1 of (rs, s2) \<Rightarrow> (r # rs, s2)))"

text \<open>No string along the way, and no argument, is larger than an object can be.\<close>

fun op_fits :: "bop \<Rightarrow> bstate \<Rightarrow> bool" where
  "op_fits (Op_append bs) (c, cur) = (length c + length bs \<le> SSIZE_MAX)"
| "op_fits (Op_seek offset whence) s = (- (2 ^ 63) \<le> offset \<and> offset < 2 ^ 63)"
| "op_fits (Op_truncate n) s = (n \<le> SSIZE_MAX)"
| "op_fits (Op_pread n off) s = (n \<le> SSIZE_MAX \<and> off + n \<le> SIZE_MAX)"
| "op_fits (Op_read n) s = (n \<le> SSIZE_MAX)"
| "op_fits (Op_pwrite bs off) s = (off + length bs \<le> SSIZE_MAX)"
| "op_fits (Op_write bs) (c, cur) = (cur + length bs \<le> SSIZE_MAX)"

fun ops_fit :: "bop list \<Rightarrow> bstate \<Rightarrow> bool" where
  "ops_fit [] s = True"
| "ops_fit (x # xs) s = (op_fits x s \<and> ops_fit xs (snd (spec_exec x s)))"

definition babs :: "buffer \<Rightarrow> bstate" where
  "babs b = (contents b, b_off b)"

definition good_heap :: "buffer \<Rightarrow> bool" where
  "good_heap b \<longleftrightarrow> buf_wf b \<and> b_ops b = heap_buffer \<and> mem_plenty (b_mem b)"

lemma with_res_simps [simp]:
  "c b = (Inr x, b') \<Longrightarrow> with_res f c b = (Inr (f x), b')"
  "c b = (Inl e, b') \<Longrightarrow> with_res f c b = (Inl e, b')"
  by (simp_all add: with_res_def)

lemma good_heapD:
  assumes "good_heap b"
  shows "buf_wf b" and "mem_rw (b_ops b)" and "backed (b_ops b)" and "b_ops b = heap_buffer"
    and "mem_plenty (b_mem b)" and "length (contents b) = b_size b" and "b_off b \<le> b_size b"
    and "b_size b \<le> SSIZE_MAX"
  using assms length_contents [of b] buf_wf_sizes [of b] buf_wf_size [of b]
  by (auto simp: good_heap_def mem_rw_def buf_wf_off)

lemma good_heap_off: "good_heap b \<Longrightarrow> n \<le> b_size b \<Longrightarrow> good_heap (b\<lparr>b_off := n\<rparr>)"
  by (auto simp: good_heap_def buf_wf_def split: option.splits)

lemma contents_off [simp]: "contents (b\<lparr>b_off := n\<rparr>) = contents b"
  by (simp add: contents_def cong: option.case_cong)

lemma spec_seek_newoff:
  assumes "buf_wf b" and "length (contents b) = b_size b" and "- (2 ^ 63) \<le> offset" and "offset < 2 ^ 63"
  shows "spec_seek offset whence (babs b) =
    (case seek_newoff offset whence b of
       Inl e \<Rightarrow> (fail EINVAL, babs b) | Inr n \<Rightarrow> (Inr (RNum n), (contents b, n)))"
    and "\<And>e. seek_newoff offset whence b = Inl e \<Longrightarrow> e = Errno EINVAL"
proof -
  have size: "b_size b < 2 ^ 64" "b_off b \<le> b_size b"
    using assms(1) by (auto simp: buf_wf_def bound_simps)
  show e: "e = Errno EINVAL" if "seek_newoff offset whence b = Inl e" for e
    using that by (auto simp: seek_newoff_def split: whence.splits if_splits)
  show "spec_seek offset whence (babs b) =
    (case seek_newoff offset whence b of
       Inl e \<Rightarrow> (fail EINVAL, babs b) | Inr n \<Rightarrow> (Inr (RNum n), (contents b, n)))"
  proof (cases "seek_newoff offset whence b")
    case (Inl e)
    have s: "size_of_int (int (b_size b) - int (b_off b)) = b_size b - b_off b" using size by simp
    have m: "size_of_int (- offset) = nat (- offset)" if "offset \<le> 0"
      using that assms(3) by (simp add: size_of_int_def)
    have p: "size_of_int offset = nat offset" if "0 \<le> offset"
      using that assms(4) by (simp add: size_of_int_def)
    from Inl show ?thesis
      using assms(2) size m p s
      by (auto simp: seek_newoff_def spec_seek_def babs_def Let_def split: whence.splits if_splits)
  next
    case (Inr n)
    from seek_newoff_wf [OF assms(1) Inr assms(3,4)] Inr show ?thesis
      using assms(2)
      by (cases whence) (auto simp: spec_seek_def babs_def Let_def seek_newoff_def split: if_splits)
  qed
qed

lemma exec_refines:
  assumes "good_heap b" and "op_fits x (babs b)" and "exec x b = (r, b')"
  shows "spec_exec x (babs b) = (r, babs b') \<and> good_heap b'"
proof (cases x)
  case (Op_append bs)
  note h = good_heapD [OF assms(1)]
  have f1: "length bs \<le> SSIZE_MAX" and f: "b_size b + length bs \<le> SSIZE_MAX"
    using assms(2) Op_append h by (auto simp: babs_def)
  from h(1,2) order_refl [of "length bs"] f1 show ?thesis
  proof (cases rule: buffer_append_backed)
    case (ok b1)
    with assms Op_append h show ?thesis by (auto simp: babs_def good_heap_def)
  next
    case (err e m)
    with h f show ?thesis by simp
  qed
next
  case (Op_seek offset whence)
  note h = good_heapD [OF assms(1)]
  from assms(2) Op_seek have o: "- (2 ^ 63) \<le> offset" "offset < 2 ^ 63" by (auto simp: babs_def)
  note sk = spec_seek_newoff [OF h(1,6) o, of whence]
  show ?thesis
  proof (cases "seek_newoff offset whence b")
    case (Inl e)
    with sk assms Op_seek show ?thesis by (auto simp: babs_def buffer_seek_def)
  next
    case (Inr n)
    have n: "n \<le> b_size b" using seek_newoff_wf [OF h(1) Inr o] by simp
    then have "exec x b = (Inr (RNum n), b\<lparr>b_off := n\<rparr>)"
      using Inr Op_seek h by (auto simp: buffer_seek_def)
    with sk(1) Inr assms Op_seek n show ?thesis by (auto simp: babs_def good_heap_off)
  qed
next
  case (Op_truncate n)
  note h = good_heapD [OF assms(1)]
  have f: "n \<le> SSIZE_MAX" using assms(2) Op_truncate by simp
  then have f1: "n \<le> SIZE_MAX" by (simp add: bound_simps)
  from h(1,2) f1 show ?thesis
  proof (cases rule: buffer_truncate_backed)
    case (ok b1)
    with assms Op_truncate h show ?thesis by (auto simp: babs_def good_heap_def)
  next
    case (err e m)
    with h f show ?thesis by simp
  qed
next
  case (Op_pread n off)
  with assms good_heapD [OF assms(1)] buffer_pread_backed [of b n n off] show ?thesis
    by (auto simp: babs_def)
next
  case (Op_read n)
  note h = good_heapD [OF assms(1)]
  let ?bs = "spec_pread (contents b) n (b_off b)"
  have le: "b_off b + length ?bs \<le> b_size b" using h by (simp add: spec_pread_def)
  then have "wrap64 (b_off b + length ?bs) = b_off b + length ?bs"
    using h(8) by (intro wrap64_SIZE_MAX) (simp add: bound_simps)
  then have "exec x b = (Inr (RBytes ?bs), b\<lparr>b_off := b_off b + length ?bs\<rparr>)"
    using Op_read assms(2) h buffer_pread_backed [of b n n "b_off b"]
    by (simp add: buffer_read_def babs_def)
  with assms Op_read le show ?thesis by (auto simp: babs_def good_heap_off)
next
  case (Op_pwrite bs off)
  note h = good_heapD [OF assms(1)]
  have f: "off + length bs \<le> SSIZE_MAX" using assms(2) Op_pwrite by simp
  then have f1: "off + length bs \<le> SIZE_MAX" by (simp add: bound_simps)
  from h(1,2) order_refl [of "length bs"] f1 show ?thesis
  proof (cases rule: buffer_pwrite_backed)
    case (ok b1)
    with assms Op_pwrite h show ?thesis by (auto simp: babs_def good_heap_def)
  next
    case (err e m)
    with h f show ?thesis by simp
  qed
next
  case (Op_write bs)
  note h = good_heapD [OF assms(1)]
  have f: "b_off b + length bs \<le> SSIZE_MAX" using assms(2) Op_write by (simp add: babs_def)
  then have nw: "b_off b + length bs \<le> SIZE_MAX" by (simp add: bound_simps)
  from h(1,2) order_refl [of "length bs"] nw show ?thesis
  proof (cases rule: buffer_pwrite_backed)
    case (ok b1)
    then have "exec x b = (Inr (RNum (length bs)), b1\<lparr>b_off := b_off b + length bs\<rparr>)"
      using Op_write wrap64_SIZE_MAX [OF nw] by (simp add: buffer_write_def)
    moreover have "good_heap b1" using ok h by (simp add: good_heap_def)
    ultimately show ?thesis using assms Op_write ok by (auto simp: babs_def good_heap_off)
  next
    case (err e m)
    with h f show ?thesis by simp
  qed
qed

lemma exec_all_refines:
  "good_heap b \<Longrightarrow> ops_fit xs (babs b) \<Longrightarrow> exec_all xs b = (rs, b') \<Longrightarrow>
    spec_exec_all xs (babs b) = (rs, babs b')"
proof (induction xs arbitrary: b rs)
  case (Cons x xs)
  obtain r b1 where x: "exec x b = (r, b1)" by fastforce
  with Cons.prems exec_refines [of b x r b1] have "spec_exec x (babs b) = (r, babs b1)" "good_heap b1"
    by auto
  with Cons x show ?case by (auto split: prod.splits)
qed auto

subsection \<open>Properties\<close>

text \<open>
  C1. Take any buffer made by one of the four initialisers and any sequence of calls on it whose
  arguments are objects that hold the bytes they say they hold: the fields stay consistent (offset
  within size, size within allocation, allocation within the block), the implementation never changes,
  no call reads or writes outside the block, and only a stdio buffer can panic.
\<close>

theorem buffer_calls_safe:
  assumes "buffer_reachable b" and "buffer_call b e b'"
  shows "buf_wf b \<and> buf_wf b' \<and> b_ops b' = b_ops b \<and> e \<noteq> Some Fault \<and> e \<noteq> Some Diverged \<and>
    (e = Some Panic \<longrightarrow> b_ops b = stdio_buffer)"
  using buffer_reachable_buf_wf [OF assms(1)] buffer_call_ok [OF assms(2)] by simp

text \<open>Applied to a read-write static buffer of four bytes, two of them in use, and an append of one.\<close>

lemma static_rw_example:
  "buffer_init_static (Some [1, 2, 0, 0]) 2 4 True plain_mem =
     Inr \<lparr>b_data = Some [1, 2, 0, 0], b_off = 0, b_size = 2, b_allocsize = 4,
       b_ops = static_buffer_rw, b_private = no_file, b_heap = False, b_mem = plain_mem\<rparr>"
  by (simp add: buffer_init_static_def)

theorem buffer_calls_safe_witness:
  "buf_wf \<lparr>b_data = Some [1, 2, 7, 0], b_off = 0, b_size = 3, b_allocsize = 4,
       b_ops = static_buffer_rw, b_private = no_file, b_heap = False, b_mem = plain_mem\<rparr>"
proof -
  let ?b = "\<lparr>b_data = Some [1, 2, 0, 0], b_off = 0, b_size = 2, b_allocsize = 4,
       b_ops = static_buffer_rw, b_private = no_file, b_heap = False, b_mem = plain_mem\<rparr>"
  let ?b' = "\<lparr>b_data = Some [1, 2, 7, 0], b_off = 0, b_size = 3, b_allocsize = 4,
       b_ops = static_buffer_rw, b_private = no_file, b_heap = False, b_mem = plain_mem\<rparr>"
  have "buffer_reachable ?b"
    by (rule buffer_reachable.static [OF _ _ static_rw_example]) (simp_all add: bound_simps)
  moreover have "buffer_append (Some [7]) 1 ?b = (Inr (), ?b')"
    by (simp add: buffer_append_def static_buffer_check_append_rw_def resize_def
        generic_buffer_copyin_memcpy_def data_write_def blk_write_def)
  then have "buffer_call ?b (outcome (Inr ())) ?b'"
    by (rule buffer_call.append [rotated 3]) (simp_all add: bound_simps)
  ultimately show ?thesis
    using buffer_calls_safe [of ?b "outcome (Inr ())" ?b'] by blast
qed

text \<open>
  C2. A heap buffer is a string of bytes with a cursor: for every list of calls, the answers the C
  code gives and the contents and offset it ends with are those of the calls on the string, as long as
  the allocator has memory and no string on the way is larger than an object can be.
\<close>

theorem heap_buffer_refines_bytes:
  assumes "n \<le> SSIZE_MAX" and "mem_plenty m" and "buffer_init_heap n m = (Inr b, m')"
    and "ops_fit ops ([], 0)"
  shows "\<exists>rs b'. exec_all ops b = (rs, b') \<and> spec_exec_all ops ([], 0) = (rs, (contents b', b_off b'))"
proof -
  obtain d where d: "c_malloc (if n \<noteq> 0 then n else 1) m = (Some d, m')"
    and b: "b_data b = Some d" "b_off b = 0" "b_size b = 0" "b_ops b = heap_buffer" "b_mem b = m'"
    using assms(3) by (auto simp: buffer_init_heap_def split: prod.splits option.splits)
  have "mem_plenty m'" using d assms(2) by (auto simp: c_malloc_def dest: c_realloc_Some(4))
  moreover have "buf_wf b"
    using buffer_reachable_buf_wf [OF buffer_reachable.heap [OF assms(1,3)]] .
  ultimately have "good_heap b" using b by (simp add: good_heap_def)
  moreover have "babs b = ([], 0)" using b by (simp add: babs_def contents_def)
  ultimately show ?thesis
    using exec_all_refines [of b ops] assms(4) by (cases "exec_all ops b") (auto simp: babs_def)
qed

theorem heap_buffer_refines_bytes_witness:
  "\<exists>b m'. buffer_init_heap 4 plain_mem = (Inr b, m') \<and>
     fst (exec_all [Op_append [1, 2, 3], Op_seek 1 SEEK_SET, Op_read 8, Op_pwrite [9] 4] b) =
       [Inr RUnit, Inr (RNum 1), Inr (RBytes [2, 3]), Inr (RNum 1)]"
proof -
  let ?ops = "[Op_append [1, 2, 3], Op_seek 1 SEEK_SET, Op_read 8, Op_pwrite [9] 4]"
  obtain b m' where b: "buffer_init_heap 4 plain_mem = (Inr b, m')"
    by (auto simp: buffer_init_heap_def c_malloc_def c_realloc_def mem_request_plenty bound_simps)
  have "ops_fit ?ops ([], 0)" by (simp add: bound_simps spec_seek_def)
  then obtain rs b' where "exec_all ?ops b = (rs, b')"
    and s: "spec_exec_all ?ops ([], 0) = (rs, (contents b', b_off b'))"
    using heap_buffer_refines_bytes [OF _ mem_plenty_plain b, of ?ops] by (auto simp: bound_simps)
  moreover have "rs = [Inr RUnit, Inr (RNum 1), Inr (RBytes [2, 3]), Inr (RNum 1)]"
    using s by (auto simp: spec_seek_def spec_pread_def)
  ultimately show ?thesis using b by auto
qed

text \<open>
  The bound on \<open>off + len\<close> in a legal write is needed: the sum wraps in \<open>static_buffer_check_write_rw\<close>
  and in \<open>resize\<close>, both checks pass, and the gap is cleared far beyond the block.
\<close>

theorem buffer_pwrite_wrap_faults:
  "\<exists>b. buffer_init_static (Some [1, 2, 0, 0]) 2 4 True plain_mem = Inr b \<and>
     fst (buffer_pwrite (Some [7, 7, 7, 7]) 4 (2 ^ 64 - 4) b) = Inl Fault"
  by (simp add: static_rw_example buffer_pwrite_def static_buffer_check_write_rw_def resize_def
      wrap64_def generic_buffer_clear_memset_def data_write_def blk_write_def)

end
