(* ===== verification/Base64.thy ===== *)
theory Base64
  imports Prelude
begin

text \<open>
  \<^verbatim>\<open>src/base64.c\<close> and \<^verbatim>\<open>src/include/jeffpc/base64.h\<close>: RFC 4648 encoding and decoding with the
  standard and the URL alphabet.

  The input of a function is the object its pointer and length describe; the result holds the bytes it
  writes from \<open>out[0]\<close> on, so a caller's output object must be at least that long. The properties that
  do not depend on the alphabet are proved once in the locale \<open>b64_alphabet\<close>, whose laws say that
  the decoding table inverts the encoding table, and interpreted on the two pairs of tables.
\<close>

unbundle bit_operations_syntax

subsection \<open>Tables\<close>

text \<open>\<open>A-Z\<close>, \<open>a-z\<close>, \<open>0-9\<close> and two more characters.\<close>

definition b64_encode_table :: bytes where
  "b64_encode_table = map word_of_nat ([65..<91] @ [97..<123] @ [48..<58] @ [43, 47])"

definition b64url_encode_table :: bytes where
  "b64url_encode_table = map word_of_nat ([65..<91] @ [97..<123] @ [48..<58] @ [45, 95])"

definition INV :: u8 where
  "INV = 0xff"

definition CHECK_INV :: "u8 \<Rightarrow> u8 \<Rightarrow> u8 \<Rightarrow> u8 \<Rightarrow> bool" where
  "CHECK_INV a b c d \<longleftrightarrow> a OR b OR c OR d = INV"

definition b64_decode_table :: bytes where
  "b64_decode_table = [
      INV, INV, INV, INV, INV, INV, INV, INV, INV, INV, INV, INV, INV, INV, INV, INV,
      INV, INV, INV, INV, INV, INV, INV, INV, INV, INV, INV, INV, INV, INV, INV, INV,
      INV, INV, INV, INV, INV, INV, INV, INV, INV, INV, INV, 62, INV, INV, INV, 63,
      52, 53, 54, 55, 56, 57, 58, 59, 60, 61, INV, INV, INV, INV, INV, INV,
      INV, 0, 1, 2, 3, 4, 5, 6, 7, 8, 9, 10, 11, 12, 13, 14,
      15, 16, 17, 18, 19, 20, 21, 22, 23, 24, 25, INV, INV, INV, INV, INV,
      INV, 26, 27, 28, 29, 30, 31, 32, 33, 34, 35, 36, 37, 38, 39, 40,
      41, 42, 43, 44, 45, 46, 47, 48, 49, 50, 51, INV, INV, INV, INV, INV,
      INV, INV, INV, INV, INV, INV, INV, INV, INV, INV, INV, INV, INV, INV, INV, INV,
      INV, INV, INV, INV, INV, INV, INV, INV, INV, INV, INV, INV, INV, INV, INV, INV,
      INV, INV, INV, INV, INV, INV, INV, INV, INV, INV, INV, INV, INV, INV, INV, INV,
      INV, INV, INV, INV, INV, INV, INV, INV, INV, INV, INV, INV, INV, INV, INV, INV,
      INV, INV, INV, INV, INV, INV, INV, INV, INV, INV, INV, INV, INV, INV, INV, INV,
      INV, INV, INV, INV, INV, INV, INV, INV, INV, INV, INV, INV, INV, INV, INV, INV,
      INV, INV, INV, INV, INV, INV, INV, INV, INV, INV, INV, INV, INV, INV, INV, INV,
      INV, INV, INV, INV, INV, INV, INV, INV, INV, INV, INV, INV, INV, INV, INV, INV]"

definition b64url_decode_table :: bytes where
  "b64url_decode_table = [
      INV, INV, INV, INV, INV, INV, INV, INV, INV, INV, INV, INV, INV, INV, INV, INV,
      INV, INV, INV, INV, INV, INV, INV, INV, INV, INV, INV, INV, INV, INV, INV, INV,
      INV, INV, INV, INV, INV, INV, INV, INV, INV, INV, INV, INV, INV, 62, INV, INV,
      52, 53, 54, 55, 56, 57, 58, 59, 60, 61, INV, INV, INV, INV, INV, INV,
      INV, 0, 1, 2, 3, 4, 5, 6, 7, 8, 9, 10, 11, 12, 13, 14,
      15, 16, 17, 18, 19, 20, 21, 22, 23, 24, 25, INV, INV, INV, INV, 63,
      INV, 26, 27, 28, 29, 30, 31, 32, 33, 34, 35, 36, 37, 38, 39, 40,
      41, 42, 43, 44, 45, 46, 47, 48, 49, 50, 51, INV, INV, INV, INV, INV,
      INV, INV, INV, INV, INV, INV, INV, INV, INV, INV, INV, INV, INV, INV, INV, INV,
      INV, INV, INV, INV, INV, INV, INV, INV, INV, INV, INV, INV, INV, INV, INV, INV,
      INV, INV, INV, INV, INV, INV, INV, INV, INV, INV, INV, INV, INV, INV, INV, INV,
      INV, INV, INV, INV, INV, INV, INV, INV, INV, INV, INV, INV, INV, INV, INV, INV,
      INV, INV, INV, INV, INV, INV, INV, INV, INV, INV, INV, INV, INV, INV, INV, INV,
      INV, INV, INV, INV, INV, INV, INV, INV, INV, INV, INV, INV, INV, INV, INV, INV,
      INV, INV, INV, INV, INV, INV, INV, INV, INV, INV, INV, INV, INV, INV, INV, INV,
      INV, INV, INV, INV, INV, INV, INV, INV, INV, INV, INV, INV, INV, INV, INV, INV]"

subsection \<open>Encoding\<close>

text \<open>\<open>table[(v >> s) & 0x3f]\<close>.\<close>

definition sextet :: "bytes \<Rightarrow> u32 \<Rightarrow> nat \<Rightarrow> u8" where
  "sextet table v s = table ! unat (drop_bit s v AND 0x3f)"

text \<open>The loop over the groups of three bytes, then the \<open>switch\<close> on what is left.\<close>

fun b64_encode :: "bytes \<Rightarrow> bytes \<Rightarrow> bytes" where
  "b64_encode table (x # y # z # inp) =
     (let v = push_bit 16 (ucast x) OR push_bit 8 (ucast y) OR ucast z
      in sextet table v 18 # sextet table v 12 # sextet table v 6 # sextet table v 0 #
         b64_encode table inp)"
| "b64_encode table [] = [0]"
| "b64_encode table [x] =
     (let v = push_bit 4 (ucast x) in [sextet table v 6, sextet table v 0, 61, 61, 0])"
| "b64_encode table [x, y] =
     (let v = push_bit 2 (push_bit 8 (ucast x) OR ucast y)
      in [sextet table v 12, sextet table v 6, sextet table v 0, 61, 0])"

definition base64_encode :: "bytes \<Rightarrow> bytes" where
  "base64_encode inp = b64_encode b64_encode_table inp"

definition base64url_encode :: "bytes \<Rightarrow> bytes" where
  "base64url_encode inp = b64_encode b64url_encode_table inp"

definition base64_required_length :: "nat \<Rightarrow> nat" where
  "base64_required_length inlen = wrap64 (wrap64 (inlen + 2) div 3 * 4)"

subsection \<open>Decoding\<close>

text \<open>\<open>table[in[i]]\<close>.\<close>

definition lookup :: "bytes \<Rightarrow> u8 \<Rightarrow> u8" where
  "lookup table c = table ! unat c"

text \<open>
  The three bytes of a full group, the two bytes of a group with one pad character and the byte of a
  group with two, computed in \<open>v\<close>.
\<close>

definition group_bytes :: "u8 \<Rightarrow> u8 \<Rightarrow> u8 \<Rightarrow> u8 \<Rightarrow> bytes" where
  "group_bytes a b c d =
     (let v = push_bit 18 (ucast a) OR push_bit 12 (ucast b) OR push_bit 6 (ucast c) OR ucast d :: u32
      in [ucast (drop_bit 16 v AND 0xff), ucast (drop_bit 8 v AND 0xff), ucast (v AND 0xff)])"

definition pad1_bytes :: "u8 \<Rightarrow> u8 \<Rightarrow> u8 \<Rightarrow> bytes" where
  "pad1_bytes a b c =
     (let v = drop_bit 2 (push_bit 12 (ucast a) OR push_bit 6 (ucast b) OR ucast c) :: u32
      in [ucast (drop_bit 8 v AND 0xff), ucast (v AND 0xff)])"

definition pad2_bytes :: "u8 \<Rightarrow> u8 \<Rightarrow> bytes" where
  "pad2_bytes a b =
     (let v = drop_bit 4 (push_bit 6 (ucast a) OR ucast b) :: u32 in [ucast (v AND 0xff)])"

text \<open>
  The loop over \<open>groups\<close> full groups of four characters, appending to what was written so far; the
  value is 0 when the loop runs to its end and -1 when the function returns from inside it.
\<close>

fun b64_decode_groups :: "bytes \<Rightarrow> nat \<Rightarrow> bytes \<Rightarrow> bytes \<Rightarrow> int res \<times> bytes" where
  "b64_decode_groups table 0 inp out = (Inr 0, out)"
| "b64_decode_groups table (Suc groups) (w # x # y # z # inp) out =
     (if CHECK_INV (lookup table w) (lookup table x) (lookup table y) (lookup table z)
      then (Inr (- 1), out)
      else b64_decode_groups table groups inp
        (out @ group_bytes (lookup table w) (lookup table x) (lookup table y) (lookup table z)))"
| "b64_decode_groups table (Suc groups) inp out = (Inl Fault, out)"

text \<open>The last group: two pad characters, one, or none.\<close>

definition b64_decode_tail :: "bytes \<Rightarrow> bytes \<Rightarrow> nat \<Rightarrow> bytes \<Rightarrow> int res \<times> bytes" where
  "b64_decode_tail table inp groups out =
     (let inlen = length inp;
          a = lookup table (inp ! (inlen - 4));
          b = lookup table (inp ! (inlen - 3));
          c = lookup table (inp ! (inlen - 2))
      in if inp ! (inlen - 2) = 61 \<and> inp ! (inlen - 1) = 61 then
           if CHECK_INV a b 0 0 then (Inr (- 1), out)
           else (Inr (int (groups * 3 + 1)), out @ pad2_bytes a b)
         else if inp ! (inlen - 1) = 61 then
           if CHECK_INV a b c 0 then (Inr (- 1), out)
           else (Inr (int (groups * 3 + 2)), out @ pad1_bytes a b c)
         else (Inr (int (groups * 3)), out))"

definition b64_decode :: "bytes \<Rightarrow> bytes \<Rightarrow> int res \<times> bytes" where
  "b64_decode table inp =
     (let inlen = length inp in
      if inlen = 0 then (Inr 0, [])
      else if inlen mod 4 \<noteq> 0 then (Inr (- 1), [])
      else
        let groups = (if inp ! (inlen - 1) = 61 then inlen div 4 - 1 else inlen div 4)
        in case b64_decode_groups table groups inp [] of (r, out) \<Rightarrow>
          if r \<noteq> Inr 0 then (r, out) else b64_decode_tail table inp groups out)"

definition base64_decode :: "bytes \<Rightarrow> int res \<times> bytes" where
  "base64_decode inp = b64_decode b64_decode_table inp"

definition base64url_decode :: "bytes \<Rightarrow> int res \<times> bytes" where
  "base64url_decode inp = b64_decode b64url_decode_table inp"

subsection \<open>The groups one by one\<close>

lemma length_group_bytes [simp]: "length (group_bytes a b c d) = 3"
  "length (pad1_bytes a b c) = 2" "length (pad2_bytes a b) = 1"
  by (simp_all add: group_bytes_def pad1_bytes_def pad2_bytes_def Let_def)

lemma decode_groups_acc:
  "b64_decode_groups t n inp (o1 @ o2) = map_prod id ((@) o1) (b64_decode_groups t n inp o2)"
  by (induction t n inp o2 rule: b64_decode_groups.induct) (auto simp: Let_def)

lemma decode_groups_Suc:
  "b64_decode_groups t (Suc n) (w # x # y # z # inp) [] =
     (if CHECK_INV (lookup t w) (lookup t x) (lookup t y) (lookup t z) then (Inr (- 1), [])
      else map_prod id ((@) (group_bytes (lookup t w) (lookup t x) (lookup t y) (lookup t z)))
        (b64_decode_groups t n inp []))"
  using decode_groups_acc [of t n inp "group_bytes (lookup t w) (lookup t x) (lookup t y) (lookup t z)" "[]"]
  by simp

lemma decode_groups_range:
  "b64_decode_groups t n inp out = (r, out') \<Longrightarrow> 4 * n \<le> length inp \<Longrightarrow>
    (r = Inr 0 \<and> length out' = length out + 3 * n \<or> r = Inr (- 1)) \<and> length out' \<le> length out + 3 * n"
  by (induction t n inp out rule: b64_decode_groups.induct) (auto split: if_splits)

text \<open>Decoding a group in front of the rest of the input: three more bytes, unless the rest fails.\<close>

definition bump :: "int res \<Rightarrow> int res" where
  "bump r = (case r of Inl e \<Rightarrow> Inl e | Inr k \<Rightarrow> Inr (if k = - 1 then - 1 else k + 3))"

lemma nth_back_Cons4:
  "4 \<le> length inp \<Longrightarrow> j \<le> 4 \<Longrightarrow> 0 < j \<Longrightarrow> (w # x # y # z # inp) ! (length (w # x # y # z # inp) - j) = inp ! (length inp - j)"
  by (auto simp: nth_Cons')

lemma decode_tail_step:
  assumes "4 \<le> length inp"
  shows "b64_decode_tail t (w # x # y # z # inp) (Suc g) (o1 @ out) =
    map_prod bump ((@) o1) (b64_decode_tail t inp g out)"
proof -
  define I where "I = w # x # y # z # inp"
  have "I ! (length I - j) = inp ! (length inp - j)" if "j \<in> {1, 2, 3, 4}" for j
    unfolding I_def using that by (intro nth_back_Cons4 [OF assms]) auto
  then have "I ! (length I - 1) = inp ! (length inp - 1)" "I ! (length I - 2) = inp ! (length inp - 2)"
    "I ! (length I - 3) = inp ! (length inp - 3)" "I ! (length I - 4) = inp ! (length inp - 4)"
    by blast+
  then show ?thesis
    unfolding I_def [symmetric] b64_decode_tail_def Let_def by (simp add: bump_def)
qed

lemma b64_decode_step:
  assumes "inp \<noteq> []" and "length inp mod 4 = 0"
  shows "b64_decode t (w # x # y # z # inp) =
    (if CHECK_INV (lookup t w) (lookup t x) (lookup t y) (lookup t z) then (Inr (- 1), [])
     else map_prod bump ((@) (group_bytes (lookup t w) (lookup t x) (lookup t y) (lookup t z)))
       (b64_decode t inp))"
proof -
  let ?n = "length inp" and ?I = "w # x # y # z # inp"
  obtain k where k: "?n = 4 * Suc k"
    using assms by (metis dvd_def length_0_conv mod_0_imp_dvd mult_0_right not0_implies_Suc)
  define g where "g = (if inp ! (?n - 1) = 61 then ?n div 4 - 1 else ?n div 4)"
  have last: "?I ! (length ?I - 1) = inp ! (?n - 1)" using k by (intro nth_back_Cons4) auto
  have g: "(if ?I ! (length ?I - 1) = 61 then length ?I div 4 - 1 else length ?I div 4) = Suc g"
    unfolding last g_def using k by auto
  have le: "4 * g \<le> ?n" using k by (auto simp: g_def)
  have I: "b64_decode t ?I = (case b64_decode_groups t (Suc g) ?I [] of (r, out) \<Rightarrow>
      if r \<noteq> Inr 0 then (r, out) else b64_decode_tail t ?I (Suc g) out)"
    unfolding b64_decode_def Let_def g using assms(2) by simp
  have i: "b64_decode t inp = (case b64_decode_groups t g inp [] of (r, out) \<Rightarrow>
      if r \<noteq> Inr 0 then (r, out) else b64_decode_tail t inp g out)"
    unfolding b64_decode_def Let_def g_def using assms by simp
  obtain r out where ro: "b64_decode_groups t g inp [] = (r, out)" by fastforce
  show ?thesis
    unfolding I i decode_groups_Suc
    using decode_groups_range [OF ro le] k by (auto simp: ro decode_tail_step bump_def)
qed

lemma b64_decode_Nil [simp]: "b64_decode t [] = (Inr 0, [])"
  by (simp add: b64_decode_def)

lemma b64_decode_partial: "length inp mod 4 \<noteq> 0 \<Longrightarrow> b64_decode t inp = (Inr (- 1), [])"
  by (auto simp: b64_decode_def Let_def)

lemma b64_decode_4:
  "b64_decode t [w, x, y, z] =
    (if z = 61 then
       if y = 61 then
         if CHECK_INV (lookup t w) (lookup t x) 0 0 then (Inr (- 1), [])
         else (Inr 1, pad2_bytes (lookup t w) (lookup t x))
       else if CHECK_INV (lookup t w) (lookup t x) (lookup t y) 0 then (Inr (- 1), [])
       else (Inr 2, pad1_bytes (lookup t w) (lookup t x) (lookup t y))
     else if CHECK_INV (lookup t w) (lookup t x) (lookup t y) (lookup t z) then (Inr (- 1), [])
     else (Inr 3, group_bytes (lookup t w) (lookup t x) (lookup t y) (lookup t z)))"
  by (simp add: b64_decode_def b64_decode_tail_def Let_def)

subsection \<open>Alphabets\<close>

text \<open>The texts that decode: full groups of the alphabet, the last one possibly padded.\<close>

fun b64_text :: "bytes \<Rightarrow> bytes \<Rightarrow> bool" where
  "b64_text enc [] \<longleftrightarrow> True"
| "b64_text enc (w # x # y # z # inp) \<longleftrightarrow> w \<in> set enc \<and> x \<in> set enc \<and>
     (if inp = [] then y = 61 \<and> z = 61 \<or> y \<in> set enc \<and> (z = 61 \<or> z \<in> set enc)
      else y \<in> set enc \<and> z \<in> set enc \<and> b64_text enc inp)"
| "b64_text enc _ \<longleftrightarrow> False"

lemma b64_text_length: "b64_text enc s \<Longrightarrow> length s mod 4 = 0"
  by (induction enc s rule: b64_text.induct) (auto split: if_splits)

lemma induct_groups4 [consumes 1, case_names nil group]:
  assumes "length s mod 4 = 0" and "P []"
    and "\<And>w x y z inp. length inp mod 4 = 0 \<Longrightarrow> P inp \<Longrightarrow> P (w # x # y # z # inp)"
  shows "P s"
  using assms(1)
proof (induction s rule: length_induct)
  case (1 s)
  show ?case
  proof (cases s)
    case (Cons w t)
    then obtain x y z inp where "t = x # y # z # inp"
      using 1 by (cases t; cases "tl t"; cases "tl (tl t)") (auto split: if_splits)
    with 1 Cons show ?thesis by (auto intro!: assms(3))
  qed (simp add: assms(2))
qed

lemma induct_list3 [case_names 1 2 3 4]:
  assumes "P []" and "\<And>x. P [x]" and "\<And>x y. P [x, y]"
    and "\<And>x y z xs. P xs \<Longrightarrow> P (x # y # z # xs)"
  shows "P xs"
  using assms by (induction xs rule: length_induct) (metis length_Cons less_Suc_eq list.exhaust)

text \<open>
  The contract between an encoding and a decoding table: 64 distinct characters, none of them the pad
  character or nul, whose positions the decoding table gives back; every other byte is invalid.
\<close>

locale b64_alphabet =
  fixes enc dec :: bytes
  assumes enc_length: "length enc = 64"
    and dec_enc: "i < 64 \<Longrightarrow> lookup dec (enc ! i) = word_of_nat i"
    and dec_cases: "lookup dec c = INV \<or> unat (lookup dec c) < 64 \<and> enc ! unat (lookup dec c) = c"
    and no_pad: "61 \<notin> set enc"
    and no_nul: "0 \<notin> set enc"
begin

lemma sextet_in: "sextet enc v s \<in> set enc"
proof -
  have "unat (drop_bit s v AND 0x3f) < 64"
    using word_and_le1 [of "drop_bit s v" "0x3f"] by (simp add: word_le_nat_alt)
  then show ?thesis by (simp add: sextet_def enc_length)
qed

lemma lookup_sextet: "lookup dec (sextet enc v s) = ucast (drop_bit s v AND 0x3f)"
proof -
  have "unat (drop_bit s v AND 0x3f) < 64"
    using word_and_le1 [of "drop_bit s v" "0x3f"] by (simp add: word_le_nat_alt)
  then show ?thesis by (simp add: sextet_def dec_enc)
qed

lemma lookup_not_INV: "lookup dec c \<noteq> INV \<longleftrightarrow> c \<in> set enc"
proof
  assume "lookup dec c \<noteq> INV"
  then show "c \<in> set enc" using dec_cases [of c] enc_length by (metis nth_mem)
next
  assume "c \<in> set enc"
  then obtain i where "i < 64" "c = enc ! i" using enc_length by (metis in_set_conv_nth)
  then show "lookup dec c \<noteq> INV"
    using dec_enc [of i] unat_of_nat_u8 [of i] by (auto simp: INV_def dest: arg_cong [of _ _ unat])
qed

lemma lookup_bits: "lookup dec c \<noteq> INV \<Longrightarrow> \<not> bit (lookup dec c) 7"
proof -
  assume "lookup dec c \<noteq> INV"
  then have "unat (lookup dec c) < 64" using dec_cases [of c] by simp
  then have "\<not> bit (unat (lookup dec c)) 7" by (simp add: bit_iff_odd)
  then show ?thesis by (simp add: bit_unsigned_iff)
qed

lemma CHECK_INV_iff:
  assumes "a = 0 \<or> a \<in> range (lookup dec)" and "b = 0 \<or> b \<in> range (lookup dec)"
    and "c = 0 \<or> c \<in> range (lookup dec)" and "d = 0 \<or> d \<in> range (lookup dec)"
  shows "CHECK_INV a b c d \<longleftrightarrow> INV \<in> {a, b, c, d}"
proof
  have seven: "x = INV \<or> \<not> bit x 7" if "x = 0 \<or> x \<in> range (lookup dec)" for x
    using that lookup_bits by auto
  assume "CHECK_INV a b c d"
  moreover have "bit INV 7" by (simp add: INV_def)
  ultimately have "bit a 7 \<or> bit b 7 \<or> bit c 7 \<or> bit d 7"
    unfolding CHECK_INV_def by (metis bit_or_iff)
  then show "INV \<in> {a, b, c, d}" using seven [OF assms(1)] seven [OF assms(2)] seven [OF assms(3)] seven [OF assms(4)] by auto
next
  assume "INV \<in> {a, b, c, d}"
  moreover have inv: "INV = - 1" by (simp add: INV_def)
  have [simp]: "INV OR x = INV" "x OR INV = INV" for x
    unfolding inv by simp_all
  ultimately show "CHECK_INV a b c d" by (auto simp: CHECK_INV_def)
qed

lemma CHECK_INV_lookup:
  "CHECK_INV (lookup dec w) (lookup dec x) (lookup dec y) (lookup dec z) \<longleftrightarrow> \<not> {w, x, y, z} \<subseteq> set enc"
  "CHECK_INV (lookup dec w) (lookup dec x) (lookup dec y) 0 \<longleftrightarrow> \<not> {w, x, y} \<subseteq> set enc"
  "CHECK_INV (lookup dec w) (lookup dec x) 0 0 \<longleftrightarrow> \<not> {w, x} \<subseteq> set enc"
proof -
  have "INV = lookup dec c \<longleftrightarrow> c \<notin> set enc" for c using lookup_not_INV [of c] by auto
  moreover have "INV \<noteq> 0" by (simp add: INV_def)
  ultimately show
    "CHECK_INV (lookup dec w) (lookup dec x) (lookup dec y) (lookup dec z) \<longleftrightarrow> \<not> {w, x, y, z} \<subseteq> set enc"
    "CHECK_INV (lookup dec w) (lookup dec x) (lookup dec y) 0 \<longleftrightarrow> \<not> {w, x, y} \<subseteq> set enc"
    "CHECK_INV (lookup dec w) (lookup dec x) 0 0 \<longleftrightarrow> \<not> {w, x} \<subseteq> set enc"
    by (simp_all add: CHECK_INV_iff)
qed

text \<open>Each kind of group decodes to what was encoded.\<close>

lemma group_roundtrip:
  "v = push_bit 16 (ucast x) OR push_bit 8 (ucast y) OR ucast z \<Longrightarrow>
   group_bytes (lookup dec (sextet enc v 18)) (lookup dec (sextet enc v 12))
     (lookup dec (sextet enc v 6)) (lookup dec (sextet enc v 0)) = [x, y, z]"
  unfolding lookup_sextet group_bytes_def Let_def
  by (auto simp: bit_simps upt_8 Suc_numerals intro!: word_eqI_upt)

lemma pad1_roundtrip:
  "v = push_bit 2 (push_bit 8 (ucast x) OR ucast y) \<Longrightarrow>
   pad1_bytes (lookup dec (sextet enc v 12)) (lookup dec (sextet enc v 6))
     (lookup dec (sextet enc v 0)) = [x, y]"
  unfolding lookup_sextet pad1_bytes_def Let_def
  by (auto simp: bit_simps upt_8 Suc_numerals intro!: word_eqI_upt)

lemma pad2_roundtrip:
  "v = push_bit 4 (ucast x) \<Longrightarrow>
   pad2_bytes (lookup dec (sextet enc v 6)) (lookup dec (sextet enc v 0)) = [x]"
  unfolding lookup_sextet pad2_bytes_def Let_def
  by (auto simp: bit_simps upt_8 Suc_numerals intro!: word_eqI_upt)

lemma length_b64_encode: "length (b64_encode enc bs) = (length bs + 2) div 3 * 4 + 1"
  by (induction enc bs rule: b64_encode.induct) (auto simp: Let_def, presburger)

text \<open>The encoding is a text of the alphabet, closed by a nul.\<close>

lemma b64_encode_text: "\<exists>t. b64_encode enc bs = t @ [0] \<and> b64_text enc t \<and> b64_decode dec t = (Inr (int (length bs)), bs)"
proof (induction bs rule: induct_list3)
  case (3 x y)
  let ?v = "push_bit 2 (push_bit 8 (ucast x) OR ucast y) :: u32"
  have "sextet enc ?v 0 \<noteq> 61" using sextet_in [of ?v 0] no_pad by metis
  then show ?case
    using sextet_in pad1_roundtrip [OF refl, of x y]
    by (simp add: Let_def b64_decode_4 CHECK_INV_lookup)
next
  case (2 x)
  then show ?case
    using sextet_in pad2_roundtrip [OF refl, of x] by (simp add: Let_def b64_decode_4 CHECK_INV_lookup)
next
  case (4 x y z bs)
  then obtain t where t: "b64_encode enc bs = t @ [0]" "b64_text enc t"
    "b64_decode dec t = (Inr (int (length bs)), bs)" by blast
  let ?v = "push_bit 16 (ucast x) OR push_bit 8 (ucast y) OR ucast z :: u32"
  have "sextet enc ?v 0 \<noteq> 61" using sextet_in [of ?v 0] no_pad by metis
  with t show ?case
    using sextet_in group_roundtrip [OF refl, of x y z] b64_text_length [OF t(2)]
    by (cases "t = []") (simp_all add: Let_def b64_decode_4 b64_decode_step CHECK_INV_lookup bump_def)
qed simp

text \<open>Decoding fails with -1 exactly on what is not such a text.\<close>

lemma b64_decode_result:
  "fst (b64_decode dec s) = Inr (if b64_text enc s then int (length (snd (b64_decode dec s))) else - 1) \<and>
    4 * length (snd (b64_decode dec s)) \<le> 3 * length s"
proof (cases "length s mod 4 = 0")
  case False
  then show ?thesis using b64_text_length [of enc s] by (auto simp: b64_decode_partial)
next
  case True
  then show ?thesis
  proof (induction s rule: induct_groups4)
    case (group w x y z inp)
    show ?case
    proof (cases "inp = []")
      case True
      then show ?thesis using no_pad by (auto simp: b64_decode_4 CHECK_INV_lookup)
    next
      case False
      show ?thesis
        using False group.IH
        by (auto simp: b64_decode_step [OF False group.hyps] CHECK_INV_lookup bump_def)
    qed
  qed simp
qed

end

subsection \<open>The two alphabets\<close>

text \<open>
  The entries of the tables as functions of the position, for the two characters \<open>p\<close> and \<open>q\<close> in
  which the alphabets differ. The tables are compared with them entry by entry.
\<close>

definition enc_val :: "u8 \<Rightarrow> u8 \<Rightarrow> nat \<Rightarrow> u8" where
  "enc_val p q i =
     (if i < 26 then word_of_nat (65 + i) else if i < 52 then word_of_nat (71 + i)
      else if i < 62 then word_of_nat (i - 4) else if i = 62 then p else q)"

definition dec_val :: "u8 \<Rightarrow> u8 \<Rightarrow> nat \<Rightarrow> u8" where
  "dec_val p q c =
     (if 65 \<le> c \<and> c \<le> 90 then word_of_nat (c - 65) else if 97 \<le> c \<and> c \<le> 122 then word_of_nat (c - 71)
      else if 48 \<le> c \<and> c \<le> 57 then word_of_nat (c + 4) else if c = unat p then 62
      else if c = unat q then 63 else INV)"

definition vals_ok :: "u8 \<Rightarrow> u8 \<Rightarrow> bool" where
  "vals_ok p q \<longleftrightarrow>
     list_all (\<lambda>i. enc_val p q i \<noteq> 61 \<and> enc_val p q i \<noteq> 0 \<and>
       dec_val p q (unat (enc_val p q i)) = word_of_nat i) [0..<64] \<and>
     list_all (\<lambda>c. let d = dec_val p q c in d = INV \<or> unat d < 64 \<and> unat (enc_val p q (unat d)) = c) [0..<256]"

lemma b64_alphabetI:
  assumes enc: "enc = map (enc_val p q) [0..<64]" and dec: "dec = map (dec_val p q) [0..<256]"
    and ok: "vals_ok p q"
  shows "b64_alphabet enc dec"
proof
  have lookup: "lookup dec c = dec_val p q (unat c)" for c
    using unat_u8_less [of c] by (simp add: lookup_def dec)
  show "length enc = 64" "61 \<notin> set enc" "0 \<notin> set enc"
    using ok by (auto simp: enc vals_ok_def list_all_iff)
  show "lookup dec (enc ! i) = word_of_nat i" if "i < 64" for i
    using ok that by (auto simp: enc lookup vals_ok_def list_all_iff)
  show "lookup dec c = INV \<or> unat (lookup dec c) < 64 \<and> enc ! unat (lookup dec c) = c" for c
    using ok unat_u8_less [of c]
    by (auto simp: enc lookup vals_ok_def list_all_iff Let_def word_unat_eq_iff)
qed

lemma vals_ok_b64: "vals_ok 43 47"
  by code_simp

lemma vals_ok_b64url: "vals_ok 45 95"
  by code_simp

lemma b64_tables:
  "b64_encode_table = map (enc_val 43 47) [0..<64]"
  "b64_decode_table = map (dec_val 43 47) [0..<256]"
  "b64url_encode_table = map (enc_val 45 95) [0..<64]"
  "b64url_decode_table = map (dec_val 45 95) [0..<256]"
  by code_simp+

interpretation std: b64_alphabet b64_encode_table b64_decode_table
  by (rule b64_alphabetI [OF b64_tables(1,2) vals_ok_b64])

interpretation url: b64_alphabet b64url_encode_table b64url_decode_table
  by (rule b64_alphabetI [OF b64_tables(3,4) vals_ok_b64url])

subsection \<open>Properties\<close>

text \<open>
  C4. What \<open>base64_encode\<close> and \<open>base64url_encode\<close> write is a nul-terminated text that the matching
  decoder turns back into the input, returning its length.
\<close>

theorem base64_roundtrip:
  "base64_decode (butlast (base64_encode bs)) = (Inr (int (length bs)), bs) \<and>
   base64url_decode (butlast (base64url_encode bs)) = (Inr (int (length bs)), bs) \<and>
   last (base64_encode bs) = 0 \<and> last (base64url_encode bs) = 0"
  using std.b64_encode_text [of bs] url.b64_encode_text [of bs]
  by (auto simp: base64_encode_def base64url_encode_def base64_decode_def base64url_decode_def)

text \<open>
  C5. The decoders are total and accept exactly the texts of their alphabet with correct padding: the
  answer is the number of bytes written for those and -1 for everything else, no table or input access
  is out of bounds, and at most three bytes are written for every four characters.
\<close>

theorem base64_decode_exact:
  "fst (base64_decode s) =
     Inr (if b64_text b64_encode_table s then int (length (snd (base64_decode s))) else - 1) \<and>
   4 * length (snd (base64_decode s)) \<le> 3 * length s \<and>
   fst (base64url_decode s) =
     Inr (if b64_text b64url_encode_table s then int (length (snd (base64url_decode s))) else - 1) \<and>
   4 * length (snd (base64url_decode s)) \<le> 3 * length s"
  using std.b64_decode_result [of s] url.b64_decode_result [of s]
  by (simp add: base64_decode_def base64url_decode_def)

text \<open>
  Encoding writes one byte more than \<open>base64_required_length\<close> says (the terminating nul), for every
  input whose encoded length a \<open>size_t\<close> can hold.
\<close>

theorem base64_encode_length:
  assumes "(length bs + 2) div 3 * 4 < 2 ^ 64"
  shows "length (base64_encode bs) = base64_required_length (length bs) + 1"
proof -
  have "length bs + 2 < 2 ^ 64"
    using assms div_mult_mod_eq [of "length bs + 2" 3] mod_less_divisor [of 3 "length bs + 2"]
    by simp
  then show ?thesis
    using assms std.length_b64_encode [of bs] by (simp add: base64_encode_def base64_required_length_def)
qed

theorem base64_encode_length_witness:
  "length (base64_encode [1, 2, 3, 4]) = base64_required_length (length [1, 2, 3, 4 :: u8]) + 1"
  using base64_encode_length [of "[1, 2, 3, 4]"] by simp

end
