(* ===== verification/Unicode.thy ===== *)
theory Unicode
  imports Prelude
begin

text \<open>
  \<^verbatim>\<open>src/unicode.c\<close> and \<^verbatim>\<open>src/include/jeffpc/unicode.h\<close>: conversion between UTF-8 and code points, and
  validation of UTF-8 strings. The reference is the table of RFC 3629: \<open>utf8_enc\<close> gives the bytes of a
  valid code point, and the decoder is shown to accept exactly those bytes.
\<close>

unbundle bit_operations_syntax

subsection \<open>Operations\<close>

definition utf32_is_valid :: "u32 \<Rightarrow> bool" where
  "utf32_is_valid cp = (if 0xd800 \<le> cp \<and> cp \<le> 0xdfff then False else cp \<le> 0x10ffff)"

text \<open>The first byte: length, the bits it carries, and the range of code points of that length.\<close>

definition utf8_first :: "u8 \<Rightarrow> (nat \<times> u32 \<times> u32 \<times> u32) option" where
  "utf8_first c =
     (if c AND 0xf8 = 0xf0 then Some (4, push_bit 18 (ucast (c AND 0x07)), 0x10000, 0x10ffff)
      else if c AND 0xf0 = 0xe0 then Some (3, push_bit 12 (ucast (c AND 0x0f)), 0x800, 0xffff)
      else if c AND 0xe0 = 0xc0 then Some (2, push_bit 6 (ucast (c AND 0x1f)), 0x80, 0x7ff)
      else if c AND 0x80 = 0 then Some (1, ucast (c AND 0x7f), 0, 0x7f)
      else None)"

text \<open>The loop over the additional bytes, at the indices of the list.\<close>

fun utf8_rest :: "bytes \<Rightarrow> nat \<Rightarrow> nat list \<Rightarrow> u32 \<Rightarrow> u32 option" where
  "utf8_rest inp len [] res = Some res"
| "utf8_rest inp len (i # is) res =
     (if inp ! i AND 0xc0 \<noteq> 0x80 then None
      else utf8_rest inp len is (res OR push_bit (6 * (len - i - 1)) (ucast (inp ! i AND 0x3f))))"

text \<open>The number of bytes consumed (0 for an error), and what is stored in \<open>*out\<close>.\<close>

definition utf8_to_utf32 :: "bytes \<Rightarrow> nat \<times> u32 option" where
  "utf8_to_utf32 inp =
     (if inp = [] then (0, None)
      else case utf8_first (inp ! 0) of
        None \<Rightarrow> (0, None)
      | Some (len, res, mincp, maxcp) \<Rightarrow>
          if length inp < len then (0, None)
          else case utf8_rest inp len [1..<len] res of
            None \<Rightarrow> (0, None)
          | Some res \<Rightarrow>
              if res < mincp then (0, None)
              else if maxcp < res then (0, None)
              else if \<not> utf32_is_valid res then (0, None)
              else (len, Some res))"

text \<open>The bytes written to \<open>buf\<close>, whose number is the returned length.\<close>

definition utf32_to_utf8 :: "u32 \<Rightarrow> nat \<Rightarrow> bytes res" where
  "utf32_to_utf8 cp buflen =
     (if \<not> utf32_is_valid cp then fail EINVAL
      else
        let len = (if cp \<le> 0x7f then 1 else if cp \<le> 0x7ff then 2 else if cp \<le> 0xffff then 3 else 4)
        in if 0x10ffff < cp then Inl Panic
           else if buflen < len then fail ENOMEM
           else if len = 1 then Inr [ucast cp]
           else Inr (ucast (drop_bit (6 * (len - 1)) cp OR push_bit (8 - len) 0xff) #
             map (\<lambda>i. ucast (0x80 OR (drop_bit (6 * (len - i - 1)) cp AND 0x3f))) [1..<len]))"

text \<open>
  The loop advances by the length of each code point. A decoded length is at least 1, so the index
  grows; that is what makes the recursion end.
\<close>

function utf8_is_valid_from :: "bytes \<Rightarrow> nat \<Rightarrow> unit res" where
  "utf8_is_valid_from src i =
     (if i < length src then
        let cplen = fst (utf8_to_utf32 (drop i src))
        in if cplen = 0 then fail EILSEQ else utf8_is_valid_from src (i + cplen)
      else Inr ())"
  by auto
termination by (relation "measure (\<lambda>(src, i). length src - i)") auto

definition utf8_is_valid_str :: "bytes \<Rightarrow> unit res" where
  "utf8_is_valid_str src = utf8_is_valid_from src 0"

declare utf8_is_valid_from.simps [simp del]

subsection \<open>RFC 3629\<close>

definition utf8_enc :: "u32 \<Rightarrow> bytes" where
  "utf8_enc cp =
     (if cp \<le> 0x7f then [ucast cp]
      else if cp \<le> 0x7ff then [0xc0 OR ucast (drop_bit 6 cp), 0x80 OR ucast (cp AND 0x3f)]
      else if cp \<le> 0xffff then
        [0xe0 OR ucast (drop_bit 12 cp), 0x80 OR ucast (drop_bit 6 cp AND 0x3f), 0x80 OR ucast (cp AND 0x3f)]
      else
        [0xf0 OR ucast (drop_bit 18 cp), 0x80 OR ucast (drop_bit 12 cp AND 0x3f),
         0x80 OR ucast (drop_bit 6 cp AND 0x3f), 0x80 OR ucast (cp AND 0x3f)])"

lemma u8_eq_iff: "(a :: u8) = b \<longleftrightarrow> list_all (\<lambda>n. bit a n = bit b n) [0, 1, 2, 3, 4, 5, 6, 7]"
  using word_eqI_upt [of a b] by (auto simp: upt_8)

lemma u32_eq_iff: "(a :: u32) = b \<longleftrightarrow> list_all (\<lambda>n. bit a n = bit b n) [0..<32]"
  using word_eqI_upt [of a b] by (auto simp: list_all_iff)

lemma u32_high_bits: "(cp :: u32) \<le> m \<Longrightarrow> unat m < 2 ^ k \<Longrightarrow> k \<le> n \<Longrightarrow> \<not> bit cp n"
  by (rule word_high_bits [of cp k]) (auto simp: word_le_nat_alt)

lemma unat_ucast_u32: "unat (ucast (x :: u8) :: u32) = unat x"
  using unat_u8_less [of x] by (simp only: unsigned_ucast_eq) (simp add: take_bit_nat_eq_self)

text \<open>The tests on the first and the additional bytes, bit by bit.\<close>

lemma byte_class:
  "(c :: u8) AND 0xf8 = 0xf0 \<longleftrightarrow> bit c 7 \<and> bit c 6 \<and> bit c 5 \<and> bit c 4 \<and> \<not> bit c 3"
  "(c :: u8) AND 0xf0 = 0xe0 \<longleftrightarrow> bit c 7 \<and> bit c 6 \<and> bit c 5 \<and> \<not> bit c 4"
  "(c :: u8) AND 0xe0 = 0xc0 \<longleftrightarrow> bit c 7 \<and> bit c 6 \<and> \<not> bit c 5"
  "(c :: u8) AND 0x80 = 0 \<longleftrightarrow> \<not> bit c 7"
  "(c :: u8) AND 0xc0 = 0x80 \<longleftrightarrow> bit c 7 \<and> \<not> bit c 6"
  by (auto simp: u8_eq_iff bit_simps)

text \<open>The lengths of encodings, and the ranges of code points they are for.\<close>

lemma upt_small: "[Suc 0..<2] = [1]" "[Suc 0..<3] = [1, 2]" "[Suc 0..<4] = [1, 2, 3]"
  by (simp_all add: upt_rec)

lemma dec_enc_1:
  assumes "cp \<le> 0x7f"
  shows "utf8_to_utf32 (ucast cp # r) = (1, Some cp)"
proof -
  have hi: "\<not> bit cp n" if "7 \<le> n" for n using u32_high_bits [OF assms, of 7 n] that by simp
  have "ucast (ucast cp AND 0x7f :: u8) = cp" using hi by (auto simp: u32_eq_iff upt_32 bit_simps)
  moreover have "utf32_is_valid cp" using assms by (auto simp: utf32_is_valid_def word_le_nat_alt)
  ultimately show ?thesis
    using assms hi by (simp add: utf8_to_utf32_def utf8_first_def byte_class bit_simps)
qed

lemma dec_enc_2:
  assumes "\<not> cp \<le> 0x7f" and "cp \<le> 0x7ff"
  shows "utf8_to_utf32 ((0xc0 OR ucast (drop_bit 6 cp)) # (0x80 OR ucast (cp AND 0x3f)) # r) = (2, Some cp)"
proof -
  have hi: "\<not> bit cp n" if "11 \<le> n" for n using u32_high_bits [OF assms(2), of 11 n] that by simp
  let ?a = "0xc0 OR ucast (drop_bit 6 cp) :: u8" and ?b = "0x80 OR ucast (cp AND 0x3f) :: u8"
  have "?a AND 0xf8 \<noteq> 0xf0" "?a AND 0xf0 \<noteq> 0xe0" "?a AND 0xe0 = 0xc0" "?b AND 0xc0 = 0x80"
    using hi unfolding byte_class by (simp_all add: bit_simps)
  moreover have "push_bit 6 (ucast (?a AND 0x1f)) OR ucast (?b AND 0x3f) = cp"
    using hi by (auto simp: u32_eq_iff upt_32 bit_simps)
  moreover have "utf32_is_valid cp" "\<not> cp < 0x80"
    using assms by (auto simp: utf32_is_valid_def word_le_nat_alt word_less_nat_alt)
  ultimately show ?thesis
    using assms by (simp add: utf8_to_utf32_def utf8_first_def upt_small)
qed

lemma dec_enc_3:
  assumes "\<not> cp \<le> 0x7ff" and "cp \<le> 0xffff" and "utf32_is_valid cp"
  shows "utf8_to_utf32 ((0xe0 OR ucast (drop_bit 12 cp)) # (0x80 OR ucast (drop_bit 6 cp AND 0x3f)) #
    (0x80 OR ucast (cp AND 0x3f)) # r) = (3, Some cp)"
proof -
  have hi: "\<not> bit cp n" if "16 \<le> n" for n using u32_high_bits [OF assms(2), of 16 n] that by simp
  let ?a = "0xe0 OR ucast (drop_bit 12 cp) :: u8" and ?b = "0x80 OR ucast (drop_bit 6 cp AND 0x3f) :: u8"
    and ?c = "0x80 OR ucast (cp AND 0x3f) :: u8"
  have "?a AND 0xf8 \<noteq> 0xf0" "?a AND 0xf0 = 0xe0" "?b AND 0xc0 = 0x80" "?c AND 0xc0 = 0x80"
    using hi unfolding byte_class by (simp_all add: bit_simps)
  moreover have "(push_bit 12 (ucast (?a AND 0x0f)) OR push_bit 6 (ucast (?b AND 0x3f))) OR ucast (?c AND 0x3f) = cp"
    using hi by (auto simp: u32_eq_iff upt_32 bit_simps)
  moreover have "\<not> cp < 0x800"
    using assms by (auto simp: word_le_nat_alt word_less_nat_alt)
  ultimately show ?thesis
    using assms by (simp add: utf8_to_utf32_def utf8_first_def upt_small)
qed

lemma dec_enc_4:
  assumes "\<not> cp \<le> 0xffff" and "utf32_is_valid cp"
  shows "utf8_to_utf32 ((0xf0 OR ucast (drop_bit 18 cp)) # (0x80 OR ucast (drop_bit 12 cp AND 0x3f)) #
    (0x80 OR ucast (drop_bit 6 cp AND 0x3f)) # (0x80 OR ucast (cp AND 0x3f)) # r) = (4, Some cp)"
proof -
  have max: "cp \<le> 0x10ffff" using assms by (simp add: utf32_is_valid_def split: if_splits)
  have hi: "\<not> bit cp n" if "21 \<le> n" for n using u32_high_bits [OF max, of 21 n] that by simp
  let ?a = "0xf0 OR ucast (drop_bit 18 cp) :: u8" and ?b = "0x80 OR ucast (drop_bit 12 cp AND 0x3f) :: u8"
    and ?c = "0x80 OR ucast (drop_bit 6 cp AND 0x3f) :: u8" and ?d = "0x80 OR ucast (cp AND 0x3f) :: u8"
  have "?a AND 0xf8 = 0xf0" "?b AND 0xc0 = 0x80" "?c AND 0xc0 = 0x80" "?d AND 0xc0 = 0x80"
    using hi unfolding byte_class by (simp_all add: bit_simps)
  moreover have "((push_bit 18 (ucast (?a AND 0x07)) OR push_bit 12 (ucast (?b AND 0x3f))) OR
      push_bit 6 (ucast (?c AND 0x3f))) OR ucast (?d AND 0x3f) = cp"
    using hi by (auto simp: u32_eq_iff upt_32 bit_simps)
  moreover have "\<not> cp < 0x10000"
    using assms by (auto simp: word_le_nat_alt word_less_nat_alt)
  ultimately show ?thesis
    using assms max by (simp add: utf8_to_utf32_def utf8_first_def upt_small)
qed

lemma utf8_dec_enc: "utf32_is_valid cp \<Longrightarrow> utf8_to_utf32 (utf8_enc cp @ r) = (length (utf8_enc cp), Some cp)"
  using dec_enc_1 [of cp] dec_enc_2 [of cp] dec_enc_3 [of cp] dec_enc_4 [of cp]
  by (auto simp: utf8_enc_def)

text \<open>Conversely, accepted bytes are the encoding of the code point they decode to.\<close>

lemma enc_dec_1: "a AND 0x80 = 0 \<Longrightarrow> utf8_enc (ucast (a AND 0x7f :: u8)) = [a]"
proof -
  assume "a AND 0x80 = 0"
  then have "\<not> bit a 7" by (simp only: byte_class) simp
  then have "a AND 0x7f = a" by (auto simp: u8_eq_iff bit_simps)
  moreover have "(ucast (a AND 0x7f) :: u32) \<le> 0x7f"
    using word_and_le1 [of a "0x7f"] by (simp add: word_le_nat_alt unat_ucast_u32)
  moreover have "ucast (ucast a :: u32) = a" by (simp add: u8_eq_iff bit_simps)
  ultimately show ?thesis by (simp add: utf8_enc_def)
qed

lemma enc_dec_2:
  assumes "a AND 0xe0 = 0xc0" and "b AND 0xc0 = 0x80"
    and cp: "cp = push_bit 6 (ucast (a AND 0x1f)) OR ucast (b AND 0x3f)" and "\<not> cp < 0x80" "\<not> 0x7ff < cp"
  shows "utf8_enc cp = [a, b]"
proof -
  have "0xc0 OR ucast (drop_bit 6 cp) = a" "0x80 OR ucast (cp AND 0x3f) = b"
    using assms(1,2) unfolding byte_class by (auto simp: u8_eq_iff bit_simps cp)
  with assms(4,5) show ?thesis by (auto simp: utf8_enc_def word_le_nat_alt word_less_nat_alt)
qed

lemma enc_dec_3:
  assumes "a AND 0xf0 = 0xe0" and "b AND 0xc0 = 0x80" and "c AND 0xc0 = 0x80"
    and cp: "cp = (push_bit 12 (ucast (a AND 0x0f)) OR push_bit 6 (ucast (b AND 0x3f))) OR ucast (c AND 0x3f)"
    and "\<not> cp < 0x800" "\<not> 0xffff < cp"
  shows "utf8_enc cp = [a, b, c]"
proof -
  have "0xe0 OR ucast (drop_bit 12 cp) = a" "0x80 OR ucast (drop_bit 6 cp AND 0x3f) = b"
    "0x80 OR ucast (cp AND 0x3f) = c"
    using assms(1-3) unfolding byte_class by (auto simp: u8_eq_iff bit_simps cp)
  with assms(5,6) show ?thesis by (auto simp: utf8_enc_def word_le_nat_alt word_less_nat_alt)
qed

lemma enc_dec_4:
  assumes "a AND 0xf8 = 0xf0" and "b AND 0xc0 = 0x80" and "c AND 0xc0 = 0x80" and "d AND 0xc0 = 0x80"
    and cp: "cp = ((push_bit 18 (ucast (a AND 0x07)) OR push_bit 12 (ucast (b AND 0x3f))) OR
      push_bit 6 (ucast (c AND 0x3f))) OR ucast (d AND 0x3f)"
    and "\<not> cp < 0x10000"
  shows "utf8_enc cp = [a, b, c, d]"
proof -
  have "0xf0 OR ucast (drop_bit 18 cp) = a" "0x80 OR ucast (drop_bit 12 cp AND 0x3f) = b"
    "0x80 OR ucast (drop_bit 6 cp AND 0x3f) = c" "0x80 OR ucast (cp AND 0x3f) = d"
    using assms(1-4) unfolding byte_class by (auto simp: u8_eq_iff bit_simps cp)
  with assms(6) show ?thesis by (auto simp: utf8_enc_def word_le_nat_alt word_less_nat_alt)
qed

lemma take_nths:
  "1 \<le> length s \<Longrightarrow> take 1 s = [s ! 0]"
  "2 \<le> length s \<Longrightarrow> take 2 s = [s ! 0, s ! 1]"
  "3 \<le> length s \<Longrightarrow> take 3 s = [s ! 0, s ! 1, s ! 2]"
  "4 \<le> length s \<Longrightarrow> take 4 s = [s ! 0, s ! 1, s ! 2, s ! 3]"
  by (auto intro!: nth_equalityI simp: less_Suc_eq numeral_eq_Suc)

lemma utf8_first_cases:
  assumes "utf8_first a = Some (len, res, mincp, maxcp)"
  obtains (1) "a AND 0x80 = 0" "len = 1" "res = ucast (a AND 0x7f)" "mincp = 0" "maxcp = 0x7f"
    | (2) "a AND 0xe0 = 0xc0" "len = 2" "res = push_bit 6 (ucast (a AND 0x1f))" "mincp = 0x80" "maxcp = 0x7ff"
    | (3) "a AND 0xf0 = 0xe0" "len = 3" "res = push_bit 12 (ucast (a AND 0x0f))" "mincp = 0x800" "maxcp = 0xffff"
    | (4) "a AND 0xf8 = 0xf0" "len = 4" "res = push_bit 18 (ucast (a AND 0x07))" "mincp = 0x10000" "maxcp = 0x10ffff"
  using assms by (auto simp: utf8_first_def split: if_splits)

lemma utf8_enc_dec:
  assumes "utf8_to_utf32 s = (n, Some cp)"
  shows "utf32_is_valid cp \<and> n = length (utf8_enc cp) \<and> s = utf8_enc cp @ drop n s"
proof -
  from assms obtain len res mincp maxcp where
    f: "s \<noteq> []" "utf8_first (s ! 0) = Some (len, res, mincp, maxcp)" "len \<le> length s" and
    r: "utf8_rest s len [1..<len] res = Some cp" "\<not> cp < mincp" "\<not> maxcp < cp" "utf32_is_valid cp" "n = len"
    by (auto simp: utf8_to_utf32_def split: option.splits if_splits)
  have "utf8_enc cp = take len s"
    using f(2)
  proof (cases rule: utf8_first_cases)
    case 1
    then show ?thesis using f r enc_dec_1 [of "s ! 0"] by (simp add: take_Suc_conv_app_nth)
  next
    case 2
    then show ?thesis using f r enc_dec_2 [of "s ! 0" "s ! 1" cp]
      by (auto simp: upt_small take_nths split: if_splits)
  next
    case 3
    then show ?thesis using f r enc_dec_3 [of "s ! 0" "s ! 1" "s ! 2" cp]
      by (auto simp: upt_small take_nths split: if_splits)
  next
    case 4
    then show ?thesis using f r enc_dec_4 [of "s ! 0" "s ! 1" "s ! 2" "s ! 3" cp]
      by (auto simp: upt_small take_nths split: if_splits)
  qed
  with f r show ?thesis by simp
qed

lemma utf8_to_utf32_iff:
  "utf8_to_utf32 s = (n, Some cp) \<longleftrightarrow>
     utf32_is_valid cp \<and> n = length (utf8_enc cp) \<and> (\<exists>r. s = utf8_enc cp @ r)"
  using utf8_enc_dec [of s n cp] utf8_dec_enc [of cp] by blast

lemma utf8_to_utf32_None: "fst (utf8_to_utf32 s) = 0 \<longleftrightarrow> snd (utf8_to_utf32 s) = None"
  by (auto simp: utf8_to_utf32_def utf8_first_def split: option.splits if_splits)

lemma utf8_enc_nonempty [simp]: "utf8_enc cp \<noteq> []"
  by (simp add: utf8_enc_def)

subsection \<open>Strings\<close>

text \<open>A string is a sequence of encoded code points.\<close>

definition utf8_string :: "bytes \<Rightarrow> bool" where
  "utf8_string s \<longleftrightarrow> (\<exists>cps. list_all utf32_is_valid cps \<and> s = concat (map utf8_enc cps))"

lemma utf8_string_Nil [simp]: "utf8_string []"
  unfolding utf8_string_def by (rule exI [of _ "[]"]) simp

lemma utf8_string_step:
  assumes "s \<noteq> []"
  shows "utf8_string s \<longleftrightarrow> (case utf8_to_utf32 s of (n, None) \<Rightarrow> False | (n, Some cp) \<Rightarrow> utf8_string (drop n s))"
proof
  assume "utf8_string s"
  then obtain cps where c: "list_all utf32_is_valid cps" "s = concat (map utf8_enc cps)"
    by (auto simp: utf8_string_def)
  with assms obtain cp cps' where "cps = cp # cps'" by (cases cps) auto
  with c utf8_dec_enc [of cp "concat (map utf8_enc cps')"]
  show "case utf8_to_utf32 s of (n, None) \<Rightarrow> False | (n, Some cp) \<Rightarrow> utf8_string (drop n s)"
    by (auto simp: utf8_string_def)
next
  assume "case utf8_to_utf32 s of (n, None) \<Rightarrow> False | (n, Some cp) \<Rightarrow> utf8_string (drop n s)"
  then obtain n cp cps where "utf8_to_utf32 s = (n, Some cp)" "list_all utf32_is_valid cps"
    "drop n s = concat (map utf8_enc cps)"
    by (auto simp: utf8_string_def split: prod.splits option.splits)
  with utf8_enc_dec [of s n cp] show "utf8_string s"
    unfolding utf8_string_def by (intro exI [of _ "cp # cps"]) auto
qed

lemma utf8_is_valid_from_iff:
  "utf8_is_valid_from src i = (if utf8_string (drop i src) then Inr () else fail EILSEQ)"
proof (induction src i rule: utf8_is_valid_from.induct)
  case (1 src i)
  show ?case
  proof (cases "i < length src")
    case True
    obtain n r where u: "utf8_to_utf32 (drop i src) = (n, r)" by fastforce
    show ?thesis
      using 1 [OF True refl] True u utf8_to_utf32_None [of "drop i src"] utf8_string_step [of "drop i src"]
      by (subst utf8_is_valid_from.simps) (auto simp: Let_def add.commute split: option.splits)
  qed (subst utf8_is_valid_from.simps, simp)
qed

subsection \<open>Properties\<close>

text \<open>
  C6. The decoder accepts exactly the encodings of RFC 3629: it stores a code point and returns \<open>n\<close>
  just when the input starts with the \<open>n\<close> bytes of that code point's encoding and the code point is
  valid (no surrogate, at most U+10FFFF), so overlong forms are refused; otherwise it returns 0 and
  leaves \<open>*out\<close> alone.
\<close>

theorem utf8_to_utf32_exact:
  "(utf8_to_utf32 s = (n, Some cp)) =
     (utf32_is_valid cp \<and> n = length (utf8_enc cp) \<and> (\<exists>r. s = utf8_enc cp @ r)) \<and>
   (fst (utf8_to_utf32 s) = 0) = (snd (utf8_to_utf32 s) = None)"
  using utf8_to_utf32_iff utf8_to_utf32_None by blast

text \<open>
  C7. The encoder writes the RFC 3629 bytes of every valid code point when they fit the buffer, answers
  \<open>-ENOMEM\<close> when they do not and \<open>-EINVAL\<close> for a code point that is not valid; its assertion holds.
\<close>

theorem utf32_to_utf8_exact:
  "utf32_to_utf8 cp buflen =
     (if \<not> utf32_is_valid cp then fail EINVAL
      else if buflen < length (utf8_enc cp) then fail ENOMEM else Inr (utf8_enc cp))"
proof -
  have "ucast (drop_bit 6 cp OR 0x3fc0) = (0xc0 OR ucast (drop_bit 6 cp) :: u8)"
    "ucast (drop_bit 12 cp OR 0x1fe0) = (0xe0 OR ucast (drop_bit 12 cp) :: u8)"
    "ucast (drop_bit 18 cp OR 0xff0) = (0xf0 OR ucast (drop_bit 18 cp) :: u8)"
    "ucast (0x80 OR (w AND 0x3f)) = (0x80 OR ucast (w AND 0x3f) :: u8)" for w :: u32
    by (auto simp: u8_eq_iff bit_simps)
  then show ?thesis
    by (auto simp: utf32_to_utf8_def utf8_enc_def utf32_is_valid_def Let_def upt_small push_bit_eq_mult
        not_less not_le)
qed

text \<open>
  \<open>utf8_is_valid_str\<close> always returns, with 0 exactly for the strings that are a sequence of
  encoded valid code points and \<open>-EILSEQ\<close> for all others.
\<close>

theorem utf8_is_valid_str_iff:
  "utf8_is_valid_str src =
     (if \<exists>cps. list_all utf32_is_valid cps \<and> src = concat (map utf8_enc cps)
      then Inr () else fail EILSEQ)"
  using utf8_is_valid_from_iff [of src 0] by (simp add: utf8_is_valid_str_def utf8_string_def)

end
