(* ===== verification/UrlDecode.thy ===== *)
theory UrlDecode
  imports Prelude
begin

text \<open>
  \<^verbatim>\<open>src/urldecode.c\<close>: the state machine that undoes percent-encoding. The local \<open>struct state\<close> is the
  record \<open>ustate\<close>; the output object is a block of memory, so that a write beyond it is a \<open>Fault\<close>. The
  reference \<open>url_spec\<close> works on the whole string.
\<close>

unbundle bit_operations_syntax

subsection \<open>Operations\<close>

datatype decode_state = DS_COPY | DS_ESC1 | DS_ESC2

record ustate =
  u_state :: decode_state
  u_in :: bytes
  u_out :: bytes
  u_len :: nat
  u_inoff :: nat
  u_outoff :: nat

definition append_char :: "u8 \<Rightarrow> (ustate, unit) cfun" where
  "append_char c st =
     (if u_state st \<noteq> DS_COPY \<or> c = 43 \<or> c = 37 then (Inl Panic, st)
      else if u_outoff st < length (u_out st)
      then (Inr (), st\<lparr>u_out := (u_out st)[u_outoff st := c], u_outoff := Suc (u_outoff st)\<rparr>)
      else (Inl Fault, st))"

definition hex_nibble :: "u8 \<Rightarrow> u8 option" where
  "hex_nibble c =
     (if 48 \<le> c \<and> c \<le> 57 then Some (c - 48)
      else if 97 \<le> c \<and> c \<le> 102 then Some (c - (97 - 10))
      else if 65 \<le> c \<and> c \<le> 70 then Some (c - (65 - 10))
      else None)"

definition append_esc :: "u8 \<Rightarrow> (ustate, unit) cfun" where
  "append_esc c st =
     (case hex_nibble c of
        None \<Rightarrow> (fail EILSEQ, st)
      | Some v \<Rightarrow>
          (case u_state st of
             DS_ESC1 \<Rightarrow>
               if u_outoff st < length (u_out st)
               then (Inr (), st\<lparr>u_out := (u_out st)[u_outoff st := push_bit 4 v], u_state := DS_ESC2\<rparr>)
               else (Inl Fault, st)
           | DS_ESC2 \<Rightarrow>
               if u_outoff st < length (u_out st)
               then (Inr (), st\<lparr>u_out := (u_out st)[u_outoff st := u_out st ! u_outoff st OR v],
                 u_outoff := Suc (u_outoff st), u_state := DS_COPY\<rparr>)
               else (Inl Fault, st)
           | DS_COPY \<Rightarrow> (Inl Panic, st)))"

text \<open>The body of the loop, for the character at the current offset.\<close>

definition urldecode_step :: "u8 \<Rightarrow> (ustate, unit) cfun" where
  "urldecode_step c st =
     (case u_state st of
        DS_COPY \<Rightarrow>
          if c = 37 then (Inr (), st\<lparr>u_state := DS_ESC1\<rparr>)
          else if c = 43 then append_char 32 st
          else append_char c st
      | _ \<Rightarrow> append_esc c st)"

lemma urldecode_step_same:
  "urldecode_step c st = (r, st') \<Longrightarrow> u_inoff st' = u_inoff st \<and> u_len st' = u_len st \<and> u_in st' = u_in st"
  by (auto simp: urldecode_step_def append_char_def append_esc_def
      split: decode_state.splits if_splits option.splits)

text \<open>The result is the returned count and the final contents of the output object.\<close>

function urldecode_loop :: "ustate \<Rightarrow> nat res \<times> bytes" where
  "urldecode_loop st =
     (if u_inoff st < u_len st then
        if length (u_in st) \<le> u_inoff st then (Inl Fault, u_out st)
        else case urldecode_step (u_in st ! u_inoff st) st of
          (Inl e, st') \<Rightarrow> (Inl e, u_out st')
        | (Inr _, st') \<Rightarrow> urldecode_loop (st'\<lparr>u_inoff := Suc (u_inoff st')\<rparr>)
      else (if u_state st = DS_COPY then Inr (u_outoff st) else fail EILSEQ, u_out st))"
  by auto
termination
  by (relation "measure (\<lambda>st. u_len st - u_inoff st)")
    (auto dest!: urldecode_step_same [OF sym])

declare urldecode_loop.simps [simp del]

definition urldecode :: "bytes option \<Rightarrow> nat \<Rightarrow> bytes option \<Rightarrow> nat res \<times> bytes" where
  "urldecode inp len out =
     (case (inp, out) of
        (Some inp, Some out) \<Rightarrow>
          if len = 0 then (Inr 0, out)
          else urldecode_loop \<lparr>u_state = DS_COPY, u_in = inp, u_out = out, u_len = len, u_inoff = 0,
            u_outoff = 0\<rparr>
      | _ \<Rightarrow> (fail EINVAL, case out of None \<Rightarrow> [] | Some out \<Rightarrow> out))"

subsection \<open>Reference\<close>

text \<open>The value of a hexadecimal digit is its place in the row of the digits.\<close>

definition hex_value :: "u8 \<Rightarrow> nat option" where
  "hex_value c = map_of (zip (ascii ''0123456789abcdef'') [0..<16] @ zip (ascii ''ABCDEF'') [10..<16]) c"

fun url_spec :: "bytes \<Rightarrow> bytes option" where
  "url_spec [] = Some []"
| "url_spec (c # r) =
     (if c = 37 then
        (case r of
           a # b # r' \<Rightarrow>
             (case (hex_value a, hex_value b) of
                (Some x, Some y) \<Rightarrow> map_option ((#) (word_of_nat (16 * x + y))) (url_spec r')
              | _ \<Rightarrow> None)
         | _ \<Rightarrow> None)
      else map_option ((#) (if c = 43 then 32 else c)) (url_spec r))"

text \<open>The same, one character at a time, with the state of the machine and the byte under construction.\<close>

fun url_rest :: "decode_state \<Rightarrow> u8 \<Rightarrow> bytes \<Rightarrow> bytes option" where
  "url_rest ds h [] = (if ds = DS_COPY then Some [] else None)"
| "url_rest DS_COPY h (c # r) =
     (if c = 37 then url_rest DS_ESC1 h r
      else map_option ((#) (if c = 43 then 32 else c)) (url_rest DS_COPY h r))"
| "url_rest DS_ESC1 h (c # r) =
     (case hex_nibble c of None \<Rightarrow> None | Some v \<Rightarrow> url_rest DS_ESC2 (push_bit 4 v) r)"
| "url_rest DS_ESC2 h (c # r) =
     (case hex_nibble c of None \<Rightarrow> None | Some v \<Rightarrow> map_option ((#) (h OR v)) (url_rest DS_COPY 0 r))"

lemma hex_nibble_less: "hex_nibble c = Some v \<Longrightarrow> unat v < 16"
  by (auto simp: hex_nibble_def word_le_nat_alt unat_sub_if_size word_size split: if_splits)

lemma hex_table:
  "zip (ascii ''0123456789abcdef'') [0..<16] @ zip (ascii ''ABCDEF'') [10..<16] =
    [(48, 0), (49, 1), (50, 2), (51, 3), (52, 4), (53, 5), (54, 6), (55, 7), (56, 8), (57, 9), (97, 10), (98, 11), (99, 12), (100, 13), (101, 14), (102, 15), (65, 10), (66, 11), (67, 12), (68, 13), (69, 14), (70, 15)]"
  by code_simp

lemma byte_ranges:
  "48 \<le> c \<and> c \<le> 57 \<longleftrightarrow> c \<in> {48, 49, 50, 51, 52, 53, 54, 55, 56, 57}" "97 \<le> c \<and> c \<le> 102 \<longleftrightarrow> c \<in> {97, 98, 99, 100, 101, 102}"
  "65 \<le> c \<and> c \<le> 70 \<longleftrightarrow> c \<in> {65, 66, 67, 68, 69, 70}" for c :: u8
  by (simp_all add: word_le_nat_alt word_unat_eq_iff, presburger+)

lemma hex_nibble_value: "hex_nibble c = map_option word_of_nat (hex_value c)"
  unfolding hex_value_def hex_table hex_nibble_def byte_ranges by auto

lemma hex_value_less: "hex_value c = Some v \<Longrightarrow> v < 16"
  unfolding hex_value_def hex_table by (auto split: if_splits)

lemma nibble_or:
  assumes "unat y < 16"
  shows "push_bit 4 x OR y = 16 * x + (y :: u8)"
proof -
  have hi: "\<not> bit y n" if "4 \<le> n" for n using word_high_bits [of y 4 n] assms that by simp
  have "push_bit 4 x AND y = 0" using hi by (auto simp: bit_eq_iff bit_simps)
  then have "push_bit 4 x + y = push_bit 4 x OR y" by (rule disjunctive_add_eq_or)
  then show ?thesis by (simp add: push_bit_eq_mult mult.commute)
qed

lemma url_rest_spec: "url_rest DS_COPY h s = url_spec s"
proof (induction s arbitrary: h rule: url_spec.induct)
  case (2 c r)
  show ?case
  proof (cases "c = 37")
    case True
    show ?thesis
    proof (cases "\<exists>a b r'. r = a # b # r'")
      case False
      with True show ?thesis by (cases r; cases "tl r") (auto split: option.splits)
    next
      case two: True
      then obtain a b r' where r: "r = a # b # r'" by blast
      show ?thesis
      proof (cases "hex_nibble a = None \<or> hex_nibble b = None")
        case True
        with \<open>c = 37\<close> r show ?thesis by (auto simp: hex_nibble_value split: option.splits)
      next
        case False
        then obtain x y where xy: "hex_value a = Some x" "hex_value b = Some y" by (auto simp: hex_nibble_value)
        then have "unat (word_of_nat y :: u8) < 16"
          using hex_value_less [OF xy(2)] by (simp add: unat_of_nat)
        from 2(1) [OF \<open>c = 37\<close> r] True r xy nibble_or [OF this, of "word_of_nat x"]
        show ?thesis by (auto simp: hex_nibble_value)
      qed
    qed
  next
    case False
    with 2(2) [OF False] show ?thesis by simp
  qed
qed simp

text \<open>
  The state in the middle of a run: the output never gets ahead of the input, and the byte under
  construction is where the next one goes.
\<close>

fun pending :: "decode_state \<Rightarrow> nat" where
  "pending DS_COPY = 0" | "pending DS_ESC1 = 1" | "pending DS_ESC2 = 2"

definition url_inv :: "ustate \<Rightarrow> bool" where
  "url_inv st \<longleftrightarrow> u_outoff st + pending (u_state st) \<le> u_inoff st \<and> u_inoff st \<le> u_len st \<and>
     u_len st \<le> length (u_in st) \<and> u_len st \<le> length (u_out st)"

text \<open>The input that is left.\<close>

definition url_left :: "ustate \<Rightarrow> bytes" where
  "url_left st = drop (u_inoff st) (take (u_len st) (u_in st))"

lemma urldecode_loop_step:
  assumes "url_inv st" and "c # r = url_left st"
  shows "urldecode_loop st =
    (case urldecode_step c st of
       (Inl e, st') \<Rightarrow> (Inl e, u_out st')
     | (Inr _, st') \<Rightarrow> urldecode_loop (st'\<lparr>u_inoff := Suc (u_inoff st')\<rparr>))"
    and "r = drop (Suc (u_inoff st)) (take (u_len st) (u_in st))" and "u_outoff st < length (u_out st)"
    and "u_inoff st < u_len st"
proof -
  let ?in = "take (u_len st) (u_in st)"
  have "u_inoff st < length ?in" using assms(2) unfolding url_left_def by (metis drop_eq_Nil leI list.discI)
  then have lt: "u_inoff st < u_len st" "u_inoff st < length (u_in st)" by auto
  then show "u_inoff st < u_len st" "u_outoff st < length (u_out st)"
    using assms(1) by (auto simp: url_inv_def)
  have "c = ?in ! u_inoff st" and r: "r = drop (Suc (u_inoff st)) ?in"
    using assms(2) \<open>u_inoff st < length ?in\<close> unfolding url_left_def by (metis Cons_nth_drop_Suc list.inject)+
  then have c: "c = u_in st ! u_inoff st" using lt by simp
  show "r = drop (Suc (u_inoff st)) ?in" by (rule r)
  show "urldecode_loop st =
    (case urldecode_step c st of
       (Inl e, st') \<Rightarrow> (Inl e, u_out st')
     | (Inr _, st') \<Rightarrow> urldecode_loop (st'\<lparr>u_inoff := Suc (u_inoff st')\<rparr>))"
    using lt c by (subst urldecode_loop.simps) simp
qed

lemma urldecode_loop_rest:
  assumes "url_inv st" and "u_state st = DS_ESC2 \<longrightarrow> u_out st ! u_outoff st = h"
  shows "case url_rest (u_state st) h (url_left st) of
      None \<Rightarrow> fst (urldecode_loop st) = fail EILSEQ
    | Some r \<Rightarrow> fst (urldecode_loop st) = Inr (u_outoff st + length r) \<and>
        take (u_outoff st + length r) (snd (urldecode_loop st)) = take (u_outoff st) (u_out st) @ r \<and>
        length (snd (urldecode_loop st)) = length (u_out st)"
  using assms
proof (induction "url_left st" arbitrary: st h)
  case Nil
  then have "u_inoff st = u_len st" by (simp add: url_inv_def url_left_def)
  then have "urldecode_loop st = (if u_state st = DS_COPY then Inr (u_outoff st) else fail EILSEQ, u_out st)"
    by (subst urldecode_loop.simps) simp
  with Nil show ?case by (simp flip: Nil.hyps)
next
  case (Cons c r)
  note st = urldecode_loop_step [OF Cons.prems(1) Cons.hyps(2)]
  have inv: "url_inv (st'\<lparr>u_inoff := Suc (u_inoff st)\<rparr>)"
    if "u_outoff st' + pending (u_state st') \<le> Suc (u_inoff st)" "u_len st' = u_len st" "u_in st' = u_in st"
      "length (u_out st') = length (u_out st)" for st'
    using that st(4) Cons.prems(1) by (auto simp: url_inv_def)
  have left: "url_left (st'\<lparr>u_inoff := Suc (u_inoff st)\<rparr>) = r" if "u_len st' = u_len st" "u_in st' = u_in st" for st'
    using that st(2) by (simp add: url_left_def)
  have le: "u_outoff st + pending (u_state st) \<le> u_inoff st" using Cons.prems(1) by (simp add: url_inv_def)
  show ?case
  proof (cases "u_state st")
    case DS_COPY
    show ?thesis
    proof (cases "c = 37")
      case True
      let ?s = "st\<lparr>u_state := DS_ESC1\<rparr>"
      have "urldecode_loop st = urldecode_loop (?s\<lparr>u_inoff := Suc (u_inoff st)\<rparr>)"
        using DS_COPY True by (simp add: st(1) urldecode_step_def)
      with Cons.hyps(1) [OF left [of ?s, symmetric] inv [of ?s], of h] left [of ?s] le DS_COPY True show ?thesis
        by (simp flip: Cons.hyps(2) split: option.splits)
    next
      case False
      let ?d = "if c = 43 then 32 else c"
      let ?s = "st\<lparr>u_out := (u_out st)[u_outoff st := ?d], u_outoff := Suc (u_outoff st)\<rparr>"
      have "urldecode_loop st = urldecode_loop (?s\<lparr>u_inoff := Suc (u_inoff st)\<rparr>)"
        using DS_COPY False st(3) by (simp add: st(1) urldecode_step_def append_char_def)
      with Cons.hyps(1) [OF left [of ?s, symmetric] inv [of ?s], of h] left [of ?s] st(3) le DS_COPY False show ?thesis
        by (cases "c = 43") (simp_all add: take_Suc_conv_app_nth flip: Cons.hyps(2) split: option.splits)
    qed
  next
    case DS_ESC1
    show ?thesis
    proof (cases "hex_nibble c")
      case None
      then show ?thesis using DS_ESC1
        by (simp add: st(1) urldecode_step_def append_esc_def flip: Cons.hyps(2))
    next
      case (Some v)
      let ?s = "st\<lparr>u_out := (u_out st)[u_outoff st := push_bit 4 v], u_state := DS_ESC2\<rparr>"
      have "urldecode_loop st = urldecode_loop (?s\<lparr>u_inoff := Suc (u_inoff st)\<rparr>)"
        using DS_ESC1 Some st(3) by (simp add: st(1) urldecode_step_def append_esc_def)
      with Cons.hyps(1) [OF left [of ?s, symmetric] inv [of ?s], of "push_bit 4 v"] left [of ?s] st(3) le DS_ESC1 Some show ?thesis
        by (simp flip: Cons.hyps(2) split: option.splits)
    qed
  next
    case DS_ESC2
    show ?thesis
    proof (cases "hex_nibble c")
      case None
      then show ?thesis using DS_ESC2
        by (simp add: st(1) urldecode_step_def append_esc_def flip: Cons.hyps(2))
    next
      case (Some v)
      let ?s = "st\<lparr>u_out := (u_out st)[u_outoff st := h OR v], u_outoff := Suc (u_outoff st),
        u_state := DS_COPY\<rparr>"
      have "urldecode_loop st = urldecode_loop (?s\<lparr>u_inoff := Suc (u_inoff st)\<rparr>)"
        using DS_ESC2 Some st(3) Cons.prems(2) by (simp add: st(1) urldecode_step_def append_esc_def)
      with Cons.hyps(1) [OF left [of ?s, symmetric] inv [of ?s], of 0] left [of ?s] st(3) le DS_ESC2 Some show ?thesis
        by (simp add: take_Suc_conv_app_nth flip: Cons.hyps(2) split: option.splits)
    qed
  qed
qed

lemma urldecode_decodes:
  assumes "len \<le> length inp" and "len \<le> length out"
  shows "case url_spec (take len inp) of
      None \<Rightarrow> fst (urldecode (Some inp) len (Some out)) = fail EILSEQ
    | Some r \<Rightarrow> \<exists>out'. urldecode (Some inp) len (Some out) = (Inr (length r), out') \<and>
        take (length r) out' = r \<and> length out' = length out"
proof (cases "len = 0")
  case False
  let ?st = "\<lparr>u_state = DS_COPY, u_in = inp, u_out = out, u_len = len, u_inoff = 0, u_outoff = 0\<rparr>"
  have "url_inv ?st" using assms by (simp add: url_inv_def)
  from urldecode_loop_rest [OF this, of 0] False show ?thesis
    using url_rest_spec [of 0 "take len inp"]
    by (cases "urldecode_loop ?st") (simp add: urldecode_def url_left_def split: option.splits)
qed (simp add: urldecode_def)

lemma url_spec_length: "url_spec s = Some r \<Longrightarrow> length r \<le> length s"
  by (induction s arbitrary: r rule: url_spec.induct) (fastforce split: if_splits list.splits option.splits prod.splits)+

subsection \<open>Properties\<close>

text \<open>
  C8. \<open>urldecode\<close> of \<open>len\<close> characters into an object of at least that size always returns: the number of
  bytes of the decoded string, which it leaves at the start of the output, or \<open>-EILSEQ\<close> exactly when the
  input has a percent sign that two hexadecimal digits do not follow. Its \<open>VERIFY\<close> checks hold, and it
  neither reads beyond the characters nor writes beyond the output object.
\<close>

theorem urldecode_spec:
  assumes "len \<le> length inp" and "len \<le> length out"
  shows "case url_spec (take len inp) of
      None \<Rightarrow> fst (urldecode (Some inp) len (Some out)) = fail EILSEQ
    | Some r \<Rightarrow>
        fst (urldecode (Some inp) len (Some out)) = Inr (length r) \<and>
        take (length r) (snd (urldecode (Some inp) len (Some out))) = r"
  using urldecode_decodes [OF assms] by (auto split: option.splits)

theorem urldecode_spec_witness:
  "fst (urldecode (Some [97, 37, 52, 49, 43]) 5 (Some [0, 0, 0, 0, 0])) = Inr 3"
proof -
  have "hex_value 52 = Some 4" "hex_value 49 = Some 1"
    unfolding hex_value_def hex_table by simp_all
  then have "url_spec [97, 37, 52, 49, 43] = Some [97, 65, 32]"
    by simp
  with urldecode_spec [of 5 "[97, 37, 52, 49, 43]" "[0, 0, 0, 0, 0]"] show ?thesis
    by (simp add: numeral_eq_Suc)
qed

end
