(* ===== verification/Uuid.thy ===== *)
theory Uuid
  imports Prelude
begin

text \<open>
  \<^verbatim>\<open>src/hexdump.c\<close> and \<^verbatim>\<open>src/uuid.c\<close>: hexadecimal dumps, and printing, parsing, comparing and
  generating UUIDs. Input strings and output buffers are objects of a certain size; an access beyond
  one is a \<open>Fault\<close>. \<open>rand_buf\<close> is an argument of \<open>xuuid_generate\<close>: the bytes it filled in.
\<close>

unbundle bit_operations_syntax

subsection \<open>Hexadecimal dumps\<close>

definition uppercase :: bytes where
  "uppercase = [48, 49, 50, 51, 52, 53, 54, 55, 56, 57, 65, 66, 67, 68, 69, 70]"

definition lowercase :: bytes where
  "lowercase = [48, 49, 50, 51, 52, 53, 54, 55, 56, 57, 97, 98, 99, 100, 101, 102]"

text \<open>The characters written from \<open>out[0]\<close> on.\<close>

definition hexdump :: "bytes \<Rightarrow> bool \<Rightarrow> bytes" where
  "hexdump inp upper =
     (let table = (if upper then uppercase else lowercase)
      in concat (map (\<lambda>b. [table ! unat (drop_bit 4 b), table ! unat (b AND 0xf)]) inp))"

definition hexdumpz :: "bytes \<Rightarrow> bool \<Rightarrow> bytes" where
  "hexdumpz inp upper = hexdump inp upper @ [0]"

subsection \<open>UUIDs\<close>

record xuuid =
  raw :: bytes

definition xuuid_null_uuid :: xuuid where
  "xuuid_null_uuid = \<lparr>raw = replicate 16 0\<rparr>"

definition xuuid_clear :: "xuuid \<Rightarrow> xuuid" where
  "xuuid_clear u = u\<lparr>raw := replicate 16 0\<rparr>"

text \<open>\<open>memcmp\<close>, of which only the sign is specified.\<close>

fun memcmp :: "bytes \<Rightarrow> bytes \<Rightarrow> int" where
  "memcmp (x # xs) (y # ys) = (if x < y then - 1 else if y < x then 1 else memcmp xs ys)"
| "memcmp _ _ = 0"

definition xuuid_compare :: "xuuid \<Rightarrow> xuuid \<Rightarrow> int" where
  "xuuid_compare u1 u2 = memcmp (raw u1) (raw u2)"

definition xuuid_is_null :: "xuuid \<Rightarrow> bool" where
  "xuuid_is_null u \<longleftrightarrow> xuuid_compare u xuuid_null_uuid = 0"

definition xuuid_generate :: "bytes \<Rightarrow> xuuid" where
  "xuuid_generate rand =
     \<lparr>raw = rand[6 := (rand ! 6 AND 0x0f) OR 0x40, 8 := (rand ! 8 AND 0x3f) OR 0x80]\<rparr>"

definition parse_digit :: "u8 \<Rightarrow> int" where
  "parse_digit c =
     (if 48 \<le> c \<and> c \<le> 57 then uint c - 48
      else if 97 \<le> c \<and> c \<le> 102 then uint c - 97 + 10
      else if 65 \<le> c \<and> c \<le> 70 then uint c - 65 + 10
      else - 1)"

text \<open>
  \<open>parse_part(&raw[ooff], &in[ioff], len)\<close>: the loop over the list of indices. The result says whether
  it succeeded and holds the raw bytes, which keep what was parsed before a failure.
\<close>

fun parse_part :: "bytes \<Rightarrow> nat \<Rightarrow> bytes \<Rightarrow> nat \<Rightarrow> nat list \<Rightarrow> bool res \<times> bytes" where
  "parse_part out ooff inp ioff [] = (Inr True, out)"
| "parse_part out ooff inp ioff (i # is) =
     (if length inp \<le> ioff + 2 * i + 1 then (Inl Fault, out)
      else
        let a = parse_digit (inp ! (ioff + 2 * i)); b = parse_digit (inp ! (ioff + 2 * i + 1))
        in if a < 0 \<or> b < 0 then (Inr False, out)
           else if length out \<le> ooff + i then (Inl Fault, out)
           else parse_part (out[ooff + i := word_of_int (push_bit 4 a OR b)]) ooff inp ioff is)"

text \<open>The comparisons of single characters, up to the first that fails.\<close>

fun check_chars :: "bytes \<Rightarrow> (nat \<times> u8) list \<Rightarrow> bool res" where
  "check_chars inp [] = Inr True"
| "check_chars inp ((i, c) # cs) =
     (if length inp \<le> i then Inl Fault else if inp ! i = c then check_chars inp cs else Inr False)"

fun parse_parts :: "bytes \<Rightarrow> bytes \<Rightarrow> (nat \<times> nat \<times> nat) list \<Rightarrow> bool res \<times> bytes" where
  "parse_parts out inp [] = (Inr True, out)"
| "parse_parts out inp ((ooff, ioff, len) # ps) =
     (case parse_part out ooff inp ioff [0..<len] of
        (Inr True, out') \<Rightarrow> parse_parts out' inp ps
      | (r, out') \<Rightarrow> (r, out'))"

definition xuuid_parse_gen :: "xuuid \<Rightarrow> bytes \<Rightarrow> bool \<Rightarrow> bool res \<times> xuuid" where
  "xuuid_parse_gen u inp req_nul =
     (case check_chars inp ([(8, 45), (13, 45), (18, 45), (23, 45)] @ (if req_nul then [(36, 0)] else [])) of
        Inr True \<Rightarrow>
          (case parse_parts (raw u) inp [(0, 0, 4), (4, 9, 2), (6, 14, 2), (8, 19, 2), (10, 24, 6)] of
             (r, out) \<Rightarrow> (r, u\<lparr>raw := out\<rparr>))
      | r \<Rightarrow> (r, u))"

definition xuuid_parse :: "xuuid \<Rightarrow> bytes \<Rightarrow> bool res \<times> xuuid" where
  "xuuid_parse u inp = xuuid_parse_gen u inp True"

definition xuuid_parse_no_nul :: "xuuid \<Rightarrow> bytes \<Rightarrow> bool res \<times> xuuid" where
  "xuuid_parse_no_nul u inp = xuuid_parse_gen u inp False"

text \<open>The writes of \<open>xuuid_unparse\<close> into the caller's buffer, in order.\<close>

fun put_all :: "bytes \<Rightarrow> (nat \<times> bytes) list \<Rightarrow> bytes res" where
  "put_all out [] = Inr out"
| "put_all out ((off, bs) # ws) =
     (case blk_write out off bs of None \<Rightarrow> Inl Fault | Some out' \<Rightarrow> put_all out' ws)"

definition piece :: "xuuid \<Rightarrow> nat \<Rightarrow> nat \<Rightarrow> bytes" where
  "piece u off len = hexdump (take len (drop off (raw u))) False"

definition xuuid_unparse :: "xuuid \<Rightarrow> bytes \<Rightarrow> bytes res" where
  "xuuid_unparse u out =
     put_all out
       [(0, piece u 0 4), (9, piece u 4 2), (14, piece u 6 2), (19, piece u 8 2), (24, piece u 10 6),
        (8, [45]), (13, [45]), (18, [45]), (23, [45]), (36, [0])]"

subsection \<open>Lemmas\<close>

lemma lowercase_digit: "i < 16 \<Longrightarrow> parse_digit (lowercase ! i) = int i"
  by (auto simp: less_Suc_eq numeral_eq_Suc) (auto simp: lowercase_def parse_digit_def)

lemma nibbles:
  "unat (drop_bit 4 (b :: u8)) < 16" "unat (b AND 0xf) < 16"
  "word_of_int (push_bit 4 (uint (drop_bit 4 b)) OR uint (b AND 0xf)) = b"
proof -
  show "unat (b AND 0xf) < 16" using word_and_le1 [of b "0xf"] by (simp add: word_le_nat_alt)
  show "unat (drop_bit 4 b) < 16"
    using unat_u8_less [of b] by (simp only: unsigned_drop_bit_eq) (simp add: drop_bit_eq_div take_bit_nat_eq_self)
  show "word_of_int (push_bit 4 (uint (drop_bit 4 b)) OR uint (b AND 0xf)) = b"
    by (rule word_eqI_upt) (simp add: upt_8 bit_simps Suc_numerals)
qed

lemma hexdump_Nil [simp]: "hexdump [] upper = []"
  by (simp add: hexdump_def)

lemma hexdump_Cons_lower [simp]:
  "hexdump (b # bs) False = lowercase ! unat (drop_bit 4 b) # lowercase ! unat (b AND 0xf) # hexdump bs False"
  by (simp add: hexdump_def)

lemma length_hexdump [simp]: "length (hexdump bs upper) = 2 * length bs"
  by (induction bs) (auto simp: hexdump_def Let_def)

lemma parse_hex: "parse_digit (lowercase ! unat (drop_bit 4 (b :: u8))) = uint (drop_bit 4 b)"
  "parse_digit (lowercase ! unat (b AND 0xf)) = uint (b AND 0xf)"
  using lowercase_digit [OF nibbles(1) [of b]] lowercase_digit [OF nibbles(2) [of b]] by simp_all

text \<open>Printing sixteen bytes.\<close>

lemma obtain_16:
  assumes "length xs = 16"
  obtains a b c d e f g h i j k l m n q r where "xs = [a, b, c, d, e, f, g, h, i, j, k, l, m, n, q, r]"
  using assms by (auto simp: numeral_eq_Suc length_Suc_conv)

definition printed :: "bytes \<Rightarrow> bytes" where
  "printed r = hexdump (take 4 r) False @ [45] @ hexdump (take 2 (drop 4 r)) False @ [45] @
     hexdump (take 2 (drop 6 r)) False @ [45] @ hexdump (take 2 (drop 8 r)) False @ [45] @
     hexdump (take 6 (drop 10 r)) False @ [0]"

lemma unparse_printed:
  assumes "length (raw u) = 16" and "length out = 37"
  shows "xuuid_unparse u out = Inr (printed (raw u))"
proof -
  obtain a b c d e f g h i j k l m n q r where u: "raw u = [a, b, c, d, e, f, g, h, i, j, k, l, m, n, q, r]"
    using assms(1) by (rule obtain_16)
  show ?thesis
    using assms(2) by (simp add: xuuid_unparse_def piece_def u printed_def blk_write_def)
qed

lemma parse_printed:
  assumes "length r = 16" and "length (raw u) = 16"
  shows "xuuid_parse u (printed r) = (Inr True, u\<lparr>raw := r\<rparr>)"
proof -
  obtain a b c d e f g h i j k l m n q z where r: "r = [a, b, c, d, e, f, g, h, i, j, k, l, m, n, q, z]"
    using assms(1) by (rule obtain_16)
  obtain a' b' c' d' e' f' g' h' i' j' k' l' m' n' q' z' where u:
    "raw u = [a', b', c', d', e', f', g', h', i', j', k', l', m', n', q', z']"
    using assms(2) by (rule obtain_16)
  show ?thesis
    by (simp add: xuuid_parse_def xuuid_parse_gen_def printed_def r u upt_rec parse_hex nibbles(3))
qed

text \<open>Which strings are accepted.\<close>

definition hex_at :: "bytes \<Rightarrow> nat \<Rightarrow> bool" where
  "hex_at inp i \<longleftrightarrow> 0 \<le> parse_digit (inp ! i)"

lemma parse_part_result:
  assumes "\<forall>i \<in> set is. ioff + 2 * i + 1 < length inp \<and> ooff + i < length out"
  shows "\<exists>out'. parse_part out ooff inp ioff is =
      (Inr (list_all (\<lambda>i. hex_at inp (ioff + 2 * i) \<and> hex_at inp (ioff + 2 * i + 1)) is), out') \<and>
    length out' = length out"
  using assms
proof (induction "is" arbitrary: out)
  case (Cons i "is")
  let ?out = "out[ooff + i := word_of_int (push_bit 4 (parse_digit (inp ! (ioff + 2 * i))) OR
    parse_digit (inp ! Suc (ioff + 2 * i)))]"
  have "\<forall>j \<in> set is. ioff + 2 * j + 1 < length inp \<and> ooff + j < length ?out" using Cons.prems by auto
  from Cons.IH [OF this] Cons.prems show ?case
    by (auto simp: Let_def hex_at_def not_le not_less)
qed simp

lemma parse_parts_result:
  assumes "\<forall>(ooff, ioff, len) \<in> set ps. ioff + 2 * len \<le> length inp \<and> ooff + len \<le> length out"
  shows "\<exists>out'. parse_parts out inp ps =
      (Inr (list_all (\<lambda>(ooff, ioff, len). list_all (hex_at inp) [ioff..<ioff + 2 * len]) ps), out') \<and>
    length out' = length out"
  using assms
proof (induction ps arbitrary: out)
  case (Cons p ps)
  obtain ooff ioff len where p: "p = (ooff, ioff, len)" by (cases p)
  have "list_all (\<lambda>i. hex_at inp (ioff + 2 * i) \<and> hex_at inp (ioff + 2 * i + 1)) [0..<len] \<longleftrightarrow>
    list_all (hex_at inp) [ioff..<ioff + 2 * len]"
    by (induction len) auto
  moreover have "\<forall>i \<in> set [0..<len]. ioff + 2 * i + 1 < length inp \<and> ooff + i < length out"
    using Cons.prems p by auto
  from parse_part_result [OF this] obtain out1 where
    "parse_part out ooff inp ioff [0..<len] =
      (Inr (list_all (\<lambda>i. hex_at inp (ioff + 2 * i) \<and> hex_at inp (ioff + 2 * i + 1)) [0..<len]), out1)"
    and l1: "length out1 = length out" by blast
  ultimately have 1: "parse_part out ooff inp ioff [0..<len] =
      (Inr (list_all (hex_at inp) [ioff..<ioff + 2 * len]), out1)" by simp
  have "\<forall>(ooff, ioff, len) \<in> set ps. ioff + 2 * len \<le> length inp \<and> ooff + len \<le> length out1"
    using Cons.prems l1 by auto
  from Cons.IH [OF this] 1 l1 p show ?case by (auto split: bool.splits)
qed simp

text \<open>Dashes where they belong, a nul behind, and hexadecimal digits elsewhere.\<close>

definition uuid_text :: "bytes \<Rightarrow> bool" where
  "uuid_text inp \<longleftrightarrow>
     inp ! 8 = 45 \<and> inp ! 13 = 45 \<and> inp ! 18 = 45 \<and> inp ! 23 = 45 \<and> inp ! 36 = 0 \<and>
     list_all (hex_at inp) ([0..<8] @ [9..<13] @ [14..<18] @ [19..<23] @ [24..<36])"

subsection \<open>Properties\<close>

text \<open>
  Printing a UUID into a buffer of \<open>XUUID_PRINTABLE_STRING_LENGTH\<close> bytes fills exactly that buffer, and
  parsing the string gives the UUID back.
\<close>

theorem xuuid_roundtrip:
  assumes "length (raw u) = 16" and "length (raw v) = 16" and "length out = 37"
  shows "\<exists>s. xuuid_unparse u out = Inr s \<and> length s = 37 \<and> xuuid_parse v s = (Inr True, v\<lparr>raw := raw u\<rparr>)"
  using unparse_printed [OF assms(1,3)] parse_printed [OF assms(1,2)] assms(1)
  by (simp add: printed_def)

theorem xuuid_roundtrip_witness:
  "\<exists>s. xuuid_unparse \<lparr>raw = replicate 16 171\<rparr> (replicate 37 0) = Inr s \<and>
     xuuid_parse xuuid_null_uuid s = (Inr True, \<lparr>raw = replicate 16 171\<rparr>)"
  using xuuid_roundtrip [of "\<lparr>raw = replicate 16 171\<rparr>" xuuid_null_uuid "replicate 37 0"]
  by (auto simp: xuuid_null_uuid_def)

text \<open>
  C9. On an object of at least 37 bytes \<open>xuuid_parse\<close> never reads or writes out of bounds, and says yes
  exactly when the first 37 bytes are a UUID in its textual form closed by a nul.
\<close>

theorem xuuid_parse_accepts:
  assumes "length (raw u) = 16" and "37 \<le> length inp"
  shows "fst (xuuid_parse u inp) = Inr (uuid_text inp)"
proof -
  let ?ps = "[(0, 0, 4), (4, 9, 2), (6, 14, 2), (8, 19, 2), (10, 24, 6)] :: (nat \<times> nat \<times> nat) list"
  have "\<forall>(ooff, ioff, len) \<in> set ?ps. ioff + 2 * len \<le> length inp \<and> ooff + len \<le> length (raw u)"
    using assms by simp
  from parse_parts_result [OF this] show ?thesis
    using assms(2) by (auto simp: xuuid_parse_def xuuid_parse_gen_def uuid_text_def)
qed

theorem xuuid_parse_accepts_witness:
  "fst (xuuid_parse xuuid_null_uuid (replicate 37 45)) = Inr False"
  using xuuid_parse_accepts [of xuuid_null_uuid "replicate 37 45"]
  by (simp add: xuuid_null_uuid_def uuid_text_def)

text \<open>
  The bound is needed: the dashes are looked for before the length of the string is known, so a short
  string is read beyond its end.
\<close>

theorem xuuid_parse_short_faults: "fst (xuuid_parse xuuid_null_uuid [0]) = Inl Fault"
  by (simp add: xuuid_parse_def xuuid_parse_gen_def)

end
