(* ===== verification/Val.thy ===== *)
theory Val
  imports Prelude "HOL-Library.List_Lexorder"
begin

text \<open>
  Typed values: \<^verbatim>\<open>src/include/jeffpc/val.h\<close>, \<^verbatim>\<open>src/val.c\<close>, \<^verbatim>\<open>src/val_array.c\<close>, \<^verbatim>\<open>src/str.c\<close> and
  \<^verbatim>\<open>src/mem_array.c\<close>.

  A \<open>struct val\<close> is a term of the datatype \<open>val\<close>, with the constructors of \<open>enum val_type\<close>. A
  string or symbol is its characters without the nul. The red-black tree of an nvlist is represented by
  its in-order sequence of pairs, sorted by name. Reference counts and the flags that say where a
  structure is stored are not part of a value; the allocations are, since they can fail: a function that
  allocates runs on the allocator's state \<open>mem\<close>.
\<close>

subsection \<open>Data\<close>

datatype val_type =
    VT_NULL | VT_INT | VT_STR | VT_SYM | VT_BOOL | VT_CONS | VT_CHAR | VT_BLOB | VT_ARRAY | VT_NVL

text \<open>\<open>VF_OTHER\<close> stands for a number that is no constant of the enumeration.\<close>

datatype val_format = VF_CBOR | VF_JSON | VF_OTHER

datatype val =
    VNull
  | VInt u64
  | VStr bytes
  | VSym bytes
  | VBool bool
  | VCons "val option" "val option"
  | VChar u64
  | VBlob bytes
  | VArray "val list"
  | VNvl "(bytes \<times> val) list"

type_synonym nvpairs = "(bytes \<times> val) list"

fun vtype :: "val \<Rightarrow> val_type" where
  "vtype VNull = VT_NULL"
| "vtype (VInt _) = VT_INT"
| "vtype (VStr _) = VT_STR"
| "vtype (VSym _) = VT_SYM"
| "vtype (VBool _) = VT_BOOL"
| "vtype (VCons _ _) = VT_CONS"
| "vtype (VChar _) = VT_CHAR"
| "vtype (VBlob _) = VT_BLOB"
| "vtype (VArray _) = VT_ARRAY"
| "vtype (VNvl _) = VT_NVL"

subsection \<open>Allocation\<close>

text \<open>
  A request for a block, answered with its size; \<open>struct val\<close> takes 64 bytes and \<open>struct nvpair\<close> 48
  on the LP64 machine, both from a \<open>mem_cache\<close>, which \<^verbatim>\<open>src/slab.c\<close> hands to the C library.
\<close>

definition cell_alloc :: "nat \<Rightarrow> (mem, nat) cfun" where
  "cell_alloc n m = (case mem_request n m of (ok, m') \<Rightarrow> (if ok then Inr n else fail ENOMEM, m'))"

definition sizeof_val :: nat where
  "sizeof_val = 64"

definition sizeof_nvpair :: nat where
  "sizeof_nvpair = 48"

definition sizeof_ptr :: nat where
  "sizeof_ptr = 8"

definition val_cell :: "(mem, nat) cfun" where
  "val_cell = cell_alloc sizeof_val"

text \<open>
  The array allocators: the size of the block they return. Without the platform's overflow-checking
  functions the product wraps.
\<close>

definition mem_reallocarray :: "nat \<Rightarrow> nat \<Rightarrow> (mem, nat) cfun" where
  "mem_reallocarray nelem sz m =
     (if m_have_reallocarray m then
        if SIZE_MAX < nelem * sz then (fail ENOMEM, m) else cell_alloc (nelem * sz) m
      else cell_alloc (wrap64 (nelem * sz)) m)"

definition mem_recallocarray :: "nat \<Rightarrow> nat \<Rightarrow> nat \<Rightarrow> (mem, nat) cfun" where
  "mem_recallocarray old_nelem new_nelem sz m =
     (if m_have_recallocarray m then
        if SIZE_MAX < new_nelem * sz \<or> SIZE_MAX < old_nelem * sz then (fail ENOMEM, m) else cell_alloc (new_nelem * sz) m
      else
        let old_size = wrap64 (sz * old_nelem); new_size = wrap64 (sz * new_nelem)
        in andthen (mem_reallocarray new_nelem sz) (\<lambda>cap.
          if old_nelem < new_nelem \<and> cap < old_size + wrap64 (new_size + 2 ^ 64 - old_size) then cerr Fault else cret cap) m)"

text \<open>A fresh array.\<close>

lemma mem_recallocarray_fresh:
  "mem_recallocarray 0 n sz m =
     (if m_have_recallocarray m then
        if SIZE_MAX < n * sz then (fail ENOMEM, m) else cell_alloc (n * sz) m
      else andthen (mem_reallocarray n sz) (\<lambda>cap. if 0 < n \<and> cap < wrap64 (sz * n) then cerr Fault else cret cap) m)"
proof -
  have "wrap64 (wrap64 (sz * n) + 18446744073709551616) = wrap64 (sz * n)" by (simp add: wrap64_def)
  then show ?thesis by (simp add: mem_recallocarray_def Let_def)
qed

subsection \<open>Strings\<close>

text \<open>
  \<open>strnlen\<close> on an object: \<open>None\<close> when neither a nul nor the limit comes before the object ends.
\<close>

definition strnlen :: "bytes \<Rightarrow> nat \<Rightarrow> nat option" where
  "strnlen obj n =
     (let k = length (takeWhile (\<lambda>c. c \<noteq> 0) (take n obj))
      in if k < length obj \<or> n \<le> length obj then Some k else None)"

definition USE_STRLEN :: nat where
  "USE_STRLEN = SIZE_MAX"

definition STR_INLINE_LEN :: nat where
  "STR_INLINE_LEN = 15"

definition mk_strsym :: "val_type \<Rightarrow> bytes \<Rightarrow> val" where
  "mk_strsym type s = (if type = VT_STR then VStr s else VSym s)"

text \<open>Is there a preallocated value: the empty string and symbol, and strings of one ASCII character?\<close>

definition get_preallocated :: "val_type \<Rightarrow> bytes \<Rightarrow> bool" where
  "get_preallocated type s \<longleftrightarrow>
     (if s = [] then True
      else if type \<noteq> VT_STR then False
      else length s = 1 \<and> 0 < s ! 0 \<and> s ! 0 < 0x7f)"

definition inlinable :: "nat \<Rightarrow> bool" where
  "inlinable len \<longleftrightarrow> len \<le> STR_INLINE_LEN"

definition strsym_alloc_gen :: "val_type \<Rightarrow> bytes option \<Rightarrow> nat \<Rightarrow> bool \<Rightarrow> bool \<Rightarrow> (mem, val) cfun" where
  "strsym_alloc_gen type s len heapalloc mustdup =
     (if type \<noteq> VT_STR \<and> type \<noteq> VT_SYM then cerr Panic
      else if mustdup \<and> heapalloc then cerr Panic
      else case s of
        None \<Rightarrow> cret (mk_strsym type [])
      | Some obj \<Rightarrow>
          (case strnlen obj len of
             None \<Rightarrow> cerr Fault
           | Some n \<Rightarrow>
               if get_preallocated type (take n obj) then cret (mk_strsym type (take n obj))
               else andthen (if \<not> inlinable n \<and> mustdup then cell_alloc (n + 1) else cret 0) (\<lambda>_.
                 andthen val_cell (\<lambda>_. cret (mk_strsym type (take n obj))))))"

definition strsym_dup :: "bytes option \<Rightarrow> val_type \<Rightarrow> (mem, val) cfun" where
  "strsym_dup s type = strsym_alloc_gen type s USE_STRLEN False True"

definition strsym_dup_len :: "bytes option \<Rightarrow> nat \<Rightarrow> val_type \<Rightarrow> (mem, val) cfun" where
  "strsym_dup_len s len type = strsym_alloc_gen type s len False True"

definition strsym_alloc :: "bytes option \<Rightarrow> val_type \<Rightarrow> (mem, val) cfun" where
  "strsym_alloc s type = strsym_alloc_gen type s USE_STRLEN True False"

definition strsym_alloc_static :: "bytes option \<Rightarrow> val_type \<Rightarrow> (mem, val) cfun" where
  "strsym_alloc_static s type = strsym_alloc_gen type s USE_STRLEN False False"

text \<open>\<open>strcmp\<close> on strings without their nul, and what the value functions make of it.\<close>

fun strcmp :: "bytes \<Rightarrow> bytes \<Rightarrow> int" where
  "strcmp [] [] = 0"
| "strcmp [] (y # ys) = - 1"
| "strcmp (x # xs) [] = 1"
| "strcmp (x # xs) (y # ys) = (if x = y then strcmp xs ys else if x < y then - 1 else 1)"

text \<open>\<open>val_cstr\<close>: the characters of a string or symbol, a panic for any other value.\<close>

fun val_cstr :: "val \<Rightarrow> bytes res" where
  "val_cstr (VStr s) = Inr s"
| "val_cstr (VSym s) = Inr s"
| "val_cstr _ = Inl Panic"

definition strsym_len :: "val \<Rightarrow> nat res" where
  "strsym_len v = map_sum id length (val_cstr v)"

definition strsym_cmp :: "val \<Rightarrow> val \<Rightarrow> int res" where
  "strsym_cmp a b =
     (case (val_cstr a, val_cstr b) of
        (Inr x, Inr y) \<Rightarrow> Inr (strcmp x y) | (Inl e, _) \<Rightarrow> Inl e | (_, Inl e) \<Rightarrow> Inl e)"

subsection \<open>Values\<close>

definition val_alloc_int :: "u64 \<Rightarrow> (mem, val) cfun" where
  "val_alloc_int i = (if i < 10 then cret (VInt i) else andthen val_cell (\<lambda>_. cret (VInt i)))"

definition val_alloc_char :: "u64 \<Rightarrow> (mem, val) cfun" where
  "val_alloc_char i = andthen val_cell (\<lambda>_. cret (VChar i))"

definition val_alloc_bool :: "bool \<Rightarrow> (mem, val) cfun" where
  "val_alloc_bool b = cret (VBool b)"

definition val_alloc_null :: "(mem, val) cfun" where
  "val_alloc_null = cret VNull"

definition val_alloc_blob :: "bytes \<Rightarrow> (mem, val) cfun" where
  "val_alloc_blob data = andthen val_cell (\<lambda>_. cret (VBlob data))"

definition val_alloc_blob_dup :: "bytes \<Rightarrow> nat \<Rightarrow> (mem, val) cfun" where
  "val_alloc_blob_dup data sz =
     andthen (cell_alloc sz) (\<lambda>_.
       if length data < sz then cerr Fault else val_alloc_blob (take sz data))"

definition val_empty_cons :: val where
  "val_empty_cons = VCons None None"

definition val_alloc_cons :: "val option \<Rightarrow> val option \<Rightarrow> (mem, val) cfun" where
  "val_alloc_cons head tail =
     (if head = None \<and> tail = None then cret val_empty_cons
      else andthen val_cell (\<lambda>_. cret (VCons head tail)))"

definition val_alloc_array_gen :: "val list \<Rightarrow> bool \<Rightarrow> bool \<Rightarrow> (mem, val) cfun" where
  "val_alloc_array_gen vals dup heap =
     (if dup \<and> heap then cerr Panic
      else andthen (if dup then mem_reallocarray (length vals) sizeof_ptr else cret (sizeof_ptr * length vals))
        (\<lambda>cap. if cap < wrap64 (sizeof_ptr * length vals) then cerr Fault
               else andthen val_cell (\<lambda>_. cret (VArray vals))))"

definition val_alloc_array :: "val list \<Rightarrow> (mem, val) cfun" where
  "val_alloc_array vals = val_alloc_array_gen vals False True"

definition val_alloc_array_dup :: "val list \<Rightarrow> (mem, val) cfun" where
  "val_alloc_array_dup vals = val_alloc_array_gen vals True False"

definition val_alloc_array_static :: "val list \<Rightarrow> (mem, val) cfun" where
  "val_alloc_array_static vals = val_alloc_array_gen vals False False"

definition val_alloc_nvl :: "(mem, val) cfun" where
  "val_alloc_nvl = andthen val_cell (\<lambda>_. cret (VNvl []))"

definition val_is_null_cons :: "val option \<Rightarrow> bool" where
  "val_is_null_cons v \<longleftrightarrow> v = None \<or> v = Some (VCons None None)"

subsection \<open>What an allocating function yields\<close>

text \<open>
  Between two states of the allocator only the number of requests differs. \<open>yields f x\<close>: \<open>f\<close> gives \<open>x\<close>
  or \<open>-ENOMEM\<close>, and the former whenever the allocator has memory.
\<close>

definition mem_ext :: "mem \<Rightarrow> mem \<Rightarrow> bool" where
  "mem_ext m m' \<longleftrightarrow> m' = m\<lparr>m_next := m_next m'\<rparr>"

definition yields :: "(mem, 'a) cfun \<Rightarrow> 'a \<Rightarrow> bool" where
  "yields f x \<longleftrightarrow>
     (\<forall>m. \<exists>m'. (f m = (Inr x, m') \<or> f m = (fail ENOMEM, m') \<and> \<not> mem_plenty m) \<and> mem_ext m m')"

lemma mem_ext_refl [simp]: "mem_ext m m"
  by (simp add: mem_ext_def)

lemma mem_ext_trans [trans]: "mem_ext a b \<Longrightarrow> mem_ext b c \<Longrightarrow> mem_ext a c"
  unfolding mem_ext_def by (metis mem.surjective mem.update_convs(3))

lemma mem_ext_plenty: "mem_ext m m' \<Longrightarrow> mem_plenty m' = mem_plenty m"
  by (metis mem_ext_def mem_plenty_next)

lemma mem_ext_flags:
  "mem_ext m m' \<Longrightarrow> m_have_reallocarray m' = m_have_reallocarray m \<and>
    m_have_recallocarray m' = m_have_recallocarray m"
  by (auto simp: mem_ext_def dest: arg_cong [of _ _ m_have_reallocarray] arg_cong [of _ _ m_have_recallocarray])

lemma mem_ext_request: "mem_request n m = (b, m') \<Longrightarrow> mem_ext m m'"
  by (auto simp: mem_request_def mem_ext_def)

lemma yields_cases:
  assumes "yields f x"
  obtains (ok) m' where "f m = (Inr x, m')" and "mem_ext m m'"
    | (nomem) m' where "f m = (fail ENOMEM, m')" and "mem_ext m m'" and "\<not> mem_plenty m"
  using assms unfolding yields_def by metis

lemma yieldsI:
  assumes "\<And>m. (\<exists>m'. f m = (Inr x, m') \<and> mem_ext m m') \<or>
    (\<exists>m'. f m = (fail ENOMEM, m') \<and> mem_ext m m' \<and> \<not> mem_plenty m)"
  shows "yields f x"
  using assms unfolding yields_def by blast

lemma yields_cret [intro]: "yields (cret x) x"
  by (rule yieldsI) simp

lemma yields_andthen [intro]: "yields f x \<Longrightarrow> yields (g x) y \<Longrightarrow> yields (andthen f g) y"
proof (rule yieldsI)
  fix m
  assume f: "yields f x" and g: "yields (g x) y"
  from f show "(\<exists>m'. andthen f g m = (Inr y, m') \<and> mem_ext m m') \<or>
    (\<exists>m'. andthen f g m = (fail ENOMEM, m') \<and> mem_ext m m' \<and> \<not> mem_plenty m)"
  proof (cases rule: yields_cases [of f x m])
    case (ok m1)
    from g show ?thesis
      by (cases rule: yields_cases [of "g x" y m1])
        (use ok in \<open>auto dest: mem_ext_trans mem_ext_plenty\<close>)
  qed auto
qed

lemma yields_if [intro]: "(b \<Longrightarrow> yields f x) \<Longrightarrow> (\<not> b \<Longrightarrow> yields g x) \<Longrightarrow> yields (if b then f else g) x"
  by simp

lemma yields_cell [intro]: "n \<le> SSIZE_MAX \<Longrightarrow> yields (cell_alloc n) n"
  by (rule yieldsI) (auto simp: cell_alloc_def mem_request_def mem_ext_def mem_plenty_def)

lemma yields_val_cell [intro]: "yields val_cell sizeof_val"
  unfolding val_cell_def by (rule yields_cell) (simp add: sizeof_val_def bound_simps)

lemma yields_val_alloc [intro]:
  "yields (val_alloc_int i) (VInt i)" "yields (val_alloc_char i) (VChar i)"
  "yields (val_alloc_bool b) (VBool b)" "yields val_alloc_null VNull"
  "yields (val_alloc_blob data) (VBlob data)" "yields (val_alloc_cons h t) (VCons h t)"
  "yields val_alloc_nvl (VNvl [])"
  unfolding val_alloc_int_def val_alloc_char_def val_alloc_bool_def val_alloc_null_def
    val_alloc_blob_def val_alloc_cons_def val_empty_cons_def val_alloc_nvl_def
  by auto

lemma yields_val_cell_then [intro]: "yields g y \<Longrightarrow> yields (andthen val_cell (\<lambda>_. g)) y"
  by (rule yields_andthen [OF yields_val_cell])

lemma yields_val_alloc_array [intro]:
  assumes "length vals \<le> SSIZE_MAX div 8"
  shows "yields (val_alloc_array vals) (VArray vals)"
proof -
  have "\<not> sizeof_ptr * length vals < wrap64 (sizeof_ptr * length vals)"
    using assms by (simp add: sizeof_ptr_def bound_simps)
  then have "val_alloc_array vals = andthen (cret (sizeof_ptr * length vals)) (\<lambda>_. andthen val_cell (\<lambda>_. cret (VArray vals)))"
    by (simp add: val_alloc_array_def val_alloc_array_gen_def andthen_def fun_eq_iff)
  then show ?thesis by (auto intro: yields_andthen [OF yields_cret])
qed

text \<open>A C string in memory: its characters, the nul, and whatever follows.\<close>

lemma takeWhile_nul: "0 \<notin> set s \<Longrightarrow> takeWhile (\<lambda>c. c \<noteq> (0 :: u8)) (s @ 0 # r) = s"
  by (induction s) auto

lemma strnlen_cstr:
  assumes "0 \<notin> set s" and "length s < n"
  shows "strnlen (s @ 0 # r) n = Some (length s)"
proof -
  obtain k where "n = length s + Suc k" using assms(2) less_imp_Suc_add by fastforce
  then have "take n (s @ 0 # r) = s @ 0 # take k r" by simp
  then show ?thesis by (simp add: strnlen_def takeWhile_nul [OF assms(1)])
qed

lemma yields_strsym:
  assumes "type \<in> {VT_STR, VT_SYM}" and "\<not> (mustdup \<and> heapalloc)"
    and "strnlen obj len = Some n" and "n < SSIZE_MAX"
  shows "yields (strsym_alloc_gen type (Some obj) len heapalloc mustdup) (mk_strsym type (take n obj))"
proof -
  let ?v = "mk_strsym type (take n obj)"
  have "yields (if \<not> inlinable n \<and> mustdup then cell_alloc (n + 1) else cret 0)
      (if \<not> inlinable n \<and> mustdup then n + 1 else 0)"
    using assms(4) yields_cell [of "n + 1"] by auto
  then have "yields (andthen (if \<not> inlinable n \<and> mustdup then cell_alloc (n + 1) else cret 0)
      (\<lambda>_. andthen val_cell (\<lambda>_. cret ?v))) ?v"
    by (rule yields_andthen) auto
  then show ?thesis using assms(1-3) unfolding strsym_alloc_gen_def by auto
qed

lemma yields_strsym_alloc:
  assumes "0 \<notin> set s" and "length s < SSIZE_MAX"
  shows "yields (strsym_alloc (Some (s @ [0])) VT_STR) (VStr s)"
    and "yields (strsym_dup (Some (s @ [0])) VT_STR) (VStr s)"
proof -
  have "strnlen (s @ [0]) USE_STRLEN = Some (length s)"
    using assms strnlen_cstr [of s USE_STRLEN "[]"] by (simp add: USE_STRLEN_def bound_simps)
  note y = yields_strsym [OF _ _ this assms(2), of VT_STR]
  show "yields (strsym_alloc (Some (s @ [0])) VT_STR) (VStr s)"
    "yields (strsym_dup (Some (s @ [0])) VT_STR) (VStr s)"
    using y [of False True] y [of True False] by (auto simp: strsym_alloc_def strsym_dup_def mk_strsym_def)
qed

subsection \<open>Names in order\<close>

lemma strcmp_less: "strcmp a b < 0 \<longleftrightarrow> a < b"
  by (induction a b rule: strcmp.induct) auto

lemma strcmp_eq: "strcmp a b = 0 \<longleftrightarrow> a = b"
  by (induction a b rule: strcmp.induct) auto

subsection \<open>Well-formed values\<close>

text \<open>
  Strings hold no nul, names of an nvlist are sorted and distinct, and nothing is larger than memory.
\<close>

definition cstr_wf :: "bytes \<Rightarrow> bool" where
  "cstr_wf s \<longleftrightarrow> 0 \<notin> set s \<and> length s < SSIZE_MAX"

fun val_wf :: "val \<Rightarrow> bool" where
  "val_wf (VStr s) = cstr_wf s"
| "val_wf (VSym s) = cstr_wf s"
| "val_wf (VBlob bs) = (length bs \<le> SSIZE_MAX)"
| "val_wf (VCons h t) = ((\<forall>x \<in> set_option h. val_wf x) \<and> (\<forall>x \<in> set_option t. val_wf x))"
| "val_wf (VArray vs) = (length vs \<le> SSIZE_MAX div 8 \<and> (\<forall>x \<in> set vs. val_wf x))"
| "val_wf (VNvl kvs) =
     (length kvs \<le> SSIZE_MAX \<and> sorted_wrt (<) (map fst kvs) \<and>
      (\<forall>p \<in> set kvs. cstr_wf (fst p) \<and> val_wf (snd p)))"
| "val_wf _ = True"

end
