(* ===== verification/Nvl.thy ===== *)
theory Nvl
  imports Val Ints
begin

text \<open>
  Name-value lists: \<^verbatim>\<open>src/nvl.c\<close>, \<^verbatim>\<open>src/val_nvl.c\<close>, \<^verbatim>\<open>src/nvl_convert.c\<close> and
  \<^verbatim>\<open>src/include/jeffpc/nvl.h\<close>.

  The pairs of a list live in a red-black tree ordered by \<open>strcmp\<close> on the names. Here the tree is its
  in-order sequence of pairs; \<open>pairs_find\<close>, \<open>pairs_add\<close> and \<open>pairs_remove\<close> are what the tree operations of
  \<^verbatim>\<open>src/tree.c\<close> and \<^verbatim>\<open>src/rbtree.c\<close> do to that sequence. A function that changes a list works on the
  state \<open>nvstate\<close>: the pairs and the allocator.
\<close>

subsection \<open>The tree as a sequence\<close>

definition pairs_find :: "bytes \<Rightarrow> nvpairs \<Rightarrow> (bytes \<times> val) option" where
  "pairs_find name kvs = List.find (\<lambda>p. strcmp name (fst p) = 0) kvs"

fun pairs_add :: "bytes \<times> val \<Rightarrow> nvpairs \<Rightarrow> nvpairs" where
  "pairs_add p [] = [p]"
| "pairs_add p (q # qs) = (if strcmp (fst p) (fst q) < 0 then p # q # qs else q # pairs_add p qs)"

definition pairs_remove :: "bytes \<Rightarrow> nvpairs \<Rightarrow> nvpairs" where
  "pairs_remove name kvs = filter (\<lambda>p. strcmp name (fst p) \<noteq> 0) kvs"

subsection \<open>Operations\<close>

type_synonym nvstate = "nvpairs \<times> mem"

definition on_mem :: "(mem, 'a) cfun \<Rightarrow> (nvstate, 'a) cfun" where
  "on_mem f s = (case s of (nvl, m) \<Rightarrow> (case f m of (r, m') \<Rightarrow> (r, (nvl, m'))))"

definition upd_nvl :: "(nvpairs \<Rightarrow> nvpairs) \<Rightarrow> (nvstate, unit) cfun" where
  "upd_nvl f s = (case s of (nvl, m) \<Rightarrow> (Inr (), (f nvl, m)))"

text \<open>
  The name of a new pair. \<open>str_dup\<close> answers a failed allocation with an error pointer, which \<open>do_nvl_set\<close> does
  not notice; the result says whether the name is a string.
\<close>

definition name_dup :: "bytes \<Rightarrow> (mem, bool) cfun" where
  "name_dup cname m =
     (case strsym_dup (Some (cname @ [0])) VT_STR m of
        (Inl (Errno _), m') \<Rightarrow> (Inr False, m')
      | (Inl e, m') \<Rightarrow> (Inl e, m')
      | (Inr _, m') \<Rightarrow> (Inr True, m'))"

text \<open>\<open>__nvpair_alloc\<close> releases the name when there is no memory, which follows the pointer.\<close>

definition nvpair_alloc :: "bool \<Rightarrow> (mem, nat) cfun" where
  "nvpair_alloc name_ok m =
     (case cell_alloc sizeof_nvpair m of
        (Inl e, m') \<Rightarrow> (Inl (if name_ok then e else Fault), m')
      | r \<Rightarrow> r)"

text \<open>
  \<open>rb_add\<close> of the new pair compares its name with others, unless the list is empty: then a pair with an error
  pointer for its name is added.
\<close>

definition nvl_add :: "bool \<Rightarrow> bytes \<times> val \<Rightarrow> (nvstate, unit) cfun" where
  "nvl_add name_ok p s =
     (if name_ok then upd_nvl (pairs_add p) s else (Inl (if fst s = [] then Stray else Fault), s))"

text \<open>\<open>do_nvl_set\<close>: \<open>has_name\<close> says whether the caller passed a string to use as the name.\<close>

definition do_nvl_set :: "bytes \<Rightarrow> bool \<Rightarrow> val \<Rightarrow> (nvstate, unit) cfun" where
  "do_nvl_set cname has_name v s =
     (case pairs_find cname (fst s) of
        None \<Rightarrow>
          andthen (on_mem (if has_name then cret True else name_dup cname)) (\<lambda>name_ok.
            andthen (on_mem (nvpair_alloc name_ok)) (\<lambda>_. nvl_add name_ok (cname, v))) s
      | Some _ \<Rightarrow>
          upd_nvl (map (\<lambda>p. if strcmp cname (fst p) = 0 then (fst p, v) else p)) s)"

definition nvl_set_pair :: "bytes \<times> val \<Rightarrow> (nvstate, unit) cfun" where
  "nvl_set_pair pair = do_nvl_set (fst pair) True (snd pair)"

definition nvl_set :: "bytes \<Rightarrow> val \<Rightarrow> (nvstate, unit) cfun" where
  "nvl_set name v = do_nvl_set name False v"

text \<open>The macro \<open>SET\<close>: allocate a value, then set it.\<close>

definition nvl_set_alloc :: "bytes \<Rightarrow> (mem, val) cfun \<Rightarrow> (nvstate, unit) cfun" where
  "nvl_set_alloc name valalloc = andthen (on_mem valalloc) (\<lambda>v. nvl_set name v)"

definition nvl_set_array :: "bytes \<Rightarrow> val list \<Rightarrow> (nvstate, unit) cfun" where
  "nvl_set_array name vals = nvl_set_alloc name (val_alloc_array vals)"

definition nvl_set_array_copy :: "bytes \<Rightarrow> val list \<Rightarrow> (nvstate, unit) cfun" where
  "nvl_set_array_copy name vals = nvl_set_alloc name (val_alloc_array_dup vals)"

definition nvl_set_blob :: "bytes \<Rightarrow> bytes \<Rightarrow> (nvstate, unit) cfun" where
  "nvl_set_blob name data = nvl_set_alloc name (val_alloc_blob data)"

definition nvl_set_blob_copy :: "bytes \<Rightarrow> bytes \<Rightarrow> nat \<Rightarrow> (nvstate, unit) cfun" where
  "nvl_set_blob_copy name data sz = nvl_set_alloc name (val_alloc_blob_dup data sz)"

definition nvl_set_bool :: "bytes \<Rightarrow> bool \<Rightarrow> (nvstate, unit) cfun" where
  "nvl_set_bool name b = nvl_set_alloc name (val_alloc_bool b)"

definition nvl_set_cstr_dup :: "bytes \<Rightarrow> bytes option \<Rightarrow> (nvstate, unit) cfun" where
  "nvl_set_cstr_dup name s = nvl_set_alloc name (strsym_dup s VT_STR)"

definition nvl_set_int :: "bytes \<Rightarrow> u64 \<Rightarrow> (nvstate, unit) cfun" where
  "nvl_set_int name i = nvl_set_alloc name (val_alloc_int i)"

definition nvl_set_null :: "bytes \<Rightarrow> (nvstate, unit) cfun" where
  "nvl_set_null name = nvl_set_alloc name val_alloc_null"

definition nvl_set_nvl :: "bytes \<Rightarrow> nvpairs \<Rightarrow> (nvstate, unit) cfun" where
  "nvl_set_nvl name nvl = nvl_set_alloc name (cret (VNvl nvl))"

definition nvl_set_str :: "bytes \<Rightarrow> bytes \<Rightarrow> (nvstate, unit) cfun" where
  "nvl_set_str name s = nvl_set_alloc name (cret (VStr s))"

text \<open>Iteration: \<open>nvl_for_each\<close> visits the sequence from its first pair on.\<close>

definition nvl_iter_start :: "nvpairs \<Rightarrow> (bytes \<times> val) option" where
  "nvl_iter_start nvl = (case nvl of [] \<Rightarrow> None | p # _ \<Rightarrow> Some p)"

fun nvl_iter_next :: "nvpairs \<Rightarrow> bytes \<Rightarrow> (bytes \<times> val) option" where
  "nvl_iter_next [] prev = None"
| "nvl_iter_next (p # ps) prev =
     (if strcmp prev (fst p) = 0 then nvl_iter_start ps else nvl_iter_next ps prev)"

fun nvl_merge :: "nvpairs \<Rightarrow> (nvstate, unit) cfun" where
  "nvl_merge [] = cret ()"
| "nvl_merge ((name, v) # src) = andthen (nvl_set name v) (\<lambda>_. nvl_merge src)"

subsubsection \<open>Lookup\<close>

definition nvl_lookup :: "nvpairs \<Rightarrow> bytes \<Rightarrow> (bytes \<times> val) res" where
  "nvl_lookup nvl name = (case pairs_find name nvl of None \<Rightarrow> fail ENOENT | Some p \<Rightarrow> Inr p)"

text \<open>The functions \<open>nvpair_value_*\<close>: \<open>-ENOENT\<close> for no pair, \<open>-ERANGE\<close> for a value of another type.\<close>

fun nvpair_value_array :: "(bytes \<times> val) option \<Rightarrow> val list res" where
  "nvpair_value_array None = fail ENOENT"
| "nvpair_value_array (Some (_, VArray vs)) = Inr vs"
| "nvpair_value_array _ = fail ERANGE"

fun nvpair_value_blob :: "(bytes \<times> val) option \<Rightarrow> bytes res" where
  "nvpair_value_blob None = fail ENOENT"
| "nvpair_value_blob (Some (_, VBlob bs)) = Inr bs"
| "nvpair_value_blob _ = fail ERANGE"

fun nvpair_value_bool :: "(bytes \<times> val) option \<Rightarrow> bool res" where
  "nvpair_value_bool None = fail ENOENT"
| "nvpair_value_bool (Some (_, VBool b)) = Inr b"
| "nvpair_value_bool _ = fail ERANGE"

fun nvpair_value_int :: "(bytes \<times> val) option \<Rightarrow> u64 res" where
  "nvpair_value_int None = fail ENOENT"
| "nvpair_value_int (Some (_, VInt i)) = Inr i"
| "nvpair_value_int _ = fail ERANGE"

fun nvpair_value_null :: "(bytes \<times> val) option \<Rightarrow> unit res" where
  "nvpair_value_null None = fail ENOENT"
| "nvpair_value_null (Some (_, VNull)) = Inr ()"
| "nvpair_value_null _ = fail ERANGE"

fun nvpair_value_nvl :: "(bytes \<times> val) option \<Rightarrow> nvpairs res" where
  "nvpair_value_nvl None = fail ENOENT"
| "nvpair_value_nvl (Some (_, VNvl kvs)) = Inr kvs"
| "nvpair_value_nvl _ = fail ERANGE"

fun nvpair_value_str :: "(bytes \<times> val) option \<Rightarrow> bytes res" where
  "nvpair_value_str None = fail ENOENT"
| "nvpair_value_str (Some (_, VStr s)) = Inr s"
| "nvpair_value_str _ = fail ERANGE"

definition nvl_lookup_array :: "nvpairs \<Rightarrow> bytes \<Rightarrow> val list res" where
  "nvl_lookup_array nvl name = nvpair_value_array (pairs_find name nvl)"

definition nvl_lookup_blob :: "nvpairs \<Rightarrow> bytes \<Rightarrow> bytes res" where
  "nvl_lookup_blob nvl name = nvpair_value_blob (pairs_find name nvl)"

definition nvl_lookup_bool :: "nvpairs \<Rightarrow> bytes \<Rightarrow> bool res" where
  "nvl_lookup_bool nvl name = nvpair_value_bool (pairs_find name nvl)"

definition nvl_lookup_int :: "nvpairs \<Rightarrow> bytes \<Rightarrow> u64 res" where
  "nvl_lookup_int nvl name = nvpair_value_int (pairs_find name nvl)"

definition nvl_lookup_null :: "nvpairs \<Rightarrow> bytes \<Rightarrow> unit res" where
  "nvl_lookup_null nvl name = nvpair_value_null (pairs_find name nvl)"

definition nvl_lookup_nvl :: "nvpairs \<Rightarrow> bytes \<Rightarrow> nvpairs res" where
  "nvl_lookup_nvl nvl name = nvpair_value_nvl (pairs_find name nvl)"

definition nvl_lookup_str :: "nvpairs \<Rightarrow> bytes \<Rightarrow> bytes res" where
  "nvl_lookup_str nvl name = nvpair_value_str (pairs_find name nvl)"

subsubsection \<open>Removal and existence\<close>

definition unset :: "bytes \<Rightarrow> val_type \<Rightarrow> bool \<Rightarrow> (nvstate, unit) cfun" where
  "unset name type matchtype s =
     (case pairs_find name (fst s) of
        None \<Rightarrow> (fail ENOENT, s)
      | Some p \<Rightarrow>
          if matchtype \<and> vtype (snd p) \<noteq> type then (fail ERANGE, s)
          else upd_nvl (pairs_remove name) s)"

definition nvl_unset :: "bytes \<Rightarrow> (nvstate, unit) cfun" where
  "nvl_unset name = unset name VT_NULL False"

definition nvl_unset_type :: "bytes \<Rightarrow> val_type \<Rightarrow> (nvstate, unit) cfun" where
  "nvl_unset_type name type = unset name type True"

definition nvl_exists :: "nvpairs \<Rightarrow> bytes \<Rightarrow> bool" where
  "nvl_exists nvl name \<longleftrightarrow> pairs_find name nvl \<noteq> None"

definition nvl_exists_type :: "nvpairs \<Rightarrow> bytes \<Rightarrow> val_type \<Rightarrow> unit res" where
  "nvl_exists_type nvl name type =
     (case pairs_find name nvl of
        None \<Rightarrow> fail ENOENT
      | Some p \<Rightarrow> if vtype (snd p) \<noteq> type then fail ERANGE else Inr ())"

subsubsection \<open>Conversion\<close>

datatype nvcvtcond = NVCVT_COND_ALWAYS | NVCVT_COND_STR_EMPTY | NVCVT_COND_OTHER

record nvl_convert_info =
  ci_name :: bytes
  ci_tgt_type :: val_type
  ci_cond :: nvcvtcond

definition check_condition_str :: "bytes \<Rightarrow> nvcvtcond \<Rightarrow> unit res" where
  "check_condition_str str cond =
     (case cond of
        NVCVT_COND_ALWAYS \<Rightarrow> Inr ()
      | NVCVT_COND_STR_EMPTY \<Rightarrow> if length str \<noteq> 0 then fail EBUSY else Inr ()
      | NVCVT_COND_OTHER \<Rightarrow> fail EINVAL)"

definition cvt_string :: "bytes \<times> val \<Rightarrow> val_type \<Rightarrow> nvcvtcond \<Rightarrow> (nvstate, unit) cfun" where
  "cvt_string pair tgt cond =
     (if vtype (snd pair) \<noteq> VT_STR then cerr Panic
      else case nvpair_value_str (Some pair) of
        Inl e \<Rightarrow> cerr (if e = Errno ENOENT \<or> e = Errno ERANGE then Panic else e)
      | Inr str \<Rightarrow>
          (case check_condition_str str cond of
             Inl e \<Rightarrow> (if e = Errno EBUSY then cret () else cerr e)
           | Inr _ \<Rightarrow>
               (case tgt of
                  VT_INT \<Rightarrow>
                    (case str2u64 str of
                       (Inl e, _) \<Rightarrow> cerr e
                     | (Inr _, intval) \<Rightarrow> nvl_set_int (fst pair) (word_of_nat intval))
                | VT_NULL \<Rightarrow> nvl_set_null (fst pair)
                | VT_STR \<Rightarrow> cret ()
                | _ \<Rightarrow> cerr (Errno ENOTSUP))))"

text \<open>\<open>CHECK_ERROR\<close> on the result of a conversion. A panic or a fault ends the program in any case.\<close>

definition CHECK_ERROR :: "error \<Rightarrow> bool \<Rightarrow> bool" where
  "CHECK_ERROR e cvtall \<longleftrightarrow>
     (case e of Errno n \<Rightarrow> \<not> cvtall \<or> n = ENOTSUP | _ \<Rightarrow> True)"

fun nvl_convert_loop :: "bool \<Rightarrow> nvl_convert_info list \<Rightarrow> (nvstate, unit) cfun" where
  "nvl_convert_loop convert_all [] = cret ()"
| "nvl_convert_loop convert_all (t # ts) = (\<lambda>s.
     (case nvl_lookup (fst s) (ci_name t) of
        Inl e \<Rightarrow>
          if e = Errno ENOENT \<or> \<not> CHECK_ERROR e convert_all then nvl_convert_loop convert_all ts s
          else (Inl e, s)
      | Inr pair \<Rightarrow>
          if vtype (snd pair) \<noteq> VT_STR then (fail ENOTSUP, s)
          else (case cvt_string pair (ci_tgt_type t) (ci_cond t) s of
            (Inl e, s') \<Rightarrow>
              if CHECK_ERROR e convert_all then (Inl e, s') else nvl_convert_loop convert_all ts s'
          | (Inr _, s') \<Rightarrow> nvl_convert_loop convert_all ts s')))"

definition nvl_convert :: "nvl_convert_info list option \<Rightarrow> bool \<Rightarrow> (nvstate, unit) cfun" where
  "nvl_convert table convert_all =
     (case table of None \<Rightarrow> cret () | Some ts \<Rightarrow> nvl_convert_loop convert_all ts)"

subsection \<open>Finite maps from names to values\<close>

text \<open>
  What a list of pairs promises to its clients: a lookup after an insertion or a deletion, an invariant
  that both keep, and that a list is determined by what it maps.
\<close>

locale name_map =
  fixes inv :: "'s \<Rightarrow> bool"
    and look :: "'s \<Rightarrow> bytes \<Rightarrow> val option"
    and put :: "bytes \<Rightarrow> val \<Rightarrow> 's \<Rightarrow> 's"
    and del :: "bytes \<Rightarrow> 's \<Rightarrow> 's"
  assumes look_put: "inv s \<Longrightarrow> look (put k v s) = (look s)(k \<mapsto> v)"
    and inv_put: "inv s \<Longrightarrow> inv (put k v s)"
    and look_del: "inv s \<Longrightarrow> look (del k s) = (look s)(k := None)"
    and inv_del: "inv s \<Longrightarrow> inv (del k s)"
    and determined: "inv s \<Longrightarrow> inv t \<Longrightarrow> look s = look t \<Longrightarrow> s = t"
begin

lemma put_put: "inv s \<Longrightarrow> put k w (put k v s) = put k w s"
  by (rule determined) (simp_all add: inv_put look_put)

lemma put_commute: "inv s \<Longrightarrow> k \<noteq> l \<Longrightarrow> put k v (put l w s) = put l w (put k v s)"
  by (rule determined) (simp_all add: inv_put look_put fun_upd_twist)

lemma del_put: "inv s \<Longrightarrow> look s k = None \<Longrightarrow> del k (put k v s) = s"
  by (rule determined) (simp_all add: inv_put inv_del look_put look_del fun_upd_idem)

definition put_all :: "nvpairs \<Rightarrow> 's \<Rightarrow> 's" where
  "put_all kvs s = foldl (\<lambda>s p. put (fst p) (snd p) s) s kvs"

lemma inv_put_all: "inv s \<Longrightarrow> inv (put_all kvs s)"
  unfolding put_all_def by (induction kvs arbitrary: s) (auto simp: inv_put)

lemma look_put_all:
  "inv s \<Longrightarrow> distinct (map fst kvs) \<Longrightarrow> look (put_all kvs s) = look s ++ map_of kvs"
  unfolding put_all_def
proof (induction kvs arbitrary: s)
  case (Cons p kvs)
  have "look (foldl (\<lambda>s p. put (fst p) (snd p) s) (put (fst p) (snd p) s) kvs) =
      (look s)(fst p \<mapsto> snd p) ++ map_of kvs"
    using Cons by (simp add: inv_put look_put)
  moreover have "map_of kvs (fst p) = None" using Cons.prems(2) by (simp add: map_of_eq_None_iff)
  ultimately show ?case by (auto simp: fun_eq_iff map_add_def split: option.splits)
qed simp

end

subsection \<open>Sorted sequences are such maps\<close>

definition nv_sorted :: "nvpairs \<Rightarrow> bool" where
  "nv_sorted kvs \<longleftrightarrow> sorted_wrt (<) (map fst kvs)"

text \<open>What \<open>do_nvl_set\<close> does to the sequence.\<close>

definition nv_put :: "bytes \<Rightarrow> val \<Rightarrow> nvpairs \<Rightarrow> nvpairs" where
  "nv_put name v kvs =
     (case pairs_find name kvs of
        None \<Rightarrow> pairs_add (name, v) kvs
      | Some _ \<Rightarrow> map (\<lambda>p. if strcmp name (fst p) = 0 then (fst p, v) else p) kvs)"

lemma pairs_find_map_of: "pairs_find name kvs = map_option (Pair name) (map_of kvs name)"
  unfolding pairs_find_def by (induction kvs) (auto simp: strcmp_eq)

lemma set_pairs_add: "set (pairs_add p kvs) = insert p (set kvs)"
  by (induction kvs) auto

lemma nv_sorted_distinct: "nv_sorted kvs \<Longrightarrow> distinct (map fst kvs)"
  unfolding nv_sorted_def by (simp add: strict_sorted_iff)

lemma nv_sorted_Cons: "nv_sorted (p # kvs) \<longleftrightarrow> (\<forall>q \<in> set kvs. fst p < fst q) \<and> nv_sorted kvs"
  by (simp add: nv_sorted_def)

lemma nv_sorted_pairs_add: "nv_sorted kvs \<Longrightarrow> fst p \<notin> fst ` set kvs \<Longrightarrow> nv_sorted (pairs_add p kvs)"
proof (induction kvs)
  case (Cons q kvs)
  then show ?case
    by (auto simp: nv_sorted_Cons set_pairs_add strcmp_less not_less dest: order.strict_trans)
qed (simp add: nv_sorted_def)

lemma map_of_pairs_add: "fst p \<notin> fst ` set kvs \<Longrightarrow> map_of (pairs_add p kvs) = (map_of kvs)(fst p \<mapsto> snd p)"
  by (induction kvs) auto

lemma map_of_map_update:
  "map_of (map (\<lambda>p. if strcmp k (fst p) = 0 then (fst p, v) else p) kvs) x =
    (if x = k \<and> map_of kvs k \<noteq> None then Some v else map_of kvs x)"
  by (induction kvs) (auto simp: strcmp_eq)

lemma map_fst_update: "map fst (map (\<lambda>p. if strcmp k (fst p) = 0 then (fst p, v) else p) kvs) = map fst kvs"
  by (induction kvs) auto

lemma pairs_find_None: "pairs_find k kvs = None \<longleftrightarrow> k \<notin> fst ` set kvs"
  by (simp add: pairs_find_map_of map_of_eq_None_iff)

lemma map_of_pairs_remove: "map_of (pairs_remove k kvs) = (map_of kvs)(k := None)"
  unfolding pairs_remove_def by (induction kvs) (auto simp: strcmp_eq)

lemma nv_sorted_map_of: "nv_sorted s \<Longrightarrow> s = map (\<lambda>k. (k, the (map_of s k))) (map fst s)"
  using map_idI [of s "\<lambda>p. (fst p, the (map_of s (fst p)))"] map_of_is_SomeI [OF nv_sorted_distinct, of s]
  by (auto simp: comp_def)

lemma nv_sorted_eqI:
  assumes "nv_sorted s" and "nv_sorted t" and "map_of s = map_of t"
  shows "s = t"
proof -
  have "fst ` set s = fst ` set t" using assms(3) by (metis dom_map_of_conv_image_fst)
  then have "map fst s = map fst t"
    using assms(1,2) by (intro strict_sorted_equal) (auto simp: nv_sorted_def)
  with assms show ?thesis using nv_sorted_map_of [of s] nv_sorted_map_of [of t] by simp
qed

interpretation nv: name_map nv_sorted map_of nv_put pairs_remove
proof
  fix s k v
  assume sorted: "nv_sorted s"
  show "map_of (nv_put k v s) = (map_of s)(k \<mapsto> v)"
  proof (cases "pairs_find k s")
    case None
    then have "k \<notin> fst ` set s" using pairs_find_None by blast
    then show ?thesis using map_of_pairs_add [of "(k, v)" s] by (simp add: nv_put_def None)
  next
    case (Some p)
    then have "map_of s k \<noteq> None" by (auto simp: pairs_find_map_of)
    then show ?thesis by (simp add: nv_put_def Some map_of_map_update fun_eq_iff del: map_of_map)
  qed
  show "nv_sorted (nv_put k v s)"
    using sorted nv_sorted_pairs_add [of s "(k, v)"] pairs_find_None [of k s]
    by (cases "pairs_find k s") (auto simp: nv_put_def nv_sorted_def map_fst_update simp del: map_map)
  show "map_of (pairs_remove k s) = (map_of s)(k := None)" by (rule map_of_pairs_remove)
  show "nv_sorted (pairs_remove k s)"
    using sorted by (auto simp: nv_sorted_def pairs_remove_def sorted_wrt_map intro: sorted_wrt_filter)
qed (rule nv_sorted_eqI)

text \<open>Pairs that come in order are appended.\<close>

lemma nv_put_append: "nv_sorted (kvs @ [p]) \<Longrightarrow> nv_put (fst p) (snd p) kvs = kvs @ [p]"
proof -
  assume s: "nv_sorted (kvs @ [p])"
  then have lt: "\<forall>q \<in> set kvs. fst q < fst p" by (simp add: nv_sorted_def sorted_wrt_append)
  then have "pairs_find (fst p) kvs = None" by (auto simp: pairs_find_None)
  moreover have "pairs_add p kvs = kvs @ [p]"
    using lt by (induction kvs) (auto simp: strcmp_less dest: order.asym)
  ultimately show ?thesis by (simp add: nv_put_def)
qed

subsection \<open>The operations in terms of the map\<close>

text \<open>Setting a pair puts it into the map, unless there is no memory for a new pair.\<close>

lemma yields_nvpair [intro]: "yields (nvpair_alloc True) sizeof_nvpair"
proof -
  have "nvpair_alloc True = cell_alloc sizeof_nvpair"
    by (auto simp: fun_eq_iff nvpair_alloc_def split: prod.splits sum.splits)
  then show ?thesis
    using yields_cell [of sizeof_nvpair] by (simp add: sizeof_nvpair_def bound_simps)
qed

lemma on_mem_yields:
  assumes "yields f x"
  obtains (ok) m' where "on_mem f (nvl, m) = (Inr x, (nvl, m'))" and "mem_ext m m'"
    | (nomem) m' where "on_mem f (nvl, m) = (fail ENOMEM, (nvl, m'))" and "mem_ext m m'" and "\<not> mem_plenty m"
  using assms by (cases rule: yields_cases [of f x m]) (auto simp: on_mem_def)

lemma nvl_add_True [simp]: "nvl_add True p = upd_nvl (pairs_add p)"
  by (simp add: nvl_add_def fun_eq_iff)

lemma do_nvl_set_named:
  obtains (ok) m' where "do_nvl_set name True v (nvl, m) = (Inr (), (nv_put name v nvl, m'))" and "mem_ext m m'"
    | (nomem) m' where "do_nvl_set name True v (nvl, m) = (fail ENOMEM, (nvl, m'))" and "mem_ext m m'"
        and "\<not> mem_plenty m"
proof (cases "pairs_find name nvl")
  case None
  have "do_nvl_set name True v (nvl, m) =
      andthen (on_mem (nvpair_alloc True)) (\<lambda>_. upd_nvl (pairs_add (name, v))) (nvl, m)"
    using None by (simp add: do_nvl_set_def on_mem_def [of "cret True"])
  with yields_nvpair show ?thesis
    by (cases rule: on_mem_yields [of "nvpair_alloc True" sizeof_nvpair nvl m])
      (simp add: ok None nv_put_def upd_nvl_def, simp add: nomem)
next
  case (Some p)
  then show ?thesis by (intro ok [of m]) (auto simp: do_nvl_set_def nv_put_def upd_nvl_def)
qed

lemma name_dup_cases:
  assumes "cstr_wf name"
  obtains (ok) m' where "name_dup name m = (Inr True, m')" and "mem_ext m m'"
    | (nomem) m' where "name_dup name m = (Inr False, m')" and "mem_ext m m'" and "\<not> mem_plenty m"
        and "fst (strsym_dup (Some (name @ [0])) VT_STR m) = fail ENOMEM"
proof -
  have "yields (strsym_dup (Some (name @ [0])) VT_STR) (VStr name)"
    using assms yields_strsym_alloc(2) by (simp add: cstr_wf_def)
  then show ?thesis
    by (cases rule: yields_cases [of "strsym_dup (Some (name @ [0])) VT_STR" "VStr name" m])
      (auto intro: that simp: name_dup_def)
qed

lemma nvl_set_cases:
  assumes "cstr_wf name"
  obtains (ok) m' where "nvl_set name v (nvl, m) = (Inr (), (nv_put name v nvl, m'))" and "mem_ext m m'"
    | (nomem) e m' where "nvl_set name v (nvl, m) = (Inl e, (nvl, m'))" and "mem_ext m m'"
        and "\<not> mem_plenty m" and "e = Errno ENOMEM \<or> pairs_find name nvl = None \<and>
          fst (strsym_dup (Some (name @ [0])) VT_STR m) = fail ENOMEM \<and> (e = Fault \<or> e = Stray \<and> nvl = [])"
proof (cases "pairs_find name nvl")
  case None
  from assms show ?thesis
  proof (cases rule: name_dup_cases [of name m])
    case (ok m1)
    have "nvl_set name v (nvl, m) =
        andthen (on_mem (nvpair_alloc True)) (\<lambda>_. upd_nvl (pairs_add (name, v))) (nvl, m1)"
      using None ok by (simp add: nvl_set_def do_nvl_set_def on_mem_def [of "name_dup name"])
    with yields_nvpair show ?thesis
      by (cases rule: on_mem_yields [of "nvpair_alloc True" sizeof_nvpair nvl m1])
        (use ok None that mem_ext_trans [of m m1] mem_ext_plenty [of m m1] in
          \<open>auto simp: nv_put_def upd_nvl_def\<close>)
  next
    case (nomem m1)
    obtain b m2 where m2: "mem_request sizeof_nvpair m1 = (b, m2)" "mem_ext m1 m2"
      using mem_ext_request by (cases "mem_request sizeof_nvpair m1") blast
    have "nvl_set name v (nvl, m) = (Inl (if b \<and> nvl = [] then Stray else Fault), (nvl, m2))"
      using None nomem(1) m2(1)
      by (auto simp: nvl_set_def do_nvl_set_def on_mem_def nvpair_alloc_def cell_alloc_def nvl_add_def andthen_def)
    then show ?thesis
      using None nomem(2-4) mem_ext_trans [OF nomem(2) m2(2)] by (rule_tac that(2) [of "if b \<and> nvl = [] then Stray else Fault" m2]) auto
  qed
next
  case (Some p)
  then show ?thesis by (intro ok [of m]) (auto simp: nvl_set_def do_nvl_set_def nv_put_def upd_nvl_def)
qed

lemma nvl_lookup_map_of:
  "nvl_lookup nvl name = (case map_of nvl name of None \<Rightarrow> fail ENOENT | Some v \<Rightarrow> Inr (name, v))"
  by (simp add: nvl_lookup_def pairs_find_map_of split: option.splits)

lemma nvl_merge_plenty:
  assumes "mem_plenty m" and "list_all (\<lambda>p. cstr_wf (fst p)) src"
  shows "\<exists>m'. nvl_merge src (nvl, m) = (Inr (), (nv.put_all src nvl, m'))"
  using assms
proof (induction src arbitrary: nvl m)
  case (Cons p src)
  obtain name v where p: "p = (name, v)" by (cases p)
  have "cstr_wf name" using Cons.prems(2) p by simp
  then show ?case
  proof (cases rule: nvl_set_cases [of name v nvl m])
    case (ok m1)
    then show ?thesis
      using Cons.IH [of m1 "nv_put name v nvl"] Cons.prems p
      by (simp add: nv.put_all_def mem_ext_plenty)
  next
    case nomem
    then show ?thesis using Cons.prems(1) by simp
  qed
qed (simp add: nv.put_all_def)

lemma nvl_set_alloc_plenty:
  assumes "yields f v" and "mem_plenty m" and "cstr_wf name"
  shows "\<exists>m'. nvl_set_alloc name f (nvl, m) = (Inr (), (nv_put name v nvl, m')) \<and> mem_ext m m'"
  using assms(1)
proof (cases rule: on_mem_yields [of f v nvl m])
  case (ok m1)
  have e: "nvl_set_alloc name f (nvl, m) = nvl_set name v (nvl, m1)" using ok(1) by (simp add: nvl_set_alloc_def)
  have m1: "mem_plenty m1" using assms(2) ok(2) by (simp add: mem_ext_plenty)
  from assms(3) show ?thesis
    by (cases rule: nvl_set_cases [of name v nvl m1]) (use e m1 mem_ext_trans [OF ok(2)] in auto)
qed (use assms(2) in auto)

subsection \<open>Conversion\<close>

text \<open>What a table entry makes of the value it names.\<close>

definition converted :: "nvl_convert_info \<Rightarrow> val \<Rightarrow> val res" where
  "converted t v =
     (case v of
        VStr s \<Rightarrow>
          if ci_cond t = NVCVT_COND_OTHER then fail EINVAL
          else if ci_cond t = NVCVT_COND_STR_EMPTY \<and> s \<noteq> [] then Inr v
          else (case ci_tgt_type t of
              VT_INT \<Rightarrow> (case str2u64 s of (Inl e, _) \<Rightarrow> Inl e | (Inr _, i) \<Rightarrow> Inr (VInt (word_of_nat i)))
            | VT_NULL \<Rightarrow> Inr VNull
            | VT_STR \<Rightarrow> Inr v
            | _ \<Rightarrow> fail ENOTSUP)
      | _ \<Rightarrow> fail ENOTSUP)"

text \<open>Does the entry end the conversion with an error?\<close>

definition cvt_fatal :: "bool \<Rightarrow> val res \<Rightarrow> bool" where
  "cvt_fatal convert_all r \<longleftrightarrow> (case r of Inl e \<Rightarrow> \<not> convert_all \<or> e = Errno ENOTSUP | Inr _ \<Rightarrow> False)"

lemma str2u64_Errno: "str2u64 s = (Inl e, i) \<Longrightarrow> \<exists>n. e = Errno n"
  by (auto simp: str2u64_def str2u_full_def Let_def split: if_splits prod.splits option.splits sum.splits)

lemma converted_Errno: "converted t v = Inl e \<Longrightarrow> \<exists>n. e = Errno n"
  by (auto simp: converted_def dest: str2u64_Errno split: val.splits if_splits val_type.splits prod.splits sum.splits)

lemma nv_put_same: "nv_sorted nvl \<Longrightarrow> map_of nvl name = Some v \<Longrightarrow> nv_put name v nvl = nvl"
  by (rule nv.determined) (simp_all add: nv.inv_put nv.look_put fun_upd_idem)

lemma cvt_string_plenty:
  assumes "nv_sorted nvl" and "cstr_wf name" and "mem_plenty m" and "map_of nvl name = Some v" and "vtype v = VT_STR"
  shows "\<exists>m'. mem_ext m m' \<and> cvt_string (name, v) (ci_tgt_type t) (ci_cond t) (nvl, m) =
    (case converted t v of Inl e \<Rightarrow> (Inl e, (nvl, m')) | Inr w \<Rightarrow> (Inr (), (nv_put name w nvl, m')))"
proof -
  obtain s where v: "v = VStr s" using assms(5) by (cases v) auto
  note same = nv_put_same [OF assms(1,4)]
  have int: "\<exists>m'. nvl_set_int name i (nvl, m) = (Inr (), (nv_put name (VInt i) nvl, m')) \<and> mem_ext m m'" for i
    unfolding nvl_set_int_def by (rule nvl_set_alloc_plenty [OF yields_val_alloc(1) assms(3,2)])
  have null: "\<exists>m'. nvl_set_null name (nvl, m) = (Inr (), (nv_put name VNull nvl, m')) \<and> mem_ext m m'"
    unfolding nvl_set_null_def by (rule nvl_set_alloc_plenty [OF yields_val_alloc(4) assms(3,2)])
  show ?thesis
    using same int [of "word_of_nat (snd (str2u64 s))"] null mem_ext_refl [of m]
    by (cases "ci_cond t"; cases "ci_tgt_type t"; cases "str2u64 s"; cases "fst (str2u64 s)")
      (auto simp: cvt_string_def converted_def check_condition_str_def v)
qed

text \<open>One step of the loop: the entry does nothing, fails, or replaces the value.\<close>

lemma nvl_convert_step:
  assumes "nv_sorted nvl" and "cstr_wf (ci_name t)" and "mem_plenty m"
  shows "\<exists>m'. mem_ext m m' \<and> nvl_convert_loop all (t # ts) (nvl, m) =
    (case map_of nvl (ci_name t) of
       None \<Rightarrow> nvl_convert_loop all ts (nvl, m')
     | Some v \<Rightarrow>
         (case converted t v of
            Inl e \<Rightarrow> if cvt_fatal all (Inl e) then (Inl e, (nvl, m')) else nvl_convert_loop all ts (nvl, m')
          | Inr w \<Rightarrow> nvl_convert_loop all ts (nv_put (ci_name t) w nvl, m')))"
proof (cases "map_of nvl (ci_name t)")
  case None
  then show ?thesis by (intro exI [of _ m]) (simp add: nvl_lookup_map_of)
next
  case (Some v)
  show ?thesis
  proof (cases "vtype v = VT_STR")
    case True
    from cvt_string_plenty [OF assms Some True, of t] obtain m' where "mem_ext m m'"
      "cvt_string (ci_name t, v) (ci_tgt_type t) (ci_cond t) (nvl, m) =
        (case converted t v of Inl e \<Rightarrow> (Inl e, (nvl, m')) | Inr w \<Rightarrow> (Inr (), (nv_put (ci_name t) w nvl, m')))" by blast
    then show ?thesis using Some True
      by (intro exI [of _ m']) (auto simp: nvl_lookup_map_of cvt_fatal_def CHECK_ERROR_def
          dest: converted_Errno split: sum.splits)
  next
    case False
    then have "converted t v = fail ENOTSUP" by (cases v) (auto simp: converted_def)
    then show ?thesis using Some False by (intro exI [of _ m]) (simp add: nvl_lookup_map_of cvt_fatal_def)
  qed
qed

lemma nvl_convert_loop_ok:
  assumes "nv_sorted nvl" and "list_all (\<lambda>t. cstr_wf (ci_name t)) ts" and "mem_plenty m"
    and "distinct (map ci_name ts)" and "nvl_convert_loop all ts (nvl, m) = (Inr (), (nvl', m'))"
  shows "nv_sorted nvl' \<and> (\<forall>n. n \<notin> ci_name ` set ts \<longrightarrow> map_of nvl' n = map_of nvl n) \<and>
    (\<forall>t \<in> set ts. map_of nvl' (ci_name t) =
      (case map_of nvl (ci_name t) of
         None \<Rightarrow> None
       | Some v \<Rightarrow> Some (case converted t v of Inl e \<Rightarrow> v | Inr w \<Rightarrow> w)) \<and>
      (\<forall>v. map_of nvl (ci_name t) = Some v \<longrightarrow> \<not> cvt_fatal all (converted t v)))"
  using assms
proof (induction ts arbitrary: nvl m)
  case (Cons t ts)
  obtain m1 where m1: "mem_ext m m1" "nvl_convert_loop all (t # ts) (nvl, m) =
    (case map_of nvl (ci_name t) of
       None \<Rightarrow> nvl_convert_loop all ts (nvl, m1)
     | Some v \<Rightarrow>
         (case converted t v of
            Inl e \<Rightarrow> if cvt_fatal all (Inl e) then (Inl e, (nvl, m1)) else nvl_convert_loop all ts (nvl, m1)
          | Inr w \<Rightarrow> nvl_convert_loop all ts (nv_put (ci_name t) w nvl, m1)))"
    using nvl_convert_step [OF Cons.prems(1) _ Cons.prems(3), of t all ts] Cons.prems(2) by auto
  define nvl1 where "nvl1 = (case map_of nvl (ci_name t) of
      Some v \<Rightarrow> (case converted t v of Inr w \<Rightarrow> nv_put (ci_name t) w nvl | Inl e \<Rightarrow> nvl) | None \<Rightarrow> nvl)"
  have 1: "nv_sorted nvl1" "map_of nvl1 = (map_of nvl)(ci_name t := (case map_of nvl (ci_name t) of
         None \<Rightarrow> None | Some v \<Rightarrow> Some (case converted t v of Inl e \<Rightarrow> v | Inr w \<Rightarrow> w)))"
    using nv.inv_put [OF Cons.prems(1)] nv.look_put [OF Cons.prems(1)] Cons.prems(1)
    by (auto simp: nvl1_def fun_upd_idem split: option.splits sum.splits)
  have "nvl_convert_loop all ts (nvl1, m1) = (Inr (), (nvl', m'))"
    and fatal: "\<forall>v. map_of nvl (ci_name t) = Some v \<longrightarrow> \<not> cvt_fatal all (converted t v)"
    using m1(2) Cons.prems(5) by (auto simp: nvl1_def cvt_fatal_def split: option.splits sum.splits if_splits)
  from Cons.IH [OF 1(1) _ _ _ this(1)] Cons.prems(2-4) m1(1) have
    "nv_sorted nvl' \<and> (\<forall>n. n \<notin> ci_name ` set ts \<longrightarrow> map_of nvl' n = map_of nvl1 n) \<and>
    (\<forall>t \<in> set ts. map_of nvl' (ci_name t) =
      (case map_of nvl1 (ci_name t) of
         None \<Rightarrow> None
       | Some v \<Rightarrow> Some (case converted t v of Inl e \<Rightarrow> v | Inr w \<Rightarrow> w)) \<and>
      (\<forall>v. map_of nvl1 (ci_name t) = Some v \<longrightarrow> \<not> cvt_fatal all (converted t v)))"
    by (simp add: mem_ext_plenty)
  moreover have "map_of nvl1 (ci_name u) = map_of nvl (ci_name u)" if "u \<in> set ts" for u
  proof -
    have "ci_name u \<noteq> ci_name t" using Cons.prems(4) imageI [OF that, of ci_name] by auto
    then show ?thesis by (simp add: 1(2))
  qed
  moreover have "ci_name t \<notin> ci_name ` set ts" using Cons.prems(4) by simp
  ultimately show ?case using fatal by (auto simp: 1(2))
qed simp

subsection \<open>Properties\<close>

text \<open>
  C12. Setting a pair: when \<open>nvl_set\<close> succeeds, the list is sorted by name, the name is bound to the new value and every
  other name is bound as before; with memory it succeeds. When there is no memory for a new pair it answers \<open>-ENOMEM\<close>
  and the list is as it was. The one other outcome is that the name is new and there is no memory for its copy, which
  the code does not check: the error pointer is followed (\<open>Fault\<close>), or, if the list is empty, the call returns with a
  pair in the list whose name is the error pointer (\<open>Stray\<close>).
\<close>

theorem nvl_set_lookup:
  assumes "nv_sorted nvl" and "cstr_wf name" and "nvl_set name v (nvl, m) = (r, (nvl', m'))"
  shows "(case r of
      Inr _ \<Rightarrow>
        nv_sorted nvl' \<and> nvl_lookup nvl' name = Inr (name, v) \<and>
        (\<forall>other. other \<noteq> name \<longrightarrow> nvl_lookup nvl' other = nvl_lookup nvl other)
    | Inl e \<Rightarrow>
        e = Errno ENOMEM \<and> nvl' = nvl \<or>
        nvl_lookup nvl name = fail ENOENT \<and> fst (strsym_dup (Some (name @ [0])) VT_STR m) = fail ENOMEM \<and>
          (e = Fault \<or> e = Stray \<and> nvl = [])) \<and>
    (mem_plenty m \<longrightarrow> r = Inr ())"
  using assms(2)
proof (cases rule: nvl_set_cases [of name v nvl m])
  case (ok m1)
  then show ?thesis
    using assms(1,3) nv.inv_put [of nvl name v] nv.look_put [of nvl name v]
    by (auto simp: nvl_lookup_map_of)
next
  case (nomem e m1)
  then show ?thesis using assms(3) by (auto simp: nvl_lookup_def)
qed

lemma plain_nvl_set:
  "nvl_set [98] (VInt 7) ([([97], VNull), ([99], VNull)], plain_mem) =
    (Inr (), ([([97], VNull), ([98], VInt 7), ([99], VNull)], plain_mem\<lparr>m_next := 1\<rparr>))"
  by (simp add: nvl_set_def do_nvl_set_def pairs_find_def on_mem_def name_dup_def strsym_dup_def
      strsym_alloc_gen_def strnlen_def get_preallocated_def USE_STRLEN_def mk_strsym_def
      nvpair_alloc_def cell_alloc_def mem_request_def sizeof_nvpair_def upd_nvl_def plain_mem_def
      bound_simps)

theorem nvl_set_lookup_witness:
  "nvl_lookup [([97], VNull), ([98], VInt 7), ([99], VNull)] [98] = Inr ([98], VInt 7)"
  using nvl_set_lookup [OF _ _ plain_nvl_set] by (simp add: nv_sorted_def cstr_wf_def bound_simps)

text \<open>
  Removing a pair: \<open>-ENOENT\<close> when there is none of that name, \<open>-ERANGE\<close> when a type is asked for and
  the value has another one, and the list is then unchanged; otherwise the list stays sorted and loses
  exactly that name.
\<close>

theorem unset_effect:
  assumes "nv_sorted nvl"
  shows "unset name type matchtype (nvl, m) =
    (case nvl_lookup nvl name of
       Inl e \<Rightarrow> (fail ENOENT, (nvl, m))
     | Inr p \<Rightarrow>
         if matchtype \<and> vtype (snd p) \<noteq> type then (fail ERANGE, (nvl, m))
         else (Inr (), (pairs_remove name nvl, m))) \<and>
    nv_sorted (pairs_remove name nvl) \<and> nvl_lookup (pairs_remove name nvl) name = fail ENOENT \<and>
    (\<forall>other. other \<noteq> name \<longrightarrow> nvl_lookup (pairs_remove name nvl) other = nvl_lookup nvl other)"
  using nv.inv_del [OF assms] nv.look_del [OF assms, of name]
  by (auto simp: unset_def nvl_lookup_map_of pairs_find_map_of upd_nvl_def split: option.splits)

theorem unset_effect_witness:
  "nvl_unset [97] ([([97], VNull), ([98], VNull)], plain_mem) = (Inr (), ([([98], VNull)], plain_mem))"
  using unset_effect [of "[([97], VNull), ([98], VNull)]" "[97]" VT_NULL False plain_mem]
  by (simp add: nvl_unset_def nv_sorted_def nvl_lookup_map_of pairs_remove_def)

text \<open>
  Merging with memory at hand succeeds and gives the union of the two lists in which the source wins,
  still sorted.
\<close>

theorem nvl_merge_union:
  assumes "nv_sorted dest" and "nv_sorted src" and "list_all (\<lambda>p. cstr_wf (fst p)) src" and "mem_plenty m"
  shows "\<exists>dest' m'. nvl_merge src (dest, m) = (Inr (), (dest', m')) \<and> nv_sorted dest' \<and>
    map_of dest' = map_of dest ++ map_of src"
  using nvl_merge_plenty [OF assms(4,3), of dest] nv.inv_put_all [OF assms(1), of src]
    nv.look_put_all [OF assms(1) nv_sorted_distinct [OF assms(2)]]
  by auto

theorem nvl_merge_union_witness:
  "\<exists>dest' m'. nvl_merge [([97], VInt 2)] ([([97], VInt 1), ([98], VNull)], plain_mem) = (Inr (), (dest', m')) \<and>
     map_of dest' [97] = Some (VInt 2)"
  using nvl_merge_union [of "[([97], VInt 1), ([98], VNull)]" "[([97], VInt 2)]" plain_mem]
  by (auto simp: nv_sorted_def cstr_wf_def bound_simps)

text \<open>
  What a string becomes: nothing else when it is to be converted only if empty and is not; otherwise a null, the string, or
  the number it stands for. \<open>None\<close> is a failure. (Texts that are not just digits are read the way \<open>str2u64\<close> does.)
\<close>

definition cvt_number :: "bytes \<Rightarrow> nat option" where
  "cvt_number s =
     (if is_decimal s then if dec_value s < 2 ^ 64 then Some (dec_value s) else None
      else case str2u64 s of (Inr _, i) \<Rightarrow> Some i | _ \<Rightarrow> None)"

definition cvt_spec :: "nvl_convert_info \<Rightarrow> bytes \<Rightarrow> val option" where
  "cvt_spec t s =
     (case ci_cond t of
        NVCVT_COND_OTHER \<Rightarrow> None
      | NVCVT_COND_ALWAYS \<Rightarrow>
          if ci_tgt_type t = VT_NULL then Some VNull
          else if ci_tgt_type t = VT_STR then Some (VStr s)
          else if ci_tgt_type t = VT_INT then map_option (\<lambda>i. VInt (word_of_nat i)) (cvt_number s)
          else None
      | NVCVT_COND_STR_EMPTY \<Rightarrow>
          if s \<noteq> [] then Some (VStr s)
          else if ci_tgt_type t = VT_NULL then Some VNull
          else if ci_tgt_type t = VT_STR then Some (VStr [])
          else None)"

lemma cvt_number_str2u64: "cvt_number s = (case str2u64 s of (Inr _, i) \<Rightarrow> Some i | _ \<Rightarrow> None)"
  by (simp add: cvt_number_def str2u64_decimal)

lemma str2u64_empty: "fst (str2u64 []) \<noteq> Inr ()"
  by (simp add: str2u64_def str2u_full_def strtoull_def cstr_at_def Let_def hex_prefix_def)

lemma converted_spec:
  "converted t (VStr s) = Inr w \<Longrightarrow> cvt_spec t s = Some w"
  "converted t (VStr s) = Inl e \<Longrightarrow> cvt_spec t s = None"
  using str2u64_empty
  by (cases "ci_cond t"; cases "ci_tgt_type t"; cases "str2u64 s"; cases "fst (str2u64 s)";
      auto simp: converted_def cvt_spec_def cvt_number_str2u64 split: if_splits)+

text \<open>
  C13. A conversion that succeeds, of a table with distinct names and memory at hand: the list stays sorted;
  names that are not in the table keep their values; and each value the table names that was there was a string and
  is now what the entry makes of it: the string itself if it is not empty and only empty strings are to be
  converted, and else a null, the string, or the number that its digits stand for. A string that the entry cannot
  convert keeps its value, and that happens only if errors are to be ignored.
\<close>

theorem nvl_convert_types:
  assumes "nv_sorted nvl" and "list_all (\<lambda>t. cstr_wf (ci_name t)) ts" and "mem_plenty m"
    and "distinct (map ci_name ts)" and "nvl_convert (Some ts) all (nvl, m) = (Inr (), (nvl', m'))"
  shows "nv_sorted nvl' \<and> (\<forall>n. n \<notin> ci_name ` set ts \<longrightarrow> map_of nvl' n = map_of nvl n) \<and>
    (\<forall>t \<in> set ts.
      (case map_of nvl (ci_name t) of
         None \<Rightarrow> map_of nvl' (ci_name t) = None
       | Some v \<Rightarrow>
           (\<exists>s. v = VStr s \<and>
             (case cvt_spec t s of
                Some w \<Rightarrow> map_of nvl' (ci_name t) = Some w
              | None \<Rightarrow> all \<and> map_of nvl' (ci_name t) = Some v))))"
proof -
  have "nvl_convert_loop all ts (nvl, m) = (Inr (), (nvl', m'))" using assms(5) by (simp add: nvl_convert_def)
  note ok = nvl_convert_loop_ok [OF assms(1-4) this]
  have "case map_of nvl (ci_name t) of
         None \<Rightarrow> map_of nvl' (ci_name t) = None
       | Some v \<Rightarrow>
           (\<exists>s. v = VStr s \<and>
             (case cvt_spec t s of
                Some w \<Rightarrow> map_of nvl' (ci_name t) = Some w
              | None \<Rightarrow> all \<and> map_of nvl' (ci_name t) = Some v))"
    if t: "t \<in> set ts" for t
  proof (cases "map_of nvl (ci_name t)")
    case (Some v)
    then have fatal: "\<not> cvt_fatal all (converted t v)" and
      w: "map_of nvl' (ci_name t) = Some (case converted t v of Inl e \<Rightarrow> v | Inr w \<Rightarrow> w)"
      using ok t by auto
    have "vtype v = VT_STR" using fatal by (cases v) (auto simp: converted_def cvt_fatal_def)
    then obtain s where v: "v = VStr s" by (cases v) auto
    show ?thesis
    proof (cases "converted t v")
      case (Inl e)
      then show ?thesis using Some w fatal v converted_spec(2) [of t s e] by (simp add: cvt_fatal_def)
    next
      case (Inr x)
      then show ?thesis using Some w v converted_spec(1) [of t s x] by simp
    qed
  qed (use ok t in auto)
  with ok show ?thesis by blast
qed

lemma plain_nvl_convert:
  "nvl_convert (Some [\<lparr>ci_name = [97], ci_tgt_type = VT_INT, ci_cond = NVCVT_COND_ALWAYS\<rparr>]) False
     ([([97], VStr [55]), ([98], VNull)], plain_mem) = (Inr (), ([([97], VInt 7), ([98], VNull)], plain_mem))"
proof -
  have "dec_of_nat 7 = [55]"
    by (simp add: dec_of_nat.simps)
  then have "is_decimal [55] \<and> dec_value [55] = 7"
    using dec_of_nat_decimal [of 7] by simp
  then have "str2u64 [55] = (Inr (), 7)"
    by (simp add: str2u64_decimal)
  then show ?thesis
    by (simp add: nvl_convert_def nvl_lookup_def pairs_find_def cvt_string_def check_condition_str_def nvl_set_int_def
        nvl_set_alloc_def on_mem_def val_alloc_int_def nvl_set_def do_nvl_set_def upd_nvl_def)
qed

theorem nvl_convert_types_witness:
  "\<exists>nvl' m'. nvl_convert (Some [\<lparr>ci_name = [97], ci_tgt_type = VT_INT, ci_cond = NVCVT_COND_ALWAYS\<rparr>]) False
     ([([97], VStr [55]), ([98], VNull)], plain_mem) = (Inr (), (nvl', m')) \<and> nv_sorted nvl' \<and>
     map_of nvl' [97] = map_option (\<lambda>i. VInt (word_of_nat i)) (cvt_number [55]) \<and> map_of nvl' [98] = Some VNull"
  using nvl_convert_types [OF _ _ mem_plenty_plain _ plain_nvl_convert] plain_nvl_convert
  by (auto simp: nv_sorted_def cstr_wf_def bound_simps cvt_spec_def split: option.splits)

text \<open>
  A name too long to be stored inline whose copy cannot be allocated, while a new pair can: an error pointer becomes the
  name of the only pair of the list.
\<close>

theorem nvl_set_unchecked_name:
  "fst (nvl_set (replicate 16 97) VNull ([], plain_mem\<lparr>m_ok := (\<lambda>k _. 0 < k)\<rparr>)) = Inl Stray"
  by (simp add: nvl_set_def do_nvl_set_def pairs_find_def on_mem_def name_dup_def strsym_dup_def
      strsym_alloc_gen_def strnlen_def get_preallocated_def USE_STRLEN_def mk_strsym_def inlinable_def
      STR_INLINE_LEN_def cell_alloc_def mem_request_def plain_mem_def bound_simps andthen_def
      val_cell_def sizeof_val_def takeWhile_nul nvpair_alloc_def nvl_add_def sizeof_nvpair_def)

end
