(* ===== verification/Append.thy ===== *)
theory Append
  imports Buffer
begin

text \<open>
  The interface through which the serialisers (\<^verbatim>\<open>src/fmt_cbor.c\<close>, \<^verbatim>\<open>src/fmt_json.c\<close>) use buffers: they
  only append. The locale \<open>appender\<close> says what appending promises on a kind of buffer, and what follows
  for any function composed of appends: \<open>emits f (bs, r)\<close> says that \<open>f\<close> writes the bytes \<open>bs\<close> and returns
  \<open>r\<close>, or fails with the error \<open>full\<close> when there is no room for them. It is interpreted on heap buffers, on
  writable static buffers, which answer \<open>-ENOSPC\<close>, and on sink buffers.
\<close>

subsection \<open>Outputs\<close>

text \<open>Bytes written, and the result of the function that wrote them; a failure ends a sequence.\<close>

type_synonym outp = "bytes \<times> unit res"

definition out_bytes :: "bytes \<Rightarrow> outp" where
  "out_bytes bs = (bs, Inr ())"

definition out_fail :: "errno \<Rightarrow> outp" where
  "out_fail e = ([], fail e)"

definition out_seq :: "outp \<Rightarrow> outp \<Rightarrow> outp" where
  "out_seq o1 o2 = (case snd o1 of Inl e \<Rightarrow> o1 | Inr _ \<Rightarrow> (fst o1 @ fst o2, snd o2))"

fun out_all :: "outp list \<Rightarrow> outp" where
  "out_all [] = out_bytes []"
| "out_all (x # xs) = out_seq x (out_all xs)"

lemma out_seq_ok: "snd (out_seq a b) = Inr () \<longleftrightarrow> snd a = Inr () \<and> snd b = Inr ()"
  by (auto simp: out_seq_def split: sum.splits)

lemma out_seq_fst: "snd a = Inr () \<Longrightarrow> fst (out_seq a b) = fst a @ fst b"
  by (simp add: out_seq_def)

lemma out_all_ok: "snd (out_all xs) = Inr () \<longleftrightarrow> (\<forall>x \<in> set xs. snd x = Inr ())"
  by (induction xs) (auto simp: out_seq_ok out_bytes_def)

lemma out_all_fst: "snd (out_all xs) = Inr () \<Longrightarrow> fst (out_all xs) = concat (map fst xs)"
  by (induction xs) (auto simp: out_seq_ok out_seq_fst out_bytes_def)

lemma out_bytes_simps [simp]: "fst (out_bytes bs) = bs" "snd (out_bytes bs) = Inr ()"
  by (simp_all add: out_bytes_def)

lemma out_seq_bytes [simp]: "out_seq (out_bytes a) (out_bytes b) = out_bytes (a @ b)"
  by (simp add: out_seq_def out_bytes_def)

lemma out_seq_nil [simp]: "out_seq out (out_bytes []) = out"
  by (cases out) (auto simp: out_seq_def out_bytes_def split: sum.splits)

lemma out_seq_assoc: "out_seq (out_seq a b) c = out_seq a (out_seq b c)"
  by (auto simp: out_seq_def split: sum.splits)

subsection \<open>Appending\<close>

locale appender =
  fixes room :: "nat \<Rightarrow> buffer \<Rightarrow> bool"
    and grown :: "bytes \<Rightarrow> buffer \<Rightarrow> buffer \<Rightarrow> bool"
    and full :: "errno option"
  assumes append_ok: "room k b \<Longrightarrow> n \<le> length obj \<Longrightarrow> n \<le> k \<Longrightarrow>
      \<exists>b'. buffer_append (Some obj) n b = (Inr (), b') \<and> grown (take n obj) b b' \<and> room (k - n) b'"
    and append_full: "room k b \<Longrightarrow> n \<le> length obj \<Longrightarrow> n \<le> SSIZE_MAX \<Longrightarrow> k < n \<Longrightarrow> full = Some e \<Longrightarrow>
      \<exists>b'. buffer_append (Some obj) n b = (fail e, b')"
    and grown_nil: "grown [] b b"
    and grown_append: "grown xs a b \<Longrightarrow> grown ys b c \<Longrightarrow> grown (xs @ ys) a c"
begin

definition emits :: "(buffer, unit) cfun \<Rightarrow> outp \<Rightarrow> bool" where
  "emits f out \<longleftrightarrow>
     (\<forall>k b. room k b \<longrightarrow>
       (if length (fst out) \<le> k
        then \<exists>b'. f b = (snd out, b') \<and> grown (fst out) b b' \<and> room (k - length (fst out)) b'
        else \<forall>e. full = Some e \<longrightarrow> (\<exists>b'. f b = (fail e, b'))))"

lemma emits_ok:
  "emits f out \<Longrightarrow> room k b \<Longrightarrow> length (fst out) \<le> k \<Longrightarrow>
    \<exists>b'. f b = (snd out, b') \<and> grown (fst out) b b' \<and> room (k - length (fst out)) b'"
  unfolding emits_def by metis

lemma emits_full:
  "emits f out \<Longrightarrow> room k b \<Longrightarrow> k < length (fst out) \<Longrightarrow> full = Some e \<Longrightarrow> \<exists>b'. f b = (fail e, b')"
  unfolding emits_def by (metis not_le)

lemma emitsI:
  assumes "\<And>k b. room k b \<Longrightarrow> length (fst out) \<le> k \<Longrightarrow>
      \<exists>b'. f b = (snd out, b') \<and> grown (fst out) b b' \<and> room (k - length (fst out)) b'"
    and "\<And>k b e. room k b \<Longrightarrow> k < length (fst out) \<Longrightarrow> full = Some e \<Longrightarrow> \<exists>b'. f b = (fail e, b')"
  shows "emits f out"
  unfolding emits_def by (auto simp: not_le intro: assms)

lemma emits_bytes:
  "n \<le> length obj \<Longrightarrow> n \<le> SSIZE_MAX \<Longrightarrow> bs = take n obj \<Longrightarrow> emits (buffer_append (Some obj) n) (out_bytes bs)"
  using append_ok append_full by (intro emitsI) auto

lemma emits_ret: "emits (cret ()) (out_bytes [])"
  by (rule emitsI) (simp_all add: grown_nil)

lemma emits_err: "emits (cerr (Errno e)) (out_fail e)"
  by (rule emitsI) (simp_all add: grown_nil out_fail_def)

lemma emits_andthen:
  assumes f: "emits f o1" and g: "emits (g ()) o2"
  shows "emits (andthen f g) (out_seq o1 o2)"
proof (rule emitsI)
  fix k b
  assume k: "room k b" "length (fst (out_seq o1 o2)) \<le> k"
  have "length (fst o1) \<le> k" using k(2) by (auto simp: out_seq_def split: sum.splits)
  from emits_ok [OF f k(1) this] obtain b1 where
    1: "f b = (snd o1, b1)" "grown (fst o1) b b1" "room (k - length (fst o1)) b1" by blast
  show "\<exists>b'. andthen f g b = (snd (out_seq o1 o2), b') \<and> grown (fst (out_seq o1 o2)) b b' \<and>
      room (k - length (fst (out_seq o1 o2))) b'"
  proof (cases "snd o1")
    case (Inl e)
    with 1 show ?thesis by (simp add: out_seq_def)
  next
    case (Inr u)
    then have "length (fst o2) \<le> k - length (fst o1)" using k(2) by (simp add: out_seq_def)
    from emits_ok [OF g 1(3) this] 1 Inr show ?thesis by (auto simp: out_seq_def intro: grown_append)
  qed
next
  fix k b e
  assume k: "room k b" "k < length (fst (out_seq o1 o2))" and e: "full = Some e"
  show "\<exists>b'. andthen f g b = (fail e, b')"
  proof (cases "k < length (fst o1)")
    case True
    from emits_full [OF f k(1) this e] show ?thesis by auto
  next
    case False
    then obtain b1 where 1: "f b = (snd o1, b1)" "room (k - length (fst o1)) b1"
      using emits_ok [OF f k(1)] by auto
    from k(2) False obtain u where "snd o1 = Inr u" "k - length (fst o1) < length (fst o2)"
      by (auto simp: out_seq_def split: sum.splits)
    with emits_full [OF g 1(2) _ e] 1 show ?thesis by auto
  qed
qed

lemma emits_seq: "emits f o1 \<Longrightarrow> emits h o2 \<Longrightarrow> emits (andthen f (\<lambda>_. h)) (out_seq o1 o2)"
  by (rule emits_andthen)

end

subsection \<open>The three kinds of buffers that can be appended to\<close>

text \<open>Heap buffers, while there is memory and the data stays below the largest object size.\<close>

definition heap_room :: "nat \<Rightarrow> buffer \<Rightarrow> bool" where
  "heap_room k b \<longleftrightarrow> good_heap b \<and> b_size b + k \<le> SSIZE_MAX"

definition data_grown :: "bytes \<Rightarrow> buffer \<Rightarrow> buffer \<Rightarrow> bool" where
  "data_grown bs b b' \<longleftrightarrow> contents b' = contents b @ bs \<and> b_off b' = b_off b \<and> b_heap b' = b_heap b"

text \<open>Writable static buffers, with exactly \<open>k\<close> bytes left.\<close>

definition static_room :: "nat \<Rightarrow> buffer \<Rightarrow> bool" where
  "static_room k b \<longleftrightarrow> buf_wf b \<and> b_ops b = static_buffer_rw \<and> b_size b + k = b_allocsize b"

text \<open>Sink buffers, which only count.\<close>

definition sink_room :: "nat \<Rightarrow> buffer \<Rightarrow> bool" where
  "sink_room k b \<longleftrightarrow> buf_wf b \<and> b_ops b = sink_buffer \<and> b_size b + k \<le> SIZE_MAX"

definition size_grown :: "bytes \<Rightarrow> buffer \<Rightarrow> buffer \<Rightarrow> bool" where
  "size_grown bs b b' \<longleftrightarrow> b_size b' = b_size b + length bs"

lemma buffer_append_heap_flag: "buffer_append obj n b = (Inr (), b') \<Longrightarrow> b_heap b' = b_heap b"
  by (cases "b_ops b")
    (auto simp: buffer_append_def resize_def generic_buffer_copyin_memcpy_def data_write_def
      generic_buffer_copyin_nop_def generic_buffer_copyin_panic_def stdio_buffer_copyin_def run_check_def
      static_buffer_check_append_ro_def
      elim!: andthen_InrE split: if_splits option.splits prod.splits)

interpretation heap: appender heap_room data_grown None
proof
  fix k b n and obj :: bytes
  assume r: "heap_room k b" and n: "n \<le> length obj" "n \<le> k"
  note h = good_heapD [of b]
  have g: "good_heap b" and sz: "b_size b + k \<le> SSIZE_MAX" using r by (auto simp: heap_room_def)
  have n': "n \<le> SSIZE_MAX" using n sz by simp
  from h(1,2) [OF g] n(1) n' show "\<exists>b'. buffer_append (Some obj) n b = (Inr (), b') \<and>
      data_grown (take n obj) b b' \<and> heap_room (k - n) b'"
  proof (cases rule: buffer_append_backed)
    case (ok b')
    then have "good_heap b'" using h [OF g] by (simp add: good_heap_def)
    with ok n sz buffer_append_heap_flag [OF ok(1)] show ?thesis
      by (auto simp: data_grown_def heap_room_def)
  next
    case (err e m)
    then show ?thesis using h [OF g] n sz by simp
  qed
qed (auto simp: data_grown_def)

interpretation static: appender static_room data_grown "Some ENOSPC"
proof
  fix k b n and obj :: bytes
  assume r: "static_room k b" and n: "n \<le> length obj"
  have wf: "buf_wf b" and ops: "b_ops b = static_buffer_rw" and sz: "b_size b + k = b_allocsize b"
    using r by (auto simp: static_room_def)
  have rw: "mem_rw (b_ops b)" using ops by (simp add: mem_rw_def)
  have max: "b_allocsize b \<le> SSIZE_MAX" using buf_wf_sizes [OF wf] ops by simp
  show "\<exists>b'. buffer_append (Some obj) n b = (Inr (), b') \<and> data_grown (take n obj) b b' \<and>
      static_room (k - n) b'" if k: "n \<le> k"
  proof -
    have n': "n \<le> SSIZE_MAX" using k sz max by simp
    from wf rw n n' show ?thesis
    proof (cases rule: buffer_append_backed)
      case (ok b')
      with ops k sz buffer_append_heap_flag [OF ok(1)] show ?thesis
        by (auto simp: data_grown_def static_room_def)
    next
      case (err e m)
      then show ?thesis using k sz by simp
    qed
  qed
  show "\<exists>b'. buffer_append (Some obj) n b = (fail e, b')"
    if k: "n \<le> SSIZE_MAX" "k < n" and e: "Some ENOSPC = Some e" for e
    using wf rw n k(1)
  proof (cases rule: buffer_append_backed)
    case (ok b')
    then show ?thesis using ops k sz by simp
  next
    case (err e' m)
    then show ?thesis using ops e by auto
  qed
qed (auto simp: data_grown_def)

interpretation sink: appender sink_room size_grown None
proof
  fix k b n and obj :: bytes
  assume r: "sink_room k b" and n: "n \<le> length obj" "n \<le> k"
  then have wf: "buf_wf b" and ops: "b_ops b = sink_buffer" and sz: "b_size b + n \<le> SIZE_MAX"
    by (auto simp: sink_room_def)
  then have "buffer_append (Some obj) n b = (Inr (), b\<lparr>b_size := b_size b + n\<rparr>)"
    using unbacked_resize [of b "b_size b + n"]
    by (cases b) (simp add: buffer_append_def generic_buffer_copyin_nop_def wrap64_SIZE_MAX)
  moreover have "buf_wf (b\<lparr>b_size := b_size b + n\<rparr>)"
    using wf ops sz by (intro unbacked_grow) auto
  ultimately show "\<exists>b'. buffer_append (Some obj) n b = (Inr (), b') \<and> size_grown (take n obj) b b' \<and>
      sink_room (k - n) b'"
    using r n by (auto simp: size_grown_def sink_room_def)
qed (auto simp: size_grown_def)

end
