(* ===== verification/Cbor_Pack.thy ===== *)
theory Cbor_Pack
  imports Append Ints Val
begin

text \<open>
  The packing half of \<^verbatim>\<open>src/fmt_cbor.c\<close>: RFC 7049 encodings appended to a buffer. The argument \<open>big\<close>
  says whether the machine is big-endian (\<open>JEFFPC_CPU_BIG_ENDIAN\<close>): the code converts an integer with
  \<open>cpuN_to_be\<close> and appends the bytes it has in memory.

  The reference \<open>cbor_out\<close> gives the bytes of a value and the result of packing it. In the locale
  \<open>appender\<close> packing is shown to write exactly that, so it holds for heap, static and sink buffers at
  once.
\<close>

unbundle bit_operations_syntax

subsection \<open>Data items\<close>

datatype major_type =
    CMT_UINT | CMT_NINT | CMT_BYTE | CMT_TEXT | CMT_ARRAY | CMT_MAP | CMT_TAG | CMT_FLOAT

fun major_num :: "major_type \<Rightarrow> u8" where
  "major_num CMT_UINT = 0"
| "major_num CMT_NINT = 1"
| "major_num CMT_BYTE = 2"
| "major_num CMT_TEXT = 3"
| "major_num CMT_ARRAY = 4"
| "major_num CMT_MAP = 5"
| "major_num CMT_TAG = 6"
| "major_num CMT_FLOAT = 7"

definition ADDL_UINT8 :: u8 where "ADDL_UINT8 = 24"

definition ADDL_UINT16 :: u8 where "ADDL_UINT16 = 25"

definition ADDL_UINT32 :: u8 where "ADDL_UINT32 = 26"

definition ADDL_UINT64 :: u8 where "ADDL_UINT64 = 27"

definition ADDL_ARRAY_INDEF :: u8 where "ADDL_ARRAY_INDEF = 31"

definition ADDL_MAP_INDEF :: u8 where "ADDL_MAP_INDEF = 31"

definition ADDL_FLOAT_FALSE :: u8 where "ADDL_FLOAT_FALSE = 20"

definition ADDL_FLOAT_TRUE :: u8 where "ADDL_FLOAT_TRUE = 21"

definition ADDL_FLOAT_NULL :: u8 where "ADDL_FLOAT_NULL = 22"

definition ADDL_FLOAT_BREAK :: u8 where "ADDL_FLOAT_BREAK = 31"

lemmas addl_defs = ADDL_UINT8_def ADDL_UINT16_def ADDL_UINT32_def ADDL_UINT64_def
  ADDL_ARRAY_INDEF_def ADDL_MAP_INDEF_def ADDL_FLOAT_FALSE_def ADDL_FLOAT_TRUE_def
  ADDL_FLOAT_NULL_def ADDL_FLOAT_BREAK_def

definition CBOR_UNKNOWN_NELEM :: nat where
  "CBOR_UNKNOWN_NELEM = SIZE_MAX"

text \<open>\<open>MKTYPE\<close>, whose assertions are the \<open>Panic\<close>.\<close>

definition MKTYPE :: "major_type \<Rightarrow> u8 \<Rightarrow> u8 res" where
  "MKTYPE type additional =
     (if major_num type AND NOT 0x7 \<noteq> 0 \<or> additional AND NOT 0x1f \<noteq> 0 then Inl Panic
      else Inr (push_bit 5 (major_num type) OR additional))"

definition pack_cbor_type_byte :: "major_type \<Rightarrow> u8 \<Rightarrow> (buffer, unit) cfun" where
  "pack_cbor_type_byte type additional =
     (case MKTYPE type additional of
        Inl e \<Rightarrow> cerr e
      | Inr byte \<Rightarrow> buffer_append (Some [byte]) 1)"

definition pack_cbor_type :: "bool \<Rightarrow> major_type \<Rightarrow> u64 \<Rightarrow> (buffer, unit) cfun" where
  "pack_cbor_type big type additional =
     (if additional \<le> 23 then pack_cbor_type_byte type (ucast additional)
      else
        let (addl, u, sz) =
          (if additional \<le> 0xff then
             (ADDL_UINT8, host_bytes big 1 (cpu8_to_be big (ucast additional)), 1)
           else if additional \<le> 0xffff then
             (ADDL_UINT16, host_bytes big 2 (cpu16_to_be big (ucast additional)), 2)
           else if additional \<le> 0xffffffff then
             (ADDL_UINT32, host_bytes big 4 (cpu32_to_be big (ucast additional)), 4)
           else (ADDL_UINT64, host_bytes big 8 (cpu64_to_be big additional), 8))
        in andthen (pack_cbor_type_byte type addl) (\<lambda>_. buffer_append (Some u) sz))"

subsection \<open>Packing\<close>

definition cbor_pack_uint :: "bool \<Rightarrow> u64 \<Rightarrow> (buffer, unit) cfun" where
  "cbor_pack_uint big v = pack_cbor_type big CMT_UINT v"

definition cbor_pack_nint :: "bool \<Rightarrow> u64 \<Rightarrow> (buffer, unit) cfun" where
  "cbor_pack_nint big v = cerr (Errno ENOTSUP)"

definition cbor_pack_int :: "bool \<Rightarrow> int \<Rightarrow> (buffer, unit) cfun" where
  "cbor_pack_int big v =
     (if v < 0 then cbor_pack_nint big (word_of_int (- v)) else cbor_pack_uint big (word_of_int v))"

definition cbor_pack_blob :: "bool \<Rightarrow> bytes \<Rightarrow> nat \<Rightarrow> (buffer, unit) cfun" where
  "cbor_pack_blob big data sz =
     andthen (pack_cbor_type big CMT_BYTE (word_of_nat sz)) (\<lambda>_. buffer_append (Some data) sz)"

definition cbor_pack_cstr_len :: "bool \<Rightarrow> bytes \<Rightarrow> nat \<Rightarrow> (buffer, unit) cfun" where
  "cbor_pack_cstr_len big str len =
     andthen (pack_cbor_type big CMT_TEXT (word_of_nat len)) (\<lambda>_. buffer_append (Some str) len)"

definition cbor_pack_cstr :: "bool \<Rightarrow> bytes \<Rightarrow> (buffer, unit) cfun" where
  "cbor_pack_cstr big str = cbor_pack_cstr_len big (str @ [0]) (length str)"

definition cbor_pack_str :: "bool \<Rightarrow> bytes \<Rightarrow> (buffer, unit) cfun" where
  "cbor_pack_str big str = cbor_pack_cstr_len big (str @ [0]) (length str)"

definition cbor_pack_bool :: "bool \<Rightarrow> bool \<Rightarrow> (buffer, unit) cfun" where
  "cbor_pack_bool big b =
     pack_cbor_type big CMT_FLOAT (ucast (if b then ADDL_FLOAT_TRUE else ADDL_FLOAT_FALSE))"

definition cbor_pack_null :: "bool \<Rightarrow> (buffer, unit) cfun" where
  "cbor_pack_null big = pack_cbor_type big CMT_FLOAT (ucast ADDL_FLOAT_NULL)"

text \<open>The constant bytes of \<open>MKTYPE_STATIC\<close>.\<close>

definition mktype_static :: "major_type \<Rightarrow> u8 \<Rightarrow> u8" where
  "mktype_static type additional = push_bit 5 (major_num type) OR additional"

definition cbor_pack_break :: "(buffer, unit) cfun" where
  "cbor_pack_break = buffer_append (Some [mktype_static CMT_FLOAT ADDL_FLOAT_BREAK]) 1"

definition cbor_pack_array_start :: "bool \<Rightarrow> nat \<Rightarrow> (buffer, unit) cfun" where
  "cbor_pack_array_start big nelem =
     (if nelem \<noteq> CBOR_UNKNOWN_NELEM then pack_cbor_type big CMT_ARRAY (word_of_nat nelem)
      else buffer_append (Some [mktype_static CMT_ARRAY ADDL_ARRAY_INDEF]) 1)"

definition cbor_pack_array_end :: "nat \<Rightarrow> (buffer, unit) cfun" where
  "cbor_pack_array_end nelem = (if nelem \<noteq> CBOR_UNKNOWN_NELEM then cret () else cbor_pack_break)"

definition cbor_pack_map_start :: "bool \<Rightarrow> nat \<Rightarrow> (buffer, unit) cfun" where
  "cbor_pack_map_start big npairs =
     (if npairs = CBOR_UNKNOWN_NELEM
      then buffer_append (Some [mktype_static CMT_MAP ADDL_MAP_INDEF]) 1
      else pack_cbor_type big CMT_MAP (word_of_nat npairs))"

definition cbor_pack_map_end :: "nat \<Rightarrow> (buffer, unit) cfun" where
  "cbor_pack_map_end npairs = (if npairs = CBOR_UNKNOWN_NELEM then cbor_pack_break else cret ())"

text \<open>
  \<open>cbor_pack_val\<close> with the loops of \<open>cbor_pack_array_vals\<close> and \<open>cbor_pack_map_val\<close>. The recursion is on
  the value, which gets smaller at each call.
\<close>

function (sequential) cbor_pack_val :: "bool \<Rightarrow> val \<Rightarrow> (buffer, unit) cfun"
  and cbor_pack_array_vals :: "bool \<Rightarrow> val list \<Rightarrow> (buffer, unit) cfun"
  and cbor_pack_vals_loop :: "bool \<Rightarrow> val list \<Rightarrow> (buffer, unit) cfun"
  and cbor_pack_map_pairs :: "bool \<Rightarrow> nvpairs \<Rightarrow> (buffer, unit) cfun"
  and cbor_pack_pairs_loop :: "bool \<Rightarrow> nvpairs \<Rightarrow> (buffer, unit) cfun" where
  "cbor_pack_val big VNull = cbor_pack_null big"
| "cbor_pack_val big (VInt i) = cbor_pack_uint big i"
| "cbor_pack_val big (VStr s) = cbor_pack_str big s"
| "cbor_pack_val big (VSym s) = cerr (Errno ENOTSUP)"
| "cbor_pack_val big (VBool b) = cbor_pack_bool big b"
| "cbor_pack_val big (VCons h t) = cerr (Errno ENOTSUP)"
| "cbor_pack_val big (VChar c) = cerr (Errno ENOTSUP)"
| "cbor_pack_val big (VBlob data) = cbor_pack_blob big data (length data)"
| "cbor_pack_val big (VArray vals) = cbor_pack_array_vals big vals"
| "cbor_pack_val big (VNvl kvs) = cbor_pack_map_pairs big kvs"
| "cbor_pack_array_vals big vals =
     andthen (cbor_pack_array_start big (length vals)) (\<lambda>_.
       andthen (cbor_pack_vals_loop big vals) (\<lambda>_. cbor_pack_array_end (length vals)))"
| "cbor_pack_vals_loop big [] = cret ()"
| "cbor_pack_vals_loop big (v # vals) =
     andthen (cbor_pack_val big v) (\<lambda>_. cbor_pack_vals_loop big vals)"
| "cbor_pack_map_pairs big kvs =
     andthen (cbor_pack_map_start big (length kvs)) (\<lambda>_.
       andthen (cbor_pack_pairs_loop big kvs) (\<lambda>_. cbor_pack_map_end (length kvs)))"
| "cbor_pack_pairs_loop big [] = cret ()"
| "cbor_pack_pairs_loop big ((name, v) # kvs) =
     andthen (cbor_pack_str big name) (\<lambda>_.
       andthen (cbor_pack_val big v) (\<lambda>_. cbor_pack_pairs_loop big kvs))"
  by pat_completeness auto

termination
  by (relation "measure (\<lambda>x. case x of
        Inl (Inl (big, v)) \<Rightarrow> 2 * size v
      | Inl (Inr (big, vs)) \<Rightarrow> Suc (2 * size_list size vs)
      | Inr (Inl (big, vs)) \<Rightarrow> 2 * size_list size vs
      | Inr (Inr (Inl (big, kvs))) \<Rightarrow> Suc (2 * size_list (size_prod (\<lambda>_. 0) size) kvs)
      | Inr (Inr (Inr (big, kvs))) \<Rightarrow> 2 * size_list (size_prod (\<lambda>_. 0) size) kvs)") auto

definition cbor_pack_map_val :: "bool \<Rightarrow> val \<Rightarrow> (buffer, unit) cfun" where
  "cbor_pack_map_val big v =
     (case v of VNvl kvs \<Rightarrow> cbor_pack_map_pairs big kvs | _ \<Rightarrow> cerr (Errno EINVAL))"

subsection \<open>Reference encoding\<close>

text \<open>The head of a data item: major type and argument in the shortest form (RFC 7049, section 2.1).\<close>

definition cbor_head :: "u8 \<Rightarrow> nat \<Rightarrow> bytes" where
  "cbor_head t n =
     (if n \<le> 23 then [push_bit 5 t OR word_of_nat n]
      else if n \<le> 0xff then (push_bit 5 t OR 24) # cpu8_to_be_unaligned (word_of_nat n)
      else if n \<le> 0xffff then (push_bit 5 t OR 25) # cpu16_to_be_unaligned (word_of_nat n)
      else if n \<le> 0xffffffff then (push_bit 5 t OR 26) # cpu32_to_be_unaligned (word_of_nat n)
      else (push_bit 5 t OR 27) # cpu64_to_be_unaligned (word_of_nat n))"

definition cbor_text :: "bytes \<Rightarrow> bytes" where
  "cbor_text s = cbor_head 3 (length s) @ s"

text \<open>The bytes of a value, or of what comes before the first part that has no encoding.\<close>

fun cbor_out :: "val \<Rightarrow> outp" where
  "cbor_out VNull = out_bytes [0xf6]"
| "cbor_out (VInt i) = out_bytes (cbor_head 0 (unat i))"
| "cbor_out (VStr s) = out_bytes (cbor_text s)"
| "cbor_out (VBool b) = out_bytes [if b then 0xf5 else 0xf4]"
| "cbor_out (VBlob bs) = out_bytes (cbor_head 2 (length bs) @ bs)"
| "cbor_out (VArray vs) = out_seq (out_bytes (cbor_head 4 (length vs))) (out_all (map cbor_out vs))"
| "cbor_out (VNvl kvs) =
     out_seq (out_bytes (cbor_head 5 (length kvs)))
       (out_all (map (\<lambda>p. out_seq (out_bytes (cbor_text (fst p))) (cbor_out (snd p))) kvs))"
| "cbor_out (VSym s) = out_fail ENOTSUP"
| "cbor_out (VCons h t) = out_fail ENOTSUP"
| "cbor_out (VChar c) = out_fail ENOTSUP"

lemma MKTYPE_ok:
  assumes "unat a < 32"
  shows "MKTYPE t a = Inr (push_bit 5 (major_num t) OR a)"
proof -
  have "a AND NOT 0x1f = 0"
    using word_high_bits [of a 5] assms by (intro word_eqI_upt) (simp add: upt_8 bit_simps)
  moreover have "major_num t AND NOT 0x7 = 0" by (cases t) auto
  ultimately show ?thesis by (simp add: MKTYPE_def)
qed

context appender
begin

lemma emits_type_byte:
  "unat a < 32 \<Longrightarrow> emits (pack_cbor_type_byte t a) (out_bytes [push_bit 5 (major_num t) OR a])"
  using emits_bytes [of 1 "[push_bit 5 (major_num t) OR a]"]
  by (simp add: pack_cbor_type_byte_def MKTYPE_ok bound_simps)

lemma emits_head: "emits (pack_cbor_type big t n) (out_bytes (cbor_head (major_num t) (unat n)))"
proof (cases "n \<le> 23")
  case True
  then have "unat n \<le> 23" by (simp add: word_le_nat_alt)
  then have "unat (ucast n :: u8) < 32"
    by (simp only: unsigned_ucast_eq) (simp add: take_bit_nat_eq_self)
  with True emits_type_byte [of "ucast n" t] show ?thesis
    by (simp add: pack_cbor_type_def cbor_head_def word_le_nat_alt)
next
  case False
  have two: "emits (andthen (pack_cbor_type_byte t a) (\<lambda>_. buffer_append (Some u) (length u)))
      (out_bytes ((push_bit 5 (major_num t) OR a) # u))" if "unat a < 32" "length u \<le> 8" for a u
    using emits_seq [OF emits_type_byte [OF that(1)] emits_bytes [of "length u" u u]] that(2) by (simp add: bound_simps)
  have cast: "(ucast n :: 'a::len word) = word_of_nat (unat n)" by simp
  show ?thesis
    using False two [of 24 "cpu8_to_be_unaligned (word_of_nat (unat n))"]
      two [of 25 "cpu16_to_be_unaligned (word_of_nat (unat n))"]
      two [of 26 "cpu32_to_be_unaligned (word_of_nat (unat n))"] two [of 27 "cpu64_to_be_unaligned n"]
    by (auto simp: pack_cbor_type_def cbor_head_def addl_defs host_cpu_to_be
        host_cpu8_to_be [unfolded One_nat_def] word_le_nat_alt)
qed

lemma emits_text: "length s < SSIZE_MAX \<Longrightarrow> emits (cbor_pack_str big s) (out_bytes (cbor_text s))"
  using emits_seq [OF emits_head [of big CMT_TEXT "word_of_nat (length s)"]
      emits_bytes [of "length s" "s @ [0]" s]]
  by (simp add: cbor_pack_str_def cbor_pack_cstr_len_def cbor_text_def unat_of_nat_u64 bound_simps)

lemma emits_start_end:
  assumes "n \<le> SSIZE_MAX" and "emits f out"
  shows "emits (andthen (cbor_pack_array_start big n) (\<lambda>_. andthen f (\<lambda>_. cbor_pack_array_end n)))
      (out_seq (out_bytes (cbor_head 4 n)) out)"
    and "emits (andthen (cbor_pack_map_start big n) (\<lambda>_. andthen f (\<lambda>_. cbor_pack_map_end n)))
      (out_seq (out_bytes (cbor_head 5 n)) out)"
proof -
  have n: "n \<noteq> CBOR_UNKNOWN_NELEM" "unat (word_of_nat n :: u64) = n"
    using assms(1) by (auto simp: CBOR_UNKNOWN_NELEM_def bound_simps unat_of_nat_u64)
  have body: "emits (andthen f (\<lambda>_. cret ())) out"
    using emits_seq [OF assms(2) emits_ret] by simp
  show "emits (andthen (cbor_pack_array_start big n) (\<lambda>_. andthen f (\<lambda>_. cbor_pack_array_end n)))
      (out_seq (out_bytes (cbor_head 4 n)) out)"
    using emits_seq [OF emits_head [of big CMT_ARRAY "word_of_nat n"] body] n
    by (simp add: cbor_pack_array_start_def cbor_pack_array_end_def)
  show "emits (andthen (cbor_pack_map_start big n) (\<lambda>_. andthen f (\<lambda>_. cbor_pack_map_end n)))
      (out_seq (out_bytes (cbor_head 5 n)) out)"
    using emits_seq [OF emits_head [of big CMT_MAP "word_of_nat n"] body] n
    by (simp add: cbor_pack_map_start_def cbor_pack_map_end_def)
qed

lemma emits_cbor_pack:
  "val_wf v \<Longrightarrow> emits (cbor_pack_val big v) (cbor_out v)"
  "val_wf (VArray vs) \<Longrightarrow> emits (cbor_pack_array_vals big vs) (cbor_out (VArray vs))"
  "\<forall>x \<in> set vs. val_wf x \<Longrightarrow> emits (cbor_pack_vals_loop big vs) (out_all (map cbor_out vs))"
  "val_wf (VNvl kvs) \<Longrightarrow> emits (cbor_pack_map_pairs big kvs) (cbor_out (VNvl kvs))"
  "\<forall>p \<in> set kvs. cstr_wf (fst p) \<and> val_wf (snd p) \<Longrightarrow> emits (cbor_pack_pairs_loop big kvs)
     (out_all (map (\<lambda>p. out_seq (out_bytes (cbor_text (fst p))) (cbor_out (snd p))) kvs))"
proof (induction big v and big vs and big vs and big kvs and big kvs
    rule: cbor_pack_val_cbor_pack_array_vals_cbor_pack_vals_loop_cbor_pack_map_pairs_cbor_pack_pairs_loop.induct)
  case (1 big)
  then show ?case using emits_head [of big CMT_FLOAT "ucast ADDL_FLOAT_NULL"]
    by (simp add: cbor_pack_null_def cbor_head_def addl_defs)
next
  case (2 big i)
  then show ?case using emits_head [of big CMT_UINT i] by (simp add: cbor_pack_uint_def)
next
  case (3 big s)
  then show ?case by (simp add: emits_text cstr_wf_def)
next
  case (5 big b)
  then show ?case using emits_head [of big CMT_FLOAT "ucast (if b then ADDL_FLOAT_TRUE else ADDL_FLOAT_FALSE)"]
    by (cases b) (simp_all add: cbor_pack_bool_def cbor_head_def addl_defs)
next
  case (8 big data)
  then show ?case
    using emits_seq [OF emits_head [of big CMT_BYTE "word_of_nat (length data)"]
        emits_bytes [of "length data" data data]]
    by (simp add: cbor_pack_blob_def unat_of_nat_u64 bound_simps)
next
  case (11 big vals)
  then show ?case using emits_start_end(1) [of "length vals"] by (simp add: bound_simps)
next
  case (12 big)
  then show ?case using emits_ret by (simp del: cret_apply)
next
  case (13 big v vals)
  then show ?case using emits_seq [of "cbor_pack_val big v" "cbor_out v"] by simp
next
  case (14 big kvs)
  then show ?case using emits_start_end(2) [of "length kvs"] by simp
next
  case (15 big)
  then show ?case using emits_ret by (simp del: cret_apply)
next
  case (16 big name v kvs)
  have "cstr_wf name" using "16.prems" by simp
  then have "emits (cbor_pack_str big name) (out_bytes (cbor_text name))"
    by (simp add: emits_text cstr_wf_def)
  from emits_seq [OF this emits_seq [OF "16.IH"(1) "16.IH"(2)]] "16.prems"
  show ?case by (simp add: out_seq_assoc)
qed (auto intro: emits_err simp del: cerr_apply)

end

end
