(* ===== verification/Cbor_Unpack.thy ===== *)
theory Cbor_Unpack
  imports Cbor_Pack Nvl
begin

text \<open>
  The peeking and unpacking half of \<^verbatim>\<open>src/fmt_cbor.c\<close> and the inline functions of
  \<^verbatim>\<open>src/include/jeffpc/cbor.h\<close>. The allocations made while unpacking are requests to the allocator in
  the buffer's \<open>b_mem\<close>.

  The recursion of \<open>unpack_cbor_val\<close> through arrays and maps follows the input, so the functions take
  fuel; \<open>cbor_unpack_val\<close> starts with one unit more than there are bytes left, which is shown to be enough
  for every input.
\<close>

unbundle bit_operations_syntax

subsection \<open>Peeking\<close>

text \<open>The major type and the additional information of the first byte of a data item.\<close>

definition major_of :: "u8 \<Rightarrow> major_type" where
  "major_of byte =
     (let t = drop_bit 5 byte in
      if t = 0 then CMT_UINT else if t = 1 then CMT_NINT else if t = 2 then CMT_BYTE
      else if t = 3 then CMT_TEXT else if t = 4 then CMT_ARRAY else if t = 5 then CMT_MAP
      else if t = 6 then CMT_TAG else CMT_FLOAT)"

definition extra_of :: "u8 \<Rightarrow> u8" where
  "extra_of byte = byte AND 0x1f"

definition peek_class :: "u8 \<Rightarrow> val_type res" where
  "peek_class byte =
     (case major_of byte of
        CMT_UINT \<Rightarrow> Inr VT_INT
      | CMT_BYTE \<Rightarrow> Inr VT_BLOB
      | CMT_TEXT \<Rightarrow> Inr VT_STR
      | CMT_FLOAT \<Rightarrow>
          if extra_of byte = ADDL_FLOAT_FALSE \<or> extra_of byte = ADDL_FLOAT_TRUE then Inr VT_BOOL
          else if extra_of byte = ADDL_FLOAT_NULL then Inr VT_NULL
          else if extra_of byte = ADDL_FLOAT_BREAK then fail EINTR
          else fail ENOTSUP
      | CMT_ARRAY \<Rightarrow> Inr VT_ARRAY
      | CMT_MAP \<Rightarrow> Inr VT_NVL
      | CMT_NINT \<Rightarrow> fail ENOTSUP
      | CMT_TAG \<Rightarrow> fail ENOTSUP)"

definition cbor_peek_type :: "buffer \<Rightarrow> val_type res" where
  "cbor_peek_type b =
     (if buffer_remain b < 1 then fail EFAULT
      else case buffer_data_current b of
        None \<Rightarrow> Inl Fault
      | Some obj \<Rightarrow> if obj = [] then Inl Fault else peek_class (obj ! 0))"

definition cbor_peek_break :: "buffer \<Rightarrow> unit res" where
  "cbor_peek_break b =
     (case cbor_peek_type b of
        Inr _ \<Rightarrow> fail EILSEQ
      | Inl e \<Rightarrow> if e = Errno EINTR then Inr () else Inl e)"

subsection \<open>Heads of data items\<close>

definition read_cbor_type :: "(buffer, major_type \<times> u8) cfun" where
  "read_cbor_type =
     andthen (buffer_read (Some 1) 1) (\<lambda>bs.
       if bs = [] then cerr (Errno EINVAL) else cret (major_of (bs ! 0), extra_of (bs ! 0)))"

definition addl_size :: "u8 \<Rightarrow> nat res" where
  "addl_size extra =
     (if extra = ADDL_UINT8 then Inr 1 else if extra = ADDL_UINT16 then Inr 2
      else if extra = ADDL_UINT32 then Inr 4 else if extra = ADDL_UINT64 then Inr 8
      else if 23 < extra then fail EINVAL else Inr 0)"

text \<open>The value of an argument of \<open>sz\<close> bytes at the pointer.\<close>

definition addl_value :: "u8 \<Rightarrow> nat \<Rightarrow> bytes \<Rightarrow> u64" where
  "addl_value extra sz p =
     (if sz = 0 then ucast extra else if sz = 1 then ucast (be8_to_cpu_unaligned p)
      else if sz = 2 then ucast (be16_to_cpu_unaligned p)
      else if sz = 4 then ucast (be32_to_cpu_unaligned p) else be64_to_cpu_unaligned p)"

definition get_addl_bytes :: "u8 \<Rightarrow> (buffer, u64) cfun" where
  "get_addl_bytes extra b =
     (case addl_size extra of
        Inl e \<Rightarrow> (Inl e, b)
      | Inr sz \<Rightarrow>
          if buffer_remain b < sz then (fail EINVAL, b)
          else
            let p = (case buffer_data_current b of None \<Rightarrow> [] | Some obj \<Rightarrow> obj)
            in if length p < sz then (Inl Fault, b)
               else andthen (buffer_seek (int sz) SEEK_CUR) (\<lambda>_. cret (addl_value extra sz p)) b)"

definition unpack_cbor_int :: "major_type \<Rightarrow> (buffer, u64) cfun" where
  "unpack_cbor_int expected_type =
     andthen read_cbor_type (\<lambda>(type, extra).
       if expected_type \<noteq> type then cerr (Errno EILSEQ) else get_addl_bytes extra)"

definition unpack_cbor_float :: "(buffer, u8) cfun" where
  "unpack_cbor_float =
     andthen read_cbor_type (\<lambda>(type, extra).
       if type \<noteq> CMT_FLOAT then cerr (Errno EILSEQ)
       else if extra = ADDL_FLOAT_FALSE \<or> extra = ADDL_FLOAT_TRUE \<or> extra = ADDL_FLOAT_NULL \<or>
         extra = ADDL_FLOAT_BREAK then cret extra
       else cerr (Errno EILSEQ))"

text \<open>The number of elements, and whether a break has to end them.\<close>

definition unpack_cbor_arraymap_start :: "major_type \<Rightarrow> u8 \<Rightarrow> (buffer, u64 \<times> bool) cfun" where
  "unpack_cbor_arraymap_start exp_type indef =
     andthen read_cbor_type (\<lambda>(type, extra).
       if type \<noteq> exp_type then cerr (Errno EILSEQ)
       else if extra = indef then cret (0, True)
       else andthen (get_addl_bytes extra) (\<lambda>len. cret (len, False)))"

subsection \<open>Working on a copy of the buffer\<close>

text \<open>
  Each unpacking function works on a read-only static buffer over the rest of the caller's data and moves
  the caller's offset only when it succeeds.
\<close>

definition tmp_buffer :: "buffer \<Rightarrow> buffer res" where
  "tmp_buffer b =
     buffer_init_static (buffer_data_current b) (buffer_remain b) (buffer_remain b) False (b_mem b)"

definition sync_buffers :: "buffer \<Rightarrow> (buffer, unit) cfun" where
  "sync_buffers tmp = andthen (buffer_seek (int (buffer_offset tmp)) SEEK_CUR) (\<lambda>_. cret ())"

definition on_tmp :: "(buffer, 'a) cfun \<Rightarrow> (buffer, 'a) cfun" where
  "on_tmp f b =
     (case tmp_buffer b of
        Inl e \<Rightarrow> (Inl e, b)
      | Inr t \<Rightarrow>
          (case f t of
             (Inl e, t') \<Rightarrow> (Inl e, b\<lparr>b_mem := b_mem t'\<rparr>)
           | (Inr x, t') \<Rightarrow> andthen (sync_buffers t') (\<lambda>_. cret x) (b\<lparr>b_mem := b_mem t'\<rparr>)))"

definition on_bmem :: "(mem, 'a) cfun \<Rightarrow> (buffer, 'a) cfun" where
  "on_bmem f b = (case f (b_mem b) of (r, m) \<Rightarrow> (r, b\<lparr>b_mem := m\<rparr>))"

subsection \<open>Unpacking scalars\<close>

definition cbor_unpack_uint :: "(buffer, u64) cfun" where
  "cbor_unpack_uint = on_tmp (unpack_cbor_int CMT_UINT)"

definition cbor_unpack_nint :: "(buffer, u64) cfun" where
  "cbor_unpack_nint = on_tmp (unpack_cbor_int CMT_NINT)"

text \<open>
  \<open>cbor_unpack_int\<close>: first as an unsigned, then as a negative integer; the value is the signed one.
  \<open>try_int\<close> is one of the two attempts: \<open>Inl e\<close> when the number could not be read.
\<close>

definition try_int :: "(buffer, u64) cfun \<Rightarrow> u64 \<Rightarrow> (u64 \<Rightarrow> int) \<Rightarrow> buffer \<Rightarrow> error + int res \<times> buffer" where
  "try_int unpack maxval conv b =
     (case tmp_buffer b of
        Inl e \<Rightarrow> Inr (Inl e, b)
      | Inr t \<Rightarrow>
          (case unpack t of
             (Inl e, t') \<Rightarrow> Inl e
           | (Inr v, t') \<Rightarrow>
               Inr (if maxval < v then (fail EOVERFLOW, b)
                    else andthen (sync_buffers t') (\<lambda>_. cret (conv v)) b)))"

definition cbor_unpack_int :: "(buffer, int) cfun" where
  "cbor_unpack_int b =
     (case try_int cbor_unpack_uint 0x7fffffffffffffff sint b of
        Inr r \<Rightarrow> r
      | Inl (Errno _) \<Rightarrow>
          (case try_int cbor_unpack_nint 0x8000000000000000 (\<lambda>v. sint (NOT v + 1)) b of
             Inr r \<Rightarrow> r
           | Inl e \<Rightarrow> (Inl e, b))
      | Inl e \<Rightarrow> (Inl e, b))"

definition cbor_unpack_blob :: "(buffer, bytes) cfun" where
  "cbor_unpack_blob = cerr (Errno ENOTSUP)"

text \<open>The characters read; the C string they are stored in has a nul after them.\<close>

definition cbor_unpack_cstr_len :: "(buffer, bytes) cfun" where
  "cbor_unpack_cstr_len =
     on_tmp (andthen (unpack_cbor_int CMT_TEXT) (\<lambda>parsed_len.
       if SIZE_MAX \<le> unat parsed_len then cerr (Errno EOVERFLOW)
       else andthen (on_bmem (cell_alloc (unat parsed_len + 1))) (\<lambda>cap.
         andthen (buffer_read (Some cap) (unat parsed_len)) (\<lambda>bs.
           if length bs \<noteq> unat parsed_len then cerr (Errno EILSEQ) else cret bs))))"

definition cbor_unpack_str :: "(buffer, val) cfun" where
  "cbor_unpack_str =
     andthen cbor_unpack_cstr_len (\<lambda>s. on_bmem (strsym_alloc (Some (s @ [0])) VT_STR))"

definition cbor_unpack_bool :: "(buffer, bool) cfun" where
  "cbor_unpack_bool =
     on_tmp (andthen unpack_cbor_float (\<lambda>extra.
       if extra = ADDL_FLOAT_FALSE then cret False
       else if extra = ADDL_FLOAT_TRUE then cret True
       else cerr (Errno EILSEQ)))"

definition cbor_unpack_null :: "(buffer, unit) cfun" where
  "cbor_unpack_null =
     on_tmp (andthen unpack_cbor_float (\<lambda>extra.
       if extra = ADDL_FLOAT_NULL then cret () else cerr (Errno EILSEQ)))"

definition cbor_unpack_break :: "(buffer, unit) cfun" where
  "cbor_unpack_break =
     on_tmp (andthen unpack_cbor_float (\<lambda>extra.
       if extra = ADDL_FLOAT_BREAK then cret () else cerr (Errno EILSEQ)))"

definition cbor_unpack_map_start :: "(buffer, u64 \<times> bool) cfun" where
  "cbor_unpack_map_start = on_tmp (unpack_cbor_arraymap_start CMT_MAP ADDL_MAP_INDEF)"

definition cbor_unpack_map_end :: "bool \<Rightarrow> (buffer, unit) cfun" where
  "cbor_unpack_map_end end_required = (if \<not> end_required then cret () else cbor_unpack_break)"

definition cbor_unpack_array_start :: "(buffer, u64 \<times> bool) cfun" where
  "cbor_unpack_array_start = on_tmp (unpack_cbor_arraymap_start CMT_ARRAY ADDL_ARRAY_INDEF)"

definition cbor_unpack_array_end :: "bool \<Rightarrow> (buffer, unit) cfun" where
  "cbor_unpack_array_end end_required = (if \<not> end_required then cret () else cbor_unpack_break)"

subsection \<open>Unpacking values\<close>

definition unpack_cbor_null :: "(buffer, val) cfun" where
  "unpack_cbor_null = andthen cbor_unpack_null (\<lambda>_. on_bmem val_alloc_null)"

definition unpack_cbor_uint :: "(buffer, val) cfun" where
  "unpack_cbor_uint = andthen cbor_unpack_uint (\<lambda>v. on_bmem (val_alloc_int v))"

definition unpack_cbor_str :: "(buffer, val) cfun" where
  "unpack_cbor_str = cbor_unpack_str"

definition unpack_cbor_bool :: "(buffer, val) cfun" where
  "unpack_cbor_bool = andthen cbor_unpack_bool (\<lambda>b. on_bmem (val_alloc_bool b))"

definition unpack_cbor_blob :: "(buffer, val) cfun" where
  "unpack_cbor_blob = andthen cbor_unpack_blob (\<lambda>data. on_bmem (val_alloc_blob data))"

text \<open>\<open>arr[i] = elem\<close> in a block of \<open>cap\<close> bytes.\<close>

definition store_elem :: "nat \<Rightarrow> nat \<Rightarrow> (buffer, unit) cfun" where
  "store_elem cap i = (if cap < sizeof_ptr * (i + 1) then cerr Fault else cret ())"

definition nvl_set_pair_in :: "bytes \<Rightarrow> val \<Rightarrow> nvpairs \<Rightarrow> (buffer, nvpairs) cfun" where
  "nvl_set_pair_in name v nvl b =
     (case nvl_set_pair (name, v) (nvl, b_mem b) of
        (Inl e, (nvl', m)) \<Rightarrow> (Inl e, b\<lparr>b_mem := m\<rparr>)
      | (Inr _, (nvl', m)) \<Rightarrow> (Inr nvl', b\<lparr>b_mem := m\<rparr>))"

text \<open>
  The loops of \<open>unpack_cbor_array\<close> and \<open>unpack_cbor_nvl\<close>. The argument \<open>unpack\<close> is the recursive call of
  \<open>unpack_cbor_val\<close>; the loops carry the elements unpacked so far. The loops for an indefinite number of
  elements have fuel.
\<close>

primrec array_indef_loop :: "(buffer, val) cfun \<Rightarrow> nat \<Rightarrow> val list \<Rightarrow> (buffer, val list) cfun" where
  "array_indef_loop unpack 0 arr = cerr Diverged"
| "array_indef_loop unpack (Suc n) arr = (\<lambda>b.
     (case cbor_peek_break b of
        Inr _ \<Rightarrow> (Inr arr, b)
      | Inl e \<Rightarrow>
          if e \<noteq> Errno EILSEQ then (Inl e, b)
          else andthen unpack (\<lambda>elem.
            andthen (on_bmem (mem_reallocarray (length arr + 1) sizeof_ptr)) (\<lambda>cap.
              andthen (store_elem cap (length arr)) (\<lambda>_. array_indef_loop unpack n (arr @ [elem])))) b))"

text \<open>\<open>for (i = 0; i < nelem; i++)\<close>, with \<open>left\<close> the iterations left to do.\<close>

primrec array_def_loop :: "(buffer, val) cfun \<Rightarrow> nat \<Rightarrow> nat \<Rightarrow> val list \<Rightarrow> (buffer, val list) cfun" where
  "array_def_loop unpack 0 cap arr = cret arr"
| "array_def_loop unpack (Suc left) cap arr =
     andthen unpack (\<lambda>elem.
       andthen (store_elem cap (length arr)) (\<lambda>_. array_def_loop unpack left cap (arr @ [elem])))"

definition unpack_cbor_array :: "(buffer, val) cfun \<Rightarrow> nat \<Rightarrow> (buffer, val) cfun" where
  "unpack_cbor_array unpack n =
     andthen cbor_unpack_array_start (\<lambda>(nelem, end_required).
       andthen
         (if end_required then array_indef_loop unpack n []
          else andthen (on_bmem (mem_recallocarray 0 (unat nelem) sizeof_ptr)) (\<lambda>cap.
            array_def_loop unpack (unat nelem) cap []))
         (\<lambda>arr. andthen (cbor_unpack_array_end end_required) (\<lambda>_. on_bmem (val_alloc_array arr))))"

definition unpack_cbor_pair :: "(buffer, val) cfun \<Rightarrow> nvpairs \<Rightarrow> (buffer, nvpairs) cfun" where
  "unpack_cbor_pair unpack nvl =
     andthen unpack_cbor_str (\<lambda>name.
       andthen unpack (\<lambda>v.
         case name of VStr s \<Rightarrow> nvl_set_pair_in s v nvl | _ \<Rightarrow> cerr Panic))"

primrec nvl_indef_loop :: "(buffer, val) cfun \<Rightarrow> nat \<Rightarrow> nvpairs \<Rightarrow> (buffer, nvpairs) cfun" where
  "nvl_indef_loop unpack 0 nvl = cerr Diverged"
| "nvl_indef_loop unpack (Suc n) nvl = (\<lambda>b.
     (case cbor_peek_break b of
        Inr _ \<Rightarrow> (Inr nvl, b)
      | Inl e \<Rightarrow>
          if e \<noteq> Errno EILSEQ then (Inl e, b)
          else andthen (unpack_cbor_pair unpack nvl) (\<lambda>nvl'. nvl_indef_loop unpack n nvl') b))"

primrec nvl_def_loop :: "(buffer, val) cfun \<Rightarrow> nat \<Rightarrow> nvpairs \<Rightarrow> (buffer, nvpairs) cfun" where
  "nvl_def_loop unpack 0 nvl = cret nvl"
| "nvl_def_loop unpack (Suc left) nvl =
     andthen (unpack_cbor_pair unpack nvl) (\<lambda>nvl'. nvl_def_loop unpack left nvl')"

definition unpack_cbor_nvl :: "(buffer, val) cfun \<Rightarrow> nat \<Rightarrow> (buffer, val) cfun" where
  "unpack_cbor_nvl unpack n =
     andthen cbor_unpack_map_start (\<lambda>(npairs, end_required).
       andthen (on_bmem val_alloc_nvl) (\<lambda>_.
         andthen (if end_required then nvl_indef_loop unpack n [] else nvl_def_loop unpack (unat npairs) [])
           (\<lambda>nvl. andthen (cbor_unpack_map_end end_required) (\<lambda>_. cret (VNvl nvl)))))"

primrec unpack_cbor_val :: "nat \<Rightarrow> (buffer, val) cfun" where
  "unpack_cbor_val 0 = cerr Diverged"
| "unpack_cbor_val (Suc n) = (\<lambda>b.
     (case cbor_peek_type b of
        Inl e \<Rightarrow> (Inl e, b)
      | Inr type \<Rightarrow>
          (case type of
             VT_NULL \<Rightarrow> unpack_cbor_null
           | VT_INT \<Rightarrow> unpack_cbor_uint
           | VT_STR \<Rightarrow> unpack_cbor_str
           | VT_BOOL \<Rightarrow> unpack_cbor_bool
           | VT_BLOB \<Rightarrow> unpack_cbor_blob
           | VT_ARRAY \<Rightarrow> unpack_cbor_array (unpack_cbor_val n) n
           | VT_NVL \<Rightarrow> unpack_cbor_nvl (unpack_cbor_val n) n
           | _ \<Rightarrow> cerr (Errno ENOTSUP)) b))"

definition cbor_unpack_val :: "(buffer, val) cfun" where
  "cbor_unpack_val b = on_tmp (unpack_cbor_val (buffer_remain b + 1)) b"

end
