(* ===== verification/Source.thy ===== *)
theory Source
  imports Buffer
begin

text \<open>
  The interface through which the parsers use buffers: they look at the bytes between the current offset
  and the end, and move the offset. The locale \<open>byte_source\<close> says what the operations promise on a buffer
  \<open>b\<close> that stands before the bytes \<open>s\<close>; it is interpreted on every buffer that is backed by memory.
\<close>

text \<open>A buffer \<open>n\<close> bytes further on, with the allocator in another state.\<close>

definition adv :: "buffer \<Rightarrow> nat \<Rightarrow> mem \<Rightarrow> buffer" where
  "adv b n m = b\<lparr>b_off := b_off b + n, b_mem := m\<rparr>"

lemma adv_simps [simp]:
  "b_off (adv b n m) = b_off b + n" "b_mem (adv b n m) = m" "adv (adv b n m) n' m' = adv b (n + n') m'"
  "adv b 0 (b_mem b) = b" "(adv b n m)\<lparr>b_mem := m'\<rparr> = adv b n m'" "b_size (adv b n m) = b_size b"
  "b_ops (adv b n m) = b_ops b"
  by (cases b; simp add: adv_def add.assoc)+

lemma adv_mem: "b\<lparr>b_mem := m'\<rparr> = adv b 0 m'"
  by (cases b) (simp add: adv_def)

locale byte_source =
  fixes src :: "buffer \<Rightarrow> bytes \<Rightarrow> bool"
  assumes src_read: "src b s \<Longrightarrow> n \<le> cap \<Longrightarrow> n \<le> SSIZE_MAX \<Longrightarrow>
      buffer_read (Some cap) n b = (Inr (take n s), adv b (min n (length s)) (b_mem b))"
    and src_seek: "src b s \<Longrightarrow> n \<le> length s \<Longrightarrow>
      buffer_seek (int n) SEEK_CUR b = (Inr (b_off b + n), adv b n (b_mem b))"
    and src_remain: "src b s \<Longrightarrow> buffer_remain b = length s"
    and src_current: "src b s \<Longrightarrow> s \<noteq> [] \<Longrightarrow>
      \<exists>obj. buffer_data_current b = Some obj \<and> length s \<le> length obj \<and> take (length s) obj = s"
    and src_adv: "src b s \<Longrightarrow> n \<le> length s \<Longrightarrow> src (adv b n m) (drop n s)"
    and src_static: "src b s \<Longrightarrow>
      \<exists>t. buffer_init_static (buffer_data_current b) (buffer_remain b) (buffer_remain b) False (b_mem b) =
          Inr t \<and> src t s \<and> b_off t = 0 \<and> b_mem t = b_mem b"
    and src_small: "src b s \<Longrightarrow> length s \<le> SSIZE_MAX"

subsection \<open>Buffers backed by memory\<close>

definition at :: "buffer \<Rightarrow> bytes \<Rightarrow> bool" where
  "at b s \<longleftrightarrow> buf_wf b \<and> backed (b_ops b) \<and> s = drop (b_off b) (contents b)"

lemma at_facts:
  assumes "at b s"
  shows "buf_wf b" and "backed (b_ops b)" and "length s = b_size b - b_off b" and "b_off b \<le> b_size b"
    and "b_size b \<le> SSIZE_MAX"
  using assms length_contents [of b] buf_wf_sizes [of b] buf_wf_size [of b]
  by (auto simp: at_def buf_wf_off)

lemma backed_no_seek_check: "backed ops \<Longrightarrow> op_check_seek ops = None"
  by (cases ops) auto

lemma at_adv: "at b s \<Longrightarrow> n \<le> length s \<Longrightarrow> at (adv b n m) (drop n s)"
proof -
  assume a: "at b s" and n: "n \<le> length s"
  have "contents (adv b n m) = contents b" by (simp add: adv_def contents_def cong: option.case_cong)
  moreover have "buf_wf (adv b n m)"
    using at_facts [OF a] n by (auto simp: buf_wf_def adv_def split: option.splits)
  ultimately show ?thesis using a by (simp add: at_def add.commute)
qed

lemma at_current:
  assumes "at b s" and "s \<noteq> []"
  obtains d where "b_data b = Some d" and "buffer_data_current b = Some (drop (b_off b) d)"
    and "s = take (length s) (drop (b_off b) d)" and "length s \<le> length (drop (b_off b) d)"
proof -
  note f = at_facts [OF assms(1)]
  have lt: "b_off b < b_size b" using assms(2) f(3) by (cases s) auto
  then obtain d where d: "b_data b = Some d" "b_size b \<le> length d"
    using f(1,2) by (auto simp: buf_wf_def split: option.splits)
  have "s = take (length s) (drop (b_off b) d)"
    using assms(1) d lt f(3) by (simp add: at_def contents_def drop_take)
  with d lt f(3) show thesis by (intro that [of d]) (auto simp: buffer_data_current_def)
qed

interpretation backed: byte_source at
proof
  fix b s
  assume a: "at b s"
  note f = at_facts [OF a]
  show "buffer_remain b = length s" using f buffer_remain_wf by simp
  show "length s \<le> SSIZE_MAX" using f by simp
  show "at (adv b n m) (drop n s)" if "n \<le> length s" for n m using a that by (rule at_adv)
  show "\<exists>obj. buffer_data_current b = Some obj \<and> length s \<le> length obj \<and> take (length s) obj = s"
    if "s \<noteq> []"
    using at_current [OF a that] by (metis (no_types))
  show "buffer_read (Some cap) n b = (Inr (take n s), adv b (min n (length s)) (b_mem b))"
    if "n \<le> cap" "n \<le> SSIZE_MAX" for n cap
  proof -
    have p: "buffer_pread (Some cap) n (b_off b) b = (Inr (take n s), b)"
      using buffer_pread_backed [OF f(1,2) that(2,1)] a by (simp add: spec_pread_def at_def)
    have "wrap64 (b_off b + length (take n s)) = b_off b + min n (length s)"
      using f by (subst wrap64_SIZE_MAX) (auto simp: bound_simps)
    with p show ?thesis by (simp add: buffer_read_def adv_def)
  qed
  show "buffer_seek (int n) SEEK_CUR b = (Inr (b_off b + n), adv b n (b_mem b))" if n: "n \<le> length s" for n
  proof -
    have le: "b_off b + n \<le> b_size b" using n f by simp
    then have "n \<le> SSIZE_MAX" "b_off b + n \<le> SIZE_MAX" using f by (auto simp: bound_simps)
    then have "seek_newoff (int n) SEEK_CUR b = Inr (b_off b + n)"
      using le f(5) by (auto simp: seek_newoff_def bound_simps nat_less_iff)
    then show ?thesis
      using le f backed_no_seek_check by (simp add: buffer_seek_def adv_def)
  qed
  show "\<exists>t. buffer_init_static (buffer_data_current b) (buffer_remain b) (buffer_remain b) False (b_mem b) =
      Inr t \<and> at t s \<and> b_off t = 0 \<and> b_mem t = b_mem b"
  proof (cases "s = []")
    case True
    then have "buffer_data_current b = None" "buffer_remain b = 0"
      using f buffer_remain_wf [OF f(1)] by (auto simp: buffer_data_current_def split: option.splits)
    then show ?thesis
      using True by (simp add: buffer_init_static_def at_def buf_wf_def contents_def)
  next
    case False
    from a False obtain d where d: "b_data b = Some d" "buffer_data_current b = Some (drop (b_off b) d)"
      "s = take (length s) (drop (b_off b) d)" "length s \<le> length (drop (b_off b) d)"
      by (rule at_current)
    have "length d \<le> SSIZE_MAX" using f(1,2) d(1) by (simp add: buf_wf_def)
    then show ?thesis
      using d f buffer_remain_wf [OF f(1)]
      by (auto simp: buffer_init_static_def at_def buf_wf_def contents_def bound_simps)
  qed
qed

end
