(* ===== verification/Cbor_Run.thy ===== *)
theory Cbor_Run
  imports Cbor_Unpack Source
begin

text \<open>
  What CBOR unpacking does on arbitrary input, stated for the interface \<open>byte_source\<close> with a judgement
  about a function that reads from a buffer: \<open>runs k f P\<close> says that on every input of at most \<open>k\<close> bytes
  \<open>f\<close> stays within the input, ends with an errno or with a result and a number of bytes read that satisfy
  \<open>P\<close>, and changes nothing of the buffer but its offset and the allocator.
\<close>

text \<open>Does the platform have one of the array allocators that check the product for overflow?\<close>

definition array_checked :: "mem \<Rightarrow> bool" where
  "array_checked m \<longleftrightarrow> m_have_reallocarray m \<or> m_have_recallocarray m"

lemma mem_ext_checked: "mem_ext m m' \<Longrightarrow> array_checked m' = array_checked m"
  by (simp add: array_checked_def mem_ext_flags)

lemma yields_strsym_text:
  assumes "length s < SSIZE_MAX"
  shows "yields (strsym_alloc (Some (s @ [0])) VT_STR) (VStr (takeWhile (\<lambda>c. c \<noteq> 0) s))"
proof -
  let ?t = "takeWhile (\<lambda>c. c \<noteq> 0) s"
  obtain r where r: "s @ [0] = ?t @ 0 # r"
  proof (cases "dropWhile (\<lambda>c. c \<noteq> 0) s")
    case Nil
    then have "s = ?t" using takeWhile_dropWhile_id [of "\<lambda>c. c \<noteq> 0" s] by (metis append_Nil2)
    then show thesis using that [of "[]"] by simp
  next
    case (Cons c r)
    then have "c = 0" using hd_dropWhile [of "\<lambda>c. c \<noteq> 0" s] by auto
    then show thesis using that [of "r @ [0]"] Cons takeWhile_dropWhile_id [of "\<lambda>c. c \<noteq> 0" s]
      by (metis append.assoc append_Cons)
  qed
  have t: "0 \<notin> set ?t" "length ?t < SSIZE_MAX"
    using assms length_takeWhile_le [of "\<lambda>c. c \<noteq> 0" s] by (auto dest: set_takeWhileD)
  have "strnlen (s @ [0]) USE_STRLEN = Some (length ?t)"
    unfolding r by (rule strnlen_cstr) (use t in \<open>auto simp: USE_STRLEN_def bound_simps\<close>)
  from yields_strsym [OF _ _ this t(2), of VT_STR False True] show ?thesis
    by (simp add: strsym_alloc_def mk_strsym_def r)
qed

text \<open>An nvlist under construction.\<close>

definition nvl_ok :: "nvpairs \<Rightarrow> bool" where
  "nvl_ok kvs \<longleftrightarrow> nv_sorted kvs \<and> (\<forall>p \<in> set kvs. cstr_wf (fst p) \<and> val_wf (snd p))"

lemma nvl_ok_put: "nvl_ok kvs \<Longrightarrow> cstr_wf name \<Longrightarrow> val_wf v \<Longrightarrow> nvl_ok (nv_put name v kvs)"
  using nv.inv_put [of kvs name v] unfolding nvl_ok_def
  by (auto simp: nv_put_def set_pairs_add strcmp_eq split: option.splits)

lemma length_pairs_add: "length (pairs_add p kvs) = Suc (length kvs)"
  by (induction kvs) auto

lemma length_nv_put: "length (nv_put name v kvs) \<le> length kvs + 1"
  by (simp add: nv_put_def length_pairs_add split: option.splits)

lemma nvl_ok_val_wf: "nvl_ok kvs \<Longrightarrow> length kvs \<le> SSIZE_MAX \<Longrightarrow> val_wf (VNvl kvs)"
  by (simp add: nvl_ok_def nv_sorted_def)

subsection \<open>Peeking\<close>

context byte_source
begin

lemma peek_type: "src b s \<Longrightarrow> cbor_peek_type b = (case s of [] \<Rightarrow> fail EFAULT | c # _ \<Rightarrow> peek_class c)"
proof (cases s)
  case (Cons c s')
  assume b: "src b s"
  from src_current [OF b] Cons obtain obj where
    "buffer_data_current b = Some obj" "length s \<le> length obj" "take (length s) obj = s" by auto
  moreover from this Cons have "obj \<noteq> []" "obj ! 0 = c" by (cases obj; auto)+
  ultimately show ?thesis using src_remain [OF b] Cons by (simp add: cbor_peek_type_def)
qed (simp add: cbor_peek_type_def src_remain)

lemma peek_class_Errno: "peek_class c = Inl e \<Longrightarrow> \<exists>n. e = Errno n"
  by (auto simp: peek_class_def split: major_type.splits if_splits)

lemma peek_type_Errno: "src b s \<Longrightarrow> cbor_peek_type b = Inl e \<Longrightarrow> \<exists>n. e = Errno n"
  by (auto simp: peek_type peek_class_Errno split: list.splits)

lemma peek_break_Errno: "src b s \<Longrightarrow> cbor_peek_break b = Inl e \<Longrightarrow> \<exists>n. e = Errno n"
  by (auto simp: cbor_peek_break_def dest: peek_type_Errno split: sum.splits if_splits)

lemma peek_break_EILSEQ: "src b s \<Longrightarrow> cbor_peek_break b = fail EILSEQ \<Longrightarrow> s \<noteq> []"
  by (auto simp: cbor_peek_break_def peek_type)

end

subsection \<open>Running on any input\<close>

text \<open>
  \<open>chk\<close> says that only platforms with a checking array allocator are considered. The errors that can come
  out are errnos, and on the other platforms also faults.
\<close>

locale checked_source = byte_source +
  fixes chk :: bool
begin

definition tame :: "error \<Rightarrow> bool" where
  "tame e \<longleftrightarrow> (\<exists>n. e = Errno n) \<or> e = Fault \<and> \<not> chk"

lemma tame_Errno [simp]: "tame (Errno e)"
  by (simp add: tame_def)

abbreviation mem_chk :: "mem \<Rightarrow> bool" where
  "mem_chk m \<equiv> chk \<longrightarrow> array_checked m"

definition runs :: "nat \<Rightarrow> (buffer, 'a) cfun \<Rightarrow> ('a \<Rightarrow> nat \<Rightarrow> bool) \<Rightarrow> bool" where
  "runs k f P \<longleftrightarrow>
     (\<forall>b s. src b s \<and> mem_chk (b_mem b) \<and> length s \<le> k \<longrightarrow>
       (\<exists>r n m. f b = (r, adv b n m) \<and> n \<le> length s \<and> mem_ext (b_mem b) m \<and>
         (case r of Inl e \<Rightarrow> tame e | Inr x \<Rightarrow> P x n)))"

lemma runsI:
  assumes "\<And>b s. src b s \<Longrightarrow> mem_chk (b_mem b) \<Longrightarrow> length s \<le> k \<Longrightarrow>
    \<exists>r n m. f b = (r, adv b n m) \<and> n \<le> length s \<and> mem_ext (b_mem b) m \<and>
      (case r of Inl e \<Rightarrow> tame e | Inr x \<Rightarrow> P x n)"
  shows "runs k f P"
  using assms unfolding runs_def by blast

lemma runs_cases:
  assumes "runs k f P" and "src b s" and "mem_chk (b_mem b)" and "length s \<le> k"
  obtains (ok) x n m where "f b = (Inr x, adv b n m)" and "n \<le> length s" and "mem_ext (b_mem b) m" and "P x n"
    | (err) e n m where "f b = (Inl e, adv b n m)" and "n \<le> length s" and "mem_ext (b_mem b) m" and "tame e"
proof -
  from assms obtain r n m where "f b = (r, adv b n m)" "n \<le> length s" "mem_ext (b_mem b) m"
    "case r of Inl e \<Rightarrow> tame e | Inr x \<Rightarrow> P x n"
    unfolding runs_def by blast
  then show thesis by (cases r) (auto intro: that)
qed

lemma runs_mono: "runs k f P \<Longrightarrow> j \<le> k \<Longrightarrow> (\<And>x n. P x n \<Longrightarrow> n \<le> j \<Longrightarrow> Q x n) \<Longrightarrow> runs j f Q"
proof (rule runsI)
  fix b s
  assume r: "runs k f P" and j: "j \<le> k" and q: "\<And>x n. P x n \<Longrightarrow> n \<le> j \<Longrightarrow> Q x n"
    and b: "src b s" "mem_chk (b_mem b)" "length s \<le> j"
  have k: "length s \<le> k" using b j by simp
  from r b(1,2) k show "\<exists>r n m. f b = (r, adv b n m) \<and> n \<le> length s \<and> mem_ext (b_mem b) m \<and>
      (case r of Inl e \<Rightarrow> tame e | Inr x \<Rightarrow> Q x n)"
    by (cases rule: runs_cases) (use q b(3) in \<open>auto intro!: exI\<close>)
qed

lemma runs_stay:
  assumes "\<And>b s. src b s \<Longrightarrow> mem_chk (b_mem b) \<Longrightarrow> length s \<le> k \<Longrightarrow> \<exists>r. f b = (r, b) \<and> (case r of Inl e \<Rightarrow> \<exists>n. e = Errno n | Inr x \<Rightarrow> P x 0)"
  shows "runs k f P"
proof (rule runsI)
  fix b s
  assume "src b s" "mem_chk (b_mem b)" "length s \<le> k"
  from assms [OF this] obtain r where "f b = (r, b)" "case r of Inl e \<Rightarrow> \<exists>n. e = Errno n | Inr x \<Rightarrow> P x 0" by blast
  then show "\<exists>r n m. f b = (r, adv b n m) \<and> n \<le> length s \<and> mem_ext (b_mem b) m \<and>
      (case r of Inl e \<Rightarrow> tame e | Inr x \<Rightarrow> P x n)"
    by (intro exI [of _ r] exI [of _ 0] exI [of _ "b_mem b"]) (auto split: sum.splits)
qed

lemma runs_cret: "P x 0 \<Longrightarrow> runs k (cret x) P"
  by (rule runs_stay) simp

lemma runs_cerr: "runs k (cerr (Errno e)) P"
  by (rule runs_stay) simp

lemma runs_andthen:
  assumes f: "runs k f P" and g: "\<And>x n. P x n \<Longrightarrow> n \<le> k \<Longrightarrow> runs (k - n) (g x) (\<lambda>y n'. Q y (n + n'))"
  shows "runs k (andthen f g) Q"
proof (rule runsI)
  fix b s
  assume b: "src b s" "mem_chk (b_mem b)" "length s \<le> k"
  from f b show "\<exists>r n m. andthen f g b = (r, adv b n m) \<and> n \<le> length s \<and> mem_ext (b_mem b) m \<and>
      (case r of Inl e \<Rightarrow> tame e | Inr x \<Rightarrow> Q x n)"
  proof (cases rule: runs_cases)
    case (ok x n m)
    have s': "src (adv b n m) (drop n s)" "mem_chk (b_mem (adv b n m))"
      using src_adv b ok mem_ext_checked by auto
    have k': "length (drop n s) \<le> k - n" using b by simp
    from g [OF ok(4)] ok(2) b(3) have "runs (k - n) (g x) (\<lambda>y n'. Q y (n + n'))" by simp
    from this s' k' show ?thesis
    proof (cases rule: runs_cases)
      case (ok y n' m')
      with \<open>f b = _\<close> \<open>n \<le> length s\<close> \<open>mem_ext (b_mem b) m\<close> show ?thesis
        by (intro exI [of _ "Inr y"] exI [of _ "n + n'"] exI [of _ m']) (auto dest: mem_ext_trans)
    next
      case (err e n' m')
      with \<open>f b = _\<close> \<open>n \<le> length s\<close> \<open>mem_ext (b_mem b) m\<close> show ?thesis
        by (intro exI [of _ "Inl e"] exI [of _ "n + n'"] exI [of _ m']) (auto dest: mem_ext_trans)
    qed
  next
    case (err e n m)
    then show ?thesis by (auto intro!: exI)
  qed
qed

lemma runs_seq:
  "runs k f (\<lambda>x n. n = 0 \<and> P x) \<Longrightarrow> (\<And>x. P x \<Longrightarrow> runs k (g x) Q) \<Longrightarrow> runs k (andthen f g) Q"
  by (erule runs_andthen) auto

lemma runs_if: "(c \<Longrightarrow> runs k f P) \<Longrightarrow> (\<not> c \<Longrightarrow> runs k g P) \<Longrightarrow> runs k (if c then f else g) P"
  by simp

lemma runs_bmem:
  assumes "\<And>m. mem_chk m \<Longrightarrow> \<exists>r m'. f m = (r, m') \<and> mem_ext m m' \<and> (case r of Inl e \<Rightarrow> tame e | Inr x \<Rightarrow> P x 0)"
  shows "runs k (on_bmem f) P"
proof (rule runsI)
  fix b s
  assume "src b s" and c: "mem_chk (b_mem b)"
  from assms [OF c] obtain r m' where "f (b_mem b) = (r, m')" "mem_ext (b_mem b) m'"
    "case r of Inl e \<Rightarrow> tame e | Inr x \<Rightarrow> P x 0" by blast
  then show "\<exists>r n m. on_bmem f b = (r, adv b n m) \<and> n \<le> length s \<and> mem_ext (b_mem b) m \<and>
      (case r of Inl e \<Rightarrow> tame e | Inr x \<Rightarrow> P x n)"
    by (intro exI [of _ r] exI [of _ 0] exI [of _ m']) (simp add: on_bmem_def adv_mem)
qed

lemma runs_yields: "yields f x \<Longrightarrow> P x 0 \<Longrightarrow> runs k (on_bmem f) P"
proof (rule runs_bmem)
  fix m
  assume "yields f x" and P: "P x 0"
  then show "\<exists>r m'. f m = (r, m') \<and> mem_ext m m' \<and> (case r of Inl e \<Rightarrow> tame e | Inr x \<Rightarrow> P x 0)"
    by (cases rule: yields_cases [of f x m]) (auto intro!: exI)
qed

lemma runs_read_type: "runs k read_cbor_type (\<lambda>_ n. n = 1)"
  unfolding read_cbor_type_def
proof (rule runs_andthen)
  show "runs k (buffer_read (Some 1) 1) (\<lambda>bs n. n = length bs \<and> n \<le> 1)"
    by (rule runsI) (force simp: src_read bound_simps intro!: exI)
  fix bs :: bytes and n
  assume "n = length bs \<and> n \<le> 1"
  then show "runs (k - n) (if bs = [] then cerr (Errno EINVAL) else cret (major_of (bs ! 0), extra_of (bs ! 0)))
      (\<lambda>y n'. n + n' = 1)"
    by (intro runs_if runs_cerr runs_cret) (cases bs; auto)
qed

lemma addl_size_cases: "addl_size extra = fail EINVAL \<or> (\<exists>sz. addl_size extra = Inr sz \<and> sz \<le> 8)"
  by (auto simp: addl_size_def)

lemma runs_addl: "runs k (get_addl_bytes extra) (\<lambda>_ _. True)"
proof (rule runsI)
  fix b s
  assume b: "src b s" "mem_chk (b_mem b)" "length s \<le> k"
  show "\<exists>r n m. get_addl_bytes extra b = (r, adv b n m) \<and> n \<le> length s \<and> mem_ext (b_mem b) m \<and>
      (case r of Inl e \<Rightarrow> tame e | Inr x \<Rightarrow> True)"
    (is "\<exists>r n m. ?P r n m")
  proof -
    consider "addl_size extra = fail EINVAL" | sz where "addl_size extra = Inr sz" "length s < sz"
      | sz where "addl_size extra = Inr sz" "sz \<le> length s" "s \<noteq> []" | "addl_size extra = Inr 0" "s = []"
      using addl_size_cases [of extra] by (metis le_zero_eq list.size(3) not_le)
    then show ?thesis
    proof cases
      case 1
      then have "?P (fail EINVAL) 0 (b_mem b)" by (simp add: get_addl_bytes_def)
      then show ?thesis by blast
    next
      case 2
      then have "?P (fail EINVAL) 0 (b_mem b)" using src_remain [OF b(1)] by (simp add: get_addl_bytes_def)
      then show ?thesis by blast
    next
      case 3
      obtain obj where obj: "buffer_data_current b = Some obj" "length s \<le> length obj"
        using src_current [OF b(1) 3(3)] by blast
      have "?P (Inr (addl_value extra sz obj)) sz (b_mem b)"
        using 3 obj src_remain [OF b(1)] src_seek [OF b(1), of sz] by (simp add: get_addl_bytes_def)
      then show ?thesis by blast
    next
      case 4
      have "?P (Inr (ucast extra)) 0 (b_mem b)"
        using 4 src_remain [OF b(1)] src_seek [OF b(1), of 0] by (simp add: get_addl_bytes_def addl_value_def)
      then show ?thesis by blast
    qed
  qed
qed

text \<open>Working on a copy of the buffer: the position moves only on success.\<close>

lemma on_tmp_cases:
  assumes "runs k f P" and "src b s" and "mem_chk (b_mem b)" and "length s \<le> k"
  obtains (ok) x n m where "on_tmp f b = (Inr x, adv b n m)" and "n \<le> length s" and "mem_ext (b_mem b) m" and "P x n"
    | (err) e m where "on_tmp f b = (Inl e, adv b 0 m)" and "mem_ext (b_mem b) m" and "tame e"
proof -
  from src_static [OF assms(2)] obtain t where
    t: "tmp_buffer b = Inr t" "src t s" "b_off t = 0" "b_mem t = b_mem b"
    unfolding tmp_buffer_def by blast
  have "mem_chk (b_mem t)" using assms(3) t(4) by simp
  from assms(1) t(2) this assms(4) show thesis
  proof (cases rule: runs_cases)
    case (ok x n m)
    have "src (adv b 0 m) s" using src_adv [OF assms(2), of 0] by simp
    from src_seek [OF this ok(2)] ok t that(1) show thesis
      by (simp add: on_tmp_def sync_buffers_def buffer_offset_def adv_mem)
  next
    case (err e n m)
    with t that(2) show thesis by (simp add: on_tmp_def adv_mem)
  qed
qed

lemma runs_tmp: "runs k f P \<Longrightarrow> runs k (on_tmp f) P"
proof (rule runsI)
  fix b s
  assume "runs k f P" "src b s" "mem_chk (b_mem b)" "length s \<le> k"
  then show "\<exists>r n m. on_tmp f b = (r, adv b n m) \<and> n \<le> length s \<and> mem_ext (b_mem b) m \<and>
      (case r of Inl e \<Rightarrow> tame e | Inr x \<Rightarrow> P x n)"
    by (cases rule: on_tmp_cases) (force intro!: exI)+
qed

subsubsection \<open>Scalars\<close>

lemma runs_int: "runs k (unpack_cbor_int t) (\<lambda>_ n. 0 < n)"
  unfolding unpack_cbor_int_def
  by (rule runs_andthen [OF runs_read_type])
    (auto intro!: runs_cerr runs_mono [OF runs_addl order.refl] split: prod.splits)

lemma runs_float: "runs k unpack_cbor_float (\<lambda>_ n. n = 1)"
  unfolding unpack_cbor_float_def
  by (rule runs_andthen [OF runs_read_type]) (auto intro!: runs_cerr runs_cret split: prod.splits)

lemma runs_arraymap_start: "runs k (unpack_cbor_arraymap_start t indef) (\<lambda>_ n. 0 < n)"
  unfolding unpack_cbor_arraymap_start_def
  by (rule runs_andthen [OF runs_read_type])
    (auto intro!: runs_cerr runs_cret runs_andthen [OF runs_addl] split: prod.splits simp del: cret_apply cerr_apply)

lemma runs_scalars:
  "runs k cbor_unpack_uint (\<lambda>_ n. 0 < n)" "runs k cbor_unpack_nint (\<lambda>_ n. 0 < n)"
  "runs k cbor_unpack_bool (\<lambda>_ n. 0 < n)" "runs k cbor_unpack_null (\<lambda>_ n. 0 < n)"
  "runs k cbor_unpack_break (\<lambda>_ n. 0 < n)"
  "runs k cbor_unpack_map_start (\<lambda>_ n. 0 < n)" "runs k cbor_unpack_array_start (\<lambda>_ n. 0 < n)"
  unfolding cbor_unpack_uint_def cbor_unpack_nint_def cbor_unpack_bool_def cbor_unpack_null_def
    cbor_unpack_break_def cbor_unpack_map_start_def cbor_unpack_array_start_def
  by (auto intro!: runs_tmp runs_int runs_arraymap_start runs_andthen [OF runs_float] runs_cret runs_cerr
      simp del: cret_apply cerr_apply)

lemma runs_end:
  "runs k (cbor_unpack_map_end e) (\<lambda>_ _. True)" "runs k (cbor_unpack_array_end e) (\<lambda>_ _. True)"
  unfolding cbor_unpack_map_end_def cbor_unpack_array_end_def
  using runs_mono [OF runs_scalars(5) order.refl, where Q = "\<lambda>_ _. True"]
  by (auto intro!: runs_cret simp del: cret_apply)

lemma runs_cell: "runs k (on_bmem (cell_alloc n)) (\<lambda>cap i. i = 0 \<and> cap = n \<and> n \<le> SSIZE_MAX)"
  by (rule runs_bmem) (auto simp: cell_alloc_def mem_request_def mem_ext_def)

lemma runs_read:
  "n \<le> cap \<Longrightarrow> n \<le> SSIZE_MAX \<Longrightarrow> runs k (buffer_read (Some cap) n) (\<lambda>bs i. i = length bs \<and> length bs \<le> n)"
  by (rule runsI) (force simp: src_read intro!: exI)

lemma runs_cstr_len: "runs k cbor_unpack_cstr_len (\<lambda>s n. 0 < n \<and> length s < SSIZE_MAX)"
  unfolding cbor_unpack_cstr_len_def
proof (rule runs_tmp, rule runs_andthen [OF runs_int])
  fix len :: u64 and n :: nat
  assume n: "0 < n" "n \<le> k"
  have "runs (k - n) (andthen (on_bmem (cell_alloc (unat len + 1))) (\<lambda>cap.
      andthen (buffer_read (Some cap) (unat len)) (\<lambda>bs.
        if length bs \<noteq> unat len then cerr (Errno EILSEQ) else cret bs)))
      (\<lambda>s n'. 0 < n + n' \<and> length s < SSIZE_MAX)"
    using n
    by (intro runs_andthen [OF runs_cell])
      (auto intro!: runs_andthen [OF runs_read] runs_cerr runs_cret simp del: cret_apply cerr_apply)
  then show "runs (k - n) (if SIZE_MAX \<le> unat len then cerr (Errno EOVERFLOW)
      else andthen (on_bmem (cell_alloc (unat len + 1))) (\<lambda>cap.
        andthen (buffer_read (Some cap) (unat len)) (\<lambda>bs.
          if length bs \<noteq> unat len then cerr (Errno EILSEQ) else cret bs)))
      (\<lambda>s n'. 0 < n + n' \<and> length s < SSIZE_MAX)"
    by (auto intro: runs_cerr simp del: cerr_apply)
qed

lemma runs_str: "runs k cbor_unpack_str (\<lambda>v n. 0 < n \<and> (\<exists>s. v = VStr s \<and> cstr_wf s))"
  unfolding cbor_unpack_str_def
proof (rule runs_andthen [OF runs_cstr_len])
  fix s :: bytes and n :: nat
  assume s: "0 < n \<and> length s < SSIZE_MAX"
  have "cstr_wf (takeWhile (\<lambda>c. c \<noteq> 0) s)"
    using s length_takeWhile_le [of "\<lambda>c. c \<noteq> 0" s] by (auto simp: cstr_wf_def dest: set_takeWhileD)
  with s show "runs (k - n) (on_bmem (strsym_alloc (Some (s @ [0])) VT_STR))
      (\<lambda>v n'. 0 < n + n' \<and> (\<exists>s. v = VStr s \<and> cstr_wf s))"
    using yields_strsym_text by (intro runs_yields) auto
qed

subsubsection \<open>Arrays and maps\<close>

text \<open>What unpacking a value gives: it reads at least one byte, and the value is well formed.\<close>

abbreviation unpacks :: "nat \<Rightarrow> (buffer, val) cfun \<Rightarrow> bool" where
  "unpacks k f \<equiv> runs k f (\<lambda>v n. 0 < n \<and> val_wf v)"

lemma unpacks_mono: "unpacks k f \<Longrightarrow> j \<le> k \<Longrightarrow> unpacks j f"
  by (rule runs_mono)

lemma unpacks_scalars:
  "unpacks k unpack_cbor_null" "unpacks k unpack_cbor_uint" "unpacks k unpack_cbor_str"
  "unpacks k unpack_cbor_bool" "unpacks k unpack_cbor_blob"
  unfolding unpack_cbor_null_def unpack_cbor_uint_def unpack_cbor_str_def unpack_cbor_bool_def
    unpack_cbor_blob_def cbor_unpack_blob_def
  by (auto intro!: runs_andthen [OF runs_scalars(1)] runs_andthen [OF runs_scalars(3)]
      runs_andthen [OF runs_scalars(4)] runs_andthen [OF runs_cerr, where P = "\<lambda>_ _. False"]
      runs_mono [OF runs_str] runs_yields [OF yields_val_alloc(4)] runs_yields [OF yields_val_alloc(1)]
      runs_yields [OF yields_val_alloc(3)] simp del: cerr_apply)

lemma runs_store:
  assumes "chk \<Longrightarrow> sizeof_ptr * (i + 1) \<le> cap"
  shows "runs k (store_elem cap i) (\<lambda>_ n. n = 0 \<and> sizeof_ptr * (i + 1) \<le> cap)"
proof (rule runsI)
  fix b s
  assume "src b s"
  show "\<exists>r n m. store_elem cap i b = (r, adv b n m) \<and> n \<le> length s \<and> mem_ext (b_mem b) m \<and>
      (case r of Inl e \<Rightarrow> tame e | Inr _ \<Rightarrow> n = 0 \<and> sizeof_ptr * (i + 1) \<le> cap)"
    using assms
    by (intro exI [of _ "fst (store_elem cap i b)"] exI [of _ 0] exI [of _ "b_mem b"])
      (auto simp: store_elem_def tame_def)
qed

lemma runs_realloc:
  assumes "i < 2 ^ 60"
  shows "runs k (on_bmem (mem_reallocarray (i + 1) sizeof_ptr)) (\<lambda>cap n. n = 0 \<and> cap = sizeof_ptr * (i + 1) \<and> cap \<le> SSIZE_MAX)"
proof (rule runs_bmem)
  fix m
  have "wrap64 ((i + 1) * sizeof_ptr) = (i + 1) * sizeof_ptr"
    using assms by (intro wrap64_id) (simp add: sizeof_ptr_def)
  then show "\<exists>r m'. mem_reallocarray (i + 1) sizeof_ptr m = (r, m') \<and> mem_ext m m' \<and>
      (case r of Inl e \<Rightarrow> tame e | Inr cap \<Rightarrow> 0 = (0 :: nat) \<and> cap = sizeof_ptr * (i + 1) \<and> cap \<le> SSIZE_MAX)"
    by (auto simp: mem_reallocarray_def cell_alloc_def mem_request_def mem_ext_def mult.commute)
qed

text \<open>An array under construction: its elements are well formed and it fits in memory.\<close>

definition arr_ok :: "val list \<Rightarrow> bool" where
  "arr_ok arr \<longleftrightarrow> list_all val_wf arr \<and> sizeof_ptr * length arr \<le> SSIZE_MAX"

lemma runs_until_break:
  assumes acc: "P acc 0" and step: "runs k step P"
  shows "runs k (\<lambda>b. case cbor_peek_break b of Inr _ \<Rightarrow> (Inr acc, b)
    | Inl e \<Rightarrow> if e \<noteq> Errno EILSEQ then (Inl e, b) else step b) P"
proof (rule runsI)
  fix b s
  assume b: "src b s" "mem_chk (b_mem b)" "length s \<le> k"
  let ?goal = "\<lambda>f. \<exists>r i m. f = (r, adv b i m) \<and> i \<le> length s \<and> mem_ext (b_mem b) m \<and>
      (case r of Inl e \<Rightarrow> tame e | Inr x \<Rightarrow> P x i)"
  have stay: "?goal (r, b)" if "case r of Inl e \<Rightarrow> \<exists>n. e = Errno n | Inr x \<Rightarrow> P x 0" for r
    using that by (intro exI [of _ r] exI [of _ 0] exI [of _ "b_mem b"]) (auto split: sum.splits)
  from step b have "?goal (step b)" unfolding runs_def by blast
  then show "?goal (case cbor_peek_break b of Inr _ \<Rightarrow> (Inr acc, b)
      | Inl e \<Rightarrow> if e \<noteq> Errno EILSEQ then (Inl e, b) else step b)"
    using stay [of "Inr acc"] acc stay [of "Inl e" for e] peek_break_Errno [OF b(1)]
    by (cases "cbor_peek_break b") auto
qed

lemma runs_array_indef:
  assumes "unpacks k unpack" and "k < n" and "arr_ok arr"
  shows "runs k (array_indef_loop unpack n arr) (\<lambda>arr' _. arr_ok arr')"
  using assms
proof (induction n arbitrary: k arr)
  case (Suc n)
  have len: "length arr < 2 ^ 60"
    using Suc.prems(3) by (simp add: arr_ok_def sizeof_ptr_def bound_simps)
  have store: "runs j (andthen (store_elem cap (length arr)) (\<lambda>_. array_indef_loop unpack n (arr @ [elem])))
      (\<lambda>arr' _. arr_ok arr')"
    if "j < k" "val_wf elem" "cap = sizeof_ptr * (length arr + 1) \<and> cap \<le> SSIZE_MAX" for j elem cap
    using Suc.prems that unpacks_mono [of k unpack j]
    by (intro runs_seq [OF runs_store] Suc.IH) (auto simp: arr_ok_def)
  have "runs k (andthen unpack (\<lambda>elem.
        andthen (on_bmem (mem_reallocarray (length arr + 1) sizeof_ptr)) (\<lambda>cap.
          andthen (store_elem cap (length arr)) (\<lambda>_. array_indef_loop unpack n (arr @ [elem])))))
      (\<lambda>arr' _. arr_ok arr')"
    by (rule runs_andthen [OF Suc.prems(1)], rule runs_seq [OF runs_realloc [OF len]], rule store) auto
  then show ?case using Suc.prems(3) by (auto intro: runs_until_break)
qed simp

lemma runs_recalloc:
  "runs k (on_bmem (mem_recallocarray 0 n sizeof_ptr))
    (\<lambda>cap i. i = 0 \<and> cap \<le> SSIZE_MAX \<and> (chk \<longrightarrow> cap = sizeof_ptr * n))"
proof (rule runs_bmem)
  fix m
  assume "mem_chk m"
  moreover have "wrap64 (sizeof_ptr * n) \<le> sizeof_ptr * n" by (simp add: wrap64_def)
  ultimately show "\<exists>r m'. mem_recallocarray 0 n sizeof_ptr m = (r, m') \<and> mem_ext m m' \<and>
      (case r of Inl e \<Rightarrow> tame e | Inr cap \<Rightarrow> (0 :: nat) = 0 \<and> cap \<le> SSIZE_MAX \<and> (chk \<longrightarrow> cap = sizeof_ptr * n))"
    by (auto simp: mem_recallocarray_fresh mem_reallocarray_def cell_alloc_def mem_request_def mem_ext_def
        array_checked_def andthen_def mult.commute)
qed

lemma runs_array_def:
  assumes "unpacks k unpack" and "chk \<Longrightarrow> sizeof_ptr * (length arr + left) \<le> cap" and "cap \<le> SSIZE_MAX"
    and "arr_ok arr"
  shows "runs k (array_def_loop unpack left cap arr) (\<lambda>arr' _. arr_ok arr')"
  using assms
proof (induction left arbitrary: k arr)
  case (Suc left)
  have store: "runs j (andthen (store_elem cap (length arr)) (\<lambda>_. array_def_loop unpack left cap (arr @ [elem])))
      (\<lambda>arr' _. arr_ok arr')" if "j \<le> k" "val_wf elem" for j elem
  proof (rule runs_seq [OF runs_store])
    show "sizeof_ptr * (length arr + 1) \<le> cap" if chk
      using Suc.prems(2) [OF that] by (simp add: algebra_simps)
    show "runs j (array_def_loop unpack left cap (arr @ [elem])) (\<lambda>arr' _. arr_ok arr')"
      if "sizeof_ptr * (length arr + 1) \<le> cap"
      using Suc.prems \<open>j \<le> k\<close> \<open>val_wf elem\<close> that unpacks_mono [of k unpack j]
      by (intro Suc.IH) (auto simp: arr_ok_def)
  qed
  show ?case by (auto intro!: runs_andthen [OF Suc.prems(1)] store)
qed (simp add: runs_cret del: cret_apply)

lemma unpacks_array:
  assumes "\<And>j. j < k \<Longrightarrow> unpacks j unpack" and "k \<le> n"
  shows "unpacks k (unpack_cbor_array unpack n)"
  unfolding unpack_cbor_array_def
proof (rule runs_andthen [OF runs_scalars(7)], clarify)
  fix nelem :: u64 and end_required i
  assume i: "0 < i" "i \<le> k"
  have unpack: "unpacks (k - i) unpack" using i assms(1) by simp
  have nil: "arr_ok []" by (simp add: arr_ok_def)
  have def_loop: "runs (k - i) (array_def_loop unpack (unat nelem) cap []) (\<lambda>arr _. arr_ok arr)"
    if "cap \<le> SSIZE_MAX \<and> (chk \<longrightarrow> cap = sizeof_ptr * unat nelem)" for cap
    using that nil by (intro runs_array_def [OF unpack]) auto
  have body: "runs (k - i) (if end_required then array_indef_loop unpack n []
      else andthen (on_bmem (mem_recallocarray 0 (unat nelem) sizeof_ptr)) (\<lambda>cap.
        array_def_loop unpack (unat nelem) cap [])) (\<lambda>arr _. arr_ok arr)"
    using i assms(2)
    by (intro runs_if runs_array_indef [OF unpack _ nil] runs_seq [OF runs_recalloc] def_loop) auto
  have fin: "runs j (andthen (cbor_unpack_array_end end_required) (\<lambda>_. on_bmem (val_alloc_array arr)))
      (\<lambda>v i'. 0 < i + d + i' \<and> val_wf v)" if "arr_ok arr" for arr j d
    using that i
    by (intro runs_andthen [OF runs_end(2)] runs_yields [OF yields_val_alloc_array])
      (auto simp: arr_ok_def sizeof_ptr_def list_all_iff bound_simps)
  show "runs (k - i) (andthen (if end_required then array_indef_loop unpack n []
        else andthen (on_bmem (mem_recallocarray 0 (unat nelem) sizeof_ptr)) (\<lambda>cap.
          array_def_loop unpack (unat nelem) cap []))
      (\<lambda>arr. andthen (cbor_unpack_array_end end_required) (\<lambda>_. on_bmem (val_alloc_array arr))))
      (\<lambda>v i'. 0 < i + i' \<and> val_wf v)"
    by (rule runs_andthen [OF body]) (use fin in \<open>simp add: add.assoc\<close>)
qed

text \<open>Pairs: the list grows by at most one pair for each byte read.\<close>

abbreviation grows :: "nat \<Rightarrow> (buffer, nvpairs) cfun \<Rightarrow> nvpairs \<Rightarrow> bool" where
  "grows k f kvs \<equiv> runs k f (\<lambda>kvs' n. nvl_ok kvs' \<and> length kvs' \<le> length kvs + n)"

lemma runs_set_pair:
  assumes "nvl_ok kvs" and "cstr_wf name" and "val_wf v"
  shows "runs k (nvl_set_pair_in name v kvs) (\<lambda>kvs' n. n = 0 \<and> nvl_ok kvs' \<and> length kvs' \<le> length kvs + 1)"
proof (rule runsI)
  fix b s
  assume "src b s"
  show "\<exists>r n m. nvl_set_pair_in name v kvs b = (r, adv b n m) \<and> n \<le> length s \<and> mem_ext (b_mem b) m \<and>
      (case r of Inl e \<Rightarrow> tame e | Inr kvs' \<Rightarrow> n = 0 \<and> nvl_ok kvs' \<and> length kvs' \<le> length kvs + 1)"
  proof (cases rule: do_nvl_set_named [of name v kvs "b_mem b"])
    case (ok m')
    then show ?thesis using nvl_ok_put [OF assms] length_nv_put [of name v kvs]
      by (intro exI [of _ "Inr (nv_put name v kvs)"] exI [of _ 0] exI [of _ m'])
        (simp add: nvl_set_pair_in_def nvl_set_pair_def adv_mem)
  next
    case (nomem m')
    then show ?thesis
      by (intro exI [of _ "fail ENOMEM"] exI [of _ 0] exI [of _ m'])
        (simp add: nvl_set_pair_in_def nvl_set_pair_def adv_mem)
  qed
qed

lemma runs_pair:
  assumes "\<And>j. j < k \<Longrightarrow> unpacks j unpack" and "nvl_ok kvs"
  shows "runs k (unpack_cbor_pair unpack kvs)
    (\<lambda>kvs' n. 0 < n \<and> nvl_ok kvs' \<and> length kvs' \<le> length kvs + n)"
  unfolding unpack_cbor_pair_def unpack_cbor_str_def
proof (rule runs_andthen [OF runs_str], clarify)
  fix s i
  assume i: "0 < i" "i \<le> k" and s: "cstr_wf s"
  have unpack: "unpacks (k - i) unpack" using i assms(1) by simp
  have "runs j (nvl_set_pair_in s v kvs)
      (\<lambda>kvs' n. 0 < i + (d + n) \<and> nvl_ok kvs' \<and> length kvs' \<le> length kvs + (i + (d + n)))"
    if "val_wf v" for j d v
    using runs_mono [OF runs_set_pair [OF assms(2) s that] order.refl] i by auto
  then show "runs (k - i) (andthen unpack (\<lambda>v. case VStr s of VStr s \<Rightarrow> nvl_set_pair_in s v kvs | _ \<Rightarrow> cerr Panic))
      (\<lambda>kvs' n. 0 < i + n \<and> nvl_ok kvs' \<and> length kvs' \<le> length kvs + (i + n))"
    by (simp only: val.case) (rule runs_andthen [OF unpack], blast)
qed

lemma grows_then:
  assumes "\<And>j. j < k \<Longrightarrow> unpacks j unpack" and "nvl_ok kvs"
    and "\<And>j kvs'. j < k \<Longrightarrow> nvl_ok kvs' \<Longrightarrow> grows j (g kvs') kvs'"
  shows "grows k (andthen (unpack_cbor_pair unpack kvs) g) kvs"
proof (rule runs_andthen [OF runs_pair [OF assms(1,2)]])
  fix kvs' n
  assume "0 < n \<and> nvl_ok kvs' \<and> length kvs' \<le> length kvs + n" "n \<le> k"
  then show "runs (k - n) (g kvs') (\<lambda>kvs'' n'. nvl_ok kvs'' \<and> length kvs'' \<le> length kvs + (n + n'))"
    by (intro runs_mono [OF assms(3) [of "k - n" kvs'] order.refl]) auto
qed

lemma grows_indef:
  assumes "\<And>j. j < k \<Longrightarrow> unpacks j unpack" and "k < n" and "nvl_ok kvs"
  shows "grows k (nvl_indef_loop unpack n kvs) kvs"
  using assms
proof (induction n arbitrary: k kvs)
  case (Suc n)
  have "grows k (andthen (unpack_cbor_pair unpack kvs) (nvl_indef_loop unpack n)) kvs"
    by (rule grows_then) (use Suc in auto)
  then show ?case using Suc.prems(3) by (auto intro: runs_until_break)
qed simp

lemma grows_def:
  assumes "\<And>j. j < k \<Longrightarrow> unpacks j unpack" and "nvl_ok kvs"
  shows "grows k (nvl_def_loop unpack left kvs) kvs"
  using assms
proof (induction left arbitrary: k kvs)
  case (Suc left)
  have "grows k (andthen (unpack_cbor_pair unpack kvs) (nvl_def_loop unpack left)) kvs"
    by (rule grows_then) (use Suc in auto)
  then show ?case by simp
qed (simp add: runs_cret del: cret_apply)

lemma unpacks_nvl:
  assumes "\<And>j. j < k \<Longrightarrow> unpacks j unpack" and "k \<le> n" and "k \<le> SSIZE_MAX"
  shows "unpacks k (unpack_cbor_nvl unpack n)"
  unfolding unpack_cbor_nvl_def
proof (rule runs_andthen [OF runs_scalars(6)], clarify)
  fix npairs :: u64 and end_required i
  assume i: "0 < i" "i \<le> k"
  have unpack: "unpacks j unpack" if "j < k - i" for j using that assms(1) by simp
  have nil: "nvl_ok []" by (simp add: nvl_ok_def nv_sorted_def)
  have body: "grows (k - i)
      (if end_required then nvl_indef_loop unpack n [] else nvl_def_loop unpack (unat npairs) []) []"
    using i assms(2) by (intro runs_if grows_indef [OF unpack _ nil] grows_def [OF unpack nil]) auto
  have fin: "runs j (andthen (cbor_unpack_map_end end_required) (\<lambda>_. cret (VNvl kvs)))
      (\<lambda>v i'. 0 < i + (d + i') \<and> val_wf v)" if "nvl_ok kvs" "length kvs \<le> SSIZE_MAX" for kvs j d
    using i nvl_ok_val_wf [OF that] by (auto intro!: runs_andthen [OF runs_end(1)] runs_cret simp del: cret_apply)
  have "runs (k - i) (andthen (if end_required then nvl_indef_loop unpack n [] else nvl_def_loop unpack (unat npairs) [])
      (\<lambda>nvl. andthen (cbor_unpack_map_end end_required) (\<lambda>_. cret (VNvl nvl))))
      (\<lambda>v i'. 0 < i + i' \<and> val_wf v)"
    by (rule runs_andthen [OF body]) (use fin assms(3) in auto)
  then show "runs (k - i) (andthen (on_bmem val_alloc_nvl) (\<lambda>_.
        andthen (if end_required then nvl_indef_loop unpack n [] else nvl_def_loop unpack (unat npairs) [])
          (\<lambda>nvl. andthen (cbor_unpack_map_end end_required) (\<lambda>_. cret (VNvl nvl)))))
      (\<lambda>v i'. 0 < i + i' \<and> val_wf v)"
    by (intro runs_seq [OF runs_yields [OF yields_val_alloc(7)], of "\<lambda>_. True"]) auto
qed

text \<open>The fuel suffices when there is more of it than input.\<close>

lemma unpacks_val: "k < n \<Longrightarrow> k \<le> SSIZE_MAX \<Longrightarrow> unpacks k (unpack_cbor_val n)"
proof (induction n arbitrary: k)
  case (Suc n)
  note scalars = unpacks_scalars [of k]
  have sub: "unpacks j (unpack_cbor_val n)" if "j < k" for j using Suc that by simp
  have "unpacks k (case t of VT_NULL \<Rightarrow> unpack_cbor_null | VT_INT \<Rightarrow> unpack_cbor_uint
      | VT_STR \<Rightarrow> unpack_cbor_str | VT_BOOL \<Rightarrow> unpack_cbor_bool | VT_BLOB \<Rightarrow> unpack_cbor_blob
      | VT_ARRAY \<Rightarrow> unpack_cbor_array (unpack_cbor_val n) n | VT_NVL \<Rightarrow> unpack_cbor_nvl (unpack_cbor_val n) n
      | _ \<Rightarrow> cerr (Errno ENOTSUP))" for t
    using scalars unpacks_array [of k "unpack_cbor_val n" n, OF sub]
      unpacks_nvl [of k "unpack_cbor_val n" n, OF sub] Suc.prems
    by (cases t) (auto intro: runs_cerr simp del: cerr_apply)
  note arms = this [unfolded runs_def, rule_format]
  show ?case
  proof (rule runsI)
    fix b s
    assume b: "src b s" "mem_chk (b_mem b)" "length s \<le> k"
    show "\<exists>r i m. unpack_cbor_val (Suc n) b = (r, adv b i m) \<and> i \<le> length s \<and> mem_ext (b_mem b) m \<and>
        (case r of Inl e \<Rightarrow> tame e | Inr v \<Rightarrow> 0 < i \<and> val_wf v)"
    proof (cases "cbor_peek_type b")
      case (Inl e)
      with peek_type_Errno [OF b(1)] show ?thesis
        by (intro exI [of _ "Inl e"] exI [of _ 0] exI [of _ "b_mem b"]) auto
    next
      case (Inr t)
      with arms [of b s t] b show ?thesis by simp
    qed
  qed
qed simp

lemma cbor_unpack_val_cases:
  assumes "src b s" and "mem_chk (b_mem b)"
  obtains (ok) v n m where "cbor_unpack_val b = (Inr v, adv b n m)" and "0 < n" and "n \<le> length s"
      and "mem_ext (b_mem b) m" and "val_wf v"
    | (err) e m where "cbor_unpack_val b = (Inl e, adv b 0 m)" and "mem_ext (b_mem b) m" and "tame e"
proof -
  have "unpacks (length s) (unpack_cbor_val (length s + 1))"
    using src_small [OF assms(1)] by (intro unpacks_val) auto
  from this assms order.refl show thesis
    by (cases rule: on_tmp_cases) (auto simp: cbor_unpack_val_def src_remain [OF assms(1)] intro: that)
qed

end

interpretation checked: checked_source at chk for chk
  by unfold_locales

end
