(* ===== verification/Cbor.thy ===== *)
theory Cbor
  imports Cbor_Run
begin

text \<open>
  CBOR unpacking undoes packing. The judgement \<open>parses f bs x\<close> of the interface \<open>byte_source\<close> says that
  \<open>f\<close> reads exactly the bytes \<open>bs\<close>, whatever follows, and gives \<open>x\<close>. The properties of the CBOR code
  stand at the end.
\<close>

unbundle bit_operations_syntax

subsection \<open>Undoing the packing\<close>

lemma major_extra:
  assumes "unat a < 32"
  shows "major_of (push_bit 5 (major_num t) OR a) = t" and "extra_of (push_bit 5 (major_num t) OR a) = a"
proof -
  have "drop_bit 5 (push_bit 5 (major_num t) OR a) = drop_bit 5 (push_bit 5 (major_num t))"
    using word_high_bits [of a 5] assms by (intro bit_word_eqI) (simp add: bit_simps)
  moreover have "drop_bit 5 (push_bit 5 (major_num t)) = major_num t" by (cases t) simp_all
  ultimately show "major_of (push_bit 5 (major_num t) OR a) = t"
    by (cases t) (simp_all add: major_of_def)
  show "extra_of (push_bit 5 (major_num t) OR a) = a"
    using word_high_bits [of a 5] assms unfolding extra_of_def
    by (intro word_eqI_upt) (simp add: upt_8 bit_simps)
qed

text \<open>The argument of a head is what its additional bytes stand for.\<close>

lemma head_parts:
  assumes "n < 2 ^ 64"
  obtains a bs where "cbor_head t n = (push_bit 5 t OR a) # bs" and "unat a < 31"
    and "addl_size a = Inr (length bs)" and "\<And>r. addl_value a (length bs) (bs @ r) = word_of_nat n"
proof -
  have cast: "ucast (word_of_nat k :: 'a::len word) = (word_of_nat k :: u64)" if "k < 2 ^ LENGTH('a)" for k
    using that by (simp add: word_unat_eq_iff unsigned_ucast_eq unsigned_of_nat take_bit_nat_eq_self)
  consider "n \<le> 23" | "23 < n" "n \<le> 0xff" | "0xff < n" "n \<le> 0xffff" | "0xffff < n" "n \<le> 0xffffffff"
    | "0xffffffff < n" by linarith
  then show thesis
  proof cases
    case 1
    then have n: "unat (word_of_nat n :: u8) = n" by (intro unat_of_nat_u8) simp
    show ?thesis
      by (rule that [of "word_of_nat n" "[]"])
        (use 1 n in \<open>simp_all add: cbor_head_def addl_size_def addl_value_def addl_defs cast word_less_nat_alt
          word_unat_eq_iff del: unsigned_of_nat\<close>)
  next
    case 2
    then show ?thesis
      by (intro that [of 24 "cpu8_to_be_unaligned (word_of_nat n)"])
        (simp_all add: cbor_head_def addl_size_def addl_value_def addl_defs cast)
  next
    case 3
    then show ?thesis
      by (intro that [of 25 "cpu16_to_be_unaligned (word_of_nat n)"])
        (simp_all add: cbor_head_def addl_size_def addl_value_def addl_defs cast)
  next
    case 4
    then show ?thesis
      by (intro that [of 26 "cpu32_to_be_unaligned (word_of_nat n)"])
        (simp_all add: cbor_head_def addl_size_def addl_value_def addl_defs cast)
  next
    case 5
    then show ?thesis
      by (intro that [of 27 "cpu64_to_be_unaligned (word_of_nat n)"])
        (simp_all add: cbor_head_def addl_size_def addl_value_def addl_defs cast)
  qed
qed

text \<open>Values that packing and unpacking both support, and the bytes of their encoding.\<close>

fun cbor_plain :: "val \<Rightarrow> bool" where
  "cbor_plain (VArray vs) = (\<forall>v \<in> set vs. cbor_plain v)"
| "cbor_plain (VNvl kvs) = (\<forall>p \<in> set kvs. cbor_plain (snd p))"
| "cbor_plain (VSym s) = False"
| "cbor_plain (VCons h t) = False"
| "cbor_plain (VChar c) = False"
| "cbor_plain (VBlob bs) = False"
| "cbor_plain _ = True"

fun cbor_bytes :: "val \<Rightarrow> bytes" where
  "cbor_bytes VNull = [0xf6]"
| "cbor_bytes (VInt i) = cbor_head 0 (unat i)"
| "cbor_bytes (VStr s) = cbor_text s"
| "cbor_bytes (VBool b) = [if b then 0xf5 else 0xf4]"
| "cbor_bytes (VArray vs) = cbor_head 4 (length vs) @ concat (map cbor_bytes vs)"
| "cbor_bytes (VNvl kvs) =
     cbor_head 5 (length kvs) @ concat (map (\<lambda>p. cbor_text (fst p) @ cbor_bytes (snd p)) kvs)"
| "cbor_bytes _ = []"

lemma out_all_bytes: "\<forall>x \<in> set xs. f x = out_bytes (g x) \<Longrightarrow> out_all (map f xs) = out_bytes (concat (map g xs))"
  by (induction xs) auto

lemma cbor_out_plain: "cbor_plain v \<Longrightarrow> cbor_out v = out_bytes (cbor_bytes v)"
proof (induction v rule: cbor_plain.induct)
  case (1 vs)
  then have "out_all (map cbor_out vs) = out_bytes (concat (map cbor_bytes vs))"
    by (intro out_all_bytes) simp
  then show ?case by simp
next
  case (2 kvs)
  then have "out_all (map (\<lambda>p. out_seq (out_bytes (cbor_text (fst p))) (cbor_out (snd p))) kvs) =
      out_bytes (concat (map (\<lambda>p. cbor_text (fst p) @ cbor_bytes (snd p)) kvs))"
    by (intro out_all_bytes) auto
  then show ?case by simp
qed auto

lemma head_major:
  assumes "n < 2 ^ 64"
  obtains c bs where "cbor_head (major_num t) n = c # bs" and "major_of c = t"
proof -
  obtain a bs where "cbor_head (major_num t) n = (push_bit 5 (major_num t) OR a) # bs" "unat a < 31"
    using head_parts [OF assms] by metis
  then show thesis using major_extra(1) [of a t] that by simp
qed

lemma yields_recalloc: "n \<le> SSIZE_MAX div 8 \<Longrightarrow> yields (mem_recallocarray 0 n sizeof_ptr) (sizeof_ptr * n)"
proof (rule yieldsI)
  fix m
  assume "n \<le> SSIZE_MAX div 8"
  then have "sizeof_ptr * n \<le> SSIZE_MAX" "sizeof_ptr * n \<le> SIZE_MAX" "wrap64 (sizeof_ptr * n) = sizeof_ptr * n"
    by (auto simp: sizeof_ptr_def bound_simps)
  then show "(\<exists>m'. mem_recallocarray 0 n sizeof_ptr m = (Inr (sizeof_ptr * n), m') \<and> mem_ext m m') \<or>
      (\<exists>m'. mem_recallocarray 0 n sizeof_ptr m = (fail ENOMEM, m') \<and> mem_ext m m' \<and> \<not> mem_plenty m)"
    by (auto simp: mem_recallocarray_fresh mem_reallocarray_def cell_alloc_def mem_request_def mem_ext_def
        mem_plenty_def andthen_def mult.commute)
qed

context byte_source
begin

definition parses :: "(buffer, 'a) cfun \<Rightarrow> bytes \<Rightarrow> 'a \<Rightarrow> bool" where
  "parses f bs x \<longleftrightarrow>
     (\<forall>b s. src b (bs @ s) \<and> mem_plenty (b_mem b) \<longrightarrow>
       (\<exists>m. f b = (Inr x, adv b (length bs) m) \<and> mem_ext (b_mem b) m))"

lemma parsesI:
  assumes "\<And>b s. src b (bs @ s) \<Longrightarrow> mem_plenty (b_mem b) \<Longrightarrow>
    \<exists>m. f b = (Inr x, adv b (length bs) m) \<and> mem_ext (b_mem b) m"
  shows "parses f bs x"
  using assms unfolding parses_def by blast

lemma parsesE:
  assumes "parses f bs x" and "src b (bs @ s)" and "mem_plenty (b_mem b)"
  obtains m where "f b = (Inr x, adv b (length bs) m)" and "mem_ext (b_mem b) m"
  using assms unfolding parses_def by blast

lemma parses_cret: "parses (cret x) [] x"
proof (rule parsesI)
  fix b s
  show "\<exists>m. cret x b = (Inr x, adv b (length []) m) \<and> mem_ext (b_mem b) m"
    by (rule exI [of _ "b_mem b"]) simp
qed

lemma parses_ret: "f = cret x \<Longrightarrow> parses f [] x"
  by (simp only: parses_cret)

lemma parses_andthen:
  assumes f: "parses f bs x" and g: "parses (g x) cs y" and ds: "ds = bs @ cs"
  shows "parses (andthen f g) ds y"
  unfolding ds
proof (rule parsesI)
  fix b s
  assume b: "src b ((bs @ cs) @ s)" "mem_plenty (b_mem b)"
  have b1: "src b (bs @ cs @ s)" using b(1) by simp
  from f b1 b(2) obtain m where m: "f b = (Inr x, adv b (length bs) m)" "mem_ext (b_mem b) m" by (rule parsesE)
  have b2: "src (adv b (length bs) m) (cs @ s)" using src_adv [OF b1, of "length bs" m] by simp
  have p: "mem_plenty (b_mem (adv b (length bs) m))" using m(2) b(2) by (simp add: mem_ext_plenty)
  from g b2 p obtain m' where "g x (adv b (length bs) m) = (Inr y, adv (adv b (length bs) m) (length cs) m')"
    "mem_ext m m'" by (rule parsesE) simp
  with m show "\<exists>m. andthen f g b = (Inr y, adv b (length (bs @ cs)) m) \<and> mem_ext (b_mem b) m"
    by (auto dest: mem_ext_trans)
qed

lemma parses_yields: "yields f x \<Longrightarrow> parses (on_bmem f) [] x"
proof (rule parsesI)
  fix b s
  assume "yields f x" "src b ([] @ s)" "mem_plenty (b_mem b)"
  then show "\<exists>m. on_bmem f b = (Inr x, adv b (length []) m) \<and> mem_ext (b_mem b) m"
    by (cases rule: yields_cases [of f x "b_mem b"]) (auto simp: on_bmem_def adv_mem)
qed

lemma parses_tmp: "parses f bs x \<Longrightarrow> parses (on_tmp f) bs x"
proof (rule parsesI)
  fix b s
  assume f: "parses f bs x" and b: "src b (bs @ s)" "mem_plenty (b_mem b)"
  from src_static [OF b(1)] obtain t where
    t: "tmp_buffer b = Inr t" "src t (bs @ s)" "b_off t = 0" "b_mem t = b_mem b"
    unfolding tmp_buffer_def by blast
  from f t(2) _ obtain m where m: "f t = (Inr x, adv t (length bs) m)" "mem_ext (b_mem t) m"
    by (rule parsesE) (simp add: t(4) b(2))
  have "src (adv b 0 m) (bs @ s)" using src_adv [OF b(1), of 0] by simp
  from src_seek [OF this, of "length bs"] m t
  show "\<exists>m. on_tmp f b = (Inr x, adv b (length bs) m) \<and> mem_ext (b_mem b) m"
    by (intro exI [of _ m]) (simp add: on_tmp_def sync_buffers_def buffer_offset_def adv_mem)
qed

lemma parses_read: "length bs \<le> cap \<Longrightarrow> length bs \<le> SSIZE_MAX \<Longrightarrow> parses (buffer_read (Some cap) (length bs)) bs bs"
  by (rule parsesI) (auto simp: src_read)

lemma parses_type: "parses read_cbor_type [c] (major_of c, extra_of c)"
  unfolding read_cbor_type_def
  using parses_read [of "[c]" 1] parses_cret [of "(major_of c, extra_of c)"]
  by (intro parses_andthen [where bs = "[c]" and x = "[c]"]) (auto simp: bound_simps simp del: cret_apply)

lemma parses_addl:
  assumes "addl_size extra = Inr (length bs)" and "\<And>r. addl_value extra (length bs) (bs @ r) = v"
  shows "parses (get_addl_bytes extra) bs v"
proof (rule parsesI)
  fix b s
  assume b: "src b (bs @ s)"
  have "\<exists>r. (case buffer_data_current b of None \<Rightarrow> [] | Some obj \<Rightarrow> obj) = bs @ r"
  proof (cases "bs @ s = []")
    case False
    then obtain obj where obj: "buffer_data_current b = Some obj" "take (length (bs @ s)) obj = bs @ s"
      using src_current [OF b] by blast
    from obj(2) have "obj = bs @ s @ drop (length (bs @ s)) obj" by (metis append.assoc append_take_drop_id)
    with obj(1) show ?thesis by (auto intro: exI)
  qed simp
  then show "\<exists>m. get_addl_bytes extra b = (Inr v, adv b (length bs) m) \<and> mem_ext (b_mem b) m"
    using assms src_remain [OF b] src_seek [OF b, of "length bs"] by (auto simp: get_addl_bytes_def)
qed

lemma parses_head:
  assumes "n < 2 ^ 64"
  shows "parses (unpack_cbor_int t) (cbor_head (major_num t) n) (word_of_nat n)"
    and "parses (unpack_cbor_arraymap_start t 31) (cbor_head (major_num t) n) (word_of_nat n, False)"
proof -
  obtain a bs where h: "cbor_head (major_num t) n = (push_bit 5 (major_num t) OR a) # bs"
    "unat a < 31" "parses (get_addl_bytes a) bs (word_of_nat n)"
    using head_parts [OF assms, of "major_num t"] parses_addl by metis
  have m: "major_of (push_bit 5 (major_num t) OR a) = t" "extra_of (push_bit 5 (major_num t) OR a) = a" "a \<noteq> 31"
    using major_extra [of a t] h(2) by auto
  note p = parses_type [of "push_bit 5 (major_num t) OR a", unfolded m]
  show "parses (unpack_cbor_int t) (cbor_head (major_num t) n) (word_of_nat n)"
    unfolding unpack_cbor_int_def h by (rule parses_andthen [OF p]) (simp_all add: h(3))
  show "parses (unpack_cbor_arraymap_start t 31) (cbor_head (major_num t) n) (word_of_nat n, False)"
    unfolding unpack_cbor_arraymap_start_def h
    by (rule parses_andthen [OF p], simp_all add: m(3) del: cret_apply)
      (rule parses_andthen [OF h(3) parses_cret], simp)
qed

lemma parses_scalars:
  "parses cbor_unpack_uint (cbor_head 0 (unat i)) i"
  "parses cbor_unpack_null [0xf6] ()"
  "parses cbor_unpack_bool [if b then 0xf5 else 0xf4] b"
proof -
  show "parses cbor_unpack_uint (cbor_head 0 (unat i)) i"
    unfolding cbor_unpack_uint_def
    using parses_tmp [OF parses_head(1) [OF unat_less_2_64 [of i], of CMT_UINT]] by simp
  have float: "parses unpack_cbor_float [c] (extra_of c)"
    if "major_of c = CMT_FLOAT" "extra_of c \<in> {20, 21, 22, 31}" for c
    unfolding unpack_cbor_float_def
    by (rule parses_andthen [OF parses_type parses_ret])
      (use that in \<open>auto simp: addl_defs\<close>)
  show "parses cbor_unpack_null [0xf6] ()"
    unfolding cbor_unpack_null_def
    by (intro parses_tmp parses_andthen [OF float parses_ret])
      (simp_all add: major_of_def extra_of_def addl_defs del: cret_apply)
  show "parses cbor_unpack_bool [if b then 0xf5 else 0xf4] b"
    unfolding cbor_unpack_bool_def
    by (intro parses_tmp parses_andthen [OF float parses_ret])
      (simp_all add: major_of_def extra_of_def addl_defs)
qed

lemma parses_str:
  assumes "cstr_wf s"
  shows "parses cbor_unpack_str (cbor_text s) (VStr s)"
proof -
  have len: "length s < 2 ^ 64" "unat (word_of_nat (length s) :: u64) = length s" "\<not> SIZE_MAX \<le> length s"
    "length s + 1 \<le> SSIZE_MAX"
    using assms by (auto simp: cstr_wf_def bound_simps unat_of_nat_u64)
  have "parses (andthen (on_bmem (cell_alloc (length s + 1))) (\<lambda>cap.
      andthen (buffer_read (Some cap) (length s)) (\<lambda>bs.
        if length bs \<noteq> length s then cerr (Errno EILSEQ) else cret bs))) s s"
    using len(4)
    by (intro parses_andthen [OF parses_yields [OF yields_cell]] parses_andthen [OF parses_read parses_ret])
      auto
  then have "parses cbor_unpack_cstr_len (cbor_text s) s"
    unfolding cbor_unpack_cstr_len_def cbor_text_def
    using len
    by (intro parses_tmp parses_andthen [OF parses_head(1) [OF len(1), of CMT_TEXT, unfolded major_num.simps]])
      (simp_all del: unsigned_of_nat)
  moreover have "yields (strsym_alloc (Some (s @ [0])) VT_STR) (VStr s)"
    using assms yields_strsym_alloc(1) by (simp add: cstr_wf_def)
  ultimately show ?thesis
    unfolding cbor_unpack_str_def by (intro parses_andthen [OF _ parses_yields]) auto
qed

text \<open>Arrays and maps of a known number of elements, given that each element is parsed.\<close>

lemma parses_array_loop:
  assumes "\<And>v. v \<in> set vs \<Longrightarrow> parses unpack (cbor_bytes v) v" and "sizeof_ptr * (length arr + length vs) \<le> cap"
  shows "parses (array_def_loop unpack (length vs) cap arr) (concat (map cbor_bytes vs)) (arr @ vs)"
  using assms
proof (induction vs arbitrary: arr)
  case (Cons v vs)
  have "store_elem cap (length arr) = cret ()"
    using Cons.prems(2) by (auto simp: store_elem_def fun_eq_iff algebra_simps)
  moreover have "parses (array_def_loop unpack (length vs) cap (arr @ [v])) (concat (map cbor_bytes vs)) (arr @ v # vs)"
    using Cons.IH [of "arr @ [v]"] Cons.prems by simp
  ultimately show ?case
    using Cons.prems(1) [of v]
    by (auto intro!: parses_andthen [where bs = "cbor_bytes v" and x = v] parses_andthen [where bs = "[]" and x = "()"]
        parses_cret simp del: cret_apply)
qed (simp add: parses_cret del: cret_apply)

lemma parses_array:
  assumes "\<And>v. v \<in> set vs \<Longrightarrow> parses unpack (cbor_bytes v) v" and "length vs \<le> SSIZE_MAX div 8"
  shows "parses (unpack_cbor_array unpack n) (cbor_bytes (VArray vs)) (VArray vs)"
proof -
  have len: "length vs < 2 ^ 64" using assms(2) by (simp add: bound_simps)
  have start: "parses cbor_unpack_array_start (cbor_head 4 (length vs)) (word_of_nat (length vs), False)"
    unfolding cbor_unpack_array_start_def ADDL_ARRAY_INDEF_def
    using parses_tmp [OF parses_head(2) [OF len, of CMT_ARRAY]] by simp
  have n: "unat (word_of_nat (length vs) :: u64) = length vs" using len by (rule unat_of_nat_u64)
  have loop: "parses (array_def_loop unpack (length vs) (sizeof_ptr * length vs) []) (concat (map cbor_bytes vs)) vs"
    using parses_array_loop [of vs unpack "[]"] assms(1) by simp
  have fin: "parses (andthen (cbor_unpack_array_end False) (\<lambda>_. on_bmem (val_alloc_array vs))) [] (VArray vs)"
    using assms(2) by (intro parses_andthen [OF parses_ret parses_yields]) (auto simp: cbor_unpack_array_end_def)
  have "parses (andthen (on_bmem (mem_recallocarray 0 (length vs) sizeof_ptr))
      (\<lambda>cap. array_def_loop unpack (length vs) cap [])) (concat (map cbor_bytes vs)) vs"
    by (rule parses_andthen [OF parses_yields [OF yields_recalloc [OF assms(2)]]], rule loop) simp
  then have "parses (andthen (andthen (on_bmem (mem_recallocarray 0 (length vs) sizeof_ptr))
      (\<lambda>cap. array_def_loop unpack (length vs) cap []))
      (\<lambda>arr. andthen (cbor_unpack_array_end False) (\<lambda>_. on_bmem (val_alloc_array arr))))
      (concat (map cbor_bytes vs)) (VArray vs)"
    by (rule parses_andthen [where x = vs and cs = "[]"]) (simp_all only: fin append_Nil2)
  then show ?thesis
    unfolding unpack_cbor_array_def
    by (intro parses_andthen [OF start]) (use n in \<open>simp_all del: unsigned_of_nat\<close>)
qed

lemma parses_pairs_loop:
  assumes "\<And>p. p \<in> set kvs \<Longrightarrow> cstr_wf (fst p) \<and> parses unpack (cbor_bytes (snd p)) (snd p)"
    and "nv_sorted (acc @ kvs)"
  shows "parses (nvl_def_loop unpack (length kvs) acc)
    (concat (map (\<lambda>p. cbor_text (fst p) @ cbor_bytes (snd p)) kvs)) (acc @ kvs)"
  using assms
proof (induction kvs arbitrary: acc)
  case (Cons p kvs)
  have "nv_sorted (acc @ [p])" using Cons.prems(2) by (auto simp: nv_sorted_def sorted_wrt_append)
  then have put: "nv_put (fst p) (snd p) acc = acc @ [p]" by (rule nv_put_append)
  have "parses (nvl_set_pair_in (fst p) (snd p) acc) [] (acc @ [p])"
  proof (rule parsesI)
    fix b :: buffer
    assume "mem_plenty (b_mem b)"
    then show "\<exists>m. nvl_set_pair_in (fst p) (snd p) acc b = (Inr (acc @ [p]), adv b (length []) m) \<and> mem_ext (b_mem b) m"
      by (cases rule: do_nvl_set_named [of "fst p" "snd p" acc "b_mem b"])
        (auto simp: nvl_set_pair_in_def nvl_set_pair_def adv_mem put)
  qed
  then have "parses (unpack_cbor_pair unpack acc) (cbor_text (fst p) @ cbor_bytes (snd p)) (acc @ [p])"
    unfolding unpack_cbor_pair_def unpack_cbor_str_def
    using Cons.prems(1) [of p]
    by (intro parses_andthen [of cbor_unpack_str "cbor_text (fst p)" "VStr (fst p)"]
        parses_andthen [of unpack "cbor_bytes (snd p)" "snd p"]) (auto intro: parses_str)
  moreover have "parses (nvl_def_loop unpack (length kvs) (acc @ [p]))
      (concat (map (\<lambda>p. cbor_text (fst p) @ cbor_bytes (snd p)) kvs)) (acc @ p # kvs)"
    using Cons.IH [of "acc @ [p]"] Cons.prems by simp
  ultimately show ?case by (auto intro: parses_andthen)
qed (simp add: parses_cret del: cret_apply)

lemma parses_nvl:
  assumes "\<And>p. p \<in> set kvs \<Longrightarrow> cstr_wf (fst p) \<and> parses unpack (cbor_bytes (snd p)) (snd p)"
    and "nv_sorted kvs" and "length kvs \<le> SSIZE_MAX"
  shows "parses (unpack_cbor_nvl unpack n) (cbor_bytes (VNvl kvs)) (VNvl kvs)"
proof -
  have len: "length kvs < 2 ^ 64" using assms(3) by (simp add: bound_simps)
  have start: "parses cbor_unpack_map_start (cbor_head 5 (length kvs)) (word_of_nat (length kvs), False)"
    unfolding cbor_unpack_map_start_def ADDL_MAP_INDEF_def
    using parses_tmp [OF parses_head(2) [OF len, of CMT_MAP]] by simp
  have n: "unat (word_of_nat (length kvs) :: u64) = length kvs" using len by (rule unat_of_nat_u64)
  have loop: "parses (nvl_def_loop unpack (length kvs) [])
      (concat (map (\<lambda>p. cbor_text (fst p) @ cbor_bytes (snd p)) kvs)) kvs"
    using parses_pairs_loop [of kvs unpack "[]"] assms(1,2) by simp
  have fin: "parses (andthen (cbor_unpack_map_end False) (\<lambda>_. cret (VNvl kvs))) [] (VNvl kvs)"
    by (intro parses_andthen [OF parses_ret parses_cret]) (auto simp: cbor_unpack_map_end_def)
  have "parses (andthen (nvl_def_loop unpack (length kvs) [])
      (\<lambda>nvl. andthen (cbor_unpack_map_end False) (\<lambda>_. cret (VNvl nvl))))
      (concat (map (\<lambda>p. cbor_text (fst p) @ cbor_bytes (snd p)) kvs)) (VNvl kvs)"
    by (rule parses_andthen [OF loop], rule fin) simp
  then have "parses (andthen (on_bmem val_alloc_nvl) (\<lambda>_. andthen (nvl_def_loop unpack (length kvs) [])
      (\<lambda>nvl. andthen (cbor_unpack_map_end False) (\<lambda>_. cret (VNvl nvl)))))
      (concat (map (\<lambda>p. cbor_text (fst p) @ cbor_bytes (snd p)) kvs)) (VNvl kvs)"
    by (intro parses_andthen [OF parses_yields [OF yields_val_alloc(7)]]) auto
  then show ?thesis
    unfolding unpack_cbor_nvl_def
    by (intro parses_andthen [OF start]) (use n in \<open>simp_all del: unsigned_of_nat cret_apply\<close>)
qed

lemma parses_peek:
  assumes "peek_class c = Inr t"
    and "parses (case t of VT_NULL \<Rightarrow> unpack_cbor_null | VT_INT \<Rightarrow> unpack_cbor_uint
      | VT_STR \<Rightarrow> unpack_cbor_str | VT_BOOL \<Rightarrow> unpack_cbor_bool | VT_BLOB \<Rightarrow> unpack_cbor_blob
      | VT_ARRAY \<Rightarrow> unpack_cbor_array (unpack_cbor_val n) n | VT_NVL \<Rightarrow> unpack_cbor_nvl (unpack_cbor_val n) n
      | _ \<Rightarrow> cerr (Errno ENOTSUP)) (c # bs) v"
  shows "parses (unpack_cbor_val (Suc n)) (c # bs) v"
proof (rule parsesI)
  fix b s
  assume b: "src b ((c # bs) @ s)" "mem_plenty (b_mem b)"
  from assms(2) b show "\<exists>m. unpack_cbor_val (Suc n) b = (Inr v, adv b (length (c # bs)) m) \<and> mem_ext (b_mem b) m"
    by (rule parsesE) (use peek_type [OF b(1)] assms(1) in auto)
qed

lemma parses_val:
  "val_wf v \<Longrightarrow> cbor_plain v \<Longrightarrow> length (cbor_bytes v) \<le> n \<Longrightarrow> parses (unpack_cbor_val n) (cbor_bytes v) v"
proof (induction v arbitrary: n)
  case VNull
  then obtain k where n: "n = Suc k" by (cases n) auto
  have "parses unpack_cbor_null [0xf6] VNull"
    unfolding unpack_cbor_null_def by (intro parses_andthen [OF parses_scalars(2) parses_yields]) auto
  then show ?case unfolding n cbor_bytes.simps
    by (intro parses_peek [of _ VT_NULL]) (simp_all add: peek_class_def major_of_def extra_of_def addl_defs)
next
  case (VInt i)
  obtain c bs where h: "cbor_head 0 (unat i) = c # bs" "major_of c = CMT_UINT"
    using head_major [OF unat_less_2_64, of CMT_UINT i] by auto
  with VInt obtain k where n: "n = Suc k" by (cases n) auto
  have "parses unpack_cbor_uint (c # bs) (VInt i)"
    unfolding unpack_cbor_uint_def h(1) [symmetric]
    by (intro parses_andthen [OF parses_scalars(1) parses_yields]) auto
  with h show ?case unfolding n cbor_bytes.simps h(1)
    by (intro parses_peek [of _ VT_INT]) (simp_all add: peek_class_def)
next
  case (VStr s)
  then have "length s < 2 ^ 64" by (simp add: cstr_wf_def bound_simps)
  from head_major [OF this, of CMT_TEXT] obtain c bs where
    h: "cbor_text s = c # bs @ s" "major_of c = CMT_TEXT" by (auto simp: cbor_text_def)
  with VStr obtain k where n: "n = Suc k" by (cases n) auto
  have "parses unpack_cbor_str (c # bs @ s) (VStr s)"
    using parses_str [of s] VStr.prems(1) h(1) by (simp add: unpack_cbor_str_def)
  with h show ?case unfolding n cbor_bytes.simps h(1)
    by (intro parses_peek [of _ VT_STR]) (simp_all add: peek_class_def)
next
  case (VBool b)
  then obtain k where n: "n = Suc k" by (cases n) auto
  have "parses unpack_cbor_bool [if b then 0xf5 else 0xf4] (VBool b)"
    unfolding unpack_cbor_bool_def by (intro parses_andthen [OF parses_scalars(3) parses_yields]) auto
  then show ?case unfolding n cbor_bytes.simps
    by (intro parses_peek [of _ VT_BOOL]) (simp_all add: peek_class_def major_of_def extra_of_def addl_defs)
next
  case (VArray vs)
  then have "length vs < 2 ^ 64" by (simp add: bound_simps)
  from head_major [OF this, of CMT_ARRAY] obtain c bs where
    h: "cbor_bytes (VArray vs) = c # bs @ concat (map cbor_bytes vs)" "major_of c = CMT_ARRAY" by auto
  with VArray.prems obtain k where n: "n = Suc k" by (cases n) auto
  have len: "length (cbor_bytes v) \<le> k" if "v \<in> set vs" for v
    using VArray.prems(3) h(1) n member_le_sum_list [of "length (cbor_bytes v)" "map (length \<circ> cbor_bytes) vs"] that
    by (auto simp: length_concat comp_def)
  have "parses (unpack_cbor_array (unpack_cbor_val k) k) (cbor_bytes (VArray vs)) (VArray vs)"
    using VArray len by (intro parses_array) auto
  with h show ?case unfolding n h(1)
    by (intro parses_peek [of _ VT_ARRAY]) (simp_all add: peek_class_def)
next
  case (VNvl kvs)
  then have "length kvs < 2 ^ 64" by (simp add: bound_simps)
  from head_major [OF this, of CMT_MAP] obtain c bs where
    h: "cbor_bytes (VNvl kvs) = c # bs @ concat (map (\<lambda>p. cbor_text (fst p) @ cbor_bytes (snd p)) kvs)"
    "major_of c = CMT_MAP" by auto
  with VNvl.prems obtain k where n: "n = Suc k" by (cases n) auto
  have len: "length (cbor_bytes (snd p)) \<le> k" if "p \<in> set kvs" for p
    using VNvl.prems(3) h(1) n that
      member_le_sum_list [of "length (cbor_text (fst p) @ cbor_bytes (snd p))"
        "map (\<lambda>p. length (cbor_text (fst p) @ cbor_bytes (snd p))) kvs"]
    by (auto simp: length_concat comp_def)
  have "parses (unpack_cbor_nvl (unpack_cbor_val k) k) (cbor_bytes (VNvl kvs)) (VNvl kvs)"
    using VNvl len by (intro parses_nvl) (auto simp: nv_sorted_def snds.simps)
  with h show ?case unfolding n h(1)
    by (intro parses_peek [of _ VT_NVL]) (simp_all add: peek_class_def)
qed auto

lemma parses_cbor_unpack_val:
  assumes "val_wf v" and "cbor_plain v"
  shows "parses cbor_unpack_val (cbor_bytes v) v"
proof (rule parsesI)
  fix b s
  assume b: "src b (cbor_bytes v @ s)" "mem_plenty (b_mem b)"
  have "parses (on_tmp (unpack_cbor_val (buffer_remain b + 1))) (cbor_bytes v) v"
    using assms src_remain [OF b(1)] by (intro parses_tmp parses_val) auto
  from this b show "\<exists>m. cbor_unpack_val b = (Inr v, adv b (length (cbor_bytes v)) m) \<and> mem_ext (b_mem b) m"
    by (rule parsesE) (auto simp: cbor_unpack_val_def simp del: unpack_cbor_val.simps)
qed

text \<open>
  Without a checking array allocator the size of an array of \<open>2 ^ 61\<close> elements wraps to 0, and the first
  element is stored out of bounds.
\<close>

lemma array_size_wraps:
  assumes "N = 2 ^ 61" and "src b (cbor_head 4 (N) @ 0xf6 # s)" and "mem_plenty (b_mem b)" and "\<not> array_checked (b_mem b)"
  shows "fst (cbor_unpack_val b) = Inl Fault"
proof -
  obtain M where N: "N = Suc M" "N < 2 ^ 64" using assms(1) by (cases N) auto
  have head: "parses cbor_unpack_array_start (cbor_head 4 N) (word_of_nat N, False)"
    unfolding cbor_unpack_array_start_def ADDL_ARRAY_INDEF_def
    using parses_tmp [OF parses_head(2) [OF N(2), of CMT_ARRAY]] by simp
  obtain c bs where c: "cbor_head 4 N = c # bs" "major_of c = CMT_ARRAY"
    using head_major [OF N(2), of CMT_ARRAY] by auto
  from src_static [OF assms(2)] obtain t where
    t: "tmp_buffer b = Inr t" "src t (cbor_head 4 N @ 0xf6 # s)" "b_mem t = b_mem b"
    unfolding tmp_buffer_def by blast
  obtain m1 where 1: "cbor_unpack_array_start t = (Inr (word_of_nat N, False), adv t (length (c # bs)) m1)"
    "mem_ext (b_mem b) m1"
    using parsesE [OF head t(2)] assms(3) c(1) t(3) by metis
  define m2 where "m2 = m1\<lparr>m_next := Suc (m_next m1)\<rparr>"
  have m1: "mem_plenty m1" "\<not> array_checked m1"
    using 1(2) assms(3,4) by (auto simp: mem_ext_plenty mem_ext_checked)
  have 2: "on_bmem (mem_recallocarray 0 N sizeof_ptr) (adv t (length (c # bs)) m1) =
      (Inr 0, adv t (length (c # bs)) m2)"
    using m1 assms(1) by (simp add: on_bmem_def mem_recallocarray_fresh mem_reallocarray_def array_checked_def cell_alloc_def
        mem_request_plenty wrap64_def sizeof_ptr_def m2_def)
  have s: "src (adv t (length (c # bs)) m2) ([0xf6] @ s)" "mem_plenty m2"
    using src_adv [OF t(2), of "length (c # bs)"] c(1) m1(1) by (auto simp: m2_def)
  obtain k where k: "buffer_remain b = Suc k" using src_remain [OF assms(2)] by (cases "buffer_remain b") auto
  have null: "parses (unpack_cbor_val (buffer_remain b)) [0xf6] VNull"
    using parses_val [of VNull "buffer_remain b"] k by simp
  from null s(1) _ obtain m3 where 3: "unpack_cbor_val (buffer_remain b) (adv t (length (c # bs)) m2) =
      (Inr VNull, adv t (length (c # bs) + 1) m3)"
    by (rule parsesE) (use s(2) in auto)
  have "fst (unpack_cbor_array (unpack_cbor_val (buffer_remain b)) (buffer_remain b) t) = Inl Fault"
    using 1(1) 2 3 unat_of_nat_u64 [OF N(2)] N(1)
    by (simp add: unpack_cbor_array_def store_elem_def sizeof_ptr_def
        del: unsigned_of_nat unpack_cbor_val.simps length_Cons)
  moreover have "cbor_peek_type t = Inr VT_ARRAY"
    using peek_type [OF t(2)] c by (simp add: peek_class_def)
  ultimately show ?thesis
    using t(1) unfolding cbor_unpack_val_def on_tmp_def
    by (simp split: prod.splits sum.splits) (metis fst_conv sum.distinct(1) sum.inject(1))
qed

end

subsection \<open>Properties\<close>

text \<open>
  C11. Unpacking a value from any bytes: it terminates, since the fuel never runs out, and neither panics
  nor reads outside the input. A result is a well-formed value, for which at least one byte was consumed
  and none beyond the end. An error is an errno and leaves the position where it was. Only on a platform
  with neither \<open>reallocarray\<close> nor \<open>recallocarray\<close> it may also store an array element out of bounds.
  Nothing of the buffer but its offset and the allocator's state changes.
\<close>

theorem cbor_unpack_val_total:
  assumes "buf_wf b" and "backed (b_ops b)"
  shows "\<exists>r off m. cbor_unpack_val b = (r, b\<lparr>b_off := off, b_mem := m\<rparr>) \<and>
    (case r of
       Inr v \<Rightarrow> val_wf v \<and> b_off b < off \<and> off \<le> b_size b
     | Inl e \<Rightarrow> off = b_off b \<and>
         ((\<exists>n. e = Errno n) \<or>
          e = Fault \<and> \<not> m_have_reallocarray (b_mem b) \<and> \<not> m_have_recallocarray (b_mem b)))"
proof -
  let ?s = "drop (b_off b) (contents b)"
  have src: "at b ?s" using assms by (simp add: at_def)
  have "array_checked (b_mem b) \<longrightarrow> array_checked (b_mem b)" by simp
  from src this show ?thesis
  proof (cases rule: checked.cbor_unpack_val_cases)
    case (ok v n m)
    then show ?thesis using at_facts [OF src]
      by (intro exI [of _ "Inr v"] exI [of _ "b_off b + n"] exI [of _ m]) (auto simp: adv_def)
  next
    case (err e m)
    then show ?thesis
      by (intro exI [of _ "Inl e"] exI [of _ "b_off b"] exI [of _ m])
        (auto simp: adv_def checked.tame_def array_checked_def)
  qed
qed

text \<open>A read-only buffer over given bytes.\<close>

definition bytes_buffer :: "bytes \<Rightarrow> mem \<Rightarrow> buffer" where
  "bytes_buffer bs m =
     (case buffer_init_static (Some bs) (length bs) (length bs) False m of
        Inr b \<Rightarrow> b
      | Inl _ \<Rightarrow> \<lparr>b_data = None, b_off = 0, b_size = 0, b_allocsize = 0, b_ops = static_buffer_ro,
          b_private = no_file, b_heap = False, b_mem = m\<rparr>)"

lemma bytes_buffer_at:
  assumes "length bs \<le> SSIZE_MAX"
  shows "buf_wf (bytes_buffer bs m)" and "backed (b_ops (bytes_buffer bs m))" and "b_mem (bytes_buffer bs m) = m"
    and "at (bytes_buffer bs m) bs"
  using assms by (auto simp: bytes_buffer_def buffer_init_static_def buf_wf_def at_def contents_def bound_simps)

theorem cbor_unpack_val_total_witness:
  "\<exists>r b'. cbor_unpack_val (bytes_buffer [0x9f, 0xf6, 0xff] plain_mem) = (r, b') \<and> r \<notin> {Inl Fault, Inl Diverged, Inl Panic}"
proof -
  let ?b = "bytes_buffer [0x9f, 0xf6, 0xff] plain_mem"
  have len: "length [0x9f, 0xf6, 0xff :: u8] \<le> SSIZE_MAX" by (simp add: bound_simps)
  obtain r off m where "cbor_unpack_val ?b = (r, ?b\<lparr>b_off := off, b_mem := m\<rparr>)"
    "case r of
       Inr v \<Rightarrow> val_wf v \<and> b_off ?b < off \<and> off \<le> b_size ?b
     | Inl e \<Rightarrow> off = b_off ?b \<and> ((\<exists>n. e = Errno n) \<or>
          e = Fault \<and> \<not> m_have_reallocarray (b_mem ?b) \<and> \<not> m_have_recallocarray (b_mem ?b))"
    using cbor_unpack_val_total [OF bytes_buffer_at(1) [OF len] bytes_buffer_at(2) [OF len]] by blast
  then show ?thesis
    using bytes_buffer_at(3) [OF len, of plain_mem] by (cases r) (auto simp: plain_mem_def)
qed

text \<open>
  The fuel of the model is not a limit of the program: with any amount of fuel above the number of
  bytes that remain, unpacking ends with a value or an error.
\<close>

theorem cbor_unpack_terminates:
  assumes "buf_wf b" and "backed (b_ops b)" and "buffer_remain b < n"
  shows "fst (unpack_cbor_val n b) \<noteq> Inl Diverged \<and> fst (unpack_cbor_val n b) \<noteq> Inl Panic"
proof -
  let ?s = "drop (b_off b) (contents b)"
  have src: "at b ?s" using assms by (simp add: at_def)
  have "length ?s < n" "length ?s \<le> SSIZE_MAX"
    using assms(3) backed.src_remain [OF src] backed.src_small [OF src] by auto
  then have "checked.runs False (length ?s) (unpack_cbor_val n) (\<lambda>v n. 0 < n \<and> val_wf v)"
    by (rule checked.unpacks_val)
  from this src _ order.refl show ?thesis
    by (cases rule: checked.runs_cases) (auto simp: checked.tame_def)
qed

theorem cbor_unpack_terminates_witness:
  "fst (unpack_cbor_val 4 (bytes_buffer [0x9f, 0x9f, 0x9f] plain_mem)) \<noteq> Inl Diverged"
proof -
  have len: "length [0x9f, 0x9f, 0x9f :: u8] \<le> SSIZE_MAX" by (simp add: bound_simps)
  have "buffer_remain (bytes_buffer [0x9f, 0x9f, 0x9f] plain_mem) < 4"
    using backed.src_remain [OF bytes_buffer_at(4) [OF len]] by simp
  then show ?thesis
    using cbor_unpack_terminates [OF bytes_buffer_at(1) [OF len] bytes_buffer_at(2) [OF len]] by blast
qed

text \<open>Packing onto a heap buffer appends the reference encoding and gives its result.\<close>

lemma cbor_pack_heap:
  assumes "good_heap b" and "val_wf v" and "b_size b + length (fst (cbor_out v)) \<le> SSIZE_MAX"
  obtains b' where "cbor_pack_val big v b = (snd (cbor_out v), b')" and "contents b' = contents b @ fst (cbor_out v)"
    and "b_off b' = b_off b" and "good_heap b'"
proof -
  have "heap_room (length (fst (cbor_out v))) b" using assms(1,3) by (simp add: heap_room_def)
  from heap.emits_ok [OF heap.emits_cbor_pack(1) [OF assms(2), of big] this order.refl]
  show thesis by (auto simp: data_grown_def heap_room_def intro: that)
qed

lemma buffer_init_heap_good:
  assumes "n \<le> SSIZE_MAX" and "mem_plenty m" and "buffer_init_heap n m = (Inr b, m')"
  shows "good_heap b" and "contents b = []" and "b_off b = 0" and "b_size b = 0"
proof -
  obtain d where d: "c_malloc (if n \<noteq> 0 then n else 1) m = (Some d, m')"
    and b: "b_data b = Some d" "b_off b = 0" "b_size b = 0" "b_ops b = heap_buffer" "b_mem b = m'"
    using assms(3) by (auto simp: buffer_init_heap_def split: prod.splits option.splits)
  have "mem_plenty m'" using d assms(2) by (auto simp: c_malloc_def dest: c_realloc_Some(4))
  moreover have "buf_wf b"
    using buffer_reachable_buf_wf [OF buffer_reachable.heap [OF assms(1,3)]] .
  ultimately show "good_heap b" using b by (simp add: good_heap_def)
  show "contents b = []" "b_off b = 0" "b_size b = 0" using b by (auto simp: contents_def)
qed

text \<open>
  C10. A round trip: on a machine of either endianness, packing a value made of null, integers, strings,
  booleans, arrays and nvlists into a new heap buffer succeeds, writes its RFC 7049 encoding, and unpacking
  the buffer gives the value back and consumes all of it, as long as there is memory.
\<close>

theorem cbor_roundtrip:
  assumes "val_wf v" and "cbor_plain v" and "length (cbor_bytes v) \<le> SSIZE_MAX"
    and "mem_plenty m" and "n \<le> SSIZE_MAX" and "buffer_init_heap n m = (Inr b, m')"
  shows "\<exists>b1 b2. cbor_pack_val big v b = (Inr (), b1) \<and> contents b1 = cbor_bytes v \<and>
    cbor_unpack_val b1 = (Inr v, b2) \<and> b_off b2 = b_size b1"
proof -
  note h = buffer_init_heap_good [OF assms(5,4,6)]
  have out: "cbor_out v = out_bytes (cbor_bytes v)" using assms(2) by (rule cbor_out_plain)
  obtain b1 where b1: "cbor_pack_val big v b = (Inr (), b1)" "contents b1 = cbor_bytes v" "b_off b1 = 0" "good_heap b1"
    using cbor_pack_heap [OF h(1) assms(1), of big] h assms(3) by (auto simp: out out_bytes_def)
  have src: "at b1 (cbor_bytes v @ [])" using b1 by (simp add: at_def good_heap_def)
  have "mem_plenty (b_mem b1)" using b1(4) by (simp add: good_heap_def)
  from backed.parses_cbor_unpack_val [OF assms(1,2)] src this obtain m1 where
    "cbor_unpack_val b1 = (Inr v, adv b1 (length (cbor_bytes v)) m1)" by (rule backed.parsesE)
  moreover have "length (cbor_bytes v) = b_size b1" using at_facts(3) [OF src] b1(3) by simp
  ultimately show ?thesis using b1 by auto
qed

theorem cbor_roundtrip_witness:
  "\<exists>b b1 b2. fst (buffer_init_heap 0 plain_mem) = Inr b \<and>
     cbor_pack_val False (VNvl [([97], VArray [VInt 500, VStr [98]])]) b = (Inr (), b1) \<and>
     cbor_unpack_val b1 = (Inr (VNvl [([97], VArray [VInt 500, VStr [98]])]), b2)"
proof -
  let ?v = "VNvl [([97], VArray [VInt 500, VStr [98]])]"
  obtain b m' where b: "buffer_init_heap 0 plain_mem = (Inr b, m')"
    by (auto simp: buffer_init_heap_def c_malloc_def c_realloc_def mem_request_plenty bound_simps)
  have "val_wf ?v" "cbor_plain ?v" by (simp_all add: cstr_wf_def bound_simps)
  moreover have "length (cbor_bytes ?v) \<le> SSIZE_MAX"
    by (simp add: cbor_head_def cbor_text_def bound_simps)
  ultimately show ?thesis
    using cbor_roundtrip [OF _ _ _ mem_plenty_plain _ b, of ?v False] b by (auto simp: bound_simps)
qed

text \<open>
  An array of \<open>2 ^ 61\<close> elements, encoded in 9 bytes and followed by one element, makes the unpacking code
  write outside a block when the platform has no checking array allocator.
\<close>

theorem cbor_array_size_wraps:
  "fst (cbor_unpack_val (bytes_buffer [0x9b, 0x20, 0, 0, 0, 0, 0, 0, 0, 0xf6]
     (plain_mem\<lparr>m_have_reallocarray := False\<rparr>))) = Inl Fault"
proof -
  let ?bs = "[0x9b, 0x20, 0, 0, 0, 0, 0, 0, 0, 0xf6] :: bytes"
  have "?bs = cbor_head 4 (2 ^ 61) @ 0xf6 # []"
    by (simp add: cbor_head_def cpu64_to_be_unaligned_def push_bit_eq_mult drop_bit_eq_div)
  moreover have len: "length ?bs \<le> SSIZE_MAX" by (simp add: bound_simps)
  ultimately have "at (bytes_buffer ?bs (plain_mem\<lparr>m_have_reallocarray := False\<rparr>)) (cbor_head 4 (2 ^ 61) @ 0xf6 # [])"
    using bytes_buffer_at(4) [OF len] by metis
  then show ?thesis
    by (rule backed.array_size_wraps [OF refl])
      (simp_all add: bytes_buffer_at(3) [OF len] array_checked_def plain_mem_def mem_plenty_def)
qed

end
