(* ===== verification/Json.thy ===== *)
theory Json
  imports Append Ints Val
begin

text \<open>
  JSON packing, \<^verbatim>\<open>src/fmt_json.c\<close> and \<^verbatim>\<open>src/include/jeffpc/json.h\<close>: RFC 7159 texts appended to a buffer.
  As for CBOR, the code is shown to write the reference output \<open>json_out\<close> into every kind of buffer. The
  reference output is in turn related to an inductive definition of the JSON grammar, which says which value a
  text denotes.
\<close>

lemma ascii_simps [simp]: "ascii [] = []" "ascii (c # s) = of_char c # ascii s" "length (ascii s) = length s"
  by (simp_all add: ascii_def)

subsection \<open>Packing\<close>

text \<open>\<open>snprintf\<close> into an array of \<open>sz\<close> characters keeps what fits before the nul.\<close>

definition snprintf :: "nat \<Rightarrow> bytes \<Rightarrow> bytes" where
  "snprintf sz s = take (sz - 1) s"

definition json_pack_uint :: "u64 \<Rightarrow> (buffer, unit) cfun" where
  "json_pack_uint v = buffer_append_cstr (snprintf 33 (dec_of_nat (unat v)))"

definition json_pack_nint :: "u64 \<Rightarrow> (buffer, unit) cfun" where
  "json_pack_nint v = cerr (Errno ENOTSUP)"

definition json_pack_int :: "int \<Rightarrow> (buffer, unit) cfun" where
  "json_pack_int v = (if v < 0 then json_pack_nint (word_of_int (- v)) else json_pack_uint (word_of_int v))"

text \<open>The conversion \<open>%04X\<close> of a number of at most 16 bits.\<close>

definition hex_upper :: "nat \<Rightarrow> u8" where
  "hex_upper d = (if d < 10 then word_of_nat (48 + d) else word_of_nat (55 + d))"

definition hex4 :: "nat \<Rightarrow> bytes" where
  "hex4 n = [hex_upper (n div 4096 mod 16), hex_upper (n div 256 mod 16), hex_upper (n div 16 mod 16), hex_upper (n mod 16)]"

definition escape_char :: "u32 \<Rightarrow> (buffer, unit) cfun" where
  "escape_char c =
     (if 0xffff < c then cerr (Errno ENOTSUP)
      else buffer_append_cstr (snprintf 7 (92 # 117 # hex4 (unat c))))"

definition escape_ctrl_char :: "u8 \<Rightarrow> (buffer, unit) cfun" where
  "escape_ctrl_char c =
     (let mapped =
        (if c = 8 then Some [92, 98] else if c = 12 then Some [92, 102]
         else if c = 10 then Some [92, 110] else if c = 13 then Some [92, 114]
         else if c = 9 then Some [92, 116] else None)
      in case mapped of Some s \<Rightarrow> buffer_append_cstr s | None \<Rightarrow> escape_char (ucast c))"

definition json_pack_char :: "u8 \<Rightarrow> (buffer, unit) cfun" where
  "json_pack_char c =
     (if c \<le> 0x1f then escape_ctrl_char c
      else if c = 34 \<or> c = 92 then buffer_append_cstr [92, c]
      else buffer_append_c c)"

text \<open>The loop over \<open>str[0]\<close> to \<open>str[len - 1]\<close>; reading past the object that holds the string is a fault.\<close>

fun json_chars_loop :: "nat \<Rightarrow> bytes \<Rightarrow> (buffer, unit) cfun" where
  "json_chars_loop 0 str = cret ()"
| "json_chars_loop (Suc len) [] = cerr Fault"
| "json_chars_loop (Suc len) (c # str) = andthen (json_pack_char c) (\<lambda>_. json_chars_loop len str)"

definition json_pack_cstr_len :: "bytes \<Rightarrow> nat \<Rightarrow> (buffer, unit) cfun" where
  "json_pack_cstr_len str len =
     andthen (buffer_append_c 34) (\<lambda>_. andthen (json_chars_loop len str) (\<lambda>_. buffer_append_c 34))"

definition json_pack_cstr :: "bytes \<Rightarrow> (buffer, unit) cfun" where
  "json_pack_cstr str = json_pack_cstr_len (str @ [0]) (length str)"

definition json_pack_str :: "bytes \<Rightarrow> (buffer, unit) cfun" where
  "json_pack_str str = json_pack_cstr_len (str @ [0]) (length str)"

definition json_pack_bool :: "bool \<Rightarrow> (buffer, unit) cfun" where
  "json_pack_bool b = buffer_append_cstr (ascii (if b then ''true'' else ''false''))"

definition json_pack_null :: "(buffer, unit) cfun" where
  "json_pack_null = buffer_append_cstr (ascii ''null'')"

definition json_pack_array_start :: "(buffer, unit) cfun" where
  "json_pack_array_start = buffer_append_c 91"

definition json_pack_array_elem_sep :: "(buffer, unit) cfun" where
  "json_pack_array_elem_sep = buffer_append_c 44"

definition json_pack_array_end :: "(buffer, unit) cfun" where
  "json_pack_array_end = buffer_append_c 93"

definition json_pack_map_start :: "(buffer, unit) cfun" where
  "json_pack_map_start = buffer_append_c 123"

definition json_pack_map_name_sep :: "(buffer, unit) cfun" where
  "json_pack_map_name_sep = buffer_append_c 58"

definition json_pack_map_pair_sep :: "(buffer, unit) cfun" where
  "json_pack_map_pair_sep = buffer_append_c 44"

definition json_pack_map_end :: "(buffer, unit) cfun" where
  "json_pack_map_end = buffer_append_c 125"

text \<open>
  \<open>json_pack_val\<close> with the loops of \<open>json_pack_array_vals\<close> and \<open>json_pack_map_val\<close>; the flag of the loops
  is \<open>i != 0\<close> for the elements of an array and \<open>!first\<close> for the pairs of a map.
\<close>

function (sequential) json_pack_val :: "val \<Rightarrow> (buffer, unit) cfun"
  and json_pack_vals_loop :: "bool \<Rightarrow> val list \<Rightarrow> (buffer, unit) cfun"
  and json_pack_pairs_loop :: "bool \<Rightarrow> nvpairs \<Rightarrow> (buffer, unit) cfun" where
  "json_pack_val VNull = json_pack_null"
| "json_pack_val (VInt i) = json_pack_uint i"
| "json_pack_val (VStr s) = json_pack_str s"
| "json_pack_val (VSym s) = cerr (Errno ENOTSUP)"
| "json_pack_val (VBool b) = json_pack_bool b"
| "json_pack_val (VCons h t) = cerr (Errno ENOTSUP)"
| "json_pack_val (VChar c) = cerr (Errno ENOTSUP)"
| "json_pack_val (VBlob data) = cerr (Errno ENOTSUP)"
| "json_pack_val (VArray vals) =
     andthen json_pack_array_start (\<lambda>_.
       andthen (json_pack_vals_loop False vals) (\<lambda>_. json_pack_array_end))"
| "json_pack_val (VNvl kvs) =
     andthen json_pack_map_start (\<lambda>_.
       andthen (json_pack_pairs_loop False kvs) (\<lambda>_. json_pack_map_end))"
| "json_pack_vals_loop sep [] = cret ()"
| "json_pack_vals_loop sep (v # vals) =
     andthen (if sep then json_pack_array_elem_sep else cret ()) (\<lambda>_.
       andthen (json_pack_val v) (\<lambda>_. json_pack_vals_loop True vals))"
| "json_pack_pairs_loop sep [] = cret ()"
| "json_pack_pairs_loop sep ((name, v) # kvs) =
     andthen (if sep then json_pack_map_pair_sep else cret ()) (\<lambda>_.
       andthen (json_pack_str name) (\<lambda>_.
         andthen json_pack_map_name_sep (\<lambda>_.
           andthen (json_pack_val v) (\<lambda>_. json_pack_pairs_loop True kvs))))"
  by pat_completeness auto

termination
  by (relation "measure (\<lambda>x. case x of
        Inl v \<Rightarrow> size v
      | Inr (Inl (sep, vs)) \<Rightarrow> size_list size vs
      | Inr (Inr (sep, kvs)) \<Rightarrow> size_list (size_prod (\<lambda>_. 0) size) kvs)") auto

definition json_pack_array_vals :: "val list \<Rightarrow> (buffer, unit) cfun" where
  "json_pack_array_vals vals =
     andthen json_pack_array_start (\<lambda>_.
       andthen (json_pack_vals_loop False vals) (\<lambda>_. json_pack_array_end))"

definition json_pack_map_val :: "val \<Rightarrow> (buffer, unit) cfun" where
  "json_pack_map_val v = (case v of VNvl kvs \<Rightarrow> json_pack_val v | _ \<Rightarrow> cerr (Errno EINVAL))"

subsection \<open>Reference output\<close>

definition json_esc :: "u8 \<Rightarrow> bytes" where
  "json_esc c =
     (if c = 8 then [92, 98] else if c = 12 then [92, 102] else if c = 10 then [92, 110]
      else if c = 13 then [92, 114] else if c = 9 then [92, 116]
      else if c \<le> 0x1f then 92 # 117 # hex4 (unat c)
      else if c = 34 \<or> c = 92 then [92, c] else [c])"

definition json_string :: "bytes \<Rightarrow> bytes" where
  "json_string s = [34] @ concat (map json_esc s) @ [34]"

text \<open>Outputs one after the other, with a separator before each but the first.\<close>

fun out_sep :: "bytes \<Rightarrow> bool \<Rightarrow> outp list \<Rightarrow> outp" where
  "out_sep sep started [] = out_bytes []"
| "out_sep sep started (x # xs) =
     out_seq (out_bytes (if started then sep else [])) (out_seq x (out_sep sep True xs))"

fun json_out :: "val \<Rightarrow> outp" where
  "json_out VNull = out_bytes (ascii ''null'')"
| "json_out (VInt i) = out_bytes (dec_of_nat (unat i))"
| "json_out (VStr s) = out_bytes (json_string s)"
| "json_out (VBool b) = out_bytes (ascii (if b then ''true'' else ''false''))"
| "json_out (VArray vs) =
     out_seq (out_bytes [91]) (out_seq (out_sep [44] False (map json_out vs)) (out_bytes [93]))"
| "json_out (VNvl kvs) =
     out_seq (out_bytes [123])
       (out_seq (out_sep [44] False (map (\<lambda>p. out_seq (out_bytes (json_string (fst p) @ [58])) (json_out (snd p))) kvs))
         (out_bytes [125]))"
| "json_out _ = out_fail ENOTSUP"

lemma snprintf_uint: "snprintf 33 (dec_of_nat (unat (v :: u64))) = dec_of_nat (unat v)"
proof -
  have "unat v < 10 ^ 20" using unat_less_2_64 [of v] by simp
  then show ?thesis using length_dec_of_nat [of "unat v" 20] by (simp add: snprintf_def)
qed

context appender
begin

lemma emits_cstr: "length s \<le> SSIZE_MAX \<Longrightarrow> emits (buffer_append_cstr s) (out_bytes s)"
  unfolding buffer_append_cstr_def by (rule emits_bytes) auto

lemma emits_c: "emits (buffer_append_c c) (out_bytes [c])"
  unfolding buffer_append_c_def by (rule emits_bytes) (auto simp: bound_simps)

lemma emits_char: "emits (json_pack_char c) (out_bytes (json_esc c))"
proof (cases "c \<le> 0x1f")
  case True
  have "unat (ucast c :: u32) = unat c" "ucast c \<le> (0xffff :: u32)"
    using unat_u8_less [of c] by (auto simp: word_le_nat_alt unsigned_ucast_eq take_bit_nat_eq_self)
  then have "escape_char (ucast c) = buffer_append_cstr (92 # 117 # hex4 (unat c))"
    by (simp add: escape_char_def snprintf_def hex4_def not_less [symmetric])
  then show ?thesis
    using True emits_cstr [of "92 # 117 # hex4 (unat c)"] emits_cstr [of "[92, d]" for d]
    by (auto simp: json_pack_char_def json_esc_def escape_ctrl_char_def Let_def hex4_def bound_simps)
next
  case False
  then have "c \<noteq> 8" "c \<noteq> 12" "c \<noteq> 10" "c \<noteq> 13" "c \<noteq> 9" by auto
  then show ?thesis
    using False emits_cstr [of "[92, c]"] emits_c [of c]
    by (auto simp: json_pack_char_def json_esc_def bound_simps)
qed

lemma emits_chars: "emits (json_chars_loop (length s) (s @ r)) (out_bytes (concat (map json_esc s)))"
proof (induction s)
  case (Cons c s)
  then show ?case using emits_seq [OF emits_char [of c] Cons.IH] by simp
qed (simp add: emits_ret del: cret_apply)

lemma emits_json_str: "emits (json_pack_str s) (out_bytes (json_string s))"
  using emits_seq [OF emits_c [of 34] emits_seq [OF emits_chars [of s "[0]"] emits_c [of 34]]]
  by (simp add: json_pack_str_def json_pack_cstr_len_def json_string_def)

lemma emits_json_pack:
  "val_wf v \<Longrightarrow> emits (json_pack_val v) (json_out v)"
  "\<forall>x \<in> set vs. val_wf x \<Longrightarrow> emits (json_pack_vals_loop sep vs) (out_sep [44] sep (map json_out vs))"
  "\<forall>p \<in> set kvs. val_wf (snd p) \<Longrightarrow> emits (json_pack_pairs_loop sep kvs)
     (out_sep [44] sep (map (\<lambda>p. out_seq (out_bytes (json_string (fst p) @ [58])) (json_out (snd p))) kvs))"
proof (induction v and sep vs and sep kvs rule: json_pack_val_json_pack_vals_loop_json_pack_pairs_loop.induct)
  case 1
  then show ?case using emits_cstr [of "ascii ''null''"] by (simp add: json_pack_null_def bound_simps)
next
  case (2 i)
  have "length (dec_of_nat (unat i)) \<le> SSIZE_MAX"
    using length_dec_of_nat [of "unat i" 20] unat_less_2_64 [of i] by (simp add: bound_simps)
  then show ?case using emits_cstr by (simp add: json_pack_uint_def snprintf_uint)
next
  case (3 s)
  then show ?case by (simp add: emits_json_str)
next
  case (5 b)
  then show ?case using emits_cstr [of "ascii (if b then ''true'' else ''false'')"]
    by (cases b) (simp_all add: json_pack_bool_def bound_simps)
next
  case (9 vals)
  then show ?case
    using emits_seq [OF emits_c [of 91] emits_seq [OF "9.IH" emits_c [of 93]]]
    by (simp add: json_pack_array_start_def json_pack_array_end_def)
next
  case (10 kvs)
  then show ?case
    using emits_seq [OF emits_c [of 123] emits_seq [OF "10.IH" emits_c [of 125]]]
    by (simp add: json_pack_map_start_def json_pack_map_end_def)
next
  case (11 sep)
  then show ?case using emits_ret by (simp del: cret_apply)
next
  case (12 sep v vals)
  have "emits (if sep then json_pack_array_elem_sep else cret ()) (out_bytes (if sep then [44] else []))"
    using emits_c [of 44] emits_ret by (simp add: json_pack_array_elem_sep_def del: cret_apply)
  from emits_seq [OF this emits_seq [OF "12.IH"(1) "12.IH"(2)]] "12.prems" show ?case by simp
next
  case (13 sep)
  then show ?case using emits_ret by (simp del: cret_apply)
next
  case (14 sep name v kvs)
  have s: "emits (if sep then json_pack_map_pair_sep else cret ()) (out_bytes (if sep then [44] else []))"
    using emits_c [of 44] emits_ret by (simp add: json_pack_map_pair_sep_def del: cret_apply)
  have c: "emits json_pack_map_name_sep (out_bytes [58])"
    unfolding json_pack_map_name_sep_def by (rule emits_c)
  from emits_seq [OF s emits_seq [OF emits_json_str [of name] emits_seq [OF c emits_seq [OF "14.IH"(1) "14.IH"(2)]]]]
    "14.prems"
  show ?case by (simp add: out_seq_assoc flip: out_seq_bytes)
qed (auto intro: emits_err simp del: cerr_apply)

end

subsection \<open>The JSON grammar\<close>

text \<open>
  Which bytes a text denotes (RFC 7159, without insignificant white space and with escapes \<open>\u\<close> for
  characters of one byte only).
\<close>

definition hex_digit_val :: "u8 \<Rightarrow> nat option" where
  "hex_digit_val c =
     (if 48 \<le> c \<and> c \<le> 57 then Some (unat c - 48)
      else if 65 \<le> c \<and> c \<le> 70 then Some (unat c - 55)
      else if 97 \<le> c \<and> c \<le> 102 then Some (unat c - 87) else None)"

inductive json_char :: "bytes \<Rightarrow> u8 \<Rightarrow> bool" where
  unescaped: "0x20 \<le> c \<Longrightarrow> c \<noteq> 34 \<Longrightarrow> c \<noteq> 92 \<Longrightarrow> json_char [c] c"
| quoted: "c \<in> {34, 92, 47} \<Longrightarrow> json_char [92, c] c"
| backspace: "json_char [92, 98] 8"
| form_feed: "json_char [92, 102] 12"
| line_feed: "json_char [92, 110] 10"
| carriage_return: "json_char [92, 114] 13"
| tab: "json_char [92, 116] 9"
| hex: "map hex_digit_val ds = [Some a, Some b, Some c, Some d] \<Longrightarrow>
    n = 4096 * a + 256 * b + 16 * c + d \<Longrightarrow> n < 128 \<Longrightarrow> json_char (92 # 117 # ds) (word_of_nat n)"

inductive json_chars :: "bytes \<Rightarrow> bytes \<Rightarrow> bool" where
  nil: "json_chars [] []"
| cons: "json_char e c \<Longrightarrow> json_chars es s \<Longrightarrow> json_chars (e @ es) (c # s)"

inductive json_value :: "bytes \<Rightarrow> val \<Rightarrow> bool"
  and json_elems :: "bytes \<Rightarrow> val list \<Rightarrow> bool"
  and json_members :: "bytes \<Rightarrow> nvpairs \<Rightarrow> bool" where
  null: "json_value (ascii ''null'') VNull"
| true: "json_value (ascii ''true'') (VBool True)"
| false: "json_value (ascii ''false'') (VBool False)"
| number: "ds \<noteq> [] \<Longrightarrow> list_all (is_digit_of 10) ds \<Longrightarrow> hd ds \<noteq> 48 \<or> length ds = 1 \<Longrightarrow>
    digits_val 10 ds < 2 ^ 64 \<Longrightarrow> json_value ds (VInt (word_of_nat (digits_val 10 ds)))"
| string: "json_chars es s \<Longrightarrow> json_value ([34] @ es @ [34]) (VStr s)"
| array_empty: "json_value [91, 93] (VArray [])"
| array: "json_elems es vs \<Longrightarrow> json_value ([91] @ es @ [93]) (VArray vs)"
| object_empty: "json_value [123, 125] (VNvl [])"
| object: "json_members ms kvs \<Longrightarrow> json_value ([123] @ ms @ [125]) (VNvl kvs)"
| elem: "json_value e v \<Longrightarrow> json_elems e [v]"
| elems: "json_value e v \<Longrightarrow> json_elems es vs \<Longrightarrow> json_elems (e @ [44] @ es) (v # vs)"
| member: "json_chars n name \<Longrightarrow> json_value e v \<Longrightarrow> json_members ([34] @ n @ [34, 58] @ e) [(name, v)]"
| members: "json_chars n name \<Longrightarrow> json_value e v \<Longrightarrow> json_members ms kvs \<Longrightarrow>
    json_members ([34] @ n @ [34, 58] @ e @ [44] @ ms) ((name, v) # kvs)"

text \<open>Values JSON packing supports, and their text.\<close>

fun json_plain :: "val \<Rightarrow> bool" where
  "json_plain (VArray vs) = (\<forall>v \<in> set vs. json_plain v)"
| "json_plain (VNvl kvs) = (\<forall>p \<in> set kvs. json_plain (snd p))"
| "json_plain (VSym s) = False"
| "json_plain (VCons h t) = False"
| "json_plain (VChar c) = False"
| "json_plain (VBlob bs) = False"
| "json_plain _ = True"

lemma hex_upper_val: "d < 16 \<Longrightarrow> hex_digit_val (hex_upper d) = Some d"
proof -
  have "list_all (\<lambda>d. hex_digit_val (hex_upper d) = Some d) [0..<16]" by code_simp
  then show "d < 16 \<Longrightarrow> ?thesis" by (simp add: list_all_iff)
qed

lemma json_char_esc: "json_char (json_esc c) c"
proof -
  have "json_char (92 # 117 # hex4 (unat c)) c" if "c \<le> 0x1f"
  proof -
    have n: "unat c < 32" using that by (simp add: word_le_nat_alt)
    then have "json_char (92 # 117 # hex4 (unat c)) (word_of_nat (unat c))"
      by (intro json_char.hex [where a = 0 and b = 0 and c = "unat c div 16" and d = "unat c mod 16"])
        (auto simp: hex4_def hex_upper_val [of 0, simplified] intro!: hex_upper_val)
    then show ?thesis by simp
  qed
  then show ?thesis
    by (auto simp: json_esc_def not_le word_less_nat_alt word_le_nat_alt intro: json_char.intros)
qed

lemma json_chars_esc: "json_chars (concat (map json_esc s)) s"
  by (induction s) (auto intro: json_chars.intros json_char_esc)

text \<open>The text of a sequence of values, after the first separator.\<close>

lemma out_sep_bytes:
  assumes "\<forall>x \<in> set xs. f x = out_bytes (g x)"
  shows "out_sep [44] True (map f xs) = out_bytes (concat (map (\<lambda>x. 44 # g x) xs))"
  using assms by (induction xs) auto

lemma hd_dec_of_nat: "hd (dec_of_nat n) \<noteq> 48 \<or> length (dec_of_nat n) = 1"
proof (induction n rule: dec_of_nat.induct)
  case (1 n)
  show ?case
  proof (cases "n < 10")
    case True
    then show ?thesis by (subst (2) dec_of_nat.simps) simp
  next
    case False
    have "hd (dec_of_nat (n div 10)) \<noteq> 48"
    proof (cases "n div 10 < 10")
      case True
      have "(word_of_nat (48 + n div 10) :: u8) \<noteq> 48"
      proof
        assume "(word_of_nat (48 + n div 10) :: u8) = 48"
        then have "unat (word_of_nat (48 + n div 10) :: u8) = 48" by simp
        then show False using unat_of_nat_u8 [of "48 + n div 10"] True False by simp
      qed
      then show ?thesis using True by (subst dec_of_nat.simps) simp
    next
      case 2: False
      then have "1 < length (dec_of_nat (n div 10))"
        by (subst dec_of_nat.simps) simp
      then show ?thesis using "1" False by simp
    qed
    moreover have "dec_of_nat n = dec_of_nat (n div 10) @ [word_of_nat (48 + n mod 10)]"
      using False by (subst dec_of_nat.simps) simp
    ultimately show ?thesis by simp
  qed
qed

lemma json_elems_sep:
  assumes "\<forall>v \<in> set vs. json_value (g v) v" and "json_value e v"
  shows "json_elems (e @ concat (map (\<lambda>v. 44 # g v) vs)) (v # vs)"
  using assms
proof (induction vs arbitrary: e v)
  case (Cons w vs)
  then show ?case using json_value_json_elems_json_members.elems [of e v "g w @ concat (map (\<lambda>v. 44 # g v) vs)" "w # vs"] by simp
qed (simp add: json_value_json_elems_json_members.elem)

lemma json_members_sep:
  assumes "\<forall>p \<in> set kvs. json_value (g (snd p)) (snd p)" and "json_value e v"
  shows "json_members (json_string name @ [58] @ e @ concat (map (\<lambda>p. 44 # json_string (fst p) @ [58] @ g (snd p)) kvs))
    ((name, v) # kvs)"
  using assms
proof (induction kvs arbitrary: e name v)
  case (Cons p kvs)
  then show ?case
    using json_value_json_elems_json_members.members [OF json_chars_esc [of name] Cons.prems(2) Cons.IH [of "g (snd p)" "snd p" "fst p"]]
    by (simp add: json_string_def)
next
  case Nil
  then show ?case
    using json_value_json_elems_json_members.member [OF json_chars_esc [of name] Nil.prems(2)] by (simp add: json_string_def)
qed

text \<open>The reference output of a supported value is a text that denotes it.\<close>

lemma json_out_denotes:
  "json_plain v \<Longrightarrow> \<exists>bs. json_out v = out_bytes bs \<and> json_value bs v"
proof (induction v)
  case (VInt i)
  have "json_value (dec_of_nat (unat i)) (VInt (word_of_nat (digits_val 10 (dec_of_nat (unat i)))))"
    using dec_of_nat_digits hd_dec_of_nat unat_less_2_64 [of i]
    by (intro json_value_json_elems_json_members.number) (auto simp: dec_of_nat_val)
  then show ?case by (auto simp: dec_of_nat_val)
next
  case (VStr s)
  show ?case
    using json_value_json_elems_json_members.string [OF json_chars_esc [of s]] by (auto simp: json_string_def)
next
  case (VBool b)
  show ?case by (cases b) (auto intro: json_value_json_elems_json_members.intros simp del: ascii_simps)
next
  case (VArray vs)
  then have "\<forall>v \<in> set vs. \<exists>bs. json_out v = out_bytes bs \<and> json_value bs v" by auto
  then obtain g where g: "\<forall>v \<in> set vs. json_out v = out_bytes (g v) \<and> json_value (g v) v"
    by metis
  show ?case
  proof (cases vs)
    case (Cons w ws)
    have "out_sep [44] False (map json_out vs) = out_bytes (g w @ concat (map (\<lambda>v. 44 # g v) ws))"
      using g Cons out_sep_bytes [of ws json_out g] by simp
    moreover have "json_elems (g w @ concat (map (\<lambda>v. 44 # g v) ws)) vs"
      using g Cons json_elems_sep [of ws g "g w" w] by simp
    ultimately show ?thesis
      using json_value_json_elems_json_members.array [of "g w @ concat (map (\<lambda>v. 44 # g v) ws)" vs] by auto
  qed (auto intro: json_value_json_elems_json_members.array_empty)
next
  case (VNvl kvs)
  then have "\<forall>v \<in> snd ` set kvs. \<exists>bs. json_out v = out_bytes bs \<and> json_value bs v" by (auto simp: snds.simps)
  then obtain g where g: "\<forall>v \<in> snd ` set kvs. json_out v = out_bytes (g v) \<and> json_value (g v) v"
    by metis
  let ?f = "\<lambda>p. out_seq (out_bytes (json_string (fst p) @ [58])) (json_out (snd p))"
  show ?case
  proof (cases kvs)
    case (Cons p ps)
    have "out_sep [44] False (map ?f kvs) =
        out_bytes (json_string (fst p) @ [58] @ g (snd p) @ concat (map (\<lambda>p. 44 # json_string (fst p) @ [58] @ g (snd p)) ps))"
      using g Cons out_sep_bytes [of ps ?f "\<lambda>p. json_string (fst p) @ [58] @ g (snd p)"] by simp
    moreover have m: "json_members (json_string (fst p) @ [58] @ g (snd p) @
        concat (map (\<lambda>p. 44 # json_string (fst p) @ [58] @ g (snd p)) ps)) kvs"
      using g Cons json_members_sep [of ps g "g (snd p)" "snd p" "fst p"] by simp
    ultimately show ?thesis using json_value_json_elems_json_members.object [OF m] by auto
  qed (auto intro: json_value_json_elems_json_members.object_empty)
qed (auto intro: json_value_json_elems_json_members.null simp del: ascii_simps)

end
