(* ===== verification/ValPack.thy ===== *)
theory ValPack
  imports Cbor Json
begin

text \<open>
  Serialising values in a chosen format: \<^verbatim>\<open>src/val_pack.c\<close>, \<^verbatim>\<open>src/val_unpack.c\<close>,
  \<^verbatim>\<open>src/val_impl_packing.h\<close>, and the functions of \<^verbatim>\<open>src/nvl.c\<close> and \<^verbatim>\<open>src/include/jeffpc/nvl.h\<close> that do the
  same for nvlists. The three ways to pack (measuring, into memory of the caller, into a new buffer) run
  the same code on the three kinds of buffers; that they agree follows from the interpretations of
  \<open>appender\<close>.
\<close>

subsection \<open>Operations\<close>

record valops =
  vo_pack :: "(val \<Rightarrow> (buffer, unit) cfun) option"
  vo_unpack :: "(buffer, val) cfun option"

definition valops_cbor :: "bool \<Rightarrow> valops" where
  "valops_cbor big = \<lparr>vo_pack = Some (cbor_pack_val big), vo_unpack = Some cbor_unpack_val\<rparr>"

definition valops_json :: valops where
  "valops_json = \<lparr>vo_pack = Some json_pack_val, vo_unpack = None\<rparr>"

definition select_ops :: "bool \<Rightarrow> val_format \<Rightarrow> valops option" where
  "select_ops big format =
     (case format of VF_CBOR \<Rightarrow> Some (valops_cbor big) | VF_JSON \<Rightarrow> Some valops_json | VF_OTHER \<Rightarrow> None)"

definition do_val_pack :: "bool \<Rightarrow> val \<Rightarrow> val_format \<Rightarrow> (buffer, unit) cfun" where
  "do_val_pack big v format =
     (case select_ops big format of
        None \<Rightarrow> cerr (Errno ENOTSUP)
      | Some ops \<Rightarrow> (case vo_pack ops of None \<Rightarrow> cerr (Errno ENOTSUP) | Some pack \<Rightarrow> pack v))"

text \<open>The result, and the caller's memory afterwards.\<close>

definition val_pack_into :: "bool \<Rightarrow> val \<Rightarrow> bytes \<Rightarrow> nat \<Rightarrow> val_format \<Rightarrow> mem \<Rightarrow> nat res \<times> bytes" where
  "val_pack_into big v buf bufsize format m =
     (case buffer_init_static (Some buf) 0 bufsize True m of
        Inl e \<Rightarrow> (Inl e, buf)
      | Inr b \<Rightarrow>
          (case do_val_pack big v format b of
             (Inl e, b') \<Rightarrow> (Inl e, case b_data b' of None \<Rightarrow> [] | Some d \<Rightarrow> d)
           | (Inr _, b') \<Rightarrow> (Inr (buffer_size b'), case b_data b' of None \<Rightarrow> [] | Some d \<Rightarrow> d)))"

definition val_pack :: "bool \<Rightarrow> val \<Rightarrow> val_format \<Rightarrow> mem \<Rightarrow> buffer res \<times> mem" where
  "val_pack big v format m =
     (case buffer_alloc 1024 m of
        (Inl e, m') \<Rightarrow> (Inl e, m')
      | (Inr b, m') \<Rightarrow>
          (case do_val_pack big v format b of
             (Inr _, b') \<Rightarrow> (Inr b', b_mem b')
           | (Inl e, b') \<Rightarrow> (Inl e, b_mem b')))"

definition val_size :: "bool \<Rightarrow> val \<Rightarrow> val_format \<Rightarrow> mem \<Rightarrow> nat res" where
  "val_size big v format m =
     (case do_val_pack big v format (buffer_init_sink m) of
        (Inl e, _) \<Rightarrow> Inl e
      | (Inr _, b') \<Rightarrow> Inr (buffer_size b'))"

definition val_unpack :: "bool \<Rightarrow> bytes option \<Rightarrow> nat \<Rightarrow> val_format \<Rightarrow> mem \<Rightarrow> val res \<times> mem" where
  "val_unpack big ptr len format m =
     (case select_ops big format of
        None \<Rightarrow> (fail ENOTSUP, m)
      | Some ops \<Rightarrow>
          (case vo_unpack ops of
             None \<Rightarrow> (fail ENOTSUP, m)
           | Some unpack \<Rightarrow>
               (case buffer_init_static ptr len len False m of
                  Inl e \<Rightarrow> (Inl e, m)
                | Inr b \<Rightarrow> (case unpack b of (r, b') \<Rightarrow> (r, b_mem b')))))"

definition nvl_unpack :: "bool \<Rightarrow> bytes option \<Rightarrow> nat \<Rightarrow> val_format \<Rightarrow> mem \<Rightarrow> nvpairs res \<times> mem" where
  "nvl_unpack big ptr len format m =
     (case val_unpack big ptr len format m of
        (Inl e, m') \<Rightarrow> (Inl e, m')
      | (Inr v, m') \<Rightarrow> (case v of VNvl kvs \<Rightarrow> (Inr kvs, m') | _ \<Rightarrow> (fail EINVAL, m')))"

definition nvl_size :: "bool \<Rightarrow> nvpairs \<Rightarrow> val_format \<Rightarrow> mem \<Rightarrow> nat res" where
  "nvl_size big nvl = val_size big (VNvl nvl)"

definition nvl_pack_into :: "bool \<Rightarrow> nvpairs \<Rightarrow> bytes \<Rightarrow> nat \<Rightarrow> val_format \<Rightarrow> mem \<Rightarrow> nat res \<times> bytes" where
  "nvl_pack_into big nvl = val_pack_into big (VNvl nvl)"

definition nvl_pack :: "bool \<Rightarrow> nvpairs \<Rightarrow> val_format \<Rightarrow> mem \<Rightarrow> buffer res \<times> mem" where
  "nvl_pack big nvl = val_pack big (VNvl nvl)"

subsection \<open>The three kinds of packing\<close>

text \<open>The reference output in a format.\<close>

definition val_out :: "val_format \<Rightarrow> val \<Rightarrow> outp" where
  "val_out format v =
     (case format of VF_CBOR \<Rightarrow> cbor_out v | VF_JSON \<Rightarrow> json_out v | VF_OTHER \<Rightarrow> out_fail ENOTSUP)"

context appender
begin

lemma emits_do_val_pack: "val_wf v \<Longrightarrow> emits (do_val_pack big v format) (val_out format v)"
  using emits_cbor_pack(1) [of v big] emits_json_pack(1) [of v] emits_err [of ENOTSUP]
  by (cases format) (simp_all add: do_val_pack_def select_ops_def valops_cbor_def valops_json_def val_out_def
      del: cerr_apply)

end

lemma val_size_out:
  assumes "val_wf v" and "length (fst (val_out format v)) \<le> SSIZE_MAX"
  shows "val_size big v format m =
    (case snd (val_out format v) of Inl e \<Rightarrow> Inl e | Inr _ \<Rightarrow> Inr (length (fst (val_out format v))))"
proof -
  have "sink_room (length (fst (val_out format v))) (buffer_init_sink m)"
    using assms(2) by (simp add: sink_room_def buf_wf_def buffer_init_sink_def bound_simps)
  from sink.emits_ok [OF sink.emits_do_val_pack [OF assms(1), of big format] this order.refl]
  show ?thesis
    by (auto simp: val_size_def size_grown_def buffer_size_def buffer_init_sink_def split: sum.splits)
qed

lemma val_pack_into_out:
  assumes "val_wf v" and "bufsize \<le> length buf" and "length buf \<le> SSIZE_MAX"
  shows "length (fst (val_out format v)) \<le> bufsize \<Longrightarrow> snd (val_out format v) = Inr () \<Longrightarrow>
      \<exists>buf'. val_pack_into big v buf bufsize format m = (Inr (length (fst (val_out format v))), buf') \<and>
        take (length (fst (val_out format v))) buf' = fst (val_out format v)"
    and "length (fst (val_out format v)) \<le> bufsize \<Longrightarrow> snd (val_out format v) = Inl e \<Longrightarrow>
      fst (val_pack_into big v buf bufsize format m) = Inl e"
    and "bufsize < length (fst (val_out format v)) \<Longrightarrow>
      fst (val_pack_into big v buf bufsize format m) = fail ENOSPC"
proof -
  obtain b where b: "buffer_init_static (Some buf) 0 bufsize True m = Inr b" "static_room bufsize b"
    "contents b = []"
    using assms(2,3) by (auto simp: buffer_init_static_def static_room_def buf_wf_def contents_def bound_simps)
  note emits = static.emits_do_val_pack [OF assms(1), of big format]
  show "\<exists>buf'. val_pack_into big v buf bufsize format m = (Inr (length (fst (val_out format v))), buf') \<and>
      take (length (fst (val_out format v))) buf' = fst (val_out format v)"
    if fits: "length (fst (val_out format v)) \<le> bufsize" and ok: "snd (val_out format v) = Inr ()"
  proof -
    from static.emits_ok [OF emits b(2) fits] obtain b' where
      b': "do_val_pack big v format b = (Inr (), b')" "contents b' = fst (val_out format v)" "buf_wf b'"
      "b_ops b' = static_buffer_rw"
      by (auto simp: data_grown_def static_room_def ok b(3))
    have "length (contents b') = b_size b'" using b' by (intro length_contents) auto
    with b' b(1) show ?thesis
      by (auto simp: val_pack_into_def buffer_size_def contents_def split: option.splits)
  qed
  show "fst (val_pack_into big v buf bufsize format m) = Inl e"
    if fits: "length (fst (val_out format v)) \<le> bufsize" and err: "snd (val_out format v) = Inl e"
    using static.emits_ok [OF emits b(2) fits] b(1) by (auto simp: val_pack_into_def err)
  show "fst (val_pack_into big v buf bufsize format m) = fail ENOSPC"
    if small: "bufsize < length (fst (val_out format v))"
    using static.emits_full [OF emits b(2) small refl] b(1) by (auto simp: val_pack_into_def)
qed

lemma buffer_alloc_good:
  assumes "mem_plenty m"
  obtains b m' where "buffer_alloc 1024 m = (Inr b, m')" and "good_heap b" and "contents b = []" and "b_off b = 0"
    and "b_size b = 0"
proof -
  define m1 where "m1 = m\<lparr>m_next := Suc (m_next m)\<rparr>"
  obtain d where d: "c_malloc sizeof_buffer m = (Some d, m1)"
    using c_realloc_plenty [OF assms, of sizeof_buffer "[]"]
    by (auto simp: c_malloc_def m1_def sizeof_buffer_def bound_simps)
  have m1: "mem_plenty m1" using assms by (simp add: m1_def)
  obtain d1 where "c_realloc [] 1024 m1 = (Some d1, m1\<lparr>m_next := Suc (m_next m1)\<rparr>)"
    using c_realloc_plenty [OF m1, of 1024 "[]"] by (auto simp: bound_simps)
  then obtain b m' where b: "buffer_init_heap 1024 m1 = (Inr b, m')"
    by (auto simp: buffer_init_heap_def c_malloc_def)
  have "1024 \<le> SSIZE_MAX" by (simp add: bound_simps)
  note h = buffer_init_heap_good [OF this m1 b]
  have "good_heap (b\<lparr>b_heap := True\<rparr>)" "contents (b\<lparr>b_heap := True\<rparr>) = []"
    using h by (auto simp: good_heap_def buf_wf_def contents_def split: option.splits)
  then show thesis using that d b h(3,4) by (simp add: buffer_alloc_def)
qed

lemma val_pack_out:
  assumes "val_wf v" and "length (fst (val_out format v)) \<le> SSIZE_MAX" and "mem_plenty m"
  shows "case snd (val_out format v) of
      Inl e \<Rightarrow> fst (val_pack big v format m) = Inl e
    | Inr _ \<Rightarrow> \<exists>b m'. val_pack big v format m = (Inr b, m') \<and> good_heap b \<and> contents b = fst (val_out format v) \<and> b_off b = 0"
proof -
  obtain b m' where b: "buffer_alloc 1024 m = (Inr b, m')" "good_heap b" "contents b = []" "b_off b = 0" "b_size b = 0"
    using buffer_alloc_good [OF assms(3)] .
  have "heap_room (length (fst (val_out format v))) b" using b assms(2) by (simp add: heap_room_def)
  from heap.emits_ok [OF heap.emits_do_val_pack [OF assms(1), of big format] this order.refl] b
  show ?thesis
    by (auto simp: val_pack_def data_grown_def heap_room_def split: sum.splits)
qed

subsection \<open>Properties\<close>

text \<open>
  C14. The size that \<open>val_size\<close> reports is the size that is needed, for both formats: packing into memory of
  at least that size succeeds, reports the same size and writes the same bytes as packing into a new buffer,
  and into less memory fails with \<open>-ENOSPC\<close>. When \<open>val_size\<close> fails, so does packing into memory.
\<close>

theorem val_size_tight:
  assumes "val_wf v" and "length (fst (val_out format v)) \<le> SSIZE_MAX"
    and "bufsize \<le> length buf" and "length buf \<le> SSIZE_MAX" and "mem_plenty m"
  shows "case val_size big v format m of
      Inl e \<Rightarrow> fst (val_pack_into big v buf bufsize format m) \<in> {Inl e, fail ENOSPC} \<and>
        fst (val_pack big v format m) = Inl e
    | Inr n \<Rightarrow>
        (if n \<le> bufsize
         then \<exists>buf' b m'. val_pack_into big v buf bufsize format m = (Inr n, buf') \<and>
           val_pack big v format m = (Inr b, m') \<and> contents b = take n buf'
         else fst (val_pack_into big v buf bufsize format m) = fail ENOSPC)"
proof (cases "snd (val_out format v)")
  case (Inl e)
  then show ?thesis
    using val_size_out [OF assms(1,2)] val_pack_into_out(2,3) [OF assms(1,3,4)] val_pack_out [OF assms(1,2,5), of big]
    by (cases "length (fst (val_out format v)) \<le> bufsize") auto
next
  case (Inr u)
  then show ?thesis
    using val_size_out [OF assms(1,2)] val_pack_into_out(1,3) [OF assms(1,3,4)] val_pack_out [OF assms(1,2,5), of big]
    by (cases "length (fst (val_out format v)) \<le> bufsize") (auto simp: not_le, metis)
qed

theorem val_size_tight_witness:
  "val_size False (VArray [VNull, VInt 7]) VF_JSON plain_mem = Inr 8 \<and>
   (\<exists>buf'. val_pack_into False (VArray [VNull, VInt 7]) (replicate 10 0) 10 VF_JSON plain_mem = (Inr 8, buf')) \<and>
   fst (val_pack_into False (VArray [VNull, VInt 7]) (replicate 10 0) 7 VF_JSON plain_mem) = fail ENOSPC"
proof -
  let ?v = "VArray [VNull, VInt 7]"
  have out: "length (fst (val_out VF_JSON ?v)) = 8" "snd (val_out VF_JSON ?v) = Inr ()"
    by (simp_all add: val_out_def dec_of_nat.simps [of 7])
  have wf: "val_wf ?v" by (simp add: bound_simps)
  have s: "val_size False ?v VF_JSON plain_mem = Inr 8"
    using val_size_out [OF wf, of VF_JSON False plain_mem] out by (simp add: bound_simps)
  from val_size_tight [OF wf _ _ _ mem_plenty_plain, of VF_JSON 10 "replicate 10 0" False]
    val_size_tight [OF wf _ _ _ mem_plenty_plain, of VF_JSON 7 "replicate 10 0" False] out(1) s
  show ?thesis by (auto simp: bound_simps)
qed

text \<open>
  C15. What is packed as JSON is JSON: for a value made of null, integers, strings, booleans, arrays and
  nvlists, \<open>val_pack\<close> gives a buffer whose text is derivable in the JSON grammar and denotes the value.
\<close>

theorem json_pack_denotes:
  assumes "val_wf v" and "json_plain v" and "length (fst (json_out v)) \<le> SSIZE_MAX" and "mem_plenty m"
  shows "\<exists>b m'. val_pack big v VF_JSON m = (Inr b, m') \<and> json_value (contents b) v"
proof -
  from json_out_denotes [OF assms(2)] obtain bs where bs: "json_out v = out_bytes bs" "json_value bs v" by blast
  then show ?thesis
    using val_pack_out [OF assms(1) _ assms(4), of VF_JSON big] assms(3) by (auto simp: val_out_def)
qed

theorem json_pack_denotes_witness:
  "\<exists>b m'. val_pack False (VNvl [([97], VStr [34, 1])]) VF_JSON plain_mem = (Inr b, m') \<and>
     json_value (contents b) (VNvl [([97], VStr [34, 1])])"
proof -
  have "val_wf (VNvl [([97], VStr [34, 1])])" "json_plain (VNvl [([97], VStr [34, 1])])"
    by (simp_all add: cstr_wf_def bound_simps)
  moreover have "length (fst (json_out (VNvl [([97], VStr [34, 1])]))) \<le> SSIZE_MAX"
    by (simp add: json_string_def json_esc_def hex4_def bound_simps)
  ultimately show ?thesis using json_pack_denotes mem_plenty_plain by blast
qed

text \<open>
  C16. An nvlist of null, integers, strings, booleans, arrays and nvlists that is packed as CBOR is unpacked
  from the buffer's memory unchanged; unpacking any other value as an nvlist is \<open>-EINVAL\<close>, and there is no
  unpacking of JSON.
\<close>

theorem nvl_pack_unpack:
  assumes "val_wf v" and "cbor_plain v" and "length (cbor_bytes v) \<le> SSIZE_MAX" and "mem_plenty m"
  shows "\<exists>b m'. val_pack big v VF_CBOR m = (Inr b, m') \<and>
    fst (nvl_unpack big (b_data b) (b_size b) VF_CBOR m') = (case v of VNvl kvs \<Rightarrow> Inr kvs | _ \<Rightarrow> fail EINVAL) \<and>
    fst (nvl_unpack big (b_data b) (b_size b) VF_JSON m') = fail ENOTSUP"
proof -
  have out: "val_out VF_CBOR v = out_bytes (cbor_bytes v)"
    using cbor_out_plain [OF assms(2)] by (simp add: val_out_def)
  obtain b m' where b: "val_pack big v VF_CBOR m = (Inr b, m')" "good_heap b" "contents b = cbor_bytes v"
    using val_pack_out [OF assms(1) _ assms(4), of VF_CBOR big] assms(3) by (auto simp: out)
  have m': "mem_plenty m'"
    using b(1,2) by (auto simp: val_pack_def good_heap_def split: prod.splits sum.splits)
  obtain t where t: "buffer_init_static (b_data b) (b_size b) (b_size b) False m' = Inr t"
    "at t (cbor_bytes v @ [])" "b_mem t = m'"
    using b(2,3) by (auto simp: buffer_init_static_def at_def buf_wf_def contents_def good_heap_def bound_simps
        split: option.splits)
  have "mem_plenty (b_mem t)" using t(3) m' by simp
  from backed.parses_cbor_unpack_val [OF assms(1,2)] t(2) this obtain m1 where
    "cbor_unpack_val t = (Inr v, adv t (length (cbor_bytes v)) m1)" by (rule backed.parsesE)
  then show ?thesis
    using b(1) t(1)
    by (auto simp: nvl_unpack_def val_unpack_def select_ops_def valops_cbor_def valops_json_def split: val.splits)
qed

theorem nvl_pack_unpack_witness:
  "\<exists>b m'. nvl_pack True [([97], VBool True)] VF_CBOR plain_mem = (Inr b, m') \<and>
     fst (nvl_unpack True (b_data b) (b_size b) VF_CBOR m') = Inr [([97], VBool True)]"
proof -
  let ?v = "VNvl [([97], VBool True)]"
  have "val_wf ?v" "cbor_plain ?v" "length (cbor_bytes ?v) \<le> SSIZE_MAX"
    by (simp_all add: cstr_wf_def cbor_head_def cbor_text_def bound_simps)
  then show ?thesis
    using nvl_pack_unpack [of ?v plain_mem True] by (auto simp: nvl_pack_def)
qed

end
