(* ===== verification/Qstring.thy ===== *)
theory Qstring
  imports Nvl UrlDecode
begin

text \<open>
  Query strings: \<open>urldecode_str\<close> of \<^verbatim>\<open>src/urldecode.c\<close>, \<^verbatim>\<open>src/qstring.c\<close> and
  \<^verbatim>\<open>src/include/jeffpc/qstring.h\<close>. The parser walks over the string with offsets for the current name and
  value and inserts pairs into an nvlist. It is compared with a reference that splits the string at its
  separators first.
\<close>

subsection \<open>Operations\<close>

text \<open>A local array: bytes nobody wrote yet.\<close>

definition stack_block :: "mem \<Rightarrow> nat \<Rightarrow> bytes" where
  "stack_block m n = map (m_fresh m (m_next m)) [0..<n]"

definition urldecode_str :: "bytes option \<Rightarrow> nat \<Rightarrow> (mem, val) cfun" where
  "urldecode_str inp len m =
     (case urldecode inp len (Some (stack_block m len)) of
        (Inl e, _) \<Rightarrow> (Inl e, m)
      | (Inr outlen, out) \<Rightarrow> strsym_dup_len (Some out) outlen VT_STR m)"

text \<open>A C string at the start of an object: its characters up to the nul.\<close>

definition cstr_of :: "bytes \<Rightarrow> bytes" where
  "cstr_of obj = takeWhile (\<lambda>c. c \<noteq> 0) obj"

text \<open>
  \<open>insert\<close>: \<open>namestart\<close> and \<open>valstart\<close> are the rest of the query string from there on. The decoded name is
  used as a C string, so it ends at the first nul.
\<close>

definition qs_insert :: "bytes \<Rightarrow> nat \<Rightarrow> bytes option \<Rightarrow> nat \<Rightarrow> (nvstate, unit) cfun" where
  "qs_insert namestart namelen valstart vallen s =
     (case urldecode (Some namestart) namelen (Some (stack_block (snd s) (namelen + 1))) of
        (Inl e, _) \<Rightarrow> (Inl e, s)
      | (Inr newlen, name) \<Rightarrow>
          if length name \<le> newlen then (Inl Fault, s)
          else
            let cname = cstr_of (name[newlen := 0])
            in case valstart of
                 None \<Rightarrow> nvl_set_null cname s
               | Some valstart \<Rightarrow>
                   andthen (on_mem (if vallen = 0 then cret (VStr []) else urldecode_str (Some valstart) vallen))
                     (\<lambda>v. case v of VStr str \<Rightarrow> nvl_set_str cname str | _ \<Rightarrow> cerr Panic) s)"

text \<open>The parser ignores what \<open>insert\<close> returns.\<close>

definition ignoring :: "('s, unit) cfun \<Rightarrow> ('s, unit) cfun" where
  "ignoring f s = (case f s of (Inl (Errno _), s') \<Rightarrow> (Inr (), s') | (r, s') \<Rightarrow> (r, s'))"

datatype qs_state = QS_STATE_NAME | QS_STATE_VAL

text \<open>The local variables of \<open>qstring_parse_len\<close>, pointers as offsets into the string.\<close>

record qs_locals =
  q_state :: qs_state
  q_name :: nat
  q_name_len :: nat
  q_val :: nat

text \<open>The body of the loop, at the character \<open>c\<close> with offset \<open>cur\<close>.\<close>

definition qs_step :: "bytes \<Rightarrow> u8 \<Rightarrow> nat \<Rightarrow> qs_locals \<Rightarrow> (nvstate, qs_locals) cfun" where
  "qs_step qs c cur q =
     (case q_state q of
        QS_STATE_NAME \<Rightarrow>
          if c = 61 then cret (q\<lparr>q_name_len := cur - q_name q, q_val := cur + 1, q_state := QS_STATE_VAL\<rparr>)
          else if c = 38 then
            andthen (ignoring (qs_insert (drop (q_name q) qs) (cur - q_name q) None 0)) (\<lambda>_.
              cret (q\<lparr>q_name := cur + 1, q_state := QS_STATE_NAME\<rparr>))
          else cret q
      | QS_STATE_VAL \<Rightarrow>
          if c = 38 then
            andthen (ignoring (qs_insert (drop (q_name q) qs) (q_name_len q)
              (Some (drop (q_val q) qs)) (cur - q_val q))) (\<lambda>_.
                cret (q\<lparr>q_name := cur + 1, q_state := QS_STATE_NAME\<rparr>))
          else if c = 61 then cerr (Errno EILSEQ)
          else cret q)"

primrec qs_loop :: "bytes \<Rightarrow> nat \<Rightarrow> nat \<Rightarrow> qs_locals \<Rightarrow> (nvstate, qs_locals) cfun" where
  "qs_loop qs 0 cur q = cret q"
| "qs_loop qs (Suc left) cur q =
     (if length qs \<le> cur then cerr Fault
      else andthen (qs_step qs (qs ! cur) cur q) (\<lambda>q'. qs_loop qs left (cur + 1) q'))"

definition qs_last :: "bytes \<Rightarrow> nat \<Rightarrow> qs_locals \<Rightarrow> (nvstate, unit) cfun" where
  "qs_last qs len q =
     (if q_state q = QS_STATE_NAME then
        if q_name q < len then ignoring (qs_insert (drop (q_name q) qs) (len - q_name q) None 0) else cret ()
      else if q_val q = len then
        ignoring (qs_insert (drop (q_name q) qs) (q_name_len q) (Some (drop (q_val q) qs)) 0)
      else if q_val q < len then
        ignoring (qs_insert (drop (q_name q) qs) (q_name_len q) (Some (drop (q_val q) qs)) (len - q_val q))
      else cret ())"

text \<open>\<open>has_nvl\<close> says whether the pointer to the list is not null.\<close>

definition qstring_parse_len :: "bool \<Rightarrow> bytes option \<Rightarrow> nat \<Rightarrow> (nvstate, unit) cfun" where
  "qstring_parse_len has_nvl qs len =
     (if \<not> has_nvl then cerr (Errno EINVAL)
      else case qs of
        None \<Rightarrow> if len = 0 then cret () else cerr (Errno EINVAL)
      | Some qs \<Rightarrow>
          andthen (qs_loop qs len 0
            \<lparr>q_state = QS_STATE_NAME, q_name = 0, q_name_len = 0, q_val = 0\<rparr>) (qs_last qs len))"

definition qstring_parse :: "bool \<Rightarrow> bytes option \<Rightarrow> (nvstate, unit) cfun" where
  "qstring_parse has_nvl qs =
     qstring_parse_len has_nvl (map_option (\<lambda>s. s @ [0]) qs) (case qs of None \<Rightarrow> 0 | Some s \<Rightarrow> length s)"

subsection \<open>Reference\<close>

fun split_on :: "'a \<Rightarrow> 'a list \<Rightarrow> 'a list list" where
  "split_on x [] = [[]]"
| "split_on x (c # cs) =
     (if c = x then [] # split_on x cs else (c # hd (split_on x cs)) # tl (split_on x cs))"

text \<open>A pair with a name or a value that cannot be decoded is dropped.\<close>

definition qs_put :: "bytes \<Rightarrow> bytes option \<Rightarrow> nvpairs \<Rightarrow> nvpairs" where
  "qs_put n v nvl =
     (case (url_spec n, v) of
        (None, _) \<Rightarrow> nvl
      | (Some name, None) \<Rightarrow> nv_put (cstr_of name) VNull nvl
      | (Some name, Some v) \<Rightarrow>
          (case url_spec v of None \<Rightarrow> nvl | Some str \<Rightarrow> nv_put (cstr_of name) (VStr (cstr_of str)) nvl))"

text \<open>One segment: a name, or a name and a value; more than one \<open>=\<close> is an error.\<close>

definition qs_segment :: "bytes \<Rightarrow> nvpairs \<Rightarrow> nvpairs option" where
  "qs_segment seg nvl =
     (case split_on 61 seg of
        [n] \<Rightarrow> Some (qs_put n None nvl)
      | [n, v] \<Rightarrow> Some (qs_put n (Some v) nvl)
      | _ \<Rightarrow> None)"

text \<open>The segments in order, up to the first that is an error; an empty one at the end does not count.\<close>

fun qs_segments :: "bytes list \<Rightarrow> nvpairs \<Rightarrow> unit res \<times> nvpairs" where
  "qs_segments [] nvl = (Inr (), nvl)"
| "qs_segments (seg # segs) nvl =
     (if segs = [] \<and> seg = [] then (Inr (), nvl)
      else case qs_segment seg nvl of None \<Rightarrow> (fail EILSEQ, nvl) | Some nvl' \<Rightarrow> qs_segments segs nvl')"

definition qs_spec :: "bytes \<Rightarrow> nvpairs \<Rightarrow> unit res \<times> nvpairs" where
  "qs_spec qs nvl = qs_segments (split_on 38 qs) nvl"

lemma split_on_nonempty [simp]: "split_on x s \<noteq> []"
  by (cases s) auto

lemma split_on_append: "x \<notin> set p \<Longrightarrow> split_on x (p @ s) = (p @ hd (split_on x s)) # tl (split_on x s)"
  by (induction p) auto

lemma split_on_none: "x \<notin> set p \<Longrightarrow> split_on x p = [p]"
  using split_on_append [of x p "[]"] by simp

lemma qs_segment_name: "61 \<notin> set n \<Longrightarrow> qs_segment n nvl = Some (qs_put n None nvl)"
  by (simp add: qs_segment_def split_on_none)

lemma qs_segment_val: "61 \<notin> set n \<Longrightarrow> 61 \<notin> set v \<Longrightarrow> qs_segment (n @ 61 # v) nvl = Some (qs_put n (Some v) nvl)"
  by (simp add: qs_segment_def split_on_append split_on_none)

lemma qs_segment_bad: "61 \<notin> set n \<Longrightarrow> 61 \<notin> set v \<Longrightarrow> qs_segment (n @ 61 # v @ 61 # w) nvl = None"
  by (simp add: qs_segment_def split_on_append split: list.splits)

subsection \<open>Inserting\<close>

lemma takeWhile_stop: "takeWhile P (xs @ y # ys) = takeWhile P xs" if "\<not> P y"
  using that by (induction xs) auto

lemma cstr_of_nul: "n < length s \<Longrightarrow> take n s = r \<Longrightarrow> cstr_of (s[n := 0]) = cstr_of r"
  by (simp add: upd_conv_take_nth_drop cstr_of_def takeWhile_stop)

lemma cstr_of_wf: "length r < SSIZE_MAX \<Longrightarrow> cstr_wf (cstr_of r)"
  using length_takeWhile_le [of "\<lambda>c. c \<noteq> 0" r] by (auto simp: cstr_wf_def cstr_of_def dest: set_takeWhileD)

lemma length_stack_block [simp]: "length (stack_block m n) = n"
  by (simp add: stack_block_def)

lemma yields_dup_len:
  assumes "n \<le> length obj" and "n < SSIZE_MAX"
  shows "yields (strsym_dup_len (Some obj) n VT_STR) (VStr (cstr_of (take n obj)))"
proof -
  let ?k = "length (takeWhile (\<lambda>c. c \<noteq> 0) (take n obj))"
  have k: "?k \<le> n" using length_takeWhile_le [of "\<lambda>c. c \<noteq> 0" "take n obj"] by simp
  have "strnlen obj n = Some ?k" using assms(1) by (simp add: strnlen_def)
  moreover have "take ?k obj = cstr_of (take n obj)"
    using k by (metis cstr_of_def min.absorb1 take_take takeWhile_eq_take)
  moreover have "?k < SSIZE_MAX" using k assms(2) by simp
  ultimately show ?thesis
    using yields_strsym [of VT_STR True False obj n ?k] by (simp add: strsym_dup_len_def mk_strsym_def)
qed

lemma urldecode_str_plenty:
  assumes "mem_plenty m" and "len \<le> length inp" and "len < SSIZE_MAX"
  shows "case url_spec (take len inp) of
      None \<Rightarrow> urldecode_str (Some inp) len m = (fail EILSEQ, m)
    | Some r \<Rightarrow> \<exists>m'. urldecode_str (Some inp) len m = (Inr (VStr (cstr_of r)), m') \<and> mem_ext m m'"
proof (cases "url_spec (take len inp)")
  case None
  then show ?thesis using urldecode_decodes [OF assms(2), of "stack_block m len"]
    by (cases "urldecode (Some inp) len (Some (stack_block m len))") (simp add: urldecode_str_def)
next
  case (Some r)
  then obtain out where out: "urldecode (Some inp) len (Some (stack_block m len)) = (Inr (length r), out)"
    "take (length r) out = r" "length out = len"
    using urldecode_decodes [OF assms(2), of "stack_block m len"] by auto
  have r: "length r \<le> len" using url_spec_length [OF Some] assms(2) by simp
  have "yields (strsym_dup_len (Some out) (length r) VT_STR) (VStr (cstr_of r))"
    using yields_dup_len [of "length r" out] out r assms(3) by simp
  then show ?thesis
    using assms(1) by (cases rule: yields_cases [of _ _ m]) (auto simp: urldecode_str_def out(1) Some)
qed

lemma qs_insert_plenty:
  assumes m: "mem_plenty m" and n: "namelen \<le> length namestart" "namelen < SSIZE_MAX"
    and v: "case val of None \<Rightarrow> True | Some v \<Rightarrow> vallen \<le> length v \<and> vallen < SSIZE_MAX"
  shows "\<exists>m'. ignoring (qs_insert namestart namelen val vallen) (nvl, m) =
      (Inr (), (qs_put (take namelen namestart) (map_option (take vallen) val) nvl, m')) \<and> mem_ext m m'"
proof -
  let ?blk = "stack_block m (Suc namelen)"
  have dec: "case url_spec (take namelen namestart) of
      None \<Rightarrow> fst (urldecode (Some namestart) namelen (Some ?blk)) = fail EILSEQ
    | Some r \<Rightarrow> \<exists>out'. urldecode (Some namestart) namelen (Some ?blk) = (Inr (length r), out') \<and>
        take (length r) out' = r \<and> length out' = length ?blk"
    by (rule urldecode_decodes [OF n(1)]) simp
  show ?thesis
  proof (cases "url_spec (take namelen namestart)")
    case None
    with dec show ?thesis
      by (cases "urldecode (Some namestart) namelen (Some ?blk)")
        (simp add: ignoring_def qs_insert_def qs_put_def)
  next
    case (Some r)
    with dec obtain out where out: "urldecode (Some namestart) namelen (Some ?blk) = (Inr (length r), out)"
      "take (length r) out = r" "length out = namelen + 1" by auto
    have r: "length r \<le> namelen" using url_spec_length [OF Some] n(1) by simp
    have c: "cstr_of (out[length r := 0]) = cstr_of r" using out r by (intro cstr_of_nul) auto
    have wf: "cstr_wf (cstr_of r)" using r n(2) by (intro cstr_of_wf) simp
    note set = nvl_set_alloc_plenty [OF yields_cret _ wf]
    have lt: "\<not> length out \<le> length r" using r out(3) by simp
    note ins = qs_insert_def out(1) lt c ignoring_def qs_put_def Some
    show ?thesis
    proof (cases val)
      case None
      then show ?thesis
        using set [OF m, of VNull nvl]
        by (auto simp: ins nvl_set_null_def val_alloc_null_def simp del: cret_apply)
    next
      case val: (Some vs)
      show ?thesis
      proof (cases "vallen = 0")
        case True
        have "on_mem (cret (VStr [])) (nvl, m) = (Inr (VStr []), (nvl, m))" by (simp add: on_mem_def)
        then show ?thesis
          using set [OF m, of "VStr []" nvl] val True
          by (auto simp: ins nvl_set_str_def cstr_of_def [of "[]"] simp del: cret_apply)
      next
        case False
        have vd: "case url_spec (take vallen vs) of
            None \<Rightarrow> urldecode_str (Some vs) vallen m = (fail EILSEQ, m)
          | Some r \<Rightarrow> \<exists>m'. urldecode_str (Some vs) vallen m = (Inr (VStr (cstr_of r)), m') \<and> mem_ext m m'"
          using v val by (intro urldecode_str_plenty [OF m]) auto
        show ?thesis
        proof (cases "url_spec (take vallen vs)")
          case None
          then show ?thesis using vd val False by (simp add: ins on_mem_def)
        next
          case str: (Some str)
          then obtain m1 where m1: "urldecode_str (Some vs) vallen m = (Inr (VStr (cstr_of str)), m1)" "mem_ext m m1"
            using vd by auto
          have "mem_plenty m1" using m m1(2) by (simp add: mem_ext_plenty)
          from set [OF this, of "VStr (cstr_of str)" nvl] obtain m2 where
            "nvl_set_alloc (cstr_of r) (cret (VStr (cstr_of str))) (nvl, m1) =
              (Inr (), (nv_put (cstr_of r) (VStr (cstr_of str)) nvl, m2))" "mem_ext m1 m2" by blast
          then show ?thesis
            using m1 val False str mem_ext_trans [OF m1(2)]
            by (auto simp: ins on_mem_def [of "urldecode_str _ _"] nvl_set_str_def simp del: cret_apply)
        qed
      qed
    qed
  qed
qed

subsection \<open>The loop\<close>

text \<open>
  Between two iterations: \<open>seg\<close> is the part of the current segment before \<open>cur\<close>, a name or a name and a
  value, and holds no separator.
\<close>

definition qs_inv :: "bytes \<Rightarrow> nat \<Rightarrow> qs_locals \<Rightarrow> bytes \<Rightarrow> bool" where
  "qs_inv qs cur q seg \<longleftrightarrow>
     (case q_state q of
        QS_STATE_NAME \<Rightarrow>
          q_name q \<le> cur \<and> seg = take (cur - q_name q) (drop (q_name q) qs) \<and> 61 \<notin> set seg \<and> 38 \<notin> set seg
      | QS_STATE_VAL \<Rightarrow>
          q_name q + q_name_len q < q_val q \<and> q_val q \<le> cur \<and>
          (\<exists>n v. n = take (q_name_len q) (drop (q_name q) qs) \<and> v = take (cur - q_val q) (drop (q_val q) qs) \<and>
             seg = n @ 61 # v \<and> 61 \<notin> set n \<and> 61 \<notin> set v \<and> 38 \<notin> set seg))"

text \<open>What is done at the end of a segment.\<close>

definition qs_flush :: "bytes \<Rightarrow> nat \<Rightarrow> qs_locals \<Rightarrow> (nvstate, unit) cfun" where
  "qs_flush qs cur q =
     (if q_state q = QS_STATE_NAME then ignoring (qs_insert (drop (q_name q) qs) (cur - q_name q) None 0)
      else ignoring (qs_insert (drop (q_name q) qs) (q_name_len q) (Some (drop (q_val q) qs)) (cur - q_val q)))"

lemma qs_flush_segment:
  assumes "mem_plenty m" and "cur \<le> length qs" and "length qs < SSIZE_MAX" and "qs_inv qs cur q seg"
  shows "\<exists>nvl' m'. qs_flush qs cur q (nvl, m) = (Inr (), (nvl', m')) \<and> mem_ext m m' \<and> qs_segment seg nvl = Some nvl'"
proof (cases "q_state q")
  case QS_STATE_NAME
  then have q: "q_name q \<le> cur" "seg = take (cur - q_name q) (drop (q_name q) qs)" "61 \<notin> set seg"
    using assms(4) by (auto simp: qs_inv_def)
  have "qs_segment seg nvl = Some (qs_put seg None nvl)" by (rule qs_segment_name [OF q(3)])
  then show ?thesis
    using qs_insert_plenty [OF assms(1), where namelen = "cur - q_name q" and namestart = "drop (q_name q) qs"
        and val = None and vallen = 0 and nvl = nvl] assms(2,3) q(1,2)
      QS_STATE_NAME
    by (auto simp: qs_flush_def)
next
  case QS_STATE_VAL
  then obtain n v where q: "q_name q + q_name_len q < q_val q" "q_val q \<le> cur"
    "n = take (q_name_len q) (drop (q_name q) qs)" "v = take (cur - q_val q) (drop (q_val q) qs)"
    "seg = n @ 61 # v" "61 \<notin> set n" "61 \<notin> set v"
    using assms(4) by (auto simp: qs_inv_def)
  have "qs_segment seg nvl = Some (qs_put n (Some v) nvl)" unfolding q(5) by (rule qs_segment_val [OF q(6,7)])
  moreover have "q_name_len q \<le> length qs - q_name q" "q_name_len q < SSIZE_MAX"
    "cur - q_val q \<le> length qs - q_val q \<and> cur - q_val q < SSIZE_MAX"
    using q(1,2) assms(2,3) by auto
  ultimately show ?thesis
    using qs_insert_plenty [OF assms(1), where namelen = "q_name_len q" and namestart = "drop (q_name q) qs"
        and val = "Some (drop (q_val q) qs)" and vallen = "cur - q_val q" and nvl = nvl] q(3,4) QS_STATE_VAL
    by (auto simp: qs_flush_def)
qed

lemma qs_last_flush:
  assumes "qs_inv qs len q seg" and "len \<le> length qs"
  shows "qs_last qs len q = (if seg = [] then cret () else qs_flush qs len q)"
  using assms by (auto simp: qs_last_def qs_flush_def qs_inv_def split: qs_state.splits)

text \<open>One iteration: a separator ends the segment, a second \<open>=\<close> is an error, anything else is collected.\<close>

lemma qs_step_sep: "q_state q = QS_STATE_NAME \<or> q_state q = QS_STATE_VAL \<Longrightarrow>
  qs_step qs 38 cur q = andthen (qs_flush qs cur q) (\<lambda>_. cret (q\<lparr>q_name := cur + 1, q_state := QS_STATE_NAME\<rparr>))"
  by (auto simp: qs_step_def qs_flush_def)

lemma qs_inv_sep: "qs_inv qs (cur + 1) (q\<lparr>q_name := cur + 1, q_state := QS_STATE_NAME\<rparr>) []"
  by (simp add: qs_inv_def)

lemma take_snoc: "a \<le> cur \<Longrightarrow> cur < length qs \<Longrightarrow>
    take (cur + 1 - a) (drop a qs) = take (cur - a) (drop a qs) @ [qs ! cur]"
  by (simp add: Suc_diff_le take_Suc_conv_app_nth)

lemma qs_step_char:
  assumes "qs_inv qs cur q seg" and "cur < length qs" and "qs ! cur \<noteq> 38"
    and "\<not> (q_state q = QS_STATE_VAL \<and> qs ! cur = 61)"
  shows "\<exists>q'. qs_step qs (qs ! cur) cur q = cret q' \<and> qs_inv qs (cur + 1) q' (seg @ [qs ! cur])"
proof (cases "q_state q")
  case QS_STATE_NAME
  then have q: "q_name q \<le> cur" "seg = take (cur - q_name q) (drop (q_name q) qs)" "61 \<notin> set seg" "38 \<notin> set seg"
    using assms(1) by (auto simp: qs_inv_def)
  have snoc: "take (cur + 1 - q_name q) (drop (q_name q) qs) = seg @ [qs ! cur]"
    unfolding q(2) by (rule take_snoc [OF q(1) assms(2)])
  show ?thesis
  proof (cases "qs ! cur = 61")
    case True
    let ?q = "q\<lparr>q_name_len := cur - q_name q, q_val := cur + 1, q_state := QS_STATE_VAL\<rparr>"
    have "qs_inv qs (cur + 1) ?q (seg @ [61])"
      using q by (simp add: qs_inv_def)
    then show ?thesis using QS_STATE_NAME True by (intro exI [of _ ?q]) (simp add: qs_step_def)
  next
    case False
    then have "qs_inv qs (cur + 1) q (seg @ [qs ! cur])"
      using QS_STATE_NAME q snoc assms(3) by (simp add: qs_inv_def)
    then show ?thesis using QS_STATE_NAME False assms(3) by (intro exI [of _ q]) (simp add: qs_step_def)
  qed
next
  case QS_STATE_VAL
  then obtain n v where q: "q_name q + q_name_len q < q_val q" "q_val q \<le> cur"
    "n = take (q_name_len q) (drop (q_name q) qs)" "v = take (cur - q_val q) (drop (q_val q) qs)"
    "seg = n @ 61 # v" "61 \<notin> set n" "61 \<notin> set v" "38 \<notin> set seg"
    using assms(1) by (auto simp: qs_inv_def)
  have snoc: "take (cur + 1 - q_val q) (drop (q_val q) qs) = v @ [qs ! cur]"
    unfolding q(4) by (rule take_snoc [OF q(2) assms(2)])
  then have "qs_inv qs (cur + 1) q (seg @ [qs ! cur])"
    using QS_STATE_VAL q assms(3,4) by (simp add: qs_inv_def)
  then show ?thesis using QS_STATE_VAL assms(3,4) by (intro exI [of _ q]) (simp add: qs_step_def)
qed

lemma qs_loop_segments:
  assumes "mem_plenty m" and "cur + left = len" and "len \<le> length qs" and "length qs < SSIZE_MAX"
    and "qs_inv qs cur q seg"
  defines "S \<equiv> split_on 38 (take left (drop cur qs))"
  shows "\<exists>r nvl' m'. andthen (qs_loop qs left cur q) (qs_last qs len) (nvl, m) = (r, (nvl', m')) \<and>
    qs_segments ((seg @ hd S) # tl S) nvl = (r, nvl') \<and> mem_ext m m'"
  using assms(1-5) unfolding S_def
proof (induction left arbitrary: cur q seg nvl m)
  case 0
  then have "qs_inv qs len q seg" by simp
  with 0 qs_flush_segment [of m len qs q seg nvl] qs_last_flush [of qs len q seg]
  show ?case by (auto simp: andthen_def)
next
  case (Suc left)
  have cur: "cur < length qs" using Suc.prems by simp
  let ?rest = "take left (drop (cur + 1) qs)"
  have rest: "take (Suc left) (drop cur qs) = qs ! cur # ?rest"
    using cur by (metis Cons_nth_drop_Suc Suc_eq_plus1 take_Suc_Cons)
  have seg: "\<not> (tl (split_on 38 (qs ! cur # ?rest)) = [] \<and> seg @ hd (split_on 38 (qs ! cur # ?rest)) = [])"
    by auto
  consider "qs ! cur = 38" | "qs ! cur = 61" "q_state q = QS_STATE_VAL"
    | "qs ! cur \<noteq> 38" "\<not> (q_state q = QS_STATE_VAL \<and> qs ! cur = 61)" by fastforce
  then show ?case
  proof cases
    case 1
    let ?q = "q\<lparr>q_name := cur + 1, q_state := QS_STATE_NAME\<rparr>"
    obtain nvl1 m1 where 1: "qs_flush qs cur q (nvl, m) = (Inr (), (nvl1, m1))" "mem_ext m m1"
      "qs_segment seg nvl = Some nvl1"
      using qs_flush_segment [of m cur qs q seg nvl] Suc.prems by auto
    have "qs_step qs (qs ! cur) cur q (nvl, m) = (Inr ?q, (nvl1, m1))"
      using \<open>qs ! cur = 38\<close> 1(1) by (cases "q_state q") (simp_all add: qs_step_sep)
    moreover have "mem_plenty m1" using 1(2) Suc.prems(1) by (simp add: mem_ext_plenty)
    note Suc.IH [OF this, of "cur + 1" ?q "[]" nvl1]
    ultimately show ?thesis
      using Suc.prems cur qs_inv_sep [of qs cur q] 1(3) \<open>qs ! cur = 38\<close> rest mem_ext_trans [OF 1(2)] by (auto simp: andthen_def)
  next
    case 2
    then obtain n v where "seg = n @ 61 # v" "61 \<notin> set n" "61 \<notin> set v"
      using Suc.prems(5) by (auto simp: qs_inv_def)
    then have "qs_segment (seg @ 61 # w) nvl = None" for w using qs_segment_bad by simp
    moreover have "qs_step qs (qs ! cur) cur q = cerr (Errno EILSEQ)" using 2 by (simp add: qs_step_def)
    ultimately show ?thesis using 2 cur rest by (simp add: andthen_def)
  next
    case 3
    from qs_step_char [OF Suc.prems(5) cur 3] obtain q' where
      q': "qs_step qs (qs ! cur) cur q = cret q'" "qs_inv qs (cur + 1) q' (seg @ [qs ! cur])" by blast
    have "qs_loop qs (Suc left) cur q (nvl, m) = qs_loop qs left (cur + 1) q' (nvl, m)"
      using cur by (simp add: q'(1))
    moreover have "\<exists>r nvl' m'. andthen (qs_loop qs left (cur + 1) q') (qs_last qs len) (nvl, m) = (r, (nvl', m')) \<and>
        qs_segments (((seg @ [qs ! cur]) @ hd (split_on 38 ?rest)) # tl (split_on 38 ?rest)) nvl = (r, nvl') \<and> mem_ext m m'"
      using Suc.prems q'(2) by (intro Suc.IH) auto
    ultimately show ?thesis using 3(1) rest by (simp add: andthen_def)
  qed
qed

subsection \<open>Properties\<close>

text \<open>
  C17. Parsing a query string, with memory at hand: the string is cut at each \<open>&\<close>, each piece is a name or a
  name and a value, decoded and put into the list in order; a piece that cannot be decoded is skipped, one
  with two \<open>=\<close> ends parsing with \<open>-EILSEQ\<close> after the pieces before it, and nothing is inserted for an empty
  piece at the end. The characters after \<open>len\<close> do not matter, and nothing is read or written out of bounds.
\<close>

theorem qstring_parse_spec:
  assumes "mem_plenty m" and "len \<le> length qs" and "length qs < SSIZE_MAX"
  shows "\<exists>m'. qstring_parse_len True (Some qs) len (nvl, m) =
    (fst (qs_spec (take len qs) nvl), (snd (qs_spec (take len qs) nvl), m'))"
proof -
  let ?q = "\<lparr>q_state = QS_STATE_NAME, q_name = 0, q_name_len = 0, q_val = 0\<rparr>"
  have "qs_inv qs 0 ?q []" by (simp add: qs_inv_def)
  from qs_loop_segments [OF assms(1) _ assms(2,3) this, of len nvl] show ?thesis
    by (auto simp: qstring_parse_len_def qs_spec_def)
qed

theorem qstring_parse_spec_witness:
  "\<exists>m'. qstring_parse True (Some [97, 61, 98, 38, 99]) ([], plain_mem) =
     (Inr (), ([([97], VStr [98]), ([99], VNull)], m'))"
proof -
  have "qs_spec [97, 61, 98, 38, 99] [] = (Inr (), [([97], VStr [98]), ([99], VNull)])"
    by (simp add: qs_spec_def qs_segment_def qs_put_def cstr_of_def nv_put_def pairs_find_def)
  moreover have "length [97, 61, 98, 38, 99 :: u8] = 5" "length [97, 61, 98, 38, 99, 0 :: u8] = 6" "take 5 [97, 61, 98, 38, 99, 0] = [97, 61, 98, 38, 99 :: u8]"
    by simp_all
  ultimately show ?thesis
    using qstring_parse_spec [OF mem_plenty_plain, of 5 "[97, 61, 98, 38, 99, 0]" "[]"]
    unfolding qstring_parse_def option.map option.case append.simps by (simp add: bound_simps del: list.size)
qed

end
