(* ===== verification/PTree.thy ===== *)
theory PTree
  imports Prelude
begin

text \<open>
  Binary search trees of nodes linked by pointers: \<^verbatim>\<open>src/tree.c\<close>, \<^verbatim>\<open>src/tree_impl.h\<close>,
  \<^verbatim>\<open>src/include/jeffpc/tree_private.h\<close>, \<^verbatim>\<open>src/rbtree.c\<close>, \<^verbatim>\<open>src/include/jeffpc/rbtree.h\<close>, \<^verbatim>\<open>src/bst.c\<close> and
  \<^verbatim>\<open>src/include/jeffpc/bst.h\<close>.

  The nodes live in a heap that maps addresses to nodes; following a null pointer, or one to an address
  that holds no node, is a \<open>Fault\<close>. An object is identified with the node embedded in it, so \<open>node2obj\<close> and
  \<open>obj2node\<close> are the identity. The comparison function is an argument; it is called with the addresses of
  objects. Loops that follow pointers have fuel, at least one unit more than there are nodes in the tree,
  which is shown to be enough.
\<close>

subsection \<open>Data\<close>

type_synonym addr = nat

datatype tree_dir = TREE_LEFT | TREE_RIGHT

text \<open>\<open>1 - dir\<close>\<close>

fun opp :: "tree_dir \<Rightarrow> tree_dir" where
  "opp TREE_LEFT = TREE_RIGHT"
| "opp TREE_RIGHT = TREE_LEFT"

record tree_node =
  n_child :: "tree_dir \<Rightarrow> addr option"
  n_parent :: "addr option"
  n_extra :: "2 word"

text \<open>The heap, and the fields of a \<open>struct tree_tree\<close> that change.\<close>

record tree_state =
  t_heap :: "addr \<rightharpoonup> tree_node"
  t_root :: "addr option"
  t_num :: nat

record tree_cookie =
  c_node :: "addr option"
  c_dir :: tree_dir

subsection \<open>Access to nodes\<close>

definition get_node :: "addr option \<Rightarrow> (tree_state, tree_node) cfun" where
  "get_node p s =
     (case p of
        None \<Rightarrow> (Inl Fault, s)
      | Some a \<Rightarrow> (case t_heap s a of None \<Rightarrow> (Inl Fault, s) | Some n \<Rightarrow> (Inr n, s)))"

definition upd_node :: "(tree_node \<Rightarrow> tree_node) \<Rightarrow> addr option \<Rightarrow> (tree_state, unit) cfun" where
  "upd_node f p s =
     (case p of
        None \<Rightarrow> (Inl Fault, s)
      | Some a \<Rightarrow>
          (case t_heap s a of
             None \<Rightarrow> (Inl Fault, s)
           | Some n \<Rightarrow> (Inr (), s\<lparr>t_heap := (t_heap s)(a \<mapsto> f n)\<rparr>)))"

definition get_child :: "addr option \<Rightarrow> tree_dir \<Rightarrow> (tree_state, addr option) cfun" where
  "get_child p d = andthen (get_node p) (\<lambda>n. cret (n_child n d))"

definition set_child :: "addr option \<Rightarrow> tree_dir \<Rightarrow> addr option \<Rightarrow> (tree_state, unit) cfun" where
  "set_child p d q = upd_node (\<lambda>n. n\<lparr>n_child := (n_child n)(d := q)\<rparr>) p"

definition get_parent :: "addr option \<Rightarrow> (tree_state, addr option) cfun" where
  "get_parent p = andthen (get_node p) (\<lambda>n. cret (n_parent n))"

definition set_parent :: "addr option \<Rightarrow> addr option \<Rightarrow> (tree_state, unit) cfun" where
  "set_parent p q = upd_node (\<lambda>n. n\<lparr>n_parent := q\<rparr>) p"

definition get_extra :: "addr option \<Rightarrow> (tree_state, 2 word) cfun" where
  "get_extra p = andthen (get_node p) (\<lambda>n. cret (n_extra n))"

definition set_extra :: "addr option \<Rightarrow> 2 word \<Rightarrow> (tree_state, unit) cfun" where
  "set_extra p e = upd_node (\<lambda>n. n\<lparr>n_extra := e\<rparr>) p"

definition get_root :: "(tree_state, addr option) cfun" where
  "get_root s = (Inr (t_root s), s)"

definition set_root :: "addr option \<Rightarrow> (tree_state, unit) cfun" where
  "set_root p s = (Inr (), s\<lparr>t_root := p\<rparr>)"

definition get_num :: "(tree_state, nat) cfun" where
  "get_num s = (Inr (t_num s), s)"

definition set_num :: "nat \<Rightarrow> (tree_state, unit) cfun" where
  "set_num n s = (Inr (), s\<lparr>t_num := n\<rparr>)"

definition which_dir :: "addr option \<Rightarrow> addr option \<Rightarrow> (tree_state, tree_dir) cfun" where
  "which_dir parent tgt =
     andthen (get_child parent TREE_LEFT) (\<lambda>l. cret (if l = tgt then TREE_LEFT else TREE_RIGHT))"

text \<open>\<open>for (; cur->children[dir]; cur = cur->children[dir])\<close>\<close>

primrec firstlast_loop :: "nat \<Rightarrow> addr option \<Rightarrow> tree_dir \<Rightarrow> (tree_state, addr option) cfun" where
  "firstlast_loop 0 cur dir = cerr Diverged"
| "firstlast_loop (Suc fuel) cur dir =
     andthen (get_child cur dir) (\<lambda>c. if c = None then cret cur else firstlast_loop fuel c dir)"

definition firstlast :: "addr option \<Rightarrow> tree_dir \<Rightarrow> (tree_state, addr option) cfun" where
  "firstlast cur dir = andthen get_num (\<lambda>n. firstlast_loop (n + 1) cur dir)"

definition firstlast_obj :: "tree_dir \<Rightarrow> (tree_state, addr option) cfun" where
  "firstlast_obj dir = andthen get_root (\<lambda>r. if r = None then cret None else firstlast r dir)"

primrec next_dir_loop :: "nat \<Rightarrow> addr option \<Rightarrow> tree_dir \<Rightarrow> (tree_state, addr option) cfun" where
  "next_dir_loop 0 node left = cerr Diverged"
| "next_dir_loop (Suc fuel) node left =
     andthen (get_parent node) (\<lambda>p.
       if p = None then cret None
       else andthen (which_dir p node) (\<lambda>d.
         if d = left then cret p else next_dir_loop fuel p left))"

definition tree_next_dir :: "addr \<Rightarrow> bool \<Rightarrow> (tree_state, addr option) cfun" where
  "tree_next_dir item fwd =
     (let right = (if fwd then TREE_RIGHT else TREE_LEFT); left = opp right
      in andthen (get_child (Some item) right) (\<lambda>c.
        if c \<noteq> None then firstlast c left
        else andthen get_num (\<lambda>n. next_dir_loop (n + 1) (Some item) left)))"

subsection \<open>Generic operations\<close>

primrec tree_find_loop ::
  "('k \<Rightarrow> addr \<Rightarrow> int) \<Rightarrow> 'k \<Rightarrow> nat \<Rightarrow> addr option \<Rightarrow> tree_cookie \<Rightarrow> (tree_state, addr option \<times> tree_cookie) cfun" where
  "tree_find_loop cmp key 0 cur wher = cerr Diverged"
| "tree_find_loop cmp key (Suc fuel) cur wher =
     (case cur of
        None \<Rightarrow> cret (None, wher)
      | Some a \<Rightarrow>
          if cmp key a = 0 then cret (Some a, wher)
          else
            let dir = (if cmp key a < 0 then TREE_LEFT else TREE_RIGHT)
            in andthen (get_child cur dir) (\<lambda>c.
              tree_find_loop cmp key fuel c \<lparr>c_node = cur, c_dir = dir\<rparr>))"

text \<open>
  The object found, and where to insert otherwise. \<open>tree_find\<close> writes the cookie only when nothing is found.
\<close>

definition tree_find :: "('k \<Rightarrow> addr \<Rightarrow> int) \<Rightarrow> 'k \<Rightarrow> (tree_state, addr option \<times> tree_cookie) cfun" where
  "tree_find cmp key =
     andthen get_num (\<lambda>n. andthen get_root (\<lambda>r.
       tree_find_loop cmp key (n + 1) r \<lparr>c_node = None, c_dir = TREE_LEFT\<rparr>))"

primrec tree_nearest_loop :: "nat \<Rightarrow> addr option \<Rightarrow> tree_dir \<Rightarrow> tree_dir \<Rightarrow> (tree_state, addr option) cfun" where
  "tree_nearest_loop 0 node dir left = cerr Diverged"
| "tree_nearest_loop (Suc fuel) node dir left =
     (if dir = left then cret node
      else andthen (get_parent node) (\<lambda>p.
        if p = None then cret None
        else andthen (which_dir p node) (\<lambda>d. tree_nearest_loop fuel p d left)))"

definition tree_nearest :: "tree_cookie \<Rightarrow> bool \<Rightarrow> (tree_state, addr option) cfun" where
  "tree_nearest cookie gt =
     (if c_node cookie = None then cret None
      else andthen get_num (\<lambda>n.
        tree_nearest_loop (n + 1) (c_node cookie) (c_dir cookie) (if gt then TREE_LEFT else TREE_RIGHT)))"

definition insert_at :: "addr \<Rightarrow> tree_cookie \<Rightarrow> (tree_state, unit) cfun" where
  "insert_at newitem cookie =
     andthen get_num (\<lambda>n. andthen (set_num (n + 1)) (\<lambda>_.
       andthen (set_child (Some newitem) TREE_LEFT None) (\<lambda>_.
         andthen (set_child (Some newitem) TREE_RIGHT None) (\<lambda>_.
           andthen (set_parent (Some newitem) (c_node cookie)) (\<lambda>_.
             if c_node cookie \<noteq> None then set_child (c_node cookie) (c_dir cookie) (Some newitem)
             else set_root (Some newitem))))))"

text \<open>The object that is already there, if any.\<close>

definition tree_insert_here ::
  "(addr \<Rightarrow> addr \<Rightarrow> int) \<Rightarrow> addr \<Rightarrow> tree_cookie option \<Rightarrow> (tree_state, addr option) cfun" where
  "tree_insert_here cmp newitem cookie =
     (case cookie of
        None \<Rightarrow>
          andthen (tree_find cmp newitem) (\<lambda>(tmp, wher).
            if tmp \<noteq> None then cret tmp
            else andthen (insert_at newitem wher) (\<lambda>_. cret None))
      | Some wher \<Rightarrow> andthen (insert_at newitem wher) (\<lambda>_. cret None))"

text \<open>\<open>if (E) set_parent(E, x)\<close>\<close>

definition set_parent_if :: "addr option \<Rightarrow> addr option \<Rightarrow> (tree_state, unit) cfun" where
  "set_parent_if p q = (if p \<noteq> None then set_parent p q else cret ())"

definition link_parent :: "bool \<Rightarrow> addr option \<Rightarrow> tree_dir \<Rightarrow> addr option \<Rightarrow> (tree_state, unit) cfun" where
  "link_parent is_root parent dir p = (if \<not> is_root then set_child parent dir p else set_root p)"

definition swap_adjacent :: "addr option \<Rightarrow> addr option \<Rightarrow> tree_dir \<Rightarrow> bool \<Rightarrow> tree_dir \<Rightarrow> (tree_state, unit) cfun" where
  "swap_adjacent x y left is_root dir_to_orig_x =
     andthen (get_parent x) (\<lambda>A. andthen (get_child x left) (\<lambda>B. andthen (get_child y (opp left)) (\<lambda>E.
       andthen (set_parent x y) (\<lambda>_. andthen (set_parent y A) (\<lambda>_. andthen (set_parent B y) (\<lambda>_.
         andthen (set_parent_if E x) (\<lambda>_.
           andthen (set_child x left None) (\<lambda>_. andthen (set_child x (opp left) E) (\<lambda>_.
             andthen (set_child y left B) (\<lambda>_. andthen (set_child y (opp left) x) (\<lambda>_.
               link_parent is_root A dir_to_orig_x y)))))))))))"

definition swap_distant :: "addr option \<Rightarrow> addr option \<Rightarrow> tree_dir \<Rightarrow> bool \<Rightarrow> tree_dir \<Rightarrow> (tree_state, unit) cfun" where
  "swap_distant x y left is_root dir_to_orig_x =
     andthen (get_parent x) (\<lambda>A. andthen (get_child x left) (\<lambda>B. andthen (get_child x (opp left)) (\<lambda>C.
       andthen (get_parent y) (\<lambda>D. andthen (get_child y (opp left)) (\<lambda>E.
         andthen (set_parent x D) (\<lambda>_. andthen (set_parent y A) (\<lambda>_. andthen (set_parent B y) (\<lambda>_.
           andthen (set_parent C y) (\<lambda>_. andthen (set_parent_if E x) (\<lambda>_.
             andthen (set_child x left None) (\<lambda>_. andthen (set_child x (opp left) E) (\<lambda>_.
               andthen (set_child y left B) (\<lambda>_. andthen (set_child y (opp left) C) (\<lambda>_.
                 andthen (link_parent is_root A dir_to_orig_x y) (\<lambda>_. set_child D left x)))))))))))))))"

definition swap_nodes :: "addr option \<Rightarrow> addr option \<Rightarrow> tree_dir \<Rightarrow> (tree_state, unit) cfun" where
  "swap_nodes x y left =
     andthen get_root (\<lambda>r.
       if x = y then cerr Panic
       else andthen (get_child y left) (\<lambda>yl.
         if yl \<noteq> None then cerr Panic
         else andthen (if r = x then cret TREE_LEFT else andthen (get_parent x) (\<lambda>p. which_dir p x)) (\<lambda>dir_to_orig_x.
           andthen (get_child x (opp left)) (\<lambda>c.
             andthen (if c = y then swap_adjacent x y left (r = x) dir_to_orig_x
                      else swap_distant x y left (r = x) dir_to_orig_x) (\<lambda>_.
               andthen (get_extra x) (\<lambda>tmp. andthen (get_extra y) (\<lambda>e.
                 andthen (set_extra x e) (\<lambda>_. set_extra y tmp))))))))"

definition promote_node_child :: "addr option \<Rightarrow> addr option \<Rightarrow> addr option \<Rightarrow> (tree_state, unit) cfun" where
  "promote_node_child parent node child =
     andthen (if parent \<noteq> None then andthen (which_dir parent node) (\<lambda>d. set_child parent d child)
              else set_root child) (\<lambda>_. set_parent_if child parent)"

text \<open>
  \<open>tree_remove\<close> after the exchange of nodes: the node has at most one child, which takes its place. The
  results are the parent and the child that \<open>tree_remove\<close> stores through its last two arguments.
\<close>

definition unlink_node :: "addr option \<Rightarrow> (tree_state, addr option \<times> addr option) cfun" where
  "unlink_node node =
     andthen (get_child node TREE_LEFT) (\<lambda>l. andthen (get_child node TREE_RIGHT) (\<lambda>r.
       if l \<noteq> None \<and> r \<noteq> None then cerr Panic
       else andthen (get_parent node) (\<lambda>parent.
         let child = (if l \<noteq> None then l else r)
         in andthen (promote_node_child parent node child) (\<lambda>_.
           andthen (set_parent node None) (\<lambda>_.
             andthen (set_child node TREE_LEFT None) (\<lambda>_. andthen (set_child node TREE_RIGHT None) (\<lambda>_.
               andthen get_num (\<lambda>n. andthen (set_num (n - 1)) (\<lambda>_. cret (parent, child))))))))))"

definition tree_remove :: "addr option \<Rightarrow> (tree_state, addr option \<times> addr option) cfun" where
  "tree_remove node =
     (if node = None then cerr Panic
      else andthen (get_child node TREE_LEFT) (\<lambda>l. andthen (get_child node TREE_RIGHT) (\<lambda>r.
        andthen (if l \<noteq> None \<and> r \<noteq> None
                 then andthen (firstlast r TREE_LEFT) (\<lambda>y. swap_nodes node y TREE_LEFT) else cret ()) (\<lambda>_.
          unlink_node node))))"

definition tree_first :: "(tree_state, addr option) cfun" where
  "tree_first = firstlast_obj TREE_LEFT"

definition tree_last :: "(tree_state, addr option) cfun" where
  "tree_last = firstlast_obj TREE_RIGHT"

definition tree_next :: "addr \<Rightarrow> (tree_state, addr option) cfun" where
  "tree_next item = tree_next_dir item True"

definition tree_prev :: "addr \<Rightarrow> (tree_state, addr option) cfun" where
  "tree_prev item = tree_next_dir item False"

definition tree_is_empty :: "(tree_state, bool) cfun" where
  "tree_is_empty = andthen get_num (\<lambda>n. cret (n = 0))"

definition tree_numnodes :: "(tree_state, nat) cfun" where
  "tree_numnodes = get_num"

text \<open>
  Handing out the nodes one by one, children before parents, so that they can be freed. The cookie keeps
  where to go on; its node is \<open>DESTROY_NODES_DONE\<close> after the root was handed out.
\<close>

definition DESTROY_NODES_DONE :: "addr option" where
  "DESTROY_NODES_DONE = Some (2 ^ 64 - 1)"

definition destroy_nodes_save_parent :: "addr option \<Rightarrow> tree_cookie \<Rightarrow> (tree_state, tree_cookie) cfun" where
  "destroy_nodes_save_parent node cookie =
     andthen get_root (\<lambda>r.
       if node \<noteq> r then
         andthen (get_parent node) (\<lambda>p. andthen (which_dir p node) (\<lambda>d. cret \<lparr>c_node = p, c_dir = opp d\<rparr>))
       else cret (cookie\<lparr>c_node := DESTROY_NODES_DONE\<rparr>))"

primrec destroy_step_loop :: "nat \<Rightarrow> addr option \<Rightarrow> tree_cookie \<Rightarrow> (tree_state, addr option \<times> tree_cookie) cfun" where
  "destroy_step_loop 0 node cookie = cerr Diverged"
| "destroy_step_loop (Suc fuel) node cookie =
     andthen (firstlast node TREE_LEFT) (\<lambda>tmp. andthen (get_child tmp TREE_RIGHT) (\<lambda>r.
       if r = None
       then andthen (destroy_nodes_save_parent tmp cookie) (\<lambda>cookie'. cret (tmp, cookie'))
       else destroy_step_loop fuel r cookie))"

definition destroy_nodes_step :: "addr option \<Rightarrow> tree_cookie \<Rightarrow> (tree_state, addr option \<times> tree_cookie) cfun" where
  "destroy_nodes_step node cookie =
     (if node = None then cerr Panic
      else andthen get_num (\<lambda>n. destroy_step_loop (n + 1) node cookie))"

definition tree_destroy_nodes :: "tree_cookie \<Rightarrow> (tree_state, addr option \<times> tree_cookie) cfun" where
  "tree_destroy_nodes cookie =
     andthen get_root (\<lambda>r.
       if r = None then cret (None, cookie)
       else if c_node cookie = DESTROY_NODES_DONE then
         andthen (set_root None) (\<lambda>_. andthen (set_num 0) (\<lambda>_. cret (None, cookie)))
       else if c_node cookie = None then destroy_nodes_step r cookie
       else
         andthen (if c_dir cookie = TREE_RIGHT then get_child (c_node cookie) TREE_RIGHT else cret None) (\<lambda>node.
           if node \<noteq> None then destroy_nodes_step node cookie
           else andthen (destroy_nodes_save_parent (c_node cookie) cookie) (\<lambda>cookie'.
             cret (c_node cookie, cookie'))))"

subsection \<open>Trees as objects\<close>

text \<open>
  A \<open>struct tree_tree\<close>. The comparison function is known by its address; the state the operations above work
  on is the heap with the root and the number of nodes of one tree.
\<close>

datatype tree_flavor = TREE_FLAVOR_UNBALANCED | TREE_FLAVOR_RED_BLACK

record tree_tree =
  tr_cmp :: nat
  tr_root :: "addr option"
  tr_node_size :: nat
  tr_node_off :: nat
  tr_num_nodes :: nat
  tr_flavor :: tree_flavor

definition create :: "tree_flavor \<Rightarrow> nat \<Rightarrow> nat \<Rightarrow> nat \<Rightarrow> nat \<Rightarrow> tree_tree res" where
  "create flavor node_bytes cmp sz off =
     (if sz < off + node_bytes then Inl Panic
      else Inr \<lparr>tr_cmp = cmp, tr_root = None, tr_node_size = sz, tr_node_off = off, tr_num_nodes = 0, tr_flavor = flavor\<rparr>)"

definition tree_swap :: "tree_tree \<Rightarrow> tree_tree \<Rightarrow> (tree_tree \<times> tree_tree) res" where
  "tree_swap tree1 tree2 =
     (if tr_cmp tree1 \<noteq> tr_cmp tree2 \<or> tr_node_size tree1 \<noteq> tr_node_size tree2 \<or>
         tr_node_off tree1 \<noteq> tr_node_off tree2 \<or> tr_flavor tree1 \<noteq> tr_flavor tree2 then Inl Panic
      else Inr (tree1\<lparr>tr_root := tr_root tree2, tr_num_nodes := tr_num_nodes tree2\<rparr>,
        tree2\<lparr>tr_root := tr_root tree1, tr_num_nodes := tr_num_nodes tree1\<rparr>))"

definition tree_view :: "(addr \<rightharpoonup> tree_node) \<Rightarrow> tree_tree \<Rightarrow> tree_state" where
  "tree_view h tree = \<lparr>t_heap = h, t_root = tr_root tree, t_num = tr_num_nodes tree\<rparr>"

subsection \<open>Red-black trees\<close>

definition rb_create :: "nat \<Rightarrow> nat \<Rightarrow> nat \<Rightarrow> nat \<Rightarrow> tree_tree res" where
  "rb_create node_bytes cmp sz off = create TREE_FLAVOR_RED_BLACK node_bytes cmp sz off"

definition set_red :: "addr option \<Rightarrow> bool \<Rightarrow> (tree_state, unit) cfun" where
  "set_red node red = (if node \<noteq> None then set_extra node (if red then 1 else 0) else cret ())"

definition is_red :: "addr option \<Rightarrow> (tree_state, bool) cfun" where
  "is_red node = (if node = None then cret False else andthen (get_extra node) (\<lambda>e. cret (e \<noteq> 0)))"

definition rb_rotate :: "addr option \<Rightarrow> tree_dir \<Rightarrow> (tree_state, unit) cfun" where
  "rb_rotate node left =
     andthen (get_child node (opp left)) (\<lambda>tmp.
       if tmp = None then cerr Panic
       else andthen (get_child tmp left) (\<lambda>tl.
         andthen (set_child node (opp left) tl) (\<lambda>_.
           andthen (set_parent_if tl node) (\<lambda>_.
             andthen (get_parent node) (\<lambda>p.
               andthen (set_parent tmp p) (\<lambda>_.
                 andthen (if p = None then set_root tmp
                          else andthen (which_dir p node) (\<lambda>d. set_child p d tmp)) (\<lambda>_.
                   andthen (set_child tmp left node) (\<lambda>_. set_parent node tmp))))))))"

text \<open>
  The loop of \<open>rb_insert_here\<close>: the rotation that gets the red nodes in line, the rotation that follows with
  the new colours, and one iteration as a whole, which gives the node to go on with, or \<open>None\<close> for \<open>break\<close>.
\<close>

definition insert_line_up ::
  "addr option \<Rightarrow> addr option \<Rightarrow> addr option \<Rightarrow> (tree_state, addr option \<times> addr option \<times> addr option) cfun" where
  "insert_line_up node parent gparent =
     andthen (which_dir parent node) (\<lambda>d1. andthen (which_dir gparent parent) (\<lambda>d2.
       if d1 \<noteq> d2 then
         andthen (rb_rotate parent (opp d1)) (\<lambda>_.
           andthen (get_parent parent) (\<lambda>p. andthen (if p = None then cret None else get_parent p) (\<lambda>g.
             cret (parent, p, g))))
       else cret (node, parent, gparent)))"

definition insert_rotate :: "addr option \<times> addr option \<times> addr option \<Rightarrow> (tree_state, addr option) cfun" where
  "insert_rotate = (\<lambda>(node, parent, gparent).
     andthen (which_dir parent node) (\<lambda>d1. andthen (which_dir gparent parent) (\<lambda>d2.
       andthen (if d1 = d2 then rb_rotate gparent (opp d1) else cret ()) (\<lambda>_.
         andthen (set_red parent False) (\<lambda>_. andthen (set_red gparent True) (\<lambda>_. cret node))))))"

definition insert_step :: "addr option \<Rightarrow> (tree_state, addr option option) cfun" where
  "insert_step node =
     andthen (get_parent node) (\<lambda>parent.
       andthen (if parent = None then cret None else get_parent parent) (\<lambda>gparent.
         andthen (if gparent = None then cret None
                  else andthen (which_dir gparent parent) (\<lambda>d. get_child gparent (opp d))) (\<lambda>uncle.
           andthen (is_red parent) (\<lambda>pr.
             if \<not> pr then cret None
             else andthen (is_red uncle) (\<lambda>ur.
               if ur then
                 andthen (set_red parent False) (\<lambda>_. andthen (set_red uncle False) (\<lambda>_.
                   andthen (set_red gparent True) (\<lambda>_. cret (Some gparent))))
               else
                 andthen (insert_line_up node parent gparent) (\<lambda>npg.
                   andthen (insert_rotate npg) (\<lambda>node'. cret (Some node'))))))))"

primrec insert_loop :: "nat \<Rightarrow> addr option \<Rightarrow> (tree_state, unit) cfun" where
  "insert_loop 0 node = cerr Diverged"
| "insert_loop (Suc fuel) node =
     (if node = None then cret ()
      else andthen (is_red node) (\<lambda>red.
        if \<not> red then cret ()
        else andthen (insert_step node) (\<lambda>r. case r of None \<Rightarrow> cret () | Some node' \<Rightarrow> insert_loop fuel node')))"

text \<open>\<open>rb_insert_here\<close> after the insertion as into an unbalanced tree.\<close>

definition insert_fixup :: "addr \<Rightarrow> (tree_state, addr option) cfun" where
  "insert_fixup newitem =
     andthen (set_red (Some newitem) True) (\<lambda>_.
       andthen get_num (\<lambda>n. andthen (insert_loop (n + 2) (Some newitem)) (\<lambda>_.
         andthen get_root (\<lambda>r. andthen (set_red r False) (\<lambda>_. cret None)))))"

definition rb_insert_here ::
  "(addr \<Rightarrow> addr \<Rightarrow> int) \<Rightarrow> addr \<Rightarrow> tree_cookie option \<Rightarrow> (tree_state, addr option) cfun" where
  "rb_insert_here cmp newitem cookie =
     andthen (tree_insert_here cmp newitem cookie) (\<lambda>tmp. if tmp \<noteq> None then cret tmp else insert_fixup newitem)"

definition rb_insert :: "(addr \<Rightarrow> addr \<Rightarrow> int) \<Rightarrow> addr \<Rightarrow> (tree_state, addr option) cfun" where
  "rb_insert cmp item = rb_insert_here cmp item None"

definition rb_add :: "(addr \<Rightarrow> addr \<Rightarrow> int) \<Rightarrow> addr \<Rightarrow> (tree_state, unit) cfun" where
  "rb_add cmp item = andthen (rb_insert cmp item) (\<lambda>orig. if orig \<noteq> None then cerr Panic else cret ())"

text \<open>
  The loop of \<open>rb_remove\<close>, in the order of its body: the rotation that gets a black sibling, the one that
  gets a red nephew on the far side, and the last one, which ends the loop.
\<close>

definition black_sibling :: "addr option \<Rightarrow> tree_dir \<Rightarrow> addr option \<Rightarrow> (tree_state, addr option) cfun" where
  "black_sibling parent left sibling =
     andthen (is_red sibling) (\<lambda>red.
       if red then
         andthen (set_red sibling False) (\<lambda>_. andthen (set_red parent True) (\<lambda>_.
           andthen (rb_rotate parent left) (\<lambda>_. get_child parent (opp left))))
       else cret sibling)"

definition far_nephew :: "addr option \<Rightarrow> tree_dir \<Rightarrow> addr option \<Rightarrow> (tree_state, addr option) cfun" where
  "far_nephew parent left sibling =
     andthen (get_child sibling (opp left)) (\<lambda>sr. andthen (is_red sr) (\<lambda>red.
       if \<not> red then
         andthen (get_child sibling left) (\<lambda>sl. andthen (set_red sl False) (\<lambda>_.
           andthen (set_red sibling True) (\<lambda>_.
             andthen (rb_rotate sibling (opp left)) (\<lambda>_. get_child parent (opp left)))))
       else cret sibling))"

definition last_rotation :: "addr option \<Rightarrow> tree_dir \<Rightarrow> addr option \<Rightarrow> (tree_state, addr option) cfun" where
  "last_rotation parent left sibling =
     andthen (is_red parent) (\<lambda>red. andthen (set_red sibling red) (\<lambda>_.
       andthen (set_red parent False) (\<lambda>_.
         andthen (get_child sibling (opp left)) (\<lambda>sr. andthen (set_red sr False) (\<lambda>_.
           andthen (rb_rotate parent left) (\<lambda>_. get_root))))))"

text \<open>The second half of an iteration: the node to go on with.\<close>

definition balance_sibling :: "addr option \<Rightarrow> tree_dir \<Rightarrow> addr option \<Rightarrow> (tree_state, addr option) cfun" where
  "balance_sibling parent left sibling =
     andthen (get_child sibling left) (\<lambda>sl. andthen (is_red sl) (\<lambda>slr.
       andthen (get_child sibling (opp left)) (\<lambda>sr. andthen (is_red sr) (\<lambda>srr.
         if \<not> slr \<and> \<not> srr then andthen (set_red sibling True) (\<lambda>_. cret parent)
         else andthen (far_nephew parent left sibling) (last_rotation parent left)))))"

text \<open>One iteration: the next node and its parent.\<close>

definition remove_step :: "addr option \<Rightarrow> addr option \<Rightarrow> (tree_state, addr option \<times> addr option) cfun" where
  "remove_step node parent =
     andthen (which_dir parent node) (\<lambda>left.
       andthen (get_child parent (opp left)) (\<lambda>sibling0.
         andthen (black_sibling parent left sibling0) (\<lambda>sibling.
           andthen (balance_sibling parent left sibling) (\<lambda>node'.
             andthen (get_parent node') (\<lambda>parent'. cret (node', parent'))))))"

primrec remove_loop :: "nat \<Rightarrow> addr option \<Rightarrow> addr option \<Rightarrow> (tree_state, addr option) cfun" where
  "remove_loop 0 node parent = cerr Diverged"
| "remove_loop (Suc fuel) node parent =
     andthen get_root (\<lambda>r. andthen (is_red node) (\<lambda>red.
       if node \<noteq> r \<and> \<not> red then
         andthen (remove_step node parent) (\<lambda>(node, parent). remove_loop fuel node parent)
       else cret node))"

definition rb_remove :: "addr option \<Rightarrow> (tree_state, unit) cfun" where
  "rb_remove node =
     andthen (tree_remove node) (\<lambda>(parent, child).
       andthen get_root (\<lambda>r.
         if r = None then cret ()
         else andthen (is_red node) (\<lambda>red.
           if red then cret ()
           else andthen get_num (\<lambda>n.
             andthen (remove_loop (2 * n + 2) child parent) (\<lambda>node. set_red node False)))))"

subsection \<open>Unbalanced trees\<close>

definition bst_create :: "nat \<Rightarrow> nat \<Rightarrow> nat \<Rightarrow> nat \<Rightarrow> tree_tree res" where
  "bst_create node_bytes cmp sz off = create TREE_FLAVOR_UNBALANCED node_bytes cmp sz off"

definition bst_insert_here ::
  "(addr \<Rightarrow> addr \<Rightarrow> int) \<Rightarrow> addr \<Rightarrow> tree_cookie option \<Rightarrow> (tree_state, addr option) cfun" where
  "bst_insert_here cmp newitem cookie = tree_insert_here cmp newitem cookie"

definition bst_insert :: "(addr \<Rightarrow> addr \<Rightarrow> int) \<Rightarrow> addr \<Rightarrow> (tree_state, addr option) cfun" where
  "bst_insert cmp item = bst_insert_here cmp item None"

definition bst_add :: "(addr \<Rightarrow> addr \<Rightarrow> int) \<Rightarrow> addr \<Rightarrow> (tree_state, unit) cfun" where
  "bst_add cmp item =
     andthen (bst_insert cmp item) (\<lambda>orig. if orig \<noteq> None then cerr Panic else cret ())"

definition bst_remove :: "addr option \<Rightarrow> (tree_state, unit) cfun" where
  "bst_remove item = andthen (tree_remove item) (\<lambda>_. cret ())"

end
