(* ===== verification/Tree_Rep.thy ===== *)
theory Tree_Rep
  imports PTree "HOL-Library.Tree"
begin

text \<open>
  What a well-formed heap of tree nodes represents. A tree of addresses and extra bits is written to the
  heap by \<open>store\<close>, so \<open>tree_st F n T\<close> is the state in which the nodes of \<open>T\<close> are linked up and every
  other address holds what \<open>F\<close> says. Each operation that rearranges pointers is shown to take such a state to
  another one, as an equation; a node is singled out by the path from it to the root.
\<close>

subsection \<open>Trees, and trees with a hole\<close>

type_synonym ptree = "(addr \<times> 2 word) tree"

text \<open>The node's subtrees on side \<open>d\<close> and on the other side.\<close>

fun nd :: "tree_dir \<Rightarrow> ptree \<Rightarrow> addr \<times> 2 word \<Rightarrow> ptree \<Rightarrow> ptree" where
  "nd TREE_LEFT x n y = Node x n y"
| "nd TREE_RIGHT x n y = Node y n x"

fun rootp :: "ptree \<Rightarrow> addr option" where
  "rootp Leaf = None"
| "rootp (Node l n r) = Some (fst n)"

definition tn :: "tree_dir \<Rightarrow> addr option \<Rightarrow> addr option \<Rightarrow> addr option \<Rightarrow> 2 word \<Rightarrow> tree_node" where
  "tn d x y p e = \<lparr>n_child = (\<lambda>d'. if d' = d then x else y), n_parent = p, n_extra = e\<rparr>"

primrec node_addrs :: "ptree \<Rightarrow> addr set" where
  "node_addrs Leaf = {}"
| "node_addrs (Node l n r) = insert (fst n) (node_addrs l \<union> node_addrs r)"

primrec dis :: "ptree \<Rightarrow> bool" where
  "dis Leaf \<longleftrightarrow> True"
| "dis (Node l n r) \<longleftrightarrow> fst n \<notin> node_addrs l \<and> fst n \<notin> node_addrs r \<and> node_addrs l \<inter> node_addrs r = {} \<and> dis l \<and> dis r"

definition addr_list :: "ptree \<Rightarrow> addr list" where
  "addr_list t = map fst (inorder t)"

text \<open>A path from a hole up to the root: the side of the hole, the node there, and the other subtree.\<close>

type_synonym frame = "tree_dir \<times> addr \<times> 2 word \<times> ptree"

fun plug :: "frame list \<Rightarrow> ptree \<Rightarrow> ptree" where
  "plug [] t = t"
| "plug ((d, a, c, y) # C) t = plug C (nd d t (a, c) y)"

fun cpar :: "addr option \<Rightarrow> frame list \<Rightarrow> addr option" where
  "cpar p [] = p"
| "cpar p ((d, a, c, y) # C) = Some a"

fun croot :: "frame list \<Rightarrow> addr option \<Rightarrow> addr option" where
  "croot [] r = r"
| "croot ((d, a, c, y) # C) r = croot C (Some a)"

fun caddrs :: "frame list \<Rightarrow> addr set" where
  "caddrs [] = {}"
| "caddrs ((d, a, c, y) # C) = insert a (node_addrs y \<union> caddrs C)"

fun cdis :: "frame list \<Rightarrow> bool" where
  "cdis [] \<longleftrightarrow> True"
| "cdis ((d, a, c, y) # C) \<longleftrightarrow>
     a \<notin> node_addrs y \<and> a \<notin> caddrs C \<and> node_addrs y \<inter> caddrs C = {} \<and> dis y \<and> cdis C"

lemma opp_opp [simp]: "opp (opp d) = d"
  by (cases d) simp_all

lemma opp_neq [simp]: "opp d \<noteq> d" "d \<noteq> opp d"
  by (cases d; simp)+

lemma neq_opp: "d \<noteq> d' \<longleftrightarrow> d' = opp d"
  by (cases d; cases d') simp_all

lemma nd_opp [simp]: "nd (opp d) x n y = nd d y n x"
  by (cases d) simp_all

lemma Node_nd: "Node l n r = nd TREE_LEFT l n r"
  by simp

lemma nd_cases: obtains "t = Leaf" | x n y where "t = nd d x n y"
proof (cases t)
  case (Node l n r)
  then show ?thesis using that(2) [of "if d = TREE_LEFT then l else r" n "if d = TREE_LEFT then r else l"]
    by (cases d) simp_all
qed (use that in simp)

lemma nd_neq_Leaf [simp]: "nd d x n y \<noteq> Leaf" "Leaf \<noteq> nd d x n y"
  by (cases d; simp)+

lemma rootp_nd [simp]: "rootp (nd d x n y) = Some (fst n)"
  by (cases d) simp_all

lemma rootp_None [simp]: "rootp t = None \<longleftrightarrow> t = Leaf"
  by (cases t) simp_all

lemma node_addrs_nd [simp]: "node_addrs (nd d x n y) = insert (fst n) (node_addrs x \<union> node_addrs y)"
  by (cases d) auto

lemma dis_nd [simp]:
  "dis (nd d x n y) \<longleftrightarrow> fst n \<notin> node_addrs x \<and> fst n \<notin> node_addrs y \<and> node_addrs x \<inter> node_addrs y = {} \<and> dis x \<and> dis y"
  by (cases d) auto

lemma rootp_in_node_addrs: "rootp t = Some a \<Longrightarrow> a \<in> node_addrs t"
  by (cases t) auto

lemma rootp_notin: "a \<notin> node_addrs t \<Longrightarrow> rootp t \<noteq> Some a"
  by (cases t) auto

lemma rootp_plug [simp]: "rootp (plug C t) = croot C (rootp t)"
  by (induction C t rule: plug.induct) simp_all

lemma croot_Some [simp]: "croot C (Some a) \<noteq> None" "None \<noteq> croot C (Some a)"
  by (induction C arbitrary: a) auto

lemma croot_notin: "a \<notin> caddrs C \<Longrightarrow> g \<noteq> a \<Longrightarrow> croot C (Some g) \<noteq> Some a"
  by (induction C arbitrary: g) auto

lemma node_addrs_plug [simp]: "node_addrs (plug C t) = caddrs C \<union> node_addrs t"
  by (induction C t rule: plug.induct) auto

lemma dis_plug [simp]: "dis (plug C t) \<longleftrightarrow> cdis C \<and> dis t \<and> caddrs C \<inter> node_addrs t = {}"
  by (induction C t rule: plug.induct) auto

lemma plug_append: "plug (C @ D) t = plug D (plug C t)"
  by (induction C t rule: plug.induct) simp_all

lemma cpar_append [simp]: "cpar p (C @ D) = cpar (cpar p D) C"
  by (cases C) auto

lemma croot_append [simp]: "croot (C @ D) r = croot D (croot C r)"
  by (induction C r rule: croot.induct) simp_all

lemma caddrs_append [simp]: "caddrs (C @ D) = caddrs C \<union> caddrs D"
  by (induction C rule: caddrs.induct) auto

lemma cdis_append [simp]: "cdis (C @ D) \<longleftrightarrow> cdis C \<and> cdis D \<and> caddrs C \<inter> caddrs D = {}"
  by (induction C rule: cdis.induct) auto

lemma finite_node_addrs [simp]: "finite (node_addrs t)"
  by (induction t) simp_all

lemma set_addr_list: "set (addr_list t) = node_addrs t"
  by (induction t) (auto simp: addr_list_def)

lemma dis_iff_distinct: "dis t \<longleftrightarrow> distinct (addr_list t)"
proof (induction t)
  case (Node l n r)
  then show ?case
    using set_addr_list [of l] set_addr_list [of r] by (auto simp: addr_list_def)
qed (simp add: addr_list_def)

lemma addr_list_plug_cong: "addr_list t = addr_list t' \<Longrightarrow> addr_list (plug C t) = addr_list (plug C t')"
proof (induction C t arbitrary: t' rule: plug.induct)
  case (2 d a c y C t)
  have "addr_list (nd d t (a, c) y) = addr_list (nd d t' (a, c) y)"
    using 2(2) by (cases d) (simp_all add: addr_list_def)
  then show ?case by (simp add: 2(1))
qed simp

subsection \<open>The nodes of a tree in the heap\<close>

lemma n_child_tn [simp]: "n_child (tn d x y p e) d' = (if d' = d then x else y)"
  by (simp add: tn_def)

lemma n_child_tn_fun: "n_child (tn d x y p e) = (\<lambda>d'. if d' = d then x else y)"
  by (simp add: tn_def)

lemma n_parent_tn [simp]: "n_parent (tn d x y p e) = p"
  by (simp add: tn_def)

lemma n_extra_tn [simp]: "n_extra (tn d x y p e) = e"
  by (simp add: tn_def)

lemma tn_upd_parent [simp]: "(tn d x y p e)\<lparr>n_parent := q\<rparr> = tn d x y q e"
  by (simp add: tn_def)

lemma tn_upd_extra [simp]: "(tn d x y p e)\<lparr>n_extra := f\<rparr> = tn d x y p f"
  by (simp add: tn_def)

lemma tn_upd_child:
  "(tn d x y p e)\<lparr>n_child := (\<lambda>d'. if d' = d then x else y)(d' := z)\<rparr> =
     (if d' = d then tn d z y p e else tn d x z p e)"
  by (cases d; cases d') (auto simp: tn_def fun_eq_iff; metis tree_dir.exhaust)+

lemma tn_opp: "tn (opp d) x y p e = tn d y x p e"
  by (cases d) (auto simp: tn_def fun_eq_iff; metis tree_dir.exhaust)+

primrec store :: "addr option \<Rightarrow> ptree \<Rightarrow> (addr \<rightharpoonup> tree_node) \<Rightarrow> (addr \<rightharpoonup> tree_node)" where
  "store p Leaf h = h"
| "store p (Node l n r) h =
     (store (Some (fst n)) l (store (Some (fst n)) r h))(fst n \<mapsto> tn TREE_LEFT (rootp l) (rootp r) p (snd n))"

definition tree_st :: "(addr \<rightharpoonup> tree_node) \<Rightarrow> nat \<Rightarrow> ptree \<Rightarrow> tree_state" where
  "tree_st F n t = \<lparr>t_heap = store None t F, t_root = rootp t, t_num = n\<rparr>"

primrec rep :: "(addr \<rightharpoonup> tree_node) \<Rightarrow> addr option \<Rightarrow> ptree \<Rightarrow> bool" where
  "rep h p Leaf \<longleftrightarrow> True"
| "rep h p (Node l n r) \<longleftrightarrow>
     h (fst n) = Some (tn TREE_LEFT (rootp l) (rootp r) p (snd n)) \<and> rep h (Some (fst n)) l \<and> rep h (Some (fst n)) r"

fun crep :: "(addr \<rightharpoonup> tree_node) \<Rightarrow> addr option \<Rightarrow> frame list \<Rightarrow> addr option \<Rightarrow> bool" where
  "crep h p [] r \<longleftrightarrow> True"
| "crep h p ((d, a, c, y) # C) r \<longleftrightarrow>
     h a = Some (tn d r (rootp y) (cpar p C) c) \<and> rep h (Some a) y \<and> crep h p C (Some a)"

lemma rep_nd [simp]:
  "rep h p (nd d x n y) \<longleftrightarrow>
     h (fst n) = Some (tn d (rootp x) (rootp y) p (snd n)) \<and> rep h (Some (fst n)) x \<and> rep h (Some (fst n)) y"
  using tn_opp [of TREE_LEFT] by (cases d) auto

lemma rep_plug [simp]: "rep h p (plug C t) \<longleftrightarrow> crep h p C (rootp t) \<and> rep h (cpar p C) t"
  by (induction C t rule: plug.induct) auto

lemma crep_append [simp]: "crep h p (C @ D) r \<longleftrightarrow> crep h (cpar p D) C r \<and> crep h p D (croot C r)"
  by (induction C r rule: croot.induct) auto

lemma rep_upd [simp]: "a \<notin> node_addrs t \<Longrightarrow> rep (h(a \<mapsto> v)) p t \<longleftrightarrow> rep h p t"
  by (induction t arbitrary: p) auto

lemma crep_upd [simp]: "a \<notin> caddrs C \<Longrightarrow> crep (h(a \<mapsto> v)) p C r \<longleftrightarrow> crep h p C r"
  by (induction C arbitrary: r) auto

lemma store_outside: "a \<notin> node_addrs t \<Longrightarrow> store p t h a = h a"
  by (induction t arbitrary: p h) auto

lemma rep_cong: "(\<And>a. a \<in> node_addrs t \<Longrightarrow> h a = h' a) \<Longrightarrow> rep h p t \<longleftrightarrow> rep h' p t"
  by (induction t arbitrary: p) auto

lemma rep_store: "dis t \<Longrightarrow> rep (store p t h) p t"
proof (induction t arbitrary: p h)
  case (Node l n r)
  let ?h = "store (Some (fst n)) r h"
  have "rep (store (Some (fst n)) l ?h) (Some (fst n)) r \<longleftrightarrow> rep ?h (Some (fst n)) r"
    using Node.prems by (intro rep_cong store_outside) auto
  then have "rep (store (Some (fst n)) l ?h) (Some (fst n)) r" and "rep (store (Some (fst n)) l ?h) (Some (fst n)) l"
    using Node.prems Node.IH by simp_all
  then show ?case using Node.prems unfolding store.simps rep.simps dis.simps by simp
qed simp

lemma rep_eq_on: "rep h p t \<Longrightarrow> rep h' p t \<Longrightarrow> a \<in> node_addrs t \<Longrightarrow> h a = h' a"
  by (induction t arbitrary: p) auto

lemma store_unique:
  assumes "dis t" and "rep h p t" and "\<And>a. a \<notin> node_addrs t \<Longrightarrow> h a = F a"
  shows "h = store p t F"
proof
  fix a
  show "h a = store p t F a"
    using assms rep_store [OF assms(1)] rep_eq_on by (cases "a \<in> node_addrs t") (fastforce simp: store_outside)+
qed

text \<open>
  A run from a state that represents \<open>t\<close> ends in the state that represents \<open>t'\<close> when the heap at the end
  has the nodes of \<open>t'\<close> and nothing else has changed.
\<close>

lemma tree_st_run:
  assumes "dis t" and "dis t'"
    and run: "\<And>h. rep h None t \<Longrightarrow> (\<And>x. x \<notin> node_addrs t \<Longrightarrow> h x = F x) \<Longrightarrow>
      \<exists>h'. f \<lparr>t_heap = h, t_root = rootp t, t_num = n\<rparr> = (Inr v, \<lparr>t_heap = h', t_root = rootp t', t_num = n'\<rparr>) \<and>
        rep h' None t' \<and> (\<forall>x. x \<notin> node_addrs t' \<longrightarrow> h' x = F' x)"
  shows "f (tree_st F n t) = (Inr v, tree_st F' n' t')"
proof -
  obtain h' where f: "f (tree_st F n t) = (Inr v, \<lparr>t_heap = h', t_root = rootp t', t_num = n'\<rparr>)"
    and rep: "rep h' None t'" and out: "\<And>x. x \<notin> node_addrs t' \<Longrightarrow> h' x = F' x"
    using run [OF rep_store [OF assms(1)] store_outside] unfolding tree_st_def by blast
  then show ?thesis
    using store_unique [OF assms(2) rep out] by (simp add: tree_st_def)
qed

lemma tree_st_run_same:
  assumes "dis t" and "dis t'" and addrs: "node_addrs t' = node_addrs t"
    and run: "\<And>h. rep h None t \<Longrightarrow>
      \<exists>h'. f \<lparr>t_heap = h, t_root = rootp t, t_num = n\<rparr> = (Inr v, \<lparr>t_heap = h', t_root = rootp t', t_num = n'\<rparr>) \<and>
        rep h' None t' \<and> (\<forall>x. x \<notin> node_addrs t \<longrightarrow> h' x = h x)"
  shows "f (tree_st F n t) = (Inr v, tree_st F n' t')"
proof (rule tree_st_run [OF assms(1,2)])
  fix h
  assume "rep h None t" and out: "\<And>x. x \<notin> node_addrs t \<Longrightarrow> h x = F x"
  then show "\<exists>h'. f \<lparr>t_heap = h, t_root = rootp t, t_num = n\<rparr> = (Inr v, \<lparr>t_heap = h', t_root = rootp t', t_num = n'\<rparr>) \<and>
      rep h' None t' \<and> (\<forall>x. x \<notin> node_addrs t' \<longrightarrow> h' x = F x)"
    using run [of h] addrs by fastforce
qed

lemma t_heap_tree_st: "dis t \<Longrightarrow> rep (t_heap (tree_st F n t)) None t"
  by (simp add: tree_st_def rep_store)

lemma tree_st_sel [simp]: "t_root (tree_st F n t) = rootp t" "t_num (tree_st F n t) = n"
  by (simp_all add: tree_st_def)

subsection \<open>Reading and recolouring\<close>

named_theorems node_ops \<open>accesses to the fields of nodes in the heap\<close>

lemma get_node_Some [node_ops]: "t_heap s a = Some m \<Longrightarrow> get_node (Some a) s = (Inr m, s)"
  by (simp add: get_node_def)

lemma get_child_Some [node_ops]: "t_heap s a = Some m \<Longrightarrow> get_child (Some a) d s = (Inr (n_child m d), s)"
  by (simp add: get_child_def get_node_Some)

lemma get_parent_Some [node_ops]: "t_heap s a = Some m \<Longrightarrow> get_parent (Some a) s = (Inr (n_parent m), s)"
  by (simp add: get_parent_def get_node_Some)

lemma get_extra_Some [node_ops]: "t_heap s a = Some m \<Longrightarrow> get_extra (Some a) s = (Inr (n_extra m), s)"
  by (simp add: get_extra_def get_node_Some)

lemma which_dir_Some:
  "t_heap s a = Some m \<Longrightarrow>
     which_dir (Some a) p s = (Inr (if n_child m TREE_LEFT = p then TREE_LEFT else TREE_RIGHT), s)"
  by (simp add: which_dir_def get_child_Some)

lemma set_parent_Some [node_ops]:
  "t_heap s a = Some m \<Longrightarrow>
     set_parent (Some a) q s = (Inr (), s\<lparr>t_heap := (t_heap s)(a \<mapsto> m\<lparr>n_parent := q\<rparr>)\<rparr>)"
  by (simp add: set_parent_def upd_node_def)

lemma set_extra_Some [node_ops]:
  "t_heap s a = Some m \<Longrightarrow>
     set_extra (Some a) e s = (Inr (), s\<lparr>t_heap := (t_heap s)(a \<mapsto> m\<lparr>n_extra := e\<rparr>)\<rparr>)"
  by (simp add: set_extra_def upd_node_def)

lemma set_child_tn [node_ops]:
  "t_heap s a = Some (tn d x y p e) \<Longrightarrow>
     set_child (Some a) d' z s =
       (Inr (), s\<lparr>t_heap := (t_heap s)(a \<mapsto> if d' = d then tn d z y p e else tn d x z p e)\<rparr>)"
  by (simp add: set_child_def upd_node_def n_child_tn_fun tn_upd_child)

lemma set_parent_if_None [node_ops]: "set_parent_if None q s = (Inr (), s)"
  by (simp add: set_parent_if_def)

lemma set_parent_if_Some [node_ops]: "set_parent_if (Some a) q = set_parent (Some a) q"
  by (simp add: set_parent_if_def)

lemma get_root_run [node_ops]: "get_root s = (Inr (t_root s), s)"
  by (simp add: get_root_def)

lemma set_root_run [node_ops]: "set_root r s = (Inr (), s\<lparr>t_root := r\<rparr>)"
  by (simp add: set_root_def)

lemma get_num_run [node_ops]: "get_num s = (Inr (t_num s), s)"
  by (simp add: get_num_def)

lemma set_num_run [node_ops]: "set_num n s = (Inr (), s\<lparr>t_num := n\<rparr>)"
  by (simp add: set_num_def)

text \<open>The node at the end of a path.\<close>

lemma node_at:
  assumes "dis (plug C (nd d x (a, c) y))"
  shows "t_heap (tree_st F n (plug C (nd d x (a, c) y))) a = Some (tn d (rootp x) (rootp y) (cpar None C) c)"
  using t_heap_tree_st [OF assms] by simp

lemma set_extra_at:
  assumes "dis (plug C (nd d x (a, c) y))"
  shows "set_extra (Some a) e (tree_st F n (plug C (nd d x (a, c) y))) =
    (Inr (), tree_st F n (plug C (nd d x (a, e) y)))"
proof (rule tree_st_run [OF assms])
  show "dis (plug C (nd d x (a, e) y))" using assms by simp
  fix h
  assume "rep h None (plug C (nd d x (a, c) y))" and "\<And>b. b \<notin> node_addrs (plug C (nd d x (a, c) y)) \<Longrightarrow> h b = F b"
  then show "\<exists>h'. set_extra (Some a) e \<lparr>t_heap = h, t_root = rootp (plug C (nd d x (a, c) y)), t_num = n\<rparr> =
        (Inr (), \<lparr>t_heap = h', t_root = rootp (plug C (nd d x (a, e) y)), t_num = n\<rparr>) \<and>
      rep h' None (plug C (nd d x (a, e) y)) \<and> (\<forall>b. b \<notin> node_addrs (plug C (nd d x (a, e) y)) \<longrightarrow> h' b = F b)"
    using assms by (intro exI [of _ "h(a \<mapsto> tn d (rootp x) (rootp y) (cpar None C) e)"]) (simp add: node_ops)
qed

subsection \<open>Rotation\<close>

lemma which_dir_frame:
  assumes "t_heap s g = Some (tn d r w p e)" and "w \<noteq> r"
  shows "which_dir (Some g) r s = (Inr d, s)"
  using assms by (cases d) (simp_all add: which_dir_Some)

lemmas dis_split = Int_Un_distrib Int_Un_distrib2

lemma rb_rotate_at:
  assumes "dis (plug C (nd d x (a, c) (nd d y (b, e) z)))"
  shows "rb_rotate (Some a) d (tree_st F n (plug C (nd d x (a, c) (nd d y (b, e) z)))) =
    (Inr (), tree_st F n (plug C (nd d (nd d x (a, c) y) (b, e) z)))" (is "_ (tree_st F n ?t) = (_, tree_st F n ?t')")
proof (rule tree_st_run [OF assms])
  show "dis ?t'" using assms by auto
  fix h
  assume rep: "rep h None ?t" and out: "\<And>q. q \<notin> node_addrs ?t \<Longrightarrow> h q = F q"
  show "\<exists>h'. rb_rotate (Some a) d \<lparr>t_heap = h, t_root = rootp ?t, t_num = n\<rparr> =
        (Inr (), \<lparr>t_heap = h', t_root = rootp ?t', t_num = n\<rparr>) \<and>
      rep h' None ?t' \<and> (\<forall>b. b \<notin> node_addrs ?t' \<longrightarrow> h' b = F b)"
  proof (cases C)
    case Nil
    then show ?thesis
      using assms rep out
      by (cases y) (simp_all add: rb_rotate_def node_ops dis_split)
  next
    case (Cons f C')
    obtain d' g cg s where f: "f = (d', g, cg, s)" by (cases f)
    then show ?thesis
      using assms rep out Cons rootp_notin [of a s]
      by (cases y) (simp_all add: rb_rotate_def node_ops which_dir_frame dis_split)
  qed
qed

text \<open>The same with the other side up.\<close>

lemma rb_rotate_opp_at:
  assumes "dis (plug C (nd d (nd d z (b, e) y) (a, c) x))"
  shows "rb_rotate (Some a) (opp d) (tree_st F n (plug C (nd d (nd d z (b, e) y) (a, c) x))) =
    (Inr (), tree_st F n (plug C (nd d z (b, e) (nd d y (a, c) x))))"
  using rb_rotate_at [of C "opp d" x a c y b e z F n] assms by simp

subsection \<open>Insertion\<close>

lemma node_tn: "m = tn TREE_LEFT (n_child m TREE_LEFT) (n_child m TREE_RIGHT) (n_parent m) (n_extra m)"
  by (cases m) (auto simp: tn_def fun_eq_iff; metis tree_dir.exhaust)

fun cdir :: "frame list \<Rightarrow> tree_dir" where
  "cdir [] = TREE_LEFT"
| "cdir ((d, a, c, y) # C) = d"

lemma insert_at_hole:
  assumes "dis (plug C Leaf)" and "a \<notin> caddrs C" and F: "F a = Some m"
  shows "insert_at a \<lparr>c_node = cpar None C, c_dir = cdir C\<rparr> (tree_st F n (plug C Leaf)) =
    (Inr (), tree_st F (n + 1) (plug C (Node Leaf (a, n_extra m) Leaf)))" (is "_ (tree_st F n ?t) = (_, tree_st F _ ?t')")
proof (rule tree_st_run [OF assms(1)])
  show "dis ?t'" using assms by auto
  fix h
  assume rep: "rep h None ?t" and out: "\<And>q. q \<notin> node_addrs ?t \<Longrightarrow> h q = F q"
  obtain l r p e where m: "m = tn TREE_LEFT l r p e" using node_tn by blast
  have ha: "h a = Some (tn TREE_LEFT l r p e)" using out [of a] assms m by simp
  show "\<exists>h'. insert_at a \<lparr>c_node = cpar None C, c_dir = cdir C\<rparr> \<lparr>t_heap = h, t_root = rootp ?t, t_num = n\<rparr> =
        (Inr (), \<lparr>t_heap = h', t_root = rootp ?t', t_num = n + 1\<rparr>) \<and>
      rep h' None ?t' \<and> (\<forall>b. b \<notin> node_addrs ?t' \<longrightarrow> h' b = F b)"
  proof (cases C)
    case Nil
    then show ?thesis
      using rep out ha by (simp add: m insert_at_def node_ops)
  next
    case (Cons f C')
    obtain d' g cg s where f: "f = (d', g, cg, s)" by (cases f)
    then show ?thesis
      using assms rep out Cons ha by (simp add: m insert_at_def node_ops)
  qed
qed

subsection \<open>Removal\<close>

lemma leftmost: 
  assumes "t \<noteq> Leaf"
  obtains D b e E where "t = plug D (Node Leaf (b, e) E)" and "\<And>f. f \<in> set D \<Longrightarrow> fst f = TREE_LEFT"
  using assms
proof (induction t arbitrary: thesis)
  case (Node l n r)
  show ?case
  proof (cases "l = Leaf")
    case True
    then show ?thesis using Node.prems(1) [of "[]" "fst n" "snd n" r] by simp
  next
    case False
    with Node.IH(1) obtain D b e E where l: "l = plug D (Node Leaf (b, e) E)" and D: "\<And>f. f \<in> set D \<Longrightarrow> fst f = TREE_LEFT"
      by blast
    show ?thesis
      by (rule Node.prems(1) [of "D @ [(TREE_LEFT, fst n, snd n, r)]" b e E]) (use l D in \<open>auto simp: plug_append\<close>)
  qed
qed simp

lemma firstlast_loop_left:
  assumes "dis (plug C (plug D (Node Leaf (b, e) E)))" and "\<And>f. f \<in> set D \<Longrightarrow> fst f = TREE_LEFT" and "length D < fuel"
  shows "firstlast_loop fuel (rootp (plug D (Node Leaf (b, e) E))) TREE_LEFT
      (tree_st F n (plug C (plug D (Node Leaf (b, e) E)))) =
    (Inr (Some b), tree_st F n (plug C (plug D (Node Leaf (b, e) E))))"
  using assms
proof (induction D arbitrary: C fuel rule: rev_induct)
  case Nil
  then show ?case
    using node_at [of C TREE_LEFT Leaf b e E F n]
    by (cases fuel) (simp_all add: node_ops)
next
  case (snoc f D)
  obtain g cg s where f: "f = (TREE_LEFT, g, cg, s)" using snoc.prems(2) by (cases f) force
  obtain fuel' where fuel: "fuel = Suc fuel'" using snoc.prems(3) by (cases fuel) auto
  let ?t = "plug D (Node Leaf (b, e) E)"
  have "t_heap (tree_st F n (plug C (Node ?t (g, cg) s))) g =
      Some (tn TREE_LEFT (rootp ?t) (rootp s) (cpar None C) cg)"
    using node_at [of C TREE_LEFT ?t g cg s F n] snoc.prems(1) by (simp add: f plug_append)
  moreover have "firstlast_loop fuel' (rootp ?t) TREE_LEFT (tree_st F n (plug ((TREE_LEFT, g, cg, s) # C) ?t)) =
      (Inr (Some b), tree_st F n (plug ((TREE_LEFT, g, cg, s) # C) ?t))"
    using snoc.prems fuel by (intro snoc.IH) (auto simp: f plug_append)
  ultimately show ?case by (simp add: f fuel plug_append node_ops)
qed

text \<open>A path with the two ends apart.\<close>

lemma path_cases:
  obtains "D = []" | f where "D = [f]" | f D' f' where "D = f # D' @ [f']"
  by (metis append_butlast_last_id list.exhaust)

lemma andthen_assoc: "andthen (andthen f g) k = andthen f (\<lambda>x. andthen (g x) k)"
  by (rule ext) (simp add: andthen_def split: prod.split sum.split)

lemmas swap_defs = swap_nodes_def swap_adjacent_def swap_distant_def link_parent_def andthen_assoc node_ops

lemma swap_nodes_at:
  assumes dis: "dis (plug C (Node l (a, c) (plug D (Node Leaf (b, e) E))))" and "l \<noteq> Leaf"
    and D: "\<And>f. f \<in> set D \<Longrightarrow> fst f = TREE_LEFT"
  shows "swap_nodes (Some a) (Some b) TREE_LEFT (tree_st F n (plug C (Node l (a, c) (plug D (Node Leaf (b, e) E))))) =
    (Inr (), tree_st F n (plug C (Node l (b, c) (plug D (Node Leaf (a, e) E)))))"
    (is "_ (tree_st F n ?t) = (_, tree_st F n ?t')")
proof (rule tree_st_run_same [OF dis])
  show "dis ?t'" and "node_addrs ?t' = node_addrs ?t" using dis by auto
  fix h
  assume rep: "rep h None ?t"
  obtain ll ln lr where l: "l = Node ll ln lr" using assms(2) by (cases l) auto
  show "\<exists>h'. swap_nodes (Some a) (Some b) TREE_LEFT \<lparr>t_heap = h, t_root = rootp ?t, t_num = n\<rparr> =
        (Inr (), \<lparr>t_heap = h', t_root = rootp ?t', t_num = n\<rparr>) \<and>
      rep h' None ?t' \<and> (\<forall>b. b \<notin> node_addrs ?t \<longrightarrow> h' b = h b)"
  proof (cases C)
    case Nil
    show ?thesis
    proof (cases D rule: path_cases)
      case 1
      show ?thesis
        using dis rep unfolding 1 l Nil
        by (cases E; simp add: dis_split; elim conjE; simp (no_asm_simp) add: swap_defs which_dir_frame)
    next
      case (2 f)
      obtain q cq sq where f: "f = (TREE_LEFT, q, cq, sq)" using D 2 by (cases f) auto
      show ?thesis
        using dis rep unfolding 2 l Nil f
        by (cases E; simp add: dis_split; elim conjE; simp (no_asm_simp) add: swap_defs which_dir_frame)
    next
      case (3 f D' f')
      obtain q cq sq where f: "f = (TREE_LEFT, q, cq, sq)" using D [of f] 3 by (cases f) auto
      obtain u cu su where f': "f' = (TREE_LEFT, u, cu, su)" using D [of f'] 3 by (cases f') auto
      show ?thesis
        using dis rep unfolding 3 l Nil f f'
        by (cases E; simp add: dis_split; elim conjE; simp (no_asm_simp) add: swap_defs which_dir_frame)
    qed
  next
    case (Cons k C')
    obtain d' g cg s where k: "k = (d', g, cg, s)" by (cases k)
    have root: "rootp s \<noteq> Some a" "croot C' (Some g) \<noteq> Some a"
      using dis Cons k rootp_notin [of a s] croot_notin [of a C' g] by auto
    show ?thesis
    proof (cases D rule: path_cases)
      case 1
      show ?thesis
        using dis rep root unfolding 1 l Cons k
        by (cases E; simp add: dis_split; elim conjE; simp (no_asm_simp) add: swap_defs which_dir_frame)
    next
      case (2 f)
      obtain q cq sq where f: "f = (TREE_LEFT, q, cq, sq)" using D 2 by (cases f) auto
      show ?thesis
        using dis rep root unfolding 2 l Cons k f
        by (cases E; simp add: dis_split; elim conjE; simp (no_asm_simp) add: swap_defs which_dir_frame)
    next
      case (3 f D' f')
      obtain q cq sq where f: "f = (TREE_LEFT, q, cq, sq)" using D [of f] 3 by (cases f) auto
      obtain u cu su where f': "f' = (TREE_LEFT, u, cu, su)" using D [of f'] 3 by (cases f') auto
      show ?thesis
        using dis rep root unfolding 3 l Cons k f f'
        by (cases E; simp add: dis_split; elim conjE; simp (no_asm_simp) add: swap_defs which_dir_frame)
    qed
  qed
qed

lemma unlink_node_at:
  assumes dis: "dis (plug C (nd d Leaf (a, e) E))"
  shows "unlink_node (Some a) (tree_st F n (plug C (nd d Leaf (a, e) E))) =
    (Inr (cpar None C, rootp E), tree_st (F(a \<mapsto> tn TREE_LEFT None None None e)) (n - 1) (plug C E))"
    (is "_ (tree_st F n ?t) = (_, tree_st ?F' _ ?t')")
proof (rule tree_st_run [OF dis])
  show "dis ?t'" using dis by auto
  fix h
  assume rep: "rep h None ?t" and out: "\<And>q. q \<notin> node_addrs ?t \<Longrightarrow> h q = F q"
  have d0: "tn TREE_RIGHT None None None e = tn TREE_LEFT None None None e"
    using tn_opp [of TREE_LEFT None None None e] by simp
  have "\<exists>h'. unlink_node (Some a) \<lparr>t_heap = h, t_root = rootp ?t, t_num = n\<rparr> =
        (Inr (cpar None C, rootp E), \<lparr>t_heap = h', t_root = rootp ?t', t_num = n - 1\<rparr>) \<and>
      rep h' None ?t' \<and> h' a = Some (tn TREE_LEFT None None None e) \<and> (\<forall>b. b \<notin> node_addrs ?t \<longrightarrow> h' b = h b)"
  proof (cases C)
    case Nil
    show ?thesis
      using dis rep unfolding Nil
      by (cases E; cases d; simp add: dis_split; (elim conjE)?;
          simp (no_asm_simp) add: unlink_node_def promote_node_child_def Let_def node_ops d0)
  next
    case (Cons k C')
    obtain d' g cg s where k: "k = (d', g, cg, s)" by (cases k)
    have root: "rootp s \<noteq> Some a"
      using dis Cons k rootp_notin [of a s] by auto
    show ?thesis
      using dis rep root unfolding Cons k
      by (cases E; cases d; simp add: dis_split; (elim conjE)?;
          simp (no_asm_simp) add: unlink_node_def promote_node_child_def Let_def node_ops which_dir_frame d0)
  qed
  then show "\<exists>h'. unlink_node (Some a) \<lparr>t_heap = h, t_root = rootp ?t, t_num = n\<rparr> =
        (Inr (cpar None C, rootp E), \<lparr>t_heap = h', t_root = rootp ?t', t_num = n - 1\<rparr>) \<and>
      rep h' None ?t' \<and> (\<forall>b. b \<notin> node_addrs ?t' \<longrightarrow> h' b = ?F' b)"
    using out by fastforce
qed

lemma size_nd [simp]: "size (nd d x n y) = size x + size y + 1"
  by (cases d) simp_all

lemma size_plug: "size (plug C t) \<ge> length C + size t"
proof (induction C t rule: plug.induct)
  case (2 d a c y C t)
  then show ?case by simp
qed simp

lemma addr_list_plug: "\<exists>pre post. \<forall>t. addr_list (plug C t) = pre @ addr_list t @ post"
proof (induction C)
  case Nil
  show ?case by (rule exI [of _ "[]"], rule exI [of _ "[]"]) simp
next
  case (Cons f C)
  then obtain pre post where IH: "\<And>t. addr_list (plug C t) = pre @ addr_list t @ post" by blast
  obtain d a c y where f: "f = (d, a, c, y)" by (cases f)
  show ?case
  proof (cases d)
    case TREE_LEFT
    show ?thesis unfolding TREE_LEFT f
      by (rule exI [of _ pre], rule exI [of _ "a # addr_list y @ post"]) (simp add: IH, simp add: addr_list_def)
  next
    case TREE_RIGHT
    show ?thesis unfolding TREE_RIGHT f
      by (rule exI [of _ "pre @ addr_list y @ [a]"], rule exI [of _ post]) (simp add: IH, simp add: addr_list_def)
  qed
qed

lemma addr_list_leftmost:
  assumes "\<And>f. f \<in> set D \<Longrightarrow> fst f = TREE_LEFT"
  shows "addr_list (plug D (Node Leaf (b, e) E)) = b # addr_list (plug D E)"
  using assms
proof (induction D rule: rev_induct)
  case (snoc f D)
  obtain g cg s where f: "f = (TREE_LEFT, g, cg, s)" using snoc.prems [of f] by (cases f) auto
  show ?case using snoc by (simp add: f plug_append addr_list_def)
qed (simp add: addr_list_def)

lemma addr_list_remove:
  assumes "dis (plug C t)" and "addr_list t = u @ a # v" and "addr_list t' = u @ v"
  shows "addr_list (plug C t') = remove1 a (addr_list (plug C t))"
proof -
  obtain pre post where "\<And>t. addr_list (plug C t) = pre @ addr_list t @ post" using addr_list_plug by blast
  then show ?thesis using assms by (auto simp: dis_iff_distinct remove1_append)
qed

text \<open>
  After \<open>tree_remove\<close> the node is out of the tree. Seen from the node, the tree had the shape and the colours of
  a tree in which the node has at most one child.
\<close>

abbreviation colours :: "ptree \<Rightarrow> 2 word tree" where
  "colours t \<equiv> map_tree snd t"

lemma colours_plug_cong: "colours t = colours t' \<Longrightarrow> colours (plug C t) = colours (plug C t')"
proof (induction C t arbitrary: t' rule: plug.induct)
  case (2 d a c y C t)
  have "colours (nd d t (a, c) y) = colours (nd d t' (a, c) y)" using 2(2) by (cases d) simp_all
  then show ?case by (simp add: 2(1))
qed simp

lemma path_to:
  assumes "a \<in> node_addrs t"
  obtains C l c r where "t = plug C (Node l (a, c) r)"
  using assms
proof (induction t arbitrary: thesis)
  case (Node l n r)
  consider "a = fst n" | "a \<in> node_addrs l" | "a \<in> node_addrs r" using Node.prems(2) by auto
  then show ?case
  proof cases
    case 1
    then show ?thesis using Node.prems(1) [of "[]" l "snd n" r] by simp
  next
    case 2
    then obtain C l' c r' where "l = plug C (Node l' (a, c) r')" using Node.IH(1) by blast
    then show ?thesis
      by (intro Node.prems(1) [of "C @ [(TREE_LEFT, fst n, snd n, r)]" l' c r']) (simp add: plug_append)
  next
    case 3
    then obtain C l' c r' where "r = plug C (Node l' (a, c) r')" using Node.IH(2) by blast
    then show ?thesis
      by (intro Node.prems(1) [of "C @ [(TREE_RIGHT, fst n, snd n, l)]" l' c r']) (simp add: plug_append)
  qed
qed simp

lemma tree_remove_one:
  assumes "dis (plug C (nd d Leaf (a, e) E))"
  shows "tree_remove (Some a) (tree_st F n (plug C (nd d Leaf (a, e) E))) =
    (Inr (cpar None C, rootp E), tree_st (F(a \<mapsto> tn TREE_LEFT None None None e)) (n - 1) (plug C E))"
  using node_at [OF assms, of F n] unlink_node_at [OF assms, of F n]
  by (cases d) (simp_all add: tree_remove_def node_ops)

lemma tree_remove_two:
  assumes dis: "dis (plug C (Node l (a, c) (plug D (Node Leaf (b, e) E))))" and "l \<noteq> Leaf"
    and D: "\<And>f. f \<in> set D \<Longrightarrow> fst f = TREE_LEFT" and "length D \<le> n"
  shows "tree_remove (Some a) (tree_st F n (plug C (Node l (a, c) (plug D (Node Leaf (b, e) E))))) =
    (Inr (cpar None (D @ (TREE_RIGHT, b, c, l) # C), rootp E),
      tree_st (F(a \<mapsto> tn TREE_LEFT None None None e)) (n - 1) (plug (D @ (TREE_RIGHT, b, c, l) # C) E))"
proof -
  let ?r = "plug D (Node Leaf (b, e) E)"
  let ?s = "tree_st F n (plug C (Node l (a, c) ?r))"
  have at: "t_heap ?s a = Some (tn TREE_LEFT (rootp l) (rootp ?r) (cpar None C) c)"
    using node_at [of C TREE_LEFT l a c ?r F n] dis by simp
  have first: "firstlast (rootp ?r) TREE_LEFT ?s = (Inr (Some b), ?s)"
    using firstlast_loop_left [of "(TREE_RIGHT, a, c, l) # C" D b e E "n + 1" F n] dis D assms(4)
    by (simp add: firstlast_def node_ops dis_split)
  have "unlink_node (Some a) (tree_st F n (plug C (Node l (b, c) (plug D (Node Leaf (a, e) E))))) =
    (Inr (cpar None (D @ (TREE_RIGHT, b, c, l) # C), rootp E),
      tree_st (F(a \<mapsto> tn TREE_LEFT None None None e)) (n - 1) (plug (D @ (TREE_RIGHT, b, c, l) # C) E))"
    using unlink_node_at [of "D @ (TREE_RIGHT, b, c, l) # C" TREE_LEFT a e E F n] dis
    by (auto simp: plug_append)
  then show ?thesis
    using at first swap_nodes_at [OF dis assms(2) D, of F n] assms(2)
    by (simp add: tree_remove_def node_ops)
qed

lemma tree_remove_at:
  assumes dis: "dis t" and a: "a \<in> node_addrs t" and n: "size t \<le> n"
  obtains C d e E where "dis (plug C (nd d Leaf (a, e) E))" and "colours (plug C (nd d Leaf (a, e) E)) = colours t"
    and "addr_list (plug C E) = remove1 a (addr_list t)"
    and "tree_remove (Some a) (tree_st F n t) =
      (Inr (cpar None C, rootp E), tree_st (F(a \<mapsto> tn TREE_LEFT None None None e)) (n - 1) (plug C E))"
proof -
  obtain C l c r where t: "t = plug C (Node l (a, c) r)" using path_to [OF a] .
  show ?thesis
  proof (cases "l = Leaf \<or> r = Leaf")
    case True
    then obtain d E where nd: "Node l (a, c) r = nd d Leaf (a, c) E" by (metis nd.simps)
    have "addr_list (plug C E) = remove1 a (addr_list t)"
      using addr_list_remove [of C "Node l (a, c) r" "addr_list l" a "addr_list r" E] dis t True nd
      by (cases d) (auto simp: addr_list_def)
    then show ?thesis
      using tree_remove_one [of C d a c E F n] dis t nd by (intro that [of C d c E]) simp_all
  next
    case False
    then obtain D b e E where r: "r = plug D (Node Leaf (b, e) E)" and D: "\<And>f. f \<in> set D \<Longrightarrow> fst f = TREE_LEFT"
      using leftmost by blast
    have "length D \<le> n"
      using n size_plug [of C "Node l (a, c) r"] size_plug [of D "Node Leaf (b, e) E"] unfolding t r by simp
    moreover have "addr_list (plug C (Node l (b, c) (plug D E))) = remove1 a (addr_list t)"
      unfolding t by (rule addr_list_remove [of _ _ "addr_list l" _ "addr_list r"])
        (use dis t addr_list_leftmost [of D b e E, OF D] in \<open>simp_all add: r addr_list_def\<close>)
    moreover have "colours (plug D (Node Leaf (a, e) E)) = colours r"
      unfolding r by (rule colours_plug_cong) simp
    then have "colours (plug C (Node l (b, c) (plug D (Node Leaf (a, e) E)))) = colours t"
      unfolding t by (intro colours_plug_cong) simp
    ultimately show ?thesis
      using tree_remove_two [of C l a c D b e E n F] dis False D
      by (intro that [of "D @ (TREE_RIGHT, b, c, l) # C" TREE_LEFT e E]) (auto simp: t r plug_append)
  qed
qed

end
