(* ===== verification/Tree_Search.thy ===== *)
theory Tree_Search
  imports Tree_Rep
begin

text \<open>
  Searching the trees of \<^verbatim>\<open>src/tree.c\<close>, inserting at the place a search has found, and walking over a tree in
  order, all in terms of the in-order sequence of the objects in the tree.
\<close>

subsection \<open>The order of the objects\<close>

text \<open>
  The comparison function belongs to a linear order of keys, and the objects in the tree are in the order of
  their keys.
\<close>

definition compares :: "('q \<Rightarrow> addr \<Rightarrow> int) \<Rightarrow> ('q \<Rightarrow> 'k::linorder) \<Rightarrow> (addr \<Rightarrow> 'k) \<Rightarrow> bool" where
  "compares cmp qkey key \<longleftrightarrow> (\<forall>q a. (cmp q a < 0 \<longleftrightarrow> qkey q < key a) \<and> (cmp q a = 0 \<longleftrightarrow> qkey q = key a))"

definition in_order :: "(addr \<Rightarrow> 'k::linorder) \<Rightarrow> addr list \<Rightarrow> bool" where
  "in_order key xs \<longleftrightarrow> sorted_wrt (<) (map key xs)"

lemma in_order_append:
  "in_order key (xs @ a # ys) \<longleftrightarrow> in_order key xs \<and> in_order key ys \<and> (\<forall>x\<in>set xs. key x < key a) \<and>
     (\<forall>y\<in>set ys. key a < key y)"
  unfolding in_order_def sorted_wrt_append list.map map_append by (auto intro: less_trans)

lemma insort_key_middle:
  assumes "\<And>x. x \<in> set xs \<Longrightarrow> key x < key a" and "\<And>y. y \<in> set ys \<Longrightarrow> key a < key y"
  shows "insort_key key a (xs @ ys) = xs @ a # ys"
  using assms
proof (induction xs)
  case Nil
  then show ?case by (cases ys) (auto simp: less_imp_le)
next
  case (Cons x xs)
  have "\<not> key a \<le> key x" using Cons.prems(1) [of x] by (simp add: not_le)
  then show ?case using Cons by simp
qed

lemma in_order_insort:
  assumes "in_order key xs" and "key a \<notin> key ` set xs"
  shows "in_order key (insort_key key a xs)"
  using assms
proof (induction xs)
  case (Cons x xs)
  then have IH: "in_order key (insort_key key a xs)" by (simp add: in_order_def)
  show ?case
  proof (cases "key a \<le> key x")
    case True
    then have "key a < key x" using Cons.prems(2) by (simp add: order.strict_iff_order)
    then show ?thesis using Cons.prems True by (fastforce simp: in_order_def)
  next
    case False
    then show ?thesis using Cons.prems IH by (auto simp: in_order_def set_insort_key)
  qed
qed (simp add: in_order_def)

lemma in_order_remove1: "in_order key xs \<Longrightarrow> in_order key (remove1 a xs)"
proof (induction xs)
  case (Cons x xs)
  then show ?case using set_remove1_subset [of a xs] by (auto simp: in_order_def)
qed simp

subsection \<open>Searching\<close>

text \<open>The path a search takes, and the subtree where it ends.\<close>

fun seek :: "(addr \<Rightarrow> int) \<Rightarrow> ptree \<Rightarrow> frame list \<times> ptree" where
  "seek c Leaf = ([], Leaf)"
| "seek c (Node l (a, e) r) =
     (if c a = 0 then ([], Node l (a, e) r)
      else if c a < 0 then (case seek c l of (D, t) \<Rightarrow> (D @ [(TREE_LEFT, a, e, r)], t))
      else (case seek c r of (D, t) \<Rightarrow> (D @ [(TREE_RIGHT, a, e, l)], t)))"

lemma plug_seek: "seek c t = (D, t') \<Longrightarrow> plug D t' = t"
  by (induction c t arbitrary: D t' rule: seek.induct) (auto simp: plug_append split: if_splits prod.splits)

lemma tree_find_loop_seek:
  assumes "dis (plug C t)" and "size t < fuel" and "seek (cmp key) t = (D, t')" and "c_node w = cpar None C" and "c_dir w = cdir C"
  shows "\<exists>w'. tree_find_loop cmp key fuel (rootp t) w (tree_st F n (plug C t)) = (Inr (rootp t', w'), tree_st F n (plug C t)) \<and>
    (t' = Leaf \<longrightarrow> w' = \<lparr>c_node = cpar None (D @ C), c_dir = cdir (D @ C)\<rparr>)"
  using assms
proof (induction t arbitrary: C D fuel w)
  case Leaf
  then show ?case by (cases fuel) auto
next
  case (Node l m r)
  obtain a e where m: "m = (a, e)" by (cases m)
  obtain f where f: "fuel = Suc f" using Node.prems(2) by (cases fuel) auto
  have at: "t_heap (tree_st F n (plug C (Node l m r))) a = Some (tn TREE_LEFT (rootp l) (rootp r) (cpar None C) e)"
    using node_at [of C TREE_LEFT l a e r F n] Node.prems(1) by (simp add: m)
  consider "cmp key a = 0" | "cmp key a < 0" | "cmp key a > 0" by linarith
  then show ?case
  proof cases
    case 1
    then show ?thesis using Node.prems(3) f by (auto simp: m)
  next
    case 2
    then obtain D' where D': "seek (cmp key) l = (D', t')" "D = D' @ [(TREE_LEFT, a, e, r)]"
      using Node.prems(3) by (auto simp: m split: prod.splits)
    show ?thesis
      using Node.IH(1) [of "(TREE_LEFT, a, e, r) # C" f D' "\<lparr>c_node = Some a, c_dir = TREE_LEFT\<rparr>"] Node.prems(1,2) D' 2 at
      by (auto simp: m f node_ops)
  next
    case 3
    then obtain D' where D': "seek (cmp key) r = (D', t')" "D = D' @ [(TREE_RIGHT, a, e, l)]"
      using Node.prems(3) by (auto simp: m split: prod.splits)
    show ?thesis
      using Node.IH(2) [of "(TREE_RIGHT, a, e, l) # C" f D' "\<lparr>c_node = Some a, c_dir = TREE_RIGHT\<rparr>"] Node.prems(1,2) D' 3 at
      by (auto simp: m f node_ops Int_commute)
  qed
qed

lemma tree_find_seek:
  assumes "dis t" and "size t \<le> n" and "seek (cmp key) t = (D, t')"
  shows "\<exists>w'. tree_find cmp key (tree_st F n t) = (Inr (rootp t', w'), tree_st F n t) \<and>
    (t' = Leaf \<longrightarrow> w' = \<lparr>c_node = cpar None D, c_dir = cdir D\<rparr>)"
  using tree_find_loop_seek [of "[]" t "n + 1" cmp key D t' "\<lparr>c_node = None, c_dir = TREE_LEFT\<rparr>" F n] assms
  by (simp add: tree_find_def node_ops)

lemma addr_list_Node: "addr_list (Node l n r) = addr_list l @ fst n # addr_list r"
  by (simp add: addr_list_def)

lemma addr_list_Leaf [simp]: "addr_list Leaf = []"
  by (simp add: addr_list_def)

lemma addr_list_empty [simp]: "addr_list t = [] \<longleftrightarrow> t = Leaf"
  by (cases t) (simp_all add: addr_list_def)

lemma find_app: "find P (xs @ ys) = (case find P xs of None \<Rightarrow> find P ys | Some x \<Rightarrow> Some x)"
  by (induction xs) auto

text \<open>In an ordered tree a search finds the object with the key, or the place where it belongs.\<close>

lemma seek_found:
  assumes "compares cmp qkey key" and "in_order key (addr_list t)" and "seek (cmp q) t = (D, t')"
  shows "rootp t' = find (\<lambda>b. key b = qkey q) (addr_list t)"
  using assms(2,3)
proof (induction t arbitrary: D)
  case (Node l m r)
  obtain a e where m: "m = (a, e)" by (cases m)
  have ord: "in_order key (addr_list l)" "in_order key (addr_list r)"
    "\<And>x. x \<in> set (addr_list l) \<Longrightarrow> key x < key a" "\<And>x. x \<in> set (addr_list r) \<Longrightarrow> key a < key x"
    using Node.prems(1) by (auto simp: addr_list_Node in_order_append m)
  have cmp: "cmp q a = 0 \<longleftrightarrow> qkey q = key a" "cmp q a < 0 \<longleftrightarrow> qkey q < key a"
    using assms(1) by (auto simp: compares_def)
  have none: "find (\<lambda>b. key b = qkey q) (addr_list l) = None" if "\<not> qkey q < key a"
    using ord(3) that by (fastforce simp: find_None_iff)
  have none': "find (\<lambda>b. key b = qkey q) (addr_list r) = None" if "qkey q \<le> key a"
    using ord(4) that by (fastforce simp: find_None_iff)
  consider "qkey q = key a" | "qkey q < key a" | "qkey q > key a" by fastforce
  then show ?case
  proof cases
    case 1
    then show ?thesis using Node.prems(2) cmp none by (auto simp: m addr_list_Node find_app)
  next
    case 2
    then obtain D' where "seek (cmp q) l = (D', t')" using Node.prems(2) cmp by (auto simp: m split: prod.splits)
    then have "rootp t' = find (\<lambda>b. key b = qkey q) (addr_list l)" by (rule Node.IH(1) [OF ord(1)])
    then show ?thesis using 2 none' by (auto simp: m addr_list_Node find_app split: option.split)
  next
    case 3
    then obtain D' where "seek (cmp q) r = (D', t')"
      using Node.prems(2) cmp by (auto simp: m split: prod.splits if_splits)
    then have "rootp t' = find (\<lambda>b. key b = qkey q) (addr_list r)" by (rule Node.IH(2) [OF ord(2)])
    then show ?thesis using 3 none by (auto simp: m addr_list_Node find_app split: option.split)
  qed
qed (simp add: addr_list_def)

text \<open>The objects before and after the hole.\<close>

fun cpre :: "frame list \<Rightarrow> addr list" where
  "cpre [] = []"
| "cpre ((d, a, c, y) # C) = (if d = TREE_LEFT then cpre C else cpre C @ addr_list y @ [a])"

fun cpost :: "frame list \<Rightarrow> addr list" where
  "cpost [] = []"
| "cpost ((d, a, c, y) # C) = (if d = TREE_LEFT then a # addr_list y @ cpost C else cpost C)"

lemma addr_list_hole: "addr_list (plug C t) = cpre C @ addr_list t @ cpost C"
proof (induction C t rule: plug.induct)
  case (2 d a c y C t)
  then show ?case by (cases d) (simp_all add: addr_list_def)
qed simp

lemma cpre_append [simp]: "cpre (C @ D) = cpre D @ cpre C"
  by (induction C rule: cpre.induct) auto

lemma cpost_append [simp]: "cpost (C @ D) = cpost C @ cpost D"
  by (induction C rule: cpost.induct) auto

lemma seek_between:
  assumes "compares cmp qkey key" and "in_order key (addr_list t)" and "seek (cmp q) t = (D, Leaf)"
  shows "(\<forall>x\<in>set (cpre D). key x < qkey q) \<and> (\<forall>y\<in>set (cpost D). qkey q < key y)"
  using assms(2,3)
proof (induction t arbitrary: D)
  case (Node l m r)
  obtain a e where m: "m = (a, e)" by (cases m)
  have ord: "in_order key (addr_list l)" "in_order key (addr_list r)"
    "\<And>x. x \<in> set (addr_list l) \<Longrightarrow> key x < key a" "\<And>x. x \<in> set (addr_list r) \<Longrightarrow> key a < key x"
    using Node.prems(1) by (auto simp: addr_list_Node in_order_append m)
  have cmp: "cmp q a = 0 \<longleftrightarrow> qkey q = key a" "cmp q a < 0 \<longleftrightarrow> qkey q < key a"
    using assms(1) by (auto simp: compares_def)
  consider "qkey q = key a" | "qkey q < key a" | "qkey q > key a" by fastforce
  then show ?case
  proof cases
    case 1
    then show ?thesis using Node.prems(2) cmp by (simp add: m)
  next
    case 2
    then obtain D' where "seek (cmp q) l = (D', Leaf)" "D = D' @ [(TREE_LEFT, a, e, r)]"
      using Node.prems(2) cmp by (auto simp: m split: prod.splits)
    then show ?thesis using Node.IH(1) [OF ord(1)] ord(4) 2 by (auto intro: less_trans)
  next
    case 3
    then obtain D' where "seek (cmp q) r = (D', Leaf)" "D = D' @ [(TREE_RIGHT, a, e, l)]"
      using Node.prems(2) cmp by (auto simp: m split: prod.splits if_splits)
    then show ?thesis using Node.IH(2) [OF ord(2)] ord(3) 3 by (auto intro: less_trans)
  qed
qed simp

lemma seek_insort:
  assumes "compares cmp qkey key" and "in_order key (addr_list t)" and "seek (cmp q) t = (D, Leaf)" and "qkey q = key a"
  shows "addr_list (plug D (Node Leaf (a, e) Leaf)) = insort_key key a (addr_list t)"
proof -
  have "addr_list t = cpre D @ cpost D"
    using plug_seek [OF assms(3)] addr_list_hole [of D Leaf] by simp
  moreover have "insort_key key a (cpre D @ cpost D) = cpre D @ a # cpost D"
    using seek_between [OF assms(1-3)] assms(4) by (intro insort_key_middle) auto
  ultimately show ?thesis by (simp add: addr_list_hole addr_list_Node)
qed

subsection \<open>Insertion into an ordered tree\<close>

lemma tree_insert_here_found:
  assumes "dis t" and "size t \<le> n" and "compares cmp key key" and "in_order key (addr_list t)" and "find (\<lambda>b. key b = key a) (addr_list t) = Some b"
  shows "tree_insert_here cmp a None (tree_st F n t) = (Inr (Some b), tree_st F n t)"
proof -
  obtain D t' where seek: "seek (cmp a) t = (D, t')" by fastforce
  then have "rootp t' = Some b" using seek_found [OF assms(3,4) seek] assms(5) by simp
  then show ?thesis using tree_find_seek [of t n cmp a D t' F] assms(1,2) seek by (auto simp: tree_insert_here_def)
qed

lemma tree_insert_here_new:
  assumes "dis t" and "size t \<le> n" and "compares cmp key key" and "in_order key (addr_list t)" and "key a \<notin> key ` node_addrs t"
    and "F a = Some m"
  obtains D where "t = plug D Leaf" and "dis (plug D (Node Leaf (a, n_extra m) Leaf))"
    and "addr_list (plug D (Node Leaf (a, e) Leaf)) = insort_key key a (addr_list t)"
    and "tree_insert_here cmp a None (tree_st F n t) = (Inr None, tree_st F (n + 1) (plug D (Node Leaf (a, n_extra m) Leaf)))"
proof -
  obtain D t' where seek: "seek (cmp a) t = (D, t')" by fastforce
  have "find (\<lambda>b. key b = key a) (addr_list t) = None"
    using assms(5) set_addr_list [of t] by (auto simp: find_None_iff image_iff)
  then have "t' = Leaf" using seek_found [OF assms(3,4) seek] by simp
  then have t: "t = plug D Leaf" using plug_seek [OF seek] by simp
  have a: "a \<notin> caddrs D" using assms(5) t by auto
  show thesis
  proof (rule that [OF t])
    show "dis (plug D (Node Leaf (a, n_extra m) Leaf))" using assms(1) a by (simp add: t)
    show "addr_list (plug D (Node Leaf (a, e) Leaf)) = insort_key key a (addr_list t)"
      using seek_insort [OF assms(3,4)] seek \<open>t' = Leaf\<close> by simp
    show "tree_insert_here cmp a None (tree_st F n t) = (Inr None, tree_st F (n + 1) (plug D (Node Leaf (a, n_extra m) Leaf)))"
      using tree_find_seek [of t n cmp a D t' F] seek insert_at_hole [of D a F m n] assms(1,2,6) a \<open>t' = Leaf\<close>
      by (auto simp: tree_insert_here_def t)
  qed
qed

subsection \<open>Walking in order\<close>

lemma firstlast_loop_at:
  assumes "dis (plug C t)" and "t \<noteq> Leaf" and "size t \<le> fuel"
  shows "firstlast_loop fuel (rootp t) d (tree_st F n (plug C t)) =
    (Inr (Some (if d = TREE_LEFT then hd (addr_list t) else last (addr_list t))), tree_st F n (plug C t))"
  using assms
proof (induction t arbitrary: C fuel)
  case (Node l m r)
  obtain f where f: "fuel = Suc f" using Node.prems(3) by (cases fuel) auto
  have at: "t_heap (tree_st F n (plug C (Node l m r))) (fst m) = Some (tn TREE_LEFT (rootp l) (rootp r) (cpar None C) (snd m))"
    using node_at [of C TREE_LEFT l "fst m" "snd m" r F n] Node.prems(1) by simp
  show ?case
  proof (cases d)
    case TREE_LEFT
    then show ?thesis
      using at Node.IH(1) [of "(TREE_LEFT, fst m, snd m, r) # C" f] Node.prems
      by (cases "l = Leaf") (auto simp: f node_ops addr_list_Node)
  next
    case TREE_RIGHT
    then show ?thesis
      using at Node.IH(2) [of "(TREE_RIGHT, fst m, snd m, l) # C" f] Node.prems
      by (cases "r = Leaf") (auto simp: f node_ops addr_list_Node Int_commute)
  qed
qed simp

text \<open>The nearest node up the path that is reached from side \<open>s\<close>.\<close>

fun climb :: "tree_dir \<Rightarrow> frame list \<Rightarrow> addr option" where
  "climb s [] = None"
| "climb s ((d, a, c, y) # C) = (if d = s then Some a else climb s C)"

lemma climb_left: "climb TREE_LEFT C = (if cpost C = [] then None else Some (hd (cpost C)))"
  by (induction C rule: cpost.induct) auto

lemma climb_right: "climb TREE_RIGHT C = (if cpre C = [] then None else Some (last (cpre C)))"
  by (induction C rule: cpre.induct) (auto intro: tree_dir.exhaust)

lemma next_dir_loop_at:
  assumes "dis (plug C t)" and "rootp t = Some a" and "length C < fuel"
  shows "next_dir_loop fuel (Some a) s (tree_st F n (plug C t)) = (Inr (climb s C), tree_st F n (plug C t))"
  using assms
proof (induction C arbitrary: t a fuel)
  case Nil
  obtain l m r where t: "t = Node l m r" "fst m = a" using Nil.prems(2) by (cases t) auto
  obtain f where f: "fuel = Suc f" using Nil.prems(3) by (cases fuel) auto
  show ?case
    using node_at [of "[]" TREE_LEFT l "fst m" "snd m" r F n] Nil.prems(1) unfolding t(1) t(2) [symmetric] by (simp add: f node_ops)
next
  case (Cons k C)
  obtain d g c y where k: "k = (d, g, c, y)" by (cases k)
  obtain l m r where t: "t = Node l m r" "fst m = a" using Cons.prems(2) by (cases t) auto
  obtain f where f: "fuel = Suc f" using Cons.prems(3) by (cases fuel) auto
  have "rep (t_heap (tree_st F n (plug (k # C) t))) None (plug (k # C) t)" by (rule t_heap_tree_st [OF Cons.prems(1)])
  then have at: "t_heap (tree_st F n (plug (k # C) t)) a = Some (tn TREE_LEFT (rootp l) (rootp r) (Some g) (snd m))"
    "t_heap (tree_st F n (plug (k # C) t)) g = Some (tn d (Some a) (rootp y) (cpar None C) c)"
    by (auto simp: k t)
  have "rootp y \<noteq> Some a" using Cons.prems(1) rootp_notin [of a y] rootp_in_node_addrs [OF Cons.prems(2)] by (auto simp: k)
  then show ?case
    using at Cons.IH [of "nd d t (g, c) y" g f] Cons.prems by (simp add: f k node_ops which_dir_frame)
qed

text \<open>The neighbours of an object in the sequence, and the ends of the sequence.\<close>

definition first_of :: "addr list \<Rightarrow> addr option" where
  "first_of xs = (case xs of [] \<Rightarrow> None | x # _ \<Rightarrow> Some x)"

lemma first_of_append: "first_of (xs @ ys) = (if xs = [] then first_of ys else first_of xs)"
  by (cases xs) (simp_all add: first_of_def)

lemma first_of_hd: "xs \<noteq> [] \<Longrightarrow> first_of xs = Some (hd xs)"
  by (cases xs) (simp_all add: first_of_def)

lemma climb_first: "climb TREE_LEFT C = first_of (cpost C)" "climb TREE_RIGHT C = first_of (rev (cpre C))"
  by (simp_all add: climb_left climb_right first_of_def hd_rev split: list.split)

lemma tree_next_dir_at:
  assumes dis: "dis t" and size: "size t \<le> n" and split: "addr_list t = xs @ a # ys"
  shows "tree_next_dir a fwd (tree_st F n t) = (Inr (first_of (if fwd then ys else rev xs)), tree_st F n t)"
proof -
  have "a \<in> node_addrs t" using split set_addr_list [of t] by auto
  then obtain C l e r where t: "t = plug C (Node l (a, e) r)" by (rule path_to)
  have "a \<notin> set (cpre C @ addr_list l)" "a \<notin> set (addr_list r @ cpost C)"
    using dis unfolding dis_iff_distinct by (auto simp: t addr_list_hole addr_list_Node)
  moreover have "(cpre C @ addr_list l) @ a # (addr_list r @ cpost C) = xs @ a # ys"
    using split by (simp add: t addr_list_hole addr_list_Node)
  ultimately have eq: "xs = cpre C @ addr_list l" "ys = addr_list r @ cpost C"
    using append_Cons_eq_iff by metis+
  let ?S = "tree_st F n t"
  have at: "t_heap ?S a = Some (tn TREE_LEFT (rootp l) (rootp r) (cpar None C) e)"
    using node_at [of C TREE_LEFT l a e r F n] dis by (simp add: t)
  have len: "length C < n + 1" "size l \<le> n + 1" "size r \<le> n + 1"
    using size size_plug [of C "Node l (a, e) r"] by (simp_all add: t)
  have up: "next_dir_loop (n + 1) (Some a) s ?S = (Inr (climb s C), ?S)" for s
    using next_dir_loop_at [of C "Node l (a, e) r" a "n + 1" s F n] dis len(1) by (simp add: t)
  show ?thesis
  proof (cases fwd)
    case True
    have "r \<noteq> Leaf \<Longrightarrow> firstlast (rootp r) TREE_LEFT ?S = (Inr (Some (hd (addr_list r))), ?S)"
      using firstlast_loop_at [of "(TREE_RIGHT, a, e, l) # C" r "n + 1" TREE_LEFT F n] dis len
      by (auto simp: t firstlast_def node_ops)
    then show ?thesis
      using True at up [of TREE_LEFT]
      by (cases "r = Leaf") (simp_all add: tree_next_dir_def eq node_ops climb_first first_of_append first_of_hd)
  next
    case False
    have "l \<noteq> Leaf \<Longrightarrow> firstlast (rootp l) TREE_RIGHT ?S = (Inr (Some (last (addr_list l))), ?S)"
      using firstlast_loop_at [of "(TREE_LEFT, a, e, r) # C" l "n + 1" TREE_RIGHT F n] dis len
      by (auto simp: t firstlast_def node_ops Int_commute)
    then show ?thesis
      using False at up [of TREE_RIGHT]
      by (cases "l = Leaf") (simp_all add: tree_next_dir_def eq node_ops climb_first first_of_append first_of_hd hd_rev)
  qed
qed

lemma firstlast_obj_at:
  assumes "dis t" and "size t \<le> n"
  shows "tree_first (tree_st F n t) = (Inr (first_of (addr_list t)), tree_st F n t)"
    and "tree_last (tree_st F n t) = (Inr (first_of (rev (addr_list t))), tree_st F n t)"
proof -
  have fl: "t \<noteq> Leaf \<Longrightarrow> firstlast (rootp t) d (tree_st F n t) =
      (Inr (Some (if d = TREE_LEFT then hd (addr_list t) else last (addr_list t))), tree_st F n t)" for d
    using firstlast_loop_at [of "[]" t "n + 1" d F n] assms by (simp add: firstlast_def node_ops)
  show "tree_first (tree_st F n t) = (Inr (first_of (addr_list t)), tree_st F n t)"
    using fl [of TREE_LEFT]
    by (cases "t = Leaf") (simp_all add: tree_first_def firstlast_obj_def node_ops first_of_hd, simp add: first_of_def)
  show "tree_last (tree_st F n t) = (Inr (first_of (rev (addr_list t))), tree_st F n t)"
    using fl [of TREE_RIGHT]
    by (cases "t = Leaf") (simp_all add: tree_last_def firstlast_obj_def node_ops first_of_hd hd_rev, simp add: first_of_def)
qed

text \<open>After a failed search, the objects with the nearest keys.\<close>

lemma tree_nearest_loop_at:
  assumes "dis (plug ((d, a, c, y) # C) t)" and "length C < fuel"
  shows "tree_nearest_loop fuel (Some a) d s (tree_st F n (plug ((d, a, c, y) # C) t)) =
    (Inr (climb s ((d, a, c, y) # C)), tree_st F n (plug ((d, a, c, y) # C) t))"
  using assms
proof (induction C arbitrary: d a c y t fuel)
  case Nil
  obtain f where f: "fuel = Suc f" using Nil.prems(2) by (cases fuel) auto
  show ?case using node_at [of "[]" d t a c y F n] Nil.prems(1) by (simp add: f node_ops)
next
  case (Cons k C)
  obtain d' g c' y' where k: "k = (d', g, c', y')" by (cases k)
  obtain f where f: "fuel = Suc f" using Cons.prems(2) by (cases fuel) auto
  let ?S = "tree_st F n (plug (k # C) (nd d t (a, c) y))"
  have "rep (t_heap ?S) None (plug (k # C) (nd d t (a, c) y))"
    by (rule t_heap_tree_st) (use Cons.prems(1) in simp)
  then have "t_heap ?S a = Some (tn d (rootp t) (rootp y) (Some g) c)"
    "t_heap ?S g = Some (tn d' (Some a) (rootp y') (cpar None C) c')" by (auto simp: k)
  moreover have "rootp y' \<noteq> Some a" using Cons.prems(1) rootp_notin [of a y'] by (auto simp: k)
  ultimately show ?case
    using Cons.IH [of d' g c' y' "nd d t (a, c) y" f] Cons.prems by (simp add: f k node_ops which_dir_frame)
qed

lemma tree_nearest_at:
  assumes "dis (plug C t)" and "length C < n + 1"
  shows "tree_nearest \<lparr>c_node = cpar None C, c_dir = cdir C\<rparr> gt (tree_st F n (plug C t)) =
    (Inr (first_of (if gt then cpost C else rev (cpre C))), tree_st F n (plug C t))"
proof (cases C)
  case Nil
  then show ?thesis by (simp add: tree_nearest_def first_of_def)
next
  case (Cons k C')
  obtain d a c y where k: "k = (d, a, c, y)" by (cases k)
  show ?thesis
    using tree_nearest_loop_at [of d a c y C' t "n + 1" "if gt then TREE_LEFT else TREE_RIGHT" F n] assms
      climb_first [of C]
    by (cases gt) (simp_all add: Cons k tree_nearest_def node_ops)
qed

end
