(* ===== verification/RbTree.thy ===== *)
theory RbTree
  imports Tree_Rep
begin

text \<open>
  The red-black trees of \<^verbatim>\<open>src/rbtree.c\<close>: insertion and removal keep the colour and height conditions, so the
  tree stays balanced, and insert or remove exactly one node in the in-order sequence.
\<close>

subsection \<open>The red-black conditions\<close>

fun is_redt :: "ptree \<Rightarrow> bool" where
  "is_redt Leaf \<longleftrightarrow> False"
| "is_redt (Node l n r) \<longleftrightarrow> snd n \<noteq> 0"

text \<open>No red node has a red child.\<close>

primrec invc :: "ptree \<Rightarrow> bool" where
  "invc Leaf \<longleftrightarrow> True"
| "invc (Node l n r) \<longleftrightarrow> (snd n \<noteq> 0 \<longrightarrow> \<not> is_redt l \<and> \<not> is_redt r) \<and> invc l \<and> invc r"

text \<open>Every path down to a leaf has \<open>m\<close> black nodes.\<close>

primrec rbh :: "ptree \<Rightarrow> nat \<Rightarrow> bool" where
  "rbh Leaf m \<longleftrightarrow> m = 0"
| "rbh (Node l n r) m \<longleftrightarrow>
     (if snd n = 0 then m \<noteq> 0 \<and> rbh l (m - 1) \<and> rbh r (m - 1) else rbh l m \<and> rbh r m)"

definition rbt :: "ptree \<Rightarrow> bool" where
  "rbt t \<longleftrightarrow> \<not> is_redt t \<and> invc t \<and> (\<exists>m. rbh t m)"

text \<open>The same for paths: what is asked of a tree in the hole.\<close>

fun cinvc :: "frame list \<Rightarrow> bool \<Rightarrow> bool" where
  "cinvc [] b \<longleftrightarrow> True"
| "cinvc ((d, a, c, y) # C) b \<longleftrightarrow> (c \<noteq> 0 \<longrightarrow> \<not> b \<and> \<not> is_redt y) \<and> invc y \<and> cinvc C (c \<noteq> 0)"

fun crbh :: "frame list \<Rightarrow> nat \<Rightarrow> bool" where
  "crbh [] m \<longleftrightarrow> True"
| "crbh ((d, a, c, y) # C) m \<longleftrightarrow> rbh y m \<and> crbh C (if c = 0 then Suc m else m)"

fun cred :: "frame list \<Rightarrow> bool \<Rightarrow> bool" where
  "cred [] b \<longleftrightarrow> b"
| "cred ((d, a, c, y) # C) b \<longleftrightarrow> cred C (c \<noteq> 0)"

lemma is_redt_nd [simp]: "is_redt (nd d x n y) \<longleftrightarrow> snd n \<noteq> 0"
  by (cases d) simp_all

lemma invc_nd [simp]: "invc (nd d x n y) \<longleftrightarrow> (snd n \<noteq> 0 \<longrightarrow> \<not> is_redt x \<and> \<not> is_redt y) \<and> invc x \<and> invc y"
  by (cases d) auto

lemma rbh_nd [simp]:
  "rbh (nd d x n y) m \<longleftrightarrow> (if snd n = 0 then m \<noteq> 0 \<and> rbh x (m - 1) \<and> rbh y (m - 1) else rbh x m \<and> rbh y m)"
  by (cases d) auto

lemma is_redt_plug [simp]: "is_redt (plug C t) \<longleftrightarrow> cred C (is_redt t)"
  by (induction C t rule: plug.induct) simp_all

lemma invc_plug [simp]: "invc (plug C t) \<longleftrightarrow> cinvc C (is_redt t) \<and> invc t"
  by (induction C t rule: plug.induct) auto

lemma rbh_plug: "(\<exists>k. rbh (plug C t) k) \<longleftrightarrow> (\<exists>m. rbh t m \<and> crbh C m)"
proof (induction C t rule: plug.induct)
  case (2 d a c y C t)
  show ?case
  proof (cases "c = 0")
    case True
    then have "(\<exists>m. rbh (nd d t (a, c) y) m \<and> crbh C m) \<longleftrightarrow> (\<exists>m. rbh t m \<and> rbh y m \<and> crbh C (Suc m))"
      by (auto intro: exI [of _ "_ - 1"] exI [of _ "Suc _"])
    then show ?thesis using 2 True by auto
  qed (use 2 in auto)
qed simp

lemma rbt_plug: "rbt (plug C t) \<longleftrightarrow> \<not> cred C (is_redt t) \<and> cinvc C (is_redt t) \<and> invc t \<and> (\<exists>m. rbh t m \<and> crbh C m)"
  by (simp add: rbt_def rbh_plug)

text \<open>Balance: a red-black tree of \<open>n\<close> nodes has paths of at most twice the logarithm of \<open>n + 1\<close>.\<close>

lemma rbh_height: "invc t \<Longrightarrow> rbh t m \<Longrightarrow> height t \<le> 2 * m + (if is_redt t then 1 else 0)"
proof (induction t arbitrary: m)
  case (Node l n r)
  then show ?case by (fastforce split: if_splits)
qed simp

lemma rbh_size: "rbh t m \<Longrightarrow> 2 ^ m \<le> size t + 1"
proof (induction t arbitrary: m)
  case (Node l n r)
  show ?case
  proof (cases "snd n = 0")
    case True
    then obtain k where "m = Suc k" "rbh l k" "rbh r k" using Node.prems by (cases m) auto
    then show ?thesis using Node.IH [of k] by simp
  next
    case False
    then show ?thesis using Node.prems Node.IH(1) [of m] by simp
  qed
qed simp

lemma rbt_height: "rbt t \<Longrightarrow> 2 ^ (height t div 2) \<le> size t + 1"
proof -
  assume "rbt t"
  then obtain m where "rbh t m" and "height t \<le> 2 * m" using rbh_height unfolding rbt_def by force
  moreover have "(2::nat) ^ (height t div 2) \<le> 2 ^ m" using \<open>height t \<le> 2 * m\<close> by simp
  ultimately show ?thesis using rbh_size le_trans by blast
qed

subsection \<open>Colours in the heap\<close>

fun paint :: "bool \<Rightarrow> ptree \<Rightarrow> ptree" where
  "paint red Leaf = Leaf"
| "paint red (Node l n r) = Node l (fst n, if red then 1 else 0) r"

lemma paint_nd [simp]: "paint red (nd d x n y) = nd d x (fst n, if red then 1 else 0) y"
  by (cases d) simp_all

lemma node_addrs_paint [simp]: "node_addrs (paint red t) = node_addrs t"
  by (cases t) auto

lemma dis_paint [simp]: "dis (paint red t) = dis t"
  by (cases t) auto

lemma rootp_paint [simp]: "rootp (paint red t) = rootp t"
  by (cases t) auto

lemma is_redt_paint [simp]: "is_redt (paint red t) \<longleftrightarrow> red \<and> t \<noteq> Leaf"
  by (cases t) auto

lemma addr_list_paint [simp]: "addr_list (paint red t) = addr_list t"
  by (cases t) (auto simp: addr_list_def)

lemma size_paint [simp]: "size (paint red t) = size t"
  by (cases t) auto

lemma invc_paint_black: "invc t \<Longrightarrow> invc (paint False t)"
  by (cases t) auto

lemma rbh_paint_black: "is_redt t \<Longrightarrow> rbh t m \<Longrightarrow> rbh (paint False t) (Suc m)"
  by (cases t) auto

lemma andthen_bool [node_ops]:
  "f s = (Inr False, s') \<Longrightarrow> andthen f g s = g False s'"
  "f s = (Inr True, s') \<Longrightarrow> andthen f g s = g True s'"
  by simp_all

lemma is_red_None [node_ops]: "is_red None s = (Inr False, s)"
  by (simp add: is_red_def)

lemma is_red_Some [node_ops]: "t_heap s a = Some m \<Longrightarrow> is_red (Some a) s = (Inr (n_extra m \<noteq> 0), s)"
  by (simp add: is_red_def node_ops)

lemma is_red_focus:
  assumes "dis (plug C t)"
  shows "is_red (rootp t) (tree_st F n (plug C t)) = (Inr (is_redt t), tree_st F n (plug C t))"
proof (cases t)
  case (Node l m r)
  then show ?thesis
    using assms node_at [of C TREE_LEFT l "fst m" "snd m" r F n] by (simp add: node_ops)
qed (simp add: node_ops)

lemma set_red_focus:
  assumes "dis (plug C t)"
  shows "set_red (rootp t) red (tree_st F n (plug C t)) = (Inr (), tree_st F n (plug C (paint red t)))"
proof (cases t)
  case (Node l m r)
  then show ?thesis
    using assms set_extra_at [of C TREE_LEFT l "fst m" "snd m" r "if red then 1 else 0" F n]
    by (simp add: set_red_def)
qed (simp add: set_red_def)

text \<open>The same for the child next to the path, and for the node above.\<close>

lemmas is_red_sibling = is_red_focus [where C = "(opp d, p, c, t) # C" for d p c t C, simplified]
lemmas set_red_sibling = set_red_focus [where C = "(opp d, p, c, t) # C" for d p c t C, simplified]

subsection \<open>Insertion\<close>

lemma insert_step_root:
  assumes "dis (nd d x (a, c) y)"
  shows "insert_step (Some a) (tree_st F n (nd d x (a, c) y)) = (Inr None, tree_st F n (nd d x (a, c) y))"
  using node_at [of "[]" d x a c y F n] assms by (simp add: insert_step_def node_ops)

lemma insert_step_black:
  assumes dis: "dis (plug C (nd d (nd e x (a, c) y) (p, 0) s))"
  shows "insert_step (Some a) (tree_st F n (plug C (nd d (nd e x (a, c) y) (p, 0) s))) =
    (Inr None, tree_st F n (plug C (nd d (nd e x (a, c) y) (p, 0) s)))" (is "_ = (_, ?S)")
proof -
  have rep: "rep (t_heap ?S) None (plug C (nd d (nd e x (a, c) y) (p, 0) s))" by (rule t_heap_tree_st [OF dis])
  show ?thesis
  proof (cases C)
    case Nil
    then show ?thesis using rep by (simp add: insert_step_def node_ops)
  next
    case (Cons k C')
    obtain d' g cg u where k: "k = (d', g, cg, u)" by (cases k)
    have "rootp u \<noteq> Some p" using dis Cons k rootp_notin [of p u] by auto
    then show ?thesis using rep Cons k by (simp add: insert_step_def node_ops which_dir_frame)
  qed
qed

lemma insert_step_recolour:
  assumes dis: "dis (plug C (nd d (nd e t (p, cp) s) (g, cg) u))" and t: "rootp t = Some a"
    and red: "cp \<noteq> 0" "is_redt u"
  shows "insert_step (Some a) (tree_st F n (plug C (nd d (nd e t (p, cp) s) (g, cg) u))) =
    (Inr (Some (Some g)), tree_st F n (plug C (nd d (nd e t (p, 0) s) (g, 1) (paint False u))))" (is "insert_step _ ?S = _")
proof -
  obtain l m r where t': "t = Node l m r" "fst m = a" using t by (cases t) auto
  have rep: "rep (t_heap ?S) None (plug C (nd d (nd e t (p, cp) s) (g, cg) u))" by (rule t_heap_tree_st [OF dis])
  have u: "rootp u \<noteq> Some p" using dis rootp_notin [of p u] by auto
  have ured: "is_red (rootp u) ?S = (Inr True, ?S)"
    using is_red_focus [of "(opp d, g, cg, nd e t (p, cp) s) # C" u F n] dis red by (auto simp: Int_commute)
  have s1: "set_red (Some p) False ?S = (Inr (), tree_st F n (plug C (nd d (nd e t (p, 0) s) (g, cg) u)))"
    using set_red_focus [of "(d, g, cg, u) # C" "nd e t (p, cp) s" False F n] dis by auto
  have s2: "set_red (rootp u) False (tree_st F n (plug C (nd d (nd e t (p, 0) s) (g, cg) u))) =
      (Inr (), tree_st F n (plug C (nd d (nd e t (p, 0) s) (g, cg) (paint False u))))"
    using set_red_focus [of "(opp d, g, cg, nd e t (p, 0) s) # C" u False F n] dis by (auto simp: Int_commute)
  have s3: "set_red (Some g) True (tree_st F n (plug C (nd d (nd e t (p, 0) s) (g, cg) (paint False u)))) =
      (Inr (), tree_st F n (plug C (nd d (nd e t (p, 0) s) (g, 1) (paint False u))))"
    using set_red_focus [of C "nd d (nd e t (p, 0) s) (g, cg) (paint False u)" True F n] dis by auto
  show ?thesis
    using rep u ured s1 s2 s3 red
    by (simp add: insert_step_def node_ops which_dir_frame t')
qed

lemma insert_rotate_at:
  assumes dis: "dis (plug C (nd d (nd d t (p, cp) s) (g, cg) u))" and t: "rootp t = Some a"
  shows "insert_rotate (Some a, Some p, Some g) (tree_st F n (plug C (nd d (nd d t (p, cp) s) (g, cg) u))) =
    (Inr (Some a), tree_st F n (plug C (nd d t (p, 0) (nd d s (g, 1) u))))" (is "insert_rotate _ ?S = _")
proof -
  have rep: "rep (t_heap ?S) None (plug C (nd d (nd d t (p, cp) s) (g, cg) u))" by (rule t_heap_tree_st [OF dis])
  have u: "rootp u \<noteq> Some p" "rootp s \<noteq> Some a"
    using dis rootp_notin [of p u] rootp_notin [of a s] rootp_in_node_addrs [OF t] by auto
  have s1: "set_red (Some p) False (tree_st F n (plug C (nd d t (p, cp) (nd d s (g, cg) u)))) =
      (Inr (), tree_st F n (plug C (nd d t (p, 0) (nd d s (g, cg) u))))"
    using set_red_focus [of C "nd d t (p, cp) (nd d s (g, cg) u)" False F n] dis by auto
  have s2: "set_red (Some g) True (tree_st F n (plug C (nd d t (p, 0) (nd d s (g, cg) u)))) =
      (Inr (), tree_st F n (plug C (nd d t (p, 0) (nd d s (g, 1) u))))"
    using set_red_focus [of "(opp d, p, 0, t) # C" "nd d s (g, cg) u" True F n] dis by auto
  show ?thesis
    using rep u t s1 s2 rb_rotate_opp_at [OF dis] by (simp add: insert_rotate_def node_ops which_dir_frame)
qed

lemma insert_step_line:
  assumes dis: "dis (plug C (nd d (nd d t (p, cp) s) (g, cg) u))" and t: "rootp t = Some a"
    and red: "cp \<noteq> 0" "\<not> is_redt u"
  shows "insert_step (Some a) (tree_st F n (plug C (nd d (nd d t (p, cp) s) (g, cg) u))) =
    (Inr (Some (Some a)), tree_st F n (plug C (nd d t (p, 0) (nd d s (g, 1) u))))" (is "insert_step _ ?S = _")
proof -
  obtain l m r where t': "t = Node l m r" "fst m = a" using t by (cases t) auto
  have rep: "rep (t_heap ?S) None (plug C (nd d (nd d t (p, cp) s) (g, cg) u))" by (rule t_heap_tree_st [OF dis])
  have u: "rootp u \<noteq> Some p" "rootp s \<noteq> Some a"
    using dis rootp_notin [of p u] rootp_notin [of a s] rootp_in_node_addrs [OF t] by auto
  have ured: "is_red (rootp u) ?S = (Inr False, ?S)"
    using is_red_focus [of "(opp d, g, cg, nd d t (p, cp) s) # C" u F n] dis red by (auto simp: Int_commute)
  have "insert_line_up (Some a) (Some p) (Some g) ?S = (Inr (Some a, Some p, Some g), ?S)"
    using rep u t by (simp add: insert_line_up_def node_ops which_dir_frame)
  then show ?thesis
    using rep u ured red insert_rotate_at [OF dis t] t'
    by (simp add: insert_step_def node_ops which_dir_frame)
qed

lemma insert_step_bend:
  assumes dis: "dis (plug C (nd d (nd d s (p, cp) (nd d x (a, c) y)) (g, cg) u))"
    and red: "cp \<noteq> 0" "\<not> is_redt u"
  shows "insert_step (Some a) (tree_st F n (plug C (nd d (nd d s (p, cp) (nd d x (a, c) y)) (g, cg) u))) =
    (Inr (Some (Some p)), tree_st F n (plug C (nd d (nd d s (p, cp) x) (a, 0) (nd d y (g, 1) u))))"
    (is "insert_step _ ?S = _")
proof -
  let ?T = "tree_st F n (plug C (nd d (nd d (nd d s (p, cp) x) (a, c) y) (g, cg) u))"
  have rep: "rep (t_heap ?S) None (plug C (nd d (nd d s (p, cp) (nd d x (a, c) y)) (g, cg) u))"
    by (rule t_heap_tree_st [OF dis])
  have dis': "dis (plug C (nd d (nd d (nd d s (p, cp) x) (a, c) y) (g, cg) u))" using dis by auto
  have rep': "rep (t_heap ?T) None (plug C (nd d (nd d (nd d s (p, cp) x) (a, c) y) (g, cg) u))"
    by (rule t_heap_tree_st [OF dis'])
  have u: "rootp u \<noteq> Some p" "rootp s \<noteq> Some a"
    using dis rootp_notin [of p u] rootp_notin [of a s] by auto
  have ured: "is_red (rootp u) ?S = (Inr False, ?S)"
    using is_red_focus [of "(opp d, g, cg, nd d s (p, cp) (nd d x (a, c) y)) # C" u F n] dis red by (auto simp: Int_commute)
  have rot: "rb_rotate (Some p) d ?S = (Inr (), ?T)"
    using rb_rotate_at [of "(d, g, cg, u) # C" d s p cp x a c y F n] dis by (auto simp: Int_commute)
  have "which_dir (Some p) (Some a) ?S = (Inr (opp d), ?S)"
    using rep u which_dir_frame [of ?S p "opp d" "Some a" "rootp s" "Some g" cp] by (simp add: tn_opp)
  then have "insert_line_up (Some a) (Some p) (Some g) ?S = (Inr (Some p, Some a, Some g), ?T)"
    using rep rep' u rot by (simp add: insert_line_up_def node_ops which_dir_frame)
  moreover have "insert_rotate (Some p, Some a, Some g) ?T =
      (Inr (Some p), tree_st F n (plug C (nd d (nd d s (p, cp) x) (a, 0) (nd d y (g, 1) u))))"
    using insert_rotate_at [OF dis'] by simp
  ultimately show ?thesis
    using rep u ured red by (simp add: insert_step_def node_ops which_dir_frame)
qed

lemma insert_loop_step:
  assumes "dis (plug C t)" and "rootp t = Some a" and "is_redt t"
  shows "insert_loop (Suc f) (Some a) (tree_st F n (plug C t)) =
    andthen (insert_step (Some a)) (\<lambda>r. case r of None \<Rightarrow> cret () | Some node \<Rightarrow> insert_loop f node) (tree_st F n (plug C t))"
  using is_red_focus [OF assms(1), of F n] assms(2,3) by (simp add: node_ops)

lemma insert_loop_black:
  assumes "dis (plug C (nd d (nd e x (a, c) y) (p, 0) s))" and "c \<noteq> 0"
  shows "insert_loop (Suc f) (Some a) (tree_st F n (plug C (nd d (nd e x (a, c) y) (p, 0) s))) =
    (Inr (), tree_st F n (plug C (nd d (nd e x (a, c) y) (p, 0) s)))"
  using insert_loop_step [of "(d, p, 0, s) # C" "nd e x (a, c) y" a f F n] insert_step_black [OF assms(1), of F n] assms
  by simp

lemma insert_loop_line:
  assumes dis: "dis (plug C (nd d (nd d t (p, cp) s) (g, cg) u))" and t: "rootp t = Some a" "is_redt t"
    and red: "cp \<noteq> 0" "\<not> is_redt u"
  shows "insert_loop (Suc (Suc f)) (Some a) (tree_st F n (plug C (nd d (nd d t (p, cp) s) (g, cg) u))) =
    (Inr (), tree_st F n (plug C (nd d t (p, 0) (nd d s (g, 1) u))))"
proof -
  obtain l c r where t': "t = nd TREE_LEFT l (a, c) r" "c \<noteq> 0" using t by (cases t) auto
  have dis': "dis (plug C (nd d t (p, 0) (nd d s (g, 1) u)))" using dis by auto
  show ?thesis
    using insert_loop_step [of "(d, p, cp, s) # (d, g, cg, u) # C" t a "Suc f" F n]
      insert_step_line [OF dis t(1) red, of F n] insert_loop_black [of C d TREE_LEFT l a c r p _ f F n] dis dis' t t'
    by simp
qed

lemma insert_loop_bend:
  assumes dis: "dis (plug C (nd d (nd d s (p, cp) (nd d x (a, c) y)) (g, cg) u))" and red: "c \<noteq> 0" "cp \<noteq> 0" "\<not> is_redt u"
  shows "insert_loop (Suc (Suc f)) (Some a) (tree_st F n (plug C (nd d (nd d s (p, cp) (nd d x (a, c) y)) (g, cg) u))) =
    (Inr (), tree_st F n (plug C (nd d (nd d s (p, cp) x) (a, 0) (nd d y (g, 1) u))))"
proof -
  have dis': "dis (plug C (nd d (nd d s (p, cp) x) (a, 0) (nd d y (g, 1) u)))" using dis by auto
  show ?thesis
    using insert_loop_step [of "(opp d, p, cp, s) # (d, g, cg, u) # C" "nd d x (a, c) y" a "Suc f" F n]
      insert_step_bend [OF dis red(2,3), of F n] insert_loop_black [OF dis' red(2), of f F n] dis red
    by (simp add: Int_commute)
qed

lemma insert_loop_rotates:
  assumes dis: "dis (plug C (nd d2 (nd d1 t (p, cp) s) (g, cg) u))" and t: "rootp t = Some a" "is_redt t"
    and red: "cp \<noteq> 0" "\<not> is_redt u" and inv: "invc t" "invc s" "\<not> is_redt s" "invc u" "rbh t m" "rbh s m" "rbh u m"
  obtains t' where
    "insert_loop (Suc (Suc f)) (Some a) (tree_st F n (plug C (nd d2 (nd d1 t (p, cp) s) (g, cg) u))) =
      (Inr (), tree_st F n (plug C t'))"
    "dis (plug C t')" "addr_list t' = addr_list (nd d2 (nd d1 t (p, cp) s) (g, cg) u)"
    "invc t'" "\<not> is_redt t'" "rbh t' (Suc m)"
proof (cases "d1 = d2")
  case True
  show thesis
  proof (rule that [of "nd d2 t (p, 0) (nd d2 s (g, 1) u)"])
    show "insert_loop (Suc (Suc f)) (Some a) (tree_st F n (plug C (nd d2 (nd d1 t (p, cp) s) (g, cg) u))) =
        (Inr (), tree_st F n (plug C (nd d2 t (p, 0) (nd d2 s (g, 1) u))))"
      unfolding True by (rule insert_loop_line [OF dis [unfolded True] t red])
    show "addr_list (nd d2 t (p, 0) (nd d2 s (g, 1) u)) = addr_list (nd d2 (nd d1 t (p, cp) s) (g, cg) u)"
      unfolding True by (cases d2) (simp_all add: addr_list_def)
  qed (use dis t red inv in auto)
next
  case False
  then have d1: "d1 = opp d2" by (simp add: neq_opp)
  obtain x n' y where "t = nd d2 x n' y" using t by (cases t rule: nd_cases [where d = d2]) auto
  then obtain ca where tn: "t = nd d2 x (a, ca) y" "ca \<noteq> 0" using t by (cases n') auto
  show thesis
  proof (rule that [of "nd d2 (nd d2 s (p, cp) x) (a, 0) (nd d2 y (g, 1) u)"])
    show "insert_loop (Suc (Suc f)) (Some a) (tree_st F n (plug C (nd d2 (nd d1 t (p, cp) s) (g, cg) u))) =
        (Inr (), tree_st F n (plug C (nd d2 (nd d2 s (p, cp) x) (a, 0) (nd d2 y (g, 1) u))))"
      using insert_loop_bend [of C d2 s p cp x a ca y g cg u f F n] dis tn red d1 by (auto simp: Int_commute)
    show "addr_list (nd d2 (nd d2 s (p, cp) x) (a, 0) (nd d2 y (g, 1) u)) = addr_list (nd d2 (nd d1 t (p, cp) s) (g, cg) u)"
      unfolding d1 tn by (cases d2) (simp_all add: addr_list_def)
  qed (use dis red inv tn d1 in auto)
qed

text \<open>
  The loop started at a red node whose parent may be red too ends, and every red node has black children then,
  except that the root may be red.
\<close>

lemma insert_loop_fixes:
  assumes "dis (plug C t)" and "rootp t = Some a" and "is_redt t" and "invc t" and "rbh t m" and "crbh C m"
    and "cinvc C False" and "C \<noteq> [] \<Longrightarrow> \<not> cred C True" and "length C + 2 \<le> fuel"
  shows "\<exists>t'. insert_loop fuel (Some a) (tree_st F n (plug C t)) = (Inr (), tree_st F n t') \<and>
    dis t' \<and> addr_list t' = addr_list (plug C t) \<and> invc t' \<and> (\<exists>k. rbh t' k)"
  using assms
proof (induction "length C" arbitrary: C t a m fuel rule: less_induct)
  case less
  define f where "f = fuel - 2"
  have f: "fuel = Suc (Suc f)" using less.prems(9) by (simp add: f_def)
  obtain l c r where t: "t = nd TREE_LEFT l (a, c) r" "c \<noteq> 0"
    using less.prems(2,3) by (cases t) auto
  show ?case
  proof (cases C)
    case Nil
    then have "insert_loop fuel (Some a) (tree_st F n (plug C t)) = (Inr (), tree_st F n (plug C t))"
      using insert_loop_step [OF less.prems(1,2,3), of "Suc f" F n] insert_step_root [of TREE_LEFT l a c r F n] less.prems(1) t f
      by simp
    then show ?thesis using less.prems Nil by auto
  next
    case (Cons k1 C1)
    obtain d1 p cp s where k1: "k1 = (d1, p, cp, s)" by (cases k1)
    show ?thesis
    proof (cases "cp = 0")
      case True
      then have "insert_loop fuel (Some a) (tree_st F n (plug C t)) = (Inr (), tree_st F n (plug C t))"
        using insert_loop_black [of C1 d1 TREE_LEFT l a c r p s "Suc f" F n] less.prems(1) t f Cons k1 by simp
      moreover have "invc (plug C t)" "\<exists>k. rbh (plug C t) k"
        using less.prems(4-7) Cons k1 True rbh_plug [of C t] by auto
      ultimately show ?thesis using less.prems(1) by blast
    next
      case False
      then obtain d2 g cg u C2 where C1: "C1 = (d2, g, cg, u) # C2"
        using less.prems(8) Cons k1 by (cases C1) auto
      have C: "C = (d1, p, cp, s) # (d2, g, cg, u) # C2" and cg: "cg = 0"
        using less.prems(7) False Cons k1 C1 by auto
      have inv: "invc s" "invc u" "\<not> is_redt s" "cinvc C2 False" "rbh s m" "rbh u m" "crbh C2 (Suc m)" "\<not> cred C2 False"
        using less.prems(6-8) False unfolding C cg by auto
      show ?thesis
      proof (cases "is_redt u")
        case True
        let ?t = "nd d2 (nd d1 t (p, 0) s) (g, 1) (paint False u)"
        have dis: "dis (plug C2 (nd d2 (nd d1 t (p, cp) s) (g, cg) u))" using less.prems(1) unfolding C by simp
        have "\<exists>t'. insert_loop (Suc f) (Some g) (tree_st F n (plug C2 ?t)) = (Inr (), tree_st F n t') \<and>
            dis t' \<and> addr_list t' = addr_list (plug C2 ?t) \<and> invc t' \<and> (\<exists>k. rbh t' k)"
        proof (rule less.hyps)
          show "length C2 < length C" by (simp add: C)
          show "dis (plug C2 ?t)" using dis by auto
          show "rbh ?t (Suc m)" using less.prems(5) inv rbh_paint_black True by simp
          show "invc ?t" using less.prems(4) inv invc_paint_black by simp
          show "length C2 + 2 \<le> Suc f" using less.prems(9) f C by simp
        qed (use inv in \<open>cases C2; auto\<close>)+
        moreover have "insert_loop fuel (Some a) (tree_st F n (plug C t)) = insert_loop (Suc f) (Some g) (tree_st F n (plug C2 ?t))"
          using insert_loop_step [OF less.prems(1,2,3), of "Suc f" F n]
            insert_step_recolour [OF dis less.prems(2) False True, of F n] f by (simp add: C)
        moreover have "addr_list (plug C2 ?t) = addr_list (plug C t)"
          unfolding C by (simp, rule addr_list_plug_cong, cases d1; cases d2; cases u; simp add: addr_list_def)
        ultimately show ?thesis by metis
      next
        case black: False
        have dis: "dis (plug C2 (nd d2 (nd d1 t (p, cp) s) (g, cg) u))" using less.prems(1) unfolding C by simp
        obtain t' where t': "insert_loop fuel (Some a) (tree_st F n (plug C t)) = (Inr (), tree_st F n (plug C2 t'))"
          "dis (plug C2 t')" "addr_list t' = addr_list (nd d2 (nd d1 t (p, cp) s) (g, cg) u)"
          "invc t'" "\<not> is_redt t'" "rbh t' (Suc m)"
          using insert_loop_rotates [OF dis less.prems(2,3) False black less.prems(4) inv(1,3,2) less.prems(5) inv(5,6), of f F n]
          by (auto simp: C f)
        have "addr_list (plug C2 t') = addr_list (plug C t)" unfolding C using addr_list_plug_cong [OF t'(3)] by simp
        moreover have "invc (plug C2 t')" "\<exists>k. rbh (plug C2 t') k"
          using t'(4-6) inv rbh_plug [of C2 t'] by auto
        ultimately show ?thesis using t'(1,2) by blast
      qed
    qed
  qed
qed

lemma size_addr_list: "length (addr_list t) = size t"
  by (simp add: addr_list_def)

lemma rbt_paint_root:
  assumes "invc t" and "rbh t k"
  shows "rbt (paint False t)"
proof (cases "is_redt t")
  case True
  then show ?thesis using assms rbh_paint_black invc_paint_black by (auto simp: rbt_def)
next
  case False
  then have "paint False t = t" by (cases t) (auto simp: prod_eq_iff)
  then show ?thesis using assms False by (auto simp: rbt_def)
qed

lemma insert_fixup_hole:
  assumes dis: "dis (plug C (Node Leaf (a, e) Leaf))" and rbt: "rbt (plug C Leaf)" and n: "length C \<le> n"
  shows "\<exists>t'. insert_fixup a (tree_st F n (plug C (Node Leaf (a, e) Leaf))) = (Inr None, tree_st F n t') \<and>
    dis t' \<and> rbt t' \<and> addr_list t' = addr_list (plug C (Node Leaf (a, e) Leaf))"
proof -
  let ?t = "nd TREE_LEFT Leaf (a, 1) Leaf"
  have inv: "crbh C 0" "cinvc C False" "C \<noteq> [] \<Longrightarrow> \<not> cred C True"
    using rbt by (cases C; auto simp: rbt_plug)+
  have dis1: "dis (plug C ?t)" using dis by simp
  obtain t' where t': "insert_loop (n + 2) (Some a) (tree_st F n (plug C ?t)) = (Inr (), tree_st F n t')"
    "dis t'" "addr_list t' = addr_list (plug C ?t)" "invc t'" "\<exists>k. rbh t' k"
    using insert_loop_fixes [OF dis1, of a 0 "n + 2" F n] inv n by auto
  have s1: "set_red (Some a) True (tree_st F n (plug C (Node Leaf (a, e) Leaf))) = (Inr (), tree_st F n (plug C ?t))"
    using set_red_focus [OF dis, of True F n] by simp
  have s2: "set_red (rootp t') False (tree_st F n t') = (Inr (), tree_st F n (paint False t'))"
    using set_red_focus [of "[]" t' False F n] t'(2) by simp
  have "addr_list (plug C ?t) = addr_list (plug C (Node Leaf (a, e) Leaf))"
    by (rule addr_list_plug_cong) (simp add: addr_list_def)
  moreover have "insert_fixup a (tree_st F n (plug C (Node Leaf (a, e) Leaf))) = (Inr None, tree_st F n (paint False t'))"
    using s1 t'(1) s2 by (simp add: insert_fixup_def node_ops)
  ultimately show ?thesis using t' rbt_paint_root by (intro exI [of _ "paint False t'"]) auto
qed

end
