(* ===== verification/RbRemove.thy ===== *)
theory RbRemove
  imports RbTree
begin

text \<open>
  Removal from the red-black trees of \<^verbatim>\<open>src/rbtree.c\<close>: the loop that makes up for a black node that is
  missing on the paths to one side.
\<close>

subsection \<open>The parts of an iteration\<close>

lemma black_sibling_black:
  assumes dis: "dis (plug C (nd d t (p, cp) s))" and "\<not> is_redt s"
  shows "black_sibling (Some p) d (rootp s) (tree_st F n (plug C (nd d t (p, cp) s))) =
    (Inr (rootp s), tree_st F n (plug C (nd d t (p, cp) s)))"
  using is_red_focus [of "(opp d, p, cp, t) # C" s F n] assms by (auto simp: black_sibling_def Int_commute node_ops)

lemma black_sibling_red:
  assumes dis: "dis (plug C (nd d t (p, cp) (nd d x (q, cq) y)))" and "cq \<noteq> 0"
  shows "black_sibling (Some p) d (Some q) (tree_st F n (plug C (nd d t (p, cp) (nd d x (q, cq) y)))) =
    (Inr (rootp x), tree_st F n (plug C (nd d (nd d t (p, 1) x) (q, 0) y)))"
proof -
  let ?s = "nd d x (q, cq) y"
  have dis2: "dis (plug C (nd d (nd d t (p, 1) x) (q, 0) y))" using dis by auto
  have "is_red (Some q) (tree_st F n (plug C (nd d t (p, cp) ?s))) = (Inr True, tree_st F n (plug C (nd d t (p, cp) ?s)))"
    using is_red_focus [of "(opp d, p, cp, t) # C" ?s F n] assms by (auto simp: Int_commute)
  moreover have "set_red (Some q) False (tree_st F n (plug C (nd d t (p, cp) ?s))) =
      (Inr (), tree_st F n (plug C (nd d t (p, cp) (nd d x (q, 0) y))))"
    using set_red_focus [of "(opp d, p, cp, t) # C" ?s False F n] dis by (auto simp: Int_commute)
  moreover have "set_red (Some p) True (tree_st F n (plug C (nd d t (p, cp) (nd d x (q, 0) y)))) =
      (Inr (), tree_st F n (plug C (nd d t (p, 1) (nd d x (q, 0) y))))"
    using set_red_focus [of C "nd d t (p, cp) (nd d x (q, 0) y)" True F n] dis by auto
  moreover have "rb_rotate (Some p) d (tree_st F n (plug C (nd d t (p, 1) (nd d x (q, 0) y)))) =
      (Inr (), tree_st F n (plug C (nd d (nd d t (p, 1) x) (q, 0) y)))"
    by (rule rb_rotate_at) (use dis in auto)
  moreover have "t_heap (tree_st F n (plug C (nd d (nd d t (p, 1) x) (q, 0) y))) p =
      Some (tn d (rootp t) (rootp x) (Some q) 1)"
    using t_heap_tree_st [OF dis2, of F n] by simp
  ultimately show ?thesis by (simp add: black_sibling_def node_ops)
qed

lemma far_nephew_red:
  assumes dis: "dis (plug C (nd d t (p, cp) (nd d x (q, cq) y)))" and "is_redt y"
  shows "far_nephew (Some p) d (Some q) (tree_st F n (plug C (nd d t (p, cp) (nd d x (q, cq) y)))) =
    (Inr (Some q), tree_st F n (plug C (nd d t (p, cp) (nd d x (q, cq) y))))" (is "_ = (_, ?S)")
proof -
  have "rep (t_heap ?S) None (plug C (nd d t (p, cp) (nd d x (q, cq) y)))" by (rule t_heap_tree_st [OF dis])
  moreover have "is_red (rootp y) ?S = (Inr True, ?S)"
    using is_red_focus [of "(opp d, q, cq, x) # (opp d, p, cp, t) # C" y F n] assms by (auto simp: Int_commute)
  ultimately show ?thesis by (simp add: far_nephew_def node_ops)
qed

lemma far_nephew_rotates:
  assumes dis: "dis (plug C (nd d t (p, cp) (nd d (nd d u (w, cw) v) (q, cq) y)))" and "\<not> is_redt y"
  shows "far_nephew (Some p) d (Some q) (tree_st F n (plug C (nd d t (p, cp) (nd d (nd d u (w, cw) v) (q, cq) y)))) =
    (Inr (Some w), tree_st F n (plug C (nd d t (p, cp) (nd d u (w, 0) (nd d v (q, 1) y)))))" (is "far_nephew _ _ _ ?S = (_, ?T)")
proof -
  let ?D = "(opp d, p, cp, t) # C"
  have dis': "dis (plug C (nd d t (p, cp) (nd d u (w, 0) (nd d v (q, 1) y))))" using dis by auto
  have "rep (t_heap ?S) None (plug C (nd d t (p, cp) (nd d (nd d u (w, cw) v) (q, cq) y)))" by (rule t_heap_tree_st [OF dis])
  moreover have "rep (t_heap ?T) None (plug C (nd d t (p, cp) (nd d u (w, 0) (nd d v (q, 1) y))))" by (rule t_heap_tree_st [OF dis'])
  moreover have "is_red (rootp y) ?S = (Inr False, ?S)"
    using is_red_focus [of "(opp d, q, cq, nd d u (w, cw) v) # ?D" y F n] assms by (auto simp: Int_commute)
  moreover have "set_red (Some w) False ?S =
      (Inr (), tree_st F n (plug C (nd d t (p, cp) (nd d (nd d u (w, 0) v) (q, cq) y))))"
    using set_red_focus [of "(d, q, cq, y) # ?D" "nd d u (w, cw) v" False F n] dis by (auto simp: Int_commute)
  moreover have "set_red (Some q) True (tree_st F n (plug C (nd d t (p, cp) (nd d (nd d u (w, 0) v) (q, cq) y)))) =
      (Inr (), tree_st F n (plug C (nd d t (p, cp) (nd d (nd d u (w, 0) v) (q, 1) y))))"
    using set_red_focus [of ?D "nd d (nd d u (w, 0) v) (q, cq) y" True F n] dis by (auto simp: Int_commute)
  moreover have "rb_rotate (Some q) (opp d) (tree_st F n (plug C (nd d t (p, cp) (nd d (nd d u (w, 0) v) (q, 1) y)))) = (Inr (), ?T)"
    using rb_rotate_opp_at [of ?D d u w 0 v q 1 y F n] dis by (auto simp: Int_commute)
  ultimately show ?thesis by (simp add: far_nephew_def node_ops)
qed

lemma last_rotation_at:
  assumes dis: "dis (plug C (nd d t (p, cp) (nd d x (q, cq) y)))"
  shows "last_rotation (Some p) d (Some q) (tree_st F n (plug C (nd d t (p, cp) (nd d x (q, cq) y)))) =
    (Inr (croot C (Some q)),
      tree_st F n (plug C (nd d (nd d t (p, 0) x) (q, if cp \<noteq> 0 then 1 else 0) (paint False y))))"
    (is "last_rotation _ _ _ ?S = (_, ?T)")
proof -
  let ?cq = "if cp \<noteq> 0 then 1 else 0"
  let ?S' = "tree_st F n (plug C (nd d t (p, 0) (nd d x (q, ?cq) y)))"
  have "rep (t_heap ?S) None (plug C (nd d t (p, cp) (nd d x (q, cq) y)))" by (rule t_heap_tree_st [OF dis])
  moreover have "rep (t_heap ?S') None (plug C (nd d t (p, 0) (nd d x (q, ?cq) y)))"
    by (rule t_heap_tree_st) (use dis in auto)
  moreover have "set_red (Some q) (cp \<noteq> 0) ?S = (Inr (), tree_st F n (plug C (nd d t (p, cp) (nd d x (q, ?cq) y))))"
    using set_red_focus [of "(opp d, p, cp, t) # C" "nd d x (q, cq) y" "cp \<noteq> 0" F n] dis by (auto simp: Int_commute)
  moreover have "set_red (Some p) False (tree_st F n (plug C (nd d t (p, cp) (nd d x (q, ?cq) y)))) = (Inr (), ?S')"
    using set_red_focus [of C "nd d t (p, cp) (nd d x (q, ?cq) y)" False F n] dis by auto
  moreover have "set_red (rootp y) False ?S' = (Inr (), tree_st F n (plug C (nd d t (p, 0) (nd d x (q, ?cq) (paint False y)))))"
    using set_red_focus [of "(opp d, q, ?cq, x) # (opp d, p, 0, t) # C" y False F n] dis by (auto simp: Int_commute)
  moreover have "rb_rotate (Some p) d (tree_st F n (plug C (nd d t (p, 0) (nd d x (q, ?cq) (paint False y))))) = (Inr (), ?T)"
    by (rule rb_rotate_at) (use dis in auto)
  ultimately show ?thesis by (simp add: last_rotation_def node_ops)
qed

lemma balance_recolours:
  assumes dis: "dis (plug C (nd d t (p, cp) (nd d x (q, cq) y)))" and "\<not> is_redt x" "\<not> is_redt y"
  shows "balance_sibling (Some p) d (Some q) (tree_st F n (plug C (nd d t (p, cp) (nd d x (q, cq) y)))) =
    (Inr (Some p), tree_st F n (plug C (nd d t (p, cp) (nd d x (q, 1) y))))" (is "balance_sibling _ _ _ ?S = (_, ?T)")
proof -
  let ?D = "(opp d, p, cp, t) # C"
  have "rep (t_heap ?S) None (plug C (nd d t (p, cp) (nd d x (q, cq) y)))" by (rule t_heap_tree_st [OF dis])
  moreover have "is_red (rootp x) ?S = (Inr False, ?S)" "is_red (rootp y) ?S = (Inr False, ?S)"
    using is_red_focus [of "(d, q, cq, y) # ?D" x F n] is_red_focus [of "(opp d, q, cq, x) # ?D" y F n] assms
    by (auto simp: Int_commute)
  moreover have "set_red (Some q) True ?S = (Inr (), ?T)"
    using set_red_focus [of ?D "nd d x (q, cq) y" True F n] dis by (auto simp: Int_commute)
  ultimately show ?thesis by (simp add: balance_sibling_def node_ops)
qed

lemma balance_turns:
  assumes dis: "dis (plug C (nd d t (p, cp) (nd d x (q, cq) y)))" and red: "is_redt x \<or> is_redt y"
  shows "balance_sibling (Some p) d (Some q) (tree_st F n (plug C (nd d t (p, cp) (nd d x (q, cq) y)))) =
    andthen (far_nephew (Some p) d (Some q)) (last_rotation (Some p) d) (tree_st F n (plug C (nd d t (p, cp) (nd d x (q, cq) y))))"
    (is "balance_sibling _ _ _ ?S = _")
proof -
  let ?D = "(opp d, p, cp, t) # C"
  have "rep (t_heap ?S) None (plug C (nd d t (p, cp) (nd d x (q, cq) y)))" by (rule t_heap_tree_st [OF dis])
  moreover have "is_red (rootp x) ?S = (Inr (is_redt x), ?S)" "is_red (rootp y) ?S = (Inr (is_redt y), ?S)"
    using is_red_focus [of "(d, q, cq, y) # ?D" x F n] is_red_focus [of "(opp d, q, cq, x) # ?D" y F n] dis
    by (auto simp: Int_commute)
  ultimately show ?thesis using red by (cases "is_redt x"; cases "is_redt y") (simp_all add: balance_sibling_def node_ops)
qed

lemma balance_rotates:
  assumes dis: "dis (plug C (nd d t (p, cp) (nd d x (q, cq) y)))" and red: "is_redt x \<or> is_redt y"
    and inv: "invc t" "invc x" "invc y" "rbh t m" "rbh x m" "rbh y m"
  obtains z where
    "balance_sibling (Some p) d (Some q) (tree_st F n (plug C (nd d t (p, cp) (nd d x (q, cq) y)))) =
      (Inr (rootp (plug C z)), tree_st F n (plug C z))"
    "dis (plug C z)" "addr_list z = addr_list (nd d t (p, cp) (nd d x (q, cq) y))"
    "invc z" "is_redt z \<longleftrightarrow> cp \<noteq> 0" "rbh z (if cp = 0 then Suc (Suc m) else Suc m)"
proof (cases "is_redt y")
  case True
  show thesis
  proof (rule that [of "nd d (nd d t (p, 0) x) (q, if cp \<noteq> 0 then 1 else 0) (paint False y)"])
    show "addr_list (nd d (nd d t (p, 0) x) (q, if cp \<noteq> 0 then 1 else 0) (paint False y)) =
        addr_list (nd d t (p, cp) (nd d x (q, cq) y))"
      using addr_list_paint [of False y] by (cases d) (simp_all add: addr_list_def)
  qed (use dis red inv True far_nephew_red [OF dis True, of F n] last_rotation_at [OF dis, of F n] balance_turns [OF dis red, of F n]
      rbh_paint_black [of y m] invc_paint_black [of y] in auto)
next
  case False
  then have "is_redt x" using red by blast
  then obtain u w cw v where x: "x = nd d u (w, cw) v" "cw \<noteq> 0"
    by (cases x rule: nd_cases [where d = d]) auto
  have dis': "dis (plug C (nd d t (p, cp) (nd d u (w, 0) (nd d v (q, 1) y))))" using dis x by auto
  show thesis
  proof (rule that [of "nd d (nd d t (p, 0) u) (w, if cp \<noteq> 0 then 1 else 0) (nd d v (q, 0) y)"])
    show "addr_list (nd d (nd d t (p, 0) u) (w, if cp \<noteq> 0 then 1 else 0) (nd d v (q, 0) y)) =
        addr_list (nd d t (p, cp) (nd d x (q, cq) y))"
      by (cases d) (simp_all add: x addr_list_def)
  qed (use dis red inv x False far_nephew_rotates [of C d t p cp u w cw v q cq y F n] last_rotation_at [OF dis', of F n]
      balance_turns [OF dis red, of F n] in auto)
qed

subsection \<open>The loop\<close>

lemma invc_paint_iff: "\<not> is_redt t \<Longrightarrow> paint False t = t"
  by (cases t) (auto simp: prod_eq_iff)

lemma rbt_paint_plug:
  assumes "invc (paint False t)" and "rbh t m" and "crbh C (Suc m)" and "cinvc C False" and "C \<noteq> [] \<Longrightarrow> \<not> cred C True"
    and "C = [] \<or> is_redt t"
  shows "rbt (plug C (paint False t))"
proof (cases "is_redt t")
  case True
  then have "rbh (paint False t) (Suc m)" using assms(2) by (rule rbh_paint_black)
  moreover have "\<not> cred C False" using assms(5) by (cases C) auto
  ultimately show ?thesis using assms unfolding rbt_plug by auto
next
  case False
  then show ?thesis using assms by (auto simp: invc_paint_iff rbt_def)
qed

text \<open>The loop ends at the root or at a red node, which becomes black.\<close>

definition remove_fixup :: "nat \<Rightarrow> addr option \<Rightarrow> addr option \<Rightarrow> (tree_state, unit) cfun" where
  "remove_fixup fuel node parent = andthen (remove_loop fuel node parent) (\<lambda>node. set_red node False)"

lemma remove_fixup_exit:
  assumes dis: "dis (plug C t)" and "C = [] \<or> is_redt t"
  shows "remove_fixup (Suc f) (rootp t) p (tree_st F n (plug C t)) = (Inr (), tree_st F n (plug C (paint False t)))"
proof -
  have "remove_loop (Suc f) (rootp t) p (tree_st F n (plug C t)) = (Inr (rootp t), tree_st F n (plug C t))"
    using is_red_focus [OF dis, of F n] assms(2) by (cases "is_redt t") (auto simp: node_ops)
  then show ?thesis using set_red_focus [OF dis, of False F n] by (simp add: remove_fixup_def)
qed

lemma remove_fixup_root:
  assumes "dis t" and "rbt t"
  shows "remove_fixup (Suc f) (rootp t) p (tree_st F n t) = (Inr (), tree_st F n t)"
  using remove_fixup_exit [of "[]" t f p F n] assms by (simp add: invc_paint_iff rbt_def)

lemma remove_fixup_step:
  assumes dis: "dis (plug C t)" and "C \<noteq> []" and "\<not> is_redt t"
    and step: "remove_step (rootp t) (cpar None C) (tree_st F n (plug C t)) = (Inr (node, parent), s)"
  shows "remove_fixup (Suc f) (rootp t) (cpar None C) (tree_st F n (plug C t)) = remove_fixup f node parent s"
proof -
  have "rootp t \<noteq> rootp (plug C t)"
  proof (cases t)
    case (Node l m r)
    obtain d g c y C' where C: "C = (d, g, c, y) # C'" using assms(2) by (cases C) auto
    show ?thesis using dis croot_notin [of "fst m" C' g] by (auto simp: Node C)
  qed (use assms(2) in \<open>cases C; auto\<close>)
  then show ?thesis
    using is_red_focus [OF dis, of F n] assms(3) step by (simp add: remove_fixup_def andthen_def node_ops)
qed

text \<open>The second half of an iteration, with a sibling that is black, and the parent to go on with.\<close>

lemma balance_then_parent:
  assumes dis: "dis (plug C (nd d t (p, cp) (nd d x (q, cq) y)))"
    and inv: "invc t" "invc x" "invc y" "rbh t m" "rbh x m" "rbh y m"
      "crbh C (if cp = 0 then Suc (Suc m) else Suc m)" "cinvc C (cp \<noteq> 0)" "\<not> cred C (cp \<noteq> 0)"
  obtains (recolour) "\<not> is_redt x" and "\<not> is_redt y"
      and "andthen (balance_sibling (Some p) d (Some q)) (\<lambda>node'. andthen (get_parent node') (\<lambda>parent'. cret (node', parent')))
        (tree_st F n (plug C (nd d t (p, cp) (nd d x (q, cq) y)))) =
        (Inr (Some p, cpar None C), tree_st F n (plug C (nd d t (p, cp) (nd d x (q, 1) y))))"
    | (rotate) z where "dis z" and "rbt z" and "addr_list z = addr_list (plug C (nd d t (p, cp) (nd d x (q, cq) y)))"
      and "andthen (balance_sibling (Some p) d (Some q)) (\<lambda>node'. andthen (get_parent node') (\<lambda>parent'. cret (node', parent')))
        (tree_st F n (plug C (nd d t (p, cp) (nd d x (q, cq) y)))) = (Inr (rootp z, None), tree_st F n z)"
proof (cases "is_redt x \<or> is_redt y")
  case True
  obtain z where z: "balance_sibling (Some p) d (Some q) (tree_st F n (plug C (nd d t (p, cp) (nd d x (q, cq) y)))) =
      (Inr (rootp (plug C z)), tree_st F n (plug C z))"
    "dis (plug C z)" "addr_list z = addr_list (nd d t (p, cp) (nd d x (q, cq) y))"
    "invc z" "is_redt z \<longleftrightarrow> cp \<noteq> 0" "rbh z (if cp = 0 then Suc (Suc m) else Suc m)"
    using balance_rotates [OF dis True inv(1-6)] by metis
  obtain b where "rootp z = Some b" using z(6) by (cases z) (auto split: if_splits)
  then have "rootp (plug C z) \<noteq> None" by simp
  then obtain l k r where T: "plug C z = Node l k r" by (cases "plug C z") auto
  have "rep (t_heap (tree_st F n (plug C z))) None (plug C z)" by (rule t_heap_tree_st [OF z(2)])
  then have "get_parent (rootp (plug C z)) (tree_st F n (plug C z)) = (Inr None, tree_st F n (plug C z))"
    unfolding T by (simp add: node_ops)
  then show thesis
    using rotate [of "plug C z"] z inv addr_list_plug_cong [OF z(3)] by (simp add: rbt_plug del: rootp_plug) blast
next
  case False
  let ?T = "tree_st F n (plug C (nd d t (p, cp) (nd d x (q, 1) y)))"
  have "t_heap ?T p = Some (tn d (rootp t) (Some q) (cpar None C) cp)"
    using node_at [of C d t p cp "nd d x (q, 1) y" F n] dis by simp
  then show thesis
    using recolour balance_recolours [OF dis, of F n] False by (simp add: node_ops)
qed

lemma remove_step_sibling:
  assumes dis: "dis (plug C (nd d t (p, cp) s))" and "s \<noteq> Leaf"
    and sib: "black_sibling (Some p) d (rootp s) (tree_st F n (plug C (nd d t (p, cp) s))) = (Inr q, S)"
  shows "remove_step (rootp t) (Some p) (tree_st F n (plug C (nd d t (p, cp) s))) =
    andthen (balance_sibling (Some p) d q) (\<lambda>node'. andthen (get_parent node') (\<lambda>parent'. cret (node', parent'))) S"
proof -
  have "t_heap (tree_st F n (plug C (nd d t (p, cp) s))) p = Some (tn d (rootp t) (rootp s) (cpar None C) cp)"
    by (rule node_at [OF dis])
  moreover have "rootp s \<noteq> rootp t"
    using dis assms(2) rootp_in_node_addrs [of s] rootp_in_node_addrs [of t] by (cases "rootp s") fastforce+
  ultimately show ?thesis using sib by (simp add: remove_step_def node_ops which_dir_frame)
qed

text \<open>One iteration: it ends at the root, or goes on nearer to the root or at a red node.\<close>

lemma remove_step_cases:
  assumes dis: "dis (plug C (nd d t (p, cp) s))"
    and inv: "\<not> is_redt t" "invc t" "rbh t m" "rbh s (Suc m)" "invc s" "cp \<noteq> 0 \<longrightarrow> \<not> is_redt s"
      "crbh C (if cp = 0 then Suc (Suc m) else Suc m)" "cinvc C (cp \<noteq> 0)" "\<not> cred C (cp \<noteq> 0)"
  obtains (go_on) C' t' m' where "remove_step (rootp t) (Some p) (tree_st F n (plug C (nd d t (p, cp) s))) =
        (Inr (rootp t', cpar None C'), tree_st F n (plug C' t'))"
      and "dis (plug C' t')" and "addr_list (plug C' t') = addr_list (plug C (nd d t (p, cp) s))"
      and "invc (paint False t')" and "rbh t' m'" and "crbh C' (Suc m')" and "cinvc C' False" and "C' \<noteq> [] \<Longrightarrow> \<not> cred C' True"
      and "C' = C \<or> is_redt t'"
    | (root) z where "remove_step (rootp t) (Some p) (tree_st F n (plug C (nd d t (p, cp) s))) = (Inr (rootp z, None), tree_st F n z)"
      and "dis z" and "rbt z" and "addr_list z = addr_list (plug C (nd d t (p, cp) s))"
proof -
  obtain x q cq y where s: "s = nd d x (q, cq) y" using inv(4) by (cases s rule: nd_cases [where d = d]) auto
  show thesis
  proof (cases "cq = 0")
    case True
    have step: "remove_step (rootp t) (Some p) (tree_st F n (plug C (nd d t (p, cp) s))) =
        andthen (balance_sibling (Some p) d (Some q)) (\<lambda>node'. andthen (get_parent node') (\<lambda>parent'. cret (node', parent')))
          (tree_st F n (plug C (nd d t (p, cp) s)))"
      using remove_step_sibling [OF dis _ black_sibling_black [OF dis]] True by (simp add: s)
    have xy: "invc x" "invc y" "rbh x m" "rbh y m" using inv True by (auto simp: s)
    from dis [unfolded s] inv(2) xy(1,2) inv(3) xy(3,4) inv(7,8,9) show thesis
    proof (cases rule: balance_then_parent [where F = F and n = n])
      case recolour
      have "cinvc C False" using inv(8) by (cases C) auto
      moreover have "C \<noteq> [] \<Longrightarrow> \<not> cred C True" using inv(9) by (cases C) auto
      moreover have "addr_list (plug C (nd d t (p, cp) (nd d x (q, 1) y))) = addr_list (plug C (nd d t (p, cp) s))"
        unfolding s by (rule addr_list_plug_cong, cases d) (simp_all add: addr_list_def)
      ultimately show thesis
        using recolour dis inv xy step
        by (intro go_on [of "nd d t (p, cp) (nd d x (q, 1) y)" C "if cp = 0 then Suc m else m"]) (auto simp: s)
    next
      case (rotate z)
      then show thesis using step root by (simp add: s)
    qed
  next
    case False
    have cp: "cp = 0" using inv(6) False by (auto simp: s)
    have xy: "invc x" "invc y" "\<not> is_redt x" "rbh x (Suc m)" "rbh y (Suc m)" using inv False by (auto simp: s)
    then obtain u w v where x: "x = nd d u (w, 0) v" by (cases x rule: nd_cases [where d = d]) auto
    let ?C = "(d, q, 0, y) # C"
    have dis': "dis (plug ?C (nd d t (p, 1) (nd d u (w, 0) v)))" using dis by (auto simp: s x)
    have step: "remove_step (rootp t) (Some p) (tree_st F n (plug C (nd d t (p, cp) s))) =
        andthen (balance_sibling (Some p) d (Some w)) (\<lambda>node'. andthen (get_parent node') (\<lambda>parent'. cret (node', parent')))
          (tree_st F n (plug ?C (nd d t (p, 1) (nd d u (w, 0) v))))"
      using remove_step_sibling [OF dis] black_sibling_red [OF dis [unfolded s] False, of F n] by (simp add: s x)
    have ctx: "invc u" "invc v" "rbh u m" "rbh v m" "crbh ?C (if (1::2 word) = 0 then Suc (Suc m) else Suc m)"
        "cinvc ?C ((1::2 word) \<noteq> 0)" "\<not> cred ?C ((1::2 word) \<noteq> 0)"
      using xy inv cp by (auto simp: x)
    have addrs: "addr_list (plug ?C (nd d t (p, 1) (nd d u (w, e) v))) = addr_list (plug C (nd d t (p, cp) s))" for e
      unfolding s x by (simp, rule addr_list_plug_cong, cases d) (simp_all add: addr_list_def)
    from dis' inv(2) ctx(1,2) inv(3) ctx(3-7) show thesis
    proof (cases rule: balance_then_parent [where F = F and n = n])
      case recolour
      show thesis
        using recolour dis' inv xy ctx step addrs
        by (intro go_on [of "nd d t (p, 1) (nd d u (w, 1) v)" ?C m]) (auto simp: cp)
    next
      case (rotate z)
      then show thesis using step root addrs by simp
    qed
  qed
qed

lemma remove_fixup_fixes:
  assumes "dis (plug C t)" and "invc (paint False t)" and "rbh t m" and "crbh C (Suc m)" and "cinvc C False"
    and "C \<noteq> [] \<Longrightarrow> \<not> cred C True" and "length C + 2 \<le> fuel"
  shows "\<exists>t'. remove_fixup fuel (rootp t) (cpar None C) (tree_st F n (plug C t)) = (Inr (), tree_st F n t') \<and>
    dis t' \<and> rbt t' \<and> addr_list t' = addr_list (plug C t)"
  using assms
proof (induction C arbitrary: t m fuel)
  case Nil
  then show ?case
    using remove_fixup_exit [of "[]" t "fuel - 1" None F n] rbt_paint_plug [of t m "[]"]
    by (intro exI [of _ "paint False t"]) (simp add: Suc_diff_le numeral_2_eq_2)
next
  case (Cons k C)
  obtain d p cp s where k: "k = (d, p, cp, s)" by (cases k)
  define f where "f = fuel - 2"
  have f: "fuel = Suc (Suc f)" using Cons.prems(7) by (simp add: f_def)
  show ?case
  proof (cases "is_redt t")
    case True
    have "addr_list (plug (k # C) (paint False t)) = addr_list (plug (k # C) t)" by (rule addr_list_plug_cong) simp
    then show ?thesis
      using True remove_fixup_exit [OF Cons.prems(1), of "Suc f" "cpar None (k # C)" F n] rbt_paint_plug [OF Cons.prems(2-6)] Cons.prems(1)
      by (intro exI [of _ "plug (k # C) (paint False t)"]) (simp add: f)
  next
    case False
    have dis: "dis (plug C (nd d t (p, cp) s))" using Cons.prems(1) by (simp add: k)
    have inv: "invc t" "rbh s (Suc m)" "invc s" "cp \<noteq> 0 \<longrightarrow> \<not> is_redt s"
      "crbh C (if cp = 0 then Suc (Suc m) else Suc m)" "cinvc C (cp \<noteq> 0)" "\<not> cred C (cp \<noteq> 0)"
      using Cons.prems(2,4,5,6) False by (auto simp: k invc_paint_iff)
    have step: "remove_fixup fuel (rootp t) (Some p) (tree_st F n (plug C (nd d t (p, cp) s))) = remove_fixup (Suc f) node parent S"
      if "remove_step (rootp t) (Some p) (tree_st F n (plug C (nd d t (p, cp) s))) = (Inr (node, parent), S)" for node parent S
      using remove_fixup_step [OF Cons.prems(1) _ False, of F n node parent S "Suc f"] that by (simp add: k f)
    from dis False inv(1) Cons.prems(3) inv(2-7) show ?thesis
    proof (cases rule: remove_step_cases [where F = F and n = n])
      case (go_on C' t' m')
      show ?thesis
      proof (cases "is_redt t'")
        case True
        have "addr_list (plug C' (paint False t')) = addr_list (plug C' t')" by (rule addr_list_plug_cong) simp
        then show ?thesis
          using True go_on step [OF go_on(1)] remove_fixup_exit [OF go_on(2), of f "cpar None C'" F n]
            rbt_paint_plug [OF go_on(4-8)]
          by (intro exI [of _ "plug C' (paint False t')"]) (simp add: k)
      next
        case False
        then have "C' = C" using go_on(9) by simp
        then show ?thesis
          using Cons.IH [OF go_on(2,4-8)[unfolded \<open>C' = C\<close>], of "Suc f"] go_on step [OF go_on(1)] Cons.prems(7) f
          by (auto simp: k)
      qed
    next
      case (root z)
      then show ?thesis
        using step [OF root(1)] remove_fixup_root [OF root(2,3), of f None F n] by (intro exI [of _ z]) (simp add: k)
    qed
  qed
qed

subsection \<open>Removal as a whole\<close>

lemma is_redt_colours: "colours t = colours t' \<Longrightarrow> is_redt t = is_redt t'"
  by (cases t; cases t') auto

lemma rbt_colours:
  assumes "colours t = colours t'" and "rbt t"
  shows "rbt t'"
proof -
  have "invc t = invc t' \<and> (\<forall>m. rbh t m = rbh t' m)"
    using assms(1)
  proof (induction t arbitrary: t')
    case (Node l n r)
    then obtain l' n' r' where "t' = Node l' n' r'" "colours l = colours l'" "colours r = colours r'" "snd n = snd n'"
      by (cases t') auto
    then show ?case
      using Node.IH(1) [of l'] Node.IH(2) [of r'] is_redt_colours [of l l'] is_redt_colours [of r r'] by simp
  qed simp
  then show ?thesis using assms is_redt_colours [OF assms(1)] by (simp add: rbt_def)
qed

lemma rbt_remove_red:
  assumes "rbt (plug C (nd d Leaf (a, e) E))" and "e \<noteq> 0"
  shows "rbt (plug C E)"
proof -
  have "cinvc C True \<Longrightarrow> cinvc C False" "\<not> cred C True \<Longrightarrow> \<not> cred C False" by (cases C; auto)+
  moreover have "\<not> cred C True" "cinvc C True" "invc E" "\<not> is_redt E" "\<exists>m. rbh E m \<and> crbh C m"
    using assms unfolding rbt_plug by auto
  ultimately show ?thesis unfolding rbt_plug by simp
qed

lemma rb_remove_at:
  assumes dis: "dis t" and rbt: "rbt t" and a: "a \<in> node_addrs t" and n: "n = size t"
  shows "\<exists>t' e. rb_remove (Some a) (tree_st F n t) = (Inr (), tree_st (F(a \<mapsto> tn TREE_LEFT None None None e)) (n - 1) t') \<and>
    dis t' \<and> rbt t' \<and> addr_list t' = remove1 a (addr_list t)"
proof -
  obtain C d e E where T: "dis (plug C (nd d Leaf (a, e) E))" "colours (plug C (nd d Leaf (a, e) E)) = colours t"
    "addr_list (plug C E) = remove1 a (addr_list t)"
    and run: "tree_remove (Some a) (tree_st F n t) =
      (Inr (cpar None C, rootp E), tree_st (F(a \<mapsto> tn TREE_LEFT None None None e)) (n - 1) (plug C E))"
    using tree_remove_at [OF dis a, of n F] n by (metis order_refl)
  let ?F = "F(a \<mapsto> tn TREE_LEFT None None None e)"
  let ?S = "tree_st ?F (n - 1) (plug C E)"
  have rbt1: "rbt (plug C (nd d Leaf (a, e) E))" using rbt_colours [of t] T(2) rbt by simp
  have dis1: "dis (plug C E)" and out: "a \<notin> node_addrs (plug C E)" using T(1) by auto
  have ha: "t_heap ?S a = Some (tn TREE_LEFT None None None e)"
    unfolding tree_st_def using store_outside [OF out, of None ?F] by simp
  have size: "size (plug C E) = n - 1"
    using arg_cong [OF T(3), of length] n a set_addr_list [of t] by (simp add: length_remove1 size_addr_list)
  consider "plug C E = Leaf" | "e \<noteq> 0" "plug C E \<noteq> Leaf" | "e = 0" "plug C E \<noteq> Leaf" by blast
  then show ?thesis
  proof cases
    case 1
    then have "rb_remove (Some a) (tree_st F n t) = (Inr (), ?S)" using run by (simp add: rb_remove_def node_ops)
    moreover have "rbt (plug C E)" using 1 by (simp add: rbt_def)
    ultimately show ?thesis using dis1 T(3) by blast
  next
    case 2
    then have "rb_remove (Some a) (tree_st F n t) = (Inr (), ?S)"
      using run ha rootp_None [of "plug C E"] by (simp add: rb_remove_def node_ops del: rootp_plug rootp_None)
    then show ?thesis using dis1 T(3) rbt_remove_red [OF rbt1 2(1)] by blast
  next
    case 3
    obtain m where m: "rbh (nd d Leaf (a, e) E) m" "crbh C m" using rbt1 unfolding rbt_plug by blast
    then have "m = Suc 0" using 3(1) by (cases m) auto
    moreover have "C \<noteq> [] \<Longrightarrow> cred C True = cred C False" by (cases C) auto
    ultimately have inv: "invc (paint False E)" "rbh E 0" "crbh C (Suc 0)" "cinvc C False" "C \<noteq> [] \<Longrightarrow> \<not> cred C True"
      using rbt1 3(1) m invc_paint_black [of E] unfolding rbt_plug by auto
    have "length C + 2 \<le> 2 * (n - 1) + 2" using size_plug [of C E] size by simp
    then obtain t' where t': "remove_fixup (2 * (n - 1) + 2) (rootp E) (cpar None C) ?S = (Inr (), tree_st ?F (n - 1) t')"
      "dis t'" "rbt t'" "addr_list t' = addr_list (plug C E)"
      using remove_fixup_fixes [OF dis1 inv] by blast
    obtain r where r: "rootp (plug C E) = Some r" using 3(2) by (cases "plug C E") auto
    have "rb_remove (Some a) (tree_st F n t) = (Inr (), tree_st ?F (n - 1) t')"
      using run ha 3 t'(1) r
      by (simp add: rb_remove_def remove_fixup_def node_ops del: rootp_plug rootp_None)
    then show ?thesis using t' T(3) by auto
  qed
qed

end
