(* ===== verification/Tree_Ordered.thy ===== *)
theory Tree_Ordered
  imports Tree_Search RbRemove
begin

text \<open>
  What the trees of \<^verbatim>\<open>src/tree.c\<close>, \<^verbatim>\<open>src/rbtree.c\<close> and \<^verbatim>\<open>src/bst.c\<close> promise to their users: they hold a sequence of
  objects in the order of their keys. The interface is a locale; red-black and unbalanced trees implement it.
\<close>

subsection \<open>The contents of a tree\<close>

text \<open>The tree in state \<open>s\<close> is well formed, satisfies \<open>I\<close>, and holds the objects \<open>xs\<close> in this order.\<close>

definition tree_holds :: "(ptree \<Rightarrow> bool) \<Rightarrow> tree_state \<Rightarrow> addr list \<Rightarrow> bool" where
  "tree_holds I s xs \<longleftrightarrow>
     (\<exists>t. rep (t_heap s) None t \<and> t_root s = rootp t \<and> t_num s = size t \<and> dis t \<and> I t \<and> addr_list t = xs)"

lemma rep_tree_st:
  assumes "rep (t_heap s) None t" and "t_root s = rootp t" and "t_num s = n" and "dis t"
  shows "s = tree_st (t_heap s) n t"
  using assms store_unique [of t "t_heap s" None "t_heap s"] by (cases s) (simp add: tree_st_def)

lemma tree_holds_tree_st: "dis t \<Longrightarrow> I t \<Longrightarrow> tree_holds I (tree_st F (size t) t) (addr_list t)"
  unfolding tree_holds_def using t_heap_tree_st [of t F "size t"] by auto

lemma tree_holdsE:
  assumes "tree_holds I s xs"
  obtains t where "s = tree_st (t_heap s) (size t) t" and "dis t" and "I t" and "addr_list t = xs"
  using assms rep_tree_st unfolding tree_holds_def by metis

lemma tree_holds_distinct: "tree_holds I s xs \<Longrightarrow> distinct xs"
  by (auto simp: dis_iff_distinct elim: tree_holdsE)

lemma tree_holds_num: "tree_holds I s xs \<Longrightarrow> t_num s = length xs"
  unfolding tree_holds_def by (auto simp: size_addr_list)

lemma rep_allocated: "rep h p t \<Longrightarrow> x \<in> node_addrs t \<Longrightarrow> h x \<noteq> None"
  by (induction t arbitrary: p) auto

lemma tree_holds_allocated: "tree_holds I s xs \<Longrightarrow> x \<in> set xs \<Longrightarrow> t_heap s x \<noteq> None"
  unfolding tree_holds_def using rep_allocated set_addr_list by metis

text \<open>The addresses that hold a node stay the same.\<close>

definition same_cells :: "tree_state \<Rightarrow> tree_state \<Rightarrow> bool" where
  "same_cells s s' \<longleftrightarrow> dom (t_heap s') = dom (t_heap s)"

lemma dom_store: "dom (store p t F) = dom F \<union> node_addrs t"
  by (induction t arbitrary: p F) auto

lemma dom_tree_st: "dom (t_heap (tree_st F n t)) = dom F \<union> node_addrs t"
  by (simp add: tree_st_def dom_store)

lemma tree_st_dom:
  assumes "s = tree_st (t_heap s) n t"
  shows "node_addrs t \<subseteq> dom (t_heap s)"
  using arg_cong [OF assms, of "\<lambda>s. dom (t_heap s)"] unfolding dom_tree_st by blast

subsection \<open>The interface\<close>

datatype tree_op = Op_Insert addr | Op_Remove addr

fun spec_op :: "(addr \<Rightarrow> 'k::linorder) \<Rightarrow> tree_op \<Rightarrow> addr list \<Rightarrow> addr option \<times> addr list" where
  "spec_op key (Op_Insert a) xs =
     (case find (\<lambda>b. key b = key a) xs of Some b \<Rightarrow> (Some b, xs) | None \<Rightarrow> (None, insort_key key a xs))"
| "spec_op key (Op_Remove a) xs = (None, remove1 a xs)"

text \<open>An object is inserted when it is in memory and not in the tree, and removed when it is in the tree.\<close>

fun legal_op :: "addr set \<Rightarrow> tree_op \<Rightarrow> addr list \<Rightarrow> bool" where
  "legal_op mem (Op_Insert a) xs \<longleftrightarrow> a \<in> mem \<and> a \<notin> set xs"
| "legal_op mem (Op_Remove a) xs \<longleftrightarrow> a \<in> set xs"

fun spec_ops :: "(addr \<Rightarrow> 'k::linorder) \<Rightarrow> tree_op list \<Rightarrow> addr list \<Rightarrow> addr option list \<times> addr list" where
  "spec_ops key [] xs = ([], xs)"
| "spec_ops key (p # ps) xs =
     (let (r, xs') = spec_op key p xs; (rs, xs'') = spec_ops key ps xs' in (r # rs, xs''))"

fun legal_ops :: "(addr \<Rightarrow> 'k::linorder) \<Rightarrow> addr set \<Rightarrow> tree_op list \<Rightarrow> addr list \<Rightarrow> bool" where
  "legal_ops key mem [] xs \<longleftrightarrow> True"
| "legal_ops key mem (p # ps) xs \<longleftrightarrow> legal_op mem p xs \<and> legal_ops key mem ps (snd (spec_op key p xs))"

text \<open>A program that uses a tree: a list of calls, with the results of the insertions.\<close>

fun run_op ::
  "(addr \<Rightarrow> (tree_state, addr option) cfun) \<Rightarrow> (addr option \<Rightarrow> (tree_state, unit) cfun) \<Rightarrow> tree_op \<Rightarrow> (tree_state, addr option) cfun" where
  "run_op ins rem (Op_Insert a) = ins a"
| "run_op ins rem (Op_Remove a) = andthen (rem (Some a)) (\<lambda>_. cret None)"

fun run_ops ::
  "(addr \<Rightarrow> (tree_state, addr option) cfun) \<Rightarrow> (addr option \<Rightarrow> (tree_state, unit) cfun) \<Rightarrow> tree_op list \<Rightarrow>
     (tree_state, addr option list) cfun" where
  "run_ops ins rem [] = cret []"
| "run_ops ins rem (p # ps) = andthen (run_op ins rem p) (\<lambda>r. andthen (run_ops ins rem ps) (\<lambda>rs. cret (r # rs)))"

locale ordered_tree =
  fixes holds :: "tree_state \<Rightarrow> addr list \<Rightarrow> bool"
    and ins :: "(addr \<Rightarrow> addr \<Rightarrow> int) \<Rightarrow> addr \<Rightarrow> (tree_state, addr option) cfun"
    and rem :: "addr option \<Rightarrow> (tree_state, unit) cfun"
    and key :: "addr \<Rightarrow> 'k::linorder"
  assumes ins_spec: "holds s xs \<Longrightarrow> compares cmp key key \<Longrightarrow> in_order key xs \<Longrightarrow> legal_op (dom (t_heap s)) (Op_Insert a) xs \<Longrightarrow>
      \<exists>s'. ins cmp a s = (Inr (fst (spec_op key (Op_Insert a) xs)), s') \<and> holds s' (snd (spec_op key (Op_Insert a) xs)) \<and> same_cells s s'"
    and rem_spec: "holds s xs \<Longrightarrow> a \<in> set xs \<Longrightarrow> \<exists>s'. rem (Some a) s = (Inr (), s') \<and> holds s' (remove1 a xs) \<and> same_cells s s'"
begin

lemma in_order_spec: "in_order key xs \<Longrightarrow> in_order key (snd (spec_op key p xs))"
proof (cases p)
  case (Op_Insert a)
  moreover assume "in_order key xs"
  moreover have "find (\<lambda>b. key b = key a) xs = None \<Longrightarrow> key a \<notin> key ` set xs" by (auto simp: find_None_iff)
  ultimately show ?thesis by (auto intro: in_order_insort split: option.split)
qed (auto intro: in_order_remove1)

lemma run_op_spec:
  assumes "holds s xs" and "compares cmp key key" and "in_order key xs" and "legal_op (dom (t_heap s)) p xs"
  obtains s' where "run_op (ins cmp) rem p s = (Inr (fst (spec_op key p xs)), s')" and "holds s' (snd (spec_op key p xs))"
    and "same_cells s s'"
proof (cases p)
  case (Op_Insert a)
  then show thesis using ins_spec [OF assms(1-3), of a] assms(4) that by auto
next
  case (Op_Remove a)
  then show thesis using rem_spec [OF assms(1), of a] assms(4) that by auto
qed

lemma run_ops_spec:
  assumes "holds s xs" and "compares cmp key key" and "in_order key xs" and "legal_ops key (dom (t_heap s)) ps xs"
  shows "\<exists>s'. run_ops (ins cmp) rem ps s = (Inr (fst (spec_ops key ps xs)), s') \<and> holds s' (snd (spec_ops key ps xs)) \<and>
    in_order key (snd (spec_ops key ps xs))"
  using assms(1,3,4)
proof (induction ps arbitrary: s xs)
  case (Cons p ps)
  obtain s' where s': "run_op (ins cmp) rem p s = (Inr (fst (spec_op key p xs)), s')" "holds s' (snd (spec_op key p xs))" "same_cells s s'"
    using run_op_spec [OF Cons.prems(1) assms(2) Cons.prems(2), of p] Cons.prems(3) by auto
  have "in_order key (snd (spec_op key p xs))" by (rule in_order_spec [OF Cons.prems(2)])
  with Cons.IH [OF s'(2)] Cons.prems(3) s' show ?case
    by (auto simp: same_cells_def split_beta Let_def)
qed simp

end

subsection \<open>Red-black trees implement the interface\<close>

lemma find_key_None: "find (\<lambda>b. key b = key a) xs = None \<longleftrightarrow> key a \<notin> key ` set xs"
  by (auto simp: find_None_iff image_iff)

lemma inserted_holds:
  assumes s: "s = tree_st (t_heap s) (size t) t" and "a \<in> dom (t_heap s)"
    and t': "dis t'" "I t'" "addr_list t' = insort_key key a (addr_list t)"
  shows "tree_holds I (tree_st (t_heap s) (size t + 1) t') (insort_key key a (addr_list t))"
    and "same_cells s (tree_st (t_heap s) (size t + 1) t')"
proof -
  have "size t' = size t + 1" using size_addr_list [of t'] size_addr_list [of t] unfolding t'(3) by simp
  then show "tree_holds I (tree_st (t_heap s) (size t + 1) t') (insort_key key a (addr_list t))"
    using tree_holds_tree_st [of t' I "t_heap s"] t' by simp
  have "node_addrs t' = insert a (node_addrs t)"
    using set_addr_list [of t'] set_addr_list [of t] unfolding t'(3) by (simp add: set_insort_key)
  then show "same_cells s (tree_st (t_heap s) (size t + 1) t')"
    using tree_st_dom [OF s] assms(2) dom_tree_st [of "t_heap s" "size t + 1" t'] by (auto simp: same_cells_def)
qed

lemma removed_holds:
  assumes s: "s = tree_st (t_heap s) (size t) t" and a: "a \<in> node_addrs t"
    and t': "dis t'" "I t'" "addr_list t' = remove1 a (addr_list t)"
  shows "tree_holds I (tree_st ((t_heap s)(a \<mapsto> m)) (size t - 1) t') (remove1 a (addr_list t))"
    and "same_cells s (tree_st ((t_heap s)(a \<mapsto> m)) (size t - 1) t')"
proof -
  have "a \<in> set (addr_list t)" using a by (simp add: set_addr_list)
  then have "size t' = size t - 1"
    using size_addr_list [of t'] size_addr_list [of t] unfolding t'(3) by (simp add: length_remove1)
  then show "tree_holds I (tree_st ((t_heap s)(a \<mapsto> m)) (size t - 1) t') (remove1 a (addr_list t))"
    using tree_holds_tree_st [of t' I "(t_heap s)(a \<mapsto> m)"] t' by metis
  have "node_addrs t' \<subseteq> node_addrs t"
    using set_addr_list [of t'] set_addr_list [of t] set_remove1_subset [of a "addr_list t"] unfolding t'(3) by simp
  then show "same_cells s (tree_st ((t_heap s)(a \<mapsto> m)) (size t - 1) t')"
    using tree_st_dom [OF s] a dom_tree_st [of "(t_heap s)(a \<mapsto> m)" "size t - 1" t'] by (auto simp: same_cells_def)
qed

text \<open>An insertion that finds the key does nothing; otherwise it goes through \<open>tree_insert_here\<close>.\<close>

lemma insert_cases:
  assumes "tree_holds I s xs" and "compares cmp key key" and "in_order key xs" and "legal_op (dom (t_heap s)) (Op_Insert a) xs"
  obtains (found) b where "find (\<lambda>b. key b = key a) xs = Some b" and "tree_insert_here cmp a None s = (Inr (Some b), s)"
    | (new) t D e where "find (\<lambda>b. key b = key a) xs = None" and "s = tree_st (t_heap s) (size t) t" and "I t"
      and "addr_list t = xs" and "t = plug D Leaf"
      and "dis (plug D (Node Leaf (a, e) Leaf))" and "addr_list (plug D (Node Leaf (a, e) Leaf)) = insort_key key a xs"
      and "tree_insert_here cmp a None s = (Inr None, tree_st (t_heap s) (size t + 1) (plug D (Node Leaf (a, e) Leaf)))"
proof -
  obtain t where s: "s = tree_st (t_heap s) (size t) t" and t: "dis t" "I t" "addr_list t = xs"
    using assms(1) by (rule tree_holdsE)
  show thesis
  proof (cases "find (\<lambda>b. key b = key a) xs")
    case (Some b)
    then show thesis
      using found tree_insert_here_found [OF t(1) order_refl assms(2), of a b "t_heap s"] assms(3) t(3) s by simp
  next
    case None
    obtain m where m: "t_heap s a = Some m" using assms(4) by auto
    have "key a \<notin> key ` node_addrs t" using None t(3) set_addr_list [of t] by (simp add: find_key_None)
    then obtain D where D: "t = plug D Leaf" "dis (plug D (Node Leaf (a, n_extra m) Leaf))"
      "addr_list (plug D (Node Leaf (a, n_extra m) Leaf)) = insort_key key a xs"
      "tree_insert_here cmp a None (tree_st (t_heap s) (size t) t) =
        (Inr None, tree_st (t_heap s) (size t + 1) (plug D (Node Leaf (a, n_extra m) Leaf)))"
      using tree_insert_here_new [where t = t and n = "size t" and cmp = cmp and key = key and a = a and F = "t_heap s" and m = m
          and e = "n_extra m"] assms(2,3) m t by blast
    show thesis using new [OF None s t(2,3) D(1-3)] D(4) s by simp
  qed
qed

subsection \<open>Red-black trees\<close>

lemma rb_insert_holds:
  assumes "tree_holds rbt s xs" and "compares cmp key key" and "in_order key xs" and "legal_op (dom (t_heap s)) (Op_Insert a) xs"
  shows "\<exists>s'. rb_insert cmp a s = (Inr (fst (spec_op key (Op_Insert a) xs)), s') \<and>
    tree_holds rbt s' (snd (spec_op key (Op_Insert a) xs)) \<and> same_cells s s'"
  using assms
proof (cases rule: insert_cases)
  case (found b)
  then show ?thesis using assms(1) by (simp add: rb_insert_def rb_insert_here_def same_cells_def)
next
  case (new t D e)
  let ?S = "tree_st (t_heap s) (size t + 1)"
  have "length D \<le> size t + 1" using size_plug [of D Leaf] by (simp add: new)
  then obtain t' where t': "insert_fixup a (?S (plug D (Node Leaf (a, e) Leaf))) = (Inr None, ?S t')"
    "dis t'" "rbt t'" "addr_list t' = insort_key key a (addr_list t)"
    using insert_fixup_hole [OF new(6)] new by metis
  have "rb_insert cmp a s = (Inr None, ?S t')"
    using new(8) t'(1) by (simp add: rb_insert_def rb_insert_here_def)
  then show ?thesis
    using inserted_holds [where I = rbt, OF new(2) _ t'(2,3,4)] assms(4) new(1,4) by auto
qed

lemma rb_remove_holds:
  assumes "tree_holds rbt s xs" and "a \<in> set xs"
  shows "\<exists>s'. rb_remove (Some a) s = (Inr (), s') \<and> tree_holds rbt s' (remove1 a xs) \<and> same_cells s s'"
proof -
  obtain t where s: "s = tree_st (t_heap s) (size t) t" and t: "dis t" "rbt t" "addr_list t = xs"
    using assms(1) by (rule tree_holdsE)
  have a: "a \<in> node_addrs t" using assms(2) t(3) set_addr_list [of t] by simp
  obtain t' e where t': "rb_remove (Some a) s =
      (Inr (), tree_st ((t_heap s)(a \<mapsto> tn TREE_LEFT None None None e)) (size t - 1) t')" "dis t'" "rbt t'"
    "addr_list t' = remove1 a (addr_list t)"
    using rb_remove_at [OF t(1,2) a refl, of "t_heap s"] s by metis
  show ?thesis using t'(1) removed_holds [where I = rbt, OF s a t'(2,3,4)] t(3) by blast
qed

interpretation rb: ordered_tree "tree_holds rbt" rb_insert rb_remove key for key :: "addr \<Rightarrow> 'k::linorder"
  by unfold_locales (rule rb_insert_holds, assumption+, rule rb_remove_holds)

subsection \<open>Unbalanced trees\<close>

lemma bst_insert_holds:
  assumes "tree_holds (\<lambda>_. True) s xs" and "compares cmp key key" and "in_order key xs" and "legal_op (dom (t_heap s)) (Op_Insert a) xs"
  shows "\<exists>s'. bst_insert cmp a s = (Inr (fst (spec_op key (Op_Insert a) xs)), s') \<and>
    tree_holds (\<lambda>_. True) s' (snd (spec_op key (Op_Insert a) xs)) \<and> same_cells s s'"
  using assms
proof (cases rule: insert_cases)
  case (found b)
  then show ?thesis using assms(1) by (simp add: bst_insert_def bst_insert_here_def same_cells_def)
next
  case (new t D e)
  then show ?thesis
    using inserted_holds [where I = "\<lambda>_. True" and key = key, OF new(2) _ new(6)] assms(4) by (auto simp: bst_insert_def bst_insert_here_def)
qed

lemma bst_remove_holds:
  assumes "tree_holds (\<lambda>_. True) s xs" and "a \<in> set xs"
  shows "\<exists>s'. bst_remove (Some a) s = (Inr (), s') \<and> tree_holds (\<lambda>_. True) s' (remove1 a xs) \<and> same_cells s s'"
proof -
  obtain t where s: "s = tree_st (t_heap s) (size t) t" and t: "dis t" "addr_list t = xs"
    using assms(1) by (rule tree_holdsE)
  have a: "a \<in> node_addrs t" using assms(2) t(2) set_addr_list [of t] by simp
  obtain C d e E where T: "dis (plug C (nd d Leaf (a, e) E))" "addr_list (plug C E) = remove1 a (addr_list t)"
    and run: "tree_remove (Some a) s = (Inr (cpar None C, rootp E), tree_st ((t_heap s)(a \<mapsto> tn TREE_LEFT None None None e)) (size t - 1) (plug C E))"
    using tree_remove_at [OF t(1) a order_refl, of "t_heap s"] s by metis
  have "dis (plug C E)" using T(1) by auto
  then show ?thesis using removed_holds [where I = "\<lambda>_. True", OF s a _ _ T(2)] run t(2) by (auto simp: bst_remove_def)
qed

interpretation bst: ordered_tree "tree_holds (\<lambda>_. True)" bst_insert bst_remove key for key :: "addr \<Rightarrow> 'k::linorder"
  by unfold_locales (rule bst_insert_holds, assumption+, rule bst_remove_holds)

subsection \<open>Searches and walks\<close>

lemma first_of_find: "(\<And>x. x \<in> set ys \<Longrightarrow> P x) \<Longrightarrow> first_of ys = find P ys"
  by (cases ys) (auto simp: first_of_def)

lemma find_skip: "(\<And>x. x \<in> set xs \<Longrightarrow> \<not> P x) \<Longrightarrow> find P (xs @ ys) = find P ys"
  by (induction xs) auto

lemma find_holds:
  assumes "tree_holds I s xs" and cmp: "compares cmp qkey key" and ord: "in_order key xs"
  obtains w where "tree_find cmp q s = (Inr (find (\<lambda>b. key b = qkey q) xs, w), s)"
    and "find (\<lambda>b. key b = qkey q) xs = None \<Longrightarrow> tree_nearest w True s = (Inr (find (\<lambda>b. qkey q < key b) xs), s)"
    and "find (\<lambda>b. key b = qkey q) xs = None \<Longrightarrow> tree_nearest w False s = (Inr (find (\<lambda>b. key b < qkey q) (rev xs)), s)"
proof -
  obtain t where s: "s = tree_st (t_heap s) (size t) t" and t: "dis t" "addr_list t = xs"
    using assms(1) by (rule tree_holdsE)
  obtain D t' where seek: "seek (cmp q) t = (D, t')" by fastforce
  obtain w where w: "tree_find cmp q s = (Inr (rootp t', w), s)" "t' = Leaf \<Longrightarrow> w = \<lparr>c_node = cpar None D, c_dir = cdir D\<rparr>"
    using tree_find_seek [of t "size t" cmp q D t' "t_heap s"] t seek s by auto
  have root: "rootp t' = find (\<lambda>b. key b = qkey q) xs" using seek_found [OF cmp _ seek] ord t(2) by simp
  have near: "tree_nearest w gt s = (Inr (first_of (if gt then cpost D else rev (cpre D))), s)" if "t' = Leaf" for gt
  proof -
    have D: "plug D Leaf = t" using plug_seek [OF seek] that by simp
    then have "dis (plug D Leaf)" and "length D < size t + 1" using t(1) size_plug [of D Leaf] by auto
    then show ?thesis using tree_nearest_at [of D Leaf "size t" gt "t_heap s"] w(2) [OF that] s unfolding D by metis
  qed
  have list: "xs = cpre D @ cpost D" if "t' = Leaf"
    using addr_list_hole [of D Leaf] plug_seek [OF seek] that t(2) by simp
  have ends: "\<forall>x\<in>set (cpre D). key x < qkey q" "\<forall>y\<in>set (cpost D). qkey q < key y" if "t' = Leaf"
    using seek_between [OF cmp] ord t(2) seek that by auto
  show thesis
  proof (rule that [of w])
    show "tree_find cmp q s = (Inr (find (\<lambda>b. key b = qkey q) xs, w), s)" using w(1) root by simp
    assume "find (\<lambda>b. key b = qkey q) xs = None"
    then have leaf: "t' = Leaf" using root by simp
    have "find (\<lambda>b. qkey q < key b) xs = first_of (cpost D)"
      using list [OF leaf] ends [OF leaf] find_skip [of "cpre D" "\<lambda>b. qkey q < key b" "cpost D"] first_of_find [of "cpost D" "\<lambda>b. qkey q < key b"] by (auto simp: less_not_sym)
    then show "tree_nearest w True s = (Inr (find (\<lambda>b. qkey q < key b) xs), s)" using near [OF leaf, of True] by simp
    have "find (\<lambda>b. key b < qkey q) (rev xs) = first_of (rev (cpre D))"
      using list [OF leaf] ends [OF leaf] find_skip [of "rev (cpost D)" "\<lambda>b. key b < qkey q" "rev (cpre D)"] first_of_find [of "rev (cpre D)" "\<lambda>b. key b < qkey q"] by (auto simp: less_not_sym)
    then show "tree_nearest w False s = (Inr (find (\<lambda>b. key b < qkey q) (rev xs)), s)" using near [OF leaf, of False] by simp
  qed
qed

text \<open>A search needs no more steps than the tree is high.\<close>

lemma tree_find_loop_height:
  assumes "dis (plug C t)" and "height t < fuel"
  shows "\<exists>r. tree_find_loop cmp key fuel (rootp t) w (tree_st F n (plug C t)) = (Inr r, tree_st F n (plug C t))"
  using assms
proof (induction t arbitrary: C fuel w)
  case Leaf
  then show ?case by (cases fuel) auto
next
  case (Node l m r)
  obtain f where f: "fuel = Suc f" using Node.prems(2) by (cases fuel) auto
  have at: "t_heap (tree_st F n (plug C (Node l m r))) (fst m) = Some (tn TREE_LEFT (rootp l) (rootp r) (cpar None C) (snd m))"
    using node_at [of C TREE_LEFT l "fst m" "snd m" r F n] Node.prems(1) by simp
  show ?case
    using at Node.IH(1) [of "(TREE_LEFT, fst m, snd m, r) # C" f] Node.IH(2) [of "(TREE_RIGHT, fst m, snd m, l) # C" f] Node.prems
    by (auto simp: f node_ops Let_def Int_commute)
qed

lemma walk_holds:
  assumes "tree_holds I s (xs @ a # ys)"
  shows "tree_next a s = (Inr (first_of ys), s)" and "tree_prev a s = (Inr (first_of (rev xs)), s)"
proof -
  obtain t where s: "s = tree_st (t_heap s) (size t) t" and t: "dis t" "addr_list t = xs @ a # ys"
    using assms by (rule tree_holdsE)
  show "tree_next a s = (Inr (first_of ys), s)" and "tree_prev a s = (Inr (first_of (rev xs)), s)"
    using tree_next_dir_at [OF t(1) order_refl t(2), of True "t_heap s"] tree_next_dir_at [OF t(1) order_refl t(2), of False "t_heap s"] s
    by (simp_all add: tree_next_def tree_prev_def)
qed

lemma ends_hold:
  assumes "tree_holds I s xs"
  shows "tree_first s = (Inr (first_of xs), s)" and "tree_last s = (Inr (first_of (rev xs)), s)"
proof -
  obtain t where s: "s = tree_st (t_heap s) (size t) t" and t: "dis t" "addr_list t = xs"
    using assms by (rule tree_holdsE)
  show "tree_first s = (Inr (first_of xs), s)" and "tree_last s = (Inr (first_of (rev xs)), s)"
    using firstlast_obj_at [OF t(1) order_refl, of "t_heap s"] s t(2) by simp_all
qed

text \<open>\<open>for (pos = tree_first(tree); pos; pos = tree_next(tree, pos))\<close>, the macros \<open>rb_for_each\<close> and \<open>bst_for_each\<close>.\<close>

primrec for_each :: "nat \<Rightarrow> addr option \<Rightarrow> (tree_state, addr list) cfun" where
  "for_each 0 pos = cerr Diverged"
| "for_each (Suc fuel) pos =
     (case pos of
        None \<Rightarrow> cret []
      | Some a \<Rightarrow> andthen (tree_next a) (\<lambda>pos'. andthen (for_each fuel pos') (\<lambda>xs. cret (a # xs))))"

lemma for_each_from:
  assumes "tree_holds I s (xs @ ys)" and "length ys < fuel"
  shows "for_each fuel (first_of ys) s = (Inr ys, s)"
  using assms
proof (induction ys arbitrary: xs fuel)
  case Nil
  then show ?case by (cases fuel) (auto simp: first_of_def)
next
  case (Cons a ys)
  obtain f where f: "fuel = Suc f" using Cons.prems(2) by (cases fuel) auto
  show ?case
    using walk_holds(1) [OF Cons.prems(1)] Cons.IH [of "xs @ [a]" f] Cons.prems by (simp add: f first_of_def [of "a # ys"])
qed

subsection \<open>Properties\<close>

text \<open>A tree for the examples: three nodes in memory, none of them in the tree yet.\<close>

definition sample_tree :: tree_state where
  "sample_tree =
     \<lparr>t_heap = [1 \<mapsto> tn TREE_LEFT None None None 0, 2 \<mapsto> tn TREE_LEFT None None None 0, 3 \<mapsto> tn TREE_LEFT None None None 0],
      t_root = None, t_num = 0\<rparr>"

definition sample_cmp :: "addr \<Rightarrow> addr \<Rightarrow> int" where
  "sample_cmp a b = int a - int b"

lemma sample_compares: "compares sample_cmp id id"
  by (auto simp: compares_def sample_cmp_def)

lemma sample_holds: "I Leaf \<Longrightarrow> tree_holds I sample_tree []"
  unfolding tree_holds_def by (intro exI [of _ Leaf]) (simp add: sample_tree_def)

lemma sample_dom: "dom (t_heap sample_tree) = {1, 2, 3}"
  by (auto simp: sample_tree_def)

lemma rbt_Leaf: "rbt Leaf"
  by (simp add: rbt_def)

text \<open>
  C18. Any sequence of insertions and removals on a red-black tree gives the results and the contents that the
  same sequence gives on a list sorted by key: an insertion answers the object with the same key or puts the new
  one in its place, a removal takes one object out. The tree keeps the colour and height conditions throughout,
  its pointers, parents and node count stay consistent, and no call follows a bad pointer or loops.
\<close>

theorem rb_ops_refine:
  assumes "tree_holds rbt s xs" and "compares cmp key key" and "in_order key xs" and "legal_ops key (dom (t_heap s)) ps xs"
  shows "\<exists>s'. run_ops (rb_insert cmp) rb_remove ps s = (Inr (fst (spec_ops key ps xs)), s') \<and>
    tree_holds rbt s' (snd (spec_ops key ps xs)) \<and> in_order key (snd (spec_ops key ps xs))"
  using assms by (rule rb.run_ops_spec)

theorem rb_ops_refine_witness:
  "\<exists>s'. run_ops (rb_insert sample_cmp) rb_remove [Op_Insert 2, Op_Insert 1, Op_Insert 3, Op_Remove 2] sample_tree =
      (Inr [None, None, None, None], s') \<and> tree_holds rbt s' [1, 3]"
  using rb_ops_refine [of sample_tree "[]" sample_cmp id "[Op_Insert 2, Op_Insert 1, Op_Insert 3, Op_Remove 2]"]
    sample_holds [of rbt, OF rbt_Leaf] sample_compares sample_dom
  by (auto simp: in_order_def Let_def)

text \<open>
  The same for unbalanced search trees, which keep the order but not the balance.
\<close>

theorem bst_ops_refine:
  assumes "tree_holds (\<lambda>_. True) s xs" and "compares cmp key key" and "in_order key xs" and "legal_ops key (dom (t_heap s)) ps xs"
  shows "\<exists>s'. run_ops (bst_insert cmp) bst_remove ps s = (Inr (fst (spec_ops key ps xs)), s') \<and>
    tree_holds (\<lambda>_. True) s' (snd (spec_ops key ps xs)) \<and> in_order key (snd (spec_ops key ps xs))"
  using assms by (rule bst.run_ops_spec)

theorem bst_ops_refine_witness:
  "\<exists>s'. run_ops (bst_insert sample_cmp) bst_remove [Op_Insert 3, Op_Insert 1, Op_Insert 2, Op_Remove 1] sample_tree =
      (Inr [None, None, None, None], s') \<and> tree_holds (\<lambda>_. True) s' [2, 3]"
  using bst_ops_refine [of sample_tree "[]" sample_cmp id "[Op_Insert 3, Op_Insert 1, Op_Insert 2, Op_Remove 1]"]
    sample_holds [of "\<lambda>_. True"] sample_compares sample_dom
  by (auto simp: in_order_def Let_def)

text \<open>
  C19. On an ordered tree, \<open>tree_find\<close> answers the object whose key is the one searched for, or none when there
  is no such object; after a failed search \<open>tree_nearest\<close> gives the object with the next greater or the next
  smaller key.
\<close>

theorem tree_find_nearest:
  assumes "tree_holds I s xs" and "compares cmp qkey key" and "in_order key xs"
  shows "\<exists>w. tree_find cmp q s = (Inr (find (\<lambda>b. key b = qkey q) xs, w), s) \<and>
    (find (\<lambda>b. key b = qkey q) xs = None \<longrightarrow>
      tree_nearest w True s = (Inr (find (\<lambda>b. qkey q < key b) xs), s) \<and>
      tree_nearest w False s = (Inr (find (\<lambda>b. key b < qkey q) (rev xs)), s))"
  using find_holds [OF assms, of q] by metis

lemma sample_two: "tree_holds rbt (tree_st (t_heap sample_tree) 2 (Node Leaf (1, 0) (Node Leaf (3, 1) Leaf))) [1, 3]"
proof -
  have "rbh (Node Leaf (1, 0) (Node Leaf (3, 1) Leaf)) 1" by simp
  then have "rbt (Node Leaf (1, 0) (Node Leaf (3, 1) Leaf))" unfolding rbt_def by (intro conjI exI [of _ 1]) simp_all
  then show ?thesis
    using tree_holds_tree_st [of "Node Leaf (1, 0) (Node Leaf (3, 1) Leaf)" rbt "t_heap sample_tree"]
    by (simp add: addr_list_def eval_nat_numeral)
qed

theorem tree_find_nearest_witness:
  "\<exists>w. tree_find sample_cmp 2 (tree_st (t_heap sample_tree) 2 (Node Leaf (1, 0) (Node Leaf (3, 1) Leaf))) =
      (Inr (None, w), tree_st (t_heap sample_tree) 2 (Node Leaf (1, 0) (Node Leaf (3, 1) Leaf))) \<and>
    fst (tree_nearest w True (tree_st (t_heap sample_tree) 2 (Node Leaf (1, 0) (Node Leaf (3, 1) Leaf)))) = Inr (Some 3) \<and>
    fst (tree_nearest w False (tree_st (t_heap sample_tree) 2 (Node Leaf (1, 0) (Node Leaf (3, 1) Leaf)))) = Inr (Some 1)"
  using tree_find_nearest [OF sample_two sample_compares, of 2] by (auto simp: in_order_def)

text \<open>
  C20. Walking over a tree with \<open>tree_first\<close> and \<open>tree_next\<close> visits every object exactly once, in order, and ends;
  \<open>tree_prev\<close> goes back to the object before.
\<close>

theorem tree_walk:
  assumes "tree_holds I s xs" and "length xs < fuel"
  shows "andthen tree_first (for_each fuel) s = (Inr xs, s) \<and>
    (\<forall>us a b vs. xs = us @ a # b # vs \<longrightarrow> tree_next a s = (Inr (Some b), s) \<and> tree_prev b s = (Inr (Some a), s))"
proof (intro conjI allI impI)
  show "andthen tree_first (for_each fuel) s = (Inr xs, s)"
    using ends_hold(1) [OF assms(1)] for_each_from [of I s "[]" xs fuel] assms by simp
next
  fix us a b vs
  assume xs: "xs = us @ a # b # vs"
  show "tree_next a s = (Inr (Some b), s)" using walk_holds(1) [of I s us a "b # vs"] assms(1) xs by (simp add: first_of_def)
  show "tree_prev b s = (Inr (Some a), s)" using walk_holds(2) [of I s "us @ [a]" b vs] assms(1) xs by (simp add: first_of_def)
qed

theorem tree_walk_witness:
  "andthen tree_first (for_each 5) (tree_st (t_heap sample_tree) 2 (Node Leaf (1, 0) (Node Leaf (3, 1) Leaf))) =
    (Inr [1, 3], tree_st (t_heap sample_tree) 2 (Node Leaf (1, 0) (Node Leaf (3, 1) Leaf)))"
  using tree_walk [OF sample_two, of 5] by simp

text \<open>
  C21. In a red-black tree of \<open>n\<close> objects a search, for whatever key and comparison function, ends within \<open>2 m\<close>
  iterations for every \<open>m\<close> with \<open>n + 1 < 2^m\<close>.
\<close>

theorem rb_find_logarithmic:
  assumes "tree_holds rbt s xs" and "length xs + 1 < 2 ^ m"
  shows "\<exists>r. tree_find_loop cmp key (2 * m) (t_root s) w s = (Inr r, s)"
proof -
  obtain t where s: "s = tree_st (t_heap s) (size t) t" and t: "dis t" "rbt t" "addr_list t = xs"
    using assms(1) by (rule tree_holdsE)
  have "2 ^ (height t div 2) \<le> length xs + 1" using rbt_height [OF t(2)] size_addr_list [of t] t(3) by simp
  then have "(2::nat) ^ (height t div 2) < 2 ^ m" using assms(2) by (rule le_less_trans)
  then have "height t div 2 < m" by simp
  then have "height t < 2 * m" by simp
  then show ?thesis
    using tree_find_loop_height [of "[]" t "2 * m" cmp key w "t_heap s" "size t"] t(1) s tree_st_sel(1) by (metis plug.simps(1))
qed

theorem rb_find_logarithmic_witness:
  "\<exists>r. tree_find_loop sample_cmp 2 4 (Some 1) \<lparr>c_node = None, c_dir = TREE_LEFT\<rparr>
      (tree_st (t_heap sample_tree) 2 (Node Leaf (1, 0) (Node Leaf (3, 1) Leaf))) =
    (Inr r, tree_st (t_heap sample_tree) 2 (Node Leaf (1, 0) (Node Leaf (3, 1) Leaf)))"
  using rb_find_logarithmic [OF sample_two, of 2 sample_cmp 2 "\<lparr>c_node = None, c_dir = TREE_LEFT\<rparr>"] by simp

end
