(* ===== verification/Nvl_Tree.thy ===== *)
theory Nvl_Tree
  imports Nvl Tree_Ordered
begin

text \<open>
  Name-value lists keep their pairs in a red-black tree ordered by name (\<^verbatim>\<open>src/val_nvl.c\<close>, \<^verbatim>\<open>src/nvl.c\<close>). The theory
  \<open>Nvl\<close> works with the sequence of pairs; here its three operations on sequences are shown to be what searching,
  inserting and removing do to the tree. The pair that an address holds is given by \<open>obj\<close>.
\<close>

definition pair_name :: "(addr \<Rightarrow> bytes \<times> val) \<Rightarrow> addr \<Rightarrow> bytes" where
  "pair_name obj a = fst (obj a)"

text \<open>The comparison function of the tree, on two pairs, and on a name and a pair.\<close>

definition nvl_cmp :: "(addr \<Rightarrow> bytes \<times> val) \<Rightarrow> addr \<Rightarrow> addr \<Rightarrow> int" where
  "nvl_cmp obj a b = strcmp (pair_name obj a) (pair_name obj b)"

definition name_cmp :: "(addr \<Rightarrow> bytes \<times> val) \<Rightarrow> bytes \<Rightarrow> addr \<Rightarrow> int" where
  "name_cmp obj name b = strcmp name (pair_name obj b)"

lemma nvl_compares: "compares (nvl_cmp obj) (pair_name obj) (pair_name obj)"
  by (simp add: compares_def nvl_cmp_def strcmp_less strcmp_eq)

lemma name_compares: "compares (name_cmp obj) (\<lambda>name. name) (pair_name obj)"
  by (simp add: compares_def name_cmp_def strcmp_less strcmp_eq)

lemma in_order_nv_sorted: "in_order (pair_name obj) xs \<longleftrightarrow> nv_sorted (map obj xs)"
  by (simp add: in_order_def nv_sorted_def pair_name_def [abs_def] comp_def)

lemma find_map: "map_option f (find (P \<circ> f) xs) = find P (map f xs)"
  by (induction xs) auto

lemma pairs_find_objs: "pairs_find name (map obj xs) = map_option obj (find (\<lambda>b. pair_name obj b = name) xs)"
proof -
  have "(\<lambda>p. strcmp name (fst p) = 0) \<circ> obj = (\<lambda>b. pair_name obj b = name)"
    by (auto simp: strcmp_eq pair_name_def)
  then show ?thesis unfolding pairs_find_def by (metis find_map)
qed

lemma pairs_add_objs:
  assumes "pair_name obj a \<notin> pair_name obj ` set xs"
  shows "pairs_add (obj a) (map obj xs) = map obj (insort_key (pair_name obj) a xs)"
  using assms by (induction xs) (auto simp: strcmp_less pair_name_def)

lemma pairs_remove_objs:
  assumes "in_order (pair_name obj) xs" and "a \<in> set xs"
  shows "pairs_remove (pair_name obj a) (map obj xs) = map obj (remove1 a xs)"
  using assms
proof (induction xs)
  case (Cons x xs)
  have ord: "in_order (pair_name obj) xs" "\<And>y. y \<in> set xs \<Longrightarrow> pair_name obj x < pair_name obj y"
    using Cons.prems(1) by (auto simp: in_order_def)
  show ?case
  proof (cases "x = a")
    case True
    have "filter (\<lambda>p. strcmp (pair_name obj a) (fst p) \<noteq> 0) (map obj xs) = map obj xs"
      unfolding filter_id_conv
    proof (intro ballI)
      fix p
      assume "p \<in> set (map obj xs)"
      then obtain y where "y \<in> set xs" "p = obj y" by auto
      then show "strcmp (pair_name obj a) (fst p) \<noteq> 0" using ord(2) [of y] True by (simp add: strcmp_eq pair_name_def)
    qed
    then show ?thesis using True by (simp add: pairs_remove_def strcmp_eq pair_name_def)
  next
    case False
    then have "a \<in> set xs" using Cons.prems(2) by simp
    then have "pair_name obj a \<noteq> pair_name obj x" using ord(2) [of a] by auto
    then show ?thesis
      using False Cons.IH [OF ord(1) \<open>a \<in> set xs\<close>] by (simp add: pairs_remove_def strcmp_eq pair_name_def)
  qed
qed simp

text \<open>
  C22. For the pairs of a name-value list in a red-black tree, searching by name gives what \<open>pairs_find\<close> gives on
  the sequence of pairs; adding a pair whose name is not there turns the sequence into \<open>pairs_add\<close> of it, and
  removing a pair into \<open>pairs_remove\<close> of it.
\<close>

theorem nvl_tree_sequence:
  assumes holds: "tree_holds rbt s xs" and sorted: "nv_sorted (map obj xs)"
  shows "(\<exists>a w. tree_find (name_cmp obj) name s = (Inr (a, w), s) \<and> map_option obj a = pairs_find name (map obj xs)) \<and>
    (\<forall>a. a \<notin> set xs \<longrightarrow> t_heap s a \<noteq> None \<longrightarrow> pairs_find (fst (obj a)) (map obj xs) = None \<longrightarrow>
      (\<exists>s' xs'. rb_add (nvl_cmp obj) a s = (Inr (), s') \<and> tree_holds rbt s' xs' \<and> map obj xs' = pairs_add (obj a) (map obj xs))) \<and>
    (\<forall>a \<in> set xs. \<exists>s' xs'. rb_remove (Some a) s = (Inr (), s') \<and> tree_holds rbt s' xs' \<and>
      map obj xs' = pairs_remove (fst (obj a)) (map obj xs))"
proof (intro conjI allI impI ballI)
  have ord: "in_order (pair_name obj) xs" using sorted by (simp add: in_order_nv_sorted)
  show "\<exists>a w. tree_find (name_cmp obj) name s = (Inr (a, w), s) \<and> map_option obj a = pairs_find name (map obj xs)"
    using find_holds [OF holds name_compares ord, of name] pairs_find_objs [of name obj xs] by metis
  fix a
  show "\<exists>s' xs'. rb_add (nvl_cmp obj) a s = (Inr (), s') \<and> tree_holds rbt s' xs' \<and> map obj xs' = pairs_add (obj a) (map obj xs)"
    if "a \<notin> set xs" "t_heap s a \<noteq> None" "pairs_find (fst (obj a)) (map obj xs) = None"
  proof -
    have none: "find (\<lambda>b. pair_name obj b = pair_name obj a) xs = None"
      using that(3) by (simp add: pairs_find_objs pair_name_def)
    then have "pair_name obj a \<notin> pair_name obj ` set xs" by (simp add: find_key_None)
    then have add: "pairs_add (obj a) (map obj xs) = map obj (insort_key (pair_name obj) a xs)" by (rule pairs_add_objs)
    have "legal_op (dom (t_heap s)) (Op_Insert a) xs" using that(1,2) by auto
    then obtain s' where s': "rb_insert (nvl_cmp obj) a s = (Inr None, s')" "tree_holds rbt s' (insort_key (pair_name obj) a xs)"
      using rb_insert_holds [OF holds nvl_compares ord, of a] none by auto
    have "rb_add (nvl_cmp obj) a s = (Inr (), s')" using s'(1) by (simp add: rb_add_def)
    then show ?thesis using s'(2) add by metis
  qed
  show "\<exists>s' xs'. rb_remove (Some a) s = (Inr (), s') \<and> tree_holds rbt s' xs' \<and>
      map obj xs' = pairs_remove (fst (obj a)) (map obj xs)" if "a \<in> set xs"
    using rb_remove_holds [OF holds that] pairs_remove_objs [OF ord that] unfolding pair_name_def by metis
qed

theorem nvl_tree_sequence_witness:
  "\<exists>s' xs'. rb_add (nvl_cmp (\<lambda>a. ([of_nat a], VNull))) 1 sample_tree = (Inr (), s') \<and> tree_holds rbt s' xs' \<and>
    map (\<lambda>a. ([of_nat a], VNull)) xs' = pairs_add ([1], VNull) []"
proof -
  let ?obj = "\<lambda>a. ([of_nat a], VNull)"
  have "t_heap sample_tree 1 \<noteq> None" by (simp add: sample_tree_def)
  then show ?thesis
    using conjunct1 [OF conjunct2 [OF nvl_tree_sequence [OF sample_holds [of rbt, OF rbt_Leaf], of ?obj]], rule_format, of 1]
    by (simp add: nv_sorted_def pairs_find_def)
qed

end
