(* ===== verification/Tree_Destroy.thy ===== *)
theory Tree_Destroy
  imports Tree_Ordered
begin

text \<open>
  Taking a tree apart: \<open>tree_destroy_nodes\<close> of \<^verbatim>\<open>src/tree.c\<close> hands out the nodes one by one, and its caller frees
  each of them before it asks for the next one, as \<open>__val_free_nvl\<close> of \<^verbatim>\<open>src/val_nvl.c\<close> does. No node that has been
  freed is touched again.
\<close>

subsection \<open>The loop of the caller\<close>

text \<open>A freed node is not in the heap any more; freeing it again is a fault.\<close>

definition free_node :: "addr \<Rightarrow> (tree_state, unit) cfun" where
  "free_node a s =
     (case t_heap s a of None \<Rightarrow> (Inl Fault, s) | Some _ \<Rightarrow> (Inr (), s\<lparr>t_heap := (t_heap s)(a := None)\<rparr>))"

primrec free_nodes :: "nat \<Rightarrow> tree_cookie \<Rightarrow> (tree_state, addr list) cfun" where
  "free_nodes 0 cookie = cerr Diverged"
| "free_nodes (Suc fuel) cookie =
     andthen (tree_destroy_nodes cookie) (\<lambda>(cur, cookie').
       case cur of
         None \<Rightarrow> cret []
       | Some a \<Rightarrow> andthen (free_node a) (\<lambda>_. andthen (free_nodes fuel cookie') (\<lambda>xs. cret (a # xs))))"

subsection \<open>A tree that is partly gone\<close>

definition post :: "ptree \<Rightarrow> addr list" where
  "post t = map fst (postorder t)"

lemma post_simps [simp]: "post Leaf = []" "post (Node l n r) = post l @ post r @ [fst n]"
  by (simp_all add: post_def)

lemma set_post: "set (post t) = node_addrs t"
  by (induction t) auto

lemma distinct_post: "distinct (post t) \<longleftrightarrow> dis t"
  by (induction t) (auto simp: set_post)

lemma length_post: "length (post t) = size t"
  by (simp add: post_def)

text \<open>
  The path up from a node that has been handed out. The subtree to the left of the path is gone; only the pointer
  to it is left. The nodes that remain are the ones on the path and the subtrees to the right of it.
\<close>

fun prep :: "(addr \<rightharpoonup> tree_node) \<Rightarrow> frame list \<Rightarrow> addr option \<Rightarrow> bool" where
  "prep h [] r \<longleftrightarrow> True"
| "prep h ((d, a, c, y) # C) r \<longleftrightarrow>
     h a = Some (tn d r (rootp y) (cpar None C) c) \<and> rootp y \<noteq> r \<and> (d = TREE_LEFT \<longrightarrow> rep h (Some a) y) \<and> prep h C (Some a)"

fun rest :: "frame list \<Rightarrow> addr list" where
  "rest [] = []"
| "rest ((d, a, c, y) # C) = (if d = TREE_LEFT then post y else []) @ a # rest C"

definition cookie_at :: "frame list \<Rightarrow> tree_cookie \<Rightarrow> bool" where
  "cookie_at C ck \<longleftrightarrow>
     (case C of [] \<Rightarrow> c_node ck = DESTROY_NODES_DONE | (d, a, _) # _ \<Rightarrow> c_node ck = Some a \<and> c_dir ck = opp d)"

lemma prep_upd: "a \<notin> set (rest C) \<Longrightarrow> prep (h(a := v)) C r \<longleftrightarrow> prep h C r"
proof (induction h C r rule: prep.induct)
  case (2 h d b c y C r)
  have "rep (h(a := v)) p y \<longleftrightarrow> rep h p y" if "a \<notin> node_addrs y" for p
    by (rule rep_cong) (use that in auto)
  moreover have "a \<noteq> b" "a \<notin> set (rest C)" "d = TREE_LEFT \<longrightarrow> a \<notin> node_addrs y"
    using 2 by (simp_all add: set_post split: if_splits)
  ultimately show ?case using "2.IH" by (simp del: fun_upd_apply) (simp cong: conj_cong)
qed simp

lemma rest_append: "rest (C @ D) = rest C @ rest D"
  by (induction C rule: rest.induct) auto

text \<open>Down to the node that is handed out first: left where there is something to the left, else right.\<close>

definition slide :: "frame list \<Rightarrow> bool" where
  "slide D \<longleftrightarrow> (\<forall>(d, a, c, y) \<in> set D. d = TREE_RIGHT \<longrightarrow> y = Leaf)"

lemma post_slide: "slide D \<Longrightarrow> post (plug D (Node Leaf (b, e) Leaf)) = b # rest D"
proof (induction D rule: rev_induct)
  case (snoc f D)
  obtain d a c y where f: "f = (d, a, c, y)" by (cases f)
  have "post (plug D (Node Leaf (b, e) Leaf)) = b # rest D" using snoc by (auto simp: slide_def)
  then show ?case using snoc.prems by (cases d) (auto simp: f plug_append rest_append slide_def)
qed (simp add: slide_def)

lemma prep_rep:
  assumes "prep h C (rootp (plug D t))" and "rep h (cpar None C) (plug D t)" and "dis (plug D t)" and "t \<noteq> Leaf"
  shows "prep h (D @ C) (rootp t)"
  using assms
proof (induction D arbitrary: t)
  case (Cons f D)
  obtain d a c y where f: "f = (d, a, c, y)" by (cases f)
  have "prep h (D @ C) (rootp (nd d t (a, c) y))"
    by (rule Cons.IH) (use Cons.prems in \<open>simp_all add: f\<close>)
  moreover have "rootp y \<noteq> rootp t"
    using Cons.prems(3,4) rootp_in_node_addrs [of y] rootp_in_node_addrs [of t] by (cases "rootp t") (fastforce simp: f)+
  ultimately show ?case using Cons.prems(2) by (auto simp: f)
qed simp


subsection \<open>One step\<close>

lemma firstlast_loop_rep:
  assumes "rep (t_heap s) p (plug D (Node Leaf (b, e) E))" and "\<And>f. f \<in> set D \<Longrightarrow> fst f = TREE_LEFT" and "length D < fuel"
  shows "firstlast_loop fuel (rootp (plug D (Node Leaf (b, e) E))) TREE_LEFT s = (Inr (Some b), s)"
  using assms
proof (induction D arbitrary: p fuel rule: rev_induct)
  case Nil
  then show ?case by (cases fuel) (simp_all add: node_ops)
next
  case (snoc f D)
  obtain g cg y where f: "f = (TREE_LEFT, g, cg, y)" using snoc.prems(2) [of f] by (cases f) auto
  obtain fuel' where fuel: "fuel = Suc fuel'" using snoc.prems(3) by (cases fuel) auto
  let ?t = "plug D (Node Leaf (b, e) E)"
  have "firstlast_loop fuel' (rootp ?t) TREE_LEFT s = (Inr (Some b), s)"
    by (rule snoc.IH [of "Some g"]) (use snoc.prems fuel in \<open>simp_all add: f plug_append\<close>)
  moreover have "rootp ?t \<noteq> None" by (cases D) auto
  ultimately show ?case using snoc.prems(1) by (simp add: f fuel plug_append node_ops)
qed

lemma destroy_step_loop_at:
  assumes "rep (t_heap s) p t" and "t \<noteq> Leaf" and "size t \<le> fuel" and "size t \<le> t_num s"
  shows "\<exists>D b e. t = plug D (Node Leaf (b, e) Leaf) \<and> slide D \<and>
    destroy_step_loop fuel (rootp t) ck s = andthen (destroy_nodes_save_parent (Some b) ck) (\<lambda>ck'. cret (Some b, ck')) s"
  using assms
proof (induction fuel arbitrary: t p)
  case (Suc fuel)
  obtain D b e E where t: "t = plug D (Node Leaf (b, e) E)" and D: "\<And>f. f \<in> set D \<Longrightarrow> fst f = TREE_LEFT"
    using leftmost [OF Suc.prems(2)] by metis
  have sz: "length D + size E < size t" using size_plug [of D "Node Leaf (b, e) E"] t by simp
  have first: "firstlast (rootp t) TREE_LEFT s = (Inr (Some b), s)"
    unfolding firstlast_def t using firstlast_loop_rep [of s p D b e E "t_num s + 1"] Suc.prems(1,4) D sz
    by (simp add: get_num_run t)
  have child: "get_child (Some b) TREE_RIGHT s = (Inr (rootp E), s)" using Suc.prems(1) by (simp add: t node_ops)
  show ?case
  proof (cases "E = Leaf")
    case True
    have "slide D" using D by (fastforce simp: slide_def)
    then show ?thesis using True first child by (intro exI [of _ D] exI [of _ b] exI [of _ e]) (simp add: t cret_def [abs_def])
  next
    case False
    have "rep (t_heap s) (Some b) E" using Suc.prems(1) by (simp add: t)
    note IH = Suc.IH [OF this False]
    have "size E \<le> fuel" "size E \<le> t_num s" using Suc.prems(3,4) sz by linarith+
    from IH [OF this] obtain D' b' e' where E: "E = plug D' (Node Leaf (b', e') Leaf)" "slide D'"
      "destroy_step_loop fuel (rootp E) ck s = andthen (destroy_nodes_save_parent (Some b') ck) (\<lambda>ck'. cret (Some b', ck')) s"
      by blast
    have "slide (D' @ (TREE_RIGHT, b, e, Leaf) # D)" using E(2) D by (fastforce simp: slide_def)
    moreover have "t = plug (D' @ (TREE_RIGHT, b, e, Leaf) # D) (Node Leaf (b', e') Leaf)"
      using E(1) by (simp add: t plug_append)
    moreover have "destroy_step_loop (Suc fuel) (rootp t) ck s = destroy_step_loop fuel (rootp E) ck s"
      using first child False by simp
    ultimately show ?thesis using E(3) by metis
  qed
qed (use eq_size_0 in fastforce)

lemma croot_rest: "croot C (Some g) = Some a \<Longrightarrow> a = g \<or> a \<in> set (rest C)"
  by (induction C "Some g" arbitrary: g rule: croot.induct) auto

lemma save_parent_at:
  assumes "t_heap s b = Some m" and "n_parent m = cpar None C" and "prep (t_heap s) C (Some b)"
    and "t_root s = croot C (Some b)" and "b \<notin> set (rest C)"
  shows "\<exists>ck'. destroy_nodes_save_parent (Some b) ck s = (Inr ck', s) \<and> cookie_at C ck'"
proof (cases C)
  case Nil
  then show ?thesis using assms by (simp add: destroy_nodes_save_parent_def get_root_run cookie_at_def)
next
  case (Cons f C')
  obtain d a c y where f: "f = (d, a, c, y)" by (cases f)
  have "t_root s \<noteq> Some b" using croot_rest [of C' a b] assms(4,5) by (auto simp: Cons f)
  moreover have "which_dir (Some a) (Some b) s = (Inr d, s)"
    using assms(3) by (intro which_dir_frame) (auto simp: Cons f)
  ultimately show ?thesis
    using assms by (simp add: destroy_nodes_save_parent_def get_root_run get_parent_Some cookie_at_def Cons f)
qed

text \<open>
  The state after \<open>b\<close> was handed out and freed: the path above it, and the invariant that makes the next step
  possible.
\<close>

definition parted :: "tree_state \<Rightarrow> frame list \<Rightarrow> addr \<Rightarrow> bool" where
  "parted s C b \<longleftrightarrow> prep (t_heap s) C (Some b) \<and> t_root s = croot C (Some b) \<and> distinct (rest C) \<and>
     length (rest C) \<le> t_num s \<and> (\<forall>a \<in> set (rest C). Some a \<noteq> DESTROY_NODES_DONE)"

lemma parted_free:
  assumes "parted s C b" and "b \<notin> set (rest C)"
  shows "parted (s\<lparr>t_heap := (t_heap s)(b := None)\<rparr>) C b"
  using assms by (simp add: parted_def prep_upd del: fun_upd_apply)

lemma parted_up:
  assumes "parted s ((d, a, c, y) # C) b"
  shows "parted s C a" and "a \<notin> set (rest C)"
  using assms by (auto simp: parted_def)

lemma hand_out:
  assumes "parted s C b" and "b \<notin> set (rest C)" and "t_heap s b = Some m" and "n_parent m = cpar None C"
  shows "\<exists>ck'. destroy_nodes_save_parent (Some b) ck s = (Inr ck', s) \<and> cookie_at C ck'"
  using save_parent_at [of s b m C ck] assms by (simp add: parted_def)

text \<open>Into a subtree that is still complete.\<close>

lemma step_into:
  assumes prep: "prep (t_heap s) C (rootp y)" and rep: "rep (t_heap s) (cpar None C) y" and y: "y \<noteq> Leaf"
    and root: "t_root s = croot C (rootp y)" and dist: "distinct (post y @ rest C)"
    and num: "length (post y @ rest C) \<le> t_num s"
    and nodone: "\<forall>a \<in> set (post y @ rest C). Some a \<noteq> DESTROY_NODES_DONE"
  shows "\<exists>C' b ck' m. destroy_nodes_step (rootp y) ck s = (Inr (Some b, ck'), s) \<and> cookie_at C' ck' \<and> parted s C' b \<and>
    t_heap s b = Some m \<and> post y @ rest C = b # rest C'"
proof -
  have sz: "size y \<le> t_num s" using num by (simp add: length_post)
  obtain D b e where D: "y = plug D (Node Leaf (b, e) Leaf)" "slide D"
    "destroy_step_loop (t_num s + 1) (rootp y) ck s = andthen (destroy_nodes_save_parent (Some b) ck) (\<lambda>ck'. cret (Some b, ck')) s"
    using destroy_step_loop_at [OF rep y, of "t_num s + 1" ck] sz by auto
  have list: "post y @ rest C = b # rest (D @ C)" using post_slide [OF D(2), of b e] by (simp add: D(1) rest_append)
  have "prep (t_heap s) (D @ C) (Some b)"
    using prep_rep [of "t_heap s" C D "Node Leaf (b, e) Leaf"] prep rep dist by (simp add: D(1) distinct_post)
  then have parted: "parted s (D @ C) b" using root dist num nodone unfolding parted_def list by (simp add: D(1))
  have node: "t_heap s b = Some (tn TREE_LEFT None None (cpar None (D @ C)) e)" using rep by (simp add: D(1))
  have "b \<notin> set (rest (D @ C))" using dist unfolding list by simp
  then obtain ck' where ck': "destroy_nodes_save_parent (Some b) ck s = (Inr ck', s)" "cookie_at (D @ C) ck'"
    using hand_out [OF parted _ node, of ck] by auto
  have "destroy_nodes_step (rootp y) ck s = (Inr (Some b, ck'), s)"
    using D(3) ck'(1) y by (simp add: destroy_nodes_step_def get_num_run)
  then show ?thesis using ck'(2) parted node list by blast
qed


subsection \<open>The whole loop\<close>

definition without :: "addr list \<Rightarrow> (addr \<rightharpoonup> tree_node) \<Rightarrow> (addr \<rightharpoonup> tree_node)" where
  "without xs h = (\<lambda>a. if a \<in> set xs then None else h a)"

lemma without_Cons: "without (a # xs) h = without xs (h(a := None))"
  by (auto simp: without_def)

lemma without_Nil [simp]: "without [] h = h"
  by (simp add: without_def)

text \<open>The next node: the one on the path, or the first one of the subtree to its right.\<close>

lemma destroy_next:
  assumes parted: "parted s ((d, a, c, y) # C) b" and ck: "cookie_at ((d, a, c, y) # C) ck"
  shows "\<exists>C' b' ck' m. tree_destroy_nodes ck s = (Inr (Some b', ck'), s) \<and> cookie_at C' ck' \<and> parted s C' b' \<and>
    t_heap s b' = Some m \<and> rest ((d, a, c, y) # C) = b' # rest C'"
proof -
  have node: "t_heap s a = Some (tn d (Some b) (rootp y) (cpar None C) c)" using parted by (simp add: parted_def)
  obtain r where root: "t_root s = Some r" using parted by (cases "t_root s") (auto simp: parted_def)
  have ck': "c_node ck = Some a" "c_dir ck = opp d" "Some a \<noteq> DESTROY_NODES_DONE"
    using ck parted by (auto simp: cookie_at_def parted_def)
  show ?thesis
  proof (cases "d = TREE_LEFT \<and> y \<noteq> Leaf")
    case True
    let ?C = "(TREE_RIGHT, a, c, Node Leaf (b, 0) Leaf) # C"
    have flip: "tn TREE_RIGHT (rootp y) (Some b) p c = tn TREE_LEFT (Some b) (rootp y) p c" for p
      using tn_opp [of TREE_LEFT "rootp y" "Some b" p c] by simp
    have "tree_destroy_nodes ck s = destroy_nodes_step (rootp y) ck s"
      using root ck' node True by (simp add: tree_destroy_nodes_def get_root_run get_child_Some DESTROY_NODES_DONE_def)
    moreover have "prep (t_heap s) ?C (rootp y)" using parted True by (auto simp: parted_def flip)
    then have "\<exists>C' b' ck' m. destroy_nodes_step (rootp y) ck s = (Inr (Some b', ck'), s) \<and> cookie_at C' ck' \<and>
        parted s C' b' \<and> t_heap s b' = Some m \<and> post y @ rest ?C = b' # rest C'"
      by (rule step_into) (use parted True in \<open>auto simp: parted_def\<close>)
    ultimately show ?thesis using True by simp
  next
    case False
    obtain ck2 where "destroy_nodes_save_parent (Some a) ck s = (Inr ck2, s)" "cookie_at C ck2"
      using hand_out [OF parted_up [OF parted] node, of ck] by auto
    then have "tree_destroy_nodes ck s = (Inr (Some a, ck2), s)"
      using root ck' node False
      by (cases d) (simp_all add: tree_destroy_nodes_def get_root_run get_child_Some DESTROY_NODES_DONE_def)
    then show ?thesis using \<open>cookie_at C ck2\<close> parted_up(1) [OF parted] node False by auto
  qed
qed

text \<open>The cell of the caller between two calls.\<close>

lemma free_nodes_from:
  assumes "parted s C b" and "cookie_at C ck" and "length (rest C) < fuel"
  shows "free_nodes fuel ck s = (Inr (rest C), \<lparr>t_heap = without (rest C) (t_heap s), t_root = None, t_num = 0\<rparr>)"
  using assms
proof (induction fuel arbitrary: s C b ck)
  case (Suc fuel)
  show ?case
  proof (cases C)
    case Nil
    then show ?thesis
      using Suc.prems by (simp add: tree_destroy_nodes_def get_root_run set_root_run set_num_run parted_def cookie_at_def)
  next
    case (Cons f C0)
    obtain d a c y where f: "f = (d, a, c, y)" by (cases f)
    obtain C' b' ck' m where run: "tree_destroy_nodes ck s = (Inr (Some b', ck'), s)" "cookie_at C' ck'" "parted s C' b'"
      "t_heap s b' = Some m" "rest C = b' # rest C'"
      using destroy_next [of s d a c y C0 b ck] Suc.prems by (auto simp: Cons f)
    have "b' \<notin> set (rest C')" using Suc.prems(1) run(5) by (simp add: parted_def)
    then have "parted (s\<lparr>t_heap := (t_heap s)(b' := None)\<rparr>) C' b'" by (rule parted_free [OF run(3)])
    then have "free_nodes fuel ck' (s\<lparr>t_heap := (t_heap s)(b' := None)\<rparr>) =
        (Inr (rest C'), \<lparr>t_heap = without (rest C') ((t_heap s)(b' := None)), t_root = None, t_num = 0\<rparr>)"
      using Suc.IH [OF _ run(2)] Suc.prems(3) run(5) by simp
    then show ?thesis using run by (simp add: free_node_def without_Cons)
  qed
qed simp

text \<open>
  C23. Freeing all nodes of a tree, one call of \<open>tree_destroy_nodes\<close> at a time, starting from a cleared cookie: every
  node is handed out exactly once, in post-order, no node is used after it was freed, nothing else in the heap changes,
  and the tree is left empty. (No node has the address that marks the end.)
\<close>

theorem destroy_frees_each_once:
  assumes "tree_holds I s xs" and "length xs < fuel" and "\<forall>a \<in> set xs. a < 2 ^ 64 - 1"
  shows "\<exists>ys. free_nodes fuel \<lparr>c_node = None, c_dir = d\<rparr> s =
      (Inr ys, \<lparr>t_heap = (\<lambda>a. if a \<in> set xs then None else t_heap s a), t_root = None, t_num = 0\<rparr>) \<and>
    distinct ys \<and> set ys = set xs"
proof -
  obtain t where t: "rep (t_heap s) None t" "t_root s = rootp t" "t_num s = size t" "dis t" "addr_list t = xs"
    using assms(1) by (auto simp: tree_holds_def)
  have set: "set (post t) = set xs" using set_addr_list [of t] by (simp add: set_post t(5))
  have len: "length (post t) < fuel" using assms(2) by (simp add: length_post t(5) [symmetric] addr_list_def)
  obtain fuel' where fuel: "fuel = Suc fuel'" using assms(2) by (cases fuel) auto
  let ?ck = "\<lparr>c_node = None, c_dir = d\<rparr>"
  have "free_nodes fuel ?ck s = (Inr (post t), \<lparr>t_heap = without (post t) (t_heap s), t_root = None, t_num = 0\<rparr>)"
  proof (cases "t = Leaf")
    case True
    then show ?thesis using t(2,3) by (cases s) (simp add: fuel tree_destroy_nodes_def get_root_run)
  next
    case False
    have step: "tree_destroy_nodes ?ck s = destroy_nodes_step (rootp t) ?ck s"
      using False t(2) by (simp add: tree_destroy_nodes_def get_root_run DESTROY_NODES_DONE_def)
    have "\<forall>a \<in> set (post t @ rest []). Some a \<noteq> DESTROY_NODES_DONE"
      using assms(3) by (auto simp: set DESTROY_NODES_DONE_def)
    then obtain C' b' ck' m where run: "tree_destroy_nodes ?ck s = (Inr (Some b', ck'), s)" "cookie_at C' ck'" "parted s C' b'"
      "t_heap s b' = Some m" "post t = b' # rest C'"
      using step_into [of s "[]" t ?ck] False t unfolding step by (auto simp: distinct_post length_post)
    have "distinct (b' # rest C')" using t(4) run(5) distinct_post [of t] by simp
    then have "parted (s\<lparr>t_heap := (t_heap s)(b' := None)\<rparr>) C' b'" by (intro parted_free [OF run(3)]) simp
    then have "free_nodes fuel' ck' (s\<lparr>t_heap := (t_heap s)(b' := None)\<rparr>) =
        (Inr (rest C'), \<lparr>t_heap = without (rest C') ((t_heap s)(b' := None)), t_root = None, t_num = 0\<rparr>)"
      using free_nodes_from [OF _ run(2), of _ b' fuel'] len run(5) fuel by simp
    then show ?thesis using run by (simp add: fuel free_node_def without_Cons)
  qed
  then show ?thesis using t(4) by (intro exI [of _ "post t"]) (simp add: distinct_post set without_def)
qed

definition two_nodes :: tree_state where
  "two_nodes = \<lparr>t_heap = [1 \<mapsto> tn TREE_LEFT None (Some 2) None 0, 2 \<mapsto> tn TREE_LEFT None None (Some 1) 1],
     t_root = Some 1, t_num = 2\<rparr>"

lemma two_nodes_hold: "tree_holds (\<lambda>_. True) two_nodes [1, 2]"
  unfolding tree_holds_def two_nodes_def
  by (rule exI [of _ "Node Leaf (1, 0) (Node Leaf (2, 1) Leaf)"]) (simp add: addr_list_def)

theorem destroy_frees_each_once_witness:
  "\<exists>ys. free_nodes 3 \<lparr>c_node = None, c_dir = TREE_LEFT\<rparr> two_nodes =
      (Inr ys, \<lparr>t_heap = (\<lambda>a. if a \<in> set [1, 2] then None else t_heap two_nodes a), t_root = None, t_num = 0\<rparr>) \<and>
    distinct ys \<and> set ys = set [1, 2]"
  by (rule destroy_frees_each_once [OF two_nodes_hold]) simp_all

end
