(* ===== verification/Sexpr.thy ===== *)
theory Sexpr
  imports Nvl
begin

text \<open>
  S-expressions: the list functions of \<^verbatim>\<open>src/sexpr.c\<close> and \<^verbatim>\<open>src/include/jeffpc/sexpr.h\<close>.

  A pointer to a value is a \<open>val option\<close>. The empty list has two forms: the null pointer, with which the lists that
  are made from arrays end, and a cons cell without head and tail, with which the lists that are read from text end.
  Reference counts are not modelled, so the functions that take or return a reference work on the values.
\<close>

subsection \<open>Lists\<close>

definition sexpr_is_null :: "val option \<Rightarrow> bool" where
  "sexpr_is_null v \<longleftrightarrow> v = None \<or> v = Some (VCons None None)"

text \<open>The macros \<open>VAL_ALLOC_*\<close> assert that the allocation succeeded.\<close>

definition VAL_ALLOC :: "(mem, 'a) cfun \<Rightarrow> (mem, 'a) cfun" where
  "VAL_ALLOC f m = (case f m of (Inl (Errno _), m') \<Rightarrow> (Inl Panic, m') | r \<Rightarrow> r)"

text \<open>The loop goes from the last element to the first one.\<close>

primrec array_to_list_loop :: "val option list \<Rightarrow> val option \<Rightarrow> (mem, val option) cfun" where
  "array_to_list_loop [] lst = cret lst"
| "array_to_list_loop (v # vals) lst =
     andthen (VAL_ALLOC (val_alloc_cons v lst)) (\<lambda>tmp. array_to_list_loop vals (Some tmp))"

definition sexpr_array_to_list :: "val option list \<Rightarrow> (mem, val option) cfun" where
  "sexpr_array_to_list vals =
     (if vals = [] then cret (Some val_empty_cons) else array_to_list_loop (rev vals) None)"

fun sexpr_list_to_array :: "val option \<Rightarrow> nat \<Rightarrow> val option list res" where
  "sexpr_list_to_array None alen = Inr []"
| "sexpr_list_to_array (Some (VCons h t)) alen =
     (if h = None \<and> t = None then Inr []
      else if alen = 0 then fail ENOMEM
      else case sexpr_list_to_array t (alen - 1) of Inl e \<Rightarrow> Inl e | Inr arr \<Rightarrow> Inr (h # arr))"
| "sexpr_list_to_array (Some _) alen = (if alen = 0 then fail ENOMEM else fail EINVAL)"

fun sexpr_car :: "val option \<Rightarrow> val option" where
  "sexpr_car (Some (VCons h t)) = h"
| "sexpr_car _ = None"

fun sexpr_cdr :: "val option \<Rightarrow> val option" where
  "sexpr_cdr (Some (VCons h t)) = t"
| "sexpr_cdr _ = None"

text \<open>The loop of \<open>sexpr_length\<close>, with the number of cells seen so far.\<close>

fun length_loop :: "val option \<Rightarrow> int \<Rightarrow> int" where
  "length_loop None len = len"
| "length_loop (Some (VCons h t)) len = (if h = None \<and> t = None then len else length_loop t (len + 1))"
| "length_loop (Some _) len = - 1"

definition sexpr_length :: "val option \<Rightarrow> int" where
  "sexpr_length lv = length_loop lv 0"

text \<open>
  \<open>sexpr_list_to_val_array\<close> keeps the number of elements in an \<open>int\<close>. The elements of an array are not null in this
  model: an array with a null element, whose users would follow the null pointer, counts as a \<open>Fault\<close>.
\<close>

definition to_int :: "int \<Rightarrow> int" where
  "to_int n = signed_take_bit 31 n"

definition elems :: "val option list \<Rightarrow> val list res" where
  "elems vs = (if None \<in> set vs then Inl Fault else Inr (map the vs))"

definition sexpr_list_to_val_array :: "val option \<Rightarrow> (mem, val) cfun" where
  "sexpr_list_to_val_array lst =
     (let len = sexpr_length lst
      in if len < 0 then cerr (Errno EINVAL)
      else andthen (mem_reallocarray (nat len) sizeof_ptr) (\<lambda>_.
        case sexpr_list_to_array lst (nat len) of
          Inl _ \<Rightarrow> cerr (Errno EINVAL)
        | Inr arr \<Rightarrow>
            if to_int (int (length arr)) \<noteq> len then cerr (Errno EINVAL)
            else (case elems arr of Inl e \<Rightarrow> cerr e | Inr vs \<Rightarrow> val_alloc_array vs)))"

text \<open>\<open>while (n-- && lv)\<close>\<close>

fun sexpr_nth :: "val option \<Rightarrow> nat \<Rightarrow> val option" where
  "sexpr_nth lv 0 = lv"
| "sexpr_nth None (Suc n) = None"
| "sexpr_nth (Some (VCons h t)) (Suc n) = sexpr_nth (if n \<noteq> 0 then t else h) n"
| "sexpr_nth (Some _) (Suc n) = sexpr_nth None n"

subsection \<open>Association lists\<close>

text \<open>Is this the pair with the name?\<close>

fun assoc_match :: "bytes \<Rightarrow> val option \<Rightarrow> bool" where
  "assoc_match name (Some (VCons (Some (VStr s)) _)) \<longleftrightarrow> strcmp s name = 0"
| "assoc_match name (Some (VCons (Some (VSym s)) _)) \<longleftrightarrow> strcmp s name = 0"
| "assoc_match name _ \<longleftrightarrow> False"

fun sexpr_assoc :: "val option \<Rightarrow> bytes \<Rightarrow> val option" where
  "sexpr_assoc (Some (VCons h t)) name = (if assoc_match name h then h else sexpr_assoc t name)"
| "sexpr_assoc _ name = None"

definition sexpr_alist_lookup_val :: "val option \<Rightarrow> bytes option \<Rightarrow> val option" where
  "sexpr_alist_lookup_val lv name =
     (case name of None \<Rightarrow> None | Some n \<Rightarrow> if lv = None then None else sexpr_cdr (sexpr_assoc lv n))"

definition sexpr_alist_lookup_str :: "val option \<Rightarrow> bytes option \<Rightarrow> bytes option" where
  "sexpr_alist_lookup_str lv name = (case sexpr_alist_lookup_val lv name of Some (VStr s) \<Rightarrow> Some s | _ \<Rightarrow> None)"

text \<open>The value, and what is stored through \<open>found\<close>.\<close>

definition sexpr_alist_lookup_int :: "val option \<Rightarrow> bytes option \<Rightarrow> u64 \<times> bool" where
  "sexpr_alist_lookup_int lv name = (case sexpr_alist_lookup_val lv name of Some (VInt i) \<Rightarrow> (i, True) | _ \<Rightarrow> (0, False))"

definition sexpr_alist_lookup_bool :: "val option \<Rightarrow> bytes option \<Rightarrow> bool \<Rightarrow> bool \<times> bool" where
  "sexpr_alist_lookup_bool lv name def =
     (case sexpr_alist_lookup_val lv name of Some (VBool b) \<Rightarrow> (b, True) | _ \<Rightarrow> (def, False))"

definition sexpr_alist_lookup_list :: "val option \<Rightarrow> bytes option \<Rightarrow> val option" where
  "sexpr_alist_lookup_list lv name =
     (case sexpr_alist_lookup_val lv name of Some (VCons h t) \<Rightarrow> Some (VCons h t) | _ \<Rightarrow> None)"

subsection \<open>Iteration\<close>

text \<open>The values \<open>sexpr_for_each\<close> goes through: it ends at a null head and where the list is not a cell.\<close>

fun for_each_vals :: "val option \<Rightarrow> val list" where
  "for_each_vals (Some (VCons (Some h) t)) = h # for_each_vals t"
| "for_each_vals (Some (VCons None t)) = []"
| "for_each_vals _ = []"

subsection \<open>Equality\<close>

text \<open>
  Two null pointers are equal, and a null pointer is equal to an empty cell. Pointers to the same object are equal
  in any case, since a value is equal to itself.
\<close>

fun empty_cell :: "val \<Rightarrow> bool" where
  "empty_cell v \<longleftrightarrow> v = VCons None None"

function sexpr_equal :: "val option \<Rightarrow> val option \<Rightarrow> bool"
  and equal_vals :: "val \<Rightarrow> val \<Rightarrow> bool"
  and equal_elems :: "val list \<Rightarrow> val list \<Rightarrow> bool"
  and equal_pairs :: "nvpairs \<Rightarrow> nvpairs \<Rightarrow> bool" where
  "sexpr_equal None rhs = (case rhs of None \<Rightarrow> True | Some r \<Rightarrow> empty_cell r)"
| "sexpr_equal (Some l) rhs = (case rhs of None \<Rightarrow> empty_cell l | Some r \<Rightarrow> equal_vals l r)"
| "equal_vals VNull r = (case r of VNull \<Rightarrow> True | _ \<Rightarrow> False)"
| "equal_vals (VInt i) r = (case r of VInt j \<Rightarrow> i = j | _ \<Rightarrow> False)"
| "equal_vals (VChar i) r = (case r of VChar j \<Rightarrow> i = j | _ \<Rightarrow> False)"
| "equal_vals (VStr s) r = (case r of VStr t \<Rightarrow> strcmp s t = 0 | _ \<Rightarrow> False)"
| "equal_vals (VSym s) r = (case r of VSym t \<Rightarrow> strcmp s t = 0 | _ \<Rightarrow> False)"
| "equal_vals (VBool b) r = (case r of VBool c \<Rightarrow> b = c | _ \<Rightarrow> False)"
| "equal_vals (VBlob b) r = (case r of VBlob c \<Rightarrow> length b = length c \<and> b = c | _ \<Rightarrow> False)"
| "equal_vals (VCons h t) r = (case r of VCons h' t' \<Rightarrow> sexpr_equal h h' \<and> sexpr_equal t t' | _ \<Rightarrow> False)"
| "equal_vals (VArray vs) r = (case r of VArray ws \<Rightarrow> length vs = length ws \<and> equal_elems vs ws | _ \<Rightarrow> False)"
| "equal_vals (VNvl vs) r = (case r of VNvl ws \<Rightarrow> equal_pairs vs ws | _ \<Rightarrow> False)"
| "equal_elems [] rs = True"
| "equal_elems (l # ls) rs = (case rs of [] \<Rightarrow> True | r # rs' \<Rightarrow> equal_vals l r \<and> equal_elems ls rs')"
| "equal_pairs [] rs = (rs = [])"
| "equal_pairs (l # ls) rs =
     (case rs of
        [] \<Rightarrow> False
      | r # rs' \<Rightarrow> strcmp (fst l) (fst r) = 0 \<and> equal_vals (snd l) (snd r) \<and> equal_pairs ls rs')"
  by pat_completeness auto

termination
  by (relation "measure (\<lambda>x. case x of
        Inl (Inl (a, b)) \<Rightarrow> size_option size a
      | Inl (Inr (v, w)) \<Rightarrow> size v
      | Inr (Inl (vs, ws)) \<Rightarrow> size_list size vs
      | Inr (Inr (vs, ws)) \<Rightarrow> size_list (\<lambda>p. Suc (size (snd p))) vs)") (auto simp: size_prod_simp)


subsection \<open>What the equality means\<close>

text \<open>Values in which an empty cell is a null pointer.\<close>

fun canon :: "val \<Rightarrow> val"
  and canon_ptr :: "val option \<Rightarrow> val option" where
  "canon (VCons h t) = VCons (canon_ptr h) (canon_ptr t)"
| "canon (VArray vs) = VArray (map canon vs)"
| "canon (VNvl kvs) = VNvl (map (\<lambda>p. (fst p, canon (snd p))) kvs)"
| "canon v = v"
| "canon_ptr None = None"
| "canon_ptr (Some v) = (if v = VCons None None then None else Some (canon v))"

text \<open>No cell has two empty parts, unless both are null pointers.\<close>

fun tidy :: "val \<Rightarrow> bool"
  and tidy_ptr :: "val option \<Rightarrow> bool" where
  "tidy (VCons h t) \<longleftrightarrow> (sexpr_is_null h \<and> sexpr_is_null t \<longrightarrow> h = None \<and> t = None) \<and> tidy_ptr h \<and> tidy_ptr t"
| "tidy (VArray vs) \<longleftrightarrow> (\<forall>v \<in> set vs. tidy v)"
| "tidy (VNvl kvs) \<longleftrightarrow> (\<forall>p \<in> set kvs. tidy (snd p))"
| "tidy _ \<longleftrightarrow> True"
| "tidy_ptr None \<longleftrightarrow> True"
| "tidy_ptr (Some v) \<longleftrightarrow> tidy v"

lemma canon_ptr_None: "canon_ptr p = None \<longleftrightarrow> sexpr_is_null p"
  by (cases p) (auto simp: sexpr_is_null_def)

lemma sexpr_is_null_simps [simp]: "sexpr_is_null None" "sexpr_is_null (Some v) \<longleftrightarrow> v = VCons None None"
  by (simp_all add: sexpr_is_null_def)

lemma canon_empty: "tidy v \<Longrightarrow> canon v = VCons None None \<longleftrightarrow> v = VCons None None"
  by (cases v) (simp_all add: canon_ptr_None, metis sexpr_is_null_simps(1))

lemma equal_canon:
  "tidy_ptr a \<Longrightarrow> tidy_ptr b \<Longrightarrow> sexpr_equal a b \<longleftrightarrow> canon_ptr a = canon_ptr b"
  "tidy v \<Longrightarrow> tidy w \<Longrightarrow> equal_vals v w \<longleftrightarrow> canon v = canon w"
  "\<forall>v \<in> set vs. tidy v \<Longrightarrow> \<forall>v \<in> set ws. tidy v \<Longrightarrow> length vs = length ws \<Longrightarrow> equal_elems vs ws \<longleftrightarrow> map canon vs = map canon ws"
  "\<forall>p \<in> set ps. tidy (snd p) \<Longrightarrow> \<forall>p \<in> set qs. tidy (snd p) \<Longrightarrow>
    equal_pairs ps qs \<longleftrightarrow> map (\<lambda>p. (fst p, canon (snd p))) ps = map (\<lambda>p. (fst p, canon (snd p))) qs"
proof (induction a b and v w and vs ws and ps qs rule: sexpr_equal_equal_vals_equal_elems_equal_pairs.induct)
  case (2 l rhs)
  show ?case
  proof (cases rhs)
    case (Some r)
    then have "equal_vals l r \<longleftrightarrow> canon l = canon r" using 2 by simp
    then show ?thesis using 2(2,3) Some canon_empty [of l] canon_empty [of r] by auto
  qed simp
next
  case (11 vs r)
  show ?case
  proof (cases r)
    case (VArray ws)
    then show ?thesis using 11 map_eq_imp_length_eq [of canon vs canon ws] by (cases "length vs = length ws") auto
  qed simp_all
qed (auto simp: strcmp_eq split: option.splits val.splits list.splits)

lemma equal_refl:
  "sexpr_equal a a" "equal_vals v v" "equal_elems vs vs" "equal_pairs ps ps"
proof -
  have "a = b \<Longrightarrow> sexpr_equal a b" "v = w \<Longrightarrow> equal_vals v w" "vs = ws \<Longrightarrow> equal_elems vs ws" "ps = qs \<Longrightarrow> equal_pairs ps qs"
    for a b v w vs ws ps qs
    by (induction a b and v w and vs ws and ps qs rule: sexpr_equal_equal_vals_equal_elems_equal_pairs.induct)
      (auto simp: strcmp_eq split: option.splits list.splits)
  then show "sexpr_equal a a" "equal_vals v v" "equal_elems vs vs" "equal_pairs ps ps" by auto
qed


text \<open>
  C27. On values in which no cell has two empty parts (other than the empty cell itself), two s-expressions are
  equal for \<open>sexpr_equal\<close> exactly if they are the same up to the two forms of the empty list. Every value is
  equal to itself.
\<close>

theorem sexpr_equal_iff:
  "sexpr_equal a a \<and> (tidy_ptr a \<longrightarrow> tidy_ptr b \<longrightarrow> sexpr_equal a b = (canon_ptr a = canon_ptr b))"
  using equal_canon(1) equal_refl(1) by blast

theorem sexpr_equal_iff_witness:
  "sexpr_equal (Some (VCons (Some (VInt 1)) None)) (Some (VCons (Some (VInt 1)) (Some (VCons None None)))) =
    (canon_ptr (Some (VCons (Some (VInt 1)) None)) = canon_ptr (Some (VCons (Some (VInt 1)) (Some (VCons None None)))))"
  using sexpr_equal_iff [of "Some (VCons (Some (VInt 1)) None)" "Some (VCons (Some (VInt 1)) (Some (VCons None None)))"]
  by simp

text \<open>
  Without the condition the equality is not transitive: the list of one empty list is equal to the empty cell,
  which is equal to the null pointer, but the list of one empty list is not equal to the null pointer.
\<close>

lemma sexpr_equal_not_transitive:
  defines "nil \<equiv> VCons None None"
  shows "sexpr_equal (Some (VCons (Some nil) (Some nil))) (Some nil)" and "sexpr_equal (Some nil) None"
    and "\<not> sexpr_equal (Some (VCons (Some nil) (Some nil))) None"
  by (simp_all add: nil_def)

subsection \<open>Lists and arrays\<close>

text \<open>The list of the elements of an array; the elements of a list.\<close>

definition null_list :: "val option list \<Rightarrow> val option" where
  "null_list vs = foldr (\<lambda>v t. Some (VCons v t)) vs None"

lemma null_list_simps [simp]: "null_list [] = None" "null_list (v # vs) = Some (VCons v (null_list vs))"
  by (simp_all add: null_list_def)

lemma null_list_append: "null_list (vs @ ws) = foldr (\<lambda>v t. Some (VCons v t)) vs (null_list ws)"
  by (simp add: null_list_def)

lemma null_list_null:
  assumes "vs = [] \<or> last vs \<noteq> None"
  shows "sexpr_is_null (null_list vs) \<longleftrightarrow> vs = []"
  using assms by (cases vs; cases "tl vs") auto

lemma VAL_ALLOC_plenty:
  assumes "yields f x" and "mem_plenty m"
  shows "\<exists>m'. VAL_ALLOC f m = (Inr x, m') \<and> mem_ext m m'"
  using assms by (cases rule: yields_cases [of f x m]) (auto simp: VAL_ALLOC_def)

lemma array_to_list_loop_run:
  assumes "mem_plenty m"
  shows "\<exists>m'. array_to_list_loop (rev vs) (null_list ws) m = (Inr (null_list (vs @ ws)), m') \<and> mem_ext m m'"
  using assms
proof (induction vs arbitrary: ws m rule: rev_induct)
  case (snoc v vs)
  obtain m1 where m1: "VAL_ALLOC (val_alloc_cons v (null_list ws)) m = (Inr (VCons v (null_list ws)), m1)" "mem_ext m m1"
    using VAL_ALLOC_plenty [OF yields_val_alloc(6) snoc.prems] by blast
  obtain m2 where "array_to_list_loop (rev vs) (null_list (v # ws)) m1 = (Inr (null_list (vs @ v # ws)), m2)" "mem_ext m1 m2"
    using snoc.IH [of m1 "v # ws"] snoc.prems mem_ext_plenty [OF m1(2)] by blast
  then show ?case using m1 mem_ext_trans by auto
qed simp

lemma list_to_array_null_list:
  assumes "vs = [] \<or> last vs \<noteq> None" and "length vs \<le> alen"
  shows "sexpr_list_to_array (null_list vs) alen = Inr vs"
  using assms
proof (induction vs arbitrary: alen)
  case (Cons v vs)
  have "\<not> sexpr_is_null (null_list (v # vs))" using null_list_null [OF Cons.prems(1)] by simp
  moreover have "vs = [] \<or> last vs \<noteq> None" using Cons.prems(1) by (cases vs) auto
  ultimately show ?case using Cons.IH [of "alen - 1"] Cons.prems(2) by (cases alen) simp_all
qed simp

lemma list_to_array_short:
  assumes "vs = [] \<or> last vs \<noteq> None" and "alen < length vs"
  shows "sexpr_list_to_array (null_list vs) alen = fail ENOMEM"
  using assms
proof (induction vs arbitrary: alen)
  case (Cons v vs)
  have "\<not> sexpr_is_null (null_list (v # vs))" using null_list_null [OF Cons.prems(1)] by simp
  moreover have "vs = [] \<or> last vs \<noteq> None" using Cons.prems(1) by (cases vs) auto
  ultimately show ?case using Cons.IH [of "alen - 1"] Cons.prems(2) by (cases alen) simp_all
qed simp

lemma length_loop_null_list:
  assumes "vs = [] \<or> last vs \<noteq> None"
  shows "length_loop (null_list vs) n = n + int (length vs)"
  using assms
proof (induction vs arbitrary: n)
  case (Cons v vs)
  have "\<not> (v = None \<and> null_list vs = None)" using Cons.prems by (cases vs) auto
  moreover have "vs = [] \<or> last vs \<noteq> None" using Cons.prems by (cases vs) auto
  ultimately show ?case using Cons.IH [of "n + 1"] by simp
qed simp

lemma nth_null_list: "i < length vs \<Longrightarrow> sexpr_nth (null_list vs) (Suc i) = vs ! i"
proof (induction vs arbitrary: i)
  case (Cons v vs)
  then show ?case by (cases i) auto
qed simp

lemma nth_None [simp]: "sexpr_nth None n = None"
  by (cases n) auto

text \<open>
  C28. The list made from an array has the length of the array and its elements in their places, and gives the
  array back; an array that is too short for it is refused with \<open>-ENOMEM\<close>. The last element must not be null:
  with it the list would end in an empty cell, which is the end of a list.
\<close>

theorem sexpr_list_array_roundtrip:
  assumes "mem_plenty m" and "vals \<noteq> []" and "last vals \<noteq> None"
  shows "\<exists>l m'. sexpr_array_to_list vals m = (Inr l, m') \<and> sexpr_length l = int (length vals) \<and>
    (\<forall>i < length vals. sexpr_nth l (Suc i) = vals ! i) \<and>
    (\<forall>alen. sexpr_list_to_array l alen = (if alen < length vals then fail ENOMEM else Inr vals))"
proof -
  obtain m' where "sexpr_array_to_list vals m = (Inr (null_list vals), m')"
    using array_to_list_loop_run [OF assms(1), of vals "[]"] assms(2) by (auto simp: sexpr_array_to_list_def)
  then show ?thesis
    using assms(3) list_to_array_null_list [of vals] list_to_array_short [of vals] length_loop_null_list [of vals 0]
      nth_null_list [of _ vals]
    by (intro exI [of _ "null_list vals"] exI [of _ m']) (auto simp: sexpr_length_def simp del: sexpr_list_to_array.simps sexpr_nth.simps)
qed

theorem sexpr_list_array_roundtrip_witness:
  "\<exists>l m'. sexpr_array_to_list [None, Some (VInt 1)] plain_mem = (Inr l, m') \<and> sexpr_length l = 2 \<and>
    (\<forall>alen. sexpr_list_to_array l alen = (if alen < 2 then fail ENOMEM else Inr [None, Some (VInt 1)]))"
  using sexpr_list_array_roundtrip [of plain_mem "[None, Some (VInt 1)]"] by (auto simp del: sexpr_list_to_array.simps)

end
