(* ===== verification/Sexpr_Compact.thy ===== *)
theory Sexpr_Compact
  imports Sexpr
begin

text \<open>
  Compaction, \<^verbatim>\<open>src/sexpr_compact.c\<close>: a list becomes an array, an association list a name-value list, at every level.

  The functions return the value, and whether it is the very object that was passed in: a compaction that changes
  nothing does not allocate. The code stores the results of compactions in an array, and the copy of a symbol in a pair,
  without looking for an error pointer: an array with such an element is \<open>Stray\<close>, and a pair with such a name a \<open>Fault\<close>,
  since the name is looked at at once.
\<close>

subsection \<open>What a list can become\<close>

fun is_pair_item :: "val option \<Rightarrow> bool" where
  "is_pair_item (Some (VCons (Some (VStr _)) _)) \<longleftrightarrow> True"
| "is_pair_item (Some (VCons (Some (VSym _)) _)) \<longleftrightarrow> True"
| "is_pair_item _ \<longleftrightarrow> False"

fun what_loop :: "val option \<Rightarrow> bool \<Rightarrow> val_type" where
  "what_loop None nvl = (if nvl then VT_NVL else VT_ARRAY)"
| "what_loop (Some (VCons h t)) nvl =
     (if h = None \<and> t = None then if nvl then VT_NVL else VT_ARRAY
      else what_loop t (nvl \<and> is_pair_item h))"
| "what_loop (Some _) nvl = VT_CONS"

definition what_is_it :: "val option \<Rightarrow> val_type" where
  "what_is_it v = (if sexpr_is_null v then VT_NULL else what_loop v True)"

subsection \<open>Compaction\<close>

text \<open>\<open>nvl_set_pair\<close> on a list under construction.\<close>

definition set_pair_in :: "bytes \<Rightarrow> val \<Rightarrow> nvpairs \<Rightarrow> (mem, nvpairs) cfun" where
  "set_pair_in name v nvl m =
     (case nvl_set_pair (name, v) (nvl, m) of
        (Inl e, (_, m')) \<Rightarrow> (Inl e, m')
      | (Inr _, (nvl', m')) \<Rightarrow> (Inr nvl', m'))"

text \<open>An element of the new array: \<open>None\<close> is an error pointer.\<close>

definition stored :: "(mem, 'a) cfun \<Rightarrow> (mem, 'a option) cfun" where
  "stored f m =
     (case f m of
        (Inl (Errno _), m') \<Rightarrow> (Inr None, m')
      | (Inl e, m') \<Rightarrow> (Inl e, m')
      | (Inr x, m') \<Rightarrow> (Inr (Some x), m'))"

text \<open>
  The array of the results. When there is no memory for it the results are released, which follows an error pointer among
  them.
\<close>

definition dup_results :: "val option list \<Rightarrow> (mem, val \<times> bool) cfun" where
  "dup_results vs m =
     (if None \<in> set vs then
        (case val_alloc_array_dup (replicate (length vs) VNull) m of
           (Inl (Errno _), m') \<Rightarrow> (Inl Fault, m')
         | (Inl e, m') \<Rightarrow> (Inl e, m')
         | (Inr _, m') \<Rightarrow> (Inl Stray, m'))
      else andthen (val_alloc_array_dup (map the vs)) (\<lambda>v. cret (v, False)) m)"

text \<open>The name of a new pair: a string as it is, a symbol as a new string; \<open>None\<close> is an error pointer.\<close>

fun pair_name_of :: "val option \<Rightarrow> (mem, bytes option) cfun" where
  "pair_name_of (Some (VStr s)) = cret (Some s)"
| "pair_name_of (Some (VSym s)) = andthen (name_dup s) (\<lambda>name_ok. cret (if name_ok then Some s else None))"
| "pair_name_of _ = cerr Panic"

text \<open>With an error pointer for a name, \<open>nvl_set_pair\<close> follows it, and so does the error path.\<close>

definition bad_name :: "(mem, 'a) cfun \<Rightarrow> (mem, 'b) cfun" where
  "bad_name f m =
     (case f m of
        (Inl (Errno _), m') \<Rightarrow> (Inl Fault, m')
      | (Inl e, m') \<Rightarrow> (Inl e, m')
      | (Inr _, m') \<Rightarrow> (Inl Fault, m'))"

lemma list_to_array_size:
  "sexpr_list_to_array v n = Inr arr \<Longrightarrow> size_list (size_option size) arr < size_option size v"
  by (induction v n arbitrary: arr rule: sexpr_list_to_array.induct) (auto split: if_splits sum.splits)

lemma for_each_size: "size_list size (for_each_vals v) < size_option size v"
  by (induction v rule: for_each_vals.induct) auto

definition val_weight :: "val option \<Rightarrow> nat" where
  "val_weight v = (case v of None \<Rightarrow> 0 | Some w \<Rightarrow> 4 * size w + 3)"

lemma arr_weight: "sexpr_list_to_array (Some v) n = Inr arr \<Longrightarrow> size_list (size_option size) arr \<le> size v"
  using list_to_array_size [of "Some v" n arr] by simp

lemma each_weight: "size_list size (for_each_vals (Some v)) \<le> size v"
  using for_each_size [of "Some v"] by simp

function (sequential) sexpr_compact :: "val option \<Rightarrow> (mem, val \<times> bool) cfun"
  and sexpr_compact_array :: "val list \<Rightarrow> (mem, val \<times> bool) cfun"
  and compact_array_loop :: "val list \<Rightarrow> (mem, val option list \<times> bool) cfun"
  and sexpr_compact_nvl :: "nvpairs \<Rightarrow> (mem, val \<times> bool) cfun"
  and sexpr_compact_cons_array :: "val \<Rightarrow> (mem, val \<times> bool) cfun"
  and sexpr_compact_cons_nvl :: "val \<Rightarrow> (mem, val \<times> bool) cfun"
  and compact_nvl_loop :: "nvpairs \<Rightarrow> nvpairs \<Rightarrow> (mem, nvpairs \<times> bool) cfun"
  and compact_arr_loop :: "val option list \<Rightarrow> (mem, val list) cfun"
  and compact_alist_loop :: "val list \<Rightarrow> nvpairs \<Rightarrow> (mem, nvpairs) cfun" where
  "sexpr_compact None = cerr Fault"
| "sexpr_compact (Some (VArray vals)) = sexpr_compact_array vals"
| "sexpr_compact (Some (VNvl kvs)) = sexpr_compact_nvl kvs"
| "sexpr_compact (Some (VCons h t)) =
     (case what_is_it (Some (VCons h t)) of
        VT_ARRAY \<Rightarrow> sexpr_compact_cons_array (VCons h t)
      | VT_NVL \<Rightarrow> sexpr_compact_cons_nvl (VCons h t)
      | _ \<Rightarrow> cret (VCons h t, True))"
| "sexpr_compact (Some v) = cret (v, True)"
| "sexpr_compact_cons_array inp =
     (let len = sexpr_length (Some inp) in
      if len < 0 then cerr Panic
      else case sexpr_list_to_array (Some inp) (nat len) of
        Inl _ \<Rightarrow> cerr Panic
      | Inr arr \<Rightarrow>
          if to_int (int (length arr)) \<noteq> len then cerr Panic
          else andthen (compact_arr_loop arr) (\<lambda>vs. andthen (val_alloc_array_dup vs) (\<lambda>v. cret (v, False))))"
| "sexpr_compact_cons_nvl inp =
     andthen val_alloc_nvl (\<lambda>_.
       andthen (compact_alist_loop (for_each_vals (Some inp)) []) (\<lambda>nvl. cret (VNvl nvl, False)))"
| "sexpr_compact_array vals =
     andthen (compact_array_loop vals) (\<lambda>(vs, eq).
       if eq then cret (VArray vals, True) else dup_results vs)"
| "compact_array_loop [] = cret ([], True)"
| "compact_array_loop (v # vs) =
     andthen (stored (sexpr_compact (Some v))) (\<lambda>r. andthen (compact_array_loop vs) (\<lambda>(ws, eq).
       cret (map_option fst r # ws, (case r of None \<Rightarrow> False | Some (_, same) \<Rightarrow> same) \<and> eq)))"
| "sexpr_compact_nvl kvs =
     andthen val_alloc_nvl (\<lambda>_. andthen (compact_nvl_loop kvs []) (\<lambda>(dst, eq).
       if eq then cret (VNvl kvs, True) else cret (VNvl dst, False)))"
| "compact_nvl_loop [] dst = cret (dst, True)"
| "compact_nvl_loop (p # kvs) dst =
     andthen (sexpr_compact (Some (snd p))) (\<lambda>(w, same).
       andthen (set_pair_in (fst p) w dst) (\<lambda>dst'. andthen (compact_nvl_loop kvs dst') (\<lambda>(dst'', eq).
         cret (dst'', same \<and> eq))))"
| "compact_arr_loop [] = cret []"
| "compact_arr_loop (v # vs) =
     andthen (sexpr_compact v) (\<lambda>(w, _). andthen (compact_arr_loop vs) (\<lambda>ws. cret (w # ws)))"
| "compact_alist_loop [] nvl = cret nvl"
| "compact_alist_loop (VCons name value # items) nvl =
     andthen (pair_name_of name) (\<lambda>n.
       case n of
         None \<Rightarrow> bad_name (sexpr_compact value)
       | Some n \<Rightarrow>
           andthen (sexpr_compact value) (\<lambda>(w, _).
             andthen (set_pair_in n w nvl) (\<lambda>nvl'. compact_alist_loop items nvl')))"
| "compact_alist_loop (_ # items) nvl = cerr Fault"
  by pat_completeness auto

termination
  by (relation "measure (\<lambda>x. case x of
        Inl (Inl (Inl v)) \<Rightarrow> val_weight v
      | Inl (Inl (Inr vs)) \<Rightarrow> 4 * size_list size vs + 1
      | Inl (Inr (Inl vs)) \<Rightarrow> 4 * size_list size vs
      | Inl (Inr (Inr kvs)) \<Rightarrow> 4 * size_list (\<lambda>p. Suc (size (snd p))) kvs + 1
      | Inr (Inl (Inl v)) \<Rightarrow> 4 * size v + 1
      | Inr (Inl (Inr v)) \<Rightarrow> 4 * size v + 1
      | Inr (Inr (Inl (kvs, dst))) \<Rightarrow> 4 * size_list (\<lambda>p. Suc (size (snd p))) kvs
      | Inr (Inr (Inr (Inl vs))) \<Rightarrow> 4 * size_list (size_option size) vs
      | Inr (Inr (Inr (Inr (vs, nvl)))) \<Rightarrow> 4 * size_list size vs)")
    (auto simp: val_weight_def size_prod_simp less_Suc_eq_le arr_weight each_weight split: option.splits)


subsection \<open>Reference definition\<close>

text \<open>The name and the value of an item of an association list.\<close>

fun item_name :: "val \<Rightarrow> bytes" where
  "item_name (VCons (Some (VStr s)) _) = s"
| "item_name (VCons (Some (VSym s)) _) = s"
| "item_name _ = []"

fun item_val :: "val \<Rightarrow> val" where
  "item_val (VCons _ (Some v)) = v"
| "item_val _ = VNull"

lemma item_val_size: "size (item_val p) \<le> size p"
  by (cases p rule: item_val.cases) auto

lemma size_list_member: "x \<in> set xs \<Longrightarrow> f x < size_list f xs"
  by (induction xs) auto

lemma nvl_member_size: "p \<in> set kvs \<Longrightarrow> size (snd p) < size (VNvl kvs)"
  using size_list_member [of p kvs "\<lambda>p. Suc (size (snd p))"] by (simp add: size_prod_simp)

function (sequential) cpt :: "val \<Rightarrow> val" where
  "cpt (VArray vs) = VArray (map cpt vs)"
| "cpt (VNvl kvs) = VNvl (map (\<lambda>p. (fst p, cpt (snd p))) kvs)"
| "cpt (VCons h t) =
     (let items = for_each_vals (Some (VCons h t)) in
      case what_is_it (Some (VCons h t)) of
        VT_ARRAY \<Rightarrow> VArray (map cpt items)
      | VT_NVL \<Rightarrow> VNvl (nv.put_all (map (\<lambda>p. (item_name p, cpt (item_val p))) items) [])
      | _ \<Rightarrow> VCons h t)"
| "cpt v = v"
  by pat_completeness auto

termination
proof (relation "measure size")
  fix h t and items and x
  assume items: "items = for_each_vals (Some (VCons h t))" "x \<in> set items"
  then have "size x < size (VCons h t)" using size_list_member [of x items size] each_weight [of "VCons h t"] by simp
  then show "(x, VCons h t) \<in> measure size" and "(item_val x, VCons h t) \<in> measure size"
    using item_val_size [of x] by auto
qed (use size_list_member [of _ _ size] nvl_member_size in fastforce)+


subsection \<open>Compaction follows the reference\<close>

text \<open>With memory to spare, \<open>f\<close> gives \<open>x\<close>.\<close>

definition gives :: "(mem, 'a) cfun \<Rightarrow> 'a \<Rightarrow> bool" where
  "gives f x \<longleftrightarrow> (\<forall>m. mem_plenty m \<longrightarrow> (\<exists>m'. f m = (Inr x, m') \<and> mem_ext m m'))"

lemma gives_cret [intro]: "gives (cret x) x"
  by (simp add: gives_def)

lemma gives_andthen: "gives f x \<Longrightarrow> gives (g x) y \<Longrightarrow> gives (andthen f g) y"
  unfolding gives_def by (metis andthen_Inr mem_ext_plenty mem_ext_trans)

lemma gives_yields: "yields f x \<Longrightarrow> gives f x"
  unfolding gives_def yields_def by blast

lemma gives_stored: "gives f x \<Longrightarrow> gives (stored f) (Some x)"
  unfolding gives_def stored_def by fastforce

lemma gives_set_pair_in: "gives (set_pair_in name v nvl) (nv_put name v nvl)"
  unfolding gives_def
proof (intro allI impI)
  fix m
  assume "mem_plenty m"
  then show "\<exists>m'. set_pair_in name v nvl m = (Inr (nv_put name v nvl), m') \<and> mem_ext m m'"
    by (cases rule: do_nvl_set_named [of name v nvl m]) (auto simp: set_pair_in_def nvl_set_pair_def)
qed

lemma gives_array_dup:
  assumes "length vs \<le> SSIZE_MAX div 8"
  shows "gives (val_alloc_array_dup vs) (VArray vs)"
proof -
  have len: "8 * length vs \<le> SSIZE_MAX" "length vs * 8 \<le> SSIZE_MAX" using assms by (simp_all add: bound_simps)
  have w: "wrap64 (8 * length vs) = 8 * length vs" "wrap64 (length vs * 8) = length vs * 8" "length vs * 8 \<le> SIZE_MAX"
    using len by (simp_all add: bound_simps)
  have "gives (mem_reallocarray (length vs) sizeof_ptr) (length vs * 8)"
    using gives_yields [OF yields_cell [OF len(2)]] w unfolding gives_def mem_reallocarray_def sizeof_ptr_def by auto
  then show ?thesis
    unfolding val_alloc_array_dup_def val_alloc_array_gen_def
    by (auto intro!: gives_andthen [where x = "length vs * 8"] gives_andthen [OF gives_yields [OF yields_val_cell]] simp: sizeof_ptr_def w)
qed

lemma gives_array_copy:
  "length vs \<le> SSIZE_MAX div 8 \<Longrightarrow> gives (andthen (val_alloc_array_dup vs) (\<lambda>v. cret (v, False))) (VArray vs, False)"
  by (rule gives_andthen [OF gives_array_dup]) auto

lemma dup_results_Some:
  "dup_results (map (\<lambda>v. Some (c v)) vs) = andthen (val_alloc_array_dup (map c vs)) (\<lambda>v. cret (v, False))"
  by (auto simp: dup_results_def fun_eq_iff comp_def)

lemma gives_array_loop:
  assumes "\<And>v. v \<in> set vs \<Longrightarrow> gives (sexpr_compact (Some v)) (c v, b v)"
  shows "gives (compact_array_loop vs) (map (\<lambda>v. Some (c v)) vs, \<forall>v \<in> set vs. b v)"
  using assms
proof (induction vs)
  case (Cons v vs)
  have v: "gives (stored (sexpr_compact (Some v))) (Some (c v, b v))" using Cons.prems by (intro gives_stored) simp
  have vs: "gives (compact_array_loop vs) (map (\<lambda>v. Some (c v)) vs, \<forall>v \<in> set vs. b v)" using Cons by simp
  show ?case by (simp, rule gives_andthen [OF v], simp, rule gives_andthen [OF vs], simp add: gives_cret)
qed auto

lemma gives_arr_loop:
  assumes "\<And>v. v \<in> set vs \<Longrightarrow> gives (sexpr_compact (Some v)) (c v, b v)"
  shows "gives (compact_arr_loop (map Some vs)) (map c vs)"
  using assms
proof (induction vs)
  case (Cons v vs)
  have v: "gives (sexpr_compact (Some v)) (c v, b v)" using Cons.prems by simp
  have vs: "gives (compact_arr_loop (map Some vs)) (map c vs)" using Cons by simp
  show ?case by (simp, rule gives_andthen [OF v], simp, rule gives_andthen [OF vs], simp add: gives_cret)
qed auto

lemma gives_nvl_loop:
  assumes "\<And>p. p \<in> set kvs \<Longrightarrow> gives (sexpr_compact (Some (snd p))) (c (snd p), b (snd p))"
  shows "gives (compact_nvl_loop kvs dst) (nv.put_all (map (\<lambda>p. (fst p, c (snd p))) kvs) dst, \<forall>p \<in> set kvs. b (snd p))"
  using assms
proof (induction kvs arbitrary: dst)
  case (Cons p kvs)
  have v: "gives (sexpr_compact (Some (snd p))) (c (snd p), b (snd p))" using Cons.prems by simp
  have vs: "gives (compact_nvl_loop kvs dst) (nv.put_all (map (\<lambda>p. (fst p, c (snd p))) kvs) dst, \<forall>p \<in> set kvs. b (snd p))" for dst
    using Cons by simp
  show ?case
    by (simp, rule gives_andthen [OF v], simp, rule gives_andthen [OF gives_set_pair_in], rule gives_andthen [OF vs])
      (simp add: gives_cret nv.put_all_def)
qed (auto simp: nv.put_all_def)

text \<open>An item with a name and a value.\<close>

definition full_item :: "val \<Rightarrow> bool" where
  "full_item p \<longleftrightarrow> is_pair_item (Some p) \<and> cstr_wf (item_name p) \<and> sexpr_cdr (Some p) \<noteq> None"

lemma full_item_cases:
  assumes "full_item p"
  obtains n where "p = VCons (Some n) (Some (item_val p))" and "gives (pair_name_of (Some n)) (Some (item_name p))"
proof -
  have dup: "gives (pair_name_of (Some (VSym s))) (Some s)" if "cstr_wf s" for s
    unfolding gives_def
  proof (intro allI impI)
    fix m
    assume "mem_plenty m"
    with that show "\<exists>m'. pair_name_of (Some (VSym s)) m = (Inr (Some s), m') \<and> mem_ext m m'"
      by (cases rule: name_dup_cases [of s m]) auto
  qed
  show thesis
    using assms that dup
    by (cases p rule: item_name.cases) (auto simp: full_item_def gives_cret elim: is_pair_item.elims)
qed

lemma gives_alist_loop:
  assumes "\<And>p. p \<in> set items \<Longrightarrow> full_item p \<and> gives (sexpr_compact (Some (item_val p))) (c (item_val p), b (item_val p))"
  shows "gives (compact_alist_loop items nvl) (nv.put_all (map (\<lambda>p. (item_name p, c (item_val p))) items) nvl)"
  using assms
proof (induction items arbitrary: nvl)
  case (Cons p items)
  obtain n where p: "p = VCons (Some n) (Some (item_val p))" "gives (pair_name_of (Some n)) (Some (item_name p))"
    using full_item_cases [of p] Cons.prems [of p] by auto
  have v: "gives (sexpr_compact (Some (item_val p))) (c (item_val p), b (item_val p))" using Cons.prems by simp
  have vs: "gives (compact_alist_loop items nvl) (nv.put_all (map (\<lambda>p. (item_name p, c (item_val p))) items) nvl)" for nvl
    using Cons by simp
  show ?case
    by (subst p(1), simp, rule gives_andthen [OF p(2)], simp, rule gives_andthen [OF v], simp, rule gives_andthen [OF gives_set_pair_in])
      (use vs in \<open>simp add: nv.put_all_def\<close>)
qed (auto simp: nv.put_all_def)


subsection \<open>Values that can be compacted\<close>

lemma each_member_size: "x \<in> set (for_each_vals (Some v)) \<Longrightarrow> size x < size v"
  using size_list_member [of x "for_each_vals (Some v)" size] each_weight [of v] by linarith

text \<open>
  The lists that become arrays hold no null pointers and are shorter than the largest \<open>int\<close>, every item of an
  association list has a value, the names are C strings, and the arrays and name-value lists inside are
  well formed.
\<close>

function (sequential) cok :: "val \<Rightarrow> bool" where
  "cok (VArray vs) \<longleftrightarrow> length vs \<le> SSIZE_MAX div 8 \<and> (\<forall>v \<in> set vs. cok v)"
| "cok (VNvl kvs) \<longleftrightarrow> nv_sorted kvs \<and> (\<forall>p \<in> set kvs. cok (snd p))"
| "cok (VCons h t) \<longleftrightarrow>
     (let items = for_each_vals (Some (VCons h t)) in
      case what_is_it (Some (VCons h t)) of
        VT_ARRAY \<Rightarrow> sexpr_length (Some (VCons h t)) = int (length items) \<and> length items < 2 ^ 31 \<and> (\<forall>v \<in> set items. cok v)
      | VT_NVL \<Rightarrow> (\<forall>p \<in> set items. full_item p \<and> cok (item_val p))
      | _ \<Rightarrow> True)"
| "cok v \<longleftrightarrow> True"
  by pat_completeness auto

termination
  by (relation "measure size")
    (use size_list_member [of _ _ size] nvl_member_size each_member_size item_val_size order.strict_trans1 in fastforce)+

text \<open>Nothing is left that could be compacted.\<close>

fun compacted :: "val \<Rightarrow> bool" where
  "compacted (VArray vs) \<longleftrightarrow> (\<forall>v \<in> set vs. compacted v)"
| "compacted (VNvl kvs) \<longleftrightarrow> (\<forall>p \<in> set kvs. compacted (snd p))"
| "compacted (VCons h t) \<longleftrightarrow> what_is_it (Some (VCons h t)) \<in> {VT_CONS, VT_NULL}"
| "compacted _ \<longleftrightarrow> True"

lemma what_is_it_cases: "what_is_it v \<in> {VT_NULL, VT_NVL, VT_ARRAY, VT_CONS}"
proof -
  have "what_loop v b \<in> {VT_NVL, VT_ARRAY, VT_CONS}" for v b
    by (induction v b rule: what_loop.induct) auto
  then show ?thesis by (auto simp: what_is_it_def)
qed

lemma compacted_cpt: "compacted v \<Longrightarrow> cpt v = v"
  by (induction v rule: compacted.induct) (auto simp: Let_def intro!: map_idI)

lemma snd_nv_put: "snd ` set (nv_put n v kvs) \<subseteq> insert v (snd ` set kvs)"
  by (cases "pairs_find n kvs") (auto simp: nv_put_def set_pairs_add)

lemma snd_put_all: "snd ` set (nv.put_all ps kvs) \<subseteq> snd ` set ps \<union> snd ` set kvs"
proof (induction ps arbitrary: kvs)
  case (Cons p ps)
  have "nv.put_all (p # ps) kvs = nv.put_all ps (nv_put (fst p) (snd p) kvs)" by (simp add: nv.put_all_def)
  then show ?case using Cons [of "nv_put (fst p) (snd p) kvs"] snd_nv_put [of "fst p" "snd p" kvs] by auto
qed (simp add: nv.put_all_def)

lemma cpt_compacted: "compacted (cpt v)"
proof (induction v rule: cpt.induct)
  case (3 h t)
  let ?items = "for_each_vals (Some (VCons h t))"
  have IH: "compacted (cpt x)" if "what_is_it (Some (VCons h t)) = VT_ARRAY" "x \<in> set ?items" for x
    using 3(1) [OF refl that] .
  have IH': "compacted (cpt (item_val x))" if "what_is_it (Some (VCons h t)) = VT_NVL" "x \<in> set ?items" for x
    using 3(2) [OF refl that] .
  have "compacted (snd p)"
    if "what_is_it (Some (VCons h t)) = VT_NVL" "p \<in> set (nv.put_all (map (\<lambda>p. (item_name p, cpt (item_val p))) ?items) [])" for p
    using that IH' snd_put_all [of "map (\<lambda>p. (item_name p, cpt (item_val p))) ?items" "[]"] by fastforce
  then show ?case using IH what_is_it_cases [of "Some (VCons h t)"] by (auto simp: Let_def)
qed auto

lemma length_loop_ge: "length_loop v n = - 1 \<or> n \<le> length_loop v n"
  by (induction v n rule: length_loop.induct) auto

lemma list_to_array_items:
  assumes "length_loop v n = n + int (length (for_each_vals v))" and "0 \<le> n"
  shows "sexpr_list_to_array v (length (for_each_vals v)) = Inr (map Some (for_each_vals v))"
  using assms
proof (induction v arbitrary: n rule: for_each_vals.induct)
  case (1 h t)
  then show ?case using "1.IH" [of "n + 1"] by simp
next
  case (2 t)
  then show ?case using length_loop_ge [of t "n + 1"] by (auto split: if_splits)
qed auto

lemma put_all_sorted: "nv_sorted (dst @ kvs) \<Longrightarrow> nv.put_all kvs dst = dst @ kvs"
proof (induction kvs arbitrary: dst)
  case (Cons p kvs)
  have "nv_sorted (dst @ [p])" using Cons.prems by (auto simp: nv_sorted_def sorted_wrt_append)
  then have "nv_put (fst p) (snd p) dst = dst @ [p]" by (rule nv_put_append)
  then show ?case using Cons.IH [of "dst @ [p]"] Cons.prems by (simp add: nv.put_all_def)
qed (simp add: nv.put_all_def)


lemma gives_cons_array:
  assumes "sexpr_length (Some v) = int (length (for_each_vals (Some v)))" and "length (for_each_vals (Some v)) < 2 ^ 31"
    and "\<And>x. x \<in> set (for_each_vals (Some v)) \<Longrightarrow> gives (sexpr_compact (Some x)) (c x, b x)"
  shows "gives (sexpr_compact_cons_array v) (VArray (map c (for_each_vals (Some v))), False)"
proof -
  let ?items = "for_each_vals (Some v)"
  have arr: "sexpr_list_to_array (Some v) (length ?items) = Inr (map Some ?items)"
    using list_to_array_items [of "Some v" 0] assms(1) by (simp add: sexpr_length_def del: for_each_vals.simps)
  have "to_int (int (length ?items)) = int (length ?items)"
    unfolding to_int_def by (rule signed_take_bit_int_eq_self) (use assms(2) in auto)
  then have eq: "sexpr_compact_cons_array v =
      andthen (compact_arr_loop (map Some ?items)) (\<lambda>vs. andthen (val_alloc_array_dup vs) (\<lambda>v. cret (v, False)))"
    using arr assms(1) by (simp add: Let_def del: for_each_vals.simps)
  have len: "length (map c ?items) \<le> SSIZE_MAX div 8" using assms(2) by (simp add: bound_simps)
  show ?thesis unfolding eq
    by (rule gives_andthen [OF gives_arr_loop [of ?items c b]]) (use assms(3) gives_array_copy [OF len] in simp_all)
qed

lemma gives_cons_nvl:
  assumes "\<And>p. p \<in> set (for_each_vals (Some v)) \<Longrightarrow>
    full_item p \<and> gives (sexpr_compact (Some (item_val p))) (c (item_val p), b (item_val p))"
  shows "gives (sexpr_compact_cons_nvl v)
    (VNvl (nv.put_all (map (\<lambda>p. (item_name p, c (item_val p))) (for_each_vals (Some v))) []), False)"
  by (simp del: for_each_vals.simps, rule gives_andthen [OF gives_yields [OF yields_val_alloc(7)]],
      rule gives_andthen [OF gives_alist_loop [of _ c b, OF assms]]) (auto simp del: for_each_vals.simps)

lemma gives_compact: "cok v \<Longrightarrow> gives (sexpr_compact (Some v)) (cpt v, compacted v)"
proof (induction v rule: cpt.induct)
  case (1 vs)
  have "gives (compact_array_loop vs) (map (\<lambda>v. Some (cpt v)) vs, \<forall>v \<in> set vs. compacted v)"
    by (rule gives_array_loop) (use 1 in auto)
  moreover have "gives (if \<forall>v \<in> set vs. compacted v then cret (VArray vs, True)
      else dup_results (map (\<lambda>v. Some (cpt v)) vs)) (cpt (VArray vs), compacted (VArray vs))"
  proof (cases "compacted (VArray vs)")
    case True
    then show ?thesis using compacted_cpt [OF True] by (simp del: cpt.simps add: gives_cret)
  next
    case False
    then have no: "(\<forall>v \<in> set vs. compacted v) = False" by simp
    show ?thesis using gives_array_copy [of "map cpt vs"] 1(2) by (simp add: no dup_results_Some)
  qed
  ultimately show ?case by (simp del: cpt.simps compacted.simps) (rule gives_andthen, assumption, simp del: cpt.simps)
next
  case (2 kvs)
  let ?kvs = "map (\<lambda>p. (fst p, cpt (snd p))) kvs"
  have "nv_sorted ([] @ ?kvs)" using 2(2) by (simp add: nv_sorted_def comp_def)
  then have "nv.put_all ?kvs [] = ?kvs" using put_all_sorted by fastforce
  then have "gives (compact_nvl_loop kvs []) (?kvs, \<forall>p \<in> set kvs. compacted (snd p))"
    using gives_nvl_loop [of kvs cpt compacted "[]"] 2 by auto
  moreover have "gives (if \<forall>p \<in> set kvs. compacted (snd p) then cret (VNvl kvs, True) else cret (VNvl ?kvs, False))
      (cpt (VNvl kvs), compacted (VNvl kvs))"
  proof -
    have "gives (if b then cret (VNvl kvs, True) else cret (VNvl ?kvs, False)) (VNvl ?kvs, b)" if "b \<longrightarrow> ?kvs = kvs" for b
      using that by (cases b) (auto simp: gives_cret)
    then show ?thesis using compacted_cpt [of "VNvl kvs"] by simp
  qed
  ultimately show ?case
    by (simp del: cpt.simps compacted.simps) (rule gives_andthen [OF gives_yields [OF yields_val_alloc(7)]], rule gives_andthen,
      assumption, simp del: cpt.simps)
next
  case (3 h t)
  let ?v = "VCons h t"
  let ?items = "for_each_vals (Some ?v)"
  consider "what_is_it (Some ?v) = VT_ARRAY" | "what_is_it (Some ?v) = VT_NVL" | "compacted ?v"
    using what_is_it_cases [of "Some ?v"] by auto
  then show ?case
  proof cases
    case 1
    have "gives (sexpr_compact_cons_array ?v) (VArray (map cpt ?items), False)"
      by (rule gives_cons_array [where b = compacted]) (use 3 1 in \<open>auto simp: Let_def simp del: for_each_vals.simps\<close>)
    then show ?thesis using 1 by (simp add: Let_def del: for_each_vals.simps)
  next
    case 2
    have "gives (sexpr_compact_cons_nvl ?v) (VNvl (nv.put_all (map (\<lambda>p. (item_name p, cpt (item_val p))) ?items) []), False)"
      by (rule gives_cons_nvl [where b = compacted]) (use 3 2 in \<open>auto simp: Let_def simp del: for_each_vals.simps\<close>)
    then show ?thesis using 2 by (simp add: Let_def del: for_each_vals.simps)
  next
    case c: 3
    then show ?thesis using compacted_cpt [OF c] by (auto simp: gives_def simp del: cpt.simps)
  qed
qed (auto simp: gives_cret)


subsection \<open>What compaction is to give\<close>

text \<open>
  The elements of a list: a list ends with a null pointer or with an empty cell; cells that end with anything else are not
  a list.
\<close>

fun proper_list :: "val option \<Rightarrow> val option list option" where
  "proper_list None = Some []"
| "proper_list (Some (VCons None None)) = Some []"
| "proper_list (Some (VCons h t)) = map_option ((#) h) (proper_list t)"
| "proper_list (Some _) = None"

text \<open>An element that has a name, and the name and the value of one that has both.\<close>

definition named :: "val \<Rightarrow> bool" where
  "named p \<longleftrightarrow> (\<exists>s v. p = VCons (Some (VStr s)) v \<or> p = VCons (Some (VSym s)) v)"

definition entry_of :: "val \<Rightarrow> bytes \<times> val \<Rightarrow> bool" where
  "entry_of p nv \<longleftrightarrow> p = VCons (Some (VStr (fst nv))) (Some (snd nv)) \<or> p = VCons (Some (VSym (fst nv))) (Some (snd nv))"

text \<open>
  The relation of a value and its compaction: values without parts, cells that are not a list and the empty cell stay as
  they are; a list with an element that has no name becomes the array of its compacted elements; a list whose elements all
  have names becomes the name-value list that binds each name to the compaction of the last value given for it.
\<close>

inductive compacts_to :: "val \<Rightarrow> val \<Rightarrow> bool" where
  atom: "vtype v \<notin> {VT_ARRAY, VT_NVL, VT_CONS} \<Longrightarrow> compacts_to v v"
| array: "list_all2 compacts_to vs ws \<Longrightarrow> compacts_to (VArray vs) (VArray ws)"
| nvl: "map fst kvs = map fst kws \<Longrightarrow> list_all2 compacts_to (map snd kvs) (map snd kws) \<Longrightarrow> compacts_to (VNvl kvs) (VNvl kws)"
| cells: "proper_list (Some (VCons h t)) = None \<Longrightarrow> compacts_to (VCons h t) (VCons h t)"
| empty: "compacts_to (VCons None None) (VCons None None)"
| elems: "proper_list (Some (VCons h t)) = Some (map Some vs) \<Longrightarrow> v \<in> set vs \<Longrightarrow> \<not> named v \<Longrightarrow>
    list_all2 compacts_to vs ws \<Longrightarrow> compacts_to (VCons h t) (VArray ws)"
| alist: "proper_list (Some (VCons h t)) = Some (map Some vs) \<Longrightarrow> vs \<noteq> [] \<Longrightarrow> list_all2 entry_of vs kvs \<Longrightarrow>
    list_all2 compacts_to (map snd kvs) ws \<Longrightarrow> nv_sorted out \<Longrightarrow> map_of out = map_of (rev (zip (map fst kvs) ws)) \<Longrightarrow>
    compacts_to (VCons h t) (VNvl out)"

lemma proper_list_cons:
  "proper_list (Some (VCons h t)) = (if h = None \<and> t = None then Some [] else map_option ((#) h) (proper_list t))"
  by (cases h; cases t) auto

lemma what_loop_proper:
  "what_loop v b = (case proper_list v of None \<Rightarrow> VT_CONS | Some xs \<Rightarrow> if b \<and> list_all is_pair_item xs then VT_NVL else VT_ARRAY)"
  by (induction v b rule: what_loop.induct) (auto simp: proper_list_cons split: option.splits)

lemma for_each_proper: "proper_list v = Some xs \<Longrightarrow> for_each_vals v = map the (takeWhile (\<lambda>x. x \<noteq> None) xs)"
  by (induction v arbitrary: xs rule: for_each_vals.induct) (auto simp: proper_list_cons split: if_splits)

lemma length_proper: "proper_list v = Some xs \<Longrightarrow> length_loop v n = n + int (length xs)"
  by (induction v n arbitrary: xs rule: length_loop.induct) (auto simp: proper_list_cons split: if_splits)

lemma takeWhile_full: "length (takeWhile P xs) = length xs \<Longrightarrow> takeWhile P xs = xs"
  by (metis takeWhile_eq_take take_all order_refl)

lemma proper_full:
  assumes "proper_list v = Some xs" and "None \<notin> set xs"
  shows "xs = map Some (for_each_vals v)"
proof -
  have some: "x \<noteq> None" if "x \<in> set xs" for x using that assms(2) by metis
  then have "takeWhile (\<lambda>x. x \<noteq> None) xs = xs" unfolding takeWhile_eq_all_conv by blast
  then have "for_each_vals v = map the xs" using for_each_proper [OF assms(1)] by metis
  moreover have "map (\<lambda>x. Some (the x)) xs = xs" using some by (intro map_idI) auto
  ultimately show ?thesis by (simp add: comp_def)
qed

lemma proper_items:
  assumes "proper_list v = Some xs" and "length (for_each_vals v) = length xs"
  shows "xs = map Some (for_each_vals v)"
proof (rule proper_full [OF assms(1)])
  have "takeWhile (\<lambda>x. x \<noteq> None) xs = xs"
    using assms for_each_proper [OF assms(1)] by (intro takeWhile_full) simp
  then show "None \<notin> set xs" unfolding takeWhile_eq_all_conv by blast
qed

lemma is_pair_item_named: "is_pair_item (Some p) \<longleftrightarrow> named p"
  by (cases "Some p" rule: is_pair_item.cases) (auto simp: named_def)

lemma entry_full_item: "full_item p \<Longrightarrow> entry_of p (item_name p, item_val p)"
  by (cases "Some p" rule: is_pair_item.cases) (auto simp: full_item_def entry_of_def)

lemma map_of_put_all: "map_of (nv.put_all kvs s) = map_of s ++ map_of (rev kvs)" if "nv_sorted s"
  using that
proof (induction kvs arbitrary: s)
  case (Cons p kvs)
  have "nv.put_all (p # kvs) s = nv.put_all kvs (nv_put (fst p) (snd p) s)" by (simp add: nv.put_all_def)
  then show ?case
    using Cons.IH [OF nv.inv_put [OF Cons.prems], of "fst p" "snd p"] nv.look_put [OF Cons.prems, of "fst p" "snd p"]
    by (cases p) (auto simp: map_add_def fun_eq_iff split: option.splits)
qed (simp add: nv.put_all_def)

lemma cpt_compacts: "cok v \<Longrightarrow> compacts_to v (cpt v)"
proof (induction v rule: cpt.induct)
  case (1 vs)
  then show ?case by (auto intro!: compacts_to.array simp: list_all2_conv_all_nth)
next
  case (2 kvs)
  then have "compacts_to (snd p) (cpt (snd p))" if "p \<in> set kvs" for p using that by simp
  then show ?case by (simp add: compacts_to.nvl list_all2_conv_all_nth)
next
  case (3 h t)
  let ?v = "Some (VCons h t)"
  let ?items = "for_each_vals ?v"
  consider (null) "h = None" "t = None" | (cells) "proper_list ?v = None"
    | (nvl) xs where "what_is_it ?v = VT_NVL" "proper_list ?v = Some xs" "list_all is_pair_item xs" "xs \<noteq> []"
    | (arr) xs where "what_is_it ?v = VT_ARRAY" "proper_list ?v = Some xs" "\<not> list_all is_pair_item xs"
    using what_loop_proper [of ?v True] by (auto simp: what_is_it_def proper_list_cons split: option.splits if_splits)
  then show ?case
  proof cases
    case null
    then show ?thesis by (simp add: what_is_it_def compacts_to.empty)
  next
    case cells
    then have "what_is_it ?v \<in> {VT_CONS, VT_NULL}" using what_loop_proper [of ?v True] by (auto simp: what_is_it_def)
    then show ?thesis using cells by (auto simp: Let_def intro: compacts_to.cells)
  next
    case nvl
    have full: "full_item p" "cok (item_val p)" if "p \<in> set ?items" for p
      using 3(3) nvl(1) that by (auto simp: Let_def simp del: for_each_vals.simps)
    have "None \<notin> set xs" using nvl(3) by (auto simp: list_all_iff)
    then have xs: "proper_list ?v = Some (map Some ?items)" "?items \<noteq> []"
      using proper_full [OF nvl(2)] nvl(2,4) by (metis, metis list.simps(8))
    let ?kvs = "map (\<lambda>p. (item_name p, item_val p)) ?items"
    let ?ws = "map (\<lambda>p. cpt (item_val p)) ?items"
    have "list_all2 entry_of ?items ?kvs" using full(1) by (auto simp: list_all2_conv_all_nth entry_full_item simp del: for_each_vals.simps)
    moreover have "list_all2 compacts_to (map snd ?kvs) ?ws"
      using 3(2) [OF refl nvl(1)] full(2) by (auto simp: list_all2_conv_all_nth simp del: for_each_vals.simps)
    moreover have "zip (map fst ?kvs) ?ws = map (\<lambda>p. (item_name p, cpt (item_val p))) ?items"
      by (simp add: zip_map_map comp_def zip_same_conv_map del: for_each_vals.simps)
    moreover have "nv_sorted []" by (simp add: nv_sorted_def)
    ultimately have "compacts_to (VCons h t) (VNvl (nv.put_all (map (\<lambda>p. (item_name p, cpt (item_val p))) ?items) []))"
      using xs by (intro compacts_to.alist [of h t ?items ?kvs ?ws]) (simp_all add: nv.inv_put_all map_of_put_all del: for_each_vals.simps)
    then show ?thesis using nvl(1) by (simp add: Let_def del: for_each_vals.simps)
  next
    case arr
    have ok: "sexpr_length ?v = int (length ?items)" "\<forall>x \<in> set ?items. cok x"
      using 3(3) arr(1) by (simp_all add: Let_def del: for_each_vals.simps)
    have "length ?items = length xs" using ok(1) length_proper [OF arr(2), of 0] by (simp add: sexpr_length_def del: for_each_vals.simps)
    then have xs: "xs = map Some ?items" by (rule proper_items [OF arr(2)])
    then obtain x where x: "x \<in> set ?items" "\<not> named x"
      using arr(3) by (auto simp: list_all_iff is_pair_item_named simp del: for_each_vals.simps)
    have "list_all2 compacts_to ?items (map cpt ?items)"
      using 3(1) [OF refl arr(1)] ok(2) by (auto simp: list_all2_conv_all_nth simp del: for_each_vals.simps)
    then have "compacts_to (VCons h t) (VArray (map cpt ?items))"
      using compacts_to.elems [of h t ?items x] arr(2) x unfolding xs by blast
    then show ?thesis using arr(1) by (simp add: Let_def del: for_each_vals.simps)
  qed
qed (auto intro: compacts_to.atom)

lemma compacted_self: "compacted v \<Longrightarrow> compacts_to v v"
proof (induction v rule: compacted.induct)
  case (2 kvs)
  then have "compacts_to (snd p) (snd p)" if "p \<in> set kvs" for p using that by simp
  then show ?case by (simp add: compacts_to.nvl list_all2_conv_all_nth)
next
  case (3 h t)
  then show ?case
    using what_loop_proper [of "Some (VCons h t)" True]
    by (auto simp: what_is_it_def compacts_to.empty split: option.splits if_splits intro: compacts_to.cells)
qed (auto intro: compacts_to.intros simp: list_all2_conv_all_nth)

lemma cpt_same_iff: "cpt v = v \<longleftrightarrow> compacted v"
  using compacted_cpt cpt_compacted by metis

inductive_cases compacts_arrayE: "compacts_to (VArray vs) w"
inductive_cases compacts_nvlE: "compacts_to (VNvl kvs) w"
inductive_cases compacts_consE: "compacts_to (VCons h t) w"

lemma list_all2_det: "list_all2 (\<lambda>x y. R x y \<and> (\<forall>z. R x z \<longrightarrow> z = y)) xs ys \<Longrightarrow> list_all2 R xs zs \<Longrightarrow> zs = ys"
  by (induction xs ys arbitrary: zs rule: list_all2_induct) (auto simp: list_all2_Cons1)

lemma entry_det: "list_all2 entry_of vs kvs \<Longrightarrow> list_all2 entry_of vs kws \<Longrightarrow> kws = kvs"
  by (rule list_all2_det [of entry_of vs kvs kws]) (auto elim!: list_all2_mono simp: entry_of_def prod_eq_iff)

lemma entry_named: "list_all2 entry_of vs kvs \<Longrightarrow> v \<in> set vs \<Longrightarrow> named v"
  by (auto simp: list_all2_conv_all_nth in_set_conv_nth entry_of_def named_def)

lemma map_Some_eq: "map Some xs = map Some ys \<longleftrightarrow> xs = ys"
  by (simp add: inj_map_eq_map)

text \<open>A value has one compaction.\<close>

lemma compacts_to_unique: "compacts_to v w \<Longrightarrow> compacts_to v u \<Longrightarrow> u = w"
proof (induction v w arbitrary: u rule: compacts_to.induct)
  case (atom v)
  then show ?case by (cases v) (auto elim: compacts_to.cases)
next
  case (array vs ws)
  from array.prems show ?case
    using list_all2_det [of compacts_to vs ws] array.IH by (auto elim!: compacts_arrayE elim: list_all2_mono)
next
  case (nvl kvs kws)
  from nvl.prems obtain kxs where u: "u = VNvl kxs" "map fst kvs = map fst kxs" "list_all2 compacts_to (map snd kvs) (map snd kxs)"
    by (auto elim: compacts_nvlE)
  have "map snd kxs = map snd kws"
    by (rule list_all2_det [OF _ u(3)]) (use nvl.IH in \<open>auto elim: list_all2_mono\<close>)
  then show ?case using u(1,2) nvl.hyps(1) by (metis zip_map_fst_snd)
next
  case (cells h t)
  then show ?case by (auto elim!: compacts_consE)
next
  case empty
  then show ?case by (auto elim!: compacts_consE)
next
  case (elems h t vs v ws)
  from elems.prems show ?case
  proof (cases rule: compacts_to.cases)
    case (elems vs' v' ws')
    then have "vs' = vs" using elems.hyps(1) by (simp add: map_Some_eq)
    then show ?thesis using \<open>u = VArray ws'\<close> \<open>list_all2 compacts_to vs' ws'\<close> list_all2_det [of compacts_to vs ws ws'] elems.IH
      by (auto elim: list_all2_mono)
  next
    case (alist vs' kvs ws' out)
    then have "vs' = vs" using elems.hyps(1) by (simp add: map_Some_eq)
    then show ?thesis using \<open>list_all2 entry_of vs' kvs\<close> entry_named elems.hyps(2,3) by blast
  qed (use elems.hyps in auto)
next
  case (alist h t vs kvs ws out)
  from alist.prems show ?case
  proof (cases rule: compacts_to.cases)
    case (elems vs' v' ws')
    then have "vs' = vs" using alist.hyps(1) by (simp add: map_Some_eq)
    then show ?thesis using \<open>v' \<in> set vs'\<close> \<open>\<not> named v'\<close> entry_named alist.hyps(3) by blast
  next
    case (alist vs' kvs' ws' out')
    note new = this
    have "vs' = vs" using new(2) alist.hyps(1) by (simp add: map_Some_eq)
    then have kvs: "kvs' = kvs" using new(4) alist.hyps(3) entry_det by blast
    have "ws' = ws"
      by (rule list_all2_det [of compacts_to "map snd kvs"]) (use new(5) kvs alist.IH in \<open>auto elim: list_all2_mono\<close>)
    then show ?thesis using new kvs alist.hyps nv_sorted_eqI [of out' out] by simp
  qed (use alist.hyps in auto)
qed

subsection \<open>Properties\<close>

text \<open>
  C24. Compaction of a value without null elements succeeds when there is memory, and gives the value that \<open>compacts_to\<close>
  describes. The object itself is returned exactly if that is the value it already has, and compacting the result again
  changes nothing.
\<close>

theorem sexpr_compact_complete:
  assumes "cok v" and "mem_plenty m"
  shows "\<exists>w m'. sexpr_compact (Some v) m = (Inr (w, w = v), m') \<and> compacts_to v w \<and> (\<forall>u. compacts_to v u \<longrightarrow> u = w) \<and>
    compacts_to w w"
proof -
  obtain m' where "sexpr_compact (Some v) m = (Inr (cpt v, cpt v = v), m')"
    using gives_compact [OF assms(1)] assms(2) cpt_same_iff [of v] by (auto simp: gives_def)
  then show ?thesis using cpt_compacts [OF assms(1)] compacted_self [OF cpt_compacted [of v]]
      compacts_to_unique by blast
qed

theorem sexpr_compact_complete_witness:
  "\<exists>w m'. sexpr_compact (Some (VCons (Some (VInt 1)) None)) plain_mem = (Inr (w, w = VCons (Some (VInt 1)) None), m') \<and>
     compacts_to (VCons (Some (VInt 1)) None) w"
proof -
  have "cok (VCons (Some (VInt 1)) None)" by (simp add: what_is_it_def sexpr_length_def Let_def)
  from sexpr_compact_complete [OF this mem_plenty_plain] show ?thesis by blast
qed

lemma assoc_match_item: "is_pair_item (Some p) \<Longrightarrow> assoc_match name (Some p) \<longleftrightarrow> item_name p = name"
  by (cases p rule: item_name.cases) (auto simp: strcmp_eq)

lemma what_loop_False: "what_loop v False \<noteq> VT_NVL"
  by (induction v False rule: what_loop.induct) auto

lemma assoc_items:
  "\<forall>p \<in> set (for_each_vals v). is_pair_item (Some p) \<Longrightarrow> what_loop v b = VT_NVL \<Longrightarrow>
    sexpr_assoc v name = find (\<lambda>p. item_name p = name) (for_each_vals v)"
proof (induction v arbitrary: b rule: for_each_vals.induct)
  case (1 h t)
  then show ?case using assoc_match_item [of h name] by (auto split: if_splits)
next
  case (2 t)
  then show ?case by (auto simp: what_loop_False split: if_splits)
qed auto

lemma map_of_items:
  "map_of (map (\<lambda>p. (item_name p, f p)) items) name = map_option f (find (\<lambda>p. item_name p = name) items)"
  by (induction items) auto

text \<open>
  C25. An association list whose names differ becomes a name-value list in which every name has the compaction of the
  value that \<open>sexpr_assoc\<close> finds for it, and no other name is bound.
\<close>

theorem sexpr_compact_alist:
  assumes nvl: "what_is_it (Some v) = VT_NVL" and ok: "cok v" and m: "mem_plenty m"
    and names: "distinct (map item_name (for_each_vals (Some v)))"
  shows "\<exists>kvs m'. sexpr_compact (Some v) m = (Inr (VNvl kvs, False), m') \<and> nv_sorted kvs \<and>
    (\<forall>name. case sexpr_assoc (Some v) name of
       None \<Rightarrow> nvl_lookup kvs name = fail ENOENT
     | Some p \<Rightarrow> (\<exists>w b m''. sexpr_compact (sexpr_cdr (Some p)) m = (Inr (w, b), m'') \<and> nvl_lookup kvs name = Inr (name, w)))"
proof -
  obtain h t where v: "v = VCons h t" using nvl by (cases v) (auto simp: what_is_it_def)
  let ?items = "for_each_vals (Some v)"
  let ?kvs = "nv.put_all (map (\<lambda>p. (item_name p, cpt (item_val p))) ?items) []"
  have cpt: "cpt v = VNvl ?kvs" "\<not> compacted v" using nvl by (simp_all add: v Let_def del: for_each_vals.simps)
  have items: "full_item p" "cok (item_val p)" if "p \<in> set ?items" for p
    using ok nvl that by (auto simp: v Let_def simp del: for_each_vals.simps)
  obtain m' where run: "sexpr_compact (Some v) m = (Inr (VNvl ?kvs, False), m')"
    using gives_compact [OF ok] m cpt by (auto simp: gives_def)
  have sorted: "nv_sorted ?kvs" by (rule nv.inv_put_all) (simp add: nv_sorted_def)
  have "map fst (map (\<lambda>p. (item_name p, cpt (item_val p))) ?items) = map item_name ?items" by simp
  then have "map_of ?kvs = map_of (map (\<lambda>p. (item_name p, cpt (item_val p))) ?items)"
    using nv.look_put_all [of "[]" "map (\<lambda>p. (item_name p, cpt (item_val p))) ?items"] names
    by (simp add: nv_sorted_def del: for_each_vals.simps map_map)
  then have look: "map_of ?kvs name = map_option (\<lambda>p. cpt (item_val p)) (find (\<lambda>p. item_name p = name) ?items)" for name
    by (simp add: map_of_items del: for_each_vals.simps)
  have "what_loop (Some v) True = VT_NVL" using nvl by (auto simp: what_is_it_def split: if_splits)
  then have assoc: "sexpr_assoc (Some v) name = find (\<lambda>p. item_name p = name) ?items" for name
    using items(1) by (intro assoc_items) (auto simp: full_item_def)
  have "case sexpr_assoc (Some v) name of
       None \<Rightarrow> nvl_lookup ?kvs name = fail ENOENT
     | Some p \<Rightarrow> (\<exists>w b m''. sexpr_compact (sexpr_cdr (Some p)) m = (Inr (w, b), m'') \<and> nvl_lookup ?kvs name = Inr (name, w))"
    for name
  proof (cases "find (\<lambda>p. item_name p = name) ?items")
    case None
    then show ?thesis unfolding assoc nvl_lookup_map_of look by simp
  next
    case (Some p)
    then have p: "p \<in> set ?items" by (auto simp: find_Some_iff)
    obtain m'' where "sexpr_compact (Some (item_val p)) m = (Inr (cpt (item_val p), compacted (item_val p)), m'')"
      using gives_compact [OF items(2) [OF p]] m by (auto simp: gives_def)
    moreover have "sexpr_cdr (Some p) = Some (item_val p)"
      using full_item_cases [OF items(1) [OF p]] by (metis sexpr_cdr.simps(1))
    ultimately show ?thesis unfolding assoc nvl_lookup_map_of look Some by auto
  qed
  then show ?thesis using run sorted by blast
qed

theorem sexpr_compact_alist_witness:
  defines "al \<equiv> VCons (Some (VCons (Some (VSym [97])) (Some (VInt 1)))) None"
  shows "\<exists>kvs m'. sexpr_compact (Some al) plain_mem = (Inr (VNvl kvs, False), m') \<and> nv_sorted kvs"
  using sexpr_compact_alist [of al plain_mem]
  by (auto simp: al_def what_is_it_def Let_def full_item_def cstr_wf_def bound_simps)

text \<open>
  When a name occurs twice, \<open>sexpr_assoc\<close> finds the first value and the name-value list has the last one.
\<close>

lemma compact_last_wins:
  defines "al \<equiv> VCons (Some (VCons (Some (VStr [97])) (Some (VInt 1)))) (Some (VCons (Some (VCons (Some (VStr [97])) (Some (VInt 2)))) None))"
  shows "sexpr_assoc (Some al) [97] = Some (VCons (Some (VStr [97])) (Some (VInt 1)))"
    and "fst (sexpr_compact (Some al) plain_mem) = Inr (VNvl [([97], VInt 2)], False)"
proof -
  show "sexpr_assoc (Some al) [97] = Some (VCons (Some (VStr [97])) (Some (VInt 1)))" by (simp add: al_def)
  have "gives (sexpr_compact (Some al)) (cpt al, compacted al)"
    by (rule gives_compact) (simp add: al_def what_is_it_def Let_def full_item_def cstr_wf_def bound_simps)
  moreover have "cpt al = VNvl [([97], VInt 2)]" "\<not> compacted al"
    by (simp_all add: al_def what_is_it_def Let_def nv.put_all_def nv_put_def pairs_find_def)
  ultimately show "fst (sexpr_compact (Some al) plain_mem) = Inr (VNvl [([97], VInt 2)], False)"
    unfolding gives_def by (metis mem_plenty_plain fst_conv)
qed

text \<open>An item that has no value, in a list made by \<open>sexpr_array_to_list\<close>, makes the compaction follow a null pointer.\<close>

lemma compact_null_value:
  "fst (sexpr_compact (Some (VCons (Some (VCons (Some (VStr [97])) None)) None)) plain_mem) = Inl Fault"
  by (simp add: what_is_it_def val_alloc_nvl_def val_cell_def cell_alloc_def mem_request_def plain_mem_def
      sizeof_val_def bound_simps andthen_def)

end
