(* ===== verification/Sexpr_Eval.thy ===== *)
theory Sexpr_Eval
  imports Sexpr Json
begin

text \<open>
  The evaluator of s-expressions, \<^verbatim>\<open>src/sexpr_eval.c\<close>.

  The functions of an expression call \<open>sexpr_eval\<close> again; here they take the evaluator as their argument \<open>ev\<close>, and
  \<open>sexpr_eval\<close> with fuel hands them itself with less fuel. The environment's two lookup functions belong to the caller of
  the library: they are parameters, \<open>None\<close> for a null pointer.
\<close>

subsection \<open>Data\<close>

type_synonym evaluator = "val option \<Rightarrow> (mem, val option) cfun"

text \<open>A function gets the evaluator, the fuel that is left for its own loops, and the list of arguments.\<close>

record builtin_fxn =
  bf_name :: bytes
  bf_f :: "evaluator \<Rightarrow> nat \<Rightarrow> val option \<Rightarrow> (mem, val option) cfun"
  bf_arglen :: int

record sexpr_eval_env =
  env_symlookup :: "(bytes \<Rightarrow> (mem, val option) cfun) option"
  env_fxnlookup :: "(bytes \<Rightarrow> builtin_fxn option) option"

subsection \<open>Built-in functions\<close>

text \<open>\<open>while (el && (el->type == VT_CONS || el->type == VT_SYM)) el = sexpr_eval(el, env);\<close>\<close>

fun unfinished :: "val option \<Rightarrow> bool" where
  "unfinished (Some (VCons _ _)) \<longleftrightarrow> True"
| "unfinished (Some (VSym _)) \<longleftrightarrow> True"
| "unfinished _ \<longleftrightarrow> False"

primrec eval_el :: "evaluator \<Rightarrow> nat \<Rightarrow> val option \<Rightarrow> (mem, val option) cfun" where
  "eval_el ev 0 el = cerr Diverged"
| "eval_el ev (Suc n) el = (if unfinished el then andthen (ev el) (eval_el ev n) else cret el)"

text \<open>
  The macro \<open>__REDUCE\<close>: \<open>sel\<close> is the type check with the access to the member, \<open>op\<close> the operation. What is not a cell has no
  head and no tail.
\<close>

definition reduce_el :: "(val \<Rightarrow> 'a option) \<Rightarrow> ('a \<Rightarrow> 'a \<Rightarrow> 'a) \<Rightarrow> evaluator \<Rightarrow> nat \<Rightarrow> val option \<Rightarrow> 'a \<Rightarrow> (mem, 'a) cfun" where
  "reduce_el sel op ev n el ret =
     andthen (eval_el ev n el) (\<lambda>el'.
       case el' of
         None \<Rightarrow> cerr Panic
       | Some v \<Rightarrow> (case sel v of None \<Rightarrow> cerr Panic | Some x \<Rightarrow> cret (op ret x)))"

fun reduce_loop :: "(val option \<Rightarrow> 'a \<Rightarrow> (mem, 'a) cfun) \<Rightarrow> val option \<Rightarrow> 'a \<Rightarrow> (mem, 'a) cfun" where
  "reduce_loop body None ret = cret ret"
| "reduce_loop body (Some (VCons h t)) ret = andthen (body h ret) (reduce_loop body t)"
| "reduce_loop body (Some _) ret = andthen (body None ret) cret"

definition BOOL_REDUCE :: "bool \<Rightarrow> (bool \<Rightarrow> bool \<Rightarrow> bool) \<Rightarrow> evaluator \<Rightarrow> nat \<Rightarrow> val option \<Rightarrow> (mem, val option) cfun" where
  "BOOL_REDUCE ident op ev n args =
     andthen (reduce_loop (reduce_el (\<lambda>v. case v of VBool b \<Rightarrow> Some b | _ \<Rightarrow> None) op ev n) args ident) (\<lambda>ret.
       andthen (val_alloc_bool ret) (\<lambda>v. cret (Some v)))"

definition INT_REDUCE :: "u64 \<Rightarrow> (u64 \<Rightarrow> u64 \<Rightarrow> u64) \<Rightarrow> evaluator \<Rightarrow> nat \<Rightarrow> val option \<Rightarrow> (mem, val option) cfun" where
  "INT_REDUCE ident op ev n args =
     andthen (reduce_loop (reduce_el (\<lambda>v. case v of VInt i \<Rightarrow> Some i | _ \<Rightarrow> None) op ev n) args ident) (\<lambda>ret.
       andthen (VAL_ALLOC (val_alloc_int ret)) (\<lambda>v. cret (Some v)))"

definition fxn_or :: "evaluator \<Rightarrow> nat \<Rightarrow> val option \<Rightarrow> (mem, val option) cfun" where
  "fxn_or = BOOL_REDUCE False (\<or>)"

definition fxn_and :: "evaluator \<Rightarrow> nat \<Rightarrow> val option \<Rightarrow> (mem, val option) cfun" where
  "fxn_and = BOOL_REDUCE True (\<and>)"

definition fxn_add :: "evaluator \<Rightarrow> nat \<Rightarrow> val option \<Rightarrow> (mem, val option) cfun" where
  "fxn_add = INT_REDUCE 0 (+)"

definition fxn_mult :: "evaluator \<Rightarrow> nat \<Rightarrow> val option \<Rightarrow> (mem, val option) cfun" where
  "fxn_mult = INT_REDUCE 1 (*)"

definition fxn_quote :: "evaluator \<Rightarrow> nat \<Rightarrow> val option \<Rightarrow> (mem, val option) cfun" where
  "fxn_quote ev n args = cret (sexpr_car args)"

definition fxn_cxr :: "(val option \<Rightarrow> val option) \<Rightarrow> evaluator \<Rightarrow> val option \<Rightarrow> (mem, val option) cfun" where
  "fxn_cxr cxr ev args = andthen (ev (sexpr_car args)) (\<lambda>v. cret (cxr v))"

definition fxn_car :: "evaluator \<Rightarrow> nat \<Rightarrow> val option \<Rightarrow> (mem, val option) cfun" where
  "fxn_car ev n args = fxn_cxr sexpr_car ev args"

definition fxn_cdr :: "evaluator \<Rightarrow> nat \<Rightarrow> val option \<Rightarrow> (mem, val option) cfun" where
  "fxn_cdr ev n args = fxn_cxr sexpr_cdr ev args"

definition fxn_equal :: "evaluator \<Rightarrow> nat \<Rightarrow> val option \<Rightarrow> (mem, val option) cfun" where
  "fxn_equal ev n args =
     andthen (ev (sexpr_nth args 1)) (\<lambda>a. andthen (ev (sexpr_nth args 2)) (\<lambda>b.
       andthen (val_alloc_bool (sexpr_equal a b)) (\<lambda>v. cret (Some v))))"

definition fxn_if :: "evaluator \<Rightarrow> nat \<Rightarrow> val option \<Rightarrow> (mem, val option) cfun" where
  "fxn_if ev n args =
     (let t = sexpr_nth args 2; f = sexpr_nth args 3
      in andthen (ev (sexpr_nth args 1)) (\<lambda>c.
        case c of
          None \<Rightarrow> cerr Fault
        | Some (VBool b) \<Rightarrow> ev (if b then t else f)
        | Some _ \<Rightarrow> cerr Panic))"

definition builtins :: "builtin_fxn list" where
  "builtins =
     [\<lparr>bf_name = ascii ''and'', bf_f = fxn_and, bf_arglen = - 1\<rparr>,
      \<lparr>bf_name = ascii ''or'', bf_f = fxn_or, bf_arglen = - 1\<rparr>,
      \<lparr>bf_name = ascii ''+'', bf_f = fxn_add, bf_arglen = - 1\<rparr>,
      \<lparr>bf_name = ascii ''*'', bf_f = fxn_mult, bf_arglen = - 1\<rparr>,
      \<lparr>bf_name = ascii ''quote'', bf_f = fxn_quote, bf_arglen = 1\<rparr>,
      \<lparr>bf_name = ascii ''car'', bf_f = fxn_car, bf_arglen = 1\<rparr>,
      \<lparr>bf_name = ascii ''cdr'', bf_f = fxn_cdr, bf_arglen = 1\<rparr>,
      \<lparr>bf_name = ascii ''='', bf_f = fxn_equal, bf_arglen = 2\<rparr>,
      \<lparr>bf_name = ascii ''=='', bf_f = fxn_equal, bf_arglen = 2\<rparr>,
      \<lparr>bf_name = ascii ''if'', bf_f = fxn_if, bf_arglen = 3\<rparr>]"

definition fxnlookup_builtin :: "bytes \<Rightarrow> builtin_fxn option" where
  "fxnlookup_builtin name = find (\<lambda>b. strcmp (bf_name b) name = 0) builtins"

subsection \<open>Evaluation\<close>

text \<open>The environment's function, else the built-in one.\<close>

definition find_fxn :: "sexpr_eval_env \<Rightarrow> bytes \<Rightarrow> builtin_fxn option" where
  "find_fxn env name =
     (case env_fxnlookup env of
        None \<Rightarrow> fxnlookup_builtin name
      | Some look \<Rightarrow> (case look name of Some f \<Rightarrow> Some f | None \<Rightarrow> fxnlookup_builtin name))"

definition call_fxn :: "builtin_fxn \<Rightarrow> evaluator \<Rightarrow> nat \<Rightarrow> val option \<Rightarrow> (mem, val option) cfun" where
  "call_fxn fxn ev n args =
     (if bf_arglen fxn \<noteq> - 1 \<and> (word_of_int (sexpr_length args) :: u64) \<noteq> word_of_int (bf_arglen fxn) then cerr Panic
      else bf_f fxn ev n args)"

definition eval_cons :: "sexpr_eval_env \<Rightarrow> evaluator \<Rightarrow> nat \<Rightarrow> val option \<Rightarrow> (mem, val option) cfun" where
  "eval_cons env ev n expr =
     (case sexpr_car expr of
        Some (VSym name) \<Rightarrow>
          (case find_fxn env name of None \<Rightarrow> cerr Panic | Some fxn \<Rightarrow> call_fxn fxn ev n (sexpr_cdr expr))
      | _ \<Rightarrow> cerr Panic)"

primrec sexpr_eval :: "sexpr_eval_env \<Rightarrow> nat \<Rightarrow> evaluator" where
  "sexpr_eval env 0 expr = cerr Diverged"
| "sexpr_eval env (Suc n) expr =
     (case expr of
        Some (VSym s) \<Rightarrow> (case env_symlookup env of None \<Rightarrow> cerr Panic | Some look \<Rightarrow> look s)
      | Some (VCons h t) \<Rightarrow> eval_cons env (sexpr_eval env n) n expr
      | _ \<Rightarrow> cret expr)"

text \<open>The environment that stands for a null pointer.\<close>

definition emptyenv :: sexpr_eval_env where
  "emptyenv = \<lparr>env_symlookup = None, env_fxnlookup = None\<rparr>"


subsection \<open>Fuel\<close>

text \<open>The second evaluator gives the result of the first one wherever that does not run out of fuel.\<close>

definition refines :: "(mem, 'a) cfun \<Rightarrow> (mem, 'a) cfun \<Rightarrow> bool" where
  "refines f g \<longleftrightarrow> (\<forall>m. fst (f m) = Inl Diverged \<or> g m = f m)"

lemma refines_refl [intro]: "refines f f"
  by (simp add: refines_def)

lemma refines_Diverged [intro]: "refines (cerr Diverged) g"
  by (simp add: refines_def)

lemma refines_andthen: "refines f f' \<Longrightarrow> (\<And>x. refines (g x) (g' x)) \<Longrightarrow> refines (andthen f g) (andthen f' g')"
  unfolding refines_def
proof (intro allI)
  fix m
  assume f: "\<forall>m. fst (f m) = Inl Diverged \<or> f' m = f m" and g: "\<And>x. \<forall>m. fst (g x m) = Inl Diverged \<or> g' x m = g x m"
  show "fst (andthen f g m) = Inl Diverged \<or> andthen f' g' m = andthen f g m"
  proof (cases rule: andthen_cases [of f m g])
    case (err e m')
    then have "e = Diverged \<or> f' m = (Inl e, m')" using f [rule_format, of m] by auto
    then show ?thesis using err by auto
  next
    case (ok x m')
    then have "f' m = (Inr x, m')" using f [rule_format, of m] by auto
    then show ?thesis using ok g [of x, rule_format, of m'] by auto
  qed
qed

lemma refines_cret [intro]: "refines (Pair (Inr x)) (cret x)"
  by (simp add: refines_def)

definition ev_le :: "evaluator \<Rightarrow> evaluator \<Rightarrow> bool" where
  "ev_le ev ev' \<longleftrightarrow> (\<forall>e. refines (ev e) (ev' e))"

lemma eval_el_mono: "ev_le ev ev' \<Longrightarrow> n \<le> n' \<Longrightarrow> refines (eval_el ev n el) (eval_el ev' n' el)"
proof (induction n arbitrary: n' el)
  case (Suc n)
  obtain k where "n' = Suc k" "n \<le> k" using Suc.prems(2) by (cases n') auto
  then show ?case using Suc by (auto simp: ev_le_def intro: refines_andthen)
qed auto

lemma reduce_mono:
  assumes "\<And>h r. refines (f h r) (g h r)"
  shows "refines (reduce_loop f args ret) (reduce_loop g args ret)"
  using assms by (induction f args ret rule: reduce_loop.induct) (auto intro: refines_andthen)

lemma reduce_el_mono:
  "ev_le ev ev' \<Longrightarrow> n \<le> n' \<Longrightarrow> refines (reduce_el sel op ev n h r) (reduce_el sel op ev' n' h r)"
  unfolding reduce_el_def by (intro refines_andthen eval_el_mono refines_refl)

lemma builtin_mono:
  assumes "ev_le ev ev'" and "n \<le> n'" and "b \<in> set builtins"
  shows "refines (bf_f b ev n args) (bf_f b ev' n' args)"
proof -
  have ev: "refines (ev e) (ev' e)" for e using assms(1) by (simp add: ev_le_def)
  have int: "refines (INT_REDUCE i op ev n args) (INT_REDUCE i op ev' n' args)" for i op
    unfolding INT_REDUCE_def by (intro refines_andthen reduce_mono reduce_el_mono assms refines_refl)
  have bool: "refines (BOOL_REDUCE i op ev n args) (BOOL_REDUCE i op ev' n' args)" for i op
    unfolding BOOL_REDUCE_def by (intro refines_andthen reduce_mono reduce_el_mono assms refines_refl)
  have "refines (fxn_if ev n args) (fxn_if ev' n' args)"
    unfolding fxn_if_def Let_def
    by (intro refines_andthen ev) (auto intro: ev split: option.split val.split)
  moreover have "refines (fxn_equal ev n args) (fxn_equal ev' n' args)"
    unfolding fxn_equal_def by (intro refines_andthen ev refines_refl)
  moreover have "refines (fxn_cxr f ev args) (fxn_cxr f ev' args)" for f
    unfolding fxn_cxr_def by (intro refines_andthen ev refines_refl)
  ultimately show ?thesis
    using assms(3) int bool
    by (auto simp: builtins_def fxn_or_def fxn_and_def fxn_add_def fxn_mult_def fxn_quote_def [abs_def] fxn_car_def fxn_cdr_def)
qed

text \<open>Without functions of the caller.\<close>

definition builtin_env :: "sexpr_eval_env \<Rightarrow> bool" where
  "builtin_env env \<longleftrightarrow> env_fxnlookup env = None"

lemma find_fxn_builtin: "builtin_env env \<Longrightarrow> find_fxn env name = Some b \<Longrightarrow> b \<in> set builtins"
  by (auto simp: builtin_env_def find_fxn_def fxnlookup_builtin_def find_Some_iff)

lemma eval_mono: "builtin_env env \<Longrightarrow> n \<le> n' \<Longrightarrow> refines (sexpr_eval env n e) (sexpr_eval env n' e)"
proof (induction n arbitrary: n' e)
  case (Suc n)
  obtain k where k: "n' = Suc k" "n \<le> k" using Suc.prems(2) by (cases n') auto
  have le: "ev_le (sexpr_eval env n) (sexpr_eval env k)" using Suc.IH [OF Suc.prems(1) k(2)] by (simp add: ev_le_def)
  have "refines (eval_cons env (sexpr_eval env n) n e) (eval_cons env (sexpr_eval env k) k e)"
    using builtin_mono [OF le k(2)] find_fxn_builtin [OF Suc.prems(1)]
    by (auto simp: eval_cons_def call_fxn_def split: option.split val.split)
  then show ?case by (auto simp: k split: option.split val.split)
qed auto


subsection \<open>Evaluation ends\<close>

text \<open>The symbols stand for values, not for expressions.\<close>

definition value_env :: "sexpr_eval_env \<Rightarrow> bool" where
  "value_env env \<longleftrightarrow> (\<forall>look. env_symlookup env = Some look \<longrightarrow>
     (\<forall>s m. fst (look s m) \<noteq> Inl Diverged \<and> (\<forall>v. fst (look s m) = Inr v \<longrightarrow> \<not> unfinished v)))"

text \<open>A result that is not out of fuel, and is finished or smaller than \<open>k\<close>.\<close>

definition settled :: "nat \<Rightarrow> (mem, val option) cfun \<Rightarrow> bool" where
  "settled k f \<longleftrightarrow> (\<forall>m. fst (f m) \<noteq> Inl Diverged \<and>
     (\<forall>v. fst (f m) = Inr (Some v) \<longrightarrow> unfinished (Some v) \<longrightarrow> size v < k))"

definition ends :: "(mem, 'a) cfun \<Rightarrow> bool" where
  "ends f \<longleftrightarrow> (\<forall>m. fst (f m) \<noteq> Inl Diverged)"

lemma ends_cret [intro]: "ends (cret x)" "ends (Pair (Inr x))"
  by (simp_all add: ends_def)

lemma ends_cerr [intro]: "e \<noteq> Diverged \<Longrightarrow> ends (cerr e)"
  by (simp add: ends_def)

lemma ends_andthen: "ends f \<Longrightarrow> (\<And>x. ends (g x)) \<Longrightarrow> ends (andthen f g)"
proof -
  assume "ends f" and g: "\<And>x. ends (g x)"
  then have f: "fst (f m) \<noteq> Inl Diverged" for m by (simp add: ends_def)
  have "fst (andthen f g m) \<noteq> Inl Diverged" for m
    using f [of m] g by (cases rule: andthen_cases [of f m g]) (auto simp: ends_def)
  then show ?thesis by (simp add: ends_def)
qed

lemma settledD:
  assumes "settled k f"
  shows "f m = (Inl e, m') \<Longrightarrow> e \<noteq> Diverged" and "f m = (Inr (Some v), m') \<Longrightarrow> unfinished (Some v) \<Longrightarrow> size v < k"
  using assms [unfolded settled_def, rule_format, of m] by auto

lemma settledI:
  assumes "\<And>m e m'. f m = (Inl e, m') \<Longrightarrow> e \<noteq> Diverged"
    and "\<And>m v m'. f m = (Inr (Some v), m') \<Longrightarrow> unfinished (Some v) \<Longrightarrow> size v < k"
  shows "settled k f"
  unfolding settled_def using assms by (metis prod.collapse)

lemma settled_cerr [intro]: "e \<noteq> Diverged \<Longrightarrow> settled k (cerr e)"
  by (simp add: settled_def)

lemma settled_ends: "settled k f \<Longrightarrow> ends f"
  by (simp add: settled_def ends_def)

lemma settled_mono: "settled k f \<Longrightarrow> k \<le> k' \<Longrightarrow> settled k' f"
  unfolding settled_def by fastforce

lemma eval_el_ends:
  assumes "\<And>v. size v \<le> k \<Longrightarrow> settled (size v) (ev (Some v))" and "size_option size el \<le> Suc k" and "k + 2 \<le> n"
  shows "ends (eval_el ev n el)"
  using assms
proof (induction n arbitrary: el k)
  case (Suc n)
  show ?case
  proof (cases "unfinished el")
    case True
    then obtain v where el: "el = Some v" by (cases el) auto
    have step: "settled (size v) (ev (Some v))" using Suc.prems(1,2) by (simp add: el)
    have "fst (andthen (ev el) (eval_el ev n) m) \<noteq> Inl Diverged" for m
    proof (cases rule: andthen_cases [of "ev el" m "eval_el ev n"])
      case (err e m')
      then show ?thesis using settledD(1) [OF step] by (auto simp: el)
    next
      case (ok x m')
      have "ends (eval_el ev n x)"
      proof (cases "unfinished x")
        case True
        then obtain w where x: "x = Some w" by (cases x) auto
        have "size w < size v" using settledD(2) [OF step] ok(1) True by (simp add: el x)
        then show ?thesis using Suc.prems by (intro Suc.IH [of "k - 1"]) (auto simp: x el)
      next
        case False
        then show ?thesis using Suc.prems(3) by (cases n) auto
      qed
      then show ?thesis using ok(2) by (simp add: ends_def)
    qed
    then show ?thesis using True by (simp add: ends_def)
  qed auto
qed simp

lemma reduce_loop_ends:
  assumes "\<And>h r. size_option size h < size_option size args \<Longrightarrow> ends (body h r)" and "\<And>r. ends (body None r)"
  shows "ends (reduce_loop body args ret)"
  using assms by (induction body args ret rule: reduce_loop.induct) (auto intro!: ends_andthen)


text \<open>An evaluator that settles everything up to size \<open>k\<close>.\<close>

definition settles :: "nat \<Rightarrow> evaluator \<Rightarrow> bool" where
  "settles k ev \<longleftrightarrow> (\<forall>v. size v < k \<longrightarrow> settled (size v) (ev (Some v))) \<and> ev None = cret None"

lemma settles_ptr: "settles k ev \<Longrightarrow> size_option size p \<le> k \<Longrightarrow> settled k (ev p)"
proof (cases p)
  case (Some v)
  assume "settles k ev" and "size_option size p \<le> k"
  then have "settled (size v) (ev (Some v))" "size v \<le> k" by (auto simp: settles_def Some)
  then show ?thesis using settled_mono by (simp add: Some)
qed (simp add: settles_def settled_def)

lemma settles_less: "settles k ev \<Longrightarrow> j \<le> k \<Longrightarrow> settles j ev"
  by (simp add: settles_def)

lemma size_option_pos: "0 < size_option size p"
  by (cases p) auto

lemma car_size: "size_option size (sexpr_car p) \<le> size_option size p"
  by (cases p rule: sexpr_car.cases) (auto simp: Suc_leI size_option_pos)

lemma cdr_size: "size_option size (sexpr_cdr p) \<le> size_option size p"
  by (cases p rule: sexpr_cdr.cases) (auto simp: Suc_leI size_option_pos)

lemma nth_size: "size_option size (sexpr_nth p n) \<le> size_option size p"
proof (induction p n rule: sexpr_nth.induct)
  case (3 h t n)
  then show ?case by (cases n) auto
qed (auto simp: Suc_leI size_option_pos)

text \<open>A function that ends and gives a finished value.\<close>

lemma settled_finished:
  assumes "ends f" and "\<And>m v m'. f m = (Inr v, m') \<Longrightarrow> \<not> unfinished v"
  shows "settled k f"
  using assms by (intro settledI) (auto simp: ends_def, metis fst_conv)

lemma reduce_ends:
  assumes "settles k ev" and "size_option size args \<le> k" and "k < n"
  shows "ends (reduce_loop (reduce_el sel op ev n) args ret)"
proof (rule reduce_loop_ends)
  have el: "ends (eval_el ev n h)" if "size_option size h \<le> k" for h
    by (rule eval_el_ends [of "k - 1"]) (use assms that size_option_pos [of h] in \<open>auto simp: settles_def\<close>)
  have body: "ends (reduce_el sel op ev n h r)" if "size_option size h \<le> k" for h r
    unfolding reduce_el_def by (intro ends_andthen el that) (auto split: option.split)
  show "ends (reduce_el sel op ev n h r)" if "size_option size h < size_option size args" for h r
    using body that assms(2) by simp
  show "ends (reduce_el sel op ev n None r)" for r
    using body [of None] assms(2) size_option_pos [of args] by simp
qed

lemma ends_VAL_ALLOC_int: "ends (VAL_ALLOC (val_alloc_int i))"
  unfolding ends_def VAL_ALLOC_def val_alloc_int_def val_cell_def cell_alloc_def mem_request_def
  by (auto simp: andthen_def)

lemma int_reduce_settled:
  assumes "settles k ev" and "size_option size args \<le> k" and "k < n"
  shows "settled k (INT_REDUCE i op ev n args)"
proof (rule settled_finished)
  show "ends (INT_REDUCE i op ev n args)"
    unfolding INT_REDUCE_def by (intro ends_andthen reduce_ends [OF assms] ends_VAL_ALLOC_int ends_cret)
  fix m v m'
  assume "INT_REDUCE i op ev n args m = (Inr v, m')"
  then show "\<not> unfinished v"
    by (auto simp: INT_REDUCE_def VAL_ALLOC_def val_alloc_int_def val_cell_def cell_alloc_def mem_request_def
        elim!: andthen_InrE split: if_splits prod.splits sum.splits error.splits)
qed

lemma bool_reduce_settled:
  assumes "settles k ev" and "size_option size args \<le> k" and "k < n"
  shows "settled k (BOOL_REDUCE i op ev n args)"
proof (rule settled_finished)
  show "ends (BOOL_REDUCE i op ev n args)"
    unfolding BOOL_REDUCE_def val_alloc_bool_def by (intro ends_andthen reduce_ends [OF assms] ends_cret)
  fix m v m'
  assume "BOOL_REDUCE i op ev n args m = (Inr v, m')"
  then show "\<not> unfinished v" by (auto simp: BOOL_REDUCE_def val_alloc_bool_def elim!: andthen_InrE)
qed

lemma cxr_settled:
  assumes "settles k ev" and "size_option size args \<le> k" and cxr: "cxr = sexpr_car \<or> cxr = sexpr_cdr"
  shows "settled k (fxn_cxr cxr ev args)"
proof -
  have ev: "settled k (ev (sexpr_car args))"
    using settles_ptr [OF assms(1)] car_size [of args] assms(2) order_trans by blast
  show ?thesis
  proof (rule settledI)
    fix m e m'
    assume "fxn_cxr cxr ev args m = (Inl e, m')"
    then show "e \<noteq> Diverged"
      using settledD(1) [OF ev] by (cases rule: andthen_cases [of "ev (sexpr_car args)" m "\<lambda>v. cret (cxr v)"])
        (auto simp: fxn_cxr_def)
  next
    fix m v m'
    assume "fxn_cxr cxr ev args m = (Inr (Some v), m')"
    then obtain r m1 where r: "ev (sexpr_car args) m = (Inr r, m1)" "cxr r = Some v"
      by (auto simp: fxn_cxr_def elim!: andthen_InrE)
    obtain h t where c: "r = Some (VCons h t)" using r(2) cxr by (cases r rule: sexpr_car.cases) auto
    then show "size v < k" using settledD(2) [OF ev] r cxr by fastforce
  qed
qed


lemma equal_settled:
  assumes "settles k ev" and "size_option size args \<le> k"
  shows "settled k (fxn_equal ev n args)"
proof (rule settled_finished)
  have ev: "ends (ev (sexpr_nth args i))" for i
    using settles_ptr [OF assms(1), of "sexpr_nth args i"] nth_size [of args i] assms(2) by (simp add: settled_ends)
  show "ends (fxn_equal ev n args)"
    unfolding fxn_equal_def val_alloc_bool_def by (intro ends_andthen ev ends_cret)
  fix m v m'
  assume "fxn_equal ev n args m = (Inr v, m')"
  then show "\<not> unfinished v" by (auto simp: fxn_equal_def val_alloc_bool_def elim!: andthen_InrE)
qed

lemma if_settled:
  assumes "settles k ev" and "size_option size args \<le> k"
  shows "settled k (fxn_if ev n args)"
proof -
  have ev: "settled k (ev (sexpr_nth args i))" for i
    using settles_ptr [OF assms(1), of "sexpr_nth args i"] nth_size [of args i] assms(2) by simp
  let ?g = "\<lambda>c. case c of None \<Rightarrow> cerr Fault | Some (VBool b) \<Rightarrow> ev (if b then sexpr_nth args 2 else sexpr_nth args 3)
    | Some _ \<Rightarrow> cerr Panic"
  have g: "settled k (?g c)" for c
  proof (cases c)
    case (Some v)
    then show ?thesis using ev by (cases v) (auto simp: settled_def)
  qed (simp add: settled_def)
  have eq: "fxn_if ev n args = andthen (ev (sexpr_nth args 1)) ?g" by (simp add: fxn_if_def Let_def)
  show ?thesis
  proof (rule settledI)
    fix m e m'
    assume run: "fxn_if ev n args m = (Inl e, m')"
    show "e \<noteq> Diverged"
    proof (cases rule: andthen_cases [of "ev (sexpr_nth args 1)" m ?g])
      case (err e' s')
      then show ?thesis using run settledD(1) [OF ev err(1)] by (simp add: eq)
    next
      case (ok x s')
      then have "?g x s' = (Inl e, m')" using run by (simp add: eq)
      then show ?thesis by (rule settledD(1) [OF g])
    qed
  next
    fix m v m'
    assume "fxn_if ev n args m = (Inr (Some v), m')" and "unfinished (Some v)"
    then show "size v < k" unfolding eq using settledD(2) [OF g] by (auto elim!: andthen_InrE)
  qed
qed

lemma builtin_settled:
  assumes "settles k ev" and "size_option size args \<le> k" and "k < n" and "b \<in> set builtins"
  shows "settled k (bf_f b ev n args)"
proof -
  have quote: "settled k (fxn_quote ev n args)"
    using car_size [of args] assms(2) by (auto simp: settled_def fxn_quote_def)
  show ?thesis
    using assms(4) quote int_reduce_settled [OF assms(1-3)] bool_reduce_settled [OF assms(1-3)] cxr_settled [OF assms(1,2)]
      equal_settled [OF assms(1,2)] if_settled [OF assms(1,2)]
    by (auto simp: builtins_def fxn_or_def fxn_and_def fxn_add_def fxn_mult_def fxn_car_def fxn_cdr_def)
qed

lemma eval_settled:
  assumes "builtin_env env" and "value_env env" and "size e + 2 \<le> n"
  shows "settled (size e) (sexpr_eval env n (Some e))"
  using assms(3)
proof (induction "size e" arbitrary: e n rule: less_induct)
  case less
  obtain k where n: "n = Suc k" "size e < k" using less.prems by (cases n) auto
  have sym: "settled (size e) (sexpr_eval env n (Some (VSym s)))" for s
  proof (cases "env_symlookup env")
    case (Some look)
    then show ?thesis using assms(2) by (auto simp: n value_env_def settled_def)
  qed (simp add: n settled_def)
  have cons: "settled (size e) (eval_cons env (sexpr_eval env k) k (Some e))" if e: "e = VCons h t" for h t
  proof -
    have t: "size_option size t \<le> size e" "size_option size t < size e" by (simp_all add: e)
    have "settled (size v) (sexpr_eval env k (Some v))" if "size v < size_option size t" for v
      by (rule less.hyps) (use that t(2) n(2) in linarith)+
    moreover have "sexpr_eval env k None = cret None" using n(2) by (cases k) (simp_all add: fun_eq_iff)
    ultimately have "settles (size_option size t) (sexpr_eval env k)" by (simp add: settles_def)
    then have "settled (size e) (bf_f b (sexpr_eval env k) k t)" if "b \<in> set builtins" for b
      using builtin_settled [OF _ _ _ that, of "size_option size t" "sexpr_eval env k" t k] t n(2) settled_mono by simp
    then show ?thesis
      using find_fxn_builtin [OF assms(1)]
      by (auto simp: e eval_cons_def call_fxn_def split: option.split val.split)
  qed
  show ?case
    using sym cons by (cases e) (auto simp: n settled_def)
qed

text \<open>
  C26. Evaluation always ends when the symbols stand for values and there are no functions of the caller: from an
  amount of fuel on that the size of the expression gives, the result is the same, and it is not that the fuel ran out.
\<close>

theorem sexpr_eval_terminates:
  assumes "builtin_env env" and "value_env env"
  shows "\<exists>r m'. fst (r, m') \<noteq> Inl Diverged \<and> (\<forall>fuel \<ge> size e + 2. sexpr_eval env fuel (Some e) m = (r, m'))"
proof -
  obtain r m' where run: "sexpr_eval env (size e + 2) (Some e) m = (r, m')" by (cases "sexpr_eval env (size e + 2) (Some e) m")
  have r: "r \<noteq> Inl Diverged"
    using eval_settled [OF assms, of e "size e + 2"] run settledD(1) by (cases r) (auto simp del: sexpr_eval.simps)
  have "sexpr_eval env fuel (Some e) m = (r, m')" if "size e + 2 \<le> fuel" for fuel
    using eval_mono [OF assms(1) that, of "Some e", unfolded refines_def, rule_format, of m] run r
    by (simp del: sexpr_eval.simps)
  then show ?thesis using r by (auto simp del: sexpr_eval.simps)
qed

theorem sexpr_eval_terminates_witness:
  "\<exists>r m'. fst (r, m') \<noteq> Inl Diverged \<and>
    (\<forall>fuel \<ge> size (VCons (Some (VSym (ascii ''+''))) None) + 2.
      sexpr_eval emptyenv fuel (Some (VCons (Some (VSym (ascii ''+''))) None)) plain_mem = (r, m'))"
  by (rule sexpr_eval_terminates) (simp_all add: builtin_env_def value_env_def emptyenv_def)


subsection \<open>Values of expressions\<close>

lemma reduce_loop_values:
  assumes "\<And>x r. sel (con x) = Some x \<and> \<not> unfinished (Some (con x))"
  shows "reduce_loop (reduce_el sel op ev (Suc n)) (null_list (map (\<lambda>x. Some (con x)) xs)) ret m = (Inr (foldl op ret xs), m)"
  using assms by (induction xs arbitrary: ret) (auto simp: reduce_el_def)

lemma foldl_plus: "foldl (+) a xs = a + sum_list xs" for a :: u64
  by (induction xs arbitrary: a) (auto simp: add.assoc)

lemma foldl_times: "foldl (*) a xs = a * prod_list xs" for a :: u64
  by (induction xs arbitrary: a) (auto simp: mult.assoc)

lemma foldl_or: "foldl (\<or>) a xs \<longleftrightarrow> a \<or> True \<in> set xs"
  by (induction xs arbitrary: a) auto

lemma foldl_and: "foldl (\<and>) a xs \<longleftrightarrow> a \<and> False \<notin> set xs"
  by (induction xs arbitrary: a) auto

definition call_list :: "string \<Rightarrow> val list \<Rightarrow> val option" where
  "call_list f args = null_list (Some (VSym (ascii f)) # map Some args)"

lemma builtin_names:
  "fxnlookup_builtin (ascii ''and'') = Some \<lparr>bf_name = ascii ''and'', bf_f = fxn_and, bf_arglen = - 1\<rparr>"
  "fxnlookup_builtin (ascii ''or'') = Some \<lparr>bf_name = ascii ''or'', bf_f = fxn_or, bf_arglen = - 1\<rparr>"
  "fxnlookup_builtin (ascii ''+'') = Some \<lparr>bf_name = ascii ''+'', bf_f = fxn_add, bf_arglen = - 1\<rparr>"
  "fxnlookup_builtin (ascii ''*'') = Some \<lparr>bf_name = ascii ''*'', bf_f = fxn_mult, bf_arglen = - 1\<rparr>"
  by (simp_all add: fxnlookup_builtin_def builtins_def)

lemma eval_call:
  assumes "builtin_env env" and "fxnlookup_builtin (ascii f) = Some b" and "bf_arglen b = - 1"
  shows "sexpr_eval env (Suc n) (call_list f args) m = bf_f b (sexpr_eval env n) n (null_list (map Some args)) m"
  using assms by (simp add: call_list_def eval_cons_def call_fxn_def find_fxn_def builtin_env_def)

lemma reduce_ints:
  "reduce_loop (reduce_el (\<lambda>v. case v of VInt i \<Rightarrow> Some i | _ \<Rightarrow> None) op ev (Suc n)) (null_list (map Some (map VInt is))) ret m =
    (Inr (foldl op ret is), m)"
  using reduce_loop_values [of "\<lambda>v. case v of VInt i \<Rightarrow> Some i | _ \<Rightarrow> None" VInt] by (simp add: comp_def)

lemma reduce_bools:
  "reduce_loop (reduce_el (\<lambda>v. case v of VBool i \<Rightarrow> Some i | _ \<Rightarrow> None) op ev (Suc n)) (null_list (map Some (map VBool bs))) ret m =
    (Inr (foldl op ret bs), m)"
  using reduce_loop_values [of "\<lambda>v. case v of VBool i \<Rightarrow> Some i | _ \<Rightarrow> None" VBool] by (simp add: comp_def)

text \<open>
  Sums and products of integers are taken modulo 2 to the 64, conjunctions and disjunctions are those of the
  arguments, for any number of arguments in a list that ends with a null pointer.
\<close>

theorem sexpr_eval_reductions:
  assumes "builtin_env env" and "mem_plenty m" and "2 \<le> fuel"
  shows "(\<exists>m'. sexpr_eval env fuel (call_list ''+'' (map VInt is)) m = (Inr (Some (VInt (sum_list is))), m')) \<and>
    (\<exists>m'. sexpr_eval env fuel (call_list ''*'' (map VInt is)) m = (Inr (Some (VInt (prod_list is))), m')) \<and>
    sexpr_eval env fuel (call_list ''or'' (map VBool bs)) m = (Inr (Some (VBool (True \<in> set bs))), m) \<and>
    sexpr_eval env fuel (call_list ''and'' (map VBool bs)) m = (Inr (Some (VBool (False \<notin> set bs))), m)"
proof -
  obtain n where fuel: "fuel = Suc (Suc n)" using assms(3) by (cases fuel; cases "fuel - 1") auto
  have alloc: "\<exists>m'. VAL_ALLOC (val_alloc_int i) m = (Inr (VInt i), m')" for i
    using VAL_ALLOC_plenty [OF yields_val_alloc(1) assms(2)] by blast
  have int: "\<exists>m'. INT_REDUCE a op ev (Suc n) (null_list (map Some (map VInt is))) m = (Inr (Some (VInt (foldl op a is))), m')" for a op ev
    using alloc [of "foldl op a is"] reduce_ints by (auto simp: INT_REDUCE_def simp del: map_map)
  have bool: "BOOL_REDUCE a op ev (Suc n) (null_list (map Some (map VBool bs))) m = (Inr (Some (VBool (foldl op a bs))), m)" for a op ev
    using reduce_bools by (simp add: BOOL_REDUCE_def val_alloc_bool_def del: map_map)
  have call: "sexpr_eval env fuel (call_list f args) m = bf_f b (sexpr_eval env (Suc n)) (Suc n) (null_list (map Some args)) m"
    if "fxnlookup_builtin (ascii f) = Some b" "bf_arglen b = - 1" for f b args
    unfolding fuel by (rule eval_call [OF assms(1) that])
  note calls = builtin_names [THEN call, simplified]
  show ?thesis
    unfolding calls fxn_or_def fxn_and_def fxn_add_def fxn_mult_def
    using int [of 0 "(+)"] int [of 1 "(*)"] bool [of False] bool [of True]
    by (auto simp: foldl_plus foldl_times foldl_or foldl_and simp del: sexpr_eval.simps)
qed

theorem sexpr_eval_reductions_witness:
  "\<exists>m'. sexpr_eval emptyenv 2 (call_list ''+'' (map VInt [1, 2])) plain_mem = (Inr (Some (VInt 3)), m')"
  using conjunct1 [OF sexpr_eval_reductions [of emptyenv plain_mem 2 "[1, 2]" "[]"]]
  by (simp add: builtin_env_def emptyenv_def)

text \<open>
  The lists that are read from text end with an empty cell instead. There the reductions go one step too far and
  their assertion fails: the text \<^verbatim>\<open>(+ 1)\<close> cannot be evaluated.
\<close>

lemma eval_read_list_panics:
  "fst (sexpr_eval emptyenv (Suc (Suc n)) (Some (VCons (Some (VSym (ascii ''+''))) (Some (VCons (Some (VInt 1)) (Some (VCons None None)))))) m) = Inl Panic"
  by (simp add: eval_cons_def find_fxn_def emptyenv_def builtin_names call_fxn_def fxn_add_def INT_REDUCE_def reduce_el_def andthen_def
      del: ascii_simps)

end
