(* ===== verification/Synch.thy ===== *)
theory Synch
  imports Prelude "HOL-Library.AList"
begin

text \<open>
  Locks with dependency tracking, \<^verbatim>\<open>src/synch.c\<close> and \<^verbatim>\<open>src/include/jeffpc/synch.h\<close>, as they are built with
  \<open>JEFFPC_LOCK_TRACKING\<close>.

  Locks, condition variables and lock classes are known by their addresses. The state holds what the checks of one thread
  see: whether checking is on, the dependencies between classes, the headers of the locks, and the stack of locks the
  thread holds (thread-local in C), the oldest first. The limits \<open>JEFFPC_LOCK_STACK_DEPTH\<close> and
  \<open>JEFFPC_LOCK_DEP_COUNT\<close> are constants of the build. The messages that are logged are not modelled, only whether checking goes on,
  is turned off or the program is aborted. Every call of the threads library is an argument: the number it returns.
\<close>

subsection \<open>Data\<close>

datatype synch_type = SYNCH_TYPE_MUTEX | SYNCH_TYPE_RW | SYNCH_TYPE_COND

type_synonym lock_class = nat

record lock_info =
  li_magic :: nat
  li_type :: synch_type
  li_lc :: lock_class

record held_lock =
  h_info :: nat
  h_type :: synch_type
  h_wr :: bool

record sync_state =
  y_on :: bool
  y_deps :: "(lock_class \<times> lock_class list) list"
  y_info :: "nat \<rightharpoonup> lock_info"
  y_held :: "held_lock list"
  y_depth :: nat
  y_dep_count :: nat

definition DESTROYED_MAGIC :: nat where
  "DESTROYED_MAGIC = 2 ^ 64 - 1"

text \<open>The dependencies of a class: \<open>deps\<close> and \<open>ndeps\<close> of a \<open>struct lock_class\<close>.\<close>

definition deps_of :: "(lock_class \<times> lock_class list) list \<Rightarrow> lock_class \<Rightarrow> lock_class list" where
  "deps_of g c = (case map_of g c of None \<Rightarrow> [] | Some ds \<Rightarrow> ds)"

definition get_info :: "nat \<Rightarrow> (sync_state, lock_info) cfun" where
  "get_info l s = (case y_info s l of None \<Rightarrow> (Inl Fault, s) | Some i \<Rightarrow> (Inr i, s))"

definition set_info :: "nat \<Rightarrow> lock_info \<Rightarrow> (sync_state, unit) cfun" where
  "set_info l i s = (Inr (), s\<lparr>y_info := (y_info s)(l \<mapsto> i)\<rparr>)"

definition is_on :: "(sync_state, bool) cfun" where
  "is_on s = (Inr (y_on s), s)"

subsection \<open>The stack of held locks\<close>

definition last_acquired_lock :: "sync_state \<Rightarrow> held_lock option" where
  "last_acquired_lock s = (if y_held s = [] then None else Some (last (y_held s)))"

definition held_stack_remove :: "nat \<Rightarrow> (sync_state, unit) cfun" where
  "held_stack_remove i s =
     (if last_acquired_lock s = None then (Inl Panic, s)
      else (Inr (), s\<lparr>y_held := take i (y_held s) @ drop (Suc i) (y_held s)\<rparr>))"

text \<open>\<open>held_stack_alloc\<close>, and filling in the entry it returns; \<open>False\<close> when the stack is full.\<close>

definition held_stack_push :: "held_lock \<Rightarrow> (sync_state, bool) cfun" where
  "held_stack_push h s =
     (if length (y_held s) = y_depth s then (Inr False, s) else (Inr True, s\<lparr>y_held := y_held s @ [h]\<rparr>))"

text \<open>\<open>for_each_held_lock\<close> up to the first entry for the lock.\<close>

fun held_index :: "nat \<Rightarrow> held_lock list \<Rightarrow> nat option" where
  "held_index l [] = None"
| "held_index l (h # hs) = (if h_info h = l then Some 0 else map_option Suc (held_index l hs))"

subsection \<open>Errors\<close>

definition lockdep_off :: "(sync_state, unit) cfun" where
  "lockdep_off s = (Inr (), s\<lparr>y_on := False\<rparr>)"

definition print_invalid_call :: "(sync_state, 'a) cfun" where
  "print_invalid_call = cerr Panic"

definition error_destroy :: "(sync_state, unit) cfun" where
  "error_destroy = cerr Panic"

definition error_lock :: "held_lock \<Rightarrow> nat \<Rightarrow> (sync_state, unit) cfun" where
  "error_lock held new = (if new = h_info held then cerr Panic else lockdep_off)"

definition error_lock_circular :: "(sync_state, unit) cfun" where
  "error_lock_circular = lockdep_off"

definition error_unlock :: "(sync_state, unit) cfun" where
  "error_unlock = cerr Panic"

definition error_condwait_circular :: "(sync_state, unit) cfun" where
  "error_condwait_circular = lockdep_off"

definition error_condwait_unheld :: "(sync_state, unit) cfun" where
  "error_condwait_unheld = cerr Panic"

definition error_alloc :: "(sync_state, unit) cfun" where
  "error_alloc = lockdep_off"

definition error_locks_on_exit :: "(sync_state, unit) cfun" where
  "error_locks_on_exit = lockdep_off"

subsection \<open>Dependencies\<close>

text \<open>\<open>Inl\<close> does not occur other than for the \<open>VERIFY\<close>; the result is the number the code returns.\<close>

definition add_dependency :: "lock_class \<Rightarrow> lock_class \<Rightarrow> (sync_state, int) cfun" where
  "add_dependency src tgt s =
     (let ds = deps_of (y_deps s) src
      in if src = tgt then (Inl Panic, s)
      else if \<not> y_on s then (Inr 0, s)
      else if tgt \<in> set ds then (Inr 0, s)
      else if int (length ds) \<ge> int (y_dep_count s) - 1 then (Inr (- 1), s)
      else (Inr 1, s\<lparr>y_deps := AList.update src (ds @ [tgt]) (y_deps s)\<rparr>))"

text \<open>\<open>__find_path\<close>: the loop over the dependencies of a class, and the search.\<close>

fun path_loop :: "(lock_class \<Rightarrow> (sync_state, bool) cfun) \<Rightarrow> lock_class list \<Rightarrow> (sync_state, bool) cfun" where
  "path_loop search [] = cret False"
| "path_loop search (d # ds) = andthen (search d) (\<lambda>found. if found then cret True else path_loop search ds)"

primrec find_path_rec :: "nat \<Rightarrow> lock_class \<Rightarrow> lock_class \<Rightarrow> (sync_state, bool) cfun" where
  "find_path_rec 0 src tgt = cerr Diverged"
| "find_path_rec (Suc n) src tgt =
     (if src = tgt then andthen error_lock_circular (\<lambda>_. cret True)
      else (\<lambda>s. path_loop (\<lambda>d. find_path_rec n d tgt) (deps_of (y_deps s) src) s))"

definition find_path :: "lock_class \<Rightarrow> lock_class \<Rightarrow> (sync_state, unit) cfun" where
  "find_path src tgt s = andthen (find_path_rec (length (y_deps s) + 2) src tgt) (\<lambda>_. cret ()) s"

definition check_circular_deps :: "nat \<Rightarrow> (sync_state, bool) cfun" where
  "check_circular_deps l s =
     (case last_acquired_lock s of
        None \<Rightarrow> (Inr False, s)
      | Some h \<Rightarrow>
          andthen (get_info l) (\<lambda>new. andthen (get_info (h_info h)) (\<lambda>old.
            andthen (add_dependency (li_lc new) (li_lc old)) (\<lambda>ret.
              andthen (if ret < 0 then error_alloc
                       else if 0 < ret then find_path (li_lc old) (li_lc new)
                       else cret ()) (\<lambda>_. andthen is_on (\<lambda>on. cret (\<not> on)))))) s)"

subsection \<open>Checks\<close>

definition check_magic :: "nat \<Rightarrow> synch_type \<Rightarrow> (sync_state, unit) cfun" where
  "check_magic l type =
     andthen (get_info l) (\<lambda>i.
       if li_magic i \<noteq> l then cerr Panic else if li_type i \<noteq> type then cerr Panic else cret ())"

text \<open>The first lock of the stack that is the new one, or of the same class.\<close>

fun find_same :: "nat \<Rightarrow> lock_class \<Rightarrow> held_lock list \<Rightarrow> (sync_state, held_lock option) cfun" where
  "find_same l lc [] = cret None"
| "find_same l lc (h # hs) =
     (if h_info h = l then cret (Some h)
      else andthen (get_info (h_info h)) (\<lambda>i. if li_lc i = lc then cret (Some h) else find_same l lc hs))"

definition check_unheld_for_lock :: "nat \<Rightarrow> bool \<Rightarrow> (sync_state, unit) cfun" where
  "check_unheld_for_lock l rwlock_wr s =
     (if \<not> y_on s then (Inr (), s)
      else andthen (get_info l) (\<lambda>i. andthen (find_same l (li_lc i) (y_held s)) (\<lambda>r.
        case r of
          Some h \<Rightarrow> error_lock h l
        | None \<Rightarrow>
            andthen (check_circular_deps l) (\<lambda>off.
              if off then cret ()
              else andthen (held_stack_push \<lparr>h_info = l, h_type = li_type i, h_wr = rwlock_wr\<rparr>) (\<lambda>ok.
                if ok then cret () else error_alloc)))) s)"

definition check_held_for_unlock :: "nat \<Rightarrow> (sync_state, unit) cfun" where
  "check_held_for_unlock l s =
     (if \<not> y_on s then (Inr (), s)
      else case held_index l (y_held s) of
        Some i \<Rightarrow> held_stack_remove i s
      | None \<Rightarrow> error_unlock s)"

definition check_unheld_for_destroy :: "nat \<Rightarrow> (sync_state, unit) cfun" where
  "check_unheld_for_destroy l s = (case held_index l (y_held s) of Some i \<Rightarrow> error_destroy s | None \<Rightarrow> (Inr (), s))"

subsection \<open>The checks of each operation\<close>

definition info_init :: "synch_type \<Rightarrow> nat option \<Rightarrow> lock_class option \<Rightarrow> (sync_state, unit) cfun" where
  "info_init type l lc =
     (case (l, lc) of
        (Some a, Some c) \<Rightarrow> set_info a \<lparr>li_magic = a, li_type = type, li_lc = c\<rparr>
      | _ \<Rightarrow> print_invalid_call)"

definition info_destroy :: "nat \<Rightarrow> (sync_state, unit) cfun" where
  "info_destroy l = andthen (get_info l) (\<lambda>i. set_info l (i\<lparr>li_magic := DESTROYED_MAGIC\<rparr>))"

definition verify_lock_init :: "nat option \<Rightarrow> lock_class option \<Rightarrow> (sync_state, unit) cfun" where
  "verify_lock_init l lc = info_init SYNCH_TYPE_MUTEX l lc"

definition verify_destroy :: "synch_type \<Rightarrow> nat option \<Rightarrow> (sync_state, unit) cfun" where
  "verify_destroy type l =
     (case l of
        None \<Rightarrow> print_invalid_call
      | Some a \<Rightarrow> andthen (check_magic a type) (\<lambda>_. andthen (check_unheld_for_destroy a) (\<lambda>_. info_destroy a)))"

definition verify_lock_destroy :: "nat option \<Rightarrow> (sync_state, unit) cfun" where
  "verify_lock_destroy l = verify_destroy SYNCH_TYPE_MUTEX l"

definition verify_acquire :: "synch_type \<Rightarrow> nat option \<Rightarrow> bool \<Rightarrow> (sync_state, unit) cfun" where
  "verify_acquire type l wr =
     (case l of None \<Rightarrow> print_invalid_call | Some a \<Rightarrow> andthen (check_magic a type) (\<lambda>_. check_unheld_for_lock a wr))"

definition verify_lock_lock :: "nat option \<Rightarrow> (sync_state, unit) cfun" where
  "verify_lock_lock l = verify_acquire SYNCH_TYPE_MUTEX l False"

definition verify_release :: "synch_type \<Rightarrow> nat option \<Rightarrow> (sync_state, unit) cfun" where
  "verify_release type l =
     (case l of None \<Rightarrow> print_invalid_call | Some a \<Rightarrow> andthen (check_magic a type) (\<lambda>_. check_held_for_unlock a))"

definition verify_lock_unlock :: "nat option \<Rightarrow> (sync_state, unit) cfun" where
  "verify_lock_unlock l = verify_release SYNCH_TYPE_MUTEX l"

definition verify_rw_init :: "nat option \<Rightarrow> lock_class option \<Rightarrow> (sync_state, unit) cfun" where
  "verify_rw_init l lc = info_init SYNCH_TYPE_RW l lc"

definition verify_rw_destroy :: "nat option \<Rightarrow> (sync_state, unit) cfun" where
  "verify_rw_destroy l = verify_destroy SYNCH_TYPE_RW l"

definition verify_rw_lock :: "nat option \<Rightarrow> bool \<Rightarrow> (sync_state, unit) cfun" where
  "verify_rw_lock l wr = verify_acquire SYNCH_TYPE_RW l wr"

definition verify_rw_unlock :: "nat option \<Rightarrow> (sync_state, unit) cfun" where
  "verify_rw_unlock l = verify_release SYNCH_TYPE_RW l"

text \<open>A condition variable has no class; the field keeps whatever it held.\<close>

definition verify_cond_init :: "nat option \<Rightarrow> (sync_state, unit) cfun" where
  "verify_cond_init c =
     (case c of
        None \<Rightarrow> print_invalid_call
      | Some a \<Rightarrow> (\<lambda>s. set_info a \<lparr>li_magic = a, li_type = SYNCH_TYPE_COND,
          li_lc = (case y_info s a of None \<Rightarrow> 0 | Some i \<Rightarrow> li_lc i)\<rparr> s))"

definition verify_cond_destroy :: "nat option \<Rightarrow> (sync_state, unit) cfun" where
  "verify_cond_destroy c =
     (case c of None \<Rightarrow> print_invalid_call | Some a \<Rightarrow> andthen (check_magic a SYNCH_TYPE_COND) (\<lambda>_. info_destroy a))"

definition verify_cond_wait :: "nat option \<Rightarrow> nat option \<Rightarrow> (sync_state, unit) cfun" where
  "verify_cond_wait c l =
     (case (c, l) of
        (Some a, Some b) \<Rightarrow>
          andthen (check_magic a SYNCH_TYPE_COND) (\<lambda>_ s.
            if \<not> y_on s then (Inr (), s)
            else case last_acquired_lock s of
              None \<Rightarrow> error_condwait_unheld s
            | Some h \<Rightarrow>
                if h_info h = b then (Inr (), s)
                else (case held_index b (y_held s) of
                  Some i \<Rightarrow> error_condwait_circular s | None \<Rightarrow> error_condwait_unheld s))
      | _ \<Rightarrow> print_invalid_call)"

definition verify_cond_sig :: "nat option \<Rightarrow> (sync_state, unit) cfun" where
  "verify_cond_sig c = (case c of None \<Rightarrow> print_invalid_call | Some a \<Rightarrow> check_magic a SYNCH_TYPE_COND)"

subsection \<open>Operations\<close>

text \<open>\<open>ret\<close> is what the threads library returned.\<close>

definition pthread_ok :: "int \<Rightarrow> (sync_state, unit) cfun" where
  "pthread_ok ret = (if ret \<noteq> 0 then cerr Panic else cret ())"

definition mxinit :: "nat option \<Rightarrow> lock_class option \<Rightarrow> int \<Rightarrow> (sync_state, unit) cfun" where
  "mxinit l lc ret = andthen (verify_lock_init l lc) (\<lambda>_. pthread_ok ret)"

definition mxdestroy :: "nat option \<Rightarrow> int \<Rightarrow> (sync_state, unit) cfun" where
  "mxdestroy l ret = andthen (verify_lock_destroy l) (\<lambda>_. pthread_ok ret)"

definition mxlock :: "nat option \<Rightarrow> int \<Rightarrow> (sync_state, unit) cfun" where
  "mxlock l ret = andthen (verify_lock_lock l) (\<lambda>_. pthread_ok ret)"

definition mxunlock :: "nat option \<Rightarrow> int \<Rightarrow> (sync_state, unit) cfun" where
  "mxunlock l ret = andthen (verify_lock_unlock l) (\<lambda>_. pthread_ok ret)"

definition rwinit :: "nat option \<Rightarrow> lock_class option \<Rightarrow> int \<Rightarrow> (sync_state, unit) cfun" where
  "rwinit l lc ret = andthen (verify_rw_init l lc) (\<lambda>_. pthread_ok ret)"

definition rwdestroy :: "nat option \<Rightarrow> int \<Rightarrow> (sync_state, unit) cfun" where
  "rwdestroy l ret = andthen (verify_rw_destroy l) (\<lambda>_. pthread_ok ret)"

definition rwlock :: "nat option \<Rightarrow> bool \<Rightarrow> int \<Rightarrow> (sync_state, unit) cfun" where
  "rwlock l wr ret = andthen (verify_rw_lock l wr) (\<lambda>_. pthread_ok ret)"

definition rwunlock :: "nat option \<Rightarrow> int \<Rightarrow> (sync_state, unit) cfun" where
  "rwunlock l ret = andthen (verify_rw_unlock l) (\<lambda>_. pthread_ok ret)"

definition condinit :: "nat option \<Rightarrow> int \<Rightarrow> (sync_state, unit) cfun" where
  "condinit c ret = andthen (verify_cond_init c) (\<lambda>_. pthread_ok ret)"

definition conddestroy :: "nat option \<Rightarrow> int \<Rightarrow> (sync_state, unit) cfun" where
  "conddestroy c ret = andthen (verify_cond_destroy c) (\<lambda>_. pthread_ok ret)"

definition condwait :: "nat option \<Rightarrow> nat option \<Rightarrow> int \<Rightarrow> (sync_state, unit) cfun" where
  "condwait c l ret = andthen (verify_cond_wait c l) (\<lambda>_. pthread_ok ret)"

text \<open>
  The time to wait until, in seconds and nanoseconds: relative, or from the current time \<open>now\<close> on, modulo 2 to the 64.
\<close>

definition wait_until :: "bool \<Rightarrow> u64 \<Rightarrow> u64 \<Rightarrow> u64 \<times> u64" where
  "wait_until relative now reltime =
     (let t = (if relative then reltime else now + reltime) in (t div 1000000000, t mod 1000000000))"

definition ETIMEDOUT_NUM :: int where
  "ETIMEDOUT_NUM = 110"

definition condtimedwait :: "nat option \<Rightarrow> nat option \<Rightarrow> int \<Rightarrow> (sync_state, int) cfun" where
  "condtimedwait c l ret =
     andthen (verify_cond_wait c l) (\<lambda>_. if ret \<noteq> 0 \<and> ret \<noteq> ETIMEDOUT_NUM then cerr Panic else cret (- ret))"

definition condsig :: "nat option \<Rightarrow> int \<Rightarrow> (sync_state, unit) cfun" where
  "condsig c ret = andthen (verify_cond_sig c) (\<lambda>_. pthread_ok ret)"

definition condbcast :: "nat option \<Rightarrow> int \<Rightarrow> (sync_state, unit) cfun" where
  "condbcast c ret = andthen (verify_cond_sig c) (\<lambda>_. pthread_ok ret)"

definition PTHREAD_BARRIER_SERIAL_THREAD :: int where
  "PTHREAD_BARRIER_SERIAL_THREAD = - 1"

definition barrierinit :: "int \<Rightarrow> (sync_state, unit) cfun" where
  "barrierinit ret = pthread_ok ret"

definition barrierdestroy :: "int \<Rightarrow> (sync_state, unit) cfun" where
  "barrierdestroy ret = pthread_ok ret"

definition barrierwait :: "int \<Rightarrow> (sync_state, bool) cfun" where
  "barrierwait ret =
     (if ret \<noteq> 0 \<and> ret \<noteq> PTHREAD_BARRIER_SERIAL_THREAD then cerr Panic
      else cret (ret = PTHREAD_BARRIER_SERIAL_THREAD))"

definition lockdep_no_locks :: "(sync_state, unit) cfun" where
  "lockdep_no_locks s =
     (if \<not> y_on s then (Inr (), s) else if last_acquired_lock s = None then (Inr (), s) else error_locks_on_exit s)"

end
