(* ===== verification/Synch_Order.thy ===== *)
theory Synch_Order
  imports Synch
begin

text \<open>
  What the checks of \<^verbatim>\<open>src/synch.c\<close> are for: as long as checking is on, the recorded order of the lock classes has no cycle,
  every thread acquired its locks along that order, and therefore no threads wait for each other in a circle.
\<close>

subsection \<open>The order of the classes\<close>

definition edges :: "(lock_class \<times> lock_class list) list \<Rightarrow> (lock_class \<times> lock_class) set" where
  "edges g = {(c, d). d \<in> set (deps_of g c)}"

lemma deps_of_update: "deps_of (AList.update c ds g) d = (if d = c then ds else deps_of g d)"
  by (simp add: deps_of_def update_conv')

lemma edges_Nil [simp]: "edges [] = {}"
  by (simp add: edges_def deps_of_def)

lemma Domain_edges: "Domain (edges g) \<subseteq> fst ` set g"
proof
  fix c
  assume "c \<in> Domain (edges g)"
  then have "map_of g c \<noteq> None" by (cases "map_of g c") (auto simp: edges_def deps_of_def)
  then show "c \<in> fst ` set g" by (simp add: map_of_eq_None_iff)
qed

lemma card_Domain_edges: "card (A \<inter> Domain (edges g)) \<le> length g"
proof -
  have "card (A \<inter> Domain (edges g)) \<le> card (fst ` set g)" by (rule card_mono) (use Domain_edges in auto)
  also have "\<dots> \<le> length g" using card_image_le [of "set g" fst] card_length [of g] by auto
  finally show ?thesis .
qed

lemma finite_Domain_edges: "finite (A \<inter> Domain (edges g))"
  using Domain_edges finite_subset by fastforce

subsection \<open>The search for a path\<close>

definition off_if :: "bool \<Rightarrow> sync_state \<Rightarrow> sync_state" where
  "off_if b s = (if b then s\<lparr>y_on := False\<rparr> else s)"

lemma path_loop_finds:
  assumes "\<And>d. d \<in> set ds \<Longrightarrow> search d s = (Inr (P d), off_if (P d) s)"
  shows "path_loop search ds s = (Inr (\<exists>d \<in> set ds. P d), off_if (\<exists>d \<in> set ds. P d) s)"
  using assms
proof (induction ds)
  case (Cons d ds)
  then show ?case by (cases "P d") (simp_all add: off_if_def)
qed (simp add: off_if_def)

text \<open>The search goes along the edges that do not leave the class it looks for.\<close>

definition avoiding :: "lock_class \<Rightarrow> (lock_class \<times> lock_class list) list \<Rightarrow> (lock_class \<times> lock_class) set" where
  "avoiding tgt g = {(c, d) \<in> edges g. c \<noteq> tgt}"

lemma find_path_rec_finds:
  assumes acyclic: "acyclic (avoiding tgt (y_deps s))"
    and fuel: "card ((avoiding tgt (y_deps s))\<^sup>* `` {x} \<inter> Domain (edges (y_deps s))) < n"
  shows "find_path_rec n x tgt s =
    (Inr ((x, tgt) \<in> (avoiding tgt (y_deps s))\<^sup>*), off_if ((x, tgt) \<in> (avoiding tgt (y_deps s))\<^sup>*) s)"
  using fuel
proof (induction n arbitrary: x)
  case (Suc n)
  let ?E = "avoiding tgt (y_deps s)"
  let ?D = "Domain (edges (y_deps s))"
  show ?case
  proof (cases "x = tgt")
    case True
    then show ?thesis by (simp add: error_lock_circular_def lockdep_off_def off_if_def)
  next
    case False
    have step: "(x, d) \<in> ?E \<longleftrightarrow> d \<in> set (deps_of (y_deps s) x)" for d
      using False by (simp add: avoiding_def edges_def)
    have "find_path_rec n d tgt s = (Inr ((d, tgt) \<in> ?E\<^sup>*), off_if ((d, tgt) \<in> ?E\<^sup>*) s)"
      if d: "d \<in> set (deps_of (y_deps s) x)" for d
    proof (rule Suc.IH)
      have xd: "(x, d) \<in> ?E" using d step by simp
      have "x \<in> ?D" using d by (auto simp: edges_def)
      moreover have "(d, x) \<notin> ?E\<^sup>*" using xd acyclic by (meson acyclic_def rtrancl_into_trancl2)
      ultimately have "?E\<^sup>* `` {d} \<inter> ?D \<subset> ?E\<^sup>* `` {x} \<inter> ?D"
        using xd by (auto intro: converse_rtrancl_into_rtrancl)
      then have "card (?E\<^sup>* `` {d} \<inter> ?D) < card (?E\<^sup>* `` {x} \<inter> ?D)"
        by (rule psubset_card_mono [OF finite_Domain_edges])
      then show "card (?E\<^sup>* `` {d} \<inter> ?D) < n" using Suc.prems by simp
    qed
    then have "path_loop (\<lambda>d. find_path_rec n d tgt) (deps_of (y_deps s) x) s =
        (Inr (\<exists>d \<in> set (deps_of (y_deps s) x). (d, tgt) \<in> ?E\<^sup>*), off_if (\<exists>d \<in> set (deps_of (y_deps s) x). (d, tgt) \<in> ?E\<^sup>*) s)"
      by (rule path_loop_finds)
    moreover have "(\<exists>d \<in> set (deps_of (y_deps s) x). (d, tgt) \<in> ?E\<^sup>*) \<longleftrightarrow> (x, tgt) \<in> ?E\<^sup>*"
      using False step by (metis converse_rtranclE converse_rtrancl_into_rtrancl)
    ultimately show ?thesis using False by simp
  qed
qed simp

lemma find_path_finds:
  assumes "acyclic (avoiding tgt (y_deps s))"
  shows "find_path x tgt s = (Inr (), off_if ((x, tgt) \<in> (avoiding tgt (y_deps s))\<^sup>*) s)"
proof -
  have "card ((avoiding tgt (y_deps s))\<^sup>* `` {x} \<inter> Domain (edges (y_deps s))) < length (y_deps s) + 2"
    using card_Domain_edges [of "(avoiding tgt (y_deps s))\<^sup>* `` {x}" "y_deps s"] by linarith
  from find_path_rec_finds [OF assms this] show ?thesis by (simp add: find_path_def)
qed

text \<open>Adding an edge to an acyclic order, after the search found no path back.\<close>

lemma edges_add:
  assumes "deps_of g c = ds" and "g' = AList.update c (ds @ [d]) g"
  shows "edges g' = insert (c, d) (edges g)"
  using assms by (auto simp: edges_def deps_of_update split: if_splits)

lemma avoiding_acyclic:
  assumes "acyclic E" and "edges g' = insert (c, d) E"
  shows "acyclic (avoiding c g')"
  by (rule acyclic_subset [OF assms(1)]) (auto simp: avoiding_def assms(2))

lemma rtrancl_avoiding:
  assumes "(x, c) \<in> E\<^sup>*"
  shows "(x, c) \<in> {(a, b) \<in> E. a \<noteq> c}\<^sup>*"
  using assms
proof (induction rule: converse_rtrancl_induct)
  case (step y z)
  then show ?case by (cases "y = c") (auto intro: converse_rtrancl_into_rtrancl)
qed simp

lemma insert_acyclic:
  assumes "acyclic E" and "edges g' = insert (c, d) E" and "(d, c) \<notin> (avoiding c g')\<^sup>*"
  shows "acyclic (edges g')"
proof -
  have "avoiding c g' = {(a, b) \<in> E. a \<noteq> c}" by (auto simp: avoiding_def assms(2))
  then have "(d, c) \<notin> E\<^sup>*" using assms(3) rtrancl_avoiding [of d c E] by auto
  then show ?thesis using assms(1) by (simp add: assms(2) acyclic_insert)
qed


subsection \<open>One thread\<close>

definition class_of :: "(nat \<rightharpoonup> lock_info) \<Rightarrow> held_lock \<Rightarrow> lock_class" where
  "class_of infos h = li_lc (the (infos (h_info h)))"

text \<open>Every lock of the stack depends on the ones below it.\<close>

definition in_lock_order :: "(lock_class \<times> lock_class list) list \<Rightarrow> (nat \<rightharpoonup> lock_info) \<Rightarrow> held_lock list \<Rightarrow> bool" where
  "in_lock_order g infos hs \<longleftrightarrow>
     sorted_wrt (\<lambda>a b. (class_of infos b, class_of infos a) \<in> (edges g)\<^sup>+) hs \<and> (\<forall>h \<in> set hs. infos (h_info h) \<noteq> None)"

definition thread_ok :: "sync_state \<Rightarrow> bool" where
  "thread_ok s \<longleftrightarrow> acyclic (edges (y_deps s)) \<and> in_lock_order (y_deps s) (y_info s) (y_held s)"

lemma in_lock_order_mono:
  assumes "in_lock_order g infos hs" and "edges g \<subseteq> edges g'"
    and "\<And>h. h \<in> set hs \<Longrightarrow> class_of infos' h = class_of infos h \<and> infos' (h_info h) \<noteq> None"
  shows "in_lock_order g' infos' hs"
proof -
  have "sorted_wrt (\<lambda>a b. (class_of infos' b, class_of infos' a) \<in> (edges g')\<^sup>+) hs"
    by (rule sorted_wrt_mono_rel [of _ "\<lambda>a b. (class_of infos b, class_of infos a) \<in> (edges g)\<^sup>+"])
      (use assms(1,3) trancl_mono [OF _ assms(2)] in \<open>auto simp: in_lock_order_def\<close>)
  then show ?thesis using assms(3) by (simp add: in_lock_order_def)
qed

lemma in_lock_order_remove:
  assumes "in_lock_order g infos hs"
  shows "in_lock_order g infos (take i hs @ drop (Suc i) hs)"
proof -
  have "set (take i hs) \<subseteq> set hs" "set (drop (Suc i) hs) \<subseteq> set hs" by (auto dest: in_set_takeD in_set_dropD)
  moreover have "sorted_wrt P (take i xs @ drop (Suc i) xs)" if "sorted_wrt P xs" for P and xs :: "held_lock list"
  proof (cases "i < length xs")
    case True
    then have "sorted_wrt P (take i xs @ xs ! i # drop (Suc i) xs)" using that id_take_nth_drop by metis
    then show ?thesis by (simp add: sorted_wrt_append)
  qed (use that in simp)
  ultimately show ?thesis using assms by (auto simp: in_lock_order_def)
qed

lemma get_info_run: "y_info s l = Some i \<Longrightarrow> get_info l s = (Inr i, s)"
  by (simp add: get_info_def)

lemma find_same_run:
  assumes "\<And>h. h \<in> set hs \<Longrightarrow> y_info s (h_info h) \<noteq> None"
  shows "find_same l lc hs s = (Inr (find (\<lambda>h. h_info h = l \<or> class_of (y_info s) h = lc) hs), s)"
  using assms
proof (induction hs)
  case (Cons h hs)
  obtain i where "y_info s (h_info h) = Some i" using Cons.prems [of h] by auto
  then show ?case using Cons by (auto simp: get_info_run class_of_def)
qed simp

text \<open>
  What acquiring a lock does, when checking is on and the lock is known: a second acquisition aborts; a lock of a class
  that is held, a dependency that would close a cycle, and the limits turn checking off; else the
  dependency on the last lock is recorded and the lock pushed.
\<close>

definition conflict :: "nat \<Rightarrow> lock_class \<Rightarrow> sync_state \<Rightarrow> held_lock option" where
  "conflict l lc s = find (\<lambda>h. h_info h = l \<or> class_of (y_info s) h = lc) (y_held s)"

text \<open>The dependencies after the acquisition.\<close>

definition with_dep :: "lock_class \<Rightarrow> sync_state \<Rightarrow> (lock_class \<times> lock_class list) list" where
  "with_dep lc s =
     (if y_held s = [] then y_deps s
      else let d = class_of (y_info s) (last (y_held s)); ds = deps_of (y_deps s) lc
        in if d \<in> set ds then y_deps s else AList.update lc (ds @ [d]) (y_deps s))"

definition dep_room :: "lock_class \<Rightarrow> sync_state \<Rightarrow> bool" where
  "dep_room lc s \<longleftrightarrow>
     y_held s = [] \<or> class_of (y_info s) (last (y_held s)) \<in> set (deps_of (y_deps s) lc) \<or>
     length (deps_of (y_deps s) lc) + 1 < y_dep_count s"

lemma edges_with_dep:
  "edges (with_dep lc s) = (if y_held s = [] then edges (y_deps s)
    else insert (lc, class_of (y_info s) (last (y_held s))) (edges (y_deps s)))"
  using edges_add [OF refl refl] by (auto simp: with_dep_def Let_def edges_def)

lemma check_circular_deps_run:
  assumes ok: "thread_ok s" and l: "y_info s l = Some i" and none: "conflict l (li_lc i) s = None" and on: "y_on s"
  shows "\<exists>s'. check_circular_deps l s = (Inr (\<not> y_on s'), s') \<and>
    (y_on s' \<longleftrightarrow> dep_room (li_lc i) s \<and> acyclic (edges (with_dep (li_lc i) s))) \<and>
    (y_on s' \<longrightarrow> s' = s\<lparr>y_deps := with_dep (li_lc i) s\<rparr>)"
proof (cases "y_held s = []")
  case True
  have "s\<lparr>y_deps := y_deps s\<rparr> = s" by simp
  then show ?thesis using True ok on
    by (intro exI [of _ s]) (auto simp: check_circular_deps_def last_acquired_lock_def dep_room_def with_dep_def thread_ok_def)
next
  case False
  let ?h = "last (y_held s)"
  let ?c = "li_lc i"
  let ?d = "class_of (y_info s) ?h"
  let ?ds = "deps_of (y_deps s) ?c"
  have h: "?h \<in> set (y_held s)" using False by simp
  obtain j where j: "y_info s (h_info ?h) = Some j" using ok h by (auto simp: thread_ok_def in_lock_order_def)
  have d: "?d = li_lc j" using j by (simp add: class_of_def)
  have neq: "?c \<noteq> ?d" using none h by (auto simp: conflict_def find_None_iff)
  have start: "check_circular_deps l s = andthen (add_dependency ?c ?d) (\<lambda>ret.
      andthen (if ret < 0 then error_alloc else if 0 < ret then find_path ?d ?c else cret ()) (\<lambda>_.
        andthen is_on (\<lambda>on. cret (\<not> on)))) s"
    unfolding d using False l j by (simp add: check_circular_deps_def last_acquired_lock_def get_info_run)
  have acyclic: "acyclic (edges (y_deps s))" using ok by (simp add: thread_ok_def)
  consider (old) "?d \<in> set ?ds" | (full) "?d \<notin> set ?ds" "\<not> length ?ds + 1 < y_dep_count s"
    | (new) "?d \<notin> set ?ds" "length ?ds + 1 < y_dep_count s" by blast
  then show ?thesis
  proof cases
    case old
    then have "edges (with_dep ?c s) = edges (y_deps s)" using False by (simp add: with_dep_def)
    then show ?thesis
      unfolding start using old False on neq acyclic
      by (intro exI [of _ s]) (simp add: add_dependency_def is_on_def dep_room_def with_dep_def)
  next
    case full
    then show ?thesis
      unfolding start using False on neq
      by (intro exI [of _ "s\<lparr>y_on := False\<rparr>"]) (auto simp: add_dependency_def is_on_def dep_room_def error_alloc_def lockdep_off_def)
  next
    case new
    let ?s = "s\<lparr>y_deps := with_dep ?c s\<rparr>"
    have E: "edges (with_dep ?c s) = insert (?c, ?d) (edges (y_deps s))" using False by (simp add: edges_with_dep)
    have add: "add_dependency ?c ?d s = (Inr 1, ?s)"
      using new on neq False by (auto simp: add_dependency_def with_dep_def Let_def)
    have search: "find_path ?d ?c ?s = (Inr (), off_if ((?d, ?c) \<in> (avoiding ?c (with_dep ?c s))\<^sup>*) ?s)"
      using find_path_finds [of ?c ?s ?d] avoiding_acyclic [OF acyclic E] by simp
    have cycle: "(?d, ?c) \<in> (avoiding ?c (with_dep ?c s))\<^sup>* \<longleftrightarrow> \<not> acyclic (edges (with_dep ?c s))"
    proof
      assume "(?d, ?c) \<in> (avoiding ?c (with_dep ?c s))\<^sup>*"
      then have "(?d, ?c) \<in> (edges (with_dep ?c s))\<^sup>*" by (rule rtrancl_mono [THEN subsetD, rotated]) (auto simp: avoiding_def)
      moreover have "(?c, ?d) \<in> edges (with_dep ?c s)" using E by simp
      ultimately show "\<not> acyclic (edges (with_dep ?c s))" by (meson acyclic_def rtrancl_into_trancl2)
    qed (use insert_acyclic [OF acyclic E] in blast)
    show ?thesis
      unfolding start using add search cycle new on False
      by (intro exI [of _ "off_if ((?d, ?c) \<in> (avoiding ?c (with_dep ?c s))\<^sup>*) ?s"])
        (auto simp: off_if_def is_on_def dep_room_def)
  qed
qed


lemma then_bool:
  "f s = (Inr False, s') \<Longrightarrow> andthen f g s = g False s'"
  "f s = (Inr True, s') \<Longrightarrow> andthen f g s = g True s'"
  by simp_all

lemma check_lock_run:
  assumes ok: "thread_ok s" and l: "y_info s l = Some i" and on: "y_on s"
  shows "\<exists>r s'. check_unheld_for_lock l wr s = (r, s') \<and> r \<in> {Inr (), Inl Panic} \<and>
    (r = Inl Panic \<longleftrightarrow> (\<exists>h. conflict l (li_lc i) s = Some h \<and> h_info h = l)) \<and>
    (r = Inr () \<and> y_on s' \<longleftrightarrow> conflict l (li_lc i) s = None \<and> dep_room (li_lc i) s \<and>
      acyclic (edges (with_dep (li_lc i) s)) \<and> length (y_held s) \<noteq> y_depth s) \<and>
    (r = Inr () \<and> y_on s' \<longrightarrow>
      s' = s\<lparr>y_deps := with_dep (li_lc i) s, y_held := y_held s @ [\<lparr>h_info = l, h_type = li_type i, h_wr = wr\<rparr>]\<rparr>)"
proof -
  let ?run = "\<lambda>r. case r of
      Some h \<Rightarrow> error_lock h l
    | None \<Rightarrow> andthen (check_circular_deps l) (\<lambda>off.
        if off then cret ()
        else andthen (held_stack_push \<lparr>h_info = l, h_type = li_type i, h_wr = wr\<rparr>) (\<lambda>ok. if ok then cret () else error_alloc))"
  have known: "\<And>h. h \<in> set (y_held s) \<Longrightarrow> y_info s (h_info h) \<noteq> None" using ok by (simp add: thread_ok_def in_lock_order_def)
  have start: "check_unheld_for_lock l wr s = ?run (conflict l (li_lc i) s) s"
    using on l find_same_run [of "y_held s" s l "li_lc i"] known by (simp add: check_unheld_for_lock_def get_info_run conflict_def)
  show ?thesis
  proof (cases "conflict l (li_lc i) s")
    case (Some h)
    then show ?thesis unfolding start by (auto simp: error_lock_def lockdep_off_def)
  next
    case None
    obtain s1 where s1: "check_circular_deps l s = (Inr (\<not> y_on s1), s1)"
      "y_on s1 \<longleftrightarrow> dep_room (li_lc i) s \<and> acyclic (edges (with_dep (li_lc i) s))"
      "y_on s1 \<longrightarrow> s1 = s\<lparr>y_deps := with_dep (li_lc i) s\<rparr>"
      using check_circular_deps_run [OF ok l None on] by blast
    show ?thesis
    proof (cases "y_on s1")
      case True
      then have eq: "s1 = s\<lparr>y_deps := with_dep (li_lc i) s\<rparr>" using s1(3) by simp
      have go: "?run None s = andthen (held_stack_push \<lparr>h_info = l, h_type = li_type i, h_wr = wr\<rparr>) (\<lambda>ok. if ok then cret () else error_alloc) s1"
        using s1(1) True by (simp add: then_bool)
      show ?thesis
      proof (cases "length (y_held s) = y_depth s")
        case full: True
        have "held_stack_push \<lparr>h_info = l, h_type = li_type i, h_wr = wr\<rparr> s1 = (Inr False, s1)"
          using full by (simp add: held_stack_push_def eq)
        then show ?thesis unfolding start None go using full by (simp add: then_bool error_alloc_def lockdep_off_def)
      next
        case room: False
        have "held_stack_push \<lparr>h_info = l, h_type = li_type i, h_wr = wr\<rparr> s1 =
            (Inr True, s1\<lparr>y_held := y_held s @ [\<lparr>h_info = l, h_type = li_type i, h_wr = wr\<rparr>]\<rparr>)"
          using room by (simp add: held_stack_push_def eq)
        then show ?thesis unfolding start None go using room True s1(2) by (simp add: then_bool eq on)
      qed
    qed (use None s1(1,2) in \<open>auto simp: start\<close>)
  qed
qed

text \<open>A lock that was acquired is above all others in the order.\<close>

lemma in_lock_order_push:
  assumes "in_lock_order g infos hs" and "infos (h_info h) \<noteq> None" and "edges g \<subseteq> edges g'"
    and "hs \<noteq> [] \<Longrightarrow> (class_of infos h, class_of infos (last hs)) \<in> edges g'"
  shows "in_lock_order g' infos (hs @ [h])"
proof -
  have ord: "in_lock_order g' infos hs" using in_lock_order_mono [OF assms(1,3)] assms(1) by (simp add: in_lock_order_def)
  have "(class_of infos h, class_of infos x) \<in> (edges g')\<^sup>+" if x: "x \<in> set hs" for x
  proof (cases "x = last hs")
    case True
    then show ?thesis using assms(4) x by (cases hs) auto
  next
    case False
    obtain ys where hs: "hs = ys @ [last hs]" using x by (metis append_butlast_last_id empty_iff list.set(1))
    then have "x \<in> set ys" using x False by (metis Un_iff list.set(1,2) set_append singletonD)
    then have "(class_of infos (last hs), class_of infos x) \<in> (edges g')\<^sup>+"
      using ord hs unfolding in_lock_order_def by (metis list.set_intros(1) sorted_wrt_append)
    then show ?thesis using assms(4) x by (cases hs) (auto intro: trancl_into_trancl2)
  qed
  then show ?thesis using ord assms(2) by (simp add: in_lock_order_def sorted_wrt_append)
qed

lemma check_lock_ok:
  assumes ok: "thread_ok s" and l: "y_info s l = Some i" and on: "y_on s"
    and run: "check_unheld_for_lock l wr s = (Inr (), s')" "y_on s'"
  shows "thread_ok s'" and "edges (y_deps s) \<subseteq> edges (y_deps s')" and "y_info s' = y_info s"
    and "y_held s' \<noteq> [] \<and> h_info (last (y_held s')) = l"
proof -
  have s': "s' = s\<lparr>y_deps := with_dep (li_lc i) s, y_held := y_held s @ [\<lparr>h_info = l, h_type = li_type i, h_wr = wr\<rparr>]\<rparr>"
    and acyclic: "acyclic (edges (with_dep (li_lc i) s))"
    using check_lock_run [OF ok l on, of wr] run by auto
  show "edges (y_deps s) \<subseteq> edges (y_deps s')" by (auto simp: s' edges_with_dep)
  show "y_info s' = y_info s" "y_held s' \<noteq> [] \<and> h_info (last (y_held s')) = l" by (simp_all add: s')
  have "in_lock_order (with_dep (li_lc i) s) (y_info s) (y_held s @ [\<lparr>h_info = l, h_type = li_type i, h_wr = wr\<rparr>])"
    using ok l by (intro in_lock_order_push) (auto simp: thread_ok_def edges_with_dep class_of_def)
  then show "thread_ok s'" using acyclic by (simp add: thread_ok_def s')
qed


subsection \<open>Many threads\<close>

text \<open>
  The threads share everything but their stacks. \<open>w_wait\<close> says which lock a thread waits for: one whose acquisition
  was checked, and is on the thread's stack, but which the threads library has not handed over yet. A check
  with its update of the dependencies is one step: the dependencies are protected by a lock of their own, and a stack belongs to
  one thread.
\<close>

record world =
  w_on :: bool
  w_deps :: "(lock_class \<times> lock_class list) list"
  w_info :: "nat \<rightharpoonup> lock_info"
  w_held :: "nat \<Rightarrow> held_lock list"
  w_wait :: "nat \<Rightarrow> nat option"
  w_depth :: nat
  w_dep_count :: nat

definition view :: "world \<Rightarrow> nat \<Rightarrow> sync_state" where
  "view w t = \<lparr>y_on = w_on w, y_deps = w_deps w, y_info = w_info w, y_held = w_held w t,
     y_depth = w_depth w, y_dep_count = w_dep_count w\<rparr>"

definition put :: "world \<Rightarrow> nat \<Rightarrow> sync_state \<Rightarrow> nat option \<Rightarrow> world" where
  "put w t s wait = w\<lparr>w_on := y_on s, w_deps := y_deps s, w_info := y_info s, w_held := (w_held w)(t := y_held s),
     w_wait := (w_wait w)(t := wait)\<rparr>"

definition start :: "nat \<Rightarrow> nat \<Rightarrow> world" where
  "start depth dep_count = \<lparr>w_on = True, w_deps = [], w_info = Map.empty, w_held = (\<lambda>_. []), w_wait = (\<lambda>_. None),
     w_depth = depth, w_dep_count = dep_count\<rparr>"

text \<open>
  The steps of thread \<open>t\<close>. A lock that some thread holds is not initialised again. Waiting on a
  condition gives up the lock; when the thread goes on, it has waited for the lock again.
\<close>

inductive step :: "world \<Rightarrow> world \<Rightarrow> bool" where
  init: "w_wait w t = None \<Longrightarrow> type \<noteq> SYNCH_TYPE_COND \<Longrightarrow> \<forall>u. \<forall>h \<in> set (w_held w u). h_info h \<noteq> l \<Longrightarrow>
    info_init type (Some l) lc (view w t) = (Inr (), s) \<Longrightarrow> step w (put w t s None)"
| cond_init: "w_wait w t = None \<Longrightarrow> verify_cond_init c (view w t) = (Inr (), s) \<Longrightarrow> step w (put w t s None)"
| destroy: "w_wait w t = None \<Longrightarrow> verify_destroy type l (view w t) = (Inr (), s) \<Longrightarrow> step w (put w t s None)"
| cond_destroy: "w_wait w t = None \<Longrightarrow> verify_cond_destroy c (view w t) = (Inr (), s) \<Longrightarrow> step w (put w t s None)"
| acquire: "w_wait w t = None \<Longrightarrow> verify_acquire type (Some l) wr (view w t) = (Inr (), s) \<Longrightarrow> step w (put w t s (Some l))"
| granted: "w_wait w t = Some l \<Longrightarrow> step w (put w t (view w t) None)"
| release: "w_wait w t = None \<Longrightarrow> verify_release type l (view w t) = (Inr (), s) \<Longrightarrow> step w (put w t s None)"
| cond_wait: "w_wait w t = None \<Longrightarrow> verify_cond_wait c (Some l) (view w t) = (Inr (), s) \<Longrightarrow> step w (put w t s (Some l))"
| exit: "w_wait w t = None \<Longrightarrow> lockdep_no_locks (view w t) = (Inr (), s) \<Longrightarrow> step w (put w t s None)"

text \<open>The invariant.\<close>

definition world_ok :: "world \<Rightarrow> bool" where
  "world_ok w \<longleftrightarrow> (w_on w \<longrightarrow> acyclic (edges (w_deps w)) \<and> (\<forall>t. in_lock_order (w_deps w) (w_info w) (w_held w t)) \<and>
     (\<forall>t l. w_wait w t = Some l \<longrightarrow> w_held w t \<noteq> [] \<and> h_info (last (w_held w t)) = l))"

lemma view_sel [simp]:
  "y_on (view w t) = w_on w" "y_deps (view w t) = w_deps w" "y_info (view w t) = w_info w" "y_held (view w t) = w_held w t"
  by (simp_all add: view_def)

lemma put_sel [simp]:
  "w_on (put w t s x) = y_on s" "w_deps (put w t s x) = y_deps s" "w_info (put w t s x) = y_info s"
  "w_held (put w t s x) = (w_held w)(t := y_held s)" "w_wait (put w t s x) = (w_wait w)(t := x)"
  by (simp_all add: put_def)

lemma world_ok_thread: "world_ok w \<Longrightarrow> w_on w \<Longrightarrow> thread_ok (view w t)"
  by (simp add: world_ok_def thread_ok_def)

text \<open>A step that keeps the classes of the held locks, and after which the stack of the thread is in order.\<close>

lemma world_ok_put:
  assumes ok: "world_ok w" and on: "y_on s \<Longrightarrow> w_on w"
    and ordered: "y_on s \<Longrightarrow> thread_ok s \<and> edges (w_deps w) \<subseteq> edges (y_deps s)"
    and info: "\<And>u h. y_on s \<Longrightarrow> h \<in> set (w_held w u) \<Longrightarrow> class_of (y_info s) h = class_of (w_info w) h \<and> y_info s (h_info h) \<noteq> None"
    and wait: "\<And>l. y_on s \<Longrightarrow> x = Some l \<Longrightarrow> y_held s \<noteq> [] \<and> h_info (last (y_held s)) = l"
  shows "world_ok (put w t s x)"
proof -
  have "in_lock_order (y_deps s) (y_info s) (w_held w u)" if "y_on s" for u
  proof -
    have old: "in_lock_order (w_deps w) (w_info w) (w_held w u)" using ok on that by (simp add: world_ok_def)
    show ?thesis by (rule in_lock_order_mono [OF old]) (use ordered info that in auto)
  qed
  then show ?thesis using ok on ordered wait by (auto simp: world_ok_def thread_ok_def)
qed

lemma check_magic_same: "check_magic l type s = (Inr (), s') \<Longrightarrow> s' = s \<and> (\<exists>i. y_info s l = Some i)"
  by (auto simp: check_magic_def get_info_def elim!: andthen_InrE split: option.splits if_splits)


text \<open>The checks change the state as follows.\<close>

lemma verify_acquire_on:
  assumes "thread_ok s" and "verify_acquire type (Some l) wr s = (Inr (), s')" and "y_on s'"
  shows "y_on s \<and> thread_ok s' \<and> edges (y_deps s) \<subseteq> edges (y_deps s') \<and> y_info s' = y_info s \<and>
    y_held s' \<noteq> [] \<and> h_info (last (y_held s')) = l"
proof -
  have run: "check_unheld_for_lock l wr s = (Inr (), s')" and "\<exists>i. y_info s l = Some i"
    using assms(2) by (auto simp: verify_acquire_def elim!: andthen_InrE dest: check_magic_same)
  then obtain i where i: "y_info s l = Some i" by blast
  have on: "y_on s" using run assms(3) by (auto simp: check_unheld_for_lock_def split: if_splits)
  show ?thesis using check_lock_ok [OF assms(1) i on run assms(3)] on by blast
qed

lemma verify_release_on:
  assumes "thread_ok s" and "verify_release type l s = (Inr (), s')"
  shows "y_on s' = y_on s \<and> thread_ok s' \<and> y_deps s' = y_deps s \<and> y_info s' = y_info s"
proof -
  obtain a where "check_held_for_unlock a s = (Inr (), s')"
    using assms(2) by (auto simp: verify_release_def print_invalid_call_def elim!: andthen_InrE split: option.splits dest!: check_magic_same)
  then have "s' = s \<or> (\<exists>i. s' = s\<lparr>y_held := take i (y_held s) @ drop (Suc i) (y_held s)\<rparr>)"
    by (auto simp: check_held_for_unlock_def held_stack_remove_def error_unlock_def split: if_splits option.splits)
  then show ?thesis using assms(1) in_lock_order_remove by (auto simp: thread_ok_def)
qed

lemma verify_cond_wait_on:
  assumes "verify_cond_wait c (Some l) s = (Inr (), s')" and "y_on s'"
  shows "s' = s \<and> y_held s \<noteq> [] \<and> h_info (last (y_held s)) = l"
proof -
  obtain a where c: "c = Some a" using assms(1) by (cases c) (auto simp: verify_cond_wait_def print_invalid_call_def)
  show ?thesis
    using assms
    by (auto simp: c verify_cond_wait_def last_acquired_lock_def error_condwait_unheld_def error_condwait_circular_def lockdep_off_def
        elim!: andthen_InrE dest!: check_magic_same split: if_splits option.splits)
qed

text \<open>Headers that change, but not their classes.\<close>

definition same_classes :: "sync_state \<Rightarrow> sync_state \<Rightarrow> bool" where
  "same_classes s s' \<longleftrightarrow> y_on s' = y_on s \<and> y_deps s' = y_deps s \<and> y_held s' = y_held s \<and>
     (\<forall>a i. y_info s a = Some i \<longrightarrow> (\<exists>j. y_info s' a = Some j \<and> li_lc j = li_lc i))"

lemma info_destroy_same: "info_destroy l s = (Inr (), s') \<Longrightarrow> same_classes s s'"
  by (auto simp: info_destroy_def set_info_def get_info_def same_classes_def elim!: andthen_InrE split: option.splits)

lemma verify_destroy_same: "verify_destroy type l s = (Inr (), s') \<Longrightarrow> same_classes s s'"
  by (auto simp: verify_destroy_def print_invalid_call_def check_unheld_for_destroy_def error_destroy_def
      elim!: andthen_InrE dest!: check_magic_same info_destroy_same split: option.splits)

lemma verify_cond_destroy_same: "verify_cond_destroy c s = (Inr (), s') \<Longrightarrow> same_classes s s'"
  by (auto simp: verify_cond_destroy_def print_invalid_call_def
      elim!: andthen_InrE dest!: check_magic_same info_destroy_same split: option.splits)

lemma verify_cond_init_same: "verify_cond_init c s = (Inr (), s') \<Longrightarrow> same_classes s s'"
  by (auto simp: verify_cond_init_def print_invalid_call_def set_info_def same_classes_def split: option.splits)

lemma world_ok_same:
  assumes ok: "world_ok w" and same: "same_classes (view w t) s"
  shows "world_ok (put w t s None)"
proof (rule world_ok_put [OF ok])
  have old: "in_lock_order (w_deps w) (w_info w) (w_held w u)" if "w_on w" for u using ok that by (simp add: world_ok_def)
  show info: "class_of (y_info s) h = class_of (w_info w) h \<and> y_info s (h_info h) \<noteq> None"
    if on: "y_on s" and h: "h \<in> set (w_held w u)" for u h
  proof -
    obtain i where i: "w_info w (h_info h) = Some i" using old [of u] on h same by (auto simp: in_lock_order_def same_classes_def)
    then obtain j where "y_info s (h_info h) = Some j" "li_lc j = li_lc i" using same by (auto simp: same_classes_def)
    then show ?thesis using i by (simp add: class_of_def)
  qed
  show "y_on s \<Longrightarrow> w_on w" using same by (simp add: same_classes_def)
  show "thread_ok s \<and> edges (w_deps w) \<subseteq> edges (y_deps s)" if "y_on s"
  proof -
    have "in_lock_order (w_deps w) (y_info s) (w_held w t)"
      by (rule in_lock_order_mono [OF old]) (use same that info [of _ t] in \<open>auto simp: same_classes_def\<close>)
    then show ?thesis using ok same that by (auto simp: thread_ok_def same_classes_def world_ok_def)
  qed
qed auto


lemma init_ok:
  assumes ok: "world_ok w" and free: "\<forall>u. \<forall>h \<in> set (w_held w u). h_info h \<noteq> l"
    and run: "info_init type (Some l) lc (view w t) = (Inr (), s)"
  shows "world_ok (put w t s None)"
proof -
  obtain c where s: "s = (view w t)\<lparr>y_info := (w_info w)(l \<mapsto> \<lparr>li_magic = l, li_type = type, li_lc = c\<rparr>)\<rparr>"
    using run by (cases lc) (auto simp: info_init_def set_info_def print_invalid_call_def)
  have old: "in_lock_order (w_deps w) (w_info w) (w_held w u)" if "w_on w" for u using ok that by (simp add: world_ok_def)
  have info: "class_of (y_info s) h = class_of (w_info w) h \<and> y_info s (h_info h) \<noteq> None" if on: "w_on w" and h: "h \<in> set (w_held w u)" for u h
    using old [OF on, of u] h free by (auto simp: s class_of_def in_lock_order_def)
  show ?thesis
  proof (rule world_ok_put [OF ok])
    show "thread_ok s \<and> edges (w_deps w) \<subseteq> edges (y_deps s)" if "y_on s"
    proof -
      have "in_lock_order (w_deps w) (y_info s) (w_held w t)"
        by (rule in_lock_order_mono [OF old]) (use that info [of _ t] in \<open>auto simp: s\<close>)
      then show ?thesis using ok that by (auto simp: thread_ok_def s world_ok_def)
    qed
  qed (use info in \<open>auto simp: s\<close>)
qed

lemma held_known: "world_ok w \<Longrightarrow> w_on w \<Longrightarrow> h \<in> set (w_held w u) \<Longrightarrow> \<exists>i. w_info w (h_info h) = Some i"
  unfolding world_ok_def in_lock_order_def by blast

lemma step_world_ok: "step w w' \<Longrightarrow> world_ok w \<Longrightarrow> world_ok w'"
proof (induction rule: step.induct)
  case (init w t type l lc s)
  then show ?case using init_ok by blast
next
  case (acquire w t type l wr s)
  show ?case
  proof (cases "w_on w")
    case True
    have on: "y_on s \<Longrightarrow> y_on (view w t) \<and> thread_ok s \<and> edges (w_deps w) \<subseteq> edges (y_deps s) \<and> y_info s = w_info w \<and>
        y_held s \<noteq> [] \<and> h_info (last (y_held s)) = l"
      using verify_acquire_on [OF world_ok_thread [OF acquire.prems True] acquire.hyps(2)] by simp
    show ?thesis
      by (rule world_ok_put [OF acquire.prems]) (use on True held_known [OF acquire.prems] in auto)
  next
    case False
    then have "\<not> y_on s" using acquire.hyps(2)
      by (auto simp: verify_acquire_def check_unheld_for_lock_def elim!: andthen_InrE dest!: check_magic_same)
    then show ?thesis by (simp add: world_ok_def)
  qed
next
  case (release w t type l s)
  show ?case
  proof (cases "w_on w")
    case True
    have "y_on s = w_on w \<and> thread_ok s \<and> y_deps s = w_deps w \<and> y_info s = w_info w"
      using verify_release_on [OF world_ok_thread [OF release.prems True] release.hyps(2)] by simp
    then show ?thesis
      by (intro world_ok_put [OF release.prems]) (use True held_known [OF release.prems] in auto)
  next
    case False
    then have "\<not> y_on s" using release.hyps(2)
      by (auto simp: verify_release_def print_invalid_call_def check_held_for_unlock_def elim!: andthen_InrE dest!: check_magic_same
          split: option.splits)
    then show ?thesis by (simp add: world_ok_def)
  qed
next
  case (cond_wait w t c l s)
  show ?case
  proof (cases "y_on s")
    case True
    then have "s = view w t \<and> w_held w t \<noteq> [] \<and> h_info (last (w_held w t)) = l"
      using verify_cond_wait_on [OF cond_wait.hyps(2) True] by simp
    then show ?thesis using cond_wait.prems by (auto simp: world_ok_def)
  qed (simp add: world_ok_def)
next
  case (exit w t s)
  then have "\<not> y_on s \<or> s = view w t"
    by (auto simp: lockdep_no_locks_def error_locks_on_exit_def lockdep_off_def split: if_splits)
  then show ?case using exit.prems by (auto simp: world_ok_def)
next
  case (granted w t l)
  then show ?case by (auto simp: world_ok_def)
qed (use world_ok_same verify_destroy_same verify_cond_destroy_same verify_cond_init_same in blast)+

subsection \<open>No circular waits\<close>

definition reachable :: "nat \<Rightarrow> nat \<Rightarrow> world \<Rightarrow> bool" where
  "reachable depth dep_count w \<longleftrightarrow> step\<^sup>*\<^sup>* (start depth dep_count) w"

lemma reachable_ok: "reachable depth dep_count w \<Longrightarrow> world_ok w"
  unfolding reachable_def
proof (induction rule: rtranclp_induct)
  case base
  show ?case by (simp add: start_def world_ok_def in_lock_order_def acyclic_def)
qed (rule step_world_ok)

text \<open>A thread holds the locks of its stack, but not the one it waits for.\<close>

definition holds :: "world \<Rightarrow> nat \<Rightarrow> nat \<Rightarrow> bool" where
  "holds w u l \<longleftrightarrow> l \<in> h_info ` set (w_held w u) \<and> w_wait w u \<noteq> Some l"

definition waits_for :: "world \<Rightarrow> (nat \<times> nat) set" where
  "waits_for w = {(t, u). \<exists>l. w_wait w t = Some l \<and> holds w u l}"

definition wanted_class :: "world \<Rightarrow> nat \<Rightarrow> lock_class" where
  "wanted_class w t = li_lc (the (w_info w (the (w_wait w t))))"

lemma waits_for_edge:
  assumes ok: "world_ok w" "w_on w" and tu: "(t, u) \<in> waits_for w" and u: "w_wait w u = Some k"
  shows "(wanted_class w u, wanted_class w t) \<in> (edges (w_deps w))\<^sup>+"
proof -
  obtain l where l: "w_wait w t = Some l" "l \<in> h_info ` set (w_held w u)" "l \<noteq> k"
    using tu u by (auto simp: waits_for_def holds_def)
  obtain ys where ys: "w_held w u = ys @ [last (w_held w u)]" and k: "h_info (last (w_held w u)) = k"
    using ok u by (metis append_butlast_last_id world_ok_def)
  obtain h where h: "h \<in> set (w_held w u)" "h_info h = l" using l(2) by blast
  have "h \<in> set ys" using h l(3) k ys by (metis Un_iff empty_iff list.set(1,2) set_append singletonD)
  moreover have "in_lock_order (w_deps w) (w_info w) (ys @ [last (w_held w u)])" using ok ys by (metis world_ok_def)
  ultimately have "(class_of (w_info w) (last (w_held w u)), class_of (w_info w) h) \<in> (edges (w_deps w))\<^sup>+"
    by (simp add: in_lock_order_def sorted_wrt_append)
  then show ?thesis using l(1) u k h(2) by (simp add: class_of_def wanted_class_def)
qed

lemma waits_for_path:
  assumes ok: "world_ok w" "w_on w" and "(t, u) \<in> (waits_for w)\<^sup>+" and "w_wait w u \<noteq> None"
  shows "(wanted_class w u, wanted_class w t) \<in> (edges (w_deps w))\<^sup>+"
  using assms(3,4)
proof (induction rule: trancl_induct)
  case (base u)
  then show ?case using waits_for_edge [OF ok] by auto
next
  case (step u v)
  have "w_wait w u \<noteq> None" using step.hyps(2) by (auto simp: waits_for_def)
  then show ?case using step waits_for_edge [OF ok step.hyps(2)] trancl_trans by (metis option.exhaust)
qed


text \<open>
  C29. Whatever a program does with its locks, in any number of threads: as long as the checks have not turned themselves
  off, the threads do not wait for each other in a circle, so there is no deadlock on locks.
\<close>

theorem lockdep_no_circular_wait:
  assumes "reachable depth dep_count w" and "w_on w"
  shows "acyclic (waits_for w)"
  unfolding acyclic_def
proof (intro allI notI)
  fix t
  assume cycle: "(t, t) \<in> (waits_for w)\<^sup>+"
  then have "w_wait w t \<noteq> None" by (auto simp: waits_for_def dest!: tranclD)
  then have "(wanted_class w t, wanted_class w t) \<in> (edges (w_deps w))\<^sup>+"
    using waits_for_path [OF reachable_ok [OF assms(1)] assms(2) cycle] by simp
  then show False using reachable_ok [OF assms(1)] assms(2) by (auto simp: world_ok_def acyclic_def)
qed

text \<open>A run: a lock is initialised and a thread waits for it.\<close>

definition one_lock :: lock_info where
  "one_lock = \<lparr>li_magic = 1, li_type = SYNCH_TYPE_MUTEX, li_lc = 7\<rparr>"

definition waiting_world :: world where
  "waiting_world = \<lparr>w_on = True, w_deps = [], w_info = [1 \<mapsto> one_lock],
     w_held = (\<lambda>_. [])(0 := [\<lparr>h_info = 1, h_type = SYNCH_TYPE_MUTEX, h_wr = False\<rparr>]), w_wait = (\<lambda>_. None)(0 := Some 1),
     w_depth = 8, w_dep_count = 8\<rparr>"

lemma waiting_reachable: "reachable 8 8 waiting_world"
proof -
  let ?w = "start 8 8"
  let ?s1 = "(view ?w 0)\<lparr>y_info := [1 \<mapsto> one_lock]\<rparr>"
  let ?w1 = "put ?w 0 ?s1 None"
  let ?s2 = "(view ?w1 0)\<lparr>y_held := [\<lparr>h_info = 1, h_type = SYNCH_TYPE_MUTEX, h_wr = False\<rparr>]\<rparr>"
  have "info_init SYNCH_TYPE_MUTEX (Some 1) (Some 7) (view ?w 0) = (Inr (), ?s1)"
    by (simp add: info_init_def set_info_def one_lock_def view_def start_def)
  then have 1: "step ?w ?w1" by (intro step.init [of ?w 0 SYNCH_TYPE_MUTEX 1]) (simp_all add: start_def)
  have "verify_acquire SYNCH_TYPE_MUTEX (Some 1) False (view ?w1 0) = (Inr (), ?s2)"
    by (simp add: verify_acquire_def check_magic_def get_info_def check_unheld_for_lock_def check_circular_deps_def
        last_acquired_lock_def held_stack_push_def then_bool one_lock_def view_def put_def start_def)
  then have 2: "step ?w1 (put ?w1 0 ?s2 (Some 1))" by (intro step.acquire) simp_all
  have "put ?w1 0 ?s2 (Some 1) = waiting_world"
    by (simp add: waiting_world_def put_def view_def start_def)
  then show ?thesis unfolding reachable_def using 1 2 by (metis converse_rtranclp_into_rtranclp rtranclp.rtrancl_refl)
qed

theorem lockdep_no_circular_wait_witness: "acyclic (waits_for waiting_world)"
  by (rule lockdep_no_circular_wait [OF waiting_reachable]) (simp add: waiting_world_def)

text \<open>
  C30. The check before a mutex is acquired, in any state a program can get into while checking is on: it ends; it
  aborts the program exactly if the thread already holds the lock; and checking stays on exactly if the thread holds no lock of
  the same class, the dependency of the lock's class on that of the last lock acquired closes no cycle, and there is
  room for the dependency and for the lock. Then the dependency is recorded and the lock is on the stack.
\<close>

theorem verify_lock_exact:
  assumes "reachable depth dep_count w" and "w_on w"
    and "w_info w l = Some \<lparr>li_magic = l, li_type = SYNCH_TYPE_MUTEX, li_lc = c\<rparr>"
  shows "\<exists>r s'. verify_lock_lock (Some l) (view w t) = (r, s') \<and> r \<in> {Inr (), Inl Panic} \<and>
    (r = Inl Panic \<longleftrightarrow> (\<exists>h. conflict l c (view w t) = Some h \<and> h_info h = l)) \<and>
    (r = Inr () \<and> y_on s' \<longleftrightarrow> conflict l c (view w t) = None \<and> dep_room c (view w t) \<and>
      acyclic (edges (with_dep c (view w t))) \<and> length (w_held w t) \<noteq> w_depth w) \<and>
    (r = Inr () \<and> y_on s' \<longrightarrow> s' = (view w t)\<lparr>y_deps := with_dep c (view w t),
      y_held := w_held w t @ [\<lparr>h_info = l, h_type = SYNCH_TYPE_MUTEX, h_wr = False\<rparr>]\<rparr>)"
proof -
  have ok: "thread_ok (view w t)" using world_ok_thread [OF reachable_ok [OF assms(1)] assms(2)] .
  have "verify_lock_lock (Some l) (view w t) = check_unheld_for_lock l False (view w t)"
    using assms(3) by (simp add: verify_lock_lock_def verify_acquire_def check_magic_def get_info_def)
  then show ?thesis using check_lock_run [OF ok, of l _ False] assms(2,3) by (auto simp: view_def)
qed

theorem verify_lock_exact_witness:
  "\<exists>r s'. verify_lock_lock (Some 1) (view waiting_world 1) = (r, s') \<and> r \<in> {Inr (), Inl Panic}"
  using verify_lock_exact [OF waiting_reachable, of 1 7 1] by (auto simp: waiting_world_def one_lock_def)

end
