(* ===== verification/Io.thy ===== *)
theory Io
  imports Prelude
begin

text \<open>
  Complete reads and writes on file descriptors: \<^verbatim>\<open>src/io_common.h\<close> and \<^verbatim>\<open>src/io.c\<close>.

  The state \<open>conn\<close> is what is behind a descriptor: the bytes that are still to come on a stream, the bytes
  written to it so far, and the contents of a file for the calls with an offset. How many bytes a system call
  moves and whether it fails is up to the system: the \<open>k\<close>-th call moves at most \<open>Suc (cn_limit k)\<close> bytes, or fails
  when \<open>cn_errs k\<close> is an error. A read at the end of the stream gives no bytes.
\<close>

record conn =
  cn_in :: bytes
  cn_out :: bytes
  cn_file :: bytes
  cn_limit :: "nat \<Rightarrow> nat"
  cn_errs :: "nat \<Rightarrow> errno option"
  cn_calls :: nat

subsection \<open>System calls\<close>

definition sys_count :: "conn \<Rightarrow> nat \<Rightarrow> nat" where
  "sys_count c n = min n (Suc (cn_limit c (cn_calls c)))"

definition sys_call :: "(conn, 'a) cfun \<Rightarrow> (conn, 'a) cfun" where
  "sys_call f c =
     (case cn_errs c (cn_calls c) of
        Some e \<Rightarrow> (Inl (Errno e), c\<lparr>cn_calls := Suc (cn_calls c)\<rparr>)
      | None \<Rightarrow> (case f c of (r, c') \<Rightarrow> (r, c'\<lparr>cn_calls := Suc (cn_calls c)\<rparr>)))"

definition sys_read :: "nat \<Rightarrow> (conn, bytes) cfun" where
  "sys_read n = sys_call (\<lambda>c. (Inr (take (sys_count c n) (cn_in c)), c\<lparr>cn_in := drop (sys_count c n) (cn_in c)\<rparr>))"

definition sys_pread :: "nat \<Rightarrow> nat \<Rightarrow> (conn, bytes) cfun" where
  "sys_pread n off = sys_call (\<lambda>c. (Inr (take (sys_count c n) (drop off (cn_file c))), c))"

definition sys_write :: "bytes \<Rightarrow> (conn, nat) cfun" where
  "sys_write bs = sys_call (\<lambda>c. (Inr (sys_count c (length bs)), c\<lparr>cn_out := cn_out c @ take (sys_count c (length bs)) bs\<rparr>))"

text \<open>Writing beyond the end of a file fills the gap with zeros.\<close>

definition file_put :: "bytes \<Rightarrow> nat \<Rightarrow> bytes \<Rightarrow> bytes" where
  "file_put d off bs = take off (d @ replicate (off - length d) 0) @ bs @ drop (off + length bs) d"

definition sys_pwrite :: "bytes \<Rightarrow> nat \<Rightarrow> (conn, nat) cfun" where
  "sys_pwrite bs off = sys_call (\<lambda>c. (Inr (sys_count c (length bs)), c\<lparr>cn_file := file_put (cn_file c) off (take (sys_count c (length bs)) bs)\<rparr>))"

subsection \<open>Operations\<close>

text \<open>
  The loop of \<open>rw\<close>, with \<open>readfxns\<close> and without: every round moves at least one byte, so that the number of bytes is
  enough fuel.
\<close>

primrec rw_read :: "nat \<Rightarrow> bool \<Rightarrow> nat \<Rightarrow> nat \<Rightarrow> bytes \<Rightarrow> (conn, bytes) cfun" where
  "rw_read 0 useoff nbyte off acc = (if nbyte = 0 then cret acc else cerr Diverged)"
| "rw_read (Suc fuel) useoff nbyte off acc =
     (if nbyte = 0 then cret acc
      else andthen (if useoff then sys_pread nbyte off else sys_read nbyte) (\<lambda>bs.
        if length bs = 0 then cerr (Errno EPIPE)
        else rw_read fuel useoff (nbyte - length bs) (off + length bs) (acc @ bs)))"

primrec rw_write :: "nat \<Rightarrow> bool \<Rightarrow> bytes \<Rightarrow> nat \<Rightarrow> (conn, unit) cfun" where
  "rw_write 0 useoff bs off = (if bs = [] then cret () else cerr Diverged)"
| "rw_write (Suc fuel) useoff bs off =
     (if bs = [] then cret ()
      else andthen (if useoff then sys_pwrite bs off else sys_write bs) (\<lambda>n.
        if n = 0 then cerr (Errno EPIPE)
        else rw_write fuel useoff (drop n bs) (off + n)))"

definition xread :: "nat \<Rightarrow> (conn, bytes) cfun" where
  "xread nbyte = rw_read nbyte False nbyte 0 []"

definition xpread :: "nat \<Rightarrow> nat \<Rightarrow> (conn, bytes) cfun" where
  "xpread nbyte off = rw_read nbyte True nbyte off []"

definition xwrite :: "bytes \<Rightarrow> (conn, unit) cfun" where
  "xwrite bs = rw_write (length bs) False bs 0"

definition xpwrite :: "bytes \<Rightarrow> nat \<Rightarrow> (conn, unit) cfun" where
  "xpwrite bs off = rw_write (length bs) True bs off"

text \<open>The argument is the string without its nul.\<close>

definition xwrite_str :: "bytes \<Rightarrow> (conn, unit) cfun" where
  "xwrite_str s = xwrite s"

text \<open>
  \<open>read_file_common\<close>, given the results of \<open>open\<close> and \<open>fstat\<close>: the contents of the object returned, which ends
  with a nul.
\<close>

definition read_file_common :: "unit res \<Rightarrow> nat res \<Rightarrow> (conn \<times> mem, bytes) cfun" where
  "read_file_common opened st_size s =
     (case opened of
        Inl e \<Rightarrow> (Inl e, s)
      | Inr _ \<Rightarrow>
          (case st_size of
             Inl e \<Rightarrow> (Inl e, s)
           | Inr n \<Rightarrow>
               (case c_malloc (wrap64 (n + 1)) (snd s) of
                  (None, m) \<Rightarrow> (fail ENOMEM, (fst s, m))
                | (Some out, m) \<Rightarrow>
                    (case xread n (fst s) of
                       (Inl e, c) \<Rightarrow> (Inl e, (c, m))
                     | (Inr bs, c) \<Rightarrow>
                         if length out \<le> n then (Inl Fault, (c, m)) else (Inr (bs @ [0]), (c, m))))))"

definition write_file :: "unit res \<Rightarrow> bytes \<Rightarrow> (conn, unit) cfun" where
  "write_file opened data = (case opened of Inl e \<Rightarrow> cerr e | Inr _ \<Rightarrow> xwrite data)"

subsection \<open>Complete transfers\<close>

definition reliable :: "conn \<Rightarrow> bool" where
  "reliable c \<longleftrightarrow> (\<forall>k. cn_errs c k = None)"

text \<open>The states a connection can be in after calls: the same system, later.\<close>

definition later :: "conn \<Rightarrow> conn \<Rightarrow> bool" where
  "later c c' \<longleftrightarrow> cn_limit c' = cn_limit c \<and> cn_errs c' = cn_errs c \<and> cn_calls c \<le> cn_calls c'"

lemma later_refl [simp]: "later c c"
  by (simp add: later_def)

lemma later_trans: "later a b \<Longrightarrow> later b c \<Longrightarrow> later a c"
  by (auto simp: later_def)

lemma later_reliable: "later c c' \<Longrightarrow> reliable c' = reliable c"
  by (simp add: later_def reliable_def)

text \<open>Reading ends with all the bytes asked for, or with an error: at the end of the stream, or from the system.\<close>

lemma rw_read_cases:
  assumes "nbyte \<le> fuel"
  shows "\<exists>r c'. rw_read fuel False nbyte off acc c = (r, c') \<and> later c c' \<and> cn_out c' = cn_out c \<and>
    (case r of
       Inr bs \<Rightarrow> nbyte \<le> length (cn_in c) \<and> bs = acc @ take nbyte (cn_in c) \<and> cn_in c' = drop nbyte (cn_in c)
     | Inl e \<Rightarrow> e = Errno EPIPE \<and> length (cn_in c) < nbyte \<and> cn_in c' = [] \<or> (\<exists>k n. cn_errs c k = Some n \<and> e = Errno n))"
  using assms
proof (induction fuel arbitrary: nbyte off acc c)
  case 0
  then show ?case by simp
next
  case (Suc fuel)
  show ?case
  proof (cases "nbyte = 0 \<or> (\<exists>e. cn_errs c (cn_calls c) = Some e) \<or> cn_in c = []")
    case True
    then show ?thesis
      by (cases "nbyte = 0"; cases "cn_errs c (cn_calls c)")
        (auto simp: sys_read_def sys_call_def andthen_def later_def)
  next
    case False
    define k where "k = sys_count c nbyte"
    define t where "t = c\<lparr>cn_in := drop k (cn_in c), cn_calls := Suc (cn_calls c)\<rparr>"
    define l where "l = length (take k (cn_in c))"
    have k: "0 < k" "k \<le> nbyte" and l: "0 < l" "l \<le> nbyte" and ne: "cn_errs c (cn_calls c) = None" "nbyte \<noteq> 0"
      using False by (auto simp: k_def sys_count_def l_def)
    have fu: "nbyte - l \<le> fuel"
      using Suc.prems l by simp
    have step: "rw_read (Suc fuel) False nbyte off acc c = rw_read fuel False (nbyte - l) (off + l) (acc @ take k (cn_in c)) t"
      using ne l k by (auto simp: sys_read_def sys_call_def andthen_def t_def k_def l_def)
    obtain r c' where r: "rw_read fuel False (nbyte - l) (off + l) (acc @ take k (cn_in c)) t = (r, c')" "later t c'" "cn_out c' = cn_out t"
      "case r of
       Inr bs \<Rightarrow> nbyte - l \<le> length (cn_in t) \<and> bs = (acc @ take k (cn_in c)) @ take (nbyte - l) (cn_in t) \<and> cn_in c' = drop (nbyte - l) (cn_in t)
     | Inl e \<Rightarrow> e = Errno EPIPE \<and> length (cn_in t) < nbyte - l \<and> cn_in c' = [] \<or> (\<exists>k n. cn_errs t k = Some n \<and> e = Errno n)"
      using Suc.IH [of "nbyte - l" "off + l" "acc @ take k (cn_in c)" t] fu by blast
    have "later c c'" "cn_out c' = cn_out c"
      using r(2,3) by (simp_all add: t_def later_def)
    moreover have "take k (cn_in c) @ take (nbyte - l) (drop k (cn_in c)) = take nbyte (cn_in c)"
      "drop (nbyte - l) (drop k (cn_in c)) = drop nbyte (cn_in c)"
      using k by (auto simp: l_def min_def take_add [symmetric])
    moreover have "nbyte - l \<le> length (cn_in t) \<longleftrightarrow> nbyte \<le> length (cn_in c)"
      using k by (auto simp: t_def l_def min_def)
    ultimately show ?thesis
      unfolding step r(1) using r(4) by (auto simp: t_def split: sum.splits)
  qed
qed

lemma xread_cases:
  obtains (ok) c' where "xread n c = (Inr (take n (cn_in c)), c')" "n \<le> length (cn_in c)" "cn_in c' = drop n (cn_in c)"
      "cn_out c' = cn_out c" "later c c'"
    | (eof) c' where "xread n c = (fail EPIPE, c')" "length (cn_in c) < n" "cn_in c' = []" "cn_out c' = cn_out c" "later c c'"
    | (err) e c' where "xread n c = (fail e, c')" "\<not> reliable c" "cn_out c' = cn_out c" "later c c'"
proof -
  obtain r c' where "rw_read n False n 0 [] c = (r, c')" "later c c'" "cn_out c' = cn_out c"
    "case r of
       Inr bs \<Rightarrow> n \<le> length (cn_in c) \<and> bs = [] @ take n (cn_in c) \<and> cn_in c' = drop n (cn_in c)
     | Inl e \<Rightarrow> e = Errno EPIPE \<and> length (cn_in c) < n \<and> cn_in c' = [] \<or> (\<exists>k n. cn_errs c k = Some n \<and> e = Errno n)"
    using rw_read_cases [of n n 0 "[]" c] by blast
  then show thesis
    by (cases r) (auto simp: xread_def reliable_def intro: ok eof err)
qed

lemma xread_ok:
  assumes "reliable c" and "n \<le> length (cn_in c)"
  shows "\<exists>c'. xread n c = (Inr (take n (cn_in c)), c') \<and> cn_in c' = drop n (cn_in c) \<and> cn_out c' = cn_out c \<and> later c c'"
  using assms by (cases rule: xread_cases [of n c]) auto

lemma xread_short:
  assumes "reliable c" and "length (cn_in c) < n"
  shows "\<exists>c'. xread n c = (fail EPIPE, c') \<and> cn_in c' = [] \<and> cn_out c' = cn_out c \<and> later c c'"
  using assms by (cases rule: xread_cases [of n c]) auto

lemma rw_write_cases:
  assumes "length bs \<le> fuel"
  shows "\<exists>r c'. rw_write fuel False bs off c = (r, c') \<and> later c c' \<and> cn_in c' = cn_in c \<and>
    (case r of
       Inr _ \<Rightarrow> cn_out c' = cn_out c @ bs
     | Inl e \<Rightarrow> (\<exists>n < length bs. cn_out c' = cn_out c @ take n bs) \<and> (\<exists>k n. cn_errs c k = Some n \<and> e = Errno n))"
  using assms
proof (induction fuel arbitrary: bs off c)
  case 0
  then show ?case by simp
next
  case (Suc fuel)
  show ?case
  proof (cases "bs = [] \<or> (\<exists>e. cn_errs c (cn_calls c) = Some e)")
    case True
    then show ?thesis
      by (cases "bs = []"; cases "cn_errs c (cn_calls c)")
        (auto simp: sys_write_def sys_call_def andthen_def later_def)
  next
    case False
    define k where "k = sys_count c (length bs)"
    define t where "t = c\<lparr>cn_out := cn_out c @ take k bs, cn_calls := Suc (cn_calls c)\<rparr>"
    have k: "0 < k" "k \<le> length bs"
      using False by (auto simp: k_def sys_count_def)
    have fu: "length (drop k bs) \<le> fuel"
      using Suc.prems k by simp
    have step: "rw_write (Suc fuel) False bs off c = rw_write fuel False (drop k bs) (off + k) t"
      using False k by (auto simp: sys_write_def sys_call_def andthen_def t_def k_def)
    obtain r c' where r: "rw_write fuel False (drop k bs) (off + k) t = (r, c')" "later t c'" "cn_in c' = cn_in t"
      "case r of
       Inr _ \<Rightarrow> cn_out c' = cn_out t @ drop k bs
     | Inl e \<Rightarrow> (\<exists>n < length (drop k bs). cn_out c' = cn_out t @ take n (drop k bs)) \<and> (\<exists>k n. cn_errs t k = Some n \<and> e = Errno n)"
      using Suc.IH [of "drop k bs" "off + k" t] fu by blast
    have "\<exists>m < length bs. cn_out c' = cn_out c @ take m bs" if "n < length bs - k" "cn_out c' = cn_out t @ take n (drop k bs)" for n
      using that by (intro exI [of _ "k + n"]) (simp add: t_def take_add)
    then show ?thesis
      unfolding step r(1) using r(2-4) by (auto simp: t_def later_def split: sum.splits)
  qed
qed

lemma xwrite_ok:
  assumes "reliable c"
  shows "\<exists>c'. xwrite bs c = (Inr (), c') \<and> cn_out c' = cn_out c @ bs \<and> cn_in c' = cn_in c \<and> later c c'"
proof -
  obtain r c' where "rw_write (length bs) False bs 0 c = (r, c')" "later c c'" "cn_in c' = cn_in c"
    "case r of
       Inr _ \<Rightarrow> cn_out c' = cn_out c @ bs
     | Inl e \<Rightarrow> (\<exists>n < length bs. cn_out c' = cn_out c @ take n bs) \<and> (\<exists>k n. cn_errs c k = Some n \<and> e = Errno n)"
    using rw_write_cases [of bs "length bs" 0 c] by blast
  then show ?thesis
    using assms by (cases r) (auto simp: xwrite_def reliable_def)
qed

end
