(* ===== verification/Scgi.thy ===== *)
theory Scgi
  imports Qstring Io
begin

text \<open>
  SCGI requests and responses: \<^verbatim>\<open>src/scgisvc.c\<close>, with \<^verbatim>\<open>src/include/jeffpc/scgi.h\<close> and
  \<^verbatim>\<open>src/include/jeffpc/scgisvc.h\<close>.

  A request is a netstring with the headers, each a name and a value that end with a nul, followed by a body of
  \<open>CONTENT_LENGTH\<close> bytes. The state of a call is the connection, the allocator and the \<open>struct scgi\<close>. The buffer
  the headers are read into is a list of bytes, and an access behind its end is a \<open>Fault\<close>. The functions of the
  service that uses the library (\<open>struct scgiops\<close>) are arguments.
\<close>

subsection \<open>Data\<close>

datatype scgi_request_method =
    SCGI_REQUEST_METHOD_UNKNOWN | SCGI_REQUEST_METHOD_GET | SCGI_REQUEST_METHOD_POST | SCGI_REQUEST_METHOD_HEAD

text \<open>
  The lists of a request are \<open>None\<close> when their allocation failed: \<open>nvl_alloc\<close> answers an error pointer then, which
  \<open>scgi_alloc\<close> does not notice, and which no function can follow. The body of the response is the \<open>bodylen\<close> bytes
  at \<open>body\<close>.
\<close>

record scgi =
  rq_headers :: "nvpairs option"
  rq_query :: "nvpairs option"
  rq_content_length :: nat
  rq_body :: "bytes option"
  rq_method :: scgi_request_method
  rs_status :: nat
  rs_headers :: "nvpairs option"
  rs_body :: bytes

definition SCGI_STATUS_OK :: nat where
  "SCGI_STATUS_OK = 200"

record sst =
  ss_conn :: conn
  ss_mem :: mem
  ss_req :: scgi

text \<open>The names of the headers the server looks at.\<close>

definition hdr_scgi :: bytes where
  "hdr_scgi = [83, 67, 71, 73]"

definition SCGI_CONTENT_LENGTH :: bytes where
  "SCGI_CONTENT_LENGTH = [67, 79, 78, 84, 69, 78, 84, 95, 76, 69, 78, 71, 84, 72]"

definition SCGI_REMOTE_PORT :: bytes where
  "SCGI_REMOTE_PORT = [82, 69, 77, 79, 84, 69, 95, 80, 79, 82, 84]"

definition SCGI_SERVER_PORT :: bytes where
  "SCGI_SERVER_PORT = [83, 69, 82, 86, 69, 82, 95, 80, 79, 82, 84]"

definition SCGI_REQUEST_METHOD :: bytes where
  "SCGI_REQUEST_METHOD = [82, 69, 81, 85, 69, 83, 84, 95, 77, 69, 84, 72, 79, 68]"

definition SCGI_QUERY_STRING :: bytes where
  "SCGI_QUERY_STRING = [81, 85, 69, 82, 89, 95, 83, 84, 82, 73, 78, 71]"

subsection \<open>Calls on the parts of the state\<close>

definition on_conn :: "(conn, 'a) cfun \<Rightarrow> (sst, 'a) cfun" where
  "on_conn f s = (case f (ss_conn s) of (r, c) \<Rightarrow> (r, s\<lparr>ss_conn := c\<rparr>))"

definition on_headers :: "(nvstate, 'a) cfun \<Rightarrow> (sst, 'a) cfun" where
  "on_headers f s =
     (case rq_headers (ss_req s) of
        None \<Rightarrow> (Inl Fault, s)
      | Some kvs \<Rightarrow>
          (case f (kvs, ss_mem s) of
             (r, (kvs', m)) \<Rightarrow> (r, s\<lparr>ss_mem := m, ss_req := (ss_req s)\<lparr>rq_headers := Some kvs'\<rparr>\<rparr>)))"

definition on_query :: "(nvstate, 'a) cfun \<Rightarrow> (sst, 'a) cfun" where
  "on_query f s =
     (case rq_query (ss_req s) of
        None \<Rightarrow> (Inl Fault, s)
      | Some kvs \<Rightarrow>
          (case f (kvs, ss_mem s) of
             (r, (kvs', m)) \<Rightarrow> (r, s\<lparr>ss_mem := m, ss_req := (ss_req s)\<lparr>rq_query := Some kvs'\<rparr>\<rparr>)))"

text \<open>A lookup in the headers of the request.\<close>

definition in_headers :: "(nvpairs \<Rightarrow> 'a res) \<Rightarrow> (sst, 'a) cfun" where
  "in_headers f = on_headers (\<lambda>(kvs, m). (f kvs, (kvs, m)))"

definition set_req :: "(scgi \<Rightarrow> scgi) \<Rightarrow> (sst, unit) cfun" where
  "set_req f s = (Inr (), s\<lparr>ss_req := f (ss_req s)\<rparr>)"

definition s_malloc :: "nat \<Rightarrow> (sst, bytes) cfun" where
  "s_malloc n s =
     (case c_malloc n (ss_mem s) of
        (None, m) \<Rightarrow> (fail ENOMEM, s\<lparr>ss_mem := m\<rparr>)
      | (Some buf, m) \<Rightarrow> (Inr buf, s\<lparr>ss_mem := m\<rparr>))"

text \<open>\<open>xread\<close> into an object: the bytes that arrive must fit.\<close>

definition xread_into :: "bytes \<Rightarrow> nat \<Rightarrow> (sst, bytes) cfun" where
  "xread_into buf n s =
     (if n \<le> length buf then on_conn (xread n) s
      else case xread n (ss_conn s) of
        (Inl e, c) \<Rightarrow> (Inl (if length (cn_in (ss_conn s)) \<le> length buf then e else Fault), s\<lparr>ss_conn := c\<rparr>)
      | (Inr _, c) \<Rightarrow> (Inl Fault, s\<lparr>ss_conn := c\<rparr>))"

subsection \<open>Reading a request\<close>

primrec netstring_length_loop :: "nat \<Rightarrow> nat \<Rightarrow> (sst, nat) cfun" where
  "netstring_length_loop 0 v = cerr Diverged"
| "netstring_length_loop (Suc fuel) v =
     andthen (on_conn (xread 1)) (\<lambda>bs.
       let c = bs ! 0
       in if c = 58 then cret v
          else if 48 \<le> c \<and> c \<le> 57 then netstring_length_loop fuel (wrap64 (wrap64 (v * 10) + unat (c - 48)))
          else cerr (Errno EINVAL))"

definition read_netstring_length :: "(sst, nat) cfun" where
  "read_netstring_length s = netstring_length_loop (Suc (length (cn_in (ss_conn s)))) 0 s"

text \<open>\<open>strlen\<close> at an offset of an object; \<open>None\<close> when no nul follows inside the object.\<close>

definition strlen_at :: "bytes \<Rightarrow> nat \<Rightarrow> nat option" where
  "strlen_at buf off =
     (let n = length (takeWhile (\<lambda>c. c \<noteq> 0) (drop off buf)) in if off + n < length buf then Some n else None)"

primrec header_loop :: "nat \<Rightarrow> bytes \<Rightarrow> nat \<Rightarrow> nat \<Rightarrow> (sst, unit) cfun" where
  "header_loop 0 buf cur end = cerr Diverged"
| "header_loop (Suc fuel) buf cur end =
     (if \<not> cur < end then cret ()
      else case strlen_at buf cur of
        None \<Rightarrow> cerr Fault
      | Some n \<Rightarrow>
          (let val = cur + n + 1
           in andthen (on_headers (nvl_set_cstr_dup (take n (drop cur buf)) (Some (drop val buf)))) (\<lambda>_.
             case strlen_at buf val of
               None \<Rightarrow> cerr Fault
             | Some k \<Rightarrow> header_loop fuel buf (val + k + 1) end)))"

definition read_netstring_string :: "nat \<Rightarrow> (sst, unit) cfun" where
  "read_netstring_string len =
     andthen (s_malloc (wrap64 (len + 1))) (\<lambda>buf.
     andthen (xread_into buf (wrap64 (len + 1))) (\<lambda>bs.
       if length bs \<le> len then cerr Fault
       else if bs ! len \<noteq> 44 then cerr (Errno EINVAL)
       else header_loop (Suc len) (bs[len := 0]) 0 len))"

definition read_netstring :: "(sst, unit) cfun" where
  "read_netstring = andthen read_netstring_length read_netstring_string"

definition scgi_convert_headers :: "nvl_convert_info list" where
  "scgi_convert_headers =
     map (\<lambda>n. \<lparr>ci_name = n, ci_tgt_type = VT_INT, ci_cond = NVCVT_COND_ALWAYS\<rparr>)
       [hdr_scgi, SCGI_CONTENT_LENGTH, SCGI_REMOTE_PORT, SCGI_SERVER_PORT]"

definition scgi_method_of :: "bytes \<Rightarrow> scgi_request_method" where
  "scgi_method_of s =
     (if strcmp [71, 69, 84] s = 0 then SCGI_REQUEST_METHOD_GET
      else if strcmp [80, 79, 83, 84] s = 0 then SCGI_REQUEST_METHOD_POST
      else if strcmp [72, 69, 65, 68] s = 0 then SCGI_REQUEST_METHOD_HEAD
      else SCGI_REQUEST_METHOD_UNKNOWN)"

definition parse_headers :: "(sst, unit) cfun" where
  "parse_headers =
     andthen (on_headers (nvl_convert (Some scgi_convert_headers) False)) (\<lambda>_.
     andthen (in_headers (\<lambda>kvs. nvl_lookup_int kvs hdr_scgi)) (\<lambda>i.
     if i \<noteq> 1 then cerr (Errno EINVAL)
     else
       andthen (in_headers (\<lambda>kvs. nvl_lookup_int kvs SCGI_CONTENT_LENGTH)) (\<lambda>i.
       if SIZE_MAX < unat i then cerr (Errno EINVAL)
       else
         andthen (set_req (\<lambda>r. r\<lparr>rq_content_length := unat i\<rparr>)) (\<lambda>_.
         andthen (in_headers (\<lambda>kvs. nvl_lookup_str kvs SCGI_REQUEST_METHOD)) (\<lambda>s.
           set_req (\<lambda>r. r\<lparr>rq_method := scgi_method_of s\<rparr>))))))"

definition parse_qstring :: "(sst, unit) cfun" where
  "parse_qstring s =
     (case in_headers (\<lambda>kvs. nvl_lookup_str kvs SCGI_QUERY_STRING) s of
        (Inl e, s') \<Rightarrow> if e = Errno ENOENT then (Inr (), s') else (Inl e, s')
      | (Inr qs, s') \<Rightarrow> on_query (qstring_parse True (Some qs)) s')"

definition scgi_read_headers :: "(sst, unit) cfun" where
  "scgi_read_headers = andthen read_netstring (\<lambda>_. andthen parse_headers (\<lambda>_. parse_qstring))"

definition scgi_read_body :: "(sst, unit) cfun" where
  "scgi_read_body s =
     (let n = rq_content_length (ss_req s)
      in if n = 0 then (Inr (), s)
         else andthen (s_malloc (wrap64 (n + 1))) (\<lambda>buf.
           andthen (xread_into buf n) (\<lambda>bs.
             if length buf \<le> n then cerr Fault else set_req (\<lambda>r. r\<lparr>rq_body := Some bs\<rparr>))) s)"

subsection \<open>Writing a response\<close>

text \<open>The text \<open>snprintf\<close> leaves in an array of 256 characters.\<close>

definition snprintf256 :: "bytes \<Rightarrow> bytes" where
  "snprintf256 s = take 255 s"

definition status_line :: "nat \<Rightarrow> bytes" where
  "status_line st = [83, 116, 97, 116, 117, 115, 58, 32] @ dec_of_nat st @ [10]"

definition header_line :: "bytes \<Rightarrow> bytes \<Rightarrow> bytes" where
  "header_line name str = name @ [58, 32] @ str @ [10]"

primrec write_header_loop :: "nvpairs \<Rightarrow> (sst, unit) cfun" where
  "write_header_loop [] = cret ()"
| "write_header_loop (header # hs) =
     (case nvpair_value_str (Some header) of
        Inl e \<Rightarrow> cerr e
      | Inr str \<Rightarrow>
          andthen (on_conn (xwrite_str (snprintf256 (header_line (fst header) str)))) (\<lambda>_. write_header_loop hs))"

definition scgi_write_headers :: "(sst, unit) cfun" where
  "scgi_write_headers =
     andthen (\<lambda>s. on_conn (xwrite_str (snprintf256 (status_line (rs_status (ss_req s))))) s) (\<lambda>_.
     andthen (\<lambda>s. case rs_headers (ss_req s) of None \<Rightarrow> (Inl Fault, s) | Some hs \<Rightarrow> write_header_loop hs s) (\<lambda>_.
     on_conn (xwrite_str [10])))"

definition scgi_write_body :: "(sst, unit) cfun" where
  "scgi_write_body s = on_conn (xwrite (rs_body (ss_req s))) s"

subsection \<open>A connection\<close>

definition sizeof_scgi :: nat where
  "sizeof_scgi = 192"

text \<open>\<open>nvl_alloc\<close>: \<open>None\<close> for an error pointer.\<close>

definition nvl_alloc :: "mem \<Rightarrow> nvpairs option \<times> mem" where
  "nvl_alloc m = (case val_alloc_nvl m of (Inl _, m') \<Rightarrow> (None, m') | (Inr _, m') \<Rightarrow> (Some [], m'))"

definition scgi_new :: "nvpairs option \<Rightarrow> nvpairs option \<Rightarrow> nvpairs option \<Rightarrow> scgi" where
  "scgi_new hs q rhs =
     \<lparr>rq_headers = hs, rq_query = q, rq_content_length = 0, rq_body = None, rq_method = SCGI_REQUEST_METHOD_UNKNOWN,
      rs_status = SCGI_STATUS_OK, rs_headers = rhs, rs_body = []\<rparr>"

text \<open>\<open>scgi_free\<close> releases the three lists; it does not release the body.\<close>

definition scgi_free :: "scgi \<Rightarrow> unit res" where
  "scgi_free req = (if rq_headers req = None \<or> rq_query req = None \<or> rs_headers req = None then Inl Fault else Inr ())"

text \<open>
  \<open>scgi_alloc\<close>: a request from the cache with three lists; then the service's \<open>init\<close>, which changes the request
  or fails. The comparison of the lists with the null pointer is always false.
\<close>

definition scgi_alloc :: "(scgi \<Rightarrow> scgi res) option \<Rightarrow> (mem, scgi) cfun" where
  "scgi_alloc init =
     andthen (cell_alloc sizeof_scgi) (\<lambda>_ m0.
       let (hs, m1) = nvl_alloc m0; (q, m2) = nvl_alloc m1; (rhs, m3) = nvl_alloc m2; req = scgi_new hs q rhs
       in case init of
            None \<Rightarrow> (Inr req, m3)
          | Some f \<Rightarrow>
              (case f req of
                 Inr r \<Rightarrow> (Inr r, m3)
               | Inl e \<Rightarrow> (case scgi_free req of Inl x \<Rightarrow> (Inl x, m3) | Inr _ \<Rightarrow> (Inl e, m3))))"

text \<open>
  \<open>scgi_conn\<close>: errors are only logged. The result says whether the request was handled to its end, which is what the
  log tells.
\<close>

definition scgi_serve :: "(scgi \<Rightarrow> scgi) \<Rightarrow> (sst, unit) cfun" where
  "scgi_serve process =
     andthen scgi_read_headers (\<lambda>_.
     andthen scgi_read_body (\<lambda>_.
     andthen (set_req process) (\<lambda>_.
     andthen scgi_write_headers (\<lambda>_ s.
       if rq_method (ss_req s) \<noteq> SCGI_REQUEST_METHOD_HEAD then scgi_write_body s else (Inr (), s)))))"

definition scgi_finish :: "unit res \<times> sst \<Rightarrow> bool res \<times> conn \<times> mem" where
  "scgi_finish rt =
     (case rt of (r, t) \<Rightarrow>
       (case r of
          Inl e \<Rightarrow> (case e of Errno _ \<Rightarrow> (case scgi_free (ss_req t) of Inl x \<Rightarrow> Inl x | Inr _ \<Rightarrow> Inr False) | _ \<Rightarrow> Inl e)
        | Inr _ \<Rightarrow> (case scgi_free (ss_req t) of Inl x \<Rightarrow> Inl x | Inr _ \<Rightarrow> Inr True),
        (ss_conn t, ss_mem t)))"

definition scgi_conn :: "(scgi \<Rightarrow> scgi res) option \<Rightarrow> (scgi \<Rightarrow> scgi) \<Rightarrow> (conn \<times> mem, bool) cfun" where
  "scgi_conn init process s =
     (case scgi_alloc init (snd s) of
        (Inl e, m) \<Rightarrow> (case e of Errno _ \<Rightarrow> Inr False | _ \<Rightarrow> Inl e, (fst s, m))
      | (Inr req, m) \<Rightarrow> scgi_finish (scgi_serve process \<lparr>ss_conn = fst s, ss_mem = m, ss_req = req\<rparr>))"

text \<open>\<open>scgisvc\<close> checks its arguments and starts the socket service, which calls \<open>scgi_conn\<close> for each connection.\<close>

definition scgisvc :: "(scgi \<Rightarrow> scgi) option option \<Rightarrow> ((conn \<times> mem, bool) cfun \<Rightarrow> 'r res) \<Rightarrow> (scgi \<Rightarrow> scgi res) option \<Rightarrow> 'r res" where
  "scgisvc ops socksvc init =
     (case ops of Some (Some process) \<Rightarrow> socksvc (scgi_conn init process) | _ \<Rightarrow> fail EINVAL)"

subsection \<open>The length of the netstring\<close>

definition is_dec :: "u8 \<Rightarrow> bool" where
  "is_dec c \<longleftrightarrow> 48 \<le> c \<and> c \<le> 57"

fun netlen_val :: "nat \<Rightarrow> bytes \<Rightarrow> nat" where
  "netlen_val v [] = v"
| "netlen_val v (c # cs) = netlen_val (v * 10 + unat (c - 48)) cs"

lemma netlen_val_append: "netlen_val v (xs @ ys) = netlen_val (netlen_val v xs) ys"
  by (induction xs arbitrary: v) auto

lemma dec_digit: "d < 10 \<Longrightarrow> is_dec (word_of_nat (48 + d)) \<and> unat (word_of_nat (48 + d) - 48 :: u8) = d"
  by (auto simp: is_dec_def word_le_nat_alt unat_of_nat take_bit_eq_mod unat_sub_if' simp del: of_nat_add)

lemma dec_of_nat_dec: "list_all is_dec (dec_of_nat n) \<and> netlen_val 0 (dec_of_nat n) = n"
proof (induction n rule: dec_of_nat.induct)
  case (1 n)
  show ?case
  proof (cases "n < 10")
    case True
    then show ?thesis
      using dec_digit [of n] by (subst (1 2) dec_of_nat.simps) (simp del: of_nat_add)
  next
    case False
    then show ?thesis
      using 1 dec_digit [of "n mod 10"] by (subst (1 2) dec_of_nat.simps) (simp add: netlen_val_append del: of_nat_add)
  qed
qed

lemma netlen_val_wrap: "wrap64 (netlen_val v cs) = netlen_val v cs mod 2 ^ 64"
  by (simp add: wrap64_def)

lemma netlen_val_mod: "netlen_val (v mod 2 ^ 64) cs mod 2 ^ 64 = netlen_val v cs mod 2 ^ 64"
proof (induction cs arbitrary: v)
  case (Cons c cs)
  have "netlen_val (v mod 2 ^ 64 * 10 + unat (c - 48)) cs mod 2 ^ 64 =
      netlen_val ((v mod 2 ^ 64 * 10 + unat (c - 48)) mod 2 ^ 64) cs mod 2 ^ 64"
    using Cons.IH by metis
  also have "(v mod 2 ^ 64 * 10 + unat (c - 48)) mod 2 ^ 64 = (v * 10 + unat (c - 48)) mod 2 ^ 64"
    by (metis mod_add_left_eq mod_mult_left_eq)
  finally show ?case
    using Cons.IH by simp
qed simp

lemma is_dec_not_colon: "is_dec c \<Longrightarrow> c \<noteq> 58"
  by (auto simp: is_dec_def)

lemma on_conn_ok: "f (ss_conn s) = (r, c') \<Longrightarrow> on_conn f s = (r, s\<lparr>ss_conn := c'\<rparr>)"
  by (simp add: on_conn_def)

lemma netstring_length_loop_ok:
  assumes "reliable (ss_conn s)" and "list_all is_dec ds" and "cn_in (ss_conn s) = ds @ 58 # rest" and "length ds < fuel"
    and "v < 2 ^ 64"
  shows "\<exists>c'. netstring_length_loop fuel v s = (Inr (netlen_val v ds mod 2 ^ 64), s\<lparr>ss_conn := c'\<rparr>) \<and>
    cn_in c' = rest \<and> cn_out c' = cn_out (ss_conn s) \<and> later (ss_conn s) c'"
  using assms
proof (induction ds arbitrary: s fuel v)
  case Nil
  obtain c' where "xread 1 (ss_conn s) = (Inr [58], c')" "cn_in c' = rest" "cn_out c' = cn_out (ss_conn s)" "later (ss_conn s) c'"
    using xread_ok [OF Nil.prems(1), of 1] Nil.prems(3) by auto
  then show ?case
    using Nil.prems(4,5) by (cases fuel) (auto simp: on_conn_ok)
next
  case (Cons d ds)
  obtain c' where c': "xread 1 (ss_conn s) = (Inr [d], c')" "cn_in c' = ds @ 58 # rest" "cn_out c' = cn_out (ss_conn s)" "later (ss_conn s) c'"
    using xread_ok [OF Cons.prems(1), of 1] Cons.prems(3) by auto
  define w where "w = wrap64 (wrap64 (v * 10) + unat (d - 48))"
  obtain f where f: "fuel = Suc f" "length ds < f"
    using Cons.prems(4) by (cases fuel) auto
  have w: "w < 2 ^ 64" "w = (v * 10 + unat (d - 48)) mod 2 ^ 64"
    by (simp_all add: w_def wrap64_def mod_add_left_eq)
  have "netstring_length_loop fuel v s = netstring_length_loop f w (s\<lparr>ss_conn := c'\<rparr>)"
    using c'(1) Cons.prems(2) is_dec_not_colon [of d] by (simp add: f on_conn_ok w_def is_dec_def Let_def)
  moreover obtain c'' where "netstring_length_loop f w (s\<lparr>ss_conn := c'\<rparr>) = (Inr (netlen_val w ds mod 2 ^ 64), s\<lparr>ss_conn := c''\<rparr>)"
    "cn_in c'' = rest" "cn_out c'' = cn_out c'" "later c' c''"
    using Cons.IH [of "s\<lparr>ss_conn := c'\<rparr>" f w] Cons.prems c' f w(1) later_reliable [OF c'(4)] by auto
  moreover have "netlen_val w ds mod 2 ^ 64 = netlen_val v (d # ds) mod 2 ^ 64"
    unfolding w(2) by (simp only: netlen_val_mod netlen_val.simps)
  ultimately show ?case
    using c'(3) later_trans [OF c'(4)] by auto
qed

subsection \<open>The headers\<close>

text \<open>
  The names and values a payload holds, in the order they come. \<open>None\<close>: the last name is not followed by a value.
\<close>

function header_pairs :: "bytes \<Rightarrow> (bytes \<times> bytes) list option" where
  "header_pairs p =
     (if p = [] then Some []
      else case dropWhile (\<lambda>c. c \<noteq> 0) p of
        [] \<Rightarrow> None
      | _ # r \<Rightarrow>
          (case dropWhile (\<lambda>c. c \<noteq> 0) r of
             [] \<Rightarrow> Some [(cstr_of p, cstr_of r)]
           | _ # q \<Rightarrow> map_option (Cons (cstr_of p, cstr_of r)) (header_pairs q)))"
  by pat_completeness auto
termination
proof (relation "measure length")
  fix p r q :: bytes and x y
  assume "dropWhile (\<lambda>c. c \<noteq> 0) p = x # r" and "dropWhile (\<lambda>c. c \<noteq> 0) r = y # q"
  then have "length (x # r) \<le> length p" "length (y # q) \<le> length r"
    by (metis length_dropWhile_le)+
  then show "(q, p) \<in> measure length"
    by simp
qed simp

declare header_pairs.simps [simp del]

definition put_headers :: "(bytes \<times> bytes) list \<Rightarrow> nvpairs \<Rightarrow> nvpairs" where
  "put_headers ps kvs = foldl (\<lambda>kvs p. nv_put (fst p) (VStr (snd p)) kvs) kvs ps"

lemma strlen_at_ok:
  assumes "buf = pre @ p @ [0]"
  shows "strlen_at buf (length pre) = Some (length (cstr_of p))"
  using assms length_takeWhile_le [of "\<lambda>c. c \<noteq> 0" p]
  by (simp add: strlen_at_def cstr_of_def takeWhile_stop Let_def)

lemma strlen_at_end: "strlen_at buf (length buf) = None"
  by (simp add: strlen_at_def)

lemma cstr_of_split: "dropWhile (\<lambda>c. c \<noteq> 0) p = x # r \<Longrightarrow> p = cstr_of p @ 0 # r \<and> x = 0"
  unfolding cstr_of_def
proof
  assume d: "dropWhile (\<lambda>c. c \<noteq> 0) p = x # r"
  show x: "x = 0"
    using hd_dropWhile [of "\<lambda>c. c \<noteq> 0" p] d by simp
  show "p = takeWhile (\<lambda>c. c \<noteq> 0) p @ 0 # r"
    using takeWhile_dropWhile_id [of "\<lambda>c. c \<noteq> 0" p] d x by simp
qed

lemma dup_missing: "nvl_set_cstr_dup n (Some []) (kvs, m) = (Inl Fault, (kvs, m))"
  by (simp add: nvl_set_cstr_dup_def nvl_set_alloc_def on_mem_def strsym_dup_def strsym_alloc_gen_def strnlen_def
      USE_STRLEN_def bound_simps andthen_def)

lemma yields_dup_cstr:
  assumes "length r < SSIZE_MAX"
  shows "yields (strsym_dup (Some (r @ [0])) VT_STR) (VStr (cstr_of r))"
proof -
  let ?k = "length (cstr_of r)"
  have k: "?k \<le> length r"
    unfolding cstr_of_def by (rule length_takeWhile_le)
  have "take SIZE_MAX (r @ [0]) = r @ [0]"
    using assms by (intro take_all) (simp add: bound_simps)
  then have "strnlen (r @ [0]) USE_STRLEN = Some ?k"
    using k by (simp add: strnlen_def USE_STRLEN_def cstr_of_def takeWhile_stop Let_def)
  moreover have "take ?k (r @ [0]) = cstr_of r"
    using takeWhile_eq_take [of "\<lambda>c. c \<noteq> 0" r] k by (simp add: cstr_of_def)
  ultimately show ?thesis
    using yields_strsym [of VT_STR True False "r @ [0]" USE_STRLEN ?k] k assms by (simp add: strsym_dup_def mk_strsym_def)
qed

text \<open>One call of \<open>nvl_set_cstr_dup\<close> on the headers.\<close>

lemma set_header_ok:
  assumes "mem_plenty (ss_mem s)" and "rq_headers (ss_req s) = Some kvs" and "cstr_wf n" and "length r < SSIZE_MAX"
  shows "\<exists>s'. on_headers (nvl_set_cstr_dup n (Some (r @ [0]))) s = (Inr (), s') \<and> ss_conn s' = ss_conn s \<and>
    mem_ext (ss_mem s) (ss_mem s') \<and> ss_req s' = (ss_req s)\<lparr>rq_headers := Some (nv_put n (VStr (cstr_of r)) kvs)\<rparr>"
  using nvl_set_alloc_plenty [OF yields_dup_cstr [OF assms(4)] assms(1,3), of kvs] assms(2)
  by (auto simp: on_headers_def nvl_set_cstr_dup_def)

lemma header_loop_pairs:
  assumes "mem_plenty (ss_mem s)" and "rq_headers (ss_req s) = Some kvs" and "buf = pre @ p @ [0]"
    and "length buf \<le> SSIZE_MAX" and "length p < fuel"
  shows "\<exists>s'. header_loop fuel buf (length pre) (length pre + length p) s =
      (case header_pairs p of None \<Rightarrow> Inl Fault | Some _ \<Rightarrow> Inr (), s') \<and> ss_conn s' = ss_conn s \<and>
    mem_ext (ss_mem s) (ss_mem s') \<and>
    (\<forall>ps. header_pairs p = Some ps \<longrightarrow> ss_req s' = (ss_req s)\<lparr>rq_headers := Some (put_headers ps kvs)\<rparr>)"
  using assms
proof (induction p arbitrary: s kvs pre fuel rule: header_pairs.induct)
  case (1 p)
  obtain f where f: "fuel = Suc f" "length p \<le> f"
    using "1.prems"(5) by (cases fuel) auto
  show ?case
  proof (cases "p = []")
    case True
    then show ?thesis
      using "1.prems"(2) by (simp add: f header_pairs.simps put_headers_def)
  next
    case ne: False
    let ?n = "cstr_of p"
    have sl: "strlen_at buf (length pre) = Some (length ?n)"
      by (rule strlen_at_ok [OF "1.prems"(3)])
    have tk: "take (length ?n) (drop (length pre) buf) = ?n"
      using "1.prems"(3) takeWhile_eq_take [of "\<lambda>c. c \<noteq> 0" p] length_takeWhile_le [of "\<lambda>c. c \<noteq> 0" p] by (simp add: cstr_of_def)
    have wf: "cstr_wf ?n"
      using "1.prems"(3,4) by (intro cstr_of_wf) simp
    show ?thesis
    proof (cases "dropWhile (\<lambda>c. c \<noteq> 0) p")
      case Nil
      then have "?n = p"
        unfolding cstr_of_def using takeWhile_dropWhile_id [of "\<lambda>c. c \<noteq> 0" p] by simp
      then have "drop (length pre + length ?n + 1) buf = []"
        using "1.prems"(3) by simp
      moreover have "header_pairs p = None"
        by (subst header_pairs.simps) (simp only: Nil ne if_False list.case)
      ultimately show ?thesis
        using ne sl tk "1.prems"(2) by (auto simp: f Let_def on_headers_def dup_missing andthen_def)
    next
      case (Cons x r)
      then have p: "p = ?n @ 0 # r"
        using cstr_of_split by blast
      have b: "buf = (pre @ ?n @ [0]) @ r @ [0]"
        using "1.prems"(3) p by (metis append.assoc append_Cons append_Nil)
      then have dr: "drop (Suc (length pre + length ?n)) buf = r @ [0]"
        by simp
      have lr: "length r < SSIZE_MAX"
        using "1.prems"(4) b by simp
      obtain t where t: "on_headers (nvl_set_cstr_dup ?n (Some (r @ [0]))) s = (Inr (), t)" "ss_conn t = ss_conn s"
        "mem_ext (ss_mem s) (ss_mem t)" "ss_req t = (ss_req s)\<lparr>rq_headers := Some (nv_put ?n (VStr (cstr_of r)) kvs)\<rparr>"
        using set_header_ok [OF "1.prems"(1,2) wf lr] by blast
      have sl2: "strlen_at buf (Suc (length pre + length ?n)) = Some (length (cstr_of r))"
        using strlen_at_ok [OF b] by simp
      have step: "header_loop fuel buf (length pre) (length pre + length p) s =
          header_loop f buf (length pre + length ?n + 1 + length (cstr_of r) + 1) (length pre + length p) t"
        using ne sl tk dr t(1) sl2 by (simp add: f Let_def)
      show ?thesis
      proof (cases "dropWhile (\<lambda>c. c \<noteq> 0) r")
        case Nil
        then have "cstr_of r = r"
          unfolding cstr_of_def using takeWhile_dropWhile_id [of "\<lambda>c. c \<noteq> 0" r] by simp
        moreover have "length p = Suc (length ?n + length r)"
          using p by (metis length_Cons length_append add_Suc_right)
        moreover obtain g where g: "f = Suc g"
          using f ne by (cases f) auto
        ultimately have "header_loop fuel buf (length pre) (length pre + length p) s = (Inr (), t)"
          unfolding step g by simp
        moreover have "header_pairs p = Some [(?n, cstr_of r)]"
          by (subst header_pairs.simps) (simp only: Cons Nil ne if_False list.case)
        ultimately show ?thesis
          using t by (simp add: put_headers_def)
      next
        case (Cons y q)
        then have r: "r = cstr_of r @ 0 # q"
          using cstr_of_split by blast
        let ?pre = "pre @ ?n @ [0] @ cstr_of r @ [0]"
        have b2: "buf = ?pre @ q @ [0]"
          using b r by (metis append.assoc append_Cons append_Nil)
        have lp: "length pre + length p = length ?pre + length q" "length q < f"
          using arg_cong [OF p, of length] arg_cong [OF r, of length] f by simp_all
        have pl: "mem_plenty (ss_mem t)" and hs: "rq_headers (ss_req t) = Some (nv_put ?n (VStr (cstr_of r)) kvs)"
          using "1.prems"(1) t by (simp_all add: mem_ext_plenty)
        have "\<exists>s'. header_loop f buf (length ?pre) (length ?pre + length q) t =
            (case header_pairs q of None \<Rightarrow> Inl Fault | Some _ \<Rightarrow> Inr (), s') \<and> ss_conn s' = ss_conn t \<and>
          mem_ext (ss_mem t) (ss_mem s') \<and>
          (\<forall>ps. header_pairs q = Some ps \<longrightarrow>
            ss_req s' = (ss_req t)\<lparr>rq_headers := Some (put_headers ps (nv_put ?n (VStr (cstr_of r)) kvs))\<rparr>)"
          by (rule "1.IH" [OF ne \<open>dropWhile _ p = _\<close> Cons pl hs b2 "1.prems"(4) lp(2)])
        moreover have "header_loop fuel buf (length pre) (length pre + length p) s = header_loop f buf (length ?pre) (length ?pre + length q) t"
          using step lp(1) by (simp add: add.assoc)
        moreover have "header_pairs p = map_option (Cons (?n, cstr_of r)) (header_pairs q)"
          by (subst header_pairs.simps) (simp only: \<open>dropWhile _ p = _\<close> Cons ne if_False list.case)
        ultimately show ?thesis
          using t(2,4) mem_ext_trans [OF t(3)] by (auto simp: put_headers_def split: option.splits)
      qed
    qed
  qed
qed

text \<open>A netstring whose length and contents arrive: the headers are stored, or the comma is missing, or the last name
  has no value.\<close>

lemma s_malloc_ok:
  assumes "mem_plenty (ss_mem s)" and "n \<le> SSIZE_MAX"
  shows "\<exists>buf s'. s_malloc n s = (Inr buf, s') \<and> length buf = n \<and> ss_conn s' = ss_conn s \<and> ss_req s' = ss_req s \<and>
    mem_ext (ss_mem s) (ss_mem s')"
proof -
  obtain d where d: "c_realloc [] n (ss_mem s) = (Some d, (ss_mem s)\<lparr>m_next := Suc (m_next (ss_mem s))\<rparr>)"
    using c_realloc_plenty [OF assms] .
  then show ?thesis
    using c_realloc_Some(1) [OF d] by (simp add: s_malloc_def c_malloc_def mem_ext_def)
qed

lemma read_netstring_string_ok:
  assumes c: "reliable (ss_conn s)" "cn_in (ss_conn s) = p @ x # rest" and m: "mem_plenty (ss_mem s)" "length p < SSIZE_MAX"
    and h: "rq_headers (ss_req s) = Some kvs"
  shows "\<exists>s'. read_netstring_string (length p) s =
      (if x \<noteq> 44 then fail EINVAL else case header_pairs p of None \<Rightarrow> Inl Fault | Some _ \<Rightarrow> Inr (), s') \<and>
    cn_in (ss_conn s') = rest \<and> cn_out (ss_conn s') = cn_out (ss_conn s) \<and> later (ss_conn s) (ss_conn s') \<and>
    mem_ext (ss_mem s) (ss_mem s') \<and>
    (\<forall>ps. x = 44 \<and> header_pairs p = Some ps \<longrightarrow> ss_req s' = (ss_req s)\<lparr>rq_headers := Some (put_headers ps kvs)\<rparr>)"
proof -
  let ?n = "length p + 1"
  have w: "wrap64 ?n = ?n"
    using m(2) by (simp add: bound_simps)
  obtain buf t where t: "s_malloc ?n s = (Inr buf, t)" "length buf = ?n" "ss_conn t = ss_conn s" "ss_req t = ss_req s"
    "mem_ext (ss_mem s) (ss_mem t)"
    using s_malloc_ok [OF m(1), of ?n] m(2) by auto
  obtain c' where c': "xread ?n (ss_conn s) = (Inr (p @ [x]), c')" "cn_in c' = rest" "cn_out c' = cn_out (ss_conn s)" "later (ss_conn s) c'"
    using xread_ok [OF c(1), of ?n] c(2) by auto
  define u where "u = t\<lparr>ss_conn := c'\<rparr>"
  have xr: "xread_into buf ?n t = (Inr (p @ [x]), u)"
    using t c' by (simp add: xread_into_def on_conn_def u_def)
  have step: "read_netstring_string (length p) s =
      (if x \<noteq> 44 then (fail EINVAL, u) else header_loop (Suc (length p)) (p @ [0]) 0 (length p) u)"
    unfolding read_netstring_string_def w using t(1) xr by (simp add: list_update_append)
  show ?thesis
  proof (cases "x = 44")
    case False
    then show ?thesis
      using step t c' by (simp add: u_def)
  next
    case True
    have "mem_plenty (ss_mem u)" "rq_headers (ss_req u) = Some kvs"
      using t m(1) h by (simp_all add: u_def mem_ext_plenty)
    then show ?thesis
      using header_loop_pairs [of u kvs "p @ [0]" "[]" p "Suc (length p)"] m(2) step True t c'
      by (auto simp: u_def simp del: header_loop.simps dest: mem_ext_trans [OF t(5)])
  qed
qed

text \<open>What the sender writes.\<close>

definition scgi_payload :: "(bytes \<times> bytes) list \<Rightarrow> bytes" where
  "scgi_payload hs = concat (map (\<lambda>(n, v). n @ [0] @ v @ [0]) hs)"

definition scgi_netstring :: "bytes \<Rightarrow> bytes" where
  "scgi_netstring p = dec_of_nat (length p) @ [58] @ p @ [44]"

lemma header_pairs_payload:
  assumes "\<forall>(n, v) \<in> set hs. 0 \<notin> set n \<and> 0 \<notin> set v"
  shows "header_pairs (scgi_payload hs) = Some hs"
  using assms
proof (induction hs)
  case Nil
  then show ?case by (simp add: scgi_payload_def header_pairs.simps)
next
  case (Cons h hs)
  obtain n v where h: "h = (n, v)" by (cases h)
  have z: "0 \<notin> set n" "0 \<notin> set v"
    using Cons.prems h by auto
  have e: "scgi_payload (h # hs) = n @ 0 # v @ 0 # scgi_payload hs"
    by (simp add: scgi_payload_def h)
  have d: "dropWhile (\<lambda>c. c \<noteq> 0) (u @ 0 # w) = 0 # w" "cstr_of (u @ 0 # w) = u" if "0 \<notin> set u" for u w :: bytes
    using that by (auto simp: dropWhile_append3 cstr_of_def takeWhile_tail)
  show ?case
    using Cons z unfolding e by (subst header_pairs.simps) (simp add: d h)
qed

lemma read_netstring_ok:
  assumes c: "reliable (ss_conn s)" "cn_in (ss_conn s) = scgi_netstring p @ rest" and m: "mem_plenty (ss_mem s)" "length p < SSIZE_MAX"
    and h: "rq_headers (ss_req s) = Some kvs"
  shows "\<exists>s'. read_netstring s = (case header_pairs p of None \<Rightarrow> Inl Fault | Some _ \<Rightarrow> Inr (), s') \<and>
    cn_in (ss_conn s') = rest \<and> cn_out (ss_conn s') = cn_out (ss_conn s) \<and> later (ss_conn s) (ss_conn s') \<and>
    mem_ext (ss_mem s) (ss_mem s') \<and>
    (\<forall>ps. header_pairs p = Some ps \<longrightarrow> ss_req s' = (ss_req s)\<lparr>rq_headers := Some (put_headers ps kvs)\<rparr>)"
proof -
  have v: "netlen_val 0 (dec_of_nat (length p)) mod 2 ^ 64 = length p"
    using dec_of_nat_dec [of "length p"] m(2) by (simp add: bound_simps)
  obtain c' where c': "read_netstring_length s = (Inr (length p), s\<lparr>ss_conn := c'\<rparr>)" "cn_in c' = p @ 44 # rest"
    "cn_out c' = cn_out (ss_conn s)" "later (ss_conn s) c'"
    using netstring_length_loop_ok [OF c(1), of "dec_of_nat (length p)" "p @ 44 # rest" "Suc (length (cn_in (ss_conn s)))" 0]
      c(2) dec_of_nat_dec [of "length p"] v
    by (auto simp: read_netstring_length_def scgi_netstring_def)
  let ?t = "s\<lparr>ss_conn := c'\<rparr>"
  have "reliable (ss_conn ?t)"
    using c(1) later_reliable [OF c'(4)] by simp
  from read_netstring_string_ok [OF this, of p 44 rest kvs] show ?thesis
    using c' m h by (auto simp: read_netstring_def dest: later_trans [OF c'(4)])
qed

subsection \<open>The header values\<close>

lemma put_headers_map:
  assumes "nv_sorted kvs" and "distinct (map fst ps)"
  shows "nv_sorted (put_headers ps kvs) \<and> map_of (put_headers ps kvs) = map_of kvs ++ (\<lambda>n. map_option VStr (map_of ps n))"
proof -
  let ?ps = "map (\<lambda>p. (fst p, VStr (snd p))) ps"
  have e: "put_headers ps kvs = nv.put_all ?ps kvs"
    by (simp add: put_headers_def nv.put_all_def foldl_map)
  have "map_of ?ps n = map_option VStr (map_of ps n)" for n
    by (induction ps) auto
  moreover have "map fst ?ps = map fst ps"
    by simp
  ultimately show ?thesis
    unfolding e using nv.inv_put_all [OF assms(1), of ?ps] nv.look_put_all [OF assms(1), of ?ps] assms(2) by (simp add: fun_eq_iff map_add_def comp_def)
qed

text \<open>The value a header has once it is converted: those of the table are numbers.\<close>

definition scgi_int_headers :: "bytes set" where
  "scgi_int_headers = {ascii ''SCGI'', ascii ''CONTENT_LENGTH'', ascii ''REMOTE_PORT'', ascii ''SERVER_PORT''}"

definition header_val :: "bytes \<Rightarrow> bytes \<Rightarrow> val" where
  "header_val n v = (if n \<in> scgi_int_headers then VInt (word_of_nat (dec_value v)) else VStr v)"

definition numeric :: "bytes \<Rightarrow> bool" where
  "numeric v \<longleftrightarrow> is_decimal v \<and> dec_value v < 2 ^ 64"

text \<open>The methods by their names.\<close>

definition request_methods :: "(bytes \<times> scgi_request_method) list" where
  "request_methods =
     [(ascii ''GET'', SCGI_REQUEST_METHOD_GET), (ascii ''POST'', SCGI_REQUEST_METHOD_POST),
      (ascii ''HEAD'', SCGI_REQUEST_METHOD_HEAD)]"

definition method_named :: "bytes \<Rightarrow> scgi_request_method" where
  "method_named s = (case map_of request_methods s of None \<Rightarrow> SCGI_REQUEST_METHOD_UNKNOWN | Some meth \<Rightarrow> meth)"

lemmas header_names = hdr_scgi_def SCGI_CONTENT_LENGTH_def SCGI_REMOTE_PORT_def SCGI_SERVER_PORT_def
  SCGI_REQUEST_METHOD_def SCGI_QUERY_STRING_def

lemma header_texts:
  "ascii ''SCGI'' = hdr_scgi" "ascii ''CONTENT_LENGTH'' = SCGI_CONTENT_LENGTH"
  "ascii ''REMOTE_PORT'' = SCGI_REMOTE_PORT" "ascii ''SERVER_PORT'' = SCGI_SERVER_PORT"
  "ascii ''REQUEST_METHOD'' = SCGI_REQUEST_METHOD" "ascii ''QUERY_STRING'' = SCGI_QUERY_STRING"
  by code_simp+

lemma method_texts: "ascii ''GET'' = [71, 69, 84]" "ascii ''POST'' = [80, 79, 83, 84]" "ascii ''HEAD'' = [72, 69, 65, 68]"
  by code_simp+

lemma scgi_method_named: "scgi_method_of s = method_named s"
  unfolding scgi_method_of_def method_named_def request_methods_def method_texts by (auto simp: strcmp_eq)

lemma scgi_int_headers_code: "scgi_int_headers = {hdr_scgi, SCGI_CONTENT_LENGTH, SCGI_REMOTE_PORT, SCGI_SERVER_PORT}"
  by (simp add: scgi_int_headers_def header_texts)

lemma numeric_str2u64: "numeric v \<Longrightarrow> str2u64 v = (Inr (), dec_value v)"
  by (simp add: numeric_def str2u64_decimal)

lemma numeric_dec: "n < 2 ^ 64 \<Longrightarrow> numeric (dec_of_nat n) \<and> dec_value (dec_of_nat n) = n"
  using dec_of_nat_decimal [of n] by (simp add: numeric_def)

lemma converted_int:
  assumes "numeric v" and "ci_cond t = NVCVT_COND_ALWAYS" and "ci_tgt_type t = VT_INT"
  shows "converted t (VStr v) = Inr (VInt (word_of_nat (dec_value v)))"
  using assms numeric_str2u64 [OF assms(1)] by (auto simp: converted_def)

lemma nvl_convert_numeric:
  assumes "nv_sorted kvs" and "mem_plenty m" and "list_all (\<lambda>t. cstr_wf (ci_name t)) ts" and "distinct (map ci_name ts)"
    and "\<forall>t \<in> set ts. ci_cond t = NVCVT_COND_ALWAYS \<and> ci_tgt_type t = VT_INT \<and>
      (case map_of kvs (ci_name t) of None \<Rightarrow> True | Some v \<Rightarrow> \<exists>s. v = VStr s \<and> numeric s)"
  shows "\<exists>kvs' m'. nvl_convert_loop False ts (kvs, m) = (Inr (), (kvs', m')) \<and> mem_ext m m' \<and> nv_sorted kvs' \<and>
    map_of kvs' = (\<lambda>n. case map_of kvs n of
        Some (VStr s) \<Rightarrow> Some (if n \<in> ci_name ` set ts then VInt (word_of_nat (dec_value s)) else VStr s)
      | x \<Rightarrow> x)"
  using assms
proof (induction ts arbitrary: kvs m)
  case Nil
  then show ?case
    by (auto simp: fun_eq_iff split: option.splits val.splits)
next
  case (Cons t ts)
  have wf: "cstr_wf (ci_name t)"
    using Cons.prems(3) by simp
  obtain m1 where m1: "mem_ext m m1" "nvl_convert_loop False (t # ts) (kvs, m) =
    (case map_of kvs (ci_name t) of
       None \<Rightarrow> nvl_convert_loop False ts (kvs, m1)
     | Some v \<Rightarrow>
         (case converted t v of
            Inl e \<Rightarrow> if cvt_fatal False (Inl e) then (Inl e, (kvs, m1)) else nvl_convert_loop False ts (kvs, m1)
          | Inr w \<Rightarrow> nvl_convert_loop False ts (nv_put (ci_name t) w kvs, m1)))"
    using nvl_convert_step [OF Cons.prems(1) wf Cons.prems(2), of False ts] by blast
  have pl: "mem_plenty m1"
    using m1(1) Cons.prems(2) by (simp add: mem_ext_plenty)
  define kvs1 where "kvs1 = (case map_of kvs (ci_name t) of
      Some (VStr s) \<Rightarrow> nv_put (ci_name t) (VInt (word_of_nat (dec_value s))) kvs | _ \<Rightarrow> kvs)"
  have step: "nvl_convert_loop False (t # ts) (kvs, m) = nvl_convert_loop False ts (kvs1, m1)"
    using m1(2) Cons.prems(5) converted_int [of _ t] by (auto simp: kvs1_def split: option.splits)
  have s1: "nv_sorted kvs1" "map_of kvs1 = (\<lambda>n. case map_of kvs n of
        Some (VStr s) \<Rightarrow> Some (if n = ci_name t then VInt (word_of_nat (dec_value s)) else VStr s)
      | x \<Rightarrow> x)"
    using Cons.prems(1,5) nv.inv_put [OF Cons.prems(1)] nv.look_put [OF Cons.prems(1)]
    by (auto simp: kvs1_def fun_eq_iff split: option.splits val.splits)
  have "map_of kvs1 (ci_name u) = map_of kvs (ci_name u)" if "u \<in> set ts" for u
    using that Cons.prems(4) by (auto simp: s1(2) split: option.splits val.splits) (metis imageI)
  then obtain kvs' m' where "nvl_convert_loop False ts (kvs1, m1) = (Inr (), (kvs', m'))" "mem_ext m1 m'" "nv_sorted kvs'"
    "map_of kvs' = (\<lambda>n. case map_of kvs1 n of
        Some (VStr s) \<Rightarrow> Some (if n \<in> ci_name ` set ts then VInt (word_of_nat (dec_value s)) else VStr s)
      | x \<Rightarrow> x)"
    using Cons.IH [OF s1(1) pl] Cons.prems by auto
  then show ?case
    using step mem_ext_trans [OF m1(1)] by (auto simp: s1(2) fun_eq_iff split: option.splits val.splits)
qed

lemma lookup_map_of:
  "map_of kvs n = Some (VInt i) \<Longrightarrow> nvl_lookup_int kvs n = Inr i"
  "map_of kvs n = Some (VStr t) \<Longrightarrow> nvl_lookup_str kvs n = Inr t"
  "map_of kvs n = None \<Longrightarrow> nvl_lookup_str kvs n = fail ENOENT"
  by (simp_all add: nvl_lookup_int_def nvl_lookup_str_def pairs_find_map_of)

lemma in_headers_ok: "rq_headers (ss_req s) = Some kvs \<Longrightarrow> in_headers f s = (f kvs, s)"
  by (simp add: in_headers_def on_headers_def)

lemma convert_table:
  "list_all (\<lambda>t. cstr_wf (ci_name t)) scgi_convert_headers" "distinct (map ci_name scgi_convert_headers)"
  "ci_name ` set scgi_convert_headers = scgi_int_headers"
  "\<forall>t \<in> set scgi_convert_headers. ci_cond t = NVCVT_COND_ALWAYS \<and> ci_tgt_type t = VT_INT"
  by (simp_all add: scgi_convert_headers_def cstr_wf_def header_names bound_simps scgi_int_headers_code)

lemma not_int_headers: "SCGI_REQUEST_METHOD \<notin> scgi_int_headers" "SCGI_QUERY_STRING \<notin> scgi_int_headers"
  "hdr_scgi \<in> scgi_int_headers" "SCGI_CONTENT_LENGTH \<in> scgi_int_headers"
  by (simp_all add: scgi_int_headers_code header_names)

text \<open>The headers of a request the server accepts.\<close>

definition good_headers :: "(bytes \<times> bytes) list \<Rightarrow> nat \<Rightarrow> bytes \<Rightarrow> bool" where
  "good_headers hs n meth \<longleftrightarrow>
     distinct (map fst hs) \<and> (\<forall>(k, v) \<in> set hs. 0 \<notin> set k \<and> 0 \<notin> set v) \<and>
     map_of hs (ascii ''SCGI'') = Some (dec_of_nat 1) \<and> map_of hs (ascii ''CONTENT_LENGTH'') = Some (dec_of_nat n) \<and>
     map_of hs (ascii ''REQUEST_METHOD'') = Some meth \<and>
     (\<forall>k \<in> {ascii ''REMOTE_PORT'', ascii ''SERVER_PORT''}. \<forall>v. map_of hs k = Some v \<longrightarrow> numeric v)"

definition headers_of :: "(bytes \<times> bytes) list \<Rightarrow> bytes \<Rightarrow> val option" where
  "headers_of hs k = map_option (header_val k) (map_of hs k)"

lemma good_headers_numeric:
  assumes "good_headers hs n meth" and "n < 2 ^ 64" and "k \<in> scgi_int_headers" and "map_of hs k = Some v"
  shows "numeric v"
  using assms numeric_dec [of n] numeric_dec [of 1] by (auto simp: good_headers_def header_texts scgi_int_headers_code)

lemma parse_headers_ok:
  assumes g: "good_headers hs n meth" and n: "n < 2 ^ 64" and m: "mem_plenty (ss_mem s)"
    and h: "rq_headers (ss_req s) = Some (put_headers hs [])"
  shows "\<exists>s' kvs. parse_headers s = (Inr (), s') \<and> ss_conn s' = ss_conn s \<and> mem_ext (ss_mem s) (ss_mem s') \<and>
    ss_req s' = (ss_req s)\<lparr>rq_headers := Some kvs, rq_content_length := n, rq_method := scgi_method_of meth\<rparr> \<and>
    map_of kvs = headers_of hs"
proof -
  let ?kvs = "put_headers hs []"
  have k: "nv_sorted ?kvs" "map_of ?kvs = (\<lambda>k. map_option VStr (map_of hs k))"
    using put_headers_map [of "[]" hs] g by (auto simp: good_headers_def nv_sorted_def map_add_def fun_eq_iff split: option.splits)
  have "\<forall>t \<in> set scgi_convert_headers. ci_cond t = NVCVT_COND_ALWAYS \<and> ci_tgt_type t = VT_INT \<and>
      (case map_of ?kvs (ci_name t) of None \<Rightarrow> True | Some v \<Rightarrow> \<exists>s. v = VStr s \<and> numeric s)"
    using convert_table(3,4) good_headers_numeric [OF g n] by (fastforce simp: k(2) split: option.splits)
  from nvl_convert_numeric [OF k(1) m convert_table(1,2) this]
  obtain kvs m' where c: "nvl_convert_loop False scgi_convert_headers (?kvs, ss_mem s) = (Inr (), (kvs, m'))" "mem_ext (ss_mem s) m'"
    and mk: "map_of kvs = (\<lambda>n. case map_of ?kvs n of
        Some (VStr s) \<Rightarrow> Some (if n \<in> ci_name ` set scgi_convert_headers then VInt (word_of_nat (dec_value s)) else VStr s)
      | x \<Rightarrow> x)"
    by blast
  have c3: "map_of kvs = headers_of hs"
    unfolding mk by (auto simp: convert_table(3) k(2) headers_of_def header_val_def fun_eq_iff split: option.splits)
  have l: "map_of kvs hdr_scgi = Some (VInt 1)" "map_of kvs SCGI_CONTENT_LENGTH = Some (VInt (word_of_nat n))"
    "map_of kvs SCGI_REQUEST_METHOD = Some (VStr meth)"
    using g numeric_dec [of 1] numeric_dec [OF n] not_int_headers
    by (auto simp: c3 headers_of_def good_headers_def header_texts header_val_def)
  define t where "t = s\<lparr>ss_mem := m', ss_req := (ss_req s)\<lparr>rq_headers := Some kvs\<rparr>\<rparr>"
  have "on_headers (nvl_convert (Some scgi_convert_headers) False) s = (Inr (), t)"
    using c(1) h by (simp add: on_headers_def nvl_convert_def t_def)
  moreover have "unat (word_of_nat n :: u64) = n"
    using n by (simp add: unat_of_nat take_bit_eq_mod)
  moreover have "\<not> SIZE_MAX < n"
    using n by (simp add: bound_simps)
  moreover define u where "u = t\<lparr>ss_req := (ss_req t)\<lparr>rq_content_length := n\<rparr>\<rparr>"
  have "in_headers f t = (f kvs, t)" "in_headers f u = (f kvs, u)" for f :: "nvpairs \<Rightarrow> 'c res"
    by (rule in_headers_ok, simp add: t_def u_def)+
  ultimately have "parse_headers s = (Inr (), u\<lparr>ss_req := (ss_req u)\<lparr>rq_method := scgi_method_of meth\<rparr>\<rparr>)"
    by (simp add: parse_headers_def in_headers_ok [of _ kvs] t_def u_def lookup_map_of l set_req_def)
  then show ?thesis
    using c(2) c3 by (intro exI [of _ "u\<lparr>ss_req := (ss_req u)\<lparr>rq_method := scgi_method_of meth\<rparr>\<rparr>"] exI [of _ kvs]) (auto simp: t_def u_def)
qed

definition query_of :: "(bytes \<times> bytes) list \<Rightarrow> unit res \<times> nvpairs" where
  "query_of hs = (case map_of hs (ascii ''QUERY_STRING'') of None \<Rightarrow> (Inr (), []) | Some qs \<Rightarrow> qs_spec qs [])"

lemma qstring_parse_ok:
  assumes "mem_plenty m" and "length qs + 1 < SSIZE_MAX"
  shows "\<exists>m'. qstring_parse True (Some qs) (kvs, m) = (fst (qs_spec qs kvs), (snd (qs_spec qs kvs), m')) \<and> mem_ext m m'"
proof -
  let ?q = "\<lparr>q_state = QS_STATE_NAME, q_name = 0, q_name_len = 0, q_val = 0\<rparr>"
  have "qs_inv (qs @ [0]) 0 ?q []"
    by (simp add: qs_inv_def)
  from qs_loop_segments [OF assms(1) _ _ _ this, of "length qs" "length qs" kvs] assms(2) show ?thesis
    by (auto simp: qstring_parse_def qstring_parse_len_def qs_spec_def)
qed

lemma parse_qstring_ok:
  assumes m: "mem_plenty (ss_mem s)" and h: "rq_headers (ss_req s) = Some kvs" "map_of kvs = headers_of hs"
    and q: "rq_query (ss_req s) = Some []" and l: "\<forall>v. map_of hs SCGI_QUERY_STRING = Some v \<longrightarrow> length v + 1 < SSIZE_MAX"
  shows "\<exists>s'. parse_qstring s = (fst (query_of hs), s') \<and> ss_conn s' = ss_conn s \<and> mem_ext (ss_mem s) (ss_mem s') \<and>
    ss_req s' = (ss_req s)\<lparr>rq_query := Some (snd (query_of hs))\<rparr>"
proof (cases "map_of hs SCGI_QUERY_STRING")
  case None
  then have "nvl_lookup_str kvs SCGI_QUERY_STRING = fail ENOENT"
    using h(2) by (intro lookup_map_of) (simp add: headers_of_def)
  then show ?thesis
    using None q by (simp add: parse_qstring_def in_headers_ok [OF h(1)] query_of_def header_texts)
next
  case (Some qs)
  then have "nvl_lookup_str kvs SCGI_QUERY_STRING = Inr qs"
    using h(2) not_int_headers by (intro lookup_map_of) (simp add: headers_of_def header_val_def)
  moreover obtain m' where "qstring_parse True (Some qs) ([], ss_mem s) = (fst (qs_spec qs []), (snd (qs_spec qs []), m'))" "mem_ext (ss_mem s) m'"
    using qstring_parse_ok [OF m, of qs "[]"] l Some by auto
  ultimately show ?thesis
    using Some q by (simp add: parse_qstring_def in_headers_ok [OF h(1)] query_of_def header_texts on_query_def)
qed

lemma scgi_read_body_ok:
  assumes c: "reliable (ss_conn s)" "cn_in (ss_conn s) = body @ rest" and m: "mem_plenty (ss_mem s)" "length body < SSIZE_MAX"
    and n: "rq_content_length (ss_req s) = length body" "rq_body (ss_req s) = None"
  shows "\<exists>s'. scgi_read_body s = (Inr (), s') \<and> cn_in (ss_conn s') = rest \<and> cn_out (ss_conn s') = cn_out (ss_conn s) \<and>
    later (ss_conn s) (ss_conn s') \<and> mem_ext (ss_mem s) (ss_mem s') \<and>
    ss_req s' = (ss_req s)\<lparr>rq_body := if body = [] then None else Some body\<rparr>"
proof (cases "body = []")
  case True
  then show ?thesis
    using c n by (simp add: scgi_read_body_def)
next
  case False
  let ?n = "length body + 1"
  have w: "wrap64 ?n = ?n"
    using m(2) by (simp add: bound_simps)
  obtain buf t where t: "s_malloc ?n s = (Inr buf, t)" "length buf = ?n" "ss_conn t = ss_conn s" "ss_req t = ss_req s"
    "mem_ext (ss_mem s) (ss_mem t)"
    using s_malloc_ok [OF m(1), of ?n] m(2) by auto
  obtain c' where c': "xread (length body) (ss_conn s) = (Inr body, c')" "cn_in c' = rest" "cn_out c' = cn_out (ss_conn s)" "later (ss_conn s) c'"
    using xread_ok [OF c(1), of "length body"] c(2) by auto
  have "xread_into buf (length body) t = (Inr body, t\<lparr>ss_conn := c'\<rparr>)"
    using t c' by (simp add: xread_into_def on_conn_def)
  then have "scgi_read_body s = (Inr (), t\<lparr>ss_conn := c', ss_req := (ss_req t)\<lparr>rq_body := Some body\<rparr>\<rparr>)"
    using False t(1,2) n(1) unfolding scgi_read_body_def Let_def n(1) w by (simp add: set_req_def)
  then show ?thesis
    using False t c' by simp
qed

subsection \<open>The response\<close>

definition str_pairs :: "(bytes \<times> bytes) list \<Rightarrow> nvpairs" where
  "str_pairs hs = map (\<lambda>(n, v). (n, VStr v)) hs"

definition response_of :: "scgi \<Rightarrow> (bytes \<times> bytes) list \<Rightarrow> bytes" where
  "response_of r hs =
     ascii ''Status: '' @ dec_of_nat (rs_status r) @ [10] @
     concat (map (\<lambda>(n, v). take 255 (n @ ascii '': '' @ v @ [10])) hs) @ [10] @
     (if rq_method r = SCGI_REQUEST_METHOD_HEAD then [] else rs_body r)"

lemma response_texts: "ascii ''Status: '' = [83, 116, 97, 116, 117, 115, 58, 32]" "ascii '': '' = [58, 32]"
  by code_simp+

lemma status_line_text:
  assumes "st < 2 ^ 32"
  shows "snprintf256 (status_line st) = ascii ''Status: '' @ dec_of_nat st @ [10]"
  using length_dec_of_nat [of st 10] assms by (simp add: snprintf256_def status_line_def response_texts)

lemma header_line_text: "snprintf256 (header_line n v) = take 255 (n @ ascii '': '' @ v @ [10])"
  by (simp add: snprintf256_def header_line_def response_texts)

lemma write_header_loop_ok:
  assumes "reliable (ss_conn s)"
  shows "\<exists>c'. write_header_loop (str_pairs hs) s = (Inr (), s\<lparr>ss_conn := c'\<rparr>) \<and>
    cn_out c' = cn_out (ss_conn s) @ concat (map (\<lambda>(n, v). snprintf256 (header_line n v)) hs) \<and> later (ss_conn s) c'"
  using assms
proof (induction hs arbitrary: s)
  case Nil
  then show ?case
    by (intro exI [of _ "ss_conn s"]) (simp add: str_pairs_def)
next
  case (Cons h hs)
  obtain n v where h: "h = (n, v)" by (cases h)
  let ?l = "snprintf256 (header_line n v)"
  obtain c1 where c1: "xwrite_str ?l (ss_conn s) = (Inr (), c1)" "cn_out c1 = cn_out (ss_conn s) @ ?l" "later (ss_conn s) c1"
    using xwrite_ok [OF Cons.prems] by (auto simp: xwrite_str_def)
  obtain c2 where "write_header_loop (str_pairs hs) (s\<lparr>ss_conn := c1\<rparr>) = (Inr (), s\<lparr>ss_conn := c2\<rparr>)"
    "cn_out c2 = cn_out c1 @ concat (map (\<lambda>(n, v). snprintf256 (header_line n v)) hs)" "later c1 c2"
    using Cons.IH [of "s\<lparr>ss_conn := c1\<rparr>"] Cons.prems later_reliable [OF c1(3)] by auto
  then show ?case
    using c1 later_trans [OF c1(3)] by (auto simp: h str_pairs_def on_conn_ok)
qed

lemma scgi_respond_ok:
  assumes r: "reliable (ss_conn s)" and h: "rs_headers (ss_req s) = Some (str_pairs hs)" and st: "rs_status (ss_req s) < 2 ^ 32"
  shows "\<exists>c'. andthen scgi_write_headers (\<lambda>_ s. if rq_method (ss_req s) \<noteq> SCGI_REQUEST_METHOD_HEAD then scgi_write_body s else (Inr (), s)) s =
      (Inr (), s\<lparr>ss_conn := c'\<rparr>) \<and> cn_out c' = cn_out (ss_conn s) @ response_of (ss_req s) hs"
proof -
  let ?l = "snprintf256 (status_line (rs_status (ss_req s)))"
  obtain c1 where c1: "xwrite_str ?l (ss_conn s) = (Inr (), c1)" "cn_out c1 = cn_out (ss_conn s) @ ?l" "later (ss_conn s) c1"
    using xwrite_ok [OF r] by (auto simp: xwrite_str_def)
  have r1: "reliable c1"
    using r later_reliable [OF c1(3)] by simp
  obtain c2 where c2: "write_header_loop (str_pairs hs) (s\<lparr>ss_conn := c1\<rparr>) = (Inr (), s\<lparr>ss_conn := c2\<rparr>)"
    "cn_out c2 = cn_out c1 @ concat (map (\<lambda>(n, v). snprintf256 (header_line n v)) hs)" "later c1 c2"
    using write_header_loop_ok [of "s\<lparr>ss_conn := c1\<rparr>" hs] r1 by auto
  have r2: "reliable c2"
    using r1 later_reliable [OF c2(3)] by simp
  obtain c3 where c3: "xwrite_str [10] c2 = (Inr (), c3)" "cn_out c3 = cn_out c2 @ [10]" "later c2 c3"
    using xwrite_ok [OF r2] by (auto simp: xwrite_str_def)
  have r3: "reliable c3"
    using r2 later_reliable [OF c3(3)] by simp
  obtain c4 where c4: "xwrite (rs_body (ss_req s)) c3 = (Inr (), c4)" "cn_out c4 = cn_out c3 @ rs_body (ss_req s)"
    using xwrite_ok [OF r3] by auto
  have "scgi_write_headers s = (Inr (), s\<lparr>ss_conn := c3\<rparr>)"
    using c1(1) c2(1) c3(1) h by (simp add: scgi_write_headers_def on_conn_ok)
  then show ?thesis
    using c1(2) c2(2) c3(2) c4
    by (cases "rq_method (ss_req s) = SCGI_REQUEST_METHOD_HEAD") (auto simp: scgi_write_body_def on_conn_ok response_of_def header_line_text status_line_text [OF st])
qed

lemma scgi_alloc_ok:
  assumes "mem_plenty m"
  shows "\<exists>m'. scgi_alloc None m = (Inr (scgi_new (Some []) (Some []) (Some [])), m') \<and> mem_ext m m'"
proof -
  have n: "\<exists>m'. nvl_alloc k = (Some [], m') \<and> mem_ext k m'" if "mem_plenty k" for k
    using yields_val_alloc(7) by (cases rule: yields_cases [of val_alloc_nvl "VNvl []" k]) (use that in \<open>auto simp: nvl_alloc_def\<close>)
  have "yields (cell_alloc sizeof_scgi) sizeof_scgi"
    by (rule yields_cell) (simp add: sizeof_scgi_def bound_simps)
  then obtain m0 where m0: "cell_alloc sizeof_scgi m = (Inr sizeof_scgi, m0)" "mem_ext m m0"
    by (cases rule: yields_cases [of "cell_alloc sizeof_scgi" sizeof_scgi m]) (use assms in auto)
  obtain m1 where m1: "nvl_alloc m0 = (Some [], m1)" "mem_ext m0 m1"
    using n [of m0] assms m0(2) by (auto simp: mem_ext_plenty)
  obtain m2 where m2: "nvl_alloc m1 = (Some [], m2)" "mem_ext m1 m2"
    using n [of m1] assms m0(2) m1(2) by (auto simp: mem_ext_plenty)
  obtain m3 where m3: "nvl_alloc m2 = (Some [], m3)" "mem_ext m2 m3"
    using n [of m2] assms m0(2) m1(2) m2(2) by (auto simp: mem_ext_plenty)
  have "scgi_alloc None m = (Inr (scgi_new (Some []) (Some []) (Some [])), m3)"
    using m0(1) m1(1) m2(1) m3(1) by (simp add: scgi_alloc_def)
  then show ?thesis
    using mem_ext_trans [OF mem_ext_trans [OF mem_ext_trans [OF m0(2) m1(2)] m2(2)] m3(2)] by blast
qed

text \<open>A payload ends in a name without a value: it does not end with a nul, and the nuls before pair up.\<close>

lemma count_nul_split:
  assumes "dropWhile (\<lambda>c :: u8. c \<noteq> 0) p = x # r"
  shows "count_list p 0 = Suc (count_list r 0)"
proof -
  have "0 \<notin> set (cstr_of p)"
    by (auto simp: cstr_of_def dest: set_takeWhileD)
  then have "count_list (cstr_of p @ 0 # r) 0 = Suc (count_list r 0)"
    by (simp add: count_list_0_iff)
  then show ?thesis
    using cstr_of_split [OF assms] by simp
qed

lemma header_pairs_None: "header_pairs p = None \<longleftrightarrow> p \<noteq> [] \<and> last p \<noteq> 0 \<and> even (count_list p 0)"
proof (induction p rule: header_pairs.induct)
  case (1 p)
  show ?case
  proof (cases "p = [] \<or> dropWhile (\<lambda>c. c \<noteq> 0) p = []")
    case True
    have n: "header_pairs p = None" if d: "dropWhile (\<lambda>c. c \<noteq> 0) p = []" and "p \<noteq> []"
      using that(2) by (subst header_pairs.simps) (simp only: d list.case if_False)
    have "header_pairs p = (if p = [] then Some [] else None)"
      using True n by (cases "p = []") (simp_all add: header_pairs.simps)
    moreover have "0 \<notin> set p"
      using True by (auto simp: dropWhile_eq_Nil_conv)
    moreover from this have "p \<noteq> [] \<Longrightarrow> last p \<noteq> 0"
      using last_in_set by metis
    ultimately show ?thesis
      by (simp add: count_list_0_iff)
  next
    case False
    then obtain x r where pr: "dropWhile (\<lambda>c. c \<noteq> 0) p = x # r"
      by (cases "dropWhile (\<lambda>c. c \<noteq> 0) p") auto
    have pne: "p \<noteq> []"
      using False by blast
    have lp: "last p = (if r = [] then 0 else last r)"
      using cstr_of_split [OF pr] by (metis last.simps last_append list.distinct(1))
    show ?thesis
    proof (cases "dropWhile (\<lambda>c. c \<noteq> 0) r")
      case Nil
      then have "header_pairs p = Some [(cstr_of p, cstr_of r)]"
        by (subst header_pairs.simps) (simp only: pne pr Nil list.case if_False)
      moreover have "count_list r 0 = 0"
        using Nil by (auto simp: count_list_0_iff)
      ultimately show ?thesis
        using count_nul_split [OF pr] by simp
    next
      case (Cons y q)
      have "header_pairs p = map_option (Cons (cstr_of p, cstr_of r)) (header_pairs q)"
        by (subst header_pairs.simps) (simp only: pne pr Cons list.case if_False)
      moreover have "last r = (if q = [] then 0 else last q)" "r \<noteq> []"
        using cstr_of_split [OF Cons] by (metis last.simps last_append list.distinct(1) append_is_Nil_conv)+
      ultimately show ?thesis
        using "1.IH" [OF _ pr Cons] False count_nul_split [OF pr] count_nul_split [OF Cons] lp by auto
    qed
  qed
qed

subsection \<open>Properties\<close>

definition scgi_message :: "(bytes \<times> bytes) list \<Rightarrow> bytes \<Rightarrow> bytes" where
  "scgi_message hs body = scgi_netstring (scgi_payload hs) @ body"

lemma payload_value_length: "map_of hs k = Some v \<Longrightarrow> length v + 2 \<le> length (scgi_payload hs)"
  by (induction hs) (auto simp: scgi_payload_def split: if_splits)

lemma scgi_request_read:
  assumes c: "reliable c" "cn_in c = scgi_message hs body @ rest" and m: "mem_plenty m"
    and g: "good_headers hs (length body) meth" "fst (query_of hs) = Inr ()"
    and l: "length (scgi_payload hs) < SSIZE_MAX" "length body < SSIZE_MAX"
  shows "\<exists>s' kvs. andthen scgi_read_headers (\<lambda>_. scgi_read_body) \<lparr>ss_conn = c, ss_mem = m, ss_req = scgi_new (Some []) (Some []) rhs\<rparr> = (Inr (), s') \<and>
    cn_in (ss_conn s') = rest \<and> cn_out (ss_conn s') = cn_out c \<and> reliable (ss_conn s') \<and>
    ss_req s' = (scgi_new (Some kvs) (Some (snd (query_of hs))) rhs)
      \<lparr>rq_content_length := length body, rq_body := if body = [] then None else Some body, rq_method := method_named meth\<rparr> \<and>
    map_of kvs = headers_of hs"
proof -
  let ?s = "\<lparr>ss_conn = c, ss_mem = m, ss_req = scgi_new (Some []) (Some []) rhs\<rparr>"
  have n: "length body < 2 ^ 64"
    using l(2) by (simp add: bound_simps)
  have hp: "header_pairs (scgi_payload hs) = Some hs"
    using g(1) by (intro header_pairs_payload) (simp add: good_headers_def)
  obtain s1 where s1: "read_netstring ?s = (Inr (), s1)" "cn_in (ss_conn s1) = body @ rest" "cn_out (ss_conn s1) = cn_out c"
    "later c (ss_conn s1)" "mem_ext m (ss_mem s1)" "ss_req s1 = scgi_new (Some (put_headers hs [])) (Some []) rhs"
    using read_netstring_ok [of ?s "scgi_payload hs" "body @ rest" "[]"] c m l(1) hp by (auto simp: scgi_message_def scgi_new_def)
  have m1: "mem_plenty (ss_mem s1)"
    using m s1(5) by (simp add: mem_ext_plenty)
  obtain s2 kvs where s2: "parse_headers s1 = (Inr (), s2)" "ss_conn s2 = ss_conn s1" "mem_ext (ss_mem s1) (ss_mem s2)"
    "ss_req s2 = (ss_req s1)\<lparr>rq_headers := Some kvs, rq_content_length := length body, rq_method := method_named meth\<rparr>"
    "map_of kvs = headers_of hs"
    using parse_headers_ok [OF g(1) n m1] s1(6) by (auto simp: scgi_new_def scgi_method_named)
  have m2: "mem_plenty (ss_mem s2)"
    using m1 s2(3) by (simp add: mem_ext_plenty)
  have ql: "\<forall>v. map_of hs SCGI_QUERY_STRING = Some v \<longrightarrow> length v + 1 < SSIZE_MAX"
    using payload_value_length [of hs SCGI_QUERY_STRING] l(1) by fastforce
  obtain s3 where s3: "parse_qstring s2 = (Inr (), s3)" "ss_conn s3 = ss_conn s2" "mem_ext (ss_mem s2) (ss_mem s3)"
    "ss_req s3 = (ss_req s2)\<lparr>rq_query := Some (snd (query_of hs))\<rparr>"
    using parse_qstring_ok [OF m2 _ s2(5) _ ql] s2(4) s1(6) g(2) by (auto simp: scgi_new_def)
  have r3: "reliable (ss_conn s3)" "cn_in (ss_conn s3) = body @ rest" "mem_plenty (ss_mem s3)"
    using c(1) later_reliable [OF s1(4)] s1(2) s2(2) s3(2) m2 s3(3) by (simp_all add: mem_ext_plenty)
  obtain s4 where s4: "scgi_read_body s3 = (Inr (), s4)" "cn_in (ss_conn s4) = rest" "cn_out (ss_conn s4) = cn_out (ss_conn s3)"
    "later (ss_conn s3) (ss_conn s4)"
    "ss_req s4 = (ss_req s3)\<lparr>rq_body := if body = [] then None else Some body\<rparr>"
    using scgi_read_body_ok [OF r3(1,2,3) l(2)] s3(4) s2(4) s1(6) by (auto simp: scgi_new_def)
  have "andthen scgi_read_headers (\<lambda>_. scgi_read_body) ?s = (Inr (), s4)"
    using s1(1) s2(1) s3(1) s4(1) by (simp add: scgi_read_headers_def)
  then show ?thesis
    using s1(3,6) s2 s3 s4 r3(1) later_reliable [OF s4(4)] by (intro exI [of _ s4] exI [of _ kvs]) (auto simp: scgi_new_def)
qed

text \<open>A request with a query and a body: \<open>GET\<close>, \<open>a=b\<close>, and the body \<open>xyz\<close>; and a connection that delivers it slowly.\<close>

definition demo_headers :: "(bytes \<times> bytes) list" where
  "demo_headers =
     [(SCGI_CONTENT_LENGTH, [51]), (hdr_scgi, [49]), (SCGI_REQUEST_METHOD, [71, 69, 84]), (SCGI_QUERY_STRING, [97, 61, 98])]"

definition demo_conn :: "bytes \<Rightarrow> conn" where
  "demo_conn bs = \<lparr>cn_in = bs, cn_out = [], cn_file = [], cn_limit = (\<lambda>k. k mod 3), cn_errs = (\<lambda>_. None), cn_calls = 0\<rparr>"

lemma demo_conn_ok: "reliable (demo_conn bs)" "cn_in (demo_conn bs) = bs" "cn_out (demo_conn bs) = []"
  by (simp_all add: demo_conn_def reliable_def)

lemma dec_digit_text: "dec_of_nat (Suc (Suc (Suc 0))) = [51]" "dec_of_nat (Suc 0) = [49]"
  by (simp_all add: dec_of_nat.simps)

lemma demo_good:
  "good_headers demo_headers (length [120, 121, 122 :: u8]) [71, 69, 84]" "query_of demo_headers = (Inr (), [([97], VStr [98])])"
  "length (scgi_payload demo_headers) < SSIZE_MAX" "length [120, 121, 122 :: u8] < SSIZE_MAX"
  by (simp_all add: good_headers_def header_texts demo_headers_def header_names query_of_def qs_spec_def qs_segment_def qs_put_def
      cstr_of_def nv_put_def pairs_find_def scgi_payload_def bound_simps dec_digit_text)

text \<open>
  C33. Requests are read back: whatever way the bytes of a well-formed request are cut into packets, reading it ends
  normally when its query string can be parsed, with the method, the length and the body of the request, with every
  header under its name (as a number for the four numeric headers) and no others, with the parsed query string,
  and with the connection at the first byte behind the request.
\<close>

theorem scgi_request_roundtrip:
  assumes c: "reliable c" "cn_in c = scgi_message hs body @ rest" and m: "mem_plenty m"
    and g: "good_headers hs (length body) meth" "fst (query_of hs) = Inr ()"
    and l: "length (scgi_payload hs) < SSIZE_MAX" "length body < SSIZE_MAX"
  shows "\<exists>s' kvs. andthen scgi_read_headers (\<lambda>_. scgi_read_body) \<lparr>ss_conn = c, ss_mem = m, ss_req = scgi_new (Some []) (Some []) rhs\<rparr> = (Inr (), s') \<and>
    cn_in (ss_conn s') = rest \<and> cn_out (ss_conn s') = cn_out c \<and> reliable (ss_conn s') \<and>
    ss_req s' = (scgi_new (Some kvs) (Some (snd (query_of hs))) rhs)
      \<lparr>rq_content_length := length body, rq_body := if body = [] then None else Some body, rq_method := method_named meth\<rparr> \<and>
    map_of kvs = headers_of hs"
  by (rule scgi_request_read [OF assms])

theorem scgi_request_roundtrip_witness:
  "\<exists>s' kvs. andthen scgi_read_headers (\<lambda>_. scgi_read_body)
      \<lparr>ss_conn = demo_conn (scgi_message demo_headers [120, 121, 122] @ [1, 2]), ss_mem = plain_mem, ss_req = scgi_new (Some []) (Some []) None\<rparr> = (Inr (), s') \<and>
    cn_in (ss_conn s') = [1, 2] \<and> rq_body (ss_req s') = Some [120, 121, 122] \<and> rq_headers (ss_req s') = Some kvs \<and>
    map_of kvs SCGI_CONTENT_LENGTH = Some (VInt 3) \<and> map_of kvs SCGI_REQUEST_METHOD = Some (VStr [71, 69, 84]) \<and>
    rq_query (ss_req s') = Some [([97], VStr [98])] \<and> rq_method (ss_req s') = SCGI_REQUEST_METHOD_GET"
proof -
  have q: "fst (query_of demo_headers) = Inr ()" "snd (query_of demo_headers) = [([97], VStr [98])]"
    using demo_good(2) by simp_all
  have h: "headers_of demo_headers SCGI_CONTENT_LENGTH = Some (VInt 3)"
    "headers_of demo_headers SCGI_REQUEST_METHOD = Some (VStr [71, 69, 84])"
    using numeric_dec [of 3] dec_digit_text
    by (simp_all add: headers_of_def header_val_def demo_headers_def header_names scgi_int_headers_code numeral_3_eq_3)
  show ?thesis
    using scgi_request_roundtrip [where rest = "[1, 2]" and rhs = None, OF demo_conn_ok(1,2) mem_plenty_plain demo_good(1) q(1) demo_good(3,4)] h q(2)
    by (fastforce simp: scgi_new_def demo_conn_ok method_named_def request_methods_def method_texts)
qed

text \<open>
  C34. A netstring is stored without leaving the buffer exactly when it does not end in a name without a value: when the
  contents end with a nul or hold an odd number of nuls. Otherwise the value of the last name is read behind the end of the
  buffer. (The contents are any bytes, memory is at hand and the connection delivers them.)
\<close>

theorem scgi_netstring_fault_iff:
  assumes "reliable c" and "cn_in c = scgi_netstring p @ rest" and "mem_plenty m" and "length p < SSIZE_MAX"
  shows "fst (read_netstring \<lparr>ss_conn = c, ss_mem = m, ss_req = scgi_new (Some kvs) q rhs\<rparr>) =
    (if p \<noteq> [] \<and> last p \<noteq> 0 \<and> even (count_list p 0) then Inl Fault else Inr ())"
  using read_netstring_ok [of "\<lparr>ss_conn = c, ss_mem = m, ss_req = scgi_new (Some kvs) q rhs\<rparr>" p rest kvs] assms header_pairs_None [of p]
  by (auto simp: scgi_new_def split: option.splits)

theorem scgi_netstring_fault_iff_witness:
  "fst (read_netstring \<lparr>ss_conn = demo_conn (scgi_netstring [65]), ss_mem = plain_mem, ss_req = scgi_new (Some []) None None\<rparr>) = Inl Fault \<and>
   fst (read_netstring \<lparr>ss_conn = demo_conn (scgi_netstring [65, 0, 66, 0]), ss_mem = plain_mem, ss_req = scgi_new (Some []) None None\<rparr>) = Inr ()"
  using scgi_netstring_fault_iff [OF demo_conn_ok(1) _ mem_plenty_plain, where p = "[65]" and rest = "[]"]
    scgi_netstring_fault_iff [OF demo_conn_ok(1) _ mem_plenty_plain, where p = "[65, 0, 66, 0]" and rest = "[]"]
  by (simp add: demo_conn_ok bound_simps)

text \<open>
  C35. A well-formed request is answered: the service is handed the request that was sent, and what it leaves in the
  response is written to the connection: a line with the status, a line for each header in order, cut off after 255
  characters (with its line end, then), an empty line, and the body, which is left out when the method is \<open>HEAD\<close>.
\<close>

theorem scgi_conn_answers:
  assumes c: "reliable c" "cn_in c = scgi_message hs body @ rest" and m: "mem_plenty m"
    and g: "good_headers hs (length body) meth" "fst (query_of hs) = Inr ()"
    and l: "length (scgi_payload hs) < SSIZE_MAX" "length body < SSIZE_MAX"
    and p: "\<And>r. rs_status (process r) < 2 ^ 32 \<and> rs_headers (process r) = Some (str_pairs (out r)) \<and> (rq_headers r \<noteq> None \<longrightarrow> rq_headers (process r) \<noteq> None) \<and>
      (rq_query r \<noteq> None \<longrightarrow> rq_query (process r) \<noteq> None)"
  shows "\<exists>c' m' kvs req. scgi_conn None process (c, m) = (Inr True, (c', m')) \<and>
    req = (scgi_new (Some kvs) (Some (snd (query_of hs))) (Some []))
      \<lparr>rq_content_length := length body, rq_body := if body = [] then None else Some body, rq_method := method_named meth\<rparr> \<and>
    map_of kvs = headers_of hs \<and> cn_out c' = cn_out c @ response_of (process req) (out req)"
proof -
  obtain m0 where m0: "scgi_alloc None m = (Inr (scgi_new (Some []) (Some []) (Some [])), m0)" "mem_plenty m0"
    using scgi_alloc_ok [OF m] m by (auto simp: mem_ext_plenty)
  let ?s = "\<lparr>ss_conn = c, ss_mem = m0, ss_req = scgi_new (Some []) (Some []) (Some [])\<rparr>"
  obtain s1 kvs where s1: "andthen scgi_read_headers (\<lambda>_. scgi_read_body) ?s = (Inr (), s1)" "cn_out (ss_conn s1) = cn_out c"
    "ss_req s1 = (scgi_new (Some kvs) (Some (snd (query_of hs))) (Some []))
      \<lparr>rq_content_length := length body, rq_body := if body = [] then None else Some body, rq_method := method_named meth\<rparr>"
    "map_of kvs = headers_of hs" "reliable (ss_conn s1)"
    using scgi_request_read [OF c m0(2) g l, of "Some []"] by blast
  define t where "t = s1\<lparr>ss_req := process (ss_req s1)\<rparr>"
  obtain c' where c': "andthen scgi_write_headers (\<lambda>_ s. if rq_method (ss_req s) \<noteq> SCGI_REQUEST_METHOD_HEAD then scgi_write_body s else (Inr (), s)) t =
      (Inr (), t\<lparr>ss_conn := c'\<rparr>)" "cn_out c' = cn_out (ss_conn t) @ response_of (ss_req t) (out (ss_req s1))"
    using scgi_respond_ok [of t "out (ss_req s1)"] p [of "ss_req s1"] s1(5) by (auto simp: t_def)
  have "scgi_serve process ?s = (Inr (), t\<lparr>ss_conn := c'\<rparr>)"
  proof -
    obtain s0 where "scgi_read_headers ?s = (Inr (), s0)" "scgi_read_body s0 = (Inr (), s1)"
      using s1(1) by (auto elim: andthen_InrE)
    then show ?thesis
      using c'(1) by (simp add: scgi_serve_def set_req_def t_def)
  qed
  moreover have "scgi_free (process (ss_req s1)) = Inr ()"
    using p [of "ss_req s1"] s1(3) by (auto simp: scgi_free_def scgi_new_def)
  ultimately have "scgi_conn None process (c, m) = (Inr True, (c', ss_mem s1))"
    using m0(1) by (simp add: scgi_conn_def scgi_finish_def t_def)
  then show ?thesis
    using c'(2) s1(2-4) by (intro exI [of _ c'] exI [of _ "ss_mem s1"] exI [of _ kvs] exI [of _ "ss_req s1"]) (simp add: t_def)
qed

theorem scgi_conn_answers_witness:
  "\<exists>c' m'. scgi_conn None (\<lambda>r. r\<lparr>rs_status := 200, rs_headers := Some (str_pairs [([88], [89])]), rs_body := [104, 105]\<rparr>)
      (demo_conn (scgi_message demo_headers [120, 121, 122]), plain_mem) = (Inr True, (c', m')) \<and>
    cn_out c' = [83, 116, 97, 116, 117, 115, 58, 32, 50, 48, 48, 10, 88, 58, 32, 89, 10, 10, 104, 105]"
proof -
  have q: "fst (query_of demo_headers) = Inr ()"
    using demo_good(2) by simp
  have d: "dec_of_nat 200 = [50, 48, 48]"
    by (simp add: dec_of_nat.simps [of 200] dec_of_nat.simps [of 20] dec_of_nat.simps [of 2])
  have m: "method_named [71, 69, 84] = SCGI_REQUEST_METHOD_GET"
    by (simp add: method_named_def request_methods_def method_texts)
  let ?process = "\<lambda>r. r\<lparr>rs_status := 200, rs_headers := Some (str_pairs [([88], [89])]), rs_body := [104, 105]\<rparr>"
  obtain c' m' kvs req where "scgi_conn None ?process (demo_conn (scgi_message demo_headers [120, 121, 122]), plain_mem) = (Inr True, (c', m'))"
    "req = (scgi_new (Some kvs) (Some (snd (query_of demo_headers))) (Some []))
      \<lparr>rq_content_length := 3, rq_body := Some [120, 121, 122], rq_method := method_named [71, 69, 84]\<rparr>"
    "cn_out c' = [] @ response_of (?process req) [([88], [89])]"
    using scgi_conn_answers [where rest = "[]" and process = ?process and out = "\<lambda>_. [([88], [89])]",
        OF demo_conn_ok(1) _ mem_plenty_plain demo_good(1) q demo_good(3,4)]
    by (auto simp: demo_conn_ok numeral_3_eq_3)
  then show ?thesis
    by (intro exI [of _ c'] exI [of _ m']) (simp add: response_of_def response_texts scgi_new_def SCGI_STATUS_OK_def d m)
qed

subsection \<open>Lengths that wrap around\<close>

text \<open>
  The sizes \<open>len + 1\<close> and \<open>content_length + 1\<close> are computed in \<open>size_t\<close>: with the largest length the allocation is for 0
  bytes, and what follows is outside of it.
\<close>

lemma s_malloc_zero: "m_ok (ss_mem s) (m_next (ss_mem s)) 0 \<Longrightarrow> \<exists>t. s_malloc 0 s = (Inr [], t) \<and> ss_conn t = ss_conn s"
  by (simp add: s_malloc_def c_malloc_def c_realloc_def mem_request_def)

theorem netstring_length_overflow:
  assumes "m_ok (ss_mem s) (m_next (ss_mem s)) 0"
  shows "fst (read_netstring_string SIZE_MAX s) = Inl Fault"
proof -
  obtain t where t: "s_malloc 0 s = (Inr [], t)"
    using s_malloc_zero [OF assms] by blast
  have w: "wrap64 (SIZE_MAX + 1) = 0"
    by (simp add: wrap64_def bound_simps)
  have "xread_into [] 0 t = (Inr [], t)"
    by (simp add: xread_into_def on_conn_def xread_def)
  then show ?thesis
    unfolding read_netstring_string_def w using t by simp
qed

theorem content_length_overflow:
  assumes "m_ok (ss_mem s) (m_next (ss_mem s)) 0" and "rq_content_length (ss_req s) = SIZE_MAX"
    and "reliable (ss_conn s)" and "cn_in (ss_conn s) \<noteq> []"
  shows "fst (scgi_read_body s) = Inl Fault"
proof -
  obtain t where t: "s_malloc 0 s = (Inr [], t)" "ss_conn t = ss_conn s"
    using s_malloc_zero [OF assms(1)] by blast
  have w: "wrap64 (SIZE_MAX + 1) = 0" "SIZE_MAX \<noteq> 0" "\<not> SIZE_MAX \<le> 0"
    by (simp_all add: wrap64_def bound_simps)
  have "fst (xread_into [] SIZE_MAX t) = Inl Fault"
    using assms(3,4) t(2) w by (cases rule: xread_cases [of SIZE_MAX "ss_conn t"]) (auto simp: xread_into_def)
  then obtain u where u: "xread_into [] SIZE_MAX t = (Inl Fault, u)"
    by (metis prod.collapse)
  show ?thesis
    unfolding scgi_read_body_def Let_def assms(2) w(1) using t(1) u w(2) by simp
qed

end
