(* ===== verification/Linked_List.thy ===== *)
theory Linked_List
  imports Prelude
begin

text \<open>
  Circular doubly-linked lists with a sentinel: \<^verbatim>\<open>src/include/jeffpc/list.h\<close> and \<^verbatim>\<open>src/list.c\<close>.

  The nodes live in a heap that maps addresses to pairs of pointers; the headers of the lists (offset and size)
  are in a second map. Following a pointer to an address that holds no node is a \<open>Fault\<close>. The first flavour
  (\<open>slist_*\<close>) works on nodes; the second (\<open>list_*\<close>) works on objects, which are \<open>offset\<close> bytes below the node
  embedded in them, in the arithmetic of \<open>uintptr_t\<close>.

  A list is shown to refine the sequence of its objects: \<open>list_rep s l os\<close> says that the list at \<open>l\<close> holds \<open>os\<close>,
  and every operation acts on \<open>os\<close> as the corresponding operation of sequences. Clients rely on the
  interface \<open>object_queue\<close> only, which is interpreted on the operations below.
\<close>

subsection \<open>Data\<close>

record list_node =
  ln_next :: u64
  ln_prev :: u64

record list_hdr =
  l_offset :: u64
  l_size :: u64

type_synonym node_heap = "u64 \<rightharpoonup> list_node"

record lstate =
  ls_nodes :: node_heap
  ls_lists :: "u64 \<rightharpoonup> list_hdr"

definition NULL :: u64 where
  "NULL = 0"

subsection \<open>Access through pointers\<close>

definition get_list_node :: "u64 \<Rightarrow> (lstate, list_node) cfun" where
  "get_list_node p s = (case ls_nodes s p of None \<Rightarrow> (Inl Fault, s) | Some n \<Rightarrow> (Inr n, s))"

definition upd_list_node :: "(list_node \<Rightarrow> list_node) \<Rightarrow> u64 \<Rightarrow> (lstate, unit) cfun" where
  "upd_list_node f p s =
     (case ls_nodes s p of
        None \<Rightarrow> (Inl Fault, s)
      | Some n \<Rightarrow> (Inr (), s\<lparr>ls_nodes := (ls_nodes s)(p \<mapsto> f n)\<rparr>))"

definition get_next :: "u64 \<Rightarrow> (lstate, u64) cfun" where
  "get_next p = andthen (get_list_node p) (\<lambda>n. cret (ln_next n))"

definition get_prev :: "u64 \<Rightarrow> (lstate, u64) cfun" where
  "get_prev p = andthen (get_list_node p) (\<lambda>n. cret (ln_prev n))"

definition set_next :: "u64 \<Rightarrow> u64 \<Rightarrow> (lstate, unit) cfun" where
  "set_next p q = upd_list_node (\<lambda>n. n\<lparr>ln_next := q\<rparr>) p"

definition set_prev :: "u64 \<Rightarrow> u64 \<Rightarrow> (lstate, unit) cfun" where
  "set_prev p q = upd_list_node (\<lambda>n. n\<lparr>ln_prev := q\<rparr>) p"

definition get_hdr :: "u64 \<Rightarrow> (lstate, list_hdr) cfun" where
  "get_hdr l s = (case ls_lists s l of None \<Rightarrow> (Inl Fault, s) | Some h \<Rightarrow> (Inr h, s))"

subsection \<open>Lists of nodes\<close>

definition slist_init :: "u64 \<Rightarrow> (lstate, unit) cfun" where
  "slist_init node = andthen (set_next node node) (\<lambda>_. set_prev node node)"

definition slist_is_empty :: "u64 \<Rightarrow> (lstate, bool) cfun" where
  "slist_is_empty list = andthen (get_next list) (\<lambda>n. cret (n = list))"

definition slist_insert_after :: "u64 \<Rightarrow> u64 \<Rightarrow> (lstate, unit) cfun" where
  "slist_insert_after cur new =
     andthen (get_next cur) (\<lambda>n.
     andthen (set_next new n) (\<lambda>_.
     andthen (set_prev new cur) (\<lambda>_.
     andthen (set_next cur new) (\<lambda>_.
     andthen (get_next new) (\<lambda>m. set_prev m new)))))"

definition slist_insert_before :: "u64 \<Rightarrow> u64 \<Rightarrow> (lstate, unit) cfun" where
  "slist_insert_before cur new =
     andthen (set_next new cur) (\<lambda>_.
     andthen (get_prev cur) (\<lambda>p.
     andthen (set_prev new p) (\<lambda>_.
     andthen (set_prev cur new) (\<lambda>_.
     andthen (get_prev new) (\<lambda>q. set_next q new)))))"

definition slist_remove :: "u64 \<Rightarrow> (lstate, unit) cfun" where
  "slist_remove node =
     andthen (get_next node) (\<lambda>n.
     andthen (get_prev node) (\<lambda>p.
     andthen (set_prev n p) (\<lambda>_.
     andthen (get_prev node) (\<lambda>p'.
     andthen (get_next node) (\<lambda>n'.
     andthen (set_next p' n') (\<lambda>_. slist_init node))))))"

definition slist_move_tail :: "u64 \<Rightarrow> u64 \<Rightarrow> (lstate, unit) cfun" where
  "slist_move_tail dst src =
     andthen (slist_is_empty src) (\<lambda>e.
     if e then cret ()
     else
       andthen (get_prev dst) (\<lambda>dp.
       andthen (get_next src) (\<lambda>sn.
       andthen (set_next dp sn) (\<lambda>_.
       andthen (get_next src) (\<lambda>sn'.
       andthen (get_prev dst) (\<lambda>dp'.
       andthen (set_prev sn' dp') (\<lambda>_.
       andthen (get_prev src) (\<lambda>sp.
       andthen (set_next sp dst) (\<lambda>_.
       andthen (get_prev src) (\<lambda>sp'.
       andthen (set_prev dst sp') (\<lambda>_. slist_init src)))))))))))"

definition slist_head :: "u64 \<Rightarrow> (lstate, u64) cfun" where
  "slist_head node = get_next node"

definition slist_tail :: "u64 \<Rightarrow> (lstate, u64) cfun" where
  "slist_tail node = get_prev node"

text \<open>\<open>container_of\<close>: the object around a node at the given offset.\<close>

definition slist_entry :: "u64 \<Rightarrow> u64 \<Rightarrow> u64" where
  "slist_entry off node = node - off"

definition slist_next_entry :: "u64 \<Rightarrow> u64 \<Rightarrow> (lstate, u64) cfun" where
  "slist_next_entry off pos = andthen (slist_head (pos + off)) (\<lambda>n. cret (slist_entry off n))"

definition slist_prev_entry :: "u64 \<Rightarrow> u64 \<Rightarrow> (lstate, u64) cfun" where
  "slist_prev_entry off pos = andthen (slist_tail (pos + off)) (\<lambda>n. cret (slist_entry off n))"

text \<open>
  The loops: the body is run for every \<open>pos\<close>, and the result is the sequence of values \<open>pos\<close> takes. The \<open>safe\<close>
  variants have read the next position before the body runs.
\<close>

primrec entry_loop ::
  "(u64 \<Rightarrow> u64 \<Rightarrow> (lstate, u64) cfun) \<Rightarrow> u64 \<Rightarrow> u64 \<Rightarrow> (u64 \<Rightarrow> (lstate, unit) cfun) \<Rightarrow> nat \<Rightarrow> u64 \<Rightarrow> (lstate, u64 list) cfun" where
  "entry_loop step off list body 0 pos = cerr Diverged"
| "entry_loop step off list body (Suc fuel) pos =
     (if pos + off = list then cret []
      else andthen (body pos) (\<lambda>_.
        andthen (step off pos) (\<lambda>nx.
        andthen (entry_loop step off list body fuel nx) (\<lambda>ps. cret (pos # ps)))))"

primrec entry_safe_loop ::
  "(u64 \<Rightarrow> u64 \<Rightarrow> (lstate, u64) cfun) \<Rightarrow> u64 \<Rightarrow> u64 \<Rightarrow> (u64 \<Rightarrow> (lstate, unit) cfun) \<Rightarrow> nat \<Rightarrow> u64 \<Rightarrow> u64 \<Rightarrow> (lstate, u64 list) cfun" where
  "entry_safe_loop step off list body 0 pos safe = cerr Diverged"
| "entry_safe_loop step off list body (Suc fuel) pos safe =
     (if pos + off = list then cret []
      else andthen (body pos) (\<lambda>_.
        andthen (step off safe) (\<lambda>nx.
        andthen (entry_safe_loop step off list body fuel safe nx) (\<lambda>ps. cret (pos # ps)))))"

definition slist_for_each_entry :: "nat \<Rightarrow> u64 \<Rightarrow> u64 \<Rightarrow> (u64 \<Rightarrow> (lstate, unit) cfun) \<Rightarrow> (lstate, u64 list) cfun" where
  "slist_for_each_entry fuel off list body =
     andthen (slist_head list) (\<lambda>n. entry_loop slist_next_entry off list body fuel (slist_entry off n))"

definition slist_for_each_entry_reverse :: "nat \<Rightarrow> u64 \<Rightarrow> u64 \<Rightarrow> (u64 \<Rightarrow> (lstate, unit) cfun) \<Rightarrow> (lstate, u64 list) cfun" where
  "slist_for_each_entry_reverse fuel off list body =
     andthen (slist_tail list) (\<lambda>n. entry_loop slist_prev_entry off list body fuel (slist_entry off n))"

definition slist_for_each_entry_safe :: "nat \<Rightarrow> u64 \<Rightarrow> u64 \<Rightarrow> (u64 \<Rightarrow> (lstate, unit) cfun) \<Rightarrow> (lstate, u64 list) cfun" where
  "slist_for_each_entry_safe fuel off list body =
     andthen (slist_head list) (\<lambda>n.
     andthen (slist_next_entry off (slist_entry off n)) (\<lambda>safe.
       entry_safe_loop slist_next_entry off list body fuel (slist_entry off n) safe))"

definition slist_for_each_entry_safe_reverse :: "nat \<Rightarrow> u64 \<Rightarrow> u64 \<Rightarrow> (u64 \<Rightarrow> (lstate, unit) cfun) \<Rightarrow> (lstate, u64 list) cfun" where
  "slist_for_each_entry_safe_reverse fuel off list body =
     andthen (slist_tail list) (\<lambda>n.
     andthen (slist_prev_entry off (slist_entry off n)) (\<lambda>safe.
       entry_safe_loop slist_prev_entry off list body fuel (slist_entry off n) safe))"

text \<open>The loops over nodes are those over entries at offset 0.\<close>

definition slist_for_each :: "nat \<Rightarrow> u64 \<Rightarrow> (u64 \<Rightarrow> (lstate, unit) cfun) \<Rightarrow> (lstate, u64 list) cfun" where
  "slist_for_each fuel list body = slist_for_each_entry fuel 0 list body"

definition slist_for_each_safe :: "nat \<Rightarrow> u64 \<Rightarrow> (u64 \<Rightarrow> (lstate, unit) cfun) \<Rightarrow> (lstate, u64 list) cfun" where
  "slist_for_each_safe fuel list body = slist_for_each_entry_safe fuel 0 list body"

definition slist_for_each_reverse :: "nat \<Rightarrow> u64 \<Rightarrow> (u64 \<Rightarrow> (lstate, unit) cfun) \<Rightarrow> (lstate, u64 list) cfun" where
  "slist_for_each_reverse fuel list body = slist_for_each_entry_reverse fuel 0 list body"

definition slist_for_each_safe_reverse :: "nat \<Rightarrow> u64 \<Rightarrow> (u64 \<Rightarrow> (lstate, unit) cfun) \<Rightarrow> (lstate, u64 list) cfun" where
  "slist_for_each_safe_reverse fuel list body = slist_for_each_entry_safe_reverse fuel 0 list body"

subsection \<open>Lists of objects\<close>

text \<open>\<open>&list->head\<close>: the sentinel is behind the two sizes.\<close>

definition list_sentinel :: "u64 \<Rightarrow> u64" where
  "list_sentinel list = list + 16"

definition sizeof_list_node :: u64 where
  "sizeof_list_node = 16"

definition list_create :: "u64 \<Rightarrow> u64 \<Rightarrow> u64 \<Rightarrow> (lstate, unit) cfun" where
  "list_create list sz offset =
     (if sz < offset + sizeof_list_node then cerr Panic
      else andthen (get_hdr list) (\<lambda>_.
        andthen (\<lambda>s. (Inr (), s\<lparr>ls_lists := (ls_lists s)(list \<mapsto> \<lparr>l_offset = offset, l_size = sz\<rparr>)\<rparr>)) (\<lambda>_.
          slist_init (list_sentinel list))))"

definition list_destroy :: "u64 \<Rightarrow> (lstate, unit) cfun" where
  "list_destroy list =
     andthen (set_next (list_sentinel list) NULL) (\<lambda>_. set_prev (list_sentinel list) NULL)"

definition list_move_tail :: "u64 \<Rightarrow> u64 \<Rightarrow> (lstate, unit) cfun" where
  "list_move_tail dst src =
     andthen (get_hdr dst) (\<lambda>d.
     andthen (get_hdr src) (\<lambda>s.
     if l_size d \<noteq> l_size s then cerr Panic
     else if l_offset d \<noteq> l_offset s then cerr Panic
     else slist_move_tail (list_sentinel dst) (list_sentinel src)))"

definition list_obj2node :: "u64 \<Rightarrow> u64 \<Rightarrow> (lstate, u64) cfun" where
  "list_obj2node list obj = andthen (get_hdr list) (\<lambda>h. cret (obj + l_offset h))"

definition list_node2obj :: "u64 \<Rightarrow> u64 \<Rightarrow> (lstate, u64) cfun" where
  "list_node2obj list node = andthen (get_hdr list) (\<lambda>h. cret (node - l_offset h))"

definition list_is_empty :: "u64 \<Rightarrow> (lstate, bool) cfun" where
  "list_is_empty list = slist_is_empty (list_sentinel list)"

definition list_insert_after :: "u64 \<Rightarrow> u64 \<Rightarrow> u64 \<Rightarrow> (lstate, unit) cfun" where
  "list_insert_after list ref new =
     andthen (list_obj2node list ref) (\<lambda>r. andthen (list_obj2node list new) (\<lambda>n. slist_insert_after r n))"

definition list_insert_before :: "u64 \<Rightarrow> u64 \<Rightarrow> u64 \<Rightarrow> (lstate, unit) cfun" where
  "list_insert_before list ref new =
     andthen (list_obj2node list ref) (\<lambda>r. andthen (list_obj2node list new) (\<lambda>n. slist_insert_before r n))"

definition list_insert_head :: "u64 \<Rightarrow> u64 \<Rightarrow> (lstate, unit) cfun" where
  "list_insert_head list new =
     andthen (list_obj2node list new) (\<lambda>n. slist_insert_after (list_sentinel list) n)"

definition list_insert_tail :: "u64 \<Rightarrow> u64 \<Rightarrow> (lstate, unit) cfun" where
  "list_insert_tail list new =
     andthen (list_obj2node list new) (\<lambda>n. slist_insert_before (list_sentinel list) n)"

definition list_ref :: "u64 \<Rightarrow> u64 \<Rightarrow> (lstate, u64) cfun" where
  "list_ref list ref = (if ref = NULL then cret (list_sentinel list) else list_obj2node list ref)"

definition list_next :: "u64 \<Rightarrow> u64 \<Rightarrow> (lstate, u64) cfun" where
  "list_next list ref =
     andthen (list_ref list ref) (\<lambda>node.
     andthen (get_next node) (\<lambda>n.
       if n = list_sentinel list then cret NULL else list_node2obj list n))"

definition list_prev :: "u64 \<Rightarrow> u64 \<Rightarrow> (lstate, u64) cfun" where
  "list_prev list ref =
     andthen (list_ref list ref) (\<lambda>node.
     andthen (get_prev node) (\<lambda>p.
       if p = list_sentinel list then cret NULL else list_node2obj list p))"

definition list_head :: "u64 \<Rightarrow> (lstate, u64) cfun" where
  "list_head list = list_next list NULL"

definition list_tail :: "u64 \<Rightarrow> (lstate, u64) cfun" where
  "list_tail list = list_prev list NULL"

definition list_remove :: "u64 \<Rightarrow> u64 \<Rightarrow> (lstate, unit) cfun" where
  "list_remove list item = andthen (list_obj2node list item) (\<lambda>n. slist_remove n)"

definition list_remove_head :: "u64 \<Rightarrow> (lstate, u64) cfun" where
  "list_remove_head list =
     andthen (slist_is_empty (list_sentinel list)) (\<lambda>e.
     if e then cret NULL
     else andthen (slist_head (list_sentinel list)) (\<lambda>node.
       andthen (slist_remove node) (\<lambda>_. list_node2obj list node)))"

definition list_remove_tail :: "u64 \<Rightarrow> (lstate, u64) cfun" where
  "list_remove_tail list =
     andthen (slist_is_empty (list_sentinel list)) (\<lambda>e.
     if e then cret NULL
     else andthen (slist_tail (list_sentinel list)) (\<lambda>node.
       andthen (slist_remove node) (\<lambda>_. list_node2obj list node)))"

primrec obj_loop ::
  "(u64 \<Rightarrow> u64 \<Rightarrow> (lstate, u64) cfun) \<Rightarrow> u64 \<Rightarrow> (u64 \<Rightarrow> (lstate, unit) cfun) \<Rightarrow> nat \<Rightarrow> u64 \<Rightarrow> (lstate, u64 list) cfun" where
  "obj_loop step list body 0 node = cerr Diverged"
| "obj_loop step list body (Suc fuel) node =
     (if node = NULL then cret []
      else andthen (body node) (\<lambda>_.
        andthen (step list node) (\<lambda>nx.
        andthen (obj_loop step list body fuel nx) (\<lambda>ps. cret (node # ps)))))"

primrec obj_safe_loop ::
  "(u64 \<Rightarrow> u64 \<Rightarrow> (lstate, u64) cfun) \<Rightarrow> u64 \<Rightarrow> (u64 \<Rightarrow> (lstate, unit) cfun) \<Rightarrow> nat \<Rightarrow> u64 \<Rightarrow> u64 \<Rightarrow> (lstate, u64 list) cfun" where
  "obj_safe_loop step list body 0 node nxt = cerr Diverged"
| "obj_safe_loop step list body (Suc fuel) node nxt =
     (if node = NULL then cret []
      else andthen (body node) (\<lambda>_.
        andthen (step list nxt) (\<lambda>nx.
        andthen (obj_safe_loop step list body fuel nxt nx) (\<lambda>ps. cret (node # ps)))))"

definition list_for_each :: "nat \<Rightarrow> u64 \<Rightarrow> (u64 \<Rightarrow> (lstate, unit) cfun) \<Rightarrow> (lstate, u64 list) cfun" where
  "list_for_each fuel list body = andthen (list_head list) (obj_loop list_next list body fuel)"

definition list_for_each_safe :: "nat \<Rightarrow> u64 \<Rightarrow> (u64 \<Rightarrow> (lstate, unit) cfun) \<Rightarrow> (lstate, u64 list) cfun" where
  "list_for_each_safe fuel list body =
     andthen (list_head list) (\<lambda>node.
     andthen (list_next list node) (\<lambda>nxt. obj_safe_loop list_next list body fuel node nxt))"

definition list_for_each_reverse :: "nat \<Rightarrow> u64 \<Rightarrow> (u64 \<Rightarrow> (lstate, unit) cfun) \<Rightarrow> (lstate, u64 list) cfun" where
  "list_for_each_reverse fuel list body = andthen (list_tail list) (obj_loop list_prev list body fuel)"

definition list_for_each_safe_reverse :: "nat \<Rightarrow> u64 \<Rightarrow> (u64 \<Rightarrow> (lstate, unit) cfun) \<Rightarrow> (lstate, u64 list) cfun" where
  "list_for_each_safe_reverse fuel list body =
     andthen (list_tail list) (\<lambda>node.
     andthen (list_prev list node) (\<lambda>nxt. obj_safe_loop list_prev list body fuel node nxt))"

subsection \<open>Which sequence a heap represents\<close>

text \<open>The two pointers of a node, where it exists.\<close>

definition nx :: "node_heap \<Rightarrow> u64 \<Rightarrow> u64 option" where
  "nx h a = map_option ln_next (h a)"

definition pv :: "node_heap \<Rightarrow> u64 \<Rightarrow> u64 option" where
  "pv h a = map_option ln_prev (h a)"

fun chain :: "node_heap \<Rightarrow> u64 list \<Rightarrow> bool" where
  "chain h (a # b # zs) \<longleftrightarrow> nx h a = Some b \<and> pv h b = Some a \<and> chain h (b # zs)"
| "chain h zs \<longleftrightarrow> True"

text \<open>The sentinel, the nodes, and the sentinel again.\<close>

definition cyc :: "u64 \<Rightarrow> u64 list \<Rightarrow> u64 list" where
  "cyc l xs = l # xs @ [l]"

definition slist_rep :: "node_heap \<Rightarrow> u64 \<Rightarrow> u64 list \<Rightarrow> bool" where
  "slist_rep h l xs \<longleftrightarrow> chain h (cyc l xs) \<and> distinct (l # xs)"

text \<open>The list at \<open>l\<close> holds the objects \<open>os\<close>, none of which is at address 0.\<close>

definition list_rep :: "lstate \<Rightarrow> u64 \<Rightarrow> u64 list \<Rightarrow> bool" where
  "list_rep s l os \<longleftrightarrow>
     (\<exists>h. ls_lists s l = Some h \<and> NULL \<notin> set os \<and>
          slist_rep (ls_nodes s) (list_sentinel l) (map (\<lambda>ob. ob + l_offset h) os))"

lemma nx_upd [simp]: "nx (h(a \<mapsto> n)) b = (if a = b then Some (ln_next n) else nx h b)"
  by (simp add: nx_def)

lemma pv_upd [simp]: "pv (h(a \<mapsto> n)) b = (if a = b then Some (ln_prev n) else pv h b)"
  by (simp add: pv_def)

lemma chain_append: "chain h (xs @ p # ys) \<longleftrightarrow> chain h (xs @ [p]) \<and> chain h (p # ys)"
  by (induction h xs rule: chain.induct) (cases ys; auto)+

lemma chain_frame:
  assumes "\<forall>y \<in> set (butlast zs). nx h' y = nx h y" and "\<forall>y \<in> set (tl zs). pv h' y = pv h y"
  shows "chain h' zs = chain h zs"
  using assms by (induction h zs rule: chain.induct) auto

subsection \<open>The pointer updates\<close>

lemma andthen_flag [simp]:
  "f s = (Inr True, s') \<Longrightarrow> andthen f g s = g True s'" "f s = (Inr False, s') \<Longrightarrow> andthen f g s = g False s'"
  by (simp_all add: andthen_def)

definition put_next :: "u64 \<Rightarrow> u64 \<Rightarrow> node_heap \<Rightarrow> node_heap" where
  "put_next p q h = (\<lambda>a. if a = p then map_option (\<lambda>n. n\<lparr>ln_next := q\<rparr>) (h a) else h a)"

definition put_prev :: "u64 \<Rightarrow> u64 \<Rightarrow> node_heap \<Rightarrow> node_heap" where
  "put_prev p q h = (\<lambda>a. if a = p then map_option (\<lambda>n. n\<lparr>ln_prev := q\<rparr>) (h a) else h a)"

definition on_nodes :: "(node_heap \<Rightarrow> node_heap) \<Rightarrow> lstate \<Rightarrow> lstate" where
  "on_nodes f s = s\<lparr>ls_nodes := f (ls_nodes s)\<rparr>"

lemma put_simps [simp]:
  "nx (put_next p q h) a = (if a = p \<and> p \<in> dom h then Some q else nx h a)"
  "pv (put_next p q h) a = pv h a"
  "nx (put_prev p q h) a = nx h a"
  "pv (put_prev p q h) a = (if a = p \<and> p \<in> dom h then Some q else pv h a)"
  "dom (put_next p q h) = dom h"
  "dom (put_prev p q h) = dom h"
  by (cases "h p"; auto simp: nx_def pv_def put_next_def put_prev_def option.map_comp comp_def split: if_splits)+

lemma on_nodes_simps [simp]:
  "ls_nodes (on_nodes f s) = f (ls_nodes s)" "ls_lists (on_nodes f s) = ls_lists s"
  "on_nodes f (on_nodes g s) = on_nodes (f \<circ> g) s"
  by (simp_all add: on_nodes_def)

lemma nx_dom: "nx h a = Some b \<Longrightarrow> a \<in> dom h" and pv_dom: "pv h a = Some b \<Longrightarrow> a \<in> dom h"
  by (auto simp: nx_def pv_def)

lemma nx_domD: "a \<in> dom h \<Longrightarrow> nx h a = Some (the (nx h a))" and pv_domD: "a \<in> dom h \<Longrightarrow> pv h a = Some (the (pv h a))"
  by (auto simp: nx_def pv_def)

lemma get_next_ok: "nx (ls_nodes s) p = Some n \<Longrightarrow> get_next p s = (Inr n, s)"
  and get_prev_ok: "pv (ls_nodes s) p = Some n \<Longrightarrow> get_prev p s = (Inr n, s)"
  by (auto simp: get_next_def get_prev_def get_list_node_def nx_def pv_def andthen_def split: option.splits)

lemma set_next_ok: "p \<in> dom (ls_nodes s) \<Longrightarrow> set_next p q s = (Inr (), on_nodes (put_next p q) s)"
  and set_prev_ok: "p \<in> dom (ls_nodes s) \<Longrightarrow> set_prev p q s = (Inr (), on_nodes (put_prev p q) s)"
  by (auto simp: set_next_def set_prev_def upd_list_node_def on_nodes_def put_next_def put_prev_def fun_eq_iff
        intro!: arg_cong [where f = "\<lambda>h. s\<lparr>ls_nodes := h\<rparr>"])

lemmas access_ok = get_next_ok get_prev_ok set_next_ok set_prev_ok

text \<open>Putting \<open>new\<close> between the neighbours \<open>p\<close> and \<open>c\<close>, and taking \<open>x\<close> out from between them.\<close>

definition link :: "u64 \<Rightarrow> u64 \<Rightarrow> u64 \<Rightarrow> node_heap \<Rightarrow> node_heap" where
  "link p c new h = put_prev c new (put_next p new (put_prev new p (put_next new c h)))"

definition unlink :: "u64 \<Rightarrow> u64 \<Rightarrow> u64 \<Rightarrow> node_heap \<Rightarrow> node_heap" where
  "unlink p x c h = put_prev x x (put_next x x (put_next p c (put_prev c p h)))"

lemma put_swap:
  "put_next p q (put_prev a b h) = put_prev a b (put_next p q h)"
  "put_prev p q (put_prev p q' h) = put_prev p q h"
  "put_next p q (put_next p q' h) = put_next p q h"
  "p \<noteq> a \<Longrightarrow> put_prev p q (put_prev a b h) = put_prev a b (put_prev p q h)"
  by (auto simp: put_next_def put_prev_def fun_eq_iff option.map_comp comp_def intro!: option.map_cong)

lemma dom_link [simp]: "dom (link p c new h) = dom h" and dom_unlink [simp]: "dom (unlink p x c h) = dom h"
  by (simp_all add: link_def unlink_def)

lemma slist_insert_after_ok:
  assumes "nx (ls_nodes s) cur = Some c" and "pv (ls_nodes s) c = Some cur" and "new \<in> dom (ls_nodes s)" and "new \<noteq> cur"
  shows "slist_insert_after cur new s = (Inr (), on_nodes (link cur c new) s)"
  using assms nx_dom [OF assms(1)] pv_dom [OF assms(2)]
  by (simp add: slist_insert_after_def access_ok link_def comp_def)

lemma slist_insert_before_ok:
  assumes "pv (ls_nodes s) cur = Some p" and "nx (ls_nodes s) p = Some cur" and "new \<in> dom (ls_nodes s)" and "new \<noteq> cur"
  shows "slist_insert_before cur new s = (Inr (), on_nodes (link p cur new) s)"
  using assms nx_dom [OF assms(2)] pv_dom [OF assms(1)]
  by (simp add: slist_insert_before_def access_ok link_def comp_def put_swap)

lemma slist_remove_ok:
  assumes "nx (ls_nodes s) x = Some c" and "pv (ls_nodes s) x = Some p"
    and "p \<in> dom (ls_nodes s)" and "c \<in> dom (ls_nodes s)" and "x \<noteq> c"
  shows "slist_remove x s = (Inr (), on_nodes (unlink p x c) s)"
  using assms nx_dom [OF assms(1)]
  by (simp add: slist_remove_def slist_init_def access_ok unlink_def comp_def)

subsection \<open>Inserting and removing keep the representation\<close>

lemma cyc_split: "cyc l (us @ vs) = butlast (l # us) @ last (l # us) # hd (vs @ [l]) # tl (vs @ [l])"
  by (cases us rule: rev_cases; cases vs) (simp_all add: cyc_def)

lemma chain_cut:
  "chain h (xs @ p # c # ys) \<longleftrightarrow> chain h (xs @ [p]) \<and> nx h p = Some c \<and> pv h c = Some p \<and> chain h (c # ys)"
  by (subst chain_append) simp

lemma chain_snoc:
  "xs \<noteq> [] \<Longrightarrow> chain h (xs @ [c]) \<longleftrightarrow> chain h xs \<and> nx h (last xs) = Some c \<and> pv h c = Some (last xs)"
  by (cases xs rule: rev_cases) (auto simp: chain_cut)

lemma slist_rep_split:
  "slist_rep h l (us @ vs) \<longleftrightarrow>
     chain h (l # us) \<and> chain h (vs @ [l]) \<and> nx h (last (l # us)) = Some (hd (vs @ [l])) \<and>
     pv h (hd (vs @ [l])) = Some (last (l # us)) \<and> distinct (l # us @ vs)"
proof -
  have "butlast (l # us) @ [last (l # us)] = l # us" "hd (vs @ [l]) # tl (vs @ [l]) = vs @ [l]"
    by (cases vs; simp)+
  then show ?thesis
    unfolding slist_rep_def cyc_split chain_cut by (metis (no_types))
qed

lemma slist_rep_neighbours:
  assumes "slist_rep h l (us @ vs)"
  shows "nx h (last (l # us)) = Some (hd (vs @ [l]))" and "pv h (hd (vs @ [l])) = Some (last (l # us))"
  using assms by (simp_all add: slist_rep_split)

lemma ends_of_split:
  assumes "distinct (l # us @ vs)"
  shows "last (l # us) \<notin> set (butlast (l # us))" and "last (l # us) \<notin> set (butlast (vs @ [l]))"
    and "hd (vs @ [l]) \<notin> set us" and "hd (vs @ [l]) \<notin> set (tl (vs @ [l]))"
proof -
  have d: "distinct (l # us)" and e: "distinct (vs @ [l])" and f: "set vs \<inter> set (l # us) = {}"
    using assms by auto
  show "last (l # us) \<notin> set (butlast (l # us))"
    using d by (metis append_butlast_last_id distinct_append insert_iff disjoint_insert(2) list.distinct(1) list.simps(15))
  show "last (l # us) \<notin> set (butlast (vs @ [l]))"
    using f last_in_set [of "l # us"] by fastforce
  show "hd (vs @ [l]) \<notin> set us"
    using f d by (cases vs) auto
  show "hd (vs @ [l]) \<notin> set (tl (vs @ [l]))"
    using e by (cases vs) auto
qed

lemma slist_rep_link:
  assumes r: "slist_rep h l (us @ vs)" and new: "new \<in> dom h" "new \<notin> set (l # us @ vs)"
    and p: "p = last (l # us)" and c: "c = hd (vs @ [l])"
  shows "slist_rep (link p c new h) l (us @ new # vs)"
proof -
  have d: "distinct (l # us @ vs)" and ch: "chain h (l # us)" "chain h (vs @ [l])"
    and e: "p \<in> dom h" "c \<in> dom h"
    using r by (auto simp: slist_rep_split p c dest: nx_dom pv_dom simp del: chain.simps)
  have n: "new \<noteq> p" "new \<noteq> c" "new \<notin> set (tl (vs @ [l]))"
    using new last_in_set [of "l # us"] by (cases vs; auto simp: p c)+
  have "chain (link p c new h) (l # us)" "chain (link p c new h) (vs @ [l])"
    using ch ends_of_split [OF d] new n
    by (subst chain_frame [where h = h]; auto simp: link_def p c dest: in_set_butlastD simp del: chain.simps)+
  then have "chain (link p c new h) ((new # vs) @ [l])"
    using new e n by (cases vs) (auto simp: link_def c)
  then show ?thesis
    using \<open>chain (link p c new h) (l # us)\<close> d new n e
    by (subst slist_rep_split) (auto simp: link_def p simp del: chain.simps)
qed

lemma slist_rep_unlink:
  assumes r: "slist_rep h l (us @ x # vs)" and p: "p = last (l # us)" and c: "c = hd (vs @ [l])"
  shows "slist_rep (unlink p x c h) l (us @ vs)"
proof -
  have d: "distinct (l # us @ vs)" and x: "x \<noteq> l" "x \<notin> set us" "x \<notin> set vs"
    using r by (auto simp: slist_rep_def)
  have ch: "chain h (l # us)" "chain h (vs @ [l])" and e: "p \<in> dom h" "c \<in> dom h"
    using slist_rep_split [THEN iffD1, OF r] by (cases vs; auto simp: p c dest: nx_dom pv_dom)+
  have n: "p \<noteq> x" "c \<noteq> x" "x \<notin> set (tl (vs @ [l]))"
    using x last_in_set [of "l # us"] by (cases vs; auto simp: p c)+
  have "chain (unlink p x c h) (l # us)" "chain (unlink p x c h) (vs @ [l])"
    using ch ends_of_split [OF d] x n
    by (subst chain_frame [where h = h]; auto simp: unlink_def p c dest: in_set_butlastD simp del: chain.simps)+
  then show ?thesis
    using d n e by (subst slist_rep_split) (auto simp: unlink_def p c simp del: chain.simps)
qed

lemma slist_rep_frame:
  assumes "\<forall>y \<in> set (l # xs). h' y = h y"
  shows "slist_rep h' l xs = slist_rep h l xs"
proof -
  have "chain h' (cyc l xs) = chain h (cyc l xs)"
    using assms by (intro chain_frame) (auto simp: cyc_def nx_def pv_def dest: in_set_butlastD)
  then show ?thesis
    by (simp add: slist_rep_def)
qed

lemma slist_rep_dom: "slist_rep h l xs \<Longrightarrow> set (l # xs) \<subseteq> dom h"
proof
  fix y
  assume r: "slist_rep h l xs" and "y \<in> set (l # xs)"
  then obtain us vs where "l # xs = us @ y # vs"
    by (meson split_list)
  then have "cyc l xs = us @ y # (vs @ [l])"
    by (simp add: cyc_def)
  then show "y \<in> dom h"
    using r by (cases "vs @ [l]") (auto simp: slist_rep_def chain_cut dest: nx_dom)
qed

subsection \<open>The operations on nodes\<close>

lemma slist_rep_next: "slist_rep h l xs \<Longrightarrow> nx h l = Some (hd (xs @ [l]))"
  using slist_rep_neighbours(1) [of h l "[]" xs] by simp

lemma slist_rep_prev: "slist_rep h l xs \<Longrightarrow> pv h l = Some (last (l # xs))"
  using slist_rep_neighbours(2) [of h l xs "[]"] by simp

lemma slist_is_empty_rep:
  assumes "slist_rep (ls_nodes s) l xs"
  shows "slist_is_empty l s = (Inr (xs = []), s)"
  using assms slist_rep_next [OF assms]
  by (cases xs) (auto simp: slist_is_empty_def access_ok slist_rep_def)

lemma slist_insert_after_rep:
  assumes r: "slist_rep (ls_nodes s) l (us @ vs)" and new: "new \<in> dom (ls_nodes s)" "new \<notin> set (l # us @ vs)"
  shows "slist_insert_after (last (l # us)) new s = (Inr (), on_nodes (link (last (l # us)) (hd (vs @ [l])) new) s)"
    and "slist_insert_before (hd (vs @ [l])) new s = (Inr (), on_nodes (link (last (l # us)) (hd (vs @ [l])) new) s)"
proof -
  have "new \<noteq> last (l # us)" "new \<noteq> hd (vs @ [l])"
    using new last_in_set [of "l # us"] by (auto simp: hd_append)
  then show "slist_insert_after (last (l # us)) new s = (Inr (), on_nodes (link (last (l # us)) (hd (vs @ [l])) new) s)"
    and "slist_insert_before (hd (vs @ [l])) new s = (Inr (), on_nodes (link (last (l # us)) (hd (vs @ [l])) new) s)"
    using slist_rep_neighbours [OF r] new(1) by (intro slist_insert_after_ok slist_insert_before_ok; simp)+
qed

lemma slist_remove_rep:
  assumes r: "slist_rep (ls_nodes s) l (us @ x # vs)"
  shows "slist_remove x s = (Inr (), on_nodes (unlink (last (l # us)) x (hd (vs @ [l]))) s)"
proof (rule slist_remove_ok)
  show n: "nx (ls_nodes s) x = Some (hd (vs @ [l]))"
    using slist_rep_neighbours(1) [of _ l "us @ [x]" vs] r by simp
  show p: "pv (ls_nodes s) x = Some (last (l # us))"
    using slist_rep_neighbours(2) [of _ l us "x # vs"] r by simp
  show "last (l # us) \<in> dom (ls_nodes s)" "hd (vs @ [l]) \<in> dom (ls_nodes s)"
    using slist_rep_dom [OF r] last_in_set [of "l # us"] hd_in_set [of "vs @ [l]"] by fastforce+
  show "x \<noteq> hd (vs @ [l])"
    using r by (cases vs) (auto simp: slist_rep_def)
qed

definition moved :: "u64 \<Rightarrow> u64 \<Rightarrow> u64 \<Rightarrow> u64 \<Rightarrow> u64 \<Rightarrow> node_heap \<Rightarrow> node_heap" where
  "moved dst dp src sn sp h =
     put_prev src src (put_next src src (put_prev dst sp (put_next sp dst (put_prev sn dp (put_next dp sn h)))))"

lemma dom_moved [simp]: "dom (moved dst dp src sn sp h) = dom h"
  by (simp add: moved_def)

lemma slist_move_tail_rep:
  assumes d: "slist_rep (ls_nodes s) dst ds" and r: "slist_rep (ls_nodes s) src ss" and ne: "ss \<noteq> []"
    and dis: "set (dst # ds) \<inter> set (src # ss) = {}"
  shows "slist_move_tail dst src s = (Inr (), on_nodes (moved dst (last (dst # ds)) src (hd ss) (last ss)) s)"
proof -
  have "last (dst # ds) \<in> set (dst # ds)"
    by (rule last_in_set) simp
  moreover have "hd ss \<in> set ss" "last ss \<in> set ss"
    using ne by simp_all
  ultimately have "last (dst # ds) \<in> dom (ls_nodes s)" "hd ss \<in> dom (ls_nodes s)" "last ss \<in> dom (ls_nodes s)"
    "src \<in> dom (ls_nodes s)" "dst \<in> dom (ls_nodes s)" and "src \<noteq> last (dst # ds)" "dst \<noteq> hd ss" "src \<noteq> hd ss" "dst \<noteq> src"
    using slist_rep_dom [OF d] slist_rep_dom [OF r] dis r by (auto simp: slist_rep_def)
  moreover have "nx (ls_nodes s) src = Some (hd ss)" "pv (ls_nodes s) src = Some (last ss)"
    "pv (ls_nodes s) dst = Some (last (dst # ds))"
    using slist_rep_next [OF r] slist_rep_prev [OF r] slist_rep_prev [OF d] ne by simp_all
  ultimately show ?thesis
    using slist_is_empty_rep [OF r] ne
    by (simp add: slist_move_tail_def slist_init_def access_ok moved_def comp_def del: last.simps)
qed

lemma moved_rep:
  assumes d: "slist_rep h dst ds" and r: "slist_rep h src ss" and ne: "ss \<noteq> []"
    and dis: "set (dst # ds) \<inter> set (src # ss) = {}"
    and dp: "dp = last (dst # ds)" and h': "h' = moved dst dp src (hd ss) (last ss) h"
  shows "slist_rep h' dst (ds @ ss)" and "slist_rep h' src []"
proof -
  have m: "dp \<in> set (dst # ds)" "hd ss \<in> set ss" "last ss \<in> set ss"
    using ne unfolding dp by (simp_all del: last.simps set_simps)
  have dd: "distinct (dst # ds)" "distinct (src # ss)"
    using d r by (simp_all add: slist_rep_def)
  have doms: "dp \<in> dom h" "hd ss \<in> dom h" "last ss \<in> dom h" "src \<in> dom h" "dst \<in> dom h"
    using slist_rep_dom [OF d] slist_rep_dom [OF r] m by auto
  have ch: "chain h (dst # ds)" "chain h (src # ss)"
    using slist_rep_split [of h dst ds "[]"] slist_rep_split [of h src ss "[]"] d r by simp_all
  then have "chain h ss"
    using ne by (cases ss) auto
  have ends: "dp \<notin> set (butlast (dst # ds))" "hd ss \<notin> set (tl ss)" "last ss \<notin> set (butlast ss)"
    using ends_of_split(1) [of dst ds "[]"] ends_of_split(1) [of "hd ss" "tl ss" "[]"] dd ne
    by (simp_all add: dp del: last.simps butlast.simps) (cases ss; simp)
  have sub: "set (butlast (dst # ds)) \<subseteq> set (dst # ds)" "set (butlast ss) \<subseteq> set ss" "set (tl ss) \<subseteq> set ss"
    using ne by (auto dest: in_set_butlastD list.set_sel(2))
  have "nx h' y = nx h y" if "y \<in> set (butlast (dst # ds))" for y
    using that dis m ends(1) sub(1) unfolding h' moved_def by (auto simp del: butlast.simps)
  moreover have "pv h' y = pv h y" if "y \<in> set ds" for y
    using that dis m dd unfolding h' moved_def by auto
  ultimately have f1: "chain h' (dst # ds)"
    using ch(1) by (subst chain_frame [where h = h]) (simp_all del: chain.simps butlast.simps)
  have "nx h' y = nx h y" if "y \<in> set (butlast ss)" for y
    using that dis m ends(3) sub(2) dd unfolding h' moved_def by auto
  moreover have "pv h' y = pv h y" if "y \<in> set (tl ss)" for y
    using that dis m ends(2) sub(3) dd unfolding h' moved_def by auto
  ultimately have f2: "chain h' ss"
    using \<open>chain h ss\<close> by (subst chain_frame [where h = h]) simp_all
  note f1 f2
  moreover have "nx h' (last ss) = Some dst" "pv h' dst = Some (last ss)" "nx h' dp = Some (hd ss)" "pv h' (hd ss) = Some dp"
    using dis m doms dd unfolding h' by (auto simp: moved_def simp del: last.simps)
  ultimately show "slist_rep h' dst (ds @ ss)"
    using dd dis ne by (subst slist_rep_split) (auto simp: chain_snoc dp simp del: last.simps chain.simps)
  show "slist_rep h' src []"
    using doms dis m dd by (auto simp: slist_rep_def cyc_def h' moved_def)
qed

subsection \<open>The operations on objects\<close>

text \<open>
  What an operation leaves alone: the headers, the set of nodes, and every node outside \<open>A\<close>.
\<close>

definition same_outside :: "u64 set \<Rightarrow> lstate \<Rightarrow> lstate \<Rightarrow> bool" where
  "same_outside A s s' \<longleftrightarrow>
     ls_lists s' = ls_lists s \<and> dom (ls_nodes s') = dom (ls_nodes s) \<and> (\<forall>a. a \<notin> A \<longrightarrow> ls_nodes s' a = ls_nodes s a)"

definition off_of :: "lstate \<Rightarrow> u64 \<Rightarrow> u64" where
  "off_of s l = l_offset (the (ls_lists s l))"

definition nodes_of :: "lstate \<Rightarrow> u64 \<Rightarrow> u64 set \<Rightarrow> u64 set" where
  "nodes_of s l A = insert (list_sentinel l) ((\<lambda>ob. ob + off_of s l) ` A)"

text \<open>An object that can be inserted: it exists, its node is not the sentinel, and it is not at address 0.\<close>

definition can_insert :: "lstate \<Rightarrow> u64 \<Rightarrow> u64 \<Rightarrow> bool" where
  "can_insert s l ob \<longleftrightarrow> ob \<noteq> NULL \<and> ob + off_of s l \<in> dom (ls_nodes s) \<and> ob + off_of s l \<noteq> list_sentinel l"

lemma same_outside_trans:
  "same_outside A s t \<Longrightarrow> same_outside B t u \<Longrightarrow> A \<subseteq> C \<Longrightarrow> B \<subseteq> C \<Longrightarrow> same_outside C s u"
  by (simp add: same_outside_def) (metis subsetD)

lemma same_outside_refl [simp]: "same_outside A s s"
  by (simp add: same_outside_def)

lemma same_outside_mono: "same_outside A s t \<Longrightarrow> A \<subseteq> B \<Longrightarrow> same_outside B s t"
  by (auto simp: same_outside_def)

lemma same_outside_off [simp]: "same_outside A s t \<Longrightarrow> off_of t l = off_of s l"
  by (simp add: same_outside_def off_of_def)

lemma same_outside_can_insert: "same_outside A s t \<Longrightarrow> can_insert t l = can_insert s l"
  by (simp add: can_insert_def fun_eq_iff) (simp add: same_outside_def)

lemma same_outside_link: "p \<in> A \<Longrightarrow> c \<in> A \<Longrightarrow> new \<in> A \<Longrightarrow> same_outside A s (on_nodes (link p c new) s)"
  unfolding same_outside_def link_def on_nodes_simps by (simp, auto simp: put_next_def put_prev_def)

lemma same_outside_unlink: "p \<in> A \<Longrightarrow> x \<in> A \<Longrightarrow> c \<in> A \<Longrightarrow> same_outside A s (on_nodes (unlink p x c) s)"
  unfolding same_outside_def unlink_def on_nodes_simps by (simp, auto simp: put_next_def put_prev_def)

lemma same_outside_moved:
  "dst \<in> A \<Longrightarrow> dp \<in> A \<Longrightarrow> src \<in> A \<Longrightarrow> sn \<in> A \<Longrightarrow> sp \<in> A \<Longrightarrow> same_outside A s (on_nodes (moved dst dp src sn sp) s)"
  unfolding same_outside_def moved_def on_nodes_simps by (simp, auto simp: put_next_def put_prev_def)

lemma list_rep_iff:
  "list_rep s l os \<longleftrightarrow>
     l \<in> dom (ls_lists s) \<and> NULL \<notin> set os \<and>
     slist_rep (ls_nodes s) (list_sentinel l) (map (\<lambda>ob. ob + off_of s l) os)"
  by (auto simp: list_rep_def off_of_def)

lemma list_rep_distinct: "list_rep s l os \<Longrightarrow> distinct os"
  by (auto simp: list_rep_iff slist_rep_def distinct_map)

lemma list_rep_null: "list_rep s l os \<Longrightarrow> NULL \<notin> set os"
  by (simp add: list_rep_iff)

text \<open>A list none of whose nodes are among those an operation touched is still the same list.\<close>

lemma list_rep_outside:
  assumes "list_rep s l os" and "same_outside A s t" and "A \<inter> nodes_of s l (set os) = {}"
  shows "list_rep t l os"
proof -
  have "slist_rep (ls_nodes t) (list_sentinel l) (map (\<lambda>ob. ob + off_of s l) os)"
    using assms by (subst slist_rep_frame [where h = "ls_nodes s"]) (auto simp: list_rep_iff same_outside_def nodes_of_def)
  then show ?thesis
    using assms by (auto simp: list_rep_iff) (auto simp: same_outside_def)
qed

lemma obj2node_ok: "l \<in> dom (ls_lists s) \<Longrightarrow> list_obj2node l ob s = (Inr (ob + off_of s l), s)"
  and node2obj_ok: "l \<in> dom (ls_lists s) \<Longrightarrow> list_node2obj l n s = (Inr (n - off_of s l), s)"
  by (auto simp: list_obj2node_def list_node2obj_def get_hdr_def andthen_def off_of_def)

lemma list_linked:
  assumes r: "list_rep s l (us @ vs)" and new: "can_insert s l ob" "ob \<notin> set (us @ vs)"
    and p: "p = last (list_sentinel l # map (\<lambda>x. x + off_of s l) us)"
    and c: "c = hd (map (\<lambda>x. x + off_of s l) vs @ [list_sentinel l])"
    and s': "s' = on_nodes (link p c (ob + off_of s l)) s"
  shows "slist_insert_after p (ob + off_of s l) s = (Inr (), s')" "slist_insert_before c (ob + off_of s l) s = (Inr (), s')"
    "list_rep s' l (us @ ob # vs)" "same_outside (nodes_of s l (set (us @ ob # vs))) s s'"
proof -
  let ?m = "map (\<lambda>x. x + off_of s l)"
  have r': "slist_rep (ls_nodes s) (list_sentinel l) (?m us @ ?m vs)"
    using r by (simp add: list_rep_iff)
  have n: "ob + off_of s l \<in> dom (ls_nodes s)" "ob + off_of s l \<notin> set (list_sentinel l # ?m us @ ?m vs)"
    using new by (auto simp: can_insert_def)
  show "slist_insert_after p (ob + off_of s l) s = (Inr (), s')" "slist_insert_before c (ob + off_of s l) s = (Inr (), s')"
    using slist_insert_after_rep [OF r' n] by (simp_all add: p c s' del: last.simps)
  have o: "off_of s' l = off_of s l"
    by (simp add: s' off_of_def)
  show "list_rep s' l (us @ ob # vs)"
    using slist_rep_link [OF r' n p c] r new unfolding list_rep_iff o by (auto simp: s' can_insert_def)
  have "p \<in> set (list_sentinel l # ?m us)" "c \<in> set (?m vs @ [list_sentinel l])"
    unfolding p c by (rule last_in_set hd_in_set; simp)+
  then show "same_outside (nodes_of s l (set (us @ ob # vs))) s s'"
    unfolding s' by (intro same_outside_link) (auto simp: nodes_of_def)
qed

lemma list_unlinked:
  assumes r: "list_rep s l (us @ ob # vs)"
  shows "\<exists>s'. slist_remove (ob + off_of s l) s = (Inr (), s') \<and> list_rep s' l (us @ vs) \<and>
    same_outside (nodes_of s l (set (us @ ob # vs))) s s'"
proof -
  let ?m = "map (\<lambda>x. x + off_of s l)"
  define p where "p = last (list_sentinel l # ?m us)"
  define c where "c = hd (?m vs @ [list_sentinel l])"
  define s' where "s' = on_nodes (unlink p (ob + off_of s l) c) s"
  have r': "slist_rep (ls_nodes s) (list_sentinel l) (?m us @ (ob + off_of s l) # ?m vs)"
    using r by (simp add: list_rep_iff)
  have o: "off_of s' l = off_of s l"
    by (simp add: s'_def off_of_def)
  have "slist_remove (ob + off_of s l) s = (Inr (), s')"
    unfolding s'_def p_def c_def by (rule slist_remove_rep [OF r'])
  moreover have "list_rep s' l (us @ vs)"
    using slist_rep_unlink [OF r' p_def c_def] r unfolding list_rep_iff o by (simp add: s'_def)
  moreover have "p \<in> set (list_sentinel l # ?m us)" "c \<in> set (?m vs @ [list_sentinel l])"
    unfolding p_def c_def by (rule last_in_set hd_in_set; simp)+
  then have "same_outside (nodes_of s l (set (us @ ob # vs))) s s'"
    unfolding s'_def by (intro same_outside_unlink) (auto simp: nodes_of_def)
  ultimately show ?thesis
    by blast
qed

lemma list_insert_after_rep:
  assumes r: "list_rep s l (us @ ref # vs)" and new: "can_insert s l ob" "ob \<notin> set (us @ ref # vs)"
  shows "\<exists>s'. list_insert_after l ref ob s = (Inr (), s') \<and> list_rep s' l (us @ ref # ob # vs) \<and>
    same_outside (nodes_of s l (set (us @ ref # ob # vs))) s s'"
proof -
  have "l \<in> dom (ls_lists s)"
    using r by (simp add: list_rep_iff)
  then show ?thesis
    using list_linked [of s l "us @ [ref]" vs ob] r new by (simp add: list_insert_after_def obj2node_ok)
qed

lemma list_insert_before_rep:
  assumes r: "list_rep s l (us @ ref # vs)" and new: "can_insert s l ob" "ob \<notin> set (us @ ref # vs)"
  shows "\<exists>s'. list_insert_before l ref ob s = (Inr (), s') \<and> list_rep s' l (us @ ob # ref # vs) \<and>
    same_outside (nodes_of s l (set (us @ ob # ref # vs))) s s'"
proof -
  have "l \<in> dom (ls_lists s)"
    using r by (simp add: list_rep_iff)
  then show ?thesis
    using list_linked [of s l us "ref # vs" ob] r new by (simp add: list_insert_before_def obj2node_ok)
qed

lemma list_insert_head_rep:
  assumes r: "list_rep s l os" and new: "can_insert s l ob" "ob \<notin> set os"
  shows "\<exists>s'. list_insert_head l ob s = (Inr (), s') \<and> list_rep s' l (ob # os) \<and>
    same_outside (nodes_of s l (set (ob # os))) s s'"
proof -
  have "l \<in> dom (ls_lists s)"
    using r by (simp add: list_rep_iff)
  then show ?thesis
    using list_linked [of s l "[]" os ob] r new by (simp add: list_insert_head_def obj2node_ok)
qed

lemma list_insert_tail_rep:
  assumes r: "list_rep s l os" and new: "can_insert s l ob" "ob \<notin> set os"
  shows "\<exists>s'. list_insert_tail l ob s = (Inr (), s') \<and> list_rep s' l (os @ [ob]) \<and>
    same_outside (nodes_of s l (set (os @ [ob]))) s s'"
proof -
  have "l \<in> dom (ls_lists s)"
    using r by (simp add: list_rep_iff)
  then show ?thesis
    using list_linked [of s l os "[]" ob] r new by (simp add: list_insert_tail_def obj2node_ok)
qed

lemma list_remove_rep:
  assumes r: "list_rep s l (us @ ob # vs)"
  shows "\<exists>s'. list_remove l ob s = (Inr (), s') \<and> list_rep s' l (us @ vs) \<and>
    same_outside (nodes_of s l (set (us @ ob # vs))) s s'"
proof -
  have "l \<in> dom (ls_lists s)"
    using r by (simp add: list_rep_iff)
  then show ?thesis
    using list_unlinked [OF r] by (simp add: list_remove_def obj2node_ok)
qed

lemma list_is_empty_rep: "list_rep s l os \<Longrightarrow> list_is_empty l s = (Inr (os = []), s)"
  using slist_is_empty_rep [of s "list_sentinel l" "map (\<lambda>ob. ob + off_of s l) os"]
  by (simp add: list_rep_iff list_is_empty_def)

lemma list_remove_head_rep:
  assumes r: "list_rep s l (ob # os)"
  shows "\<exists>s'. list_remove_head l s = (Inr ob, s') \<and> list_rep s' l os \<and>
    same_outside (nodes_of s l (set (ob # os))) s s'"
proof -
  have l: "l \<in> dom (ls_lists s)" and n: "nx (ls_nodes s) (list_sentinel l) = Some (ob + off_of s l)"
    using r slist_rep_next [of "ls_nodes s" "list_sentinel l"] by (auto simp: list_rep_iff)
  obtain s' where s': "slist_remove (ob + off_of s l) s = (Inr (), s')" "list_rep s' l os"
    "same_outside (nodes_of s l (set (ob # os))) s s'"
    using list_unlinked [of s l "[]" ob os] r by auto
  then have "l \<in> dom (ls_lists s')" "off_of s' l = off_of s l"
    by (simp_all add: list_rep_iff)
  then show ?thesis
    using l n s' list_is_empty_rep [OF r]
    by (simp add: list_remove_head_def list_is_empty_def slist_head_def access_ok node2obj_ok)
qed

lemma list_remove_tail_rep:
  assumes r: "list_rep s l (os @ [ob])"
  shows "\<exists>s'. list_remove_tail l s = (Inr ob, s') \<and> list_rep s' l os \<and>
    same_outside (nodes_of s l (set (os @ [ob]))) s s'"
proof -
  have l: "l \<in> dom (ls_lists s)" and n: "pv (ls_nodes s) (list_sentinel l) = Some (ob + off_of s l)"
    using r slist_rep_prev [of "ls_nodes s" "list_sentinel l"] by (auto simp: list_rep_iff)
  obtain s' where s': "slist_remove (ob + off_of s l) s = (Inr (), s')" "list_rep s' l os"
    "same_outside (nodes_of s l (set (os @ [ob]))) s s'"
    using list_unlinked [of s l os ob "[]"] r by auto
  then have "l \<in> dom (ls_lists s')" "off_of s' l = off_of s l"
    by (simp_all add: list_rep_iff)
  then show ?thesis
    using l n s' list_is_empty_rep [OF r]
    by (simp add: list_remove_tail_def list_is_empty_def slist_tail_def access_ok node2obj_ok)
qed

lemma list_remove_empty:
  assumes "list_rep s l []"
  shows "list_remove_head l s = (Inr NULL, s)" and "list_remove_tail l s = (Inr NULL, s)"
  using list_is_empty_rep [OF assms] by (simp_all add: list_remove_head_def list_remove_tail_def list_is_empty_def)

text \<open>The element behind the first occurrence of \<open>r\<close>; \<open>NULL\<close> stands for the sentinel.\<close>

fun behind :: "u64 \<Rightarrow> u64 list \<Rightarrow> u64" where
  "behind r (x # y # ys) = (if x = r then y else behind r (y # ys))"
| "behind r ys = NULL"

lemma behind_split: "r \<notin> set us \<Longrightarrow> behind r (us @ r # vs) = (case vs of [] \<Rightarrow> NULL | v # _ \<Rightarrow> v)"
proof (induction us)
  case Nil
  then show ?case by (cases vs) auto
next
  case (Cons u us)
  then show ?case by (cases us) auto
qed

lemma list_ref_rep:
  "list_rep s l os \<Longrightarrow> list_ref l r s = (Inr (if r = NULL then list_sentinel l else r + off_of s l), s)"
  by (simp add: list_ref_def list_rep_iff obj2node_ok)

lemma split_behind:
  assumes "r = NULL \<or> r \<in> set os" and "NULL \<notin> set os"
  obtains (start) "r = NULL" | (item) us vs where "r \<noteq> NULL" "os = us @ r # vs" "r \<notin> set us"
  using assms by (metis split_list_first)

lemma list_next_rep:
  assumes r: "list_rep s l os" and ref: "r = NULL \<or> r \<in> set os"
  shows "list_next l r s = (Inr (behind r (NULL # os)), s)"
proof -
  let ?f = "\<lambda>x. x + off_of s l"
  have l: "l \<in> dom (ls_lists s)" and sr: "slist_rep (ls_nodes s) (list_sentinel l) (map ?f os)" and nn: "NULL \<notin> set os"
    using r by (simp_all add: list_rep_iff)
  obtain ws vs where os: "os = ws @ vs" and b: "behind r (NULL # os) = (case vs of [] \<Rightarrow> NULL | v # _ \<Rightarrow> v)"
    and la: "last (list_sentinel l # map ?f ws) = (if r = NULL then list_sentinel l else ?f r)"
    using ref nn
  proof (cases rule: split_behind)
    case start
    then show thesis
      using that [of "[]" os] behind_split [of NULL "[]" os] by simp
  next
    case (item us vs)
    then show thesis
      using that [of "us @ [r]" vs] behind_split [of r "NULL # us" vs] by simp
  qed
  define a where "a = (if r = NULL then list_sentinel l else ?f r)"
  have lr: "list_ref l r s = (Inr a, s)"
    using list_ref_rep [OF r] by (simp add: a_def)
  have "nx (ls_nodes s) a = Some (hd (map ?f vs @ [list_sentinel l]))"
    using slist_rep_neighbours(1) [of "ls_nodes s" "list_sentinel l" "map ?f ws" "map ?f vs"] sr os la by (simp add: a_def)
  moreover have "list_sentinel l \<notin> ?f ` set vs"
    using sr os by (auto simp: slist_rep_def)
  then have "\<forall>x \<in> set vs. ?f x \<noteq> list_sentinel l"
    by (metis image_eqI)
  ultimately show ?thesis
    using l b unfolding list_next_def andthen_Inr [of "list_ref l r", OF lr]
    by (cases vs) (simp_all add: get_next_ok node2obj_ok a_def [symmetric])
qed

lemma list_prev_rep:
  assumes r: "list_rep s l os" and ref: "r = NULL \<or> r \<in> set os"
  shows "list_prev l r s = (Inr (behind r (NULL # rev os)), s)"
proof -
  let ?f = "\<lambda>x. x + off_of s l"
  have l: "l \<in> dom (ls_lists s)" and sr: "slist_rep (ls_nodes s) (list_sentinel l) (map ?f os)" and nn: "NULL \<notin> set (rev os)"
    using r by (simp_all add: list_rep_iff)
  have ref': "r = NULL \<or> r \<in> set (rev os)"
    using ref by simp
  obtain ws vs where os: "os = rev vs @ ws" and b: "behind r (NULL # rev os) = (case vs of [] \<Rightarrow> NULL | v # _ \<Rightarrow> v)"
    and la: "hd (map ?f ws @ [list_sentinel l]) = (if r = NULL then list_sentinel l else ?f r)"
    using ref' nn
  proof (cases rule: split_behind)
    case start
    then show thesis
      using that [of "rev os" "[]"] behind_split [of NULL "[]" "rev os"] by simp
  next
    case (item us vs)
    then have "os = rev vs @ r # rev us"
      by (metis append.assoc append_Cons append_Nil rev.simps(2) rev_append rev_rev_ident)
    then show thesis
      using that [of vs "r # rev us"] behind_split [of r "NULL # us" vs] item by simp
  qed
  define a where "a = (if r = NULL then list_sentinel l else ?f r)"
  have lr: "list_ref l r s = (Inr a, s)"
    using list_ref_rep [OF r] by (simp add: a_def)
  have "pv (ls_nodes s) a = Some (last (list_sentinel l # map ?f (rev vs)))"
    using slist_rep_neighbours(2) [of "ls_nodes s" "list_sentinel l" "map ?f (rev vs)" "map ?f ws"] sr os la by (simp add: a_def)
  moreover have "list_sentinel l \<notin> ?f ` set vs"
    using sr os by (auto simp: slist_rep_def)
  then have "\<forall>x \<in> set vs. ?f x \<noteq> list_sentinel l"
    by (metis image_eqI)
  ultimately show ?thesis
    using l b unfolding list_prev_def andthen_Inr [of "list_ref l r", OF lr]
    by (cases vs) (simp_all add: get_prev_ok node2obj_ok a_def [symmetric])
qed

lemma list_move_tail_rep:
  assumes d: "list_rep s dst ds" and r: "list_rep s src ss" and h: "ls_lists s dst = ls_lists s src"
    and dis: "nodes_of s dst (set ds) \<inter> nodes_of s src (set ss) = {}"
  shows "\<exists>s'. list_move_tail dst src s = (Inr (), s') \<and> list_rep s' dst (ds @ ss) \<and> list_rep s' src [] \<and>
    same_outside (nodes_of s dst (set ds) \<union> nodes_of s src (set ss)) s s'"
proof -
  define d' where "d' = list_sentinel dst"
  define s0 where "s0 = list_sentinel src"
  define ds' where "ds' = map (\<lambda>x. x + off_of s dst) ds"
  define ss' where "ss' = map (\<lambda>x. x + off_of s dst) ss"
  have off: "off_of s src = off_of s dst"
    using h by (simp add: off_of_def)
  have rd: "slist_rep (ls_nodes s) d' ds'" and rs: "slist_rep (ls_nodes s) s0 ss'"
    and hd: "dst \<in> dom (ls_lists s)" "src \<in> dom (ls_lists s)" and nn: "NULL \<notin> set ds" "NULL \<notin> set ss"
    using d r by (simp_all add: list_rep_iff off ds'_def ss'_def d'_def s0_def)
  have dis': "set (d' # ds') \<inter> set (s0 # ss') = {}" "nodes_of s dst (set ds) = set (d' # ds')" "nodes_of s src (set ss) = set (s0 # ss')"
    using dis by (auto simp: nodes_of_def off ds'_def ss'_def d'_def s0_def)
  have mv: "list_move_tail dst src s = slist_move_tail d' s0 s"
    using hd h by (auto simp: list_move_tail_def get_hdr_def andthen_def d'_def s0_def)
  show ?thesis
  proof (cases "ss = []")
    case True
    then have "slist_is_empty s0 s = (Inr True, s)"
      using slist_is_empty_rep [OF rs] by (simp add: ss'_def)
    then show ?thesis
      using mv d r True by (simp add: slist_move_tail_def)
  next
    case False
    then have ne: "ss' \<noteq> []"
      by (simp add: ss'_def)
    define s' where "s' = on_nodes (moved d' (last (d' # ds')) s0 (hd ss') (last ss')) s"
    have "slist_move_tail d' s0 s = (Inr (), s')"
      unfolding s'_def by (rule slist_move_tail_rep [OF rd rs ne dis'(1)])
    moreover have "slist_rep (ls_nodes s') d' (ds' @ ss')" "slist_rep (ls_nodes s') s0 []"
      unfolding s'_def on_nodes_simps by (rule moved_rep [OF rd rs ne dis'(1) refl refl])+
    moreover have "off_of s' dst = off_of s dst" "off_of s' src = off_of s dst" "dom (ls_lists s') = dom (ls_lists s)"
      using off by (simp_all add: s'_def off_of_def)
    moreover have "last (d' # ds') \<in> set (d' # ds')" "hd ss' \<in> set ss'" "last ss' \<in> set ss'"
      using ne by (simp_all del: last.simps set_simps)
    then have "same_outside (set (d' # ds') \<union> set (s0 # ss')) s s'"
      unfolding s'_def by (intro same_outside_moved) (auto simp del: last.simps)
    ultimately show ?thesis
      using mv nn hd by (auto simp: list_rep_iff dis'(2,3) ds'_def [symmetric] ss'_def [symmetric] d'_def [symmetric] s0_def [symmetric])
  qed
qed

lemma list_create_rep:
  assumes "l \<in> dom (ls_lists s)" and "list_sentinel l \<in> dom (ls_nodes s)"
    and "\<not> sz < offset + sizeof_list_node"
  shows "\<exists>s'. list_create l sz offset s = (Inr (), s') \<and> list_rep s' l [] \<and> ls_lists s' = (ls_lists s)(l \<mapsto> \<lparr>l_offset = offset, l_size = sz\<rparr>) \<and>
    dom (ls_nodes s') = dom (ls_nodes s) \<and> (\<forall>a. a \<noteq> list_sentinel l \<longrightarrow> ls_nodes s' a = ls_nodes s a)"
  using assms
  by (auto simp: list_create_def get_hdr_def slist_init_def set_next_ok set_prev_ok list_rep_iff slist_rep_def cyc_def domIff
      put_next_def put_prev_def andthen_def nx_def pv_def split: if_splits)

subsection \<open>Refinement of sequences\<close>

datatype list_op =
    Insert_Head u64 | Insert_Tail u64 | Insert_After u64 u64 | Insert_Before u64 u64
  | Remove u64 | Remove_Head | Remove_Tail | Next u64 | Prev u64

definition answering :: "(lstate, unit) cfun \<Rightarrow> (lstate, u64) cfun" where
  "answering f = andthen f (\<lambda>_. cret NULL)"

fun list_do :: "u64 \<Rightarrow> list_op \<Rightarrow> (lstate, u64) cfun" where
  "list_do l (Insert_Head ob) = answering (list_insert_head l ob)"
| "list_do l (Insert_Tail ob) = answering (list_insert_tail l ob)"
| "list_do l (Insert_After r ob) = answering (list_insert_after l r ob)"
| "list_do l (Insert_Before r ob) = answering (list_insert_before l r ob)"
| "list_do l (Remove ob) = answering (list_remove l ob)"
| "list_do l Remove_Head = list_remove_head l"
| "list_do l Remove_Tail = list_remove_tail l"
| "list_do l (Next r) = list_next l r"
| "list_do l (Prev r) = list_prev l r"

fun put_after :: "u64 \<Rightarrow> u64 \<Rightarrow> u64 list \<Rightarrow> u64 list" where
  "put_after r ob [] = []"
| "put_after r ob (x # xs) = (if x = r then x # ob # xs else x # put_after r ob xs)"

fun put_before :: "u64 \<Rightarrow> u64 \<Rightarrow> u64 list \<Rightarrow> u64 list" where
  "put_before r ob [] = []"
| "put_before r ob (x # xs) = (if x = r then ob # x # xs else x # put_before r ob xs)"

fun seq_do :: "list_op \<Rightarrow> u64 list \<Rightarrow> u64 \<times> u64 list" where
  "seq_do (Insert_Head ob) os = (NULL, ob # os)"
| "seq_do (Insert_Tail ob) os = (NULL, os @ [ob])"
| "seq_do (Insert_After r ob) os = (NULL, put_after r ob os)"
| "seq_do (Insert_Before r ob) os = (NULL, put_before r ob os)"
| "seq_do (Remove ob) os = (NULL, remove1 ob os)"
| "seq_do Remove_Head os = (if os = [] then (NULL, []) else (hd os, tl os))"
| "seq_do Remove_Tail os = (if os = [] then (NULL, []) else (last os, butlast os))"
| "seq_do (Next r) os = (behind r (NULL # os), os)"
| "seq_do (Prev r) os = (behind r (NULL # rev os), os)"

text \<open>
  The calls that make sense: an object that is inserted is not in the list yet, and the object that is
  named otherwise is in the list, or the null pointer where that means the ends of the list.
\<close>

fun legal :: "(u64 \<Rightarrow> bool) \<Rightarrow> list_op \<Rightarrow> u64 list \<Rightarrow> bool" where
  "legal ok (Insert_Head ob) os \<longleftrightarrow> ok ob \<and> ob \<notin> set os"
| "legal ok (Insert_Tail ob) os \<longleftrightarrow> ok ob \<and> ob \<notin> set os"
| "legal ok (Insert_After r ob) os \<longleftrightarrow> ok ob \<and> ob \<notin> set os \<and> r \<in> set os"
| "legal ok (Insert_Before r ob) os \<longleftrightarrow> ok ob \<and> ob \<notin> set os \<and> r \<in> set os"
| "legal ok (Remove ob) os \<longleftrightarrow> ob \<in> set os"
| "legal ok Remove_Head os \<longleftrightarrow> True"
| "legal ok Remove_Tail os \<longleftrightarrow> True"
| "legal ok (Next r) os \<longleftrightarrow> r = NULL \<or> r \<in> set os"
| "legal ok (Prev r) os \<longleftrightarrow> r = NULL \<or> r \<in> set os"

fun op_objs :: "list_op \<Rightarrow> u64 set" where
  "op_objs (Insert_Head ob) = {ob}"
| "op_objs (Insert_Tail ob) = {ob}"
| "op_objs (Insert_After r ob) = {ob}"
| "op_objs (Insert_Before r ob) = {ob}"
| "op_objs _ = {}"

primrec list_dos :: "u64 \<Rightarrow> list_op list \<Rightarrow> (lstate, u64 list) cfun" where
  "list_dos l [] = cret []"
| "list_dos l (c # cs) = andthen (list_do l c) (\<lambda>a. andthen (list_dos l cs) (\<lambda>as. cret (a # as)))"

primrec seq_dos :: "list_op list \<Rightarrow> u64 list \<Rightarrow> u64 list \<times> u64 list" where
  "seq_dos [] os = ([], os)"
| "seq_dos (c # cs) os = (let (a, os') = seq_do c os; (as, os'') = seq_dos cs os' in (a # as, os''))"

primrec legals :: "(u64 \<Rightarrow> bool) \<Rightarrow> list_op list \<Rightarrow> u64 list \<Rightarrow> bool" where
  "legals ok [] os \<longleftrightarrow> True"
| "legals ok (c # cs) os \<longleftrightarrow> legal ok c os \<and> legals ok cs (snd (seq_do c os))"

lemma put_split:
  "r \<notin> set us \<Longrightarrow> put_after r ob (us @ r # vs) = us @ r # ob # vs"
  "r \<notin> set us \<Longrightarrow> put_before r ob (us @ r # vs) = us @ ob # r # vs"
  "r \<notin> set us \<Longrightarrow> remove1 r (us @ r # vs) = us @ vs"
  by (induction us) (auto simp: remove1_append)

lemma seq_do_objs: "legal ok c os \<Longrightarrow> set (snd (seq_do c os)) \<subseteq> set os \<union> op_objs c"
proof (cases c)
  case (Remove ob)
  then show ?thesis by (auto dest: set_remove1_subset [THEN subsetD])
next
  case (Insert_After r ob)
  moreover have "set (put_after r ob os) \<subseteq> insert ob (set os)" by (induction os) auto
  ultimately show ?thesis by auto
next
  case (Insert_Before r ob)
  moreover have "set (put_before r ob os) \<subseteq> insert ob (set os)" by (induction os) auto
  ultimately show ?thesis by auto
qed (auto dest: in_set_butlastD list.set_sel(2) split: if_splits)

lemma list_do_refines:
  assumes r: "list_rep s l os" and ok: "legal (can_insert s l) c os"
  shows "\<exists>s'. list_do l c s = (Inr (fst (seq_do c os)), s') \<and> list_rep s' l (snd (seq_do c os)) \<and>
    same_outside (nodes_of s l (set os \<union> op_objs c)) s s'"
proof (cases c)
  case (Insert_Head ob)
  then show ?thesis
    using list_insert_head_rep [OF r, of ob] ok by (auto simp: answering_def)
next
  case (Insert_Tail ob)
  then show ?thesis
    using list_insert_tail_rep [OF r, of ob] ok by (auto simp: answering_def)
next
  case (Insert_After ref ob)
  then obtain us vs where "os = us @ ref # vs" "ref \<notin> set us"
    using ok by (auto dest: split_list_first)
  then show ?thesis
    using list_insert_after_rep [of s l us ref vs ob] r ok Insert_After by (auto simp: answering_def put_split insert_commute)
next
  case (Insert_Before ref ob)
  then obtain us vs where "os = us @ ref # vs" "ref \<notin> set us"
    using ok by (auto dest: split_list_first)
  then show ?thesis
    using list_insert_before_rep [of s l us ref vs ob] r ok Insert_Before by (auto simp: answering_def put_split insert_commute)
next
  case (Remove ob)
  then obtain us vs where "os = us @ ob # vs" "ob \<notin> set us"
    using ok by (auto dest: split_list_first)
  then show ?thesis
    using list_remove_rep [of s l us ob vs] r Remove by (auto simp: answering_def put_split)
next
  case Remove_Head
  then show ?thesis
    using list_remove_head_rep [of s l "hd os" "tl os"] list_remove_empty(1) [of s l] r by (cases os) auto
next
  case Remove_Tail
  then show ?thesis
    using list_remove_tail_rep [of s l "butlast os" "last os"] list_remove_empty(2) [of s l] r
    by (cases os rule: rev_cases) auto
next
  case (Next ref)
  then show ?thesis
    using list_next_rep [OF r] ok r by simp
next
  case (Prev ref)
  then show ?thesis
    using list_prev_rep [OF r] ok r by simp
qed

lemma list_dos_refines:
  assumes "list_rep s l os" and "legals (can_insert s l) cs os"
  shows "\<exists>s'. list_dos l cs s = (Inr (fst (seq_dos cs os)), s') \<and> list_rep s' l (snd (seq_dos cs os)) \<and>
    same_outside (nodes_of s l (set os \<union> \<Union> (op_objs ` set cs))) s s'"
  using assms
proof (induction cs arbitrary: s os)
  case Nil
  then show ?case by simp
next
  case (Cons c cs)
  let ?os = "snd (seq_do c os)"
  obtain t where t: "list_do l c s = (Inr (fst (seq_do c os)), t)" "list_rep t l ?os"
    "same_outside (nodes_of s l (set os \<union> op_objs c)) s t"
    using list_do_refines [of s l os c] Cons.prems by auto
  have "can_insert t l = can_insert s l" "nodes_of t l = nodes_of s l"
    using t(3) by (auto simp: same_outside_can_insert fun_eq_iff nodes_of_def)
  then obtain u where u: "list_dos l cs t = (Inr (fst (seq_dos cs ?os)), u)" "list_rep u l (snd (seq_dos cs ?os))"
    "same_outside (nodes_of s l (set ?os \<union> \<Union> (op_objs ` set cs))) t u"
    using Cons.IH [of t ?os] t(2) Cons.prems by auto
  have "set ?os \<subseteq> set os \<union> op_objs c"
    using seq_do_objs Cons.prems(2) by fastforce
  then have "same_outside (nodes_of s l (set os \<union> \<Union> (op_objs ` set (c # cs)))) s u"
    by (intro same_outside_trans [OF t(3) u(3)]) (auto simp: nodes_of_def)
  then show ?case
    using t u by (simp add: case_prod_beta Let_def)
qed

subsection \<open>Walks\<close>

lemma behind_Cons: "r \<notin> set us \<Longrightarrow> behind r (us @ r # v # vs) = v" and behind_last: "r \<notin> set us \<Longrightarrow> behind r (us @ [r]) = NULL"
  by (simp_all add: behind_split)

text \<open>A body that leaves the list alone: the loop visits every object once, in order, and ends.\<close>

lemma obj_loop_next:
  assumes r: "list_rep s l os" and b: "\<And>x t. list_rep t l os \<Longrightarrow> \<exists>t'. body x t = (Inr (), t') \<and> list_rep t' l os"
    and d: "os = us @ vs" "length vs < fuel" and n: "node = (case vs of [] \<Rightarrow> NULL | v # _ \<Rightarrow> v)"
  shows "\<exists>s'. obj_loop list_next l body fuel node s = (Inr vs, s') \<and> list_rep s' l os"
  using r d n
proof (induction vs arbitrary: s us node fuel)
  case Nil
  then show ?case by (cases fuel) auto
next
  case (Cons v vs)
  obtain t where t: "body v s = (Inr (), t)" "list_rep t l os"
    using b Cons.prems(1) by blast
  have "v \<noteq> NULL" and v: "v \<notin> set (NULL # us)"
    using Cons.prems list_rep_distinct [OF Cons.prems(1)] by (auto simp: list_rep_iff)
  then have "list_next l v t = (Inr (case vs of [] \<Rightarrow> NULL | w # _ \<Rightarrow> w), t)"
    using list_next_rep [OF t(2), of v] Cons.prems(2) behind_split [of v "NULL # us" vs] by simp
  moreover obtain f where f: "fuel = Suc f" "length vs < f"
    using Cons.prems(3) by (cases fuel) auto
  moreover obtain u where "obj_loop list_next l body f (case vs of [] \<Rightarrow> NULL | w # _ \<Rightarrow> w) t = (Inr vs, u)" "list_rep u l os"
    using Cons.IH [OF t(2) _ f(2) refl, of "us @ [v]"] Cons.prems by auto
  ultimately show ?case
    using Cons.prems t \<open>v \<noteq> NULL\<close> by simp
qed

lemma obj_loop_prev:
  assumes r: "list_rep s l os" and b: "\<And>x t. list_rep t l os \<Longrightarrow> \<exists>t'. body x t = (Inr (), t') \<and> list_rep t' l os"
    and d: "rev os = us @ vs" "length vs < fuel" and n: "node = (case vs of [] \<Rightarrow> NULL | v # _ \<Rightarrow> v)"
  shows "\<exists>s'. obj_loop list_prev l body fuel node s = (Inr vs, s') \<and> list_rep s' l os"
  using r d n
proof (induction vs arbitrary: s us node fuel)
  case Nil
  then show ?case by (cases fuel) auto
next
  case (Cons v vs)
  obtain t where t: "body v s = (Inr (), t)" "list_rep t l os"
    using b Cons.prems(1) by blast
  have m: "set os = set (us @ v # vs)" "distinct (us @ v # vs)"
    using Cons.prems(2) list_rep_distinct [OF Cons.prems(1)] by (metis set_rev distinct_rev)+
  then have "v \<noteq> NULL" and v: "v \<notin> set (NULL # us)"
    using Cons.prems(1) by (auto simp: list_rep_iff)
  then have "list_prev l v t = (Inr (case vs of [] \<Rightarrow> NULL | w # _ \<Rightarrow> w), t)"
    using list_prev_rep [OF t(2), of v] m Cons.prems(2) behind_split [of v "NULL # us" vs] by simp
  moreover obtain f where f: "fuel = Suc f" "length vs < f"
    using Cons.prems(3) by (cases fuel) auto
  moreover obtain u where "obj_loop list_prev l body f (case vs of [] \<Rightarrow> NULL | w # _ \<Rightarrow> w) t = (Inr vs, u)" "list_rep u l os"
    using Cons.IH [OF t(2) _ f(2) refl, of "us @ [v]"] Cons.prems by auto
  ultimately show ?case
    using Cons.prems t \<open>v \<noteq> NULL\<close> by simp
qed

text \<open>
  A body that takes the object it is given out of the list, as the \<open>safe\<close> loops allow: every object is visited
  once, in order, and the list ends up empty.
\<close>

lemma obj_safe_loop_remove:
  assumes "list_rep s l os" and "length os < fuel"
    and "node = behind NULL (NULL # os)" and "nxt = behind node (NULL # os)"
  shows "\<exists>s'. obj_safe_loop list_next l (list_remove l) fuel node nxt s = (Inr os, s') \<and> list_rep s' l [] \<and>
    same_outside (nodes_of s l (set os)) s s'"
  using assms
proof (induction os arbitrary: s node nxt fuel)
  case Nil
  then show ?case by (cases fuel) auto
next
  case (Cons v vs)
  have nn: "v \<noteq> NULL" "NULL \<noteq> v" "NULL \<notin> set vs"
    using Cons.prems(1) by (auto simp: list_rep_iff)
  obtain t where t: "list_remove l v s = (Inr (), t)" "list_rep t l vs" "same_outside (nodes_of s l (set (v # vs))) s t"
    using list_remove_rep [of s l "[]" v vs] Cons.prems(1) by auto
  have node: "node = v" and nxt: "nxt = behind NULL (NULL # vs)"
    using Cons.prems(3,4) nn by (cases vs; simp)+
  have nx: "list_next l nxt t = (Inr (behind nxt (NULL # vs)), t)"
    using list_next_rep [OF t(2), of nxt] nxt by (cases vs) auto
  obtain f where f: "fuel = Suc f" "length vs < f"
    using Cons.prems(2) by (cases fuel) auto
  obtain u where u: "obj_safe_loop list_next l (list_remove l) f nxt (behind nxt (NULL # vs)) t = (Inr vs, u)"
    "list_rep u l []" "same_outside (nodes_of t l (set vs)) t u"
    using Cons.IH [OF t(2) f(2) nxt refl] by auto
  have "same_outside (nodes_of s l (set (v # vs))) s u"
    using t(3) u(3) by (auto simp: nodes_of_def intro: same_outside_trans)
  then show ?case
    using f t u nx nn node by simp
qed

subsection \<open>Queues of objects\<close>

text \<open>
  The contract that clients such as the task queue rely on: \<open>rep s xs\<close> says that the queue holds \<open>xs\<close>, \<open>ok s x\<close>
  that \<open>x\<close> may be put into it. Taking from an empty queue gives \<open>null\<close>.
\<close>

locale object_queue =
  fixes rep :: "'s \<Rightarrow> 'a list \<Rightarrow> bool"
    and ok :: "'s \<Rightarrow> 'a \<Rightarrow> bool"
    and put :: "'a \<Rightarrow> ('s, unit) cfun"
    and take :: "('s, 'a) cfun"
    and empty :: "('s, bool) cfun"
    and null :: 'a
  assumes put_rep: "rep s xs \<Longrightarrow> ok s x \<Longrightarrow> x \<notin> set xs \<Longrightarrow>
      \<exists>s'. put x s = (Inr (), s') \<and> rep s' (xs @ [x]) \<and> ok s' = ok s"
    and take_rep: "rep s (x # xs) \<Longrightarrow> \<exists>s'. take s = (Inr x, s') \<and> rep s' xs \<and> ok s' = ok s"
    and take_none: "rep s [] \<Longrightarrow> take s = (Inr null, s)"
    and empty_rep: "rep s xs \<Longrightarrow> empty s = (Inr (xs = []), s)"
    and null_notin: "rep s xs \<Longrightarrow> null \<notin> set xs"
    and rep_distinct: "rep s xs \<Longrightarrow> distinct xs"
begin

lemma take_cases:
  assumes "rep s xs"
  shows "\<exists>s'. take s = (Inr (if xs = [] then null else hd xs), s') \<and> rep s' (tl xs) \<and> ok s' = ok s"
  using assms take_none take_rep by (cases xs) auto

primrec puts :: "'a list \<Rightarrow> ('s, unit) cfun" where
  "puts [] = cret ()"
| "puts (x # xs) = andthen (put x) (\<lambda>_. puts xs)"

primrec takes :: "nat \<Rightarrow> ('s, 'a list) cfun" where
  "takes 0 = cret []"
| "takes (Suc n) = andthen take (\<lambda>x. andthen (takes n) (\<lambda>xs. cret (x # xs)))"

lemma puts_rep:
  assumes "rep s xs" and "distinct ys" and "\<forall>y \<in> set ys. ok s y \<and> y \<notin> set xs"
  shows "\<exists>s'. puts ys s = (Inr (), s') \<and> rep s' (xs @ ys) \<and> ok s' = ok s"
  using assms
proof (induction ys arbitrary: s xs)
  case Nil
  then show ?case by simp
next
  case (Cons y ys)
  then obtain t where t: "put y s = (Inr (), t)" "rep t (xs @ [y])" "ok t = ok s"
    using put_rep [of s xs y] by auto
  then show ?case
    using Cons.IH [OF t(2)] Cons.prems by auto
qed

lemma takes_rep:
  assumes "rep s (ys @ xs)"
  shows "\<exists>s'. takes (length ys) s = (Inr ys, s') \<and> rep s' xs \<and> ok s' = ok s"
  using assms
proof (induction ys arbitrary: s)
  case Nil
  then show ?case by simp
next
  case (Cons y ys)
  then obtain t where t: "take s = (Inr y, t)" "rep t (ys @ xs)" "ok t = ok s"
    using take_rep [of s y "ys @ xs"] by auto
  then show ?case
    using Cons.IH [OF t(2)] by auto
qed

text \<open>First in, first out.\<close>

lemma fifo:
  assumes "rep s []" and "distinct ys" and "\<forall>y \<in> set ys. ok s y"
  shows "\<exists>s'. andthen (puts ys) (\<lambda>_. takes (length ys)) s = (Inr ys, s') \<and> rep s' []"
proof -
  obtain t where "puts ys s = (Inr (), t)" "rep t ys"
    using puts_rep [OF assms(1,2)] assms(3) by auto
  then show ?thesis
    using takes_rep [of t ys "[]"] by auto
qed

end

interpretation lq: object_queue "\<lambda>s. list_rep s l" "\<lambda>s. can_insert s l" "list_insert_tail l" "list_remove_head l" "list_is_empty l" NULL
  for l
proof
  show "\<exists>s'. list_insert_tail l x s = (Inr (), s') \<and> list_rep s' l (xs @ [x]) \<and> can_insert s' l = can_insert s l"
    if "list_rep s l xs" "can_insert s l x" "x \<notin> set xs" for s xs x
    using list_insert_tail_rep [OF that] same_outside_can_insert by blast
  show "\<exists>s'. list_remove_head l s = (Inr x, s') \<and> list_rep s' l xs \<and> can_insert s' l = can_insert s l"
    if "list_rep s l (x # xs)" for s xs x
    using list_remove_head_rep [OF that] same_outside_can_insert by blast
qed (simp_all add: list_remove_empty list_is_empty_rep list_rep_distinct list_rep_null)

subsection \<open>Properties\<close>

text \<open>A memory with an empty list at 4096 and three objects whose nodes are 16 bytes into them.\<close>

definition demo_lists :: lstate where
  "demo_lists =
     \<lparr>ls_nodes = [4112 \<mapsto> \<lparr>ln_next = 4112, ln_prev = 4112\<rparr>, 8208 \<mapsto> \<lparr>ln_next = 0, ln_prev = 0\<rparr>,
                  8308 \<mapsto> \<lparr>ln_next = 0, ln_prev = 0\<rparr>, 8408 \<mapsto> \<lparr>ln_next = 7, ln_prev = 9\<rparr>],
      ls_lists = [4096 \<mapsto> \<lparr>l_offset = 16, l_size = 32\<rparr>]\<rparr>"

lemma demo_rep: "list_rep demo_lists 4096 []"
  by (simp add: list_rep_iff demo_lists_def slist_rep_def cyc_def list_sentinel_def nx_def pv_def)

lemma demo_ok: "can_insert demo_lists 4096 8192" "can_insert demo_lists 4096 8292" "can_insert demo_lists 4096 8392"
  by (simp_all add: can_insert_def demo_lists_def off_of_def list_sentinel_def NULL_def)

text \<open>
  C31. A list refines the sequence of its objects: any sequence of legal calls ends normally with the answers the same
  calls give on the sequence, leaves the list holding the resulting sequence, and changes no node but those of the
  list and of the objects that were inserted.
\<close>

theorem list_ops_refine:
  assumes "list_rep s l os" and "legals (can_insert s l) cs os"
  shows "\<exists>s'. list_dos l cs s = (Inr (fst (seq_dos cs os)), s') \<and> list_rep s' l (snd (seq_dos cs os)) \<and>
    same_outside (nodes_of s l (set os \<union> \<Union> (op_objs ` set cs))) s s'"
  by (rule list_dos_refines [OF assms])

theorem list_ops_refine_witness:
  "\<exists>s'. list_dos 4096 [Insert_Tail 8192, Insert_Head 8292, Insert_Before 8192 8392, Next 8392, Prev 0, Remove 8392, Remove_Head] demo_lists =
      (Inr [0, 0, 0, 8192, 8192, 0, 8292], s') \<and> list_rep s' 4096 [8192]"
proof -
  let ?cs = "[Insert_Tail 8192, Insert_Head 8292, Insert_Before 8192 8392, Next 8392, Prev 0, Remove 8392, Remove_Head]"
  have "legals (can_insert demo_lists 4096) ?cs []"
    by (simp add: demo_ok NULL_def)
  moreover have "seq_dos ?cs [] = ([0, 0, 0, 8192, 8192, 0, 8292], [8192])"
    by (simp add: NULL_def)
  ultimately show ?thesis
    using list_ops_refine [OF demo_rep, of ?cs] by auto
qed

lemma list_walk_each:
  assumes r: "list_rep s l os" and f: "length os < fuel"
    and b: "\<And>x t. list_rep t l os \<Longrightarrow> \<exists>t'. body x t = (Inr (), t') \<and> list_rep t' l os"
  shows "\<exists>t. list_for_each fuel l body s = (Inr os, t) \<and> list_rep t l os"
    and "\<exists>t. list_for_each_reverse fuel l body s = (Inr (rev os), t) \<and> list_rep t l os"
    and "\<exists>t. list_for_each_safe fuel l (list_remove l) s = (Inr os, t) \<and> list_rep t l [] \<and>
      same_outside (nodes_of s l (set os)) s t"
proof -
  have h: "list_head l s = (Inr (behind NULL (NULL # os)), s)" "list_tail l s = (Inr (behind NULL (NULL # rev os)), s)"
    using list_next_rep [OF r] list_prev_rep [OF r] by (simp_all add: list_head_def list_tail_def)
  have e: "behind NULL (NULL # xs) = (case xs of [] \<Rightarrow> NULL | v # _ \<Rightarrow> v)" for xs
    using behind_split [of NULL "[]" xs] by simp
  show "\<exists>t. list_for_each fuel l body s = (Inr os, t) \<and> list_rep t l os"
    using obj_loop_next [where us = "[]" and vs = os and fuel = fuel and body = body, OF r b] f h e by (simp add: list_for_each_def)
  show "\<exists>t. list_for_each_reverse fuel l body s = (Inr (rev os), t) \<and> list_rep t l os"
    using obj_loop_prev [where us = "[]" and vs = "rev os" and fuel = fuel and body = body, OF r b] f h e by (simp add: list_for_each_reverse_def)
  have "list_next l (behind NULL (NULL # os)) s = (Inr (behind (behind NULL (NULL # os)) (NULL # os)), s)"
    by (rule list_next_rep [OF r]) (cases os; simp)
  then show "\<exists>t. list_for_each_safe fuel l (list_remove l) s = (Inr os, t) \<and> list_rep t l [] \<and>
      same_outside (nodes_of s l (set os)) s t"
    using obj_safe_loop_remove [OF r f refl refl] h by (simp add: list_for_each_safe_def)
qed

text \<open>
  C32. Walking a list with the loop macros ends after visiting every object exactly once, from the head or from the
  tail, when the body leaves the list as it is; and the safe loop lets the body take every object out of the list it
  walks, leaving the list empty. The fuel of the loops is any number above the length of the list.
\<close>

theorem list_walks:
  assumes r: "list_rep s l os" and f: "length os < fuel"
    and b: "\<And>x t. list_rep t l os \<Longrightarrow> \<exists>t'. body x t = (Inr (), t') \<and> list_rep t' l os"
  shows "(\<exists>t. list_for_each fuel l body s = (Inr os, t) \<and> list_rep t l os) \<and>
    (\<exists>t. list_for_each_reverse fuel l body s = (Inr (rev os), t) \<and> list_rep t l os) \<and>
    (\<exists>t. list_for_each_safe fuel l (list_remove l) s = (Inr os, t) \<and> list_rep t l [] \<and>
      same_outside (nodes_of s l (set os)) s t)"
  by (intro conjI list_walk_each [OF assms])

text \<open>The same memory with two objects in the list.\<close>

definition demo_two :: lstate where
  "demo_two = snd (list_dos 4096 [Insert_Tail 8192, Insert_Tail 8292] demo_lists)"

lemma demo_two_rep: "list_rep demo_two 4096 [8192, 8292]"
proof -
  have "legals (can_insert demo_lists 4096) [Insert_Tail 8192, Insert_Tail 8292] []"
    by (simp add: demo_ok)
  then show ?thesis
    using list_dos_refines [OF demo_rep, of "[Insert_Tail 8192, Insert_Tail 8292]"] by (auto simp: demo_two_def)
qed

theorem list_walks_witness:
  "fst (list_for_each 3 4096 (\<lambda>_. cret ()) demo_two) = Inr [8192, 8292] \<and>
   fst (list_for_each_reverse 3 4096 (\<lambda>_. cret ()) demo_two) = Inr [8292, 8192] \<and>
   (\<exists>t. list_for_each_safe 3 4096 (list_remove 4096) demo_two = (Inr [8192, 8292], t) \<and> list_rep t 4096 [])"
proof -
  have "\<exists>t'. cret () t = (Inr (), t') \<and> list_rep t' 4096 [8192, 8292]" if "list_rep t 4096 [8192, 8292]" for t
    using that by simp
  then show ?thesis
    using list_walks [OF demo_two_rep, of 3 "\<lambda>_. cret ()"] by (fastforce simp: numeral_3_eq_3)
qed

end
