(* ===== verification/Taskq.thy ===== *)
theory Taskq
  imports Linked_List "HOL-Library.Multiset"
begin

text \<open>
  Task queues: \<^verbatim>\<open>src/taskq.c\<close>, \<^verbatim>\<open>src/include/jeffpc/taskq.h\<close> and \<^verbatim>\<open>src/cstr.c\<close>.

  The queue of items is a linked list (\<open>Linked_List\<close>), used through the interface \<open>object_queue\<close>. The lock of the
  task queue is held from where a thread acquires it to where it releases it, waits on a condition, or ends, so
  these sections are single steps. Between them a thread is at one of a few places, its program counter. The step
  relation interleaves the sections of any number of workers with the calls of any number of other threads; threads
  that wait on a condition wake up when it is signalled or for no reason.

  The logs of jobs dispatched, started and finished are not part of the program; the theorems are about them.
\<close>

subsection \<open>Copying a name\<close>

text \<open>\<open>strncpy\<close> into an object of at least \<open>dstsize\<close> bytes: the string is cut off or padded with nuls.\<close>

definition c_strncpy :: "bytes \<Rightarrow> bytes \<Rightarrow> nat \<Rightarrow> bytes" where
  "c_strncpy dst str n = take n (str @ replicate n 0) @ drop n dst"

definition strcpy_safe :: "bytes \<Rightarrow> bytes \<Rightarrow> nat \<Rightarrow> unit res \<times> bytes" where
  "strcpy_safe dst str dstsize =
     (if length dst < dstsize \<or> dstsize = 0 then (Inl Fault, dst)
      else let dst = c_strncpy dst str dstsize
        in if dst ! (dstsize - 1) = 0 then (Inr (), dst) else (fail EOVERFLOW, dst[dstsize - 1 := 0]))"

text \<open>The copy always ends with a nul and is padded with nuls; a string that does not fit is cut off and reported.\<close>

lemma strcpy_safe_spec:
  assumes "0 < n" and "n \<le> length dst" and "0 \<notin> set str"
  shows "strcpy_safe dst str n =
    (if length str < n then Inr () else fail EOVERFLOW, take (n - 1) str @ replicate (n - length (take (n - 1) str)) 0 @ drop n dst)"
proof (cases "length str < n")
  case True
  then have "c_strncpy dst str n = str @ replicate (n - length str) 0 @ drop n dst"
    by (simp add: c_strncpy_def)
  moreover have "(str @ replicate (n - length str) 0 @ drop n dst) ! (n - 1) = 0"
  proof -
    obtain d where "n = length str + Suc d"
      using less_imp_Suc_add [OF True] by auto
    then show ?thesis
      by (simp add: nth_append del: replicate_Suc)
  qed
  ultimately show ?thesis
    using assms True by (simp add: strcpy_safe_def)
next
  case False
  obtain k where k: "n = Suc k" "k < length str"
    using assms(1) False by (cases n) auto
  have c: "c_strncpy dst str n = take k str @ str ! k # drop n dst"
    using k by (simp add: c_strncpy_def take_Suc_conv_app_nth)
  have "str ! k \<noteq> 0"
    using assms(3) k(2) nth_mem by metis
  then show ?thesis
    using assms False k c by (simp add: strcpy_safe_def nth_append list_update_append)
qed

subsection \<open>Data\<close>

text \<open>\<open>tq_items\<close> holds what is in the items that are allocated: the function and its argument.\<close>

record 'j taskq =
  tq_name :: bytes
  tq_queue :: u64
  tq_ls :: lstate
  tq_items :: "u64 \<rightharpoonup> 'j"
  tq_queue_len :: u64
  tq_shutdown :: bool
  tq_processed :: u64

definition sizeof_taskq_item :: u64 where
  "sizeof_taskq_item = 32"

definition offsetof_item_node :: u64 where
  "offsetof_item_node = 16"

subsection \<open>Sections under the lock\<close>

definition on_list :: "(u64 \<Rightarrow> (lstate, 'a) cfun) \<Rightarrow> ('j taskq, 'a) cfun" where
  "on_list f tq = (case f (tq_queue tq) (tq_ls tq) of (r, ls) \<Rightarrow> (r, tq\<lparr>tq_ls := ls\<rparr>))"

definition set_tq :: "('j taskq \<Rightarrow> 'j taskq) \<Rightarrow> ('j taskq, unit) cfun" where
  "set_tq f tq = (Inr (), f tq)"

definition enqueue :: "u64 \<Rightarrow> ('j taskq, unit) cfun" where
  "enqueue item =
     andthen (on_list (\<lambda>q. list_insert_tail q item)) (\<lambda>_. set_tq (\<lambda>tq. tq\<lparr>tq_queue_len := tq_queue_len tq + 1\<rparr>))"

definition dequeue :: "('j taskq, u64) cfun" where
  "dequeue =
     andthen (on_list list_remove_head) (\<lambda>item.
       if item = NULL then cret NULL
       else andthen (set_tq (\<lambda>tq. tq\<lparr>tq_queue_len := tq_queue_len tq - 1\<rparr>)) (\<lambda>_. cret item))"

text \<open>
  Where a worker is: about to take the lock at the start or after waiting (\<open>W_Ready\<close>), waiting for work (\<open>W_Wait\<close>),
  running an item without the lock (\<open>W_Run\<close>), about to take the lock after it ran an item (\<open>W_Done\<close>), ended.
\<close>

datatype wpc = W_Ready | W_Wait | W_Run u64 | W_Done | W_Exit

text \<open>The loop of \<open>taskq_worker\<close> from its head to where the lock is released: by \<open>CONDWAIT\<close>, before the item is run, or at the end.\<close>

definition worker_section :: "('j taskq, wpc) cfun" where
  "worker_section tq =
     (if tq_shutdown tq then (Inr W_Exit, tq)
      else andthen dequeue (\<lambda>item. cret (if item = NULL then W_Wait else W_Run item)) tq)"

text \<open>After an item: \<open>processed++\<close>, then the head of the loop.\<close>

definition worker_again :: "('j taskq, wpc) cfun" where
  "worker_again = andthen (set_tq (\<lambda>tq. tq\<lparr>tq_processed := tq_processed tq + 1\<rparr>)) (\<lambda>_. worker_section)"

text \<open>Between the sections: the item is freed once its function has returned.\<close>

definition free_item :: "u64 \<Rightarrow> 'j taskq \<Rightarrow> 'j taskq" where
  "free_item item tq = tq\<lparr>tq_items := (tq_items tq)(item := None)\<rparr>"

text \<open>\<open>taskq_dispatch\<close> with the item that was allocated, or without one.\<close>

definition taskq_dispatch :: "u64 option \<Rightarrow> 'j \<Rightarrow> ('j taskq, unit) cfun" where
  "taskq_dispatch item job =
     (case item of
        None \<Rightarrow> cerr (Errno ENOMEM)
      | Some a \<Rightarrow> andthen (set_tq (\<lambda>tq. tq\<lparr>tq_items := (tq_items tq)(a \<mapsto> job)\<rparr>)) (\<lambda>_. enqueue a))"

text \<open>One round of the loop of \<open>taskq_wait\<close>: is the queue empty, so that the call returns?\<close>

definition wait_section :: "('j taskq, bool) cfun" where
  "wait_section = on_list list_is_empty"

text \<open>\<open>taskq_destroy\<close> up to where it waits for the threads.\<close>

definition destroy_section :: "('j taskq, unit) cfun" where
  "destroy_section =
     andthen (on_list list_is_empty) (\<lambda>e.
       if \<not> e then cerr Panic else set_tq (\<lambda>tq. tq\<lparr>tq_shutdown := True\<rparr>))"

text \<open>The rest of \<open>taskq_destroy\<close>, once the threads have been joined, up to the release of the memory.\<close>

definition destroy_finish :: "('j taskq, unit) cfun" where
  "destroy_finish = on_list list_destroy"

subsection \<open>Creation\<close>

text \<open>\<open>sysconf\<close> is the number of processors or an error.\<close>

definition get_nthreads :: "int \<Rightarrow> int res \<Rightarrow> int res" where
  "get_nthreads nthreads sysconf =
     (case (if nthreads = -1 then sysconf else Inr nthreads) of
        Inl e \<Rightarrow> Inl e
      | Inr n \<Rightarrow> if n \<le> 0 then fail EINVAL else Inr n)"

text \<open>The threads that were started when the loop of \<open>start_threads\<close> ends, and its result.\<close>

primrec start_threads :: "(nat \<Rightarrow> unit res) \<Rightarrow> nat \<Rightarrow> unit res \<times> nat" where
  "start_threads xthr_create 0 = (Inr (), 0)"
| "start_threads xthr_create (Suc n) =
     (case start_threads xthr_create n of
        (Inl e, k) \<Rightarrow> (Inl e, k)
      | (Inr _, k) \<Rightarrow> (case xthr_create n of Inl e \<Rightarrow> (Inl e, k) | Inr _ \<Rightarrow> (Inr (), Suc k)))"

text \<open>
  \<open>taskq_create_fixed\<close>: the structure is at the address given, or could not be allocated. The result is the
  task queue, the number of threads that run, and whether all of them could be started; if not, the caller
  gets the error once \<open>taskq_destroy\<close> has returned.
\<close>

definition taskq_init :: "bytes \<Rightarrow> u64 \<Rightarrow> lstate \<Rightarrow> ('j taskq) res" where
  "taskq_init name queue ls =
     (case list_create queue sizeof_taskq_item offsetof_item_node ls of
        (Inl e, _) \<Rightarrow> Inl e
      | (Inr _, ls') \<Rightarrow>
          Inr \<lparr>tq_name = snd (strcpy_safe (replicate 16 0) name 16), tq_queue = queue, tq_ls = ls', tq_items = Map.empty,
               tq_queue_len = 0, tq_shutdown = False, tq_processed = 0\<rparr>)"

definition taskq_create_fixed ::
  "bytes \<Rightarrow> int \<Rightarrow> int res \<Rightarrow> u64 option \<Rightarrow> bool \<Rightarrow> (nat \<Rightarrow> unit res) \<Rightarrow> lstate \<Rightarrow> ('j taskq \<times> nat \<times> unit res) res" where
  "taskq_create_fixed name nthreads sysconf tq have_threads xthr_create ls =
     (case get_nthreads nthreads sysconf of
        Inl e \<Rightarrow> Inl e
      | Inr n \<Rightarrow>
          (case tq of
             None \<Rightarrow> fail ENOMEM
           | Some queue \<Rightarrow>
               if \<not> have_threads then fail ENOMEM
               else (case taskq_init name queue ls of
                 Inl e \<Rightarrow> Inl e
               | Inr t \<Rightarrow> (case start_threads xthr_create (nat n) of (ret, k) \<Rightarrow> Inr (t, k, ret)))))"

subsection \<open>Threads\<close>

text \<open>Where a thread that calls \<open>taskq_wait\<close> is: outside, about to look at the queue, waiting.\<close>

datatype ppc = P_Idle | P_Ready | P_Wait

record 'j tq_world =
  w_tq :: "'j taskq"
  w_workers :: "wpc list"
  w_parents :: "ppc list"
  w_dispatched :: "'j list"
  w_started :: "'j list"
  w_finished :: "'j list"

text \<open>\<open>CONDBCAST\<close> on each of the two conditions, and \<open>CONDSIG\<close> waking worker \<open>i\<close>.\<close>

definition wake_workers :: "wpc list \<Rightarrow> wpc list" where
  "wake_workers ws = map (\<lambda>w. if w = W_Wait then W_Ready else w) ws"

definition wake_parents :: "ppc list \<Rightarrow> ppc list" where
  "wake_parents ps = map (\<lambda>p. if p = P_Wait then P_Ready else p) ps"

definition wake_one :: "nat \<Rightarrow> wpc list \<Rightarrow> wpc list" where
  "wake_one i ws = (if i < length ws \<and> ws ! i = W_Wait then ws[i := W_Ready] else ws)"

text \<open>A signal wakes some thread when any waits.\<close>

definition signals :: "nat \<Rightarrow> wpc list \<Rightarrow> bool" where
  "signals i ws \<longleftrightarrow> W_Wait \<in> set ws \<longrightarrow> i < length ws \<and> ws ! i = W_Wait"

text \<open>The effect of a section that ended with the program counter \<open>pc\<close>: taking an item is logged and wakes the waiting parents.\<close>

definition after_section :: "nat \<Rightarrow> wpc \<Rightarrow> 'j taskq \<Rightarrow> 'j tq_world \<Rightarrow> 'j tq_world" where
  "after_section i pc tq w =
     (case pc of
        W_Run item \<Rightarrow>
          w\<lparr>w_tq := tq, w_workers := (w_workers w)[i := pc], w_parents := wake_parents (w_parents w),
            w_started := w_started w @ [the (tq_items tq item)]\<rparr>
      | _ \<Rightarrow> w\<lparr>w_tq := tq, w_workers := (w_workers w)[i := pc]\<rparr>)"

text \<open>The steps of worker \<open>i\<close>.\<close>

inductive worker_step :: "nat \<Rightarrow> 'j tq_world \<Rightarrow> 'j tq_world \<Rightarrow> bool" where
  enter: "i < length (w_workers w) \<Longrightarrow> w_workers w ! i = W_Ready \<Longrightarrow> worker_section (w_tq w) = (Inr pc, tq) \<Longrightarrow>
    worker_step i w (after_section i pc tq w)"
| run: "i < length (w_workers w) \<Longrightarrow> w_workers w ! i = W_Run item \<Longrightarrow> tq_items (w_tq w) item = Some job \<Longrightarrow>
    worker_step i w (w\<lparr>w_tq := free_item item (w_tq w), w_workers := (w_workers w)[i := W_Done], w_finished := w_finished w @ [job]\<rparr>)"
| again: "i < length (w_workers w) \<Longrightarrow> w_workers w ! i = W_Done \<Longrightarrow> worker_again (w_tq w) = (Inr pc, tq) \<Longrightarrow>
    worker_step i w (after_section i pc tq w)"

text \<open>
  The steps of the whole program. Items come from the allocator, which gives out memory that is not in use. Nobody
  dispatches or waits once the task queue is being destroyed.
\<close>

inductive tq_step :: "'j tq_world \<Rightarrow> 'j tq_world \<Rightarrow> bool" where
  worker: "worker_step i w w' \<Longrightarrow> tq_step w w'"
| dispatch: "\<not> tq_shutdown (w_tq w) \<Longrightarrow> a \<notin> dom (tq_items (w_tq w)) \<Longrightarrow> can_insert (tq_ls (w_tq w)) (tq_queue (w_tq w)) a \<Longrightarrow>
    taskq_dispatch (Some a) job (w_tq w) = (Inr (), tq) \<Longrightarrow> signals i (w_workers w) \<Longrightarrow>
    tq_step w (w\<lparr>w_tq := tq, w_workers := wake_one i (w_workers w), w_dispatched := w_dispatched w @ [job]\<rparr>)"
| wait_start: "\<not> tq_shutdown (w_tq w) \<Longrightarrow> j < length (w_parents w) \<Longrightarrow> w_parents w ! j = P_Idle \<Longrightarrow>
    tq_step w (w\<lparr>w_parents := (w_parents w)[j := P_Ready]\<rparr>)"
| wait_look: "j < length (w_parents w) \<Longrightarrow> w_parents w ! j = P_Ready \<Longrightarrow> wait_section (w_tq w) = (Inr e, tq) \<Longrightarrow>
    tq_step w (w\<lparr>w_tq := tq, w_parents := (w_parents w)[j := if e then P_Idle else P_Wait]\<rparr>)"
| destroy: "\<not> tq_shutdown (w_tq w) \<Longrightarrow> destroy_section (w_tq w) = (Inr (), tq) \<Longrightarrow>
    tq_step w (w\<lparr>w_tq := tq, w_workers := wake_workers (w_workers w)\<rparr>)"
| spurious_worker: "i < length (w_workers w) \<Longrightarrow> w_workers w ! i = W_Wait \<Longrightarrow> tq_step w (w\<lparr>w_workers := (w_workers w)[i := W_Ready]\<rparr>)"
| spurious_parent: "j < length (w_parents w) \<Longrightarrow> w_parents w ! j = P_Wait \<Longrightarrow> tq_step w (w\<lparr>w_parents := (w_parents w)[j := P_Ready]\<rparr>)"

text \<open>A task queue that was just created, with \<open>k\<close> workers and \<open>n\<close> other threads.\<close>

definition world_init :: "'j taskq \<Rightarrow> nat \<Rightarrow> nat \<Rightarrow> 'j tq_world" where
  "world_init tq k n =
     \<lparr>w_tq = tq, w_workers = replicate k W_Ready, w_parents = replicate n P_Idle, w_dispatched = [], w_started = [], w_finished = []\<rparr>"

inductive tq_reach :: "'j tq_world \<Rightarrow> 'j tq_world \<Rightarrow> bool" for w0 where
  init: "tq_reach w0 w0"
| step: "tq_reach w0 w \<Longrightarrow> tq_step w w' \<Longrightarrow> tq_reach w0 w'"

inductive_cases worker_stepE: "worker_step i w w'"
inductive_cases tq_stepE: "tq_step w w'"

subsection \<open>The sections on the sequence of queued items\<close>

definition tq_ok :: "'j taskq \<Rightarrow> u64 list \<Rightarrow> bool" where
  "tq_ok tq os \<longleftrightarrow> list_rep (tq_ls tq) (tq_queue tq) os \<and> tq_queue_len tq = word_of_nat (length os)"

lemma enqueue_ok:
  assumes "tq_ok tq os" and "can_insert (tq_ls tq) (tq_queue tq) a" and "a \<notin> set os"
  shows "\<exists>ls. enqueue a tq = (Inr (), tq\<lparr>tq_ls := ls, tq_queue_len := tq_queue_len tq + 1\<rparr>) \<and>
    tq_ok (tq\<lparr>tq_ls := ls, tq_queue_len := tq_queue_len tq + 1\<rparr>) (os @ [a]) \<and> can_insert ls (tq_queue tq) = can_insert (tq_ls tq) (tq_queue tq)"
  using lq.put_rep [of "tq_ls tq" "tq_queue tq" os a] assms
  by (auto simp: tq_ok_def enqueue_def on_list_def set_tq_def andthen_def)

lemma dequeue_none: "tq_ok tq [] \<Longrightarrow> dequeue tq = (Inr NULL, tq)"
  using lq.take_none [of "tq_ls tq" "tq_queue tq"] by (simp add: tq_ok_def dequeue_def on_list_def andthen_def)

lemma dequeue_some:
  assumes "tq_ok tq (a # os)"
  shows "\<exists>ls. dequeue tq = (Inr a, tq\<lparr>tq_ls := ls, tq_queue_len := tq_queue_len tq - 1\<rparr>) \<and>
    tq_ok (tq\<lparr>tq_ls := ls, tq_queue_len := tq_queue_len tq - 1\<rparr>) os \<and> a \<noteq> NULL \<and>
    can_insert ls (tq_queue tq) = can_insert (tq_ls tq) (tq_queue tq)"
  using lq.take_rep [of "tq_ls tq" "tq_queue tq" a os] lq.null_notin [of "tq_ls tq" "tq_queue tq" "a # os"] assms
  by (auto simp: tq_ok_def dequeue_def on_list_def set_tq_def andthen_def)

lemma list_is_empty_ok: "tq_ok tq os \<Longrightarrow> on_list list_is_empty tq = (Inr (os = []), tq)"
  using lq.empty_rep [of "tq_ls tq" "tq_queue tq" os] by (simp add: tq_ok_def on_list_def)

lemma destroy_finish_ok: "tq_ok tq os \<Longrightarrow> \<exists>tq'. destroy_finish tq = (Inr (), tq')"
  by (cases os) (auto simp: destroy_finish_def on_list_def list_destroy_def tq_ok_def list_rep_def andthen_def
    set_next_def set_prev_def upd_list_node_def slist_rep_def cyc_def nx_def split: option.splits)

lemma worker_section_ok:
  assumes "tq_ok tq os"
  obtains (quit) "tq_shutdown tq" "worker_section tq = (Inr W_Exit, tq)"
    | (idle) "\<not> tq_shutdown tq" "os = []" "worker_section tq = (Inr W_Wait, tq)"
    | (item) a os' ls where "\<not> tq_shutdown tq" "os = a # os'"
        "worker_section tq = (Inr (W_Run a), tq\<lparr>tq_ls := ls, tq_queue_len := tq_queue_len tq - 1\<rparr>)"
        "tq_ok (tq\<lparr>tq_ls := ls, tq_queue_len := tq_queue_len tq - 1\<rparr>) os'"
proof (cases "tq_shutdown tq")
  case True
  then show ?thesis
    using quit by (simp add: worker_section_def)
next
  case False
  show ?thesis
  proof (cases os)
    case Nil
    then show ?thesis
      using idle False dequeue_none [of tq] assms by (simp add: worker_section_def)
  next
    case (Cons a os')
    then show ?thesis
      using item [OF False Cons] dequeue_some [of tq a os'] assms False by (auto simp: worker_section_def)
  qed
qed

subsection \<open>The invariant\<close>

fun witems :: "wpc \<Rightarrow> u64 multiset" where
  "witems (W_Run a) = {#a#}"
| "witems _ = {#}"

definition running :: "wpc multiset \<Rightarrow> u64 multiset" where
  "running ws = (\<Sum>w \<in># ws. witems w)"

lemma running_add [simp]: "running (add_mset w ws) = witems w + running ws"
  by (simp add: running_def)

text \<open>
  Every item that is allocated is queued or run by one worker; jobs are started in the order they were dispatched in;
  what was started is finished or being run; \<open>processed\<close> lags behind by the workers that have not counted yet; while
  items are queued some worker is not waiting; and no parent waits for an empty queue.
\<close>

definition jobs_inv :: "'j taskq \<Rightarrow> wpc multiset \<Rightarrow> u64 list \<Rightarrow> 'j list \<Rightarrow> 'j list \<Rightarrow> 'j list \<Rightarrow> bool" where
  "jobs_inv tq ws os disp started fin \<longleftrightarrow>
     finite (dom (tq_items tq)) \<and> mset os + running ws = mset_set (dom (tq_items tq)) \<and>
     disp = started @ map (\<lambda>a. the (tq_items tq a)) os \<and>
     mset started = mset fin + image_mset (\<lambda>a. the (tq_items tq a)) (running ws) \<and>
     tq_processed tq + word_of_nat (count ws W_Done) = word_of_nat (length fin)"

definition wake_inv :: "bool \<Rightarrow> wpc multiset \<Rightarrow> u64 list \<Rightarrow> ppc list \<Rightarrow> bool" where
  "wake_inv down ws os ps \<longleftrightarrow>
     (down \<longrightarrow> W_Wait \<notin># ws \<and> os = []) \<and> (\<not> down \<longrightarrow> W_Exit \<notin># ws) \<and>
     (os \<noteq> [] \<and> ws \<noteq> {#} \<longrightarrow> (\<exists>w \<in># ws. w \<noteq> W_Wait)) \<and> (os = [] \<longrightarrow> P_Wait \<notin> set ps)"

definition tq_inv :: "'j tq_world \<Rightarrow> bool" where
  "tq_inv w \<longleftrightarrow>
     (\<exists>os. tq_ok (w_tq w) os \<and> jobs_inv (w_tq w) (mset (w_workers w)) os (w_dispatched w) (w_started w) (w_finished w) \<and>
        wake_inv (tq_shutdown (w_tq w)) (mset (w_workers w)) os (w_parents w))"

lemma update_split:
  assumes "i < length ws"
  obtains M where "mset ws = add_mset (ws ! i) M" and "\<And>pc. mset (ws[i := pc]) = add_mset pc M"
proof
  show "mset ws = add_mset (ws ! i) (mset ws - {#ws ! i#})"
    using assms by simp
  show "mset (ws[i := pc]) = add_mset pc (mset ws - {#ws ! i#})" for pc
    using assms by (simp add: mset_update)
qed

lemma jobs_inv_allocated:
  assumes "jobs_inv tq ws os disp started fin"
  shows "a \<in># mset os + running ws \<longleftrightarrow> a \<in> dom (tq_items tq)"
  using assms by (simp add: jobs_inv_def)

lemma mset_set_insert_item: "finite A \<Longrightarrow> a \<notin> A \<Longrightarrow> mset_set (insert a A) = add_mset a (mset_set A)"
  by simp

text \<open>A new item at the end of the queue.\<close>

lemma jobs_inv_dispatch:
  assumes j: "jobs_inv tq ws os disp started fin" and a: "a \<notin> dom (tq_items tq)"
    and tq': "tq_items tq' = (tq_items tq)(a \<mapsto> job)" "tq_processed tq' = tq_processed tq"
  shows "jobs_inv tq' ws (os @ [a]) (disp @ [job]) started fin"
proof -
  have n: "a \<notin> set os" "a \<notin># running ws"
    using jobs_inv_allocated [OF j, of a] a by simp_all
  have "map (\<lambda>x. the (((tq_items tq)(a \<mapsto> job)) x)) os = map (\<lambda>x. the (tq_items tq x)) os"
    using n(1) by auto
  moreover have "image_mset (\<lambda>x. the (((tq_items tq)(a \<mapsto> job)) x)) (running ws) = image_mset (\<lambda>x. the (tq_items tq x)) (running ws)"
    using n(2) by (intro image_mset_cong) auto
  ultimately show ?thesis
    using j a by (simp add: jobs_inv_def tq')
qed

text \<open>A worker takes the first item.\<close>

lemma jobs_inv_take:
  assumes "jobs_inv tq (add_mset pc M) (a # os) disp started fin" and "witems pc = {#}"
    and "tq_items tq' = tq_items tq" and "tq_processed tq' = (if pc = W_Done then tq_processed tq + 1 else tq_processed tq)"
  shows "jobs_inv tq' (add_mset (W_Run a) M) os disp (started @ [the (tq_items tq a)]) fin"
  using assms by (auto simp: jobs_inv_def add.assoc)

text \<open>A worker that changes its place without an item.\<close>

lemma jobs_inv_move:
  assumes "jobs_inv tq (add_mset pc M) os disp started fin" and "witems pc = {#}" and "witems pc' = {#}" and "pc' \<noteq> W_Done"
    and "tq_items tq' = tq_items tq" and "tq_processed tq' = (if pc = W_Done then tq_processed tq + 1 else tq_processed tq)"
  shows "jobs_inv tq' (add_mset pc' M) os disp started fin"
  using assms by (auto simp: jobs_inv_def add.assoc)

text \<open>A worker has run its item and frees it.\<close>

lemma jobs_inv_finish:
  assumes j: "jobs_inv tq (add_mset (W_Run a) M) os disp started fin" and job: "tq_items tq a = Some job"
  shows "jobs_inv (free_item a tq) (add_mset W_Done M) os disp started (fin @ [job])"
proof -
  let ?D = "dom (tq_items tq)"
  have f: "finite ?D" and e: "mset os + running M = mset_set (?D - {a})"
    using j job by (auto simp: jobs_inv_def mset_set_Diff domIff) (metis add_mset_remove_trivial)
  then have n: "a \<notin># mset os + running M"
    by simp
  have "map (\<lambda>x. the (((tq_items tq)(a := None)) x)) os = map (\<lambda>x. the (tq_items tq x)) os"
    using n by auto
  moreover have "image_mset (\<lambda>x. the (((tq_items tq)(a := None)) x)) (running M) = image_mset (\<lambda>x. the (tq_items tq x)) (running M)"
    using n by (intro image_mset_cong) auto
  moreover have "dom ((tq_items tq)(a := None)) = ?D - {a}"
    by auto
  ultimately show ?thesis
    using j job e f by (auto simp: jobs_inv_def free_item_def algebra_simps)
qed

lemma wake_parents_none [simp]: "P_Wait \<notin> set (wake_parents ps)"
  by (auto simp: wake_parents_def)

text \<open>The section of a worker that has no item: at its start, after waiting or after an item.\<close>

lemma section_inv:
  assumes i: "i < length (w_workers w)" and pc: "w_workers w ! i = (if cnt then W_Done else W_Ready)"
    and ok: "tq_ok (w_tq w) os" and j: "jobs_inv (w_tq w) (mset (w_workers w)) os (w_dispatched w) (w_started w) (w_finished w)"
    and k: "wake_inv (tq_shutdown (w_tq w)) (mset (w_workers w)) os (w_parents w)"
    and t: "t = (if cnt then (w_tq w)\<lparr>tq_processed := tq_processed (w_tq w) + 1\<rparr> else w_tq w)"
    and s: "worker_section t = (Inr pc', tq)"
  shows "tq_inv (after_section i pc' tq w)"
proof -
  obtain M where M: "mset (w_workers w) = add_mset (w_workers w ! i) M" "\<And>x. mset ((w_workers w)[i := x]) = add_mset x M"
    using update_split [OF i] by blast
  have t': "tq_items t = tq_items (w_tq w)" "tq_shutdown t = tq_shutdown (w_tq w)"
    "tq_processed t = (if w_workers w ! i = W_Done then tq_processed (w_tq w) + 1 else tq_processed (w_tq w))"
    and wi: "witems (w_workers w ! i) = {#}"
    using t pc by simp_all
  have okt: "tq_ok t os"
    using ok t by (simp add: tq_ok_def)
  note j' = j [unfolded M(1)]
  from okt show ?thesis
  proof (cases rule: worker_section_ok)
    case quit
    then have "pc' = W_Exit" "tq = t"
      using s by simp_all
    then show ?thesis
      using okt jobs_inv_move [OF j' wi, of W_Exit t] t' k quit(1) M by (auto simp: tq_inv_def after_section_def wake_inv_def)
  next
    case idle
    then have "pc' = W_Wait" "tq = t"
      using s by simp_all
    then show ?thesis
      using okt jobs_inv_move [OF j' wi, of W_Wait t] t' k idle(1,2) M by (auto simp: tq_inv_def after_section_def wake_inv_def)
  next
    case (item a os' ls)
    then have "pc' = W_Run a" "tq = t\<lparr>tq_ls := ls, tq_queue_len := tq_queue_len t - 1\<rparr>"
      using s by simp_all
    then show ?thesis
      using item jobs_inv_take [OF j' [unfolded item(2)] wi, of tq] t' k M
      by (auto simp: tq_inv_def after_section_def wake_inv_def intro!: exI [of _ os'])
  qed
qed

lemma worker_step_inv:
  assumes "worker_step i w w'" and "tq_inv w"
  shows "tq_inv w'"
proof -
  obtain os where os: "tq_ok (w_tq w) os" "jobs_inv (w_tq w) (mset (w_workers w)) os (w_dispatched w) (w_started w) (w_finished w)"
    "wake_inv (tq_shutdown (w_tq w)) (mset (w_workers w)) os (w_parents w)"
    using assms(2) by (auto simp: tq_inv_def)
  from assms(1) show ?thesis
  proof cases
    case (enter pc tq)
    then show ?thesis
      using section_inv [OF _ _ os, of i False] by simp
  next
    case (run item job)
    obtain M where M: "mset (w_workers w) = add_mset (w_workers w ! i) M" "\<And>x. mset ((w_workers w)[i := x]) = add_mset x M"
      using update_split [OF run(2)] by blast
    have "jobs_inv (free_item item (w_tq w)) (add_mset W_Done M) os (w_dispatched w) (w_started w) (w_finished w @ [job])"
      using jobs_inv_finish [OF _ run(4)] os(2) M run(3) by simp
    moreover have "tq_ok (free_item item (w_tq w)) os"
      using os(1) by (simp add: tq_ok_def free_item_def)
    ultimately show ?thesis
      using os(3) M run by (auto simp: tq_inv_def wake_inv_def free_item_def intro!: exI [of _ os])
  next
    case (again pc tq)
    then show ?thesis
      using section_inv [OF _ _ os, of i True] by (simp add: worker_again_def set_tq_def andthen_def)
  qed
qed

lemma mset_wake_one:
  assumes "signals i ws"
  obtains (none) "W_Wait \<notin> set ws" "wake_one i ws = ws"
    | (woken) M where "mset ws = add_mset W_Wait M" "mset (wake_one i ws) = add_mset W_Ready M"
proof (cases "W_Wait \<in> set ws")
  case True
  then have i: "i < length ws" "ws ! i = W_Wait"
    using assms by (auto simp: signals_def)
  then obtain M where "mset ws = add_mset W_Wait M" "mset (ws[i := W_Ready]) = add_mset W_Ready M"
    using update_split [OF i(1)] by metis
  then show ?thesis
    using woken i by (simp add: wake_one_def)
next
  case False
  then have "wake_one i ws = ws"
    unfolding wake_one_def by (metis nth_mem)
  then show ?thesis
    using none False by blast
qed

lemma mset_wake_workers:
  "running (mset (wake_workers ws)) = running (mset ws)" "count (mset (wake_workers ws)) W_Done = count (mset ws) W_Done"
  "W_Wait \<notin> set (wake_workers ws)" "ws \<noteq> [] \<Longrightarrow> wake_workers ws \<noteq> []"
  by (induction ws) (auto simp: wake_workers_def)

lemma tq_step_inv:
  assumes "tq_step w w'" and "tq_inv w"
  shows "tq_inv w'"
proof -
  obtain os where os: "tq_ok (w_tq w) os" "jobs_inv (w_tq w) (mset (w_workers w)) os (w_dispatched w) (w_started w) (w_finished w)"
    "wake_inv (tq_shutdown (w_tq w)) (mset (w_workers w)) os (w_parents w)"
    using assms(2) by (auto simp: tq_inv_def)
  from assms(1) show ?thesis
  proof cases
    case (worker i)
    then show ?thesis
      using worker_step_inv assms(2) by blast
  next
    case (dispatch a job tq i)
    let ?t = "(w_tq w)\<lparr>tq_items := (tq_items (w_tq w))(a \<mapsto> job)\<rparr>"
    have "a \<notin> set os"
      using jobs_inv_allocated [OF os(2), of a] dispatch(3) by simp
    moreover have "tq_ok ?t os" "can_insert (tq_ls ?t) (tq_queue ?t) a"
      using os(1) dispatch(4) by (simp_all add: tq_ok_def)
    ultimately obtain ls where e: "enqueue a ?t = (Inr (), ?t\<lparr>tq_ls := ls, tq_queue_len := tq_queue_len ?t + 1\<rparr>)"
      "tq_ok (?t\<lparr>tq_ls := ls, tq_queue_len := tq_queue_len ?t + 1\<rparr>) (os @ [a])"
      using enqueue_ok by blast
    then have tq: "tq = ?t\<lparr>tq_ls := ls, tq_queue_len := tq_queue_len ?t + 1\<rparr>"
      using dispatch(5) by (simp add: taskq_dispatch_def set_tq_def andthen_def)
    have j: "jobs_inv tq (mset (w_workers w)) (os @ [a]) (w_dispatched w @ [job]) (w_started w) (w_finished w)"
      using jobs_inv_dispatch [OF os(2) dispatch(3), of tq job] tq by simp
    from dispatch(6) show ?thesis
    proof (cases rule: mset_wake_one)
      case none
      then show ?thesis
        using dispatch(1,2) j e(2) os(3) tq
        by (auto simp: tq_inv_def wake_inv_def intro!: exI [of _ "os @ [a]"]) (metis neq_Nil_conv list.set_intros(1))
    next
      case (woken M)
      then have "jobs_inv tq (add_mset W_Ready M) (os @ [a]) (w_dispatched w @ [job]) (w_started w) (w_finished w)"
        using jobs_inv_move [of tq W_Wait M] j by simp
      then show ?thesis
        using dispatch(1,2) e(2) os(3) tq woken by (auto simp: tq_inv_def wake_inv_def intro!: exI [of _ "os @ [a]"])
    qed
  next
    case (wait_start j)
    then show ?thesis
      using os by (auto simp: tq_inv_def wake_inv_def intro!: exI [of _ os] dest!: set_update_subset_insert [THEN subsetD])
  next
    case (wait_look j e tq)
    then have "e = (os = [])" "tq = w_tq w"
      using list_is_empty_ok [OF os(1)] by (simp_all add: wait_section_def)
    then show ?thesis
      using os wait_look(1) by (auto simp: tq_inv_def wake_inv_def intro!: exI [of _ os] dest!: set_update_subset_insert [THEN subsetD])
  next
    case (destroy tq)
    then have "os = []" "tq = (w_tq w)\<lparr>tq_shutdown := True\<rparr>"
      using list_is_empty_ok [OF os(1)] by (auto simp: destroy_section_def set_tq_def andthen_def split: if_splits)
    then show ?thesis
      using os destroy(1) mset_wake_workers [of "w_workers w"]
      by (auto simp: tq_inv_def wake_inv_def jobs_inv_def tq_ok_def intro!: exI [of _ os])
  next
    case (spurious_worker i)
    obtain M where M: "mset (w_workers w) = add_mset (w_workers w ! i) M" "\<And>x. mset ((w_workers w)[i := x]) = add_mset x M"
      using update_split [OF spurious_worker(2)] by blast
    then have "jobs_inv (w_tq w) (add_mset W_Ready M) os (w_dispatched w) (w_started w) (w_finished w)"
      using jobs_inv_move [of "w_tq w" W_Wait M] os(2) spurious_worker(3) by simp
    then show ?thesis
      using os spurious_worker M by (auto simp: tq_inv_def wake_inv_def intro!: exI [of _ os])
  next
    case (spurious_parent j)
    then show ?thesis
      using os by (auto simp: tq_inv_def wake_inv_def intro!: exI [of _ os] dest!: set_update_subset_insert [THEN subsetD])
  qed
qed

lemma tq_reach_inv: "tq_reach w0 w \<Longrightarrow> tq_inv w0 \<Longrightarrow> tq_inv w"
  by (induction rule: tq_reach.induct) (auto intro: tq_step_inv)

subsection \<open>The start\<close>

lemma world_init_inv:
  assumes "taskq_init name q ls = Inr tq" and "q \<in> dom (ls_lists ls)" and "list_sentinel q \<in> dom (ls_nodes ls)"
  shows "tq_inv (world_init tq k n)"
proof -
  obtain ls' where ls': "list_create q sizeof_taskq_item offsetof_item_node ls = (Inr (), ls')" "list_rep ls' q []"
    using list_create_rep [OF assms(2,3), of sizeof_taskq_item offsetof_item_node]
    by (auto simp: sizeof_taskq_item_def offsetof_item_node_def sizeof_list_node_def)
  then have tq: "tq_ls tq = ls'" "tq_queue tq = q" "tq_items tq = Map.empty" "tq_queue_len tq = 0" "\<not> tq_shutdown tq" "tq_processed tq = 0"
    using assms(1) by (auto simp: taskq_init_def)
  have "running (mset (replicate k W_Ready)) = {#}" "count (mset (replicate k W_Ready)) W_Done = 0" "W_Exit \<notin> set (replicate k W_Ready)"
    "P_Wait \<notin> set (replicate n P_Idle)"
    by (induction k) (auto simp: running_def)
  then show ?thesis
    using ls'(2) tq by (auto simp: tq_inv_def world_init_def tq_ok_def jobs_inv_def wake_inv_def intro!: exI [of _ "[]"])
qed

subsection \<open>Progress\<close>

fun pc_weight :: "wpc \<Rightarrow> nat" where
  "pc_weight W_Ready = 1"
| "pc_weight W_Done = 1"
| "pc_weight (W_Run a) = 2"
| "pc_weight _ = 0"

definition work_left :: "'j tq_world \<Rightarrow> nat" where
  "work_left w = 2 * (length (w_dispatched w) - length (w_started w)) + (\<Sum>pc \<in># mset (w_workers w). pc_weight pc)"

lemma section_less:
  assumes i: "i < length (w_workers w)" and pc: "pc_weight (w_workers w ! i) = 1"
    and ok: "tq_ok t os" and j: "jobs_inv (w_tq w) (mset (w_workers w)) os (w_dispatched w) (w_started w) (w_finished w)"
    and s: "worker_section t = (Inr pc', tq)"
  shows "work_left (after_section i pc' tq w) < work_left w"
proof -
  obtain M where M: "mset (w_workers w) = add_mset (w_workers w ! i) M" "\<And>x. mset ((w_workers w)[i := x]) = add_mset x M"
    using update_split [OF i] by blast
  have l: "length (w_dispatched w) = length (w_started w) + length os"
    using j by (simp add: jobs_inv_def)
  from ok show ?thesis
    by (cases rule: worker_section_ok) (use s M l pc in \<open>auto simp: work_left_def after_section_def\<close>)
qed

lemma worker_step_less:
  assumes "worker_step i w w'" and "tq_inv w"
  shows "work_left w' < work_left w"
proof -
  obtain os where os: "tq_ok (w_tq w) os" "jobs_inv (w_tq w) (mset (w_workers w)) os (w_dispatched w) (w_started w) (w_finished w)"
    using assms(2) by (auto simp: tq_inv_def)
  from assms(1) show ?thesis
  proof cases
    case (enter pc tq)
    then show ?thesis
      using section_less [OF _ _ os, of i] by simp
  next
    case (run item job)
    obtain M where "mset (w_workers w) = add_mset (w_workers w ! i) M" "\<And>x. mset ((w_workers w)[i := x]) = add_mset x M"
      using update_split [OF run(2)] by blast
    then show ?thesis
      using run by (simp add: work_left_def)
  next
    case (again pc tq)
    have "tq_ok ((w_tq w)\<lparr>tq_processed := tq_processed (w_tq w) + 1\<rparr>) os"
      using os(1) by (simp add: tq_ok_def)
    then show ?thesis
      using section_less [OF _ _ _ os(2), of i] again by (simp add: worker_again_def set_tq_def andthen_def)
  qed
qed

text \<open>A worker that is not waiting and has not ended can make a step.\<close>

lemma worker_enabled:
  assumes inv: "tq_inv w" and i: "i < length (w_workers w)" and pc: "w_workers w ! i \<notin> {W_Wait, W_Exit}"
  shows "\<exists>w'. worker_step i w w'"
proof -
  obtain os where os: "tq_ok (w_tq w) os" "jobs_inv (w_tq w) (mset (w_workers w)) os (w_dispatched w) (w_started w) (w_finished w)"
    using inv by (auto simp: tq_inv_def)
  have sec: "\<exists>pc tq. worker_section t = (Inr pc, tq)" if "tq_ok t os" for t :: "'a taskq"
    using that by (cases rule: worker_section_ok) auto
  show ?thesis
  proof (cases "w_workers w ! i")
    case W_Ready
    then show ?thesis
      using sec [OF os(1)] worker_step.enter [OF i W_Ready] by blast
  next
    case W_Done
    have "tq_ok ((w_tq w)\<lparr>tq_processed := tq_processed (w_tq w) + 1\<rparr>) os"
      using os(1) by (simp add: tq_ok_def)
    then have "\<exists>pc tq. worker_again (w_tq w) = (Inr pc, tq)"
      using sec by (simp add: worker_again_def set_tq_def andthen_def)
    then show ?thesis
      using worker_step.again [OF i W_Done] by blast
  next
    case (W_Run a)
    obtain M where "mset (w_workers w) = add_mset (W_Run a) M"
      using update_split [OF i] W_Run by metis
    then have "a \<in> dom (tq_items (w_tq w))"
      using jobs_inv_allocated [OF os(2), of a] by simp
    then show ?thesis
      using worker_step.run [OF i W_Run] by blast
  qed (use pc in simp_all)
qed

lemma running_none: "\<forall>w \<in># ws. witems w = {#} \<Longrightarrow> running ws = {#}"
  by (induction ws) (auto simp: running_def)

lemma stuck_workers:
  assumes inv: "tq_inv w" and st: "\<nexists>i w'. worker_step i w w'"
  shows "set (w_workers w) \<subseteq> {W_Wait, W_Exit}"
proof
  fix x
  assume "x \<in> set (w_workers w)"
  then obtain i where "i < length (w_workers w)" "x = w_workers w ! i"
    by (auto simp: in_set_conv_nth)
  then show "x \<in> {W_Wait, W_Exit}"
    using worker_enabled [OF inv] st by blast
qed

lemma stuck_drained:
  assumes inv: "tq_inv w" and st: "\<nexists>i w'. worker_step i w w'" and ne: "w_workers w \<noteq> []"
  shows "w_started w = w_dispatched w" "mset (w_finished w) = mset (w_dispatched w)" "tq_items (w_tq w) = Map.empty"
    "tq_queue_len (w_tq w) = 0" "tq_processed (w_tq w) = word_of_nat (length (w_dispatched w))" "P_Wait \<notin> set (w_parents w)"
    "set (w_workers w) \<subseteq> {if tq_shutdown (w_tq w) then W_Exit else W_Wait}" "\<exists>tq. destroy_finish (w_tq w) = (Inr (), tq)"
proof -
  obtain os where os: "tq_ok (w_tq w) os" "jobs_inv (w_tq w) (mset (w_workers w)) os (w_dispatched w) (w_started w) (w_finished w)"
    "wake_inv (tq_shutdown (w_tq w)) (mset (w_workers w)) os (w_parents w)"
    using inv by (auto simp: tq_inv_def)
  have sub: "set (w_workers w) \<subseteq> {W_Wait, W_Exit}"
    by (rule stuck_workers [OF inv st])
  have r: "running (mset (w_workers w)) = {#}" "count (mset (w_workers w)) W_Done = 0"
    using sub by (auto intro!: running_none simp: count_eq_zero_iff)
  show "\<exists>tq. destroy_finish (w_tq w) = (Inr (), tq)"
    by (rule destroy_finish_ok [OF os(1)])
  show w: "set (w_workers w) \<subseteq> {if tq_shutdown (w_tq w) then W_Exit else W_Wait}"
    using sub os(3) by (auto simp: wake_inv_def)
  have e: "os = []"
    using os(3) w ne by (cases "tq_shutdown (w_tq w)") (auto simp: wake_inv_def)
  show "w_started w = w_dispatched w" "tq_queue_len (w_tq w) = 0" "P_Wait \<notin> set (w_parents w)"
    using os e by (simp_all add: jobs_inv_def tq_ok_def wake_inv_def)
  then show m: "mset (w_finished w) = mset (w_dispatched w)"
    using os(2) r by (simp add: jobs_inv_def)
  have "mset_set (dom (tq_items (w_tq w))) = {#}" "finite (dom (tq_items (w_tq w)))"
    using os(2) r e by (auto simp: jobs_inv_def)
  then show "tq_items (w_tq w) = Map.empty"
    by (simp add: mset_set_empty_iff)
  show "tq_processed (w_tq w) = word_of_nat (length (w_dispatched w))"
    using os(2) r mset_eq_length [OF m] by (simp add: jobs_inv_def)
qed

subsection \<open>Properties\<close>

text \<open>
  C36. However the threads interleave: jobs are started in the order in which they were dispatched, each once; what was
  started and is not finished is being run, each job by one worker; an item stays allocated exactly while it is queued
  or run; and the length of the queue is right.
\<close>

theorem taskq_fifo:
  assumes "taskq_init name q ls = Inr tq" and "q \<in> dom (ls_lists ls)" and "list_sentinel q \<in> dom (ls_nodes ls)"
    and "tq_reach (world_init tq k n) w"
  shows "\<exists>os run. w_dispatched w = w_started w @ map (\<lambda>a. the (tq_items (w_tq w) a)) os \<and>
    mset (w_started w) = mset (w_finished w) + image_mset (\<lambda>a. the (tq_items (w_tq w) a)) run \<and>
    run = (\<Sum>pc \<in># mset (w_workers w). witems pc) \<and> mset os + run = mset_set (dom (tq_items (w_tq w))) \<and>
    list_rep (tq_ls (w_tq w)) (tq_queue (w_tq w)) os \<and> tq_queue_len (w_tq w) = word_of_nat (length os)"
  using tq_reach_inv [OF assms(4) world_init_inv [OF assms(1-3)]]
  by (auto simp: tq_inv_def jobs_inv_def tq_ok_def running_def)

text \<open>
  C37. Nothing is lost and nobody sleeps on: in every reachable state each step of a worker brings the end nearer, so
  without further calls the workers come to rest, and when they have, every job that was dispatched has been run,
  every item has been freed, all of them are counted, no caller of \<open>taskq_wait\<close> waits, and the workers wait for more, or have ended
  when the task queue is being destroyed, so that \<open>taskq_destroy\<close> can join them and finish.
\<close>

theorem taskq_drains:
  assumes "taskq_init name q ls = Inr tq" and "q \<in> dom (ls_lists ls)" and "list_sentinel q \<in> dom (ls_nodes ls)"
    and "tq_reach (world_init tq k n) w" and "w_workers w \<noteq> []"
  shows "(\<forall>i w'. worker_step i w w' \<longrightarrow> work_left w' < work_left w) \<and>
    ((\<nexists>i w'. worker_step i w w') \<longrightarrow>
      w_started w = w_dispatched w \<and> mset (w_finished w) = mset (w_dispatched w) \<and> tq_items (w_tq w) = Map.empty \<and>
      tq_queue_len (w_tq w) = 0 \<and> tq_processed (w_tq w) = word_of_nat (length (w_dispatched w)) \<and> P_Wait \<notin> set (w_parents w) \<and>
      set (w_workers w) \<subseteq> {if tq_shutdown (w_tq w) then W_Exit else W_Wait} \<and>
      (\<exists>tq. destroy_finish (w_tq w) = (Inr (), tq)))"
proof -
  have inv: "tq_inv w"
    using tq_reach_inv [OF assms(4) world_init_inv [OF assms(1-3)]] .
  show ?thesis
    using worker_step_less [OF _ inv] stuck_drained [OF inv _ assms(5)] by blast
qed

text \<open>A task queue at 4096 with the job 7 in the item at 8192.\<close>

definition demo_tq :: "nat taskq" where
  "demo_tq = (case taskq_init [116] 4096 demo_lists of Inr tq \<Rightarrow> tq)"

lemma demo_tq_init:
  "taskq_init [116] 4096 demo_lists = Inr demo_tq" "4096 \<in> dom (ls_lists demo_lists)" "list_sentinel 4096 \<in> dom (ls_nodes demo_lists)"
proof -
  show d: "4096 \<in> dom (ls_lists demo_lists)" "list_sentinel 4096 \<in> dom (ls_nodes demo_lists)"
    by (simp_all add: demo_lists_def list_sentinel_def)
  have "\<exists>s'. list_create 4096 sizeof_taskq_item offsetof_item_node demo_lists = (Inr (), s')"
    using list_create_rep [OF d, of sizeof_taskq_item offsetof_item_node]
    by (auto simp: sizeof_taskq_item_def offsetof_item_node_def sizeof_list_node_def)
  then show "taskq_init [116] 4096 demo_lists = Inr demo_tq"
    by (auto simp: demo_tq_def taskq_init_def)
qed

lemma demo_dispatched:
  "\<exists>w. tq_reach (world_init demo_tq 2 1) w \<and> w_dispatched w = [7] \<and> w_workers w \<noteq> []"
proof -
  let ?w = "world_init demo_tq 2 1"
  have inv: "tq_inv ?w"
    by (rule world_init_inv [OF demo_tq_init])
  obtain ls where ls: "list_create 4096 sizeof_taskq_item offsetof_item_node demo_lists = (Inr (), ls)" "list_rep ls 4096 []"
    "ls_lists ls = (ls_lists demo_lists)(4096 \<mapsto> \<lparr>l_offset = offsetof_item_node, l_size = sizeof_taskq_item\<rparr>)"
    "dom (ls_nodes ls) = dom (ls_nodes demo_lists)"
    using list_create_rep [OF demo_tq_init(2,3), of sizeof_taskq_item offsetof_item_node]
    by (auto simp: sizeof_taskq_item_def offsetof_item_node_def sizeof_list_node_def)
  have tq: "tq_ls demo_tq = ls" "tq_queue demo_tq = 4096" "tq_items demo_tq = Map.empty" "\<not> tq_shutdown demo_tq" "tq_queue_len demo_tq = 0"
    using ls(1) by (simp_all add: demo_tq_def taskq_init_def)
  have c: "can_insert (tq_ls demo_tq) (tq_queue demo_tq) 8192"
    using ls(3,4) demo_ok(1) by (simp add: tq can_insert_def off_of_def offsetof_item_node_def demo_lists_def)
  let ?t = "demo_tq\<lparr>tq_items := [8192 \<mapsto> 7]\<rparr>"
  have "tq_ok ?t []"
    using ls(2) tq by (simp add: tq_ok_def)
  then obtain u where "taskq_dispatch (Some 8192) 7 demo_tq = (Inr (), u)"
    using enqueue_ok [of ?t "[]" 8192] c tq by (auto simp: taskq_dispatch_def set_tq_def andthen_def)
  then have "tq_step ?w (?w\<lparr>w_tq := u, w_workers := wake_one 0 (w_workers ?w), w_dispatched := w_dispatched ?w @ [7]\<rparr>)"
    using c tq by (intro tq_step.dispatch) (auto simp: world_init_def signals_def)
  then show ?thesis
    using tq_reach.step [OF tq_reach.init] by (intro exI conjI) (auto simp: world_init_def wake_one_def)
qed

theorem taskq_fifo_witness:
  "\<exists>w os. tq_reach (world_init demo_tq 2 1) w \<and> w_dispatched w = [7] \<and>
     w_dispatched w = w_started w @ map (\<lambda>a. the (tq_items (w_tq w) a)) os \<and> tq_queue_len (w_tq w) = word_of_nat (length os)"
  using demo_dispatched taskq_fifo [OF demo_tq_init] by metis

theorem taskq_drains_witness:
  "\<exists>w. tq_reach (world_init demo_tq 2 1) w \<and> w_dispatched w = [7] \<and>
     (\<forall>i w'. worker_step i w w' \<longrightarrow> work_left w' < work_left w) \<and>
     ((\<nexists>i w'. worker_step i w w') \<longrightarrow> mset (w_finished w) = {#7#})"
proof -
  obtain w where w: "tq_reach (world_init demo_tq 2 1) w" "w_dispatched w = [7]" "w_workers w \<noteq> []"
    using demo_dispatched by blast
  then show ?thesis
    using taskq_drains [OF demo_tq_init w(1,3)] by (intro exI [of _ w]) simp
qed

end
