(* ===== verification/Val_Heap.thy ===== *)
theory Val_Heap
  imports Val "HOL-Library.Multiset"
begin

text \<open>
  Values as objects in memory: \<^verbatim>\<open>src/include/jeffpc/refcnt.h\<close>, \<^verbatim>\<open>src/include/jeffpc/val.h\<close>, \<^verbatim>\<open>src/val.c\<close>,
  \<^verbatim>\<open>src/val_array.c\<close>, \<^verbatim>\<open>src/val_nvl.c\<close> and \<^verbatim>\<open>src/str.c\<close>.

  Here a \<open>struct val\<close> is an object at an address, with its reference count, its flags and its union. The heap also has
  the memory blocks that hold long strings, blobs and the elements of arrays, and the \<open>struct nvpair\<close>s of name-value
  lists. An address that was freed is not used again, so that every access to a freed object is a \<open>Fault\<close>. A new object
  has whatever contents the memory had, except for what the code sets.

  The invariant \<open>vh_inv\<close> says that every reference count is the number of references to the object: those that the
  program holds and those in other objects. It is relative to a set of objects that are about to be freed and to the
  references, blocks and pairs that these have not given up yet, which is what makes it hold inside \<open>val_free\<close>.
\<close>

subsection \<open>Data\<close>

text \<open>Objects from the cache, the preallocated ones of \<^verbatim>\<open>val.c\<close> and \<^verbatim>\<open>str.c\<close>, and those a program defines statically.\<close>

datatype vaddr =
    Dyn nat
  | Val_Cons_Empty | Val_True | Val_False | Val_Null | Val_Ints u64
  | Empty_String | Empty_Symbol | One_Char u8
  | Static_Val nat

text \<open>Blocks from \<open>malloc\<close> and other storage.\<close>

datatype baddr = Mal nat | Other nat

datatype block = B_Bytes bytes | B_Ptrs "vaddr option list"

datatype vdata =
    U_I u64
  | U_B bool
  | U_Str_Ptr baddr
  | U_Str_Inline bytes
  | U_Cons "vaddr option" "vaddr option"
  | U_Blob baddr nat
  | U_Array baddr nat
  | U_Nvl "nat list"

record vobj =
  vo_type :: val_type
  vo_refcnt :: u32
  vo_static_struct :: bool
  vo_static_alloc :: bool
  vo_inline_alloc :: bool
  vo_data :: vdata

text \<open>
  The pairs of a name-value list are in the order in which \<open>rb_destroy_nodes\<close> hands them out. \<open>vh_junk\<close> is what memory
  from the cache holds.
\<close>

record vheap =
  vh_objs :: "vaddr \<rightharpoonup> vobj"
  vh_blocks :: "baddr \<rightharpoonup> block"
  vh_pairs :: "nat \<rightharpoonup> vaddr option \<times> vaddr option"
  vh_next :: nat
  vh_junk :: "nat \<Rightarrow> vobj"
  vh_mem :: mem

subsection \<open>Memory\<close>

definition get_obj :: "vaddr \<Rightarrow> (vheap, vobj) cfun" where
  "get_obj a st = (case vh_objs st a of None \<Rightarrow> (Inl Fault, st) | Some ob \<Rightarrow> (Inr ob, st))"

definition put_obj :: "vaddr \<Rightarrow> vobj \<Rightarrow> (vheap, unit) cfun" where
  "put_obj a ob st = (Inr (), st\<lparr>vh_objs := (vh_objs st)(a \<mapsto> ob)\<rparr>)"

definition obj_free :: "vaddr \<Rightarrow> (vheap, unit) cfun" where
  "obj_free a st = (Inr (), st\<lparr>vh_objs := (vh_objs st)(a := None)\<rparr>)"

definition get_block :: "baddr \<Rightarrow> (vheap, block) cfun" where
  "get_block p st = (case vh_blocks st p of None \<Rightarrow> (Inl Fault, st) | Some b \<Rightarrow> (Inr b, st))"

text \<open>\<open>free\<close>: of a block that \<open>malloc\<close> returned and that was not freed yet.\<close>

fun blk_free :: "baddr \<Rightarrow> (vheap, unit) cfun" where
  "blk_free (Mal n) st =
     (if vh_blocks st (Mal n) = None then (Inl Fault, st)
      else (Inr (), st\<lparr>vh_blocks := (vh_blocks st)(Mal n := None)\<rparr>))"
| "blk_free (Other n) st = (Inl Fault, st)"

definition get_pair :: "nat \<Rightarrow> (vheap, vaddr option \<times> vaddr option) cfun" where
  "get_pair p st = (case vh_pairs st p of None \<Rightarrow> (Inl Fault, st) | Some x \<Rightarrow> (Inr x, st))"

definition pair_free :: "nat \<Rightarrow> (vheap, unit) cfun" where
  "pair_free p st = (Inr (), st\<lparr>vh_pairs := (vh_pairs st)(p := None)\<rparr>)"

definition on_heap_mem :: "(mem, 'a) cfun \<Rightarrow> (vheap, 'a) cfun" where
  "on_heap_mem f st = (case f (vh_mem st) of (r, m) \<Rightarrow> (r, st\<lparr>vh_mem := m\<rparr>))"

text \<open>\<open>malloc\<close> of \<open>n\<close> bytes that are filled with \<open>b\<close>.\<close>

definition blk_alloc :: "nat \<Rightarrow> block \<Rightarrow> (vheap, baddr) cfun" where
  "blk_alloc n b =
     andthen (on_heap_mem (cell_alloc n)) (\<lambda>_ st.
       (Inr (Mal (vh_next st)),
        st\<lparr>vh_blocks := (vh_blocks st)(Mal (vh_next st) \<mapsto> b), vh_next := Suc (vh_next st)\<rparr>))"

subsection \<open>Reference counts\<close>

definition val_isstatic :: "vobj \<Rightarrow> bool" where
  "val_isstatic x = vo_static_struct x"

definition val_getref :: "vaddr option \<Rightarrow> (vheap, vaddr option) cfun" where
  "val_getref x =
     (case x of
        None \<Rightarrow> cret None
      | Some a \<Rightarrow>
          andthen (get_obj a) (\<lambda>ob.
            if val_isstatic ob then cret x
            else if vo_refcnt ob \<le> 0 then cerr Panic
            else andthen (put_obj a (ob\<lparr>vo_refcnt := vo_refcnt ob + 1\<rparr>)) (\<lambda>_. cret x)))"

text \<open>\<open>val_free\<close>, with what it does to release a reference.\<close>

definition get_elem :: "vaddr \<Rightarrow> nat \<Rightarrow> (vheap, vaddr option) cfun" where
  "get_elem a i =
     andthen (get_obj a) (\<lambda>ob.
       case vo_data ob of
         U_Array p n \<Rightarrow>
           andthen (get_block p) (\<lambda>b. case b of B_Ptrs xs \<Rightarrow> if i < length xs then cret (xs ! i) else cerr Fault | _ \<Rightarrow> cerr Fault)
       | _ \<Rightarrow> cerr Fault)"

primrec free_elems :: "(vaddr option \<Rightarrow> (vheap, unit) cfun) \<Rightarrow> vaddr \<Rightarrow> nat list \<Rightarrow> (vheap, unit) cfun" where
  "free_elems putref a [] = cret ()"
| "free_elems putref a (i # is) =
     andthen (get_elem a i) (\<lambda>x. andthen (putref x) (\<lambda>_. free_elems putref a is))"

definition nvpair_free :: "(vaddr option \<Rightarrow> (vheap, unit) cfun) \<Rightarrow> nat \<Rightarrow> (vheap, unit) cfun" where
  "nvpair_free putref p =
     andthen (get_pair p) (\<lambda>x. andthen (putref (fst x)) (\<lambda>_.
     andthen (get_pair p) (\<lambda>y. andthen (putref (snd y)) (\<lambda>_. pair_free p))))"

primrec free_pairs :: "(vaddr option \<Rightarrow> (vheap, unit) cfun) \<Rightarrow> nat list \<Rightarrow> (vheap, unit) cfun" where
  "free_pairs putref [] = cret ()"
| "free_pairs putref (p # ps) = andthen (nvpair_free putref p) (\<lambda>_. free_pairs putref ps)"

definition val_free_nvl :: "(vaddr option \<Rightarrow> (vheap, unit) cfun) \<Rightarrow> vobj \<Rightarrow> (vheap, unit) cfun" where
  "val_free_nvl putref val =
     (if vo_refcnt val \<noteq> 0 \<or> vo_type val \<noteq> VT_NVL then cerr Panic
      else case vo_data val of U_Nvl ps \<Rightarrow> free_pairs putref ps | _ \<Rightarrow> cerr Fault)"

definition free_storage :: "vobj \<Rightarrow> (vheap, unit) cfun" where
  "free_storage val =
     (if vo_static_alloc val then cret ()
      else case vo_data val of
        U_Blob p _ \<Rightarrow> blk_free p
      | U_Str_Ptr p \<Rightarrow> blk_free p
      | U_Array p _ \<Rightarrow> blk_free p
      | _ \<Rightarrow> cerr Fault)"

definition free_cons :: "(vaddr option \<Rightarrow> (vheap, unit) cfun) \<Rightarrow> vaddr \<Rightarrow> (vheap, unit) cfun" where
  "free_cons putref a =
     andthen (get_obj a) (\<lambda>v. case vo_data v of
       U_Cons head _ \<Rightarrow> andthen (putref head) (\<lambda>_.
         andthen (get_obj a) (\<lambda>w. case vo_data w of U_Cons _ tail \<Rightarrow> putref tail | _ \<Rightarrow> cerr Fault))
     | _ \<Rightarrow> cerr Fault)"

definition free_array :: "(vaddr option \<Rightarrow> (vheap, unit) cfun) \<Rightarrow> vaddr \<Rightarrow> (vheap, unit) cfun" where
  "free_array putref a =
     andthen (get_obj a) (\<lambda>v. case vo_data v of
       U_Array _ nelem \<Rightarrow>
         andthen (free_elems putref a [0..<nelem]) (\<lambda>_. andthen (get_obj a) free_storage)
     | _ \<Rightarrow> cerr Fault)"

definition val_free :: "(vaddr option \<Rightarrow> (vheap, unit) cfun) \<Rightarrow> vaddr \<Rightarrow> (vheap, unit) cfun" where
  "val_free putref a =
     andthen (get_obj a) (\<lambda>val.
       if vo_refcnt val \<noteq> 0 then cerr Panic
       else andthen
         (case vo_type val of
            VT_BLOB \<Rightarrow> free_storage val
          | VT_STR \<Rightarrow> free_storage val
          | VT_SYM \<Rightarrow> free_storage val
          | VT_CONS \<Rightarrow> free_cons putref a
          | VT_ARRAY \<Rightarrow> free_array putref a
          | VT_NVL \<Rightarrow> val_free_nvl putref val
          | _ \<Rightarrow> cret ())
         (\<lambda>_. obj_free a))"

primrec val_putref_fuel :: "nat \<Rightarrow> vaddr option \<Rightarrow> (vheap, unit) cfun" where
  "val_putref_fuel 0 x = cerr Diverged"
| "val_putref_fuel (Suc fuel) x =
     (case x of
        None \<Rightarrow> cret ()
      | Some a \<Rightarrow>
          andthen (get_obj a) (\<lambda>ob.
            if val_isstatic ob then cret ()
            else if vo_refcnt ob \<le> 0 then cerr Panic
            else andthen (put_obj a (ob\<lparr>vo_refcnt := vo_refcnt ob - 1\<rparr>)) (\<lambda>_.
              if vo_refcnt ob - 1 \<noteq> 0 then cret () else val_free (val_putref_fuel fuel) a)))"

text \<open>The depth of the recursion is at most the number of objects there are.\<close>

definition val_putref :: "vaddr option \<Rightarrow> (vheap, unit) cfun" where
  "val_putref x st = val_putref_fuel (Suc (vh_next st)) x st"

subsection \<open>References, storage and pairs of an object\<close>

fun opt_ref :: "'a option \<Rightarrow> 'a multiset" where
  "opt_ref None = {#}"
| "opt_ref (Some a) = {#a#}"

definition opt_refs :: "'a option list \<Rightarrow> 'a multiset" where
  "opt_refs xs = (\<Sum>x \<in># mset xs. opt_ref x)"

definition pair_refs :: "vheap \<Rightarrow> nat \<Rightarrow> vaddr multiset" where
  "pair_refs st p = (case vh_pairs st p of None \<Rightarrow> {#} | Some (name, val) \<Rightarrow> opt_ref name + opt_ref val)"

fun data_kids :: "vheap \<Rightarrow> vdata \<Rightarrow> vaddr multiset" where
  "data_kids st (U_Cons head tail) = opt_ref head + opt_ref tail"
| "data_kids st (U_Array p nelem) =
     (case vh_blocks st p of Some (B_Ptrs xs) \<Rightarrow> opt_refs (take nelem xs) | _ \<Rightarrow> {#})"
| "data_kids st (U_Nvl ps) = (\<Sum>p \<in># mset ps. pair_refs st p)"
| "data_kids st _ = {#}"

fun data_block :: "vdata \<Rightarrow> baddr option" where
  "data_block (U_Str_Ptr p) = Some p"
| "data_block (U_Blob p _) = Some p"
| "data_block (U_Array p _) = Some p"
| "data_block _ = None"

fun data_pairs :: "vdata \<Rightarrow> nat multiset" where
  "data_pairs (U_Nvl ps) = mset ps"
| "data_pairs _ = {#}"

definition obj_at :: "vheap \<Rightarrow> vaddr \<Rightarrow> vobj" where
  "obj_at st a = the (vh_objs st a)"

definition kids :: "vheap \<Rightarrow> vaddr \<Rightarrow> vaddr multiset" where
  "kids st a = data_kids st (vo_data (obj_at st a))"

definition own_block :: "vheap \<Rightarrow> vaddr \<Rightarrow> baddr multiset" where
  "own_block st a = (if vo_static_alloc (obj_at st a) then {#} else opt_ref (data_block (vo_data (obj_at st a))))"

definition own_pairs :: "vheap \<Rightarrow> vaddr \<Rightarrow> nat multiset" where
  "own_pairs st a = data_pairs (vo_data (obj_at st a))"

text \<open>A well-formed object: the union is used as its type says, and the storage is there.\<close>

definition is_mal :: "baddr \<Rightarrow> bool" where
  "is_mal p \<longleftrightarrow> (\<exists>n. p = Mal n)"

definition c_string :: "block \<Rightarrow> bool" where
  "c_string b \<longleftrightarrow> (\<exists>bs. b = B_Bytes bs \<and> 0 \<in> set bs)"

fun wf_data :: "vheap \<Rightarrow> vobj \<Rightarrow> vdata \<Rightarrow> bool" where
  "wf_data st ob (U_I _) \<longleftrightarrow> vo_type ob \<in> {VT_NULL, VT_INT, VT_CHAR}"
| "wf_data st ob (U_B _) \<longleftrightarrow> vo_type ob = VT_BOOL"
| "wf_data st ob (U_Str_Ptr p) \<longleftrightarrow>
     vo_type ob \<in> {VT_STR, VT_SYM} \<and> \<not> vo_inline_alloc ob \<and> (\<exists>b. vh_blocks st p = Some b \<and> c_string b) \<and> (vo_static_alloc ob \<longleftrightarrow> \<not> is_mal p)"
| "wf_data st ob (U_Str_Inline s) \<longleftrightarrow> vo_type ob \<in> {VT_STR, VT_SYM} \<and> vo_inline_alloc ob \<and> vo_static_alloc ob \<and> 0 \<in> set s"
| "wf_data st ob (U_Cons _ _) \<longleftrightarrow> vo_type ob = VT_CONS"
| "wf_data st ob (U_Blob p n) \<longleftrightarrow>
     vo_type ob = VT_BLOB \<and> (\<exists>bs. vh_blocks st p = Some (B_Bytes bs) \<and> n \<le> length bs) \<and> (vo_static_alloc ob \<longleftrightarrow> \<not> is_mal p)"
| "wf_data st ob (U_Array p n) \<longleftrightarrow>
     vo_type ob = VT_ARRAY \<and> (\<exists>xs. vh_blocks st p = Some (B_Ptrs xs) \<and> n \<le> length xs) \<and> (vo_static_alloc ob \<longleftrightarrow> \<not> is_mal p)"
| "wf_data st ob (U_Nvl ps) \<longleftrightarrow> vo_type ob = VT_NVL \<and> set ps \<subseteq> dom (vh_pairs st)"

definition wf_at :: "vheap \<Rightarrow> vaddr \<Rightarrow> bool" where
  "wf_at st a \<longleftrightarrow> wf_data st (obj_at st a) (vo_data (obj_at st a))"

definition live :: "vheap \<Rightarrow> vaddr set" where
  "live st = {a. \<exists>ob. vh_objs st a = Some ob \<and> \<not> vo_static_struct ob}"

text \<open>All references there are: those held by the program, and those in objects that are not about to be freed.\<close>

definition refs :: "vheap \<Rightarrow> vaddr set \<Rightarrow> vaddr multiset \<Rightarrow> vaddr multiset" where
  "refs st D R = R + (\<Sum>a \<in> live st - D. kids st a)"

definition counts_ok :: "vheap \<Rightarrow> vaddr set \<Rightarrow> vaddr multiset \<Rightarrow> bool" where
  "counts_ok st D R \<longleftrightarrow>
     (\<forall>a \<in> live st - D. wf_at st a \<and> unat (vo_refcnt (obj_at st a)) = count (refs st D R) a \<and> a \<in># refs st D R) \<and>
     (\<forall>a \<in> D. vo_refcnt (obj_at st a) = 0 \<and> a \<notin># refs st D R) \<and>
     set_mset (refs st D R) \<subseteq> dom (vh_objs st)"

definition storage_ok :: "vheap \<Rightarrow> vaddr set \<Rightarrow> baddr multiset \<Rightarrow> nat multiset \<Rightarrow> bool" where
  "storage_ok st D B P \<longleftrightarrow>
     finite {p \<in> dom (vh_blocks st). is_mal p} \<and> finite (dom (vh_pairs st)) \<and>
     B + (\<Sum>a \<in> live st - D. own_block st a) = mset_set {p \<in> dom (vh_blocks st). is_mal p} \<and>
     P + (\<Sum>a \<in> live st - D. own_pairs st a) = mset_set (dom (vh_pairs st))"

definition ranked :: "vheap \<Rightarrow> vaddr set \<Rightarrow> bool" where
  "ranked st D \<longleftrightarrow> (\<exists>rank :: vaddr \<Rightarrow> nat. \<forall>a \<in> live st - D. \<forall>b \<in># kids st a. rank b < rank a)"

definition fresh_ok :: "vheap \<Rightarrow> bool" where
  "fresh_ok st \<longleftrightarrow> live st \<subseteq> Dyn ` {..<vh_next st} \<and>
     (\<forall>n \<ge> vh_next st. vh_objs st (Dyn n) = None \<and> vh_blocks st (Mal n) = None \<and> vh_pairs st n = None)"

text \<open>The preallocated objects; the empty string and symbol point to an empty string constant.\<close>

definition INIT_STATIC_VAL :: "val_type \<Rightarrow> vdata \<Rightarrow> vobj" where
  "INIT_STATIC_VAL t d = \<lparr>vo_type = t, vo_refcnt = 0, vo_static_struct = True, vo_static_alloc = False, vo_inline_alloc = False, vo_data = d\<rparr>"

definition STATIC_CHAR_INITIALIZER :: "val_type \<Rightarrow> u8 \<Rightarrow> vobj" where
  "STATIC_CHAR_INITIALIZER t v = \<lparr>vo_type = t, vo_refcnt = 0, vo_static_struct = True, vo_static_alloc = True, vo_inline_alloc = True, vo_data = U_Str_Inline [v, 0]\<rparr>"

definition STATIC_STR_INITIALIZER :: "val_type \<Rightarrow> baddr \<Rightarrow> vobj" where
  "STATIC_STR_INITIALIZER t v = \<lparr>vo_type = t, vo_refcnt = 0, vo_static_struct = True, vo_static_alloc = True, vo_inline_alloc = False, vo_data = U_Str_Ptr v\<rparr>"

fun preset :: "vaddr \<Rightarrow> vobj option" where
  "preset Val_Cons_Empty = Some (INIT_STATIC_VAL VT_CONS (U_Cons None None))"
| "preset Val_True = Some (INIT_STATIC_VAL VT_BOOL (U_B True))"
| "preset Val_False = Some (INIT_STATIC_VAL VT_BOOL (U_B False))"
| "preset Val_Null = Some (INIT_STATIC_VAL VT_NULL (U_I 0))"
| "preset (Val_Ints i) = (if i < 10 then Some (INIT_STATIC_VAL VT_INT (U_I i)) else None)"
| "preset Empty_String = Some (STATIC_STR_INITIALIZER VT_STR (Other 0))"
| "preset Empty_Symbol = Some (STATIC_STR_INITIALIZER VT_SYM (Other 0))"
| "preset (One_Char c) = (if 0 < c \<and> c < 0x80 then Some (STATIC_CHAR_INITIALIZER VT_STR c) else None)"
| "preset _ = None"

text \<open>An object with \<open>static_struct\<close> holds no references and has no storage from \<open>malloc\<close>.\<close>

fun static_data :: "vdata \<Rightarrow> bool" where
  "static_data (U_I _) \<longleftrightarrow> True"
| "static_data (U_B _) \<longleftrightarrow> True"
| "static_data (U_Str_Inline _) \<longleftrightarrow> True"
| "static_data (U_Str_Ptr p) \<longleftrightarrow> \<not> is_mal p"
| "static_data (U_Cons h t) \<longleftrightarrow> h = None \<and> t = None"
| "static_data _ \<longleftrightarrow> False"

definition statics_ok :: "vheap \<Rightarrow> bool" where
  "statics_ok st \<longleftrightarrow>
     preset \<subseteq>\<^sub>m vh_objs st \<and> vh_blocks st (Other 0) = Some (B_Bytes [0]) \<and>
     (\<forall>a ob. vh_objs st a = Some ob \<longrightarrow> vo_static_struct ob \<longrightarrow> static_data (vo_data ob) \<and> wf_data st ob (vo_data ob))"

definition vh_inv :: "vheap \<Rightarrow> vaddr set \<Rightarrow> vaddr multiset \<Rightarrow> baddr multiset \<Rightarrow> nat multiset \<Rightarrow> bool" where
  "vh_inv st D R B P \<longleftrightarrow>
     D \<subseteq> live st \<and> counts_ok st D R \<and> storage_ok st D B P \<and> ranked st D \<and> fresh_ok st \<and> statics_ok st"

lemma opt_refs_simps [simp]: "opt_refs [] = {#}" "opt_refs (x # xs) = opt_ref x + opt_refs xs"
  "opt_refs (xs @ ys) = opt_refs xs + opt_refs ys"
  by (simp_all add: opt_refs_def)

lemma finite_live: "fresh_ok st \<Longrightarrow> finite (live st)"
  by (metis finite_imageI finite_lessThan finite_subset fresh_ok_def)

lemma live_less: "fresh_ok st \<Longrightarrow> card (live st - D) < Suc (vh_next st)"
proof -
  assume "fresh_ok st"
  then have "card (live st - D) \<le> card (Dyn ` {..<vh_next st})"
    by (intro card_mono) (auto simp: fresh_ok_def)
  also have "\<dots> \<le> vh_next st"
    using card_image_le [of "{..<vh_next st}" Dyn] by simp
  finally show ?thesis
    by simp
qed

lemma preset_static: "preset a = Some ob \<Longrightarrow> vo_static_struct ob"
  by (cases a) (auto simp: INIT_STATIC_VAL_def STATIC_CHAR_INITIALIZER_def STATIC_STR_INITIALIZER_def split: if_splits)

lemma wf_data_static:
  assumes "static_data d" and b: "\<And>n. vh_blocks st' (Other n) = vh_blocks st (Other n)" and "wf_data st ob d"
  shows "wf_data st' ob d"
proof (cases d)
  case (U_Str_Ptr p)
  then obtain n where "p = Other n"
    using assms(1) by (cases p) (auto simp: is_mal_def)
  then show ?thesis
    using assms U_Str_Ptr by simp
qed (use assms in auto)

lemma statics_ok_mono:
  assumes ok: "statics_ok st" and eq: "\<And>a ob. vo_static_struct ob \<Longrightarrow> (vh_objs st' a = Some ob) = (vh_objs st a = Some ob)"
    and b: "\<And>n. vh_blocks st' (Other n) = vh_blocks st (Other n)"
  shows "statics_ok st'"
proof -
  have "vh_objs st' a = Some ob" if "preset a = Some ob" for a ob
    using that ok eq [OF preset_static [OF that]] by (auto simp: statics_ok_def map_le_def dom_def)
  then have "preset \<subseteq>\<^sub>m vh_objs st'"
    by (auto simp: map_le_def)
  moreover have "static_data (vo_data ob) \<and> wf_data st' ob (vo_data ob)" if "vh_objs st' a = Some ob" "vo_static_struct ob" for a ob
    using that ok eq wf_data_static [OF _ b] by (auto simp: statics_ok_def)
  ultimately show ?thesis
    using ok b by (auto simp: statics_ok_def)
qed

subsection \<open>One object changes its reference count\<close>

definition set_refcnt :: "vaddr \<Rightarrow> u32 \<Rightarrow> vheap \<Rightarrow> vheap" where
  "set_refcnt a r st = st\<lparr>vh_objs := (vh_objs st)(a \<mapsto> (obj_at st a)\<lparr>vo_refcnt := r\<rparr>)\<rparr>"

lemma data_kids_cong: "vh_blocks st' = vh_blocks st \<Longrightarrow> vh_pairs st' = vh_pairs st \<Longrightarrow> data_kids st' d = data_kids st d"
  by (cases d) (simp_all add: pair_refs_def [abs_def])

lemma wf_data_cong:
  "vh_blocks st' = vh_blocks st \<Longrightarrow> vh_pairs st' = vh_pairs st \<Longrightarrow> vo_type ob' = vo_type ob \<Longrightarrow>
    vo_static_alloc ob' = vo_static_alloc ob \<Longrightarrow> vo_inline_alloc ob' = vo_inline_alloc ob \<Longrightarrow> wf_data st' ob' d = wf_data st ob d"
  by (cases d) simp_all

lemma wf_data_refcnt: "wf_data st (ob\<lparr>vo_refcnt := r\<rparr>) d = wf_data st ob d"
  by (rule wf_data_cong) simp_all

lemma set_refcnt_sel [simp]:
  "vh_blocks (set_refcnt a r st) = vh_blocks st" "vh_pairs (set_refcnt a r st) = vh_pairs st"
  "vh_next (set_refcnt a r st) = vh_next st" "vh_junk (set_refcnt a r st) = vh_junk st" "vh_mem (set_refcnt a r st) = vh_mem st"
  "obj_at (set_refcnt a r st) b = (if b = a then (obj_at st a)\<lparr>vo_refcnt := r\<rparr> else obj_at st b)"
  by (simp_all add: set_refcnt_def obj_at_def)

lemma live_obj: "a \<in> live st \<Longrightarrow> vh_objs st a = Some (obj_at st a) \<and> \<not> vo_static_struct (obj_at st a)"
  by (auto simp: live_def obj_at_def)

lemma set_refcnt_live:
  assumes "a \<in> live st"
  shows "live (set_refcnt a r st) = live st" "dom (vh_objs (set_refcnt a r st)) = dom (vh_objs st)"
    "kids (set_refcnt a r st) = kids st" "own_block (set_refcnt a r st) = own_block st" "own_pairs (set_refcnt a r st) = own_pairs st"
    "wf_at (set_refcnt a r st) b = wf_at st b" "refs (set_refcnt a r st) = refs st"
proof -
  show l: "live (set_refcnt a r st) = live st"
    using live_obj [OF assms] by (auto simp: live_def set_refcnt_def)
  show "dom (vh_objs (set_refcnt a r st)) = dom (vh_objs st)"
    using live_obj [OF assms] by (auto simp: set_refcnt_def)
  show k: "kids (set_refcnt a r st) = kids st"
    by (auto simp: kids_def fun_eq_iff intro: data_kids_cong)
  show "own_block (set_refcnt a r st) = own_block st" "own_pairs (set_refcnt a r st) = own_pairs st"
    by (auto simp: own_block_def own_pairs_def fun_eq_iff)
  show "wf_at (set_refcnt a r st) b = wf_at st b"
    using wf_data_cong [of "set_refcnt a r st" st] by (simp add: wf_at_def wf_data_refcnt)
  show "refs (set_refcnt a r st) = refs st"
    by (simp add: refs_def fun_eq_iff k l)
qed

lemma set_refcnt_ok:
  assumes "a \<in> live st"
  shows "storage_ok (set_refcnt a r st) = storage_ok st" "ranked (set_refcnt a r st) = ranked st"
    "fresh_ok st \<Longrightarrow> fresh_ok (set_refcnt a r st)" "statics_ok st \<Longrightarrow> statics_ok (set_refcnt a r st)"
proof -
  note l = set_refcnt_live [OF assms, of r]
  show "storage_ok (set_refcnt a r st) = storage_ok st" "ranked (set_refcnt a r st) = ranked st"
    by (simp_all add: storage_ok_def ranked_def l fun_eq_iff)
  show "fresh_ok (set_refcnt a r st)" if "fresh_ok st"
    using that assms l(1) by (auto simp: fresh_ok_def) (auto simp: set_refcnt_def)
  show "statics_ok (set_refcnt a r st)" if "statics_ok st" 
    using that live_obj [OF assms] by (auto elim!: statics_ok_mono simp: set_refcnt_def split: if_splits)
qed

lemma refs_add [simp]: "refs st D (add_mset a R) = add_mset a (refs st D R)" "refs st D (R + S) = S + refs st D R"
  by (simp_all add: refs_def)

lemma vh_inv_dec:
  assumes inv: "vh_inv st D (add_mset a R) B P" and a: "a \<in> live st - D" and r: "vo_refcnt (obj_at st a) \<noteq> 1"
  shows "vh_inv (set_refcnt a (vo_refcnt (obj_at st a) - 1) st) D R B P"
proof -
  have a': "a \<in> live st"
    using a by simp
  note l = set_refcnt_live [OF a'] set_refcnt_ok [OF a']
  have c: "unat (vo_refcnt (obj_at st a)) = Suc (count (refs st D R) a)"
    using inv a by (simp add: vh_inv_def counts_ok_def)
  then have u: "unat (vo_refcnt (obj_at st a) - 1) = count (refs st D R) a"
    by (metis diff_Suc_1 nat.simps(3) unat_0 unat_minus_one)
  have p: "0 < count (refs st D R) a"
    using c r by (metis One_nat_def gr0I unat_1 word_unat_eq_iff)
  have "counts_ok st D (add_mset a R)"
    using inv by (simp add: vh_inv_def)
  then have "counts_ok (set_refcnt a (vo_refcnt (obj_at st a) - 1) st) D R"
    using u p a by (auto simp: counts_ok_def l)
  then show ?thesis
    using inv by (simp add: vh_inv_def l)
qed

lemma sum_insert_live:
  fixes f :: "vaddr \<Rightarrow> 'x multiset"
  assumes "fresh_ok st" and "a \<in> live st - D"
  shows "(\<Sum>b \<in> live st - D. f b) = f a + (\<Sum>b \<in> live st - insert a D. f b)"
proof -
  have "live st - insert a D = (live st - D) - {a}"
    by auto
  then show ?thesis
    using sum.remove [of "live st - D" a f] assms finite_live by auto
qed

text \<open>The last reference is dropped: the object is about to be freed, and what it holds is to be given up.\<close>

lemma vh_inv_die:
  assumes inv: "vh_inv st D (add_mset a R) B P" and a: "a \<in> live st - D" and r: "vo_refcnt (obj_at st a) = 1"
  shows "vh_inv (set_refcnt a 0 st) (insert a D) (kids st a + R) (own_block st a + B) (own_pairs st a + P)"
proof -
  have a': "a \<in> live st" and f: "fresh_ok st"
    using a inv by (simp_all add: vh_inv_def)
  note l = set_refcnt_live [OF a'] set_refcnt_ok [OF a']
  have e: "refs st (insert a D) (kids st a + R) = refs st D R"
    by (simp add: refs_def sum_insert_live [OF f a])
  have c: "counts_ok st D (add_mset a R)"
    using inv by (simp add: vh_inv_def)
  then have "unat (vo_refcnt (obj_at st a)) = Suc (count (refs st D R) a)"
    using a by (simp add: counts_ok_def)
  then have "count (refs st D R) a = 0"
    using r by simp
  then have n: "a \<notin># refs st D R"
    by (simp add: count_eq_zero_iff)
  have "counts_ok (set_refcnt a 0 st) (insert a D) (kids st a + R)"
    using c n a unfolding counts_ok_def l e by auto
  moreover have "storage_ok st (insert a D) (own_block st a + B) (own_pairs st a + P)"
    using inv by (simp add: vh_inv_def storage_ok_def sum_insert_live [OF f a] ac_simps)
  moreover have "ranked st (insert a D)"
    using inv unfolding vh_inv_def ranked_def by blast
  ultimately show ?thesis
    using inv a' by (simp add: vh_inv_def l)
qed

lemma vh_inv_static:
  assumes "vh_inv st D (add_mset a R) B P" and "a \<notin> live st"
  shows "vh_inv st D R B P"
  using assms by (auto simp: vh_inv_def counts_ok_def)

lemma vh_inv_in_dom: "vh_inv st D (add_mset a R) B P \<Longrightarrow> vh_objs st a = Some (obj_at st a)"
  by (auto simp: vh_inv_def counts_ok_def obj_at_def)

lemma vh_inv_not_dying: "vh_inv st D (add_mset a R) B P \<Longrightarrow> a \<notin> D"
  by (auto simp: vh_inv_def counts_ok_def)

subsection \<open>Freeing a block, a pair, an object\<close>

text \<open>Objects that do not use a block or a pair do not change when it goes away.\<close>

lemma data_kids_drop:
  assumes "\<And>q. data_block d = Some q \<Longrightarrow> vh_blocks st' q = vh_blocks st q" and "\<And>q. q \<in># data_pairs d \<Longrightarrow> vh_pairs st' q = vh_pairs st q"
  shows "data_kids st' d = data_kids st d" "wf_data st' ob d = wf_data st ob d"
proof -
  show "data_kids st' d = data_kids st d"
    using assms by (cases d) (auto simp: pair_refs_def intro!: arg_cong [where f = sum_mset] image_mset_cong)
  show "wf_data st' ob d = wf_data st ob d"
    using assms by (cases d) (auto simp: dom_def subset_iff)
qed

lemma in_sum_live: "fresh_ok st \<Longrightarrow> a \<in> live st - D \<Longrightarrow> x \<in># f a \<Longrightarrow> x \<in># (\<Sum>b \<in> live st - D. f b)"
  using finite_live [of st] by (auto simp: sum_insert_live)

lemma mset_set_once:
  assumes "add_mset p M = mset_set A"
  shows "p \<notin># M"
proof -
  have "Suc (count M p) = count (mset_set A) p"
    using assms [symmetric] by simp
  then have "count M p = 0"
    by (simp add: count_mset_set' split: if_splits)
  then show ?thesis
    by (simp add: count_eq_zero_iff)
qed

lemma live_storage [simp]: "live (st\<lparr>vh_blocks := b\<rparr>) = live st" "live (st\<lparr>vh_pairs := q\<rparr>) = live st"
  by (simp_all add: live_def)

text \<open>What is to be given up is not part of another object.\<close>

lemma pending_block:
  assumes inv: "vh_inv st D R (add_mset p B) P"
  shows "is_mal p" "p \<in> dom (vh_blocks st)" "a \<in> live st - D \<Longrightarrow> data_block (vo_data (obj_at st a)) \<noteq> Some p"
proof -
  have s: "add_mset p B + (\<Sum>a \<in> live st - D. own_block st a) = mset_set {p \<in> dom (vh_blocks st). is_mal p}"
    "finite {p \<in> dom (vh_blocks st). is_mal p}"
    using inv by (simp_all add: vh_inv_def storage_ok_def)
  have "p \<in># mset_set {p \<in> dom (vh_blocks st). is_mal p}"
    using s(1) [symmetric] by simp
  then show m: "is_mal p" "p \<in> dom (vh_blocks st)"
    using s(2) by simp_all
  show "data_block (vo_data (obj_at st a)) \<noteq> Some p" if a: "a \<in> live st - D"
  proof
    assume d: "data_block (vo_data (obj_at st a)) = Some p"
    have "wf_at st a"
      using inv a by (simp add: vh_inv_def counts_ok_def)
    then have "\<not> vo_static_alloc (obj_at st a)"
      using d m by (cases "vo_data (obj_at st a)") (auto simp: wf_at_def)
    then have "p \<in># (\<Sum>a \<in> live st - D. own_block st a)"
      using inv a d by (intro in_sum_live [of st a]) (auto simp: vh_inv_def own_block_def)
    then show False
      using mset_set_once [OF s(1) [simplified]] by simp
  qed
qed

lemma pending_pair:
  assumes inv: "vh_inv st D R B (add_mset p P)"
  shows "p \<in> dom (vh_pairs st)" "a \<in> live st - D \<Longrightarrow> p \<notin># data_pairs (vo_data (obj_at st a))"
proof -
  have s: "add_mset p P + (\<Sum>a \<in> live st - D. own_pairs st a) = mset_set (dom (vh_pairs st))" "finite (dom (vh_pairs st))"
    using inv by (simp_all add: vh_inv_def storage_ok_def)
  have "p \<in># mset_set (dom (vh_pairs st))"
    using s(1) [symmetric] by simp
  then show "p \<in> dom (vh_pairs st)"
    using s(2) by simp
  show "p \<notin># data_pairs (vo_data (obj_at st a))" if a: "a \<in> live st - D"
  proof
    assume "p \<in># data_pairs (vo_data (obj_at st a))"
    then have "p \<in># (\<Sum>a \<in> live st - D. own_pairs st a)"
      using inv a by (intro in_sum_live [of st a]) (auto simp: vh_inv_def own_pairs_def)
    then show False
      using mset_set_once [OF s(1) [simplified]] by simp
  qed
qed

lemma counts_ok_drop:
  assumes "\<And>a. a \<in> live st - D \<Longrightarrow> kids st' a = kids st a \<and> wf_at st' a = wf_at st a" and "vh_objs st' = vh_objs st"
  shows "counts_ok st' D R = counts_ok st D R" "ranked st' D = ranked st D" "live st' = live st"
proof -
  show l: "live st' = live st"
    using assms(2) by (simp add: live_def)
  then have "refs st' D R = refs st D R"
    using assms(1) by (simp add: refs_def)
  then show "counts_ok st' D R = counts_ok st D R"
    using assms l by (simp add: counts_ok_def obj_at_def)
  show "ranked st' D = ranked st D"
    using assms(1) l by (simp add: ranked_def)
qed

lemma vh_inv_free_block:
  assumes inv: "vh_inv st D R (add_mset p B) P"
  shows "\<exists>st'. blk_free p st = (Inr (), st') \<and> st' = st\<lparr>vh_blocks := (vh_blocks st)(p := None)\<rparr> \<and> vh_inv st' D R B P"
proof -
  note pb = pending_block [OF inv]
  let ?st = "st\<lparr>vh_blocks := (vh_blocks st)(p := None)\<rparr>"
  have "kids ?st a = kids st a \<and> wf_at ?st a = wf_at st a" if a: "a \<in> live st - D" for a
  proof -
    have "obj_at ?st a = obj_at st a"
      by (simp add: obj_at_def)
    then show ?thesis
      unfolding kids_def wf_at_def by (simp only:) (intro conjI data_kids_drop; use pb(3) [OF a] in auto)
  qed
  note c = counts_ok_drop [of st D ?st, OF this]
  have o: "own_block ?st = own_block st" "own_pairs ?st = own_pairs st"
    by (simp_all add: fun_eq_iff own_block_def own_pairs_def obj_at_def)
  have e: "{q \<in> dom (vh_blocks ?st). is_mal q} = {q \<in> dom (vh_blocks st). is_mal q} - {p}"
    by auto
  have "storage_ok ?st D B P"
    using inv pb unfolding vh_inv_def storage_ok_def e o live_storage
    by (auto simp: mset_set_Diff) (metis add_mset_remove_trivial union_mset_add_mset_left)
  moreover have "fresh_ok ?st"
    using inv c(3) by (auto simp: vh_inv_def fresh_ok_def)
  moreover have "statics_ok ?st"
    using inv pb(1) by (auto simp: vh_inv_def is_mal_def elim!: statics_ok_mono)
  ultimately have "vh_inv ?st D R B P"
    using inv c by (simp add: vh_inv_def)
  moreover have "blk_free p st = (Inr (), ?st)"
    using pb(1,2) by (auto simp: is_mal_def)
  ultimately show ?thesis
    by blast
qed

lemma vh_inv_free_pair:
  assumes inv: "vh_inv st D R B (add_mset p P)"
  shows "vh_inv (st\<lparr>vh_pairs := (vh_pairs st)(p := None)\<rparr>) D R B P"
proof -
  note pb = pending_pair [OF inv]
  let ?st = "st\<lparr>vh_pairs := (vh_pairs st)(p := None)\<rparr>"
  have "kids ?st a = kids st a \<and> wf_at ?st a = wf_at st a" if a: "a \<in> live st - D" for a
  proof -
    have "obj_at ?st a = obj_at st a"
      by (simp add: obj_at_def)
    then show ?thesis
      unfolding kids_def wf_at_def by (simp only:) (intro conjI data_kids_drop; use pb(2) [OF a] in auto)
  qed
  note c = counts_ok_drop [of st D ?st, OF this]
  have o: "own_block ?st = own_block st" "own_pairs ?st = own_pairs st"
    by (simp_all add: fun_eq_iff own_block_def own_pairs_def obj_at_def)
  have "storage_ok ?st D B P"
    using inv pb unfolding vh_inv_def storage_ok_def o live_storage
    by (auto simp: mset_set_Diff dom_minus) (metis add_mset_remove_trivial union_mset_add_mset_left)
  moreover have "fresh_ok ?st"
    using inv c(3) by (auto simp: vh_inv_def fresh_ok_def)
  moreover have "statics_ok ?st"
    using inv by (auto simp: vh_inv_def elim!: statics_ok_mono)
  ultimately show ?thesis
    using inv c by (simp add: vh_inv_def)
qed

lemma vh_inv_free_obj:
  assumes inv: "vh_inv st (insert a D) R B P" and a: "a \<notin> D"
  shows "vh_inv (st\<lparr>vh_objs := (vh_objs st)(a := None)\<rparr>) D R B P"
proof -
  let ?st = "st\<lparr>vh_objs := (vh_objs st)(a := None)\<rparr>"
  have l: "live ?st = live st - {a}"
    by (auto simp: live_def)
  then have ld: "live ?st - D = live st - insert a D"
    by auto
  have at: "obj_at ?st b = obj_at st b" if "b \<noteq> a" for b
    using that by (simp add: obj_at_def)
  have k: "kids ?st b = kids st b" "own_block ?st b = own_block st b" "own_pairs ?st b = own_pairs st b" "wf_at ?st b = wf_at st b"
    if "b \<noteq> a" for b
    using at [OF that] data_kids_drop [of _ ?st st] by (simp_all add: kids_def own_block_def own_pairs_def wf_at_def)
  then have r: "refs ?st D R = refs st (insert a D) R"
    by (simp add: refs_def ld)
  have n: "a \<notin># refs st (insert a D) R"
    using inv by (simp add: vh_inv_def counts_ok_def)
  have "obj_at ?st b = obj_at st b" if "b \<in> D" for b
    using at that a by metis
  then have "counts_ok ?st D R"
    using inv k at a n unfolding vh_inv_def counts_ok_def r ld by auto
  moreover have "storage_ok ?st D B P" "ranked ?st D"
    using inv k unfolding vh_inv_def storage_ok_def ranked_def ld by simp_all
  moreover have "fresh_ok ?st"
    using inv l by (auto simp: vh_inv_def fresh_ok_def)
  moreover have "statics_ok ?st"
    using inv live_obj [of a st] by (auto simp: vh_inv_def elim!: statics_ok_mono split: if_splits)
  ultimately show ?thesis
    using inv l a by (auto simp: vh_inv_def)
qed

subsection \<open>Dropping a reference\<close>

text \<open>What dropping references does to the heap: objects, blocks and pairs go away, and reference counts change.\<close>

definition shrinks :: "vheap \<Rightarrow> vheap \<Rightarrow> bool" where
  "shrinks st st' \<longleftrightarrow>
     (\<forall>a ob. vh_objs st' a = Some ob \<longrightarrow> (\<exists>r. vh_objs st a = Some (ob\<lparr>vo_refcnt := r\<rparr>))) \<and>
     (\<forall>a ob. vh_objs st a = Some ob \<longrightarrow> vo_static_struct ob \<longrightarrow> vh_objs st' a = Some ob) \<and>
     vh_blocks st' \<subseteq>\<^sub>m vh_blocks st \<and> (\<forall>n. vh_blocks st' (Other n) = vh_blocks st (Other n)) \<and> vh_pairs st' \<subseteq>\<^sub>m vh_pairs st \<and>
     vh_next st' = vh_next st \<and> vh_junk st' = vh_junk st \<and> vh_mem st' = vh_mem st"

lemma refcnt_self [simp]: "\<exists>r. ob = ob\<lparr>vo_refcnt := r\<rparr>"
  by (rule exI [of _ "vo_refcnt ob"]) simp

lemma shrinks_refl [simp]: "shrinks st st"
  unfolding shrinks_def by simp

lemma shrinks_trans [trans]: "shrinks a b \<Longrightarrow> shrinks b c \<Longrightarrow> shrinks a c"
  unfolding shrinks_def by (auto intro: map_le_trans) (metis vobj.update_convs(2) vobj.surjective)

lemma shrinks_live: "shrinks st st' \<Longrightarrow> live st' \<subseteq> live st"
  by (fastforce simp: shrinks_def live_def)

lemma shrinks_card: "shrinks st st' \<Longrightarrow> fresh_ok st \<Longrightarrow> card (live st' - D) \<le> card (live st - D)"
  by (intro card_mono) (use finite_live shrinks_live in blast)+

lemma shrinks_set_refcnt [simp]: "a \<in> live st \<Longrightarrow> shrinks st (set_refcnt a r st)"
  using live_obj [of a st] unfolding shrinks_def
  by (auto simp: set_refcnt_def)

lemma shrinks_dying:
  assumes "shrinks st st'" and "vh_inv st D R B P" and "vh_inv st' D R' B' P'" and "a \<in> D"
  shows "vh_objs st' a = vh_objs st a"
proof -
  have l: "a \<in> live st" "a \<in> live st'"
    using assms(2-4) by (auto simp: vh_inv_def)
  have z: "vo_refcnt (obj_at st a) = 0" "vo_refcnt (obj_at st' a) = 0"
    using assms(2-4) by (auto simp: vh_inv_def counts_ok_def)
  have "\<exists>r. vh_objs st a = Some ((obj_at st' a)\<lparr>vo_refcnt := r\<rparr>)"
    using assms(1) live_obj [OF l(2)] by (simp add: shrinks_def)
  then obtain r where "vh_objs st a = Some ((obj_at st' a)\<lparr>vo_refcnt := r\<rparr>)" ..
  then have "obj_at st a = (obj_at st' a)\<lparr>vo_refcnt := r\<rparr>" "r = 0"
    using z(1) by (auto simp: obj_at_def)
  then have "obj_at st a = obj_at st' a"
    using z(2) by (metis vobj.surjective vobj.update_convs(2))
  then show ?thesis
    using live_obj l by metis
qed

lemma shrinks_pending:
  assumes "shrinks st st'" and "vh_inv st' D R B P"
  shows "p \<in># B \<Longrightarrow> vh_blocks st' p = vh_blocks st p" "q \<in># P \<Longrightarrow> vh_pairs st' q = vh_pairs st q"
proof -
  show "vh_blocks st' p = vh_blocks st p" if b: "p \<in># B"
  proof -
    obtain B' where "B = add_mset p B'"
      using multi_member_split [OF b] by blast
    then have "p \<in> dom (vh_blocks st')"
      using pending_block(2) assms(2) by blast
    then show ?thesis
      using assms(1) by (simp add: shrinks_def map_le_def)
  qed
  show "vh_pairs st' q = vh_pairs st q" if b: "q \<in># P"
  proof -
    obtain P' where "P = add_mset q P'"
      using multi_member_split [OF b] by blast
    then have "q \<in> dom (vh_pairs st')"
      using pending_pair(1) assms(2) by blast
    then show ?thesis
      using assms(1) by (simp add: shrinks_def map_le_def)
  qed
qed

text \<open>A way to drop references that works as long as fewer than \<open>n\<close> objects are left.\<close>

definition drops :: "nat \<Rightarrow> vaddr set \<Rightarrow> (vaddr option \<Rightarrow> (vheap, unit) cfun) \<Rightarrow> bool" where
  "drops n D f \<longleftrightarrow>
     (\<forall>x st R B P. vh_inv st D (opt_ref x + R) B P \<longrightarrow> card (live st - D) < n \<longrightarrow>
       (\<exists>st'. f x st = (Inr (), st') \<and> vh_inv st' D R B P \<and> shrinks st st'))"

lemma dropsE:
  assumes "drops n D f" and "vh_inv st D (opt_ref x + R) B P" and "card (live st - D) < n"
  obtains st' where "f x st = (Inr (), st')" and "vh_inv st' D R B P" and "shrinks st st'" and "card (live st' - D) < n"
proof -
  obtain st' where s: "f x st = (Inr (), st')" "vh_inv st' D R B P" "shrinks st st'"
    using assms unfolding drops_def by blast
  moreover have "card (live st' - D) < n"
    using shrinks_card [OF s(3), of D] assms(2,3) by (simp add: vh_inv_def)
  ultimately show thesis
    by (rule that)
qed

lemma free_elems_drop:
  assumes d: "drops n D f"
  shows "vh_inv st D (opt_refs (map (nth xs) is) + R) B P \<Longrightarrow> card (live st - D) < n \<Longrightarrow> a \<in> D \<Longrightarrow>
    vo_data (obj_at st a) = U_Array p k \<Longrightarrow> vh_blocks st p = Some (B_Ptrs xs) \<Longrightarrow> p \<in># B \<or> \<not> is_mal p \<Longrightarrow> set is \<subseteq> {..<length xs} \<Longrightarrow>
    \<exists>st'. free_elems f a is st = (Inr (), st') \<and> vh_inv st' D R B P \<and> shrinks st st'"
proof (induction "is" arbitrary: st)
  case (Cons i "is")
  have "vh_objs st a = Some (obj_at st a)"
    using Cons.prems(1,3) live_obj by (auto simp: vh_inv_def)
  then have g: "get_elem a i st = (Inr (xs ! i), st)"
    using Cons.prems by (simp add: get_elem_def andthen_def get_obj_def get_block_def)
  have "vh_inv st D (opt_ref (xs ! i) + (opt_refs (map (nth xs) is) + R)) B P"
    using Cons.prems(1) by (simp add: ac_simps)
  from dropsE [OF d this Cons.prems(2)] obtain s where
    s: "f (xs ! i) st = (Inr (), s)" "vh_inv s D (opt_refs (map (nth xs) is) + R) B P" "shrinks st s" "card (live s - D) < n" .
  have o: "vh_objs s a = vh_objs st a"
    by (rule shrinks_dying [OF s(3) Cons.prems(1) s(2) Cons.prems(3)])
  have b: "vh_blocks s p = vh_blocks st p"
    using Cons.prems(6) shrinks_pending(1) [OF s(3,2)] s(3) by (cases p) (auto simp: is_mal_def shrinks_def)
  obtain st' where "free_elems f a is s = (Inr (), st')" "vh_inv st' D R B P" "shrinks s st'"
    using Cons.IH [OF s(2,4) Cons.prems(3)] Cons.prems(4-7) o b by (auto simp: obj_at_def)
  then show ?case
    using g s shrinks_trans by (auto simp: andthen_def)
qed auto

lemma nvpair_free_drop:
  assumes d: "drops n D f" and inv: "vh_inv st D (pair_refs st p + R) B (add_mset p P)" and c: "card (live st - D) < n"
  shows "\<exists>st'. nvpair_free f p st = (Inr (), st') \<and> vh_inv st' D R B P \<and> shrinks st st'"
proof -
  obtain nm v where nv: "vh_pairs st p = Some (nm, v)"
    using pending_pair(1) [OF inv] by auto
  then have "vh_inv st D (opt_ref nm + (opt_ref v + R)) B (add_mset p P)"
    using inv by (simp add: pair_refs_def ac_simps)
  from dropsE [OF d this c] obtain s where
    s: "f nm st = (Inr (), s)" "vh_inv s D (opt_ref v + R) B (add_mset p P)" "shrinks st s" "card (live s - D) < n" .
  from dropsE [OF d s(2,4)] obtain t where
    t: "f v s = (Inr (), t)" "vh_inv t D R B (add_mset p P)" "shrinks s t" .
  have "vh_pairs s p = Some (nm, v)"
    using shrinks_pending(2) [OF s(3,2), of p] nv by simp
  then have "nvpair_free f p st = (Inr (), t\<lparr>vh_pairs := (vh_pairs t)(p := None)\<rparr>)"
    using nv s(1) t(1) by (simp add: nvpair_free_def andthen_def get_pair_def pair_free_def)
  moreover have "shrinks t (t\<lparr>vh_pairs := (vh_pairs t)(p := None)\<rparr>)"
    using shrinks_refl [of t] by (auto simp: shrinks_def map_le_def)
  ultimately show ?thesis
    using vh_inv_free_pair [OF t(2)] shrinks_trans [OF s(3) shrinks_trans [OF t(3)]] by blast
qed

lemma free_pairs_drop:
  assumes d: "drops n D f"
  shows "vh_inv st D ((\<Sum>p \<in># mset ps. pair_refs st p) + R) B (mset ps + P) \<Longrightarrow> card (live st - D) < n \<Longrightarrow>
    \<exists>st'. free_pairs f ps st = (Inr (), st') \<and> vh_inv st' D R B P \<and> shrinks st st'"
proof (induction ps arbitrary: st)
  case (Cons p ps)
  have "vh_inv st D (pair_refs st p + ((\<Sum>p \<in># mset ps. pair_refs st p) + R)) B (add_mset p (mset ps + P))"
    using Cons.prems(1) by (simp add: ac_simps)
  from nvpair_free_drop [OF d this Cons.prems(2)] obtain s where
    s: "nvpair_free f p st = (Inr (), s)" "vh_inv s D ((\<Sum>p \<in># mset ps. pair_refs st p) + R) B (mset ps + P)" "shrinks st s"
    by blast
  have "pair_refs s q = pair_refs st q" if "q \<in> set ps" for q
    using shrinks_pending(2) [OF s(3,2), of q] that by (simp add: pair_refs_def)
  then have e: "(\<Sum>p \<in># mset ps. pair_refs s p) = (\<Sum>p \<in># mset ps. pair_refs st p)"
    by (intro arg_cong [where f = sum_mset] image_mset_cong) simp
  have "card (live s - D) < n"
    using shrinks_card [OF s(3), of D] Cons.prems by (auto simp: vh_inv_def)
  then obtain st' where "free_pairs f ps s = (Inr (), st')" "vh_inv st' D R B P" "shrinks s st'"
    using Cons.IH [of s] s(2) e by auto
  then show ?case
    using s shrinks_trans by (auto simp: andthen_def)
qed auto

lemma shrinks_block [simp]: "is_mal p \<Longrightarrow> shrinks st (st\<lparr>vh_blocks := (vh_blocks st)(p := None)\<rparr>)"
  by (auto simp: shrinks_def map_le_def is_mal_def)

lemma shrinks_obj [simp]: "a \<in> live st \<Longrightarrow> shrinks st (st\<lparr>vh_objs := (vh_objs st)(a := None)\<rparr>)"
  using live_obj [of a st] by (auto simp: shrinks_def)

lemma free_storage_drop:
  assumes inv: "vh_inv st D R (own + B) P" and own: "own = (if vo_static_alloc ob then {#} else opt_ref (data_block (vo_data ob)))"
    and t: "vo_type ob \<in> {VT_BLOB, VT_STR, VT_SYM, VT_ARRAY}" and wf: "wf_data st0 ob (vo_data ob)"
  shows "\<exists>st'. free_storage ob st = (Inr (), st') \<and> vh_inv st' D R B P \<and> shrinks st st'"
proof (cases "vo_static_alloc ob")
  case True
  then show ?thesis
    using inv own by (simp add: free_storage_def)
next
  case False
  obtain p where p: "data_block (vo_data ob) = Some p"
    using t wf False by (cases "vo_data ob") auto
  then have i: "vh_inv st D R (add_mset p B) P"
    using inv own False by simp
  have "free_storage ob st = blk_free p st"
    using False p by (cases "vo_data ob") (simp_all add: free_storage_def)
  then show ?thesis
    using vh_inv_free_block [OF i] shrinks_block [OF pending_block(1) [OF i]] by auto
qed

lemma free_cons_drop:
  assumes d: "drops n D f" and i: "vh_inv st D (opt_ref h + (opt_ref t + R)) B P" and c: "card (live st - D) < n"
    and a: "a \<in> D" and ob: "vh_objs st a = Some ob" "vo_data ob = U_Cons h t"
  shows "\<exists>st'. free_cons f a st = (Inr (), st') \<and> vh_inv st' D R B P \<and> shrinks st st'"
proof -
  from dropsE [OF d i c] obtain s where
    s: "f h st = (Inr (), s)" "vh_inv s D (opt_ref t + R) B P" "shrinks st s" "card (live s - D) < n" .
  from dropsE [OF d s(2,4)] obtain u where
    u: "f t s = (Inr (), u)" "vh_inv u D R B P" "shrinks s u" .
  have "vh_objs s a = Some ob"
    using shrinks_dying [OF s(3) i s(2) a] ob(1) by simp
  then have "free_cons f a st = (Inr (), u)"
    using ob s(1) u(1) by (simp add: free_cons_def andthen_def get_obj_def)
  then show ?thesis
    using u(2) shrinks_trans [OF s(3) u(3)] by blast
qed

lemma free_array_drop:
  assumes d: "drops n D f" and i: "vh_inv st D (data_kids st (vo_data ob) + R) (own + B) P" and c: "card (live st - D) < n"
    and own: "own = (if vo_static_alloc ob then {#} else opt_ref (data_block (vo_data ob)))"
    and a: "a \<in> D" and ob: "vh_objs st a = Some ob" "vo_data ob = U_Array p k" and wf: "wf_data st ob (vo_data ob)"
  shows "\<exists>st'. free_array f a st = (Inr (), st') \<and> vh_inv st' D R B P \<and> shrinks st st'"
proof -
  obtain xs where xs: "vh_blocks st p = Some (B_Ptrs xs)" "k \<le> length xs" and st: "vo_static_alloc ob \<longleftrightarrow> \<not> is_mal p"
    using wf ob(2) by auto
  have m: "map (nth xs) [0..<k] = take k xs"
    using xs(2) by (auto intro: nth_equalityI)
  have i': "vh_inv st D (opt_refs (map (nth xs) [0..<k]) + R) (own + B) P"
    using i ob(2) xs m by simp
  have "p \<in># own + B \<or> \<not> is_mal p"
    using own st ob(2) by simp
  from free_elems_drop [OF d i' c a _ xs(1) this] obtain s where
    s: "free_elems f a [0..<k] st = (Inr (), s)" "vh_inv s D R (own + B) P" "shrinks st s"
    using ob xs(2) by (fastforce simp: obj_at_def)
  have o: "vh_objs s a = Some ob"
    using shrinks_dying [OF s(3) i' s(2) a] ob(1) by simp
  obtain u where u: "free_storage ob s = (Inr (), u)" "vh_inv u D R B P" "shrinks s u"
    using free_storage_drop [OF s(2) own _ wf] wf ob(2) by auto
  then have "free_array f a st = (Inr (), u)"
    using ob s(1) o by (simp add: free_array_def andthen_def get_obj_def)
  then show ?thesis
    using u(2) shrinks_trans [OF s(3) u(3)] by blast
qed

text \<open>\<open>val_free\<close> on an object with no references left gives up all that it holds.\<close>

lemma val_free_drop:
  assumes d: "drops n (insert a D) f" and a: "a \<notin> D" and c: "card (live st - insert a D) < n"
    and inv: "vh_inv st (insert a D) (kids st a + R) (own_block st a + B) (own_pairs st a + P)" and wf: "wf_at st a"
  shows "\<exists>st'. val_free f a st = (Inr (), st') \<and> vh_inv st' D R B P \<and> shrinks st st'"
proof -
  let ?D = "insert a D"
  define ob where "ob = obj_at st a"
  have ob: "vh_objs st a = Some ob" "vo_refcnt ob = 0"
    using inv live_obj [of a st] by (auto simp: vh_inv_def counts_ok_def ob_def)
  have w: "wf_data st ob (vo_data ob)"
    using wf by (simp add: wf_at_def ob_def)
  have i: "vh_inv st ?D (data_kids st (vo_data ob) + R) ((if vo_static_alloc ob then {#} else opt_ref (data_block (vo_data ob))) + B) (data_pairs (vo_data ob) + P)"
    using inv unfolding kids_def own_block_def own_pairs_def ob_def .
  define body where "body = (case vo_type ob of VT_BLOB \<Rightarrow> free_storage ob | VT_STR \<Rightarrow> free_storage ob | VT_SYM \<Rightarrow> free_storage ob
    | VT_CONS \<Rightarrow> free_cons f a | VT_ARRAY \<Rightarrow> free_array f a | VT_NVL \<Rightarrow> val_free_nvl f ob | _ \<Rightarrow> cret ())"
  have "\<exists>st'. body st = (Inr (), st') \<and> vh_inv st' ?D R B P \<and> shrinks st st'"
  proof (cases "vo_data ob")
    case (U_Cons h t)
    then show ?thesis
      using free_cons_drop [OF d _ c insertI1 ob(1) U_Cons, of R B P] i w by (simp add: body_def add.assoc cong: if_cong)
  next
    case (U_Array p k)
    have "vh_inv st ?D (data_kids st (vo_data ob) + R) ((if vo_static_alloc ob then {#} else opt_ref (data_block (vo_data ob))) + B) P"
      using i U_Array by simp
    from free_array_drop [OF d this c refl insertI1 ob(1) U_Array w] show ?thesis
      using U_Array w by (simp add: body_def)
  next
    case (U_Nvl ps)
    then show ?thesis
      using free_pairs_drop [OF d _ c, of ps R B P] i w ob(2) by (simp add: body_def val_free_nvl_def cong: if_cong)
  next
    case (U_Str_Ptr p)
    then show ?thesis
      using free_storage_drop [OF _ refl _ w, of st ?D R B P] i w by (auto simp: body_def)
  next
    case (U_Blob p k)
    then show ?thesis
      using free_storage_drop [OF _ refl _ w, of st ?D R B P] i w by (auto simp: body_def)
  next
    case (U_Str_Inline x)
    then show ?thesis
      using i w by (auto simp: body_def free_storage_def)
  qed (use i w in \<open>auto simp: body_def cong: if_cong\<close>)
  then obtain s where s: "body st = (Inr (), s)" "vh_inv s ?D R B P" "shrinks st s"
    by blast
  have "val_free f a st = (Inr (), s\<lparr>vh_objs := (vh_objs s)(a := None)\<rparr>)"
    using ob s(1) by (simp add: val_free_def andthen_def get_obj_def body_def obj_free_def)
  moreover have "shrinks s (s\<lparr>vh_objs := (vh_objs s)(a := None)\<rparr>)"
    using s(2) by (intro shrinks_obj) (auto simp: vh_inv_def)
  ultimately show ?thesis
    using vh_inv_free_obj [OF s(2) a] shrinks_trans [OF s(3)] by blast
qed

lemma val_putref_fuel_drops: "drops n D (val_putref_fuel n)"
proof (induction n arbitrary: D)
  case (Suc n)
  show ?case
    unfolding drops_def
  proof (intro allI impI)
    fix x st R B P
    assume inv: "vh_inv st D (opt_ref x + R) B P" and c: "card (live st - D) < Suc n"
    show "\<exists>st'. val_putref_fuel (Suc n) x st = (Inr (), st') \<and> vh_inv st' D R B P \<and> shrinks st st'"
    proof (cases x)
      case None
      then show ?thesis
        using inv by simp
    next
      case (Some a)
      then have i: "vh_inv st D (add_mset a R) B P"
        using inv by simp
      then have o: "vh_objs st a = Some (obj_at st a)"
        by (rule vh_inv_in_dom)
      show ?thesis
      proof (cases "a \<in> live st")
        case False
        then show ?thesis
          using Some o vh_inv_static [OF i] by (auto simp: andthen_def get_obj_def val_isstatic_def live_def)
      next
        case True
        then have a: "a \<in> live st - D"
          using vh_inv_not_dying [OF i] by simp
        have "unat (vo_refcnt (obj_at st a)) = Suc (count (refs st D R) a)"
          using i a by (simp add: vh_inv_def counts_ok_def)
        then have nz: "vo_refcnt (obj_at st a) \<noteq> 0"
          by (metis nat.simps(3) unat_0)
        let ?s = "set_refcnt a (vo_refcnt (obj_at st a) - 1) st"
        have e: "val_putref_fuel (Suc n) x st = (if vo_refcnt (obj_at st a) \<noteq> 1 then (Inr (), ?s) else val_free (val_putref_fuel n) a ?s)"
          using Some o nz live_obj [OF True] by (simp add: andthen_def get_obj_def val_isstatic_def put_obj_def set_refcnt_def)
        show ?thesis
        proof (cases "vo_refcnt (obj_at st a) = 1")
          case False
          then show ?thesis
            using e vh_inv_dec [OF i a False] True by simp
        next
          case one: True
          note l = set_refcnt_live [OF True, of 0]
          have "live st - insert a D \<subset> live st - D"
            using a by auto
          then have "card (live st - insert a D) < n"
            using psubset_card_mono [of "live st - D" "live st - insert a D"] finite_live [of st] i c by (simp add: vh_inv_def)
          moreover have "wf_at st a"
            using i a by (simp add: vh_inv_def counts_ok_def)
          ultimately show ?thesis
            using val_free_drop [OF Suc.IH, of a D "set_refcnt a 0 st" R B P] vh_inv_die [OF i a one] a e one l
              shrinks_trans [OF shrinks_set_refcnt [OF True]] by auto
        qed
      qed
    qed
  qed
qed (simp add: drops_def)

lemma val_putref_drops:
  assumes "vh_inv st D (opt_ref x + R) B P"
  shows "\<exists>st'. val_putref x st = (Inr (), st') \<and> vh_inv st' D R B P \<and> shrinks st st'"
  using val_putref_fuel_drops [of "Suc (vh_next st)" D] assms live_less [of st D] unfolding drops_def val_putref_def vh_inv_def by blast

end
