(* ===== verification/Val_Objects.thy ===== *)
theory Val_Objects
  imports Val_Heap
begin

text \<open>
  Making values: the allocation functions of \<^verbatim>\<open>src/val.c\<close>, \<^verbatim>\<open>src/val_array.c\<close>, \<^verbatim>\<open>src/val_nvl.c\<close> and \<^verbatim>\<open>src/str.c\<close> on the
  heap of \<open>Val_Heap\<close>, with what each does to the references and blocks it is given, also when it fails.

  \<open>den st a v\<close> says that the object at \<open>a\<close> is the value \<open>v\<close> of the theory \<open>Val\<close>.
\<close>

subsection \<open>The functions\<close>

definition upd_obj :: "vaddr \<Rightarrow> (vobj \<Rightarrow> vobj) \<Rightarrow> (vheap, unit) cfun" where
  "upd_obj a f = andthen (get_obj a) (\<lambda>ob. put_obj a (f ob))"

definition val_alloc_obj :: "val_type \<Rightarrow> (vheap, vaddr) cfun" where
  "val_alloc_obj type =
     andthen (on_heap_mem val_cell) (\<lambda>_ st.
       (Inr (Dyn (vh_next st)),
        st\<lparr>vh_objs := (vh_objs st)(Dyn (vh_next st) \<mapsto>
             (vh_junk st (vh_next st))\<lparr>vo_type := type, vo_static_struct := False, vo_refcnt := 1\<rparr>),
           vh_next := Suc (vh_next st)\<rparr>))"

definition obj_int_heap :: "u64 \<Rightarrow> (vheap, vaddr) cfun" where
  "obj_int_heap v =
     andthen (val_alloc_obj VT_INT) (\<lambda>a. andthen (upd_obj a (\<lambda>ob. ob\<lparr>vo_data := U_I v\<rparr>)) (\<lambda>_. cret a))"

definition obj_char :: "u64 \<Rightarrow> (vheap, vaddr) cfun" where
  "obj_char v =
     andthen (val_alloc_obj VT_CHAR) (\<lambda>a. andthen (upd_obj a (\<lambda>ob. ob\<lparr>vo_data := U_I v\<rparr>)) (\<lambda>_. cret a))"

definition obj_int :: "u64 \<Rightarrow> (vheap, vaddr) cfun" where
  "obj_int i = (if i < 10 then cret (Val_Ints i) else obj_int_heap i)"

definition obj_bool :: "bool \<Rightarrow> (vheap, vaddr) cfun" where
  "obj_bool b = cret (if b then Val_True else Val_False)"

definition obj_null :: "(vheap, vaddr) cfun" where
  "obj_null = cret Val_Null"

text \<open>Run \<open>g\<close> when \<open>f\<close> fails, and fail with the error of \<open>f\<close>.\<close>

definition on_error :: "('s, 'a) cfun \<Rightarrow> ('s, unit) cfun \<Rightarrow> ('s, 'a) cfun" where
  "on_error f g s = (case f s of (Inl e, s') \<Rightarrow> andthen g (\<lambda>_. cerr e) s' | r \<Rightarrow> r)"

definition free_if :: "bool \<Rightarrow> baddr option \<Rightarrow> (vheap, unit) cfun" where
  "free_if heap p = (if heap then (case p of None \<Rightarrow> cret () | Some b \<Rightarrow> blk_free b) else cret ())"

definition obj_blob_gen :: "baddr \<Rightarrow> nat \<Rightarrow> bool \<Rightarrow> (vheap, vaddr) cfun" where
  "obj_blob_gen ptr sz heap =
     andthen (on_error (val_alloc_obj VT_BLOB) (free_if heap (Some ptr))) (\<lambda>a.
     andthen (upd_obj a (\<lambda>ob. ob\<lparr>vo_data := U_Blob ptr sz, vo_static_alloc := \<not> heap\<rparr>)) (\<lambda>_. cret a))"

definition obj_blob :: "baddr \<Rightarrow> nat \<Rightarrow> (vheap, vaddr) cfun" where
  "obj_blob ptr sz = obj_blob_gen ptr sz True"

definition obj_blob_dup :: "baddr \<Rightarrow> nat \<Rightarrow> (vheap, vaddr) cfun" where
  "obj_blob_dup ptr sz =
     andthen (blk_alloc sz (B_Bytes (replicate sz 0))) (\<lambda>tmp.
     andthen (get_block ptr) (\<lambda>b.
       case b of
         B_Bytes bs \<Rightarrow>
           if length bs < sz then cerr Fault
           else andthen (\<lambda>st. (Inr (), st\<lparr>vh_blocks := (vh_blocks st)(tmp \<mapsto> B_Bytes (take sz bs))\<rparr>)) (\<lambda>_. obj_blob_gen tmp sz True)
       | _ \<Rightarrow> cerr Fault))"

definition obj_blob_static :: "baddr \<Rightarrow> nat \<Rightarrow> (vheap, vaddr) cfun" where
  "obj_blob_static ptr sz = obj_blob_gen ptr sz False"

definition obj_cons :: "vaddr option \<Rightarrow> vaddr option \<Rightarrow> (vheap, vaddr) cfun" where
  "obj_cons head tail =
     (if head = None \<and> tail = None then cret Val_Cons_Empty
      else andthen (on_error (val_alloc_obj VT_CONS) (andthen (val_putref head) (\<lambda>_. val_putref tail))) (\<lambda>a.
        andthen (upd_obj a (\<lambda>ob. ob\<lparr>vo_data := U_Cons head tail\<rparr>)) (\<lambda>_. cret a)))"

text \<open>The elements are released in order, through the pointer to them.\<close>

primrec put_elems :: "baddr \<Rightarrow> nat list \<Rightarrow> (vheap, unit) cfun" where
  "put_elems p [] = cret ()"
| "put_elems p (i # is) =
     andthen (get_block p) (\<lambda>b.
       case b of
         B_Ptrs xs \<Rightarrow> if i < length xs then andthen (val_putref (xs ! i)) (\<lambda>_. put_elems p is) else cerr Fault
       | _ \<Rightarrow> cerr Fault)"

definition array_error :: "baddr \<Rightarrow> nat \<Rightarrow> bool \<Rightarrow> (vheap, unit) cfun" where
  "array_error vals nelem heap = andthen (put_elems vals [0..<nelem]) (\<lambda>_. free_if heap (Some vals))"

definition array_dup :: "baddr \<Rightarrow> nat \<Rightarrow> (vheap, baddr) cfun" where
  "array_dup vals nelem =
     andthen (on_heap_mem (mem_reallocarray nelem sizeof_ptr)) (\<lambda>cap.
     andthen (get_block vals) (\<lambda>b.
       case b of
         B_Ptrs xs \<Rightarrow>
           if length xs < nelem \<or> cap < sizeof_ptr * nelem then cerr Fault
           else (\<lambda>st. (Inr (Mal (vh_next st)),
             st\<lparr>vh_blocks := (vh_blocks st)(Mal (vh_next st) \<mapsto> B_Ptrs (take nelem xs)), vh_next := Suc (vh_next st)\<rparr>))
       | _ \<Rightarrow> cerr Fault))"

definition obj_array_gen :: "baddr \<Rightarrow> nat \<Rightarrow> bool \<Rightarrow> bool \<Rightarrow> (vheap, vaddr) cfun" where
  "obj_array_gen vals nelem dup heap =
     (if dup \<and> heap then cerr Panic
      else andthen (if dup then on_error (array_dup vals nelem) (array_error vals nelem heap) else cret vals) (\<lambda>vals'.
        andthen (on_error (val_alloc_obj VT_ARRAY) (array_error vals' nelem (heap \<or> dup))) (\<lambda>a.
        andthen (upd_obj a (\<lambda>ob. ob\<lparr>vo_data := U_Array vals' nelem, vo_static_alloc := \<not> (heap \<or> dup)\<rparr>)) (\<lambda>_. cret a))))"

definition obj_array :: "baddr \<Rightarrow> nat \<Rightarrow> (vheap, vaddr) cfun" where
  "obj_array vals nelem = obj_array_gen vals nelem False True"

definition obj_array_dup :: "baddr \<Rightarrow> nat \<Rightarrow> (vheap, vaddr) cfun" where
  "obj_array_dup vals nelem = obj_array_gen vals nelem True False"

definition obj_array_static :: "baddr \<Rightarrow> nat \<Rightarrow> (vheap, vaddr) cfun" where
  "obj_array_static vals nelem = obj_array_gen vals nelem False False"

definition obj_nvl :: "(vheap, vaddr) cfun" where
  "obj_nvl = andthen (val_alloc_obj VT_NVL) (\<lambda>a. andthen (upd_obj a (\<lambda>ob. ob\<lparr>vo_data := U_Nvl []\<rparr>)) (\<lambda>_. cret a))"

text \<open>Strings: \<open>s\<close> points to the start of a block of characters, or is \<open>NULL\<close>. The result of \<open>obj_preallocated\<close> is the object, if there is one.\<close>

definition obj_preallocated :: "val_type \<Rightarrow> bytes \<Rightarrow> vaddr option" where
  "obj_preallocated type s =
     (if s = [] then Some (if type = VT_STR then Empty_String else Empty_Symbol)
      else if type \<noteq> VT_STR then None
      else if length s = 1 \<and> 0 < s ! 0 \<and> s ! 0 < 0x7f then Some (One_Char (s ! 0)) else None)"

definition str_chars :: "baddr option \<Rightarrow> nat \<Rightarrow> (vheap, bytes) cfun" where
  "str_chars s len =
     (case s of
        None \<Rightarrow> cret []
      | Some p \<Rightarrow> andthen (get_block p) (\<lambda>b.
          case b of
            B_Bytes obj \<Rightarrow> (case strnlen obj len of None \<Rightarrow> cerr Fault | Some n \<Rightarrow> cret (take n obj))
          | _ \<Rightarrow> cerr Fault))"

definition str_store :: "val_type \<Rightarrow> bytes \<Rightarrow> baddr option \<Rightarrow> bool \<Rightarrow> (vheap, vaddr) cfun" where
  "str_store type cs s heapalloc =
     andthen (on_error (val_alloc_obj type) (free_if heapalloc s)) (\<lambda>a.
     andthen (upd_obj a (\<lambda>ob. ob\<lparr>vo_static_alloc := inlinable (length cs) \<or> \<not> heapalloc, vo_inline_alloc := inlinable (length cs)\<rparr>)) (\<lambda>_.
       if inlinable (length cs) then
         andthen (upd_obj a (\<lambda>ob. ob\<lparr>vo_data := U_Str_Inline (cs @ [0])\<rparr>)) (\<lambda>_. andthen (free_if heapalloc s) (\<lambda>_. cret a))
       else case s of None \<Rightarrow> cerr Fault | Some p \<Rightarrow> andthen (upd_obj a (\<lambda>ob. ob\<lparr>vo_data := U_Str_Ptr p\<rparr>)) (\<lambda>_. cret a)))"

definition obj_strsym_gen :: "val_type \<Rightarrow> baddr option \<Rightarrow> nat \<Rightarrow> bool \<Rightarrow> bool \<Rightarrow> (vheap, vaddr) cfun" where
  "obj_strsym_gen type s len heapalloc mustdup =
     (if type \<noteq> VT_STR \<and> type \<noteq> VT_SYM then cerr Panic
      else if mustdup \<and> heapalloc then cerr Panic
      else andthen (str_chars s len) (\<lambda>cs.
        case obj_preallocated type cs of
          Some a \<Rightarrow> andthen (free_if heapalloc s) (\<lambda>_. cret a)
        | None \<Rightarrow>
            if \<not> inlinable (length cs) \<and> mustdup then
              andthen (blk_alloc (length cs + 1) (B_Bytes (cs @ [0]))) (\<lambda>tmp. str_store type cs (Some tmp) True)
            else str_store type cs s heapalloc))"

definition obj_strsym_dup :: "baddr option \<Rightarrow> val_type \<Rightarrow> (vheap, vaddr) cfun" where
  "obj_strsym_dup s type = obj_strsym_gen type s USE_STRLEN False True"

definition obj_strsym_dup_len :: "baddr option \<Rightarrow> nat \<Rightarrow> val_type \<Rightarrow> (vheap, vaddr) cfun" where
  "obj_strsym_dup_len s len type = obj_strsym_gen type s len False True"

definition obj_strsym_alloc :: "baddr option \<Rightarrow> val_type \<Rightarrow> (vheap, vaddr) cfun" where
  "obj_strsym_alloc s type = obj_strsym_gen type s USE_STRLEN True False"

definition obj_strsym_alloc_static :: "baddr option \<Rightarrow> val_type \<Rightarrow> (vheap, vaddr) cfun" where
  "obj_strsym_alloc_static s type = obj_strsym_gen type s USE_STRLEN False False"

subsection \<open>What the objects mean\<close>

definition chars_of :: "bytes \<Rightarrow> bytes" where
  "chars_of bs = takeWhile (\<lambda>c. c \<noteq> 0) bs"

fun str_of :: "vheap \<Rightarrow> vdata \<Rightarrow> bytes option" where
  "str_of st (U_Str_Inline s) = Some (chars_of s)"
| "str_of st (U_Str_Ptr p) = (case vh_blocks st p of Some (B_Bytes bs) \<Rightarrow> Some (chars_of bs) | _ \<Rightarrow> None)"
| "str_of st _ = None"

inductive den :: "vheap \<Rightarrow> vaddr \<Rightarrow> val \<Rightarrow> bool" for st where
  den_null: "vh_objs st a = Some ob \<Longrightarrow> vo_type ob = VT_NULL \<Longrightarrow> den st a VNull"
| den_int: "vh_objs st a = Some ob \<Longrightarrow> vo_type ob = VT_INT \<Longrightarrow> vo_data ob = U_I i \<Longrightarrow> den st a (VInt i)"
| den_char: "vh_objs st a = Some ob \<Longrightarrow> vo_type ob = VT_CHAR \<Longrightarrow> vo_data ob = U_I i \<Longrightarrow> den st a (VChar i)"
| den_bool: "vh_objs st a = Some ob \<Longrightarrow> vo_type ob = VT_BOOL \<Longrightarrow> vo_data ob = U_B b \<Longrightarrow> den st a (VBool b)"
| den_str: "vh_objs st a = Some ob \<Longrightarrow> vo_type ob = VT_STR \<Longrightarrow> str_of st (vo_data ob) = Some s \<Longrightarrow> den st a (VStr s)"
| den_sym: "vh_objs st a = Some ob \<Longrightarrow> vo_type ob = VT_SYM \<Longrightarrow> str_of st (vo_data ob) = Some s \<Longrightarrow> den st a (VSym s)"
| den_blob: "vh_objs st a = Some ob \<Longrightarrow> vo_type ob = VT_BLOB \<Longrightarrow> vo_data ob = U_Blob p n \<Longrightarrow> vh_blocks st p = Some (B_Bytes bs) \<Longrightarrow>
    den st a (VBlob (take n bs))"
| den_cons: "vh_objs st a = Some ob \<Longrightarrow> vo_type ob = VT_CONS \<Longrightarrow> vo_data ob = U_Cons h t \<Longrightarrow>
    rel_option (den st) h vh \<Longrightarrow> rel_option (den st) t vt \<Longrightarrow> den st a (VCons vh vt)"
| den_array: "vh_objs st a = Some ob \<Longrightarrow> vo_type ob = VT_ARRAY \<Longrightarrow> vo_data ob = U_Array p n \<Longrightarrow> vh_blocks st p = Some (B_Ptrs xs) \<Longrightarrow>
    take n xs = map Some as \<Longrightarrow> list_all2 (den st) as vs \<Longrightarrow> den st a (VArray vs)"
| den_nvl: "vh_objs st a = Some ob \<Longrightarrow> vo_type ob = VT_NVL \<Longrightarrow> vo_data ob = U_Nvl ps \<Longrightarrow>
    list_all2 (\<lambda>p kv. \<exists>n x. vh_pairs st p = Some (Some n, Some x) \<and> den st n (VStr (fst kv)) \<and> den st x (snd kv)) ps kvs' \<Longrightarrow>
    mset kvs = mset kvs' \<Longrightarrow> sorted_wrt (<) (map fst kvs) \<Longrightarrow> den st a (VNvl kvs)"
  monos list_all2_mono option.rel_mono

text \<open>Values the program can still reach keep their meaning when references are dropped.\<close>

lemma shrinks_obj_at:
  assumes "shrinks st st'" and "vh_objs st a = Some ob" and "vh_objs st' a = Some ob'"
  shows "vo_type ob' = vo_type ob \<and> vo_data ob' = vo_data ob"
  using assms unfolding shrinks_def by fastforce

text \<open>The storage of an object that is there, with its references, is there.\<close>

definition present :: "vheap \<Rightarrow> vaddr set \<Rightarrow> bool" where
  "present st A \<longleftrightarrow> (\<forall>a \<in> A. \<exists>ob. vh_objs st a = Some ob \<and>
     (\<forall>p. data_block (vo_data ob) = Some p \<longrightarrow> vh_blocks st p \<noteq> None) \<and>
     (\<forall>q \<in># data_pairs (vo_data ob). vh_pairs st q \<noteq> None) \<and> set_mset (data_kids st (vo_data ob)) \<subseteq> A)"

lemma str_of_block: "(\<And>q. data_block d = Some q \<Longrightarrow> vh_blocks st' q = vh_blocks st q) \<Longrightarrow> str_of st' d = str_of st d"
  by (cases d) simp_all

lemma shrinks_present:
  assumes s: "shrinks st st'" and p: "present st' A" and a: "a \<in> A" and ob: "vh_objs st a = Some ob"
  obtains ob' where "vh_objs st' a = Some ob'" "vo_type ob' = vo_type ob" "vo_data ob' = vo_data ob"
    "\<And>q. data_block (vo_data ob) = Some q \<Longrightarrow> vh_blocks st' q = vh_blocks st q" "set_mset (data_kids st' (vo_data ob)) \<subseteq> A"
    "str_of st' (vo_data ob) = str_of st (vo_data ob)" "\<And>q. q \<in># data_pairs (vo_data ob) \<Longrightarrow> vh_pairs st' q = vh_pairs st q"
proof -
  obtain ob' where o: "vh_objs st' a = Some ob'" "\<forall>q. data_block (vo_data ob') = Some q \<longrightarrow> vh_blocks st' q \<noteq> None"
    "set_mset (data_kids st' (vo_data ob')) \<subseteq> A" "\<forall>q \<in># data_pairs (vo_data ob'). vh_pairs st' q \<noteq> None"
    using p a by (auto simp: present_def)
  have e: "vo_type ob' = vo_type ob" "vo_data ob' = vo_data ob"
    using shrinks_obj_at [OF s ob o(1)] by simp_all
  have b: "vh_blocks st' q = vh_blocks st q" if "data_block (vo_data ob) = Some q" for q
  proof -
    have "q \<in> dom (vh_blocks st')"
      using o(2) e that by auto
    then show ?thesis
      using s by (auto simp: shrinks_def map_le_def)
  qed
  have "set_mset (data_kids st' (vo_data ob)) \<subseteq> A"
    using o(3) unfolding e(2) .
  moreover have "vh_pairs st' q = vh_pairs st q" if "q \<in># data_pairs (vo_data ob)" for q
  proof -
    have "q \<in> dom (vh_pairs st')"
      using o(4) e that by auto
    then show ?thesis
      using s by (auto simp: shrinks_def map_le_def)
  qed
  ultimately show thesis
    using that [OF o(1) e] b str_of_block [OF b] by blast
qed

lemma den_shrinks:
  assumes "den st a v" and s: "shrinks st st'" and p: "present st' A" and "a \<in> A"
  shows "den st' a v"
  using assms(1,4)
proof (induction rule: den.induct)
  case (den_cons a ob h t vh vt)
  from shrinks_present [OF s p den_cons(6,1)] obtain ob' where
    ob': "vh_objs st' a = Some ob'" "vo_type ob' = VT_CONS" "vo_data ob' = U_Cons h t" "set_mset (opt_ref h + opt_ref t) \<subseteq> A"
    using den_cons(2,3) by auto
  then have "set_option h \<subseteq> A" "set_option t \<subseteq> A"
    by (cases h; cases t; simp)+
  then have "rel_option (den st') h vh" "rel_option (den st') t vt"
    using den_cons(4,5) by (auto elim!: option.rel_mono_strong)
  then show ?case
    using ob'(1-3) by (rule_tac den.den_cons) auto
next
  case (den_array a ob q n xs as vs)
  from shrinks_present [OF s p den_array(7,1)] obtain ob' where
    ob': "vh_objs st' a = Some ob'" "vo_type ob' = VT_ARRAY" "vo_data ob' = U_Array q n" "vh_blocks st' q = Some (B_Ptrs xs)"
    and k: "set_mset (opt_refs (map Some as)) \<subseteq> A"
    using den_array(2-5) by auto
  have "set_mset (opt_refs (map Some as)) = set as"
    by (induction as) auto
  then have "list_all2 (den st') as vs"
    using den_array(6) k by (auto elim!: list.rel_mono_strong)
  then show ?case
    using ob' den_array(5) by (rule_tac den.den_array) auto
next
  case (den_nvl a ob ps kvs' kvs)
  from shrinks_present [OF s p den_nvl(7,1)] obtain ob' where
    ob': "vh_objs st' a = Some ob'" "vo_type ob' = VT_NVL" "vo_data ob' = U_Nvl ps"
    and k: "(\<Union>q \<in> set ps. set_mset (pair_refs st' q)) \<subseteq> A" and eq: "\<And>q. q \<in> set ps \<Longrightarrow> vh_pairs st' q = vh_pairs st q"
    using den_nvl(2,3) by auto
  have "list_all2 (\<lambda>p kv. \<exists>n x. vh_pairs st' p = Some (Some n, Some x) \<and> den st' n (VStr (fst kv)) \<and> den st' x (snd kv)) ps kvs'"
    using den_nvl(6)
  proof (rule list.rel_mono_strong)
    fix q kv
    assume q: "q \<in> set ps" and "\<exists>n x. vh_pairs st q = Some (Some n, Some x) \<and> (den st n (VStr (fst kv)) \<and> (n \<in> A \<longrightarrow> den st' n (VStr (fst kv)))) \<and>
      den st x (snd kv) \<and> (x \<in> A \<longrightarrow> den st' x (snd kv))"
    moreover have "set_mset (pair_refs st' q) \<subseteq> A"
      using k q by blast
    ultimately show "\<exists>n x. vh_pairs st' q = Some (Some n, Some x) \<and> den st' n (VStr (fst kv)) \<and> den st' x (snd kv)"
      using eq [OF q] by (auto simp: pair_refs_def)
  qed
  then show ?case
    using den.den_nvl [OF ob'] den_nvl(4,5) by blast
next
  case (den_str a ob x)
  from shrinks_present [OF s p den_str(4,1)] show ?case
    using den_str(2,3) by (metis den.den_str)
next
  case (den_sym a ob x)
  from shrinks_present [OF s p den_sym(4,1)] show ?case
    using den_sym(2,3) by (metis den.den_sym)
next
  case (den_blob a ob q n bs)
  from shrinks_present [OF s p den_blob(5,1)] show ?case
    using den_blob(2-4) by (auto intro: den.den_blob)
next
  case (den_null a ob)
  from shrinks_present [OF s p den_null(3,1)] show ?case
    using den_null(2) by (metis den.den_null)
next
  case (den_int a ob i)
  from shrinks_present [OF s p den_int(4,1)] show ?case
    using den_int(2,3) by (metis den.den_int)
next
  case (den_char a ob i)
  from shrinks_present [OF s p den_char(4,1)] show ?case
    using den_char(2,3) by (metis den.den_char)
next
  case (den_bool a ob b)
  from shrinks_present [OF s p den_bool(4,1)] show ?case
    using den_bool(2,3) by (metis den.den_bool)
qed

text \<open>In a heap that satisfies the invariant everything the objects refer to is there.\<close>

lemma vh_inv_present:
  assumes inv: "vh_inv st D R B P"
  shows "present st (dom (vh_objs st) - D)"
  unfolding present_def
proof
  fix a
  assume a: "a \<in> dom (vh_objs st) - D"
  then obtain ob where ob: "vh_objs st a = Some ob"
    by auto
  have st: "static_data (vo_data ob) \<and> wf_data st ob (vo_data ob)" if "vo_static_struct ob"
    using inv ob that by (auto simp: vh_inv_def statics_ok_def)
  have lv: "wf_data st ob (vo_data ob) \<and> set_mset (data_kids st (vo_data ob)) \<subseteq> dom (vh_objs st) - D" if "\<not> vo_static_struct ob"
  proof -
    have l: "a \<in> live st - D" "obj_at st a = ob"
      using ob a that by (auto simp: live_def obj_at_def)
    have "set_mset (kids st a) \<subseteq> set_mset (refs st D R)"
      using inv l(1) in_sum_live [of st a D _ "kids st"] by (auto simp: vh_inv_def refs_def)
    then show ?thesis
      using inv l by (auto simp: vh_inv_def counts_ok_def wf_at_def kids_def)
  qed
  have w: "wf_data st ob (vo_data ob)"
    using st lv by blast
  have "vh_blocks st p \<noteq> None" if "data_block (vo_data ob) = Some p" for p
    using w that by (cases "vo_data ob") auto
  moreover have "vh_pairs st q \<noteq> None" if "q \<in># data_pairs (vo_data ob)" for q
    using w that by (cases "vo_data ob") auto
  moreover have "set_mset (data_kids st (vo_data ob)) \<subseteq> dom (vh_objs st) - D"
    using st lv by (cases "vo_static_struct ob"; cases "vo_data ob") auto
  ultimately show "\<exists>ob. vh_objs st a = Some ob \<and> (\<forall>p. data_block (vo_data ob) = Some p \<longrightarrow> vh_blocks st p \<noteq> None) \<and>
      (\<forall>q \<in># data_pairs (vo_data ob). vh_pairs st q \<noteq> None) \<and> set_mset (data_kids st (vo_data ob)) \<subseteq> dom (vh_objs st) - D"
    using ob by blast
qed

text \<open>Without references there are no objects.\<close>

lemma no_leak:
  assumes inv: "vh_inv st {} {#} B {#}"
  shows "live st = {}" "B = mset_set {p \<in> dom (vh_blocks st). is_mal p}" "vh_pairs st = Map.empty"
proof -
  show l: "live st = {}"
  proof (rule ccontr)
    assume ne: "live st \<noteq> {}"
    have fin: "finite (live st)"
      using inv finite_live by (simp add: vh_inv_def)
    obtain rank :: "vaddr \<Rightarrow> nat" where r: "\<And>a b. a \<in> live st \<Longrightarrow> b \<in># kids st a \<Longrightarrow> rank b < rank a"
      using inv by (auto simp: vh_inv_def ranked_def)
    have "Max (rank ` live st) \<in> rank ` live st"
      using ne fin by simp
    then obtain a where a: "a \<in> live st" "Max (rank ` live st) = rank a"
      by blast
    have m: "rank b \<le> rank a" if "b \<in> live st" for b
      using Max_ge [of "rank ` live st" "rank b"] fin that a(2) by simp
    have "a \<in># refs st {} {#}"
      using inv a(1) by (auto simp: vh_inv_def counts_ok_def)
    then obtain b where "b \<in> live st" "a \<in># kids st b"
      using fin by (auto simp: refs_def set_mset_sum)
    then show False
      using r m by fastforce
  qed
  then show "B = mset_set {p \<in> dom (vh_blocks st). is_mal p}"
    using inv by (simp add: vh_inv_def storage_ok_def)
  have "mset_set (dom (vh_pairs st)) = {#}" "finite (dom (vh_pairs st))"
    using inv l by (simp_all add: vh_inv_def storage_ok_def)
  then show "vh_pairs st = Map.empty"
    by (simp add: mset_set_empty_iff)
qed

subsection \<open>New objects and blocks\<close>

definition add_obj :: "vobj \<Rightarrow> vheap \<Rightarrow> vheap" where
  "add_obj ob st = st\<lparr>vh_objs := (vh_objs st)(Dyn (vh_next st) \<mapsto> ob), vh_next := Suc (vh_next st)\<rparr>"

definition add_block :: "block \<Rightarrow> vheap \<Rightarrow> vheap" where
  "add_block b st = st\<lparr>vh_blocks := (vh_blocks st)(Mal (vh_next st) \<mapsto> b), vh_next := Suc (vh_next st)\<rparr>"

lemma add_obj_sel [simp]:
  "vh_objs (add_obj ob st) = (vh_objs st)(Dyn (vh_next st) \<mapsto> ob)" "vh_blocks (add_obj ob st) = vh_blocks st"
  "vh_pairs (add_obj ob st) = vh_pairs st" "vh_next (add_obj ob st) = Suc (vh_next st)" "vh_junk (add_obj ob st) = vh_junk st"
  "vh_mem (add_obj ob st) = vh_mem st"
  by (simp_all add: add_obj_def)

lemma add_block_sel [simp]:
  "vh_objs (add_block b st) = vh_objs st" "vh_blocks (add_block b st) = (vh_blocks st)(Mal (vh_next st) \<mapsto> b)"
  "vh_pairs (add_block b st) = vh_pairs st" "vh_next (add_block b st) = Suc (vh_next st)" "vh_junk (add_block b st) = vh_junk st"
  "vh_mem (add_block b st) = vh_mem st"
  by (simp_all add: add_block_def)

lemma den_grow:
  assumes "den st a v" and "vh_objs st \<subseteq>\<^sub>m vh_objs st'" and "vh_blocks st \<subseteq>\<^sub>m vh_blocks st'" and "vh_pairs st \<subseteq>\<^sub>m vh_pairs st'"
  shows "den st' a v"
  using assms(1)
proof (induction rule: den.induct)
  case (den_cons a ob h t vh vt)
  then have "rel_option (den st') h vh" "rel_option (den st') t vt"
    by (auto elim: option.rel_mono_strong)
  then show ?case
    using den_cons(1-3) assms(2) by (auto simp: map_le_def dom_def intro!: den.den_cons)
next
  case (den_array a ob p n xs as vs)
  then have "list_all2 (den st') as vs"
    by (auto elim: list.rel_mono_strong)
  then show ?case
    using den_array(1-5) assms(2,3) by (auto simp: map_le_def dom_def intro!: den.den_array)
next
  case (den_nvl a ob ps kvs' kvs)
  then have "list_all2 (\<lambda>p kv. \<exists>n x. vh_pairs st' p = Some (Some n, Some x) \<and> den st' n (VStr (fst kv)) \<and> den st' x (snd kv)) ps kvs'"
    using assms(4) by (fastforce elim: list.rel_mono_strong simp: map_le_def dom_def)
  moreover have "vh_objs st' a = Some ob"
    using den_nvl(1) assms(2) by (auto simp: map_le_def dom_def)
  ultimately show ?case
    using den.den_nvl [of st' a ob ps kvs' kvs] den_nvl(2-5) by blast
next
  case (den_str a ob s)
  moreover have "str_of st' (vo_data ob) = Some s"
    using den_str(3) assms(3) by (cases "vo_data ob") (auto simp: map_le_def dom_def split: option.splits block.splits)
  ultimately show ?case
    using assms(2) by (auto simp: map_le_def dom_def intro!: den.den_str)
next
  case (den_sym a ob s)
  moreover have "str_of st' (vo_data ob) = Some s"
    using den_sym(3) assms(3) by (cases "vo_data ob") (auto simp: map_le_def dom_def split: option.splits block.splits)
  ultimately show ?case
    using assms(2) by (auto simp: map_le_def dom_def intro!: den.den_sym)
qed (use assms(2,3) in \<open>auto simp: map_le_def dom_def intro: den.intros\<close>)

lemma live_mem [simp]: "live (st\<lparr>vh_mem := m\<rparr>) = live st"
  by (simp add: live_def)

lemma vh_inv_mem [simp]: "vh_inv (st\<lparr>vh_mem := m\<rparr>) D R B P = vh_inv st D R B P"
proof -
  let ?s = "st\<lparr>vh_mem := m\<rparr>"
  have d: "data_kids ?s = data_kids st" "wf_data ?s = wf_data st" "obj_at ?s = obj_at st"
    by (simp_all add: fun_eq_iff data_kids_cong wf_data_cong obj_at_def)
  then have k: "kids ?s = kids st" "own_block ?s = own_block st" "own_pairs ?s = own_pairs st" "wf_at ?s = wf_at st"
    by (simp_all add: fun_eq_iff kids_def own_block_def own_pairs_def wf_at_def)
  then have "counts_ok ?s D R = counts_ok st D R" "storage_ok ?s D B P = storage_ok st D B P" "ranked ?s D = ranked st D"
    by (simp_all add: counts_ok_def refs_def storage_ok_def ranked_def d)
  then show ?thesis
    by (simp add: vh_inv_def fresh_ok_def statics_ok_def d)
qed

lemma vh_inv_new:
  assumes inv: "vh_inv st {} (K + R) (S + B) (Q + P)" and ob: "\<not> vo_static_struct ob" "vo_refcnt ob = 1" "wf_data st ob (vo_data ob)"
    and K: "K = data_kids st (vo_data ob)" and S: "S = (if vo_static_alloc ob then {#} else opt_ref (data_block (vo_data ob)))"
    and Q: "Q = data_pairs (vo_data ob)"
  shows "vh_inv (add_obj ob st) {} (add_mset (Dyn (vh_next st)) R) B P"
proof -
  let ?a = "Dyn (vh_next st)" and ?s = "add_obj ob st"
  have f: "fresh_ok st" and c: "counts_ok st {} (K + R)"
    using inv by (simp_all add: vh_inv_def)
  have na: "vh_objs st ?a = None"
    using f by (simp add: fresh_ok_def)
  then have al: "?a \<notin> live st" and ar: "?a \<notin># refs st {} (K + R)"
    using c by (auto simp: live_def counts_ok_def)
  have l: "live ?s = insert ?a (live st)"
    using ob(1) na by (auto simp: live_def add_obj_def)
  have at: "obj_at ?s b = (if b = ?a then ob else obj_at st b)" for b
    by (simp add: obj_at_def add_obj_def)
  have d: "data_kids ?s = data_kids st" "wf_data ?s = wf_data st"
    by (simp_all add: fun_eq_iff add_obj_def data_kids_cong wf_data_cong)
  have k: "kids ?s b = (if b = ?a then K else kids st b)" "own_block ?s b = (if b = ?a then S else own_block st b)"
      "own_pairs ?s b = (if b = ?a then Q else own_pairs st b)" "wf_at ?s b = (if b = ?a then wf_data st ob (vo_data ob) else wf_at st b)" for b
    unfolding kids_def own_block_def own_pairs_def wf_at_def at d K S Q by auto
  have sm: "(\<Sum>b \<in> live ?s. g b) = g ?a + (\<Sum>b \<in> live st. g b)" for g :: "vaddr \<Rightarrow> 'z multiset"
    using al finite_live [OF f] by (simp add: l)
  have e: "x \<noteq> ?a" if "x \<in> live st" for x
    using that al by auto
  have r: "refs ?s {} (add_mset ?a R) = add_mset ?a (refs st {} (K + R))"
    using e by (simp add: refs_def sm k cong: sum.cong)
  have "counts_ok ?s {} (add_mset ?a R)"
    unfolding counts_ok_def r l using c ob ar e
    by (auto simp: counts_ok_def at k not_in_iff)
  moreover have "storage_ok ?s {} B P"
    using inv e by (simp add: vh_inv_def storage_ok_def sm k ac_simps cong: sum.cong)
  moreover have "ranked ?s {}"
  proof -
    obtain rank :: "vaddr \<Rightarrow> nat" where rk: "\<And>x y. x \<in> live st \<Longrightarrow> y \<in># kids st x \<Longrightarrow> rank y < rank x"
      using inv by (auto simp: vh_inv_def ranked_def)
    have nk: "y \<noteq> ?a" if "y \<in># K \<or> x \<in> live st \<and> y \<in># kids st x" for x y
    proof -
      have "y \<in># refs st {} (K + R)"
        using that in_sum_live [OF f, of x "{}" y "kids st"] by (auto simp: refs_def)
      then show ?thesis
        using ar by auto
    qed
    have "rank y < Suc (\<Sum>z \<in># K. rank z)" if "y \<in># K" for y
      using multi_member_split [OF that] by auto
    moreover have "y \<noteq> ?a" if "x \<in> live st" "y \<in># kids st x" for x y
      using nk that by blast
    ultimately show ?thesis
      unfolding ranked_def using rk nk
      by (intro exI [of _ "rank(?a := Suc (\<Sum>z \<in># K. rank z))"]) (fastforce simp: l k)
  qed
  moreover have "fresh_ok ?s"
    using f l by (auto simp: fresh_ok_def add_obj_def)
  moreover have "statics_ok ?s"
    using inv na ob(1) by (auto simp: vh_inv_def add_obj_def elim!: statics_ok_mono split: if_splits)
  ultimately show ?thesis
    by (simp add: vh_inv_def)
qed

lemma vh_inv_new_block:
  assumes inv: "vh_inv st D R B P"
  shows "vh_inv (add_block b st) D R (add_mset (Mal (vh_next st)) B) P"
proof -
  let ?p = "Mal (vh_next st)" and ?s = "add_block b st"
  have np: "vh_blocks st ?p = None" and f: "fresh_ok st"
    using inv by (simp_all add: vh_inv_def fresh_ok_def)
  have l: "live ?s = live st"
    by (simp add: live_def)
  have at: "obj_at ?s = obj_at st"
    by (simp add: fun_eq_iff obj_at_def)
  have "kids ?s a = kids st a \<and> wf_at ?s a = wf_at st a" if a: "a \<in> live st - D" for a
  proof -
    have "wf_at st a"
      using inv a by (simp add: vh_inv_def counts_ok_def)
    then have "vh_blocks ?s q = vh_blocks st q" if "data_block (vo_data (obj_at st a)) = Some q" for q
      using that np by (cases "vo_data (obj_at st a)") (auto simp: wf_at_def)
    then show ?thesis
      unfolding kids_def wf_at_def at by (intro conjI data_kids_drop) auto
  qed
  note c = counts_ok_drop [of st D ?s, OF this]
  have o: "own_block ?s = own_block st" "own_pairs ?s = own_pairs st"
    by (simp_all add: fun_eq_iff own_block_def own_pairs_def at)
  have e: "{q \<in> dom (vh_blocks ?s). is_mal q} = insert ?p {q \<in> dom (vh_blocks st). is_mal q}"
    by (auto simp: is_mal_def)
  have "storage_ok ?s D (add_mset ?p B) P"
    using inv np unfolding vh_inv_def storage_ok_def e o l by (auto simp: dom_def)
  moreover have "fresh_ok ?s"
    using f l by (auto simp: fresh_ok_def)
  moreover have "statics_ok ?s"
    using inv by (auto simp: vh_inv_def elim!: statics_ok_mono)
  ultimately show ?thesis
    using inv c l by (simp add: vh_inv_def)
qed

subsection \<open>What the functions make\<close>

definition keeps :: "vheap \<Rightarrow> vheap \<Rightarrow> vaddr multiset \<Rightarrow> bool" where
  "keeps st st' R \<longleftrightarrow> (\<forall>a \<in># R. \<forall>w. den st a w \<longrightarrow> den st' a w)"

text \<open>
  The outcome \<open>r\<close> of a function that makes the value \<open>v\<close>: a reference to an object with this value is added to those the
  program holds, or memory ran out. The other references keep their values.
\<close>

definition made :: "vheap \<Rightarrow> vheap \<Rightarrow> vaddr multiset \<Rightarrow> baddr multiset \<Rightarrow> nat multiset \<Rightarrow> vaddr res \<Rightarrow> val \<Rightarrow> bool" where
  "made st st' R B P r v \<longleftrightarrow>
     keeps st st' R \<and>
     (case r of
        Inr a \<Rightarrow> vh_inv st' {} (add_mset a R) B P \<and> den st' a v
      | Inl e \<Rightarrow> e = Errno ENOMEM \<and> \<not> mem_plenty (vh_mem st) \<and> vh_inv st' {} R B P)"

lemma keeps_refl [simp]: "keeps st st R"
  by (simp add: keeps_def)

lemma keeps_trans [trans]: "keeps a b R \<Longrightarrow> keeps b c R \<Longrightarrow> keeps a c R"
  by (simp add: keeps_def)

lemma keeps_grow: "vh_objs st \<subseteq>\<^sub>m vh_objs st' \<Longrightarrow> vh_blocks st \<subseteq>\<^sub>m vh_blocks st' \<Longrightarrow> vh_pairs st \<subseteq>\<^sub>m vh_pairs st' \<Longrightarrow> keeps st st' R"
  using den_grow by (auto simp: keeps_def)

lemma keeps_mem [simp]: "keeps st (st\<lparr>vh_mem := m\<rparr>) R"
  by (rule keeps_grow) simp_all

lemma keeps_add_obj: "fresh_ok st \<Longrightarrow> keeps st (add_obj ob st) R"
  by (rule keeps_grow) (auto simp: map_le_def fresh_ok_def)

lemma keeps_add_block: "fresh_ok st \<Longrightarrow> keeps st (add_block b st) R"
  by (rule keeps_grow) (auto simp: map_le_def fresh_ok_def)

lemma refs_in_dom: "vh_inv st D R B P \<Longrightarrow> a \<in># R \<Longrightarrow> a \<in> dom (vh_objs st)"
  by (auto simp: vh_inv_def counts_ok_def refs_def)

lemma keeps_shrinks:
  assumes "shrinks st st'" and "vh_inv st' {} R B P"
  shows "keeps st st' R"
  unfolding keeps_def
  using den_shrinks [OF _ assms(1) vh_inv_present [OF assms(2)]] refs_in_dom [OF assms(2)] by auto

lemma keeps_shrinks_mem: "shrinks (st\<lparr>vh_mem := m\<rparr>) st' \<Longrightarrow> vh_inv st' {} R B P \<Longrightarrow> keeps st st' R"
  using keeps_trans [OF keeps_mem keeps_shrinks] by blast

lemma fresh_mem [simp]: "fresh_ok (st\<lparr>vh_mem := m\<rparr>) = fresh_ok st"
  by (simp add: fresh_ok_def)

lemma vh_inv_fresh: "vh_inv st D R B P \<Longrightarrow> fresh_ok st"
  by (simp add: vh_inv_def)

lemma val_alloc_obj_cases:
  obtains (ok) m where
      "val_alloc_obj type st = (Inr (Dyn (vh_next st)),
         add_obj ((vh_junk st (vh_next st))\<lparr>vo_type := type, vo_static_struct := False, vo_refcnt := 1\<rparr>) (st\<lparr>vh_mem := m\<rparr>))"
    | (nomem) m where "val_alloc_obj type st = (fail ENOMEM, st\<lparr>vh_mem := m\<rparr>)" "\<not> mem_plenty (vh_mem st)"
  using yields_val_cell
proof (cases rule: yields_cases [of val_cell sizeof_val "vh_mem st"])
  case (ok m)
  then show ?thesis
    by (intro that(1)) (simp add: val_alloc_obj_def andthen_def on_heap_mem_def add_obj_def)
next
  case (nomem m)
  then show ?thesis
    by (intro that(2)) (simp_all add: val_alloc_obj_def andthen_def on_heap_mem_def)
qed

lemma upd_obj_add [simp]: "n = vh_next st \<Longrightarrow> upd_obj (Dyn n) f (add_obj ob st) = (Inr (), add_obj (f ob) st)"
  by (simp add: upd_obj_def andthen_def get_obj_def put_obj_def add_obj_def)

lemma made_new:
  assumes inv: "vh_inv st {} (K + R) (S + B) (Q + P)" and ob: "\<not> vo_static_struct ob" "vo_refcnt ob = 1" "wf_data st ob (vo_data ob)"
    and "K = data_kids st (vo_data ob)" "S = (if vo_static_alloc ob then {#} else opt_ref (data_block (vo_data ob)))" "Q = data_pairs (vo_data ob)"
    and d: "den (add_obj ob (st\<lparr>vh_mem := m\<rparr>)) (Dyn (vh_next st)) v"
  shows "made st (add_obj ob (st\<lparr>vh_mem := m\<rparr>)) R B P (Inr (Dyn (vh_next st))) v"
proof -
  let ?s = "st\<lparr>vh_mem := m\<rparr>"
  have "vh_inv ?s {} (K + R) (S + B) (Q + P)"
    using inv by simp
  moreover have "data_kids ?s = data_kids st" "wf_data ?s = wf_data st"
    by (simp_all add: fun_eq_iff data_kids_cong wf_data_cong)
  ultimately have "vh_inv (add_obj ob ?s) {} (add_mset (Dyn (vh_next ?s)) R) B P"
    by (intro vh_inv_new) (use assms in simp_all)
  moreover have "keeps st (add_obj ob ?s) R"
    using keeps_trans [OF keeps_mem keeps_add_obj] vh_inv_fresh [OF inv] by simp
  ultimately show ?thesis
    using d by (simp add: made_def)
qed

lemma made_nomem: "vh_inv st {} R B P \<Longrightarrow> \<not> mem_plenty (vh_mem st) \<Longrightarrow> made st (st\<lparr>vh_mem := m\<rparr>) R B P (fail ENOMEM) v"
  by (simp add: made_def)

lemma made_static:
  assumes inv: "vh_inv st {} R B P" and a: "preset a \<noteq> None" and d: "den st a v"
  shows "made st st R B P (Inr a) v"
proof -
  obtain ob where "preset a = Some ob"
    using a by blast
  then have "vh_objs st a = Some ob" "vo_static_struct ob"
    using inv preset_static by (auto simp: vh_inv_def statics_ok_def map_le_def dom_def)
  then have "a \<notin> live st" "a \<in> dom (vh_objs st)"
    by (auto simp: live_def)
  then have "vh_inv st {} (add_mset a R) B P"
    using inv by (auto simp: vh_inv_def counts_ok_def)
  then show ?thesis
    using d by (simp add: made_def)
qed

lemma preset_obj: "vh_inv st D R B P \<Longrightarrow> preset a = Some ob \<Longrightarrow> vh_objs st a = Some ob"
  by (auto simp: vh_inv_def statics_ok_def map_le_def dom_def)

text \<open>The common course: allocate, clean up on failure, fill in the object.\<close>

lemma made_alloc:
  assumes inv: "vh_inv st {} (K + R) (S + B) (Q + P)"
    and f: "\<And>ob. vo_type ob = type \<Longrightarrow> \<not> vo_static_struct ob \<Longrightarrow> vo_refcnt ob = 1 \<Longrightarrow>
      \<not> vo_static_struct (f ob) \<and> vo_refcnt (f ob) = 1 \<and> wf_data st (f ob) (vo_data (f ob)) \<and> K = data_kids st (vo_data (f ob)) \<and>
      S = (if vo_static_alloc (f ob) then {#} else opt_ref (data_block (vo_data (f ob)))) \<and> Q = data_pairs (vo_data (f ob)) \<and>
      (\<forall>m. den (add_obj (f ob) (st\<lparr>vh_mem := m\<rparr>)) (Dyn (vh_next st)) v)"
    and g: "\<And>m. \<exists>s. g (st\<lparr>vh_mem := m\<rparr>) = (Inr (), s) \<and> vh_inv s {} R B P \<and> keeps st s R"
  shows "\<exists>r st'. andthen (on_error (val_alloc_obj type) g) (\<lambda>a. andthen (upd_obj a f) (\<lambda>_. cret a)) st = (r, st') \<and> made st st' R B P r v"
proof (cases rule: val_alloc_obj_cases [of type st])
  case (ok m)
  let ?ob = "(vh_junk st (vh_next st))\<lparr>vo_type := type, vo_static_struct := False, vo_refcnt := 1\<rparr>"
  have "made st (add_obj (f ?ob) (st\<lparr>vh_mem := m\<rparr>)) R B P (Inr (Dyn (vh_next st))) v"
    using f [of ?ob] by (intro made_new [OF inv]) auto
  then show ?thesis
    using ok by (simp add: andthen_def on_error_def)
next
  case (nomem m)
  then show ?thesis
    using g [of m] by (auto simp: andthen_def on_error_def made_def)
qed

lemma on_error_cret [simp]: "on_error f (cret ()) = f"
  by (auto simp: fun_eq_iff on_error_def andthen_def split: prod.splits sum.splits)

lemma made_alloc_plain:
  assumes inv: "vh_inv st {} R B P"
    and f: "\<And>ob. vo_type ob = type \<Longrightarrow> \<not> vo_static_struct ob \<Longrightarrow> vo_refcnt ob = 1 \<Longrightarrow>
      \<not> vo_static_struct (f ob) \<and> vo_refcnt (f ob) = 1 \<and> wf_data st (f ob) (vo_data (f ob)) \<and> data_kids st (vo_data (f ob)) = {#} \<and>
      data_block (vo_data (f ob)) = None \<and> data_pairs (vo_data (f ob)) = {#} \<and>
      (\<forall>m. den (add_obj (f ob) (st\<lparr>vh_mem := m\<rparr>)) (Dyn (vh_next st)) v)"
  shows "\<exists>r st'. andthen (val_alloc_obj type) (\<lambda>a. andthen (upd_obj a f) (\<lambda>_. cret a)) st = (r, st') \<and> made st st' R B P r v"
proof -
  have "\<exists>r st'. andthen (on_error (val_alloc_obj type) (cret ())) (\<lambda>a. andthen (upd_obj a f) (\<lambda>_. cret a)) st = (r, st') \<and> made st st' R B P r v"
    by (rule made_alloc [where K = "{#}" and S = "{#}" and Q = "{#}"]) (use inv f in auto)
  then show ?thesis
    by simp
qed

lemma obj_int_made:
  assumes inv: "vh_inv st {} R B P"
  shows "\<exists>r st'. obj_int i st = (r, st') \<and> made st st' R B P r (VInt i)"
proof (cases "i < 10")
  case True
  then show ?thesis
    using preset_obj [OF inv, of "Val_Ints i"]
    by (auto simp: obj_int_def INIT_STATIC_VAL_def intro!: made_static [OF inv] den_int)
next
  case False
  then have "obj_int i = obj_int_heap i"
    by (simp add: obj_int_def)
  moreover have "\<exists>r st'. obj_int_heap i st = (r, st') \<and> made st st' R B P r (VInt i)"
    unfolding obj_int_heap_def by (rule made_alloc_plain [OF inv]) (auto intro!: den_int)
  ultimately show ?thesis
    by simp
qed

lemma obj_char_made:
  assumes inv: "vh_inv st {} R B P"
  shows "\<exists>r st'. obj_char i st = (r, st') \<and> made st st' R B P r (VChar i)"
  unfolding obj_char_def by (rule made_alloc_plain [OF inv]) (auto intro!: den_char)

lemma obj_nvl_made:
  assumes inv: "vh_inv st {} R B P"
  shows "\<exists>r st'. obj_nvl st = (r, st') \<and> made st st' R B P r (VNvl [])"
  unfolding obj_nvl_def by (rule made_alloc_plain [OF inv]) (auto intro!: den_nvl)

lemma obj_bool_made:
  assumes inv: "vh_inv st {} R B P"
  shows "\<exists>r st'. obj_bool b st = (r, st') \<and> made st st' R B P r (VBool b)"
  using preset_obj [OF inv, of Val_True] preset_obj [OF inv, of Val_False]
  by (auto simp: obj_bool_def INIT_STATIC_VAL_def intro!: made_static [OF inv] den_bool)

lemma obj_null_made:
  assumes inv: "vh_inv st {} R B P"
  shows "\<exists>r st'. obj_null st = (r, st') \<and> made st st' R B P r VNull"
  using preset_obj [OF inv, of Val_Null] by (auto simp: obj_null_def INIT_STATIC_VAL_def intro!: made_static [OF inv] den_null)

text \<open>A pair of parts, each of which may be \<open>NULL\<close>.\<close>

lemma den_opt_grow:
  assumes "rel_option (den st) x v" and "vh_objs st \<subseteq>\<^sub>m vh_objs st'" and "vh_blocks st \<subseteq>\<^sub>m vh_blocks st'" and "vh_pairs st \<subseteq>\<^sub>m vh_pairs st'"
  shows "rel_option (den st') x v"
  using assms by (auto elim!: option.rel_mono_strong intro: den_grow)

lemma add_obj_le: "fresh_ok st \<Longrightarrow> vh_objs st \<subseteq>\<^sub>m vh_objs (add_obj ob (st\<lparr>vh_mem := m\<rparr>))"
  by (auto simp: map_le_def fresh_ok_def)

lemma obj_cons_made:
  assumes inv: "vh_inv st {} (opt_ref h + opt_ref t + R) B P" and d: "rel_option (den st) h vh" "rel_option (den st) t vt"
  shows "\<exists>r st'. obj_cons h t st = (r, st') \<and> made st st' R B P r (VCons vh vt)"
proof (cases "h = None \<and> t = None")
  case True
  then show ?thesis
    using preset_obj [of st "{}" R B P Val_Cons_Empty] inv d
    by (auto simp: obj_cons_def INIT_STATIC_VAL_def intro!: made_static den_cons)
next
  case False
  have g: "\<exists>s. andthen (val_putref h) (\<lambda>_. val_putref t) (st\<lparr>vh_mem := m\<rparr>) = (Inr (), s) \<and> vh_inv s {} R B P \<and> keeps st s R" for m
  proof -
    have "vh_inv (st\<lparr>vh_mem := m\<rparr>) {} (opt_ref h + (opt_ref t + R)) B P"
      using inv by (simp add: add.assoc)
    from val_putref_drops [OF this] obtain s where
      s: "val_putref h (st\<lparr>vh_mem := m\<rparr>) = (Inr (), s)" "vh_inv s {} (opt_ref t + R) B P" "shrinks (st\<lparr>vh_mem := m\<rparr>) s"
      by blast
    from val_putref_drops [OF s(2)] obtain u where
      u: "val_putref t s = (Inr (), u)" "vh_inv u {} R B P" "shrinks s u"
      by blast
    then show ?thesis
      using s(1) keeps_shrinks_mem [OF shrinks_trans [OF s(3) u(3)] u(2)] by (auto simp: andthen_def)
  qed
  have dd: "rel_option (den (add_obj ob (st\<lparr>vh_mem := m\<rparr>))) h vh" "rel_option (den (add_obj ob (st\<lparr>vh_mem := m\<rparr>))) t vt" for ob m
    using d add_obj_le [OF vh_inv_fresh [OF inv]] by (auto elim!: den_opt_grow)
  then have "obj_cons h t = andthen (on_error (val_alloc_obj VT_CONS) (andthen (val_putref h) (\<lambda>_. val_putref t)))
      (\<lambda>a. andthen (upd_obj a (\<lambda>ob. ob\<lparr>vo_data := U_Cons h t\<rparr>)) (\<lambda>_. cret a))"
    unfolding obj_cons_def by (simp only: if_not_P [OF False])
  moreover have "\<exists>r st'. \<dots> st = (r, st') \<and> made st st' R B P r (VCons vh vt)"
    by (rule made_alloc [where K = "opt_ref h + opt_ref t" and S = "{#}" and Q = "{#}"]; (rule g)?)
      (use inv dd in \<open>auto intro!: den_cons\<close>)
  ultimately show ?thesis
    by simp
qed

lemma free_if_drop:
  assumes inv: "vh_inv st D R ((if heap then opt_ref x else {#}) + B) P"
  shows "\<exists>st'. free_if heap x st = (Inr (), st') \<and> vh_inv st' D R B P \<and> shrinks st st'"
proof (cases "heap \<and> x \<noteq> None")
  case True
  then obtain p where i: "x = Some p" "vh_inv st D R (add_mset p B) P"
    using inv by auto
  then show ?thesis
    using True vh_inv_free_block [OF i(2)] shrinks_block [OF pending_block(1) [OF i(2)]] by (auto simp: free_if_def)
next
  case False
  then show ?thesis
    using inv by (cases x) (auto simp: free_if_def split: if_splits)
qed

lemma obj_blob_gen_made:
  assumes inv: "vh_inv st {} R ((if heap then {#p#} else {#}) + B) P" and bs: "vh_blocks st p = Some (B_Bytes bs)" "n \<le> length bs"
    and h: "heap \<longleftrightarrow> is_mal p"
  shows "\<exists>r st'. obj_blob_gen p n heap st = (r, st') \<and> made st st' R B P r (VBlob (take n bs))"
proof -
  have g: "\<exists>s. free_if heap (Some p) (st\<lparr>vh_mem := m\<rparr>) = (Inr (), s) \<and> vh_inv s {} R B P \<and> keeps st s R" for m
    using free_if_drop [of "st\<lparr>vh_mem := m\<rparr>" "{}" R heap "Some p" B P, unfolded opt_ref.simps] inv keeps_shrinks_mem [of m st]
    by fastforce
  show ?thesis
    unfolding obj_blob_gen_def
    by (rule made_alloc [where K = "{#}" and Q = "{#}" and S = "if heap then {#p#} else {#}"]; (rule g)?)
      (use inv bs h in \<open>auto intro!: den_blob [where p = p and n = n]\<close>)
qed

lemma put_elems_drop:
  "vh_inv st D (opt_refs (map (nth xs) is) + R) B P \<Longrightarrow> vh_blocks st p = Some (B_Ptrs xs) \<Longrightarrow> p \<in># B \<or> \<not> is_mal p \<Longrightarrow>
    set is \<subseteq> {..<length xs} \<Longrightarrow> \<exists>st'. put_elems p is st = (Inr (), st') \<and> vh_inv st' D R B P \<and> shrinks st st'"
proof (induction "is" arbitrary: st)
  case (Cons i "is")
  have "vh_inv st D (opt_ref (xs ! i) + (opt_refs (map (nth xs) is) + R)) B P"
    using Cons.prems(1) by (simp add: add.assoc)
  from val_putref_drops [OF this] obtain s where
    s: "val_putref (xs ! i) st = (Inr (), s)" "vh_inv s D (opt_refs (map (nth xs) is) + R) B P" "shrinks st s"
    by blast
  have "vh_blocks s p = Some (B_Ptrs xs)"
    using Cons.prems(2,3) shrinks_pending(1) [OF s(3,2)] s(3) by (cases p) (auto simp: is_mal_def shrinks_def)
  then obtain u where "put_elems p is s = (Inr (), u)" "vh_inv u D R B P" "shrinks s u"
    using Cons.IH [OF s(2)] Cons.prems(3,4) by auto
  then show ?case
    using s shrinks_trans Cons.prems(2,4) by (auto simp: andthen_def get_block_def)
qed auto

lemma map_nth_take: "n \<le> length xs \<Longrightarrow> map (nth xs) [0..<n] = take n xs"
  by (auto intro: nth_equalityI)

lemma array_error_drop:
  assumes inv: "vh_inv st {} (opt_refs (take n xs) + R) ((if heap then {#p#} else {#}) + B) P" and xs: "vh_blocks st p = Some (B_Ptrs xs)" "n \<le> length xs"
    and h: "p \<in># (if heap then {#p#} else {#}) + B \<or> \<not> is_mal p"
  shows "\<exists>st'. array_error p n heap st = (Inr (), st') \<and> vh_inv st' {} R B P \<and> shrinks st st'"
proof -
  obtain s where s: "put_elems p [0..<n] st = (Inr (), s)" "vh_inv s {} R ((if heap then {#p#} else {#}) + B) P" "shrinks st s"
    using put_elems_drop [of st "{}" xs "[0..<n]" R _ P p] inv xs h by (fastforce simp: map_nth_take)
  then obtain u where "free_if heap (Some p) s = (Inr (), u)" "vh_inv u {} R B P" "shrinks s u"
    using free_if_drop [of s "{}" R heap "Some p" B P, unfolded opt_ref.simps] by blast
  then show ?thesis
    using s shrinks_trans by (auto simp: array_error_def andthen_def)
qed

lemma obj_array_given_made:
  assumes inv: "vh_inv st {} (opt_refs (take n xs) + R) ((if heap then {#p#} else {#}) + B) P" and xs: "vh_blocks st p = Some (B_Ptrs xs)" "n \<le> length xs"
    and h: "heap \<longleftrightarrow> is_mal p" and d: "take n xs = map Some as" "list_all2 (den st) as vs"
  shows "\<exists>r st'. obj_array_gen p n False heap st = (r, st') \<and> made st st' R B P r (VArray vs)"
proof -
  have g: "\<exists>s. array_error p n heap (st\<lparr>vh_mem := m\<rparr>) = (Inr (), s) \<and> vh_inv s {} R B P \<and> keeps st s R" for m
    using array_error_drop [of "st\<lparr>vh_mem := m\<rparr>" n xs R heap p B P] inv xs h keeps_shrinks_mem [of m st]
    by fastforce
  have dd: "list_all2 (den (add_obj ob (st\<lparr>vh_mem := m\<rparr>))) as vs" for ob m
    using d(2) add_obj_le [OF vh_inv_fresh [OF inv]] by (auto elim!: list.rel_mono_strong intro: den_grow)
  have "\<exists>r st'. andthen (on_error (val_alloc_obj VT_ARRAY) (array_error p n heap))
      (\<lambda>a. andthen (upd_obj a (\<lambda>ob. ob\<lparr>vo_data := U_Array p n, vo_static_alloc := \<not> heap\<rparr>)) (\<lambda>_. cret a)) st = (r, st') \<and> made st st' R B P r (VArray vs)"
    by (rule made_alloc [where K = "opt_refs (take n xs)" and Q = "{#}" and S = "if heap then {#p#} else {#}"]; (rule g)?)
      (use inv xs h d(1) dd in \<open>auto intro!: den_array [where p = p and n = n]\<close>)
  then show ?thesis
    by (simp add: obj_array_gen_def andthen_def)
qed

lemma made_after:
  assumes "keeps st s R" and "mem_plenty (vh_mem s) = mem_plenty (vh_mem st)" and "made s st' R B P r v"
  shows "made st st' R B P r v"
  using assms keeps_trans by (auto simp: made_def split: sum.splits)

lemma yields_array: "n * sizeof_ptr \<le> SSIZE_MAX \<Longrightarrow> yields (mem_reallocarray n sizeof_ptr) (n * sizeof_ptr)"
  using yields_cell [of "n * sizeof_ptr"] by (auto simp: yields_def mem_reallocarray_def bound_simps)

lemma array_dup_cases:
  assumes n: "n * sizeof_ptr \<le> SSIZE_MAX" and xs: "vh_blocks st p = Some (B_Ptrs xs)" "n \<le> length xs"
  obtains (ok) m where "array_dup p n st = (Inr (Mal (vh_next st)), add_block (B_Ptrs (take n xs)) (st\<lparr>vh_mem := m\<rparr>))" "mem_ext (vh_mem st) m"
    | (nomem) m where "array_dup p n st = (fail ENOMEM, st\<lparr>vh_mem := m\<rparr>)" "\<not> mem_plenty (vh_mem st)"
  using yields_array [OF n]
proof (cases rule: yields_cases [of "mem_reallocarray n sizeof_ptr" "n * sizeof_ptr" "vh_mem st"])
  case (ok m)
  then show ?thesis
    using xs by (intro that(1)) (simp_all add: array_dup_def andthen_def on_heap_mem_def get_block_def add_block_def sizeof_ptr_def)
next
  case (nomem m)
  then show ?thesis
    by (intro that(2)) (simp_all add: array_dup_def andthen_def on_heap_mem_def)
qed

lemma blk_alloc_cases:
  assumes n: "n \<le> SSIZE_MAX"
  obtains (ok) m where "blk_alloc n b st = (Inr (Mal (vh_next st)), add_block b (st\<lparr>vh_mem := m\<rparr>))" "mem_ext (vh_mem st) m"
    | (nomem) m where "blk_alloc n b st = (fail ENOMEM, st\<lparr>vh_mem := m\<rparr>)" "\<not> mem_plenty (vh_mem st)"
  using yields_cell [OF n]
proof (cases rule: yields_cases [of "cell_alloc n" n "vh_mem st"])
  case (ok m)
  then show ?thesis
    by (intro that(1)) (simp_all add: blk_alloc_def andthen_def on_heap_mem_def add_block_def)
next
  case (nomem m)
  then show ?thesis
    by (intro that(2)) (simp_all add: blk_alloc_def andthen_def on_heap_mem_def)
qed

lemma refill:
  "(add_block x (st\<lparr>vh_mem := m\<rparr>))\<lparr>vh_blocks := (vh_blocks st)(Mal (vh_next st) \<mapsto> b)\<rparr> = add_block b (st\<lparr>vh_mem := m\<rparr>)"
  by (cases st) (simp add: add_block_def)

text \<open>After memory for a copy was obtained, with the copy among the blocks of the program.\<close>

lemma after_block:
  assumes inv: "vh_inv st {} R B P" and m: "mem_ext (vh_mem st) m"
  shows "vh_inv (add_block b (st\<lparr>vh_mem := m\<rparr>)) {} R (add_mset (Mal (vh_next st)) B) P"
    and "keeps st (add_block b (st\<lparr>vh_mem := m\<rparr>)) S" and "mem_plenty (vh_mem (add_block b (st\<lparr>vh_mem := m\<rparr>))) = mem_plenty (vh_mem st)"
proof -
  show "vh_inv (add_block b (st\<lparr>vh_mem := m\<rparr>)) {} R (add_mset (Mal (vh_next st)) B) P"
    using vh_inv_new_block [of "st\<lparr>vh_mem := m\<rparr>" "{}" R B P b] inv by simp
  show "keeps st (add_block b (st\<lparr>vh_mem := m\<rparr>)) S"
    using keeps_trans [OF keeps_mem keeps_add_block] vh_inv_fresh [OF inv] by simp
  show "mem_plenty (vh_mem (add_block b (st\<lparr>vh_mem := m\<rparr>))) = mem_plenty (vh_mem st)"
    using m by (simp add: mem_ext_plenty)
qed

lemma obj_array_dup_made:
  assumes inv: "vh_inv st {} (opt_refs (take n xs) + R) B P" and xs: "vh_blocks st p = Some (B_Ptrs xs)" "n \<le> length xs"
    and p: "p \<in># B \<or> \<not> is_mal p" and n: "n * sizeof_ptr \<le> SSIZE_MAX" and d: "take n xs = map Some as" "list_all2 (den st) as vs"
  shows "\<exists>r st'. obj_array_dup p n st = (r, st') \<and> made st st' R B P r (VArray vs)"
  using n xs
proof (cases rule: array_dup_cases)
  case (nomem m)
  have "\<exists>s. array_error p n False (st\<lparr>vh_mem := m\<rparr>) = (Inr (), s) \<and> vh_inv s {} R B P \<and> shrinks (st\<lparr>vh_mem := m\<rparr>) s"
    using array_error_drop [of "st\<lparr>vh_mem := m\<rparr>" n xs R False p B P] inv xs p by simp
  then show ?thesis
    using nomem keeps_shrinks_mem by (fastforce simp: obj_array_dup_def obj_array_gen_def andthen_def on_error_def made_def)
next
  case (ok m)
  let ?s = "add_block (B_Ptrs (take n xs)) (st\<lparr>vh_mem := m\<rparr>)" and ?q = "Mal (vh_next st)"
  note ab = after_block [OF inv ok(2), of "B_Ptrs (take n xs)"]
  have "den ?s z y" if "den st z y" for z y
    using ab(2) [of "{#z#}"] that by (simp add: keeps_def)
  then have "list_all2 (den ?s) as vs"
    using d(2) by (auto elim!: list.rel_mono_strong)
  moreover have "length as = n"
    using arg_cong [OF d(1), of length] xs(2) by simp
  ultimately obtain r st' where r: "obj_array_gen ?q n False True ?s = (r, st')" "made ?s st' R B P r (VArray vs)"
    using obj_array_given_made [of ?s n "take n xs" R True ?q B P as vs] ab(1) d(1) by (auto simp: is_mal_def)
  have "obj_array_dup p n st = (r, st')"
    using ok(1) r(1) by (simp add: obj_array_dup_def obj_array_gen_def andthen_def on_error_def)
  then show ?thesis
    using made_after [OF ab(2,3) r(2)] by blast
qed

lemma obj_blob_dup_made:
  assumes inv: "vh_inv st {} R B P" and bs: "vh_blocks st p = Some (B_Bytes bs)" "n \<le> length bs" and n: "n \<le> SSIZE_MAX"
  shows "\<exists>r st'. obj_blob_dup p n st = (r, st') \<and> made st st' R B P r (VBlob (take n bs))"
  using n
proof (cases rule: blk_alloc_cases [where b = "B_Bytes (replicate n 0)" and st = st])
  case (nomem m)
  then show ?thesis
    using made_nomem [OF inv] by (auto simp: obj_blob_dup_def andthen_def)
next
  case (ok m)
  let ?s = "add_block (B_Bytes (take n bs)) (st\<lparr>vh_mem := m\<rparr>)" and ?q = "Mal (vh_next st)"
  note ab = after_block [OF inv ok(2), of "B_Bytes (take n bs)"]
  obtain r st' where r: "obj_blob_gen ?q n True ?s = (r, st')" "made ?s st' R B P r (VBlob (take n (take n bs)))"
    using obj_blob_gen_made [of ?s R True ?q B P "take n bs" n] ab(1) bs(2) by (auto simp: is_mal_def)
  have "vh_blocks st ?q = None"
    using vh_inv_fresh [OF inv] by (simp add: fresh_ok_def)
  then have "?q \<noteq> p"
    using bs(1) by auto
  then have "obj_blob_dup p n st = (r, st')"
    using ok(1) r(1) bs by (simp add: obj_blob_dup_def andthen_def get_block_def refill)
  then show ?thesis
    using made_after [OF ab(2,3) r(2)] by auto
qed

subsection \<open>Strings\<close>

lemma chars_of_nul: "0 \<notin> set cs \<Longrightarrow> chars_of (cs @ 0 # r) = cs"
  by (simp add: chars_of_def takeWhile_nul)

lemma strnlen_chars:
  assumes "strnlen obj n = Some k"
  shows "take k obj = takeWhile (\<lambda>c. c \<noteq> 0) (take n obj)" "0 \<notin> set (take k obj)"
proof -
  have k: "k = length (takeWhile (\<lambda>c. c \<noteq> 0) (take n obj))"
    using assms by (auto simp: strnlen_def Let_def split: if_splits)
  then have "k \<le> n"
    using length_takeWhile_le [of "\<lambda>c. c \<noteq> 0" "take n obj"] by simp
  then show e: "take k obj = takeWhile (\<lambda>c. c \<noteq> 0) (take n obj)"
    using takeWhile_eq_take [of "\<lambda>c. c \<noteq> 0" "take n obj"] k by (simp add: min_def)
  show "0 \<notin> set (take k obj)"
    unfolding e by (auto dest: set_takeWhileD)
qed

lemma made_then_free:
  assumes "made st s R ((if heap then opt_ref x else {#}) + B) P (Inr a) v"
  shows "\<exists>s'. free_if heap x s = (Inr (), s') \<and> made st s' R B P (Inr a) v"
proof -
  have m: "keeps st s R" "vh_inv s {} (add_mset a R) ((if heap then opt_ref x else {#}) + B) P" "den s a v"
    using assms by (simp_all add: made_def)
  obtain s' where s': "free_if heap x s = (Inr (), s')" "vh_inv s' {} (add_mset a R) B P" "shrinks s s'"
    using free_if_drop [OF m(2)] by blast
  have "keeps s s' (add_mset a R)"
    by (rule keeps_shrinks [OF s'(3,2)])
  then have "keeps st s' R" "den s' a v"
    using m by (auto simp: keeps_def)
  then show ?thesis
    using s' by (auto simp: made_def)
qed

lemma den_strsym:
  "vh_objs st a = Some ob \<Longrightarrow> vo_type ob = type \<Longrightarrow> type \<in> {VT_STR, VT_SYM} \<Longrightarrow> str_of st (vo_data ob) = Some s \<Longrightarrow> den st a (mk_strsym type s)"
  by (auto simp: mk_strsym_def intro: den_str den_sym)

lemma str_store_inline_made:
  assumes inv: "vh_inv st {} R ((if heap then opt_ref s else {#}) + B) P" and t: "type \<in> {VT_STR, VT_SYM}" and cs: "0 \<notin> set cs" "inlinable (length cs)"
  shows "\<exists>r st'. str_store type cs s heap st = (r, st') \<and> made st st' R B P r (mk_strsym type cs)"
proof (cases rule: val_alloc_obj_cases [of type st])
  case (ok m)
  let ?ob = "(vh_junk st (vh_next st))\<lparr>vo_type := type, vo_static_struct := False, vo_refcnt := 1, vo_static_alloc := True, vo_inline_alloc := True,
    vo_data := U_Str_Inline (cs @ [0])\<rparr>"
  have "made st (add_obj ?ob (st\<lparr>vh_mem := m\<rparr>)) R ((if heap then opt_ref s else {#}) + B) P (Inr (Dyn (vh_next st))) (mk_strsym type cs)"
    by (rule made_new [where K = "{#}" and S = "{#}" and Q = "{#}"])
      (use inv t cs in \<open>auto intro!: den_strsym simp: chars_of_nul\<close>)
  from made_then_free [OF this] show ?thesis
    using ok cs by (auto simp: str_store_def andthen_def on_error_def)
next
  case (nomem m)
  then show ?thesis
    using free_if_drop [of "st\<lparr>vh_mem := m\<rparr>" "{}" R heap s B P] inv keeps_shrinks_mem [of m st]
    by (fastforce simp: str_store_def andthen_def on_error_def made_def)
qed

lemma str_store_ptr_made:
  assumes inv: "vh_inv st {} R ((if heap then {#p#} else {#}) + B) P" and t: "type \<in> {VT_STR, VT_SYM}" and cs: "\<not> inlinable (length cs)"
    and p: "vh_blocks st p = Some (B_Bytes obj)" "chars_of obj = cs" "0 \<in> set obj" "heap \<longleftrightarrow> is_mal p"
  shows "\<exists>r st'. str_store type cs (Some p) heap st = (r, st') \<and> made st st' R B P r (mk_strsym type cs)"
proof (cases rule: val_alloc_obj_cases [of type st])
  case (ok m)
  let ?ob = "(vh_junk st (vh_next st))\<lparr>vo_type := type, vo_static_struct := False, vo_refcnt := 1, vo_static_alloc := \<not> heap, vo_inline_alloc := False,
    vo_data := U_Str_Ptr p\<rparr>"
  have "made st (add_obj ?ob (st\<lparr>vh_mem := m\<rparr>)) R B P (Inr (Dyn (vh_next st))) (mk_strsym type cs)"
    by (rule made_new [where K = "{#}" and S = "if heap then {#p#} else {#}" and Q = "{#}"])
      (use inv t p in \<open>auto intro!: den_strsym simp: c_string_def\<close>)
  then show ?thesis
    using ok cs by (auto simp: str_store_def andthen_def on_error_def)
next
  case (nomem m)
  then show ?thesis
    using free_if_drop [of "st\<lparr>vh_mem := m\<rparr>" "{}" R heap "Some p" B P, unfolded opt_ref.simps] inv keeps_shrinks_mem [of m st]
    by (fastforce simp: str_store_def andthen_def on_error_def made_def)
qed

lemma made_preallocated:
  assumes inv: "vh_inv st {} R B P" and a: "obj_preallocated type cs = Some a" and t: "type \<in> {VT_STR, VT_SYM}" and cs: "0 \<notin> set cs"
  shows "made st st R B P (Inr a) (mk_strsym type cs)"
proof -
  have b: "vh_blocks st (Other 0) = Some (B_Bytes [0])"
    using inv by (simp add: vh_inv_def statics_ok_def)
  consider "cs = []" "a = (if type = VT_STR then Empty_String else Empty_Symbol)"
    | c where "cs = [c]" "type = VT_STR" "0 < c" "c < 0x7f" "a = One_Char c"
    using a by (auto simp: obj_preallocated_def length_Suc_conv split: if_splits)
  then show ?thesis
  proof cases
    case 1
    have "den st Empty_String (VStr [])"
      by (rule den_str [OF preset_obj [OF inv, where ob = "STATIC_STR_INITIALIZER VT_STR (Other 0)"]]) (simp_all add: STATIC_STR_INITIALIZER_def b chars_of_def)
    moreover have "den st Empty_Symbol (VSym [])"
      by (rule den_sym [OF preset_obj [OF inv, where ob = "STATIC_STR_INITIALIZER VT_SYM (Other 0)"]]) (simp_all add: STATIC_STR_INITIALIZER_def b chars_of_def)
    ultimately show ?thesis
      using 1 t by (auto simp: mk_strsym_def intro!: made_static [OF inv])
  next
    case (2 c)
    moreover have "c < 0x80"
      using 2(4) by (rule order.strict_trans) simp
    ultimately show ?thesis
      using preset_obj [OF inv, of "One_Char c"]
      by (intro made_static [OF inv] den_strsym) (auto simp: STATIC_CHAR_INITIALIZER_def chars_of_def)
  qed
qed

text \<open>All the ways to make a string.\<close>

lemma obj_strsym_gen_made:
  assumes inv: "vh_inv st {} R ((if heapalloc then opt_ref s else {#}) + B) P" and t: "type \<in> {VT_STR, VT_SYM}" and m: "\<not> (mustdup \<and> heapalloc)"
    and cs: "str_chars s len st = (Inr cs, st)" "0 \<notin> set cs" "length cs < SSIZE_MAX"
    and p: "\<not> mustdup \<Longrightarrow> \<not> inlinable (length cs) \<Longrightarrow>
      \<exists>p obj. s = Some p \<and> vh_blocks st p = Some (B_Bytes obj) \<and> chars_of obj = cs \<and> 0 \<in> set obj \<and> (heapalloc \<longleftrightarrow> is_mal p)"
  shows "\<exists>r st'. obj_strsym_gen type s len heapalloc mustdup st = (r, st') \<and> made st st' R B P r (mk_strsym type cs)"
proof (cases "obj_preallocated type cs")
  case (Some a)
  have e: "obj_strsym_gen type s len heapalloc mustdup st = andthen (free_if heapalloc s) (\<lambda>_. cret a) st"
    using t m cs(1) Some by (auto simp: obj_strsym_gen_def andthen_def)
  show ?thesis
    unfolding e using made_then_free [OF made_preallocated [OF inv Some t cs(2)]] by (auto simp: andthen_def)
next
  case None
  consider (copy) "inlinable (length cs)" | (dup) "\<not> inlinable (length cs)" mustdup | (ptr) "\<not> inlinable (length cs)" "\<not> mustdup"
    by blast
  then show ?thesis
  proof cases
    case copy
    then have "obj_strsym_gen type s len heapalloc mustdup st = str_store type cs s heapalloc st"
      using t m cs(1) None by (auto simp: obj_strsym_gen_def andthen_def)
    then show ?thesis
      using str_store_inline_made [OF inv t cs(2) copy] by simp
  next
    case ptr
    then have "obj_strsym_gen type s len heapalloc mustdup st = str_store type cs s heapalloc st"
      using t m cs(1) None by (auto simp: obj_strsym_gen_def andthen_def)
    then show ?thesis
      using p [OF ptr(2,1)] str_store_ptr_made [OF _ t ptr(1), of st R heapalloc _ B P] inv by (auto cong: if_cong)
  next
    case dup
    have e: "obj_strsym_gen type s len heapalloc mustdup st =
        andthen (blk_alloc (length cs + 1) (B_Bytes (cs @ [0]))) (\<lambda>tmp. str_store type cs (Some tmp) True) st"
      using t m cs(1) None dup by (auto simp: obj_strsym_gen_def andthen_def)
    have i: "vh_inv st {} R B P"
      using inv m dup by simp
    have "length cs + 1 \<le> SSIZE_MAX"
      using cs(3) by simp
    then show ?thesis
    proof (cases rule: blk_alloc_cases [where b = "B_Bytes (cs @ [0])" and st = st])
      case (nomem k)
      then show ?thesis
        unfolding e using made_nomem [OF i] by (auto simp: andthen_def)
    next
      case (ok k)
      let ?s = "add_block (B_Bytes (cs @ [0])) (st\<lparr>vh_mem := k\<rparr>)"
      note ab = after_block [OF i ok(2), of "B_Bytes (cs @ [0])"]
      obtain r st' where r: "str_store type cs (Some (Mal (vh_next st))) True ?s = (r, st')" "made ?s st' R B P r (mk_strsym type cs)"
        using str_store_ptr_made [of ?s R True "Mal (vh_next st)" B P type cs "cs @ [0]"] ab(1) t dup(1) cs(2) by (auto simp: is_mal_def chars_of_nul)
      then show ?thesis
        unfolding e using ok(1) made_after [OF ab(2,3) r(2)] by (auto simp: andthen_def)
    qed
  qed
qed

text \<open>A C string as an argument.\<close>

definition cstring_at :: "vheap \<Rightarrow> baddr option \<Rightarrow> bytes \<Rightarrow> bool" where
  "cstring_at st s cs \<longleftrightarrow>
     (case s of
        None \<Rightarrow> cs = []
      | Some p \<Rightarrow> (\<exists>obj. vh_blocks st p = Some (B_Bytes obj) \<and> 0 \<in> set obj \<and> length obj \<le> SSIZE_MAX \<and> cs = chars_of obj))"

lemma length_chars_of: "0 \<in> set obj \<Longrightarrow> length (chars_of obj) < length obj"
  unfolding chars_of_def by (induction obj) auto

lemma cstring_chars:
  assumes "cstring_at st s cs"
  shows "str_chars s USE_STRLEN st = (Inr cs, st)" "0 \<notin> set cs" "length cs < SSIZE_MAX"
    "cs \<noteq> [] \<Longrightarrow> \<exists>p obj. s = Some p \<and> vh_blocks st p = Some (B_Bytes obj) \<and> chars_of obj = cs \<and> 0 \<in> set obj"
proof -
  have u: "take USE_STRLEN obj = obj" if "length obj \<le> SSIZE_MAX" for obj :: bytes
    using that by (simp add: USE_STRLEN_def bound_simps)
  have l: "length (chars_of obj) < length obj" if "0 \<in> set obj" for obj
    using that by (rule length_chars_of)
  show "0 \<notin> set cs" "length cs < SSIZE_MAX"
    using assms l by (auto simp: cstring_at_def chars_of_def bound_simps dest: set_takeWhileD split: option.splits) fastforce+
  show "str_chars s USE_STRLEN st = (Inr cs, st)"
    using assms l u
    by (auto simp: cstring_at_def str_chars_def andthen_def get_block_def strnlen_def chars_of_def Let_def takeWhile_eq_take [symmetric] split: option.splits)
  show "\<exists>p obj. s = Some p \<and> vh_blocks st p = Some (B_Bytes obj) \<and> chars_of obj = cs \<and> 0 \<in> set obj" if "cs \<noteq> []"
    using assms that by (auto simp: cstring_at_def split: option.splits)
qed

subsection \<open>Taking a reference\<close>

lemma val_getref_takes:
  assumes inv: "vh_inv st {} (add_mset a R) B P" and lim: "a \<in> live st \<Longrightarrow> vo_refcnt (obj_at st a) + 1 \<noteq> 0"
  shows "\<exists>st'. val_getref (Some a) st = (Inr (Some a), st') \<and> vh_inv st' {} (add_mset a (add_mset a R)) B P \<and> shrinks st st'"
proof (cases "a \<in> live st")
  case False
  have o: "vh_objs st a = Some (obj_at st a)"
    by (rule vh_inv_in_dom [OF inv])
  then have "vo_static_struct (obj_at st a)"
    using False by (auto simp: live_def)
  moreover have "vh_inv st {} (add_mset a (add_mset a R)) B P"
    using inv False by (auto simp: vh_inv_def counts_ok_def)
  ultimately show ?thesis
    using o by (auto simp: val_getref_def andthen_def get_obj_def val_isstatic_def)
next
  case True
  note l = set_refcnt_live [OF True] set_refcnt_ok [OF True]
  let ?s = "set_refcnt a (vo_refcnt (obj_at st a) + 1) st"
  have c: "unat (vo_refcnt (obj_at st a)) = Suc (count (refs st {} R) a)"
    using inv True by (simp add: vh_inv_def counts_ok_def)
  then have nz: "vo_refcnt (obj_at st a) \<noteq> 0"
    by (metis nat.simps(3) unat_0)
  have u: "unat (vo_refcnt (obj_at st a) + 1) = Suc (unat (vo_refcnt (obj_at st a)))"
    using lim [OF True] unatSuc [of "vo_refcnt (obj_at st a)"] by (simp add: add.commute)
  have "counts_ok st {} (add_mset a R)"
    using inv by (simp add: vh_inv_def)
  then have "counts_ok ?s {} (add_mset a (add_mset a R))"
    using u True by (auto simp: counts_ok_def l)
  then have "vh_inv ?s {} (add_mset a (add_mset a R)) B P"
    using inv by (simp add: vh_inv_def l)
  moreover have "val_getref (Some a) st = (Inr (Some a), ?s)"
    using live_obj [OF True] nz by (simp add: val_getref_def andthen_def get_obj_def val_isstatic_def put_obj_def set_refcnt_def)
  ultimately show ?thesis
    using shrinks_set_refcnt [OF True] by blast
qed

end
