(* ===== verification/Val_Pairs.thy ===== *)
theory Val_Pairs
  imports Val_Objects Nvl
begin

text \<open>
  Name-value lists as objects in memory: \<open>do_nvl_set\<close> and \<open>unset\<close> of \<^verbatim>\<open>src/nvl.c\<close> and \<open>__nvpair_alloc\<close> of \<^verbatim>\<open>src/val_nvl.c\<close> on the
  heap of \<open>Val_Heap\<close>, with what they do to the references of the name and of the value, also when memory runs out.

  The red-black tree of a list is the sequence of its pairs, in the order in which they are handed out when the list is
  freed. Adding and removing a pair may rearrange the tree: the new order is an argument \<open>arr\<close> of the operations, of which
  the lemmas only need that it permutes. What the operations do to the names and values of a list is in the theory \<open>Nvl\<close>.
\<close>

subsection \<open>The functions\<close>

text \<open>The characters at the start of a block, and those of a string object.\<close>

definition block_cstr :: "baddr \<Rightarrow> (vheap, bytes) cfun" where
  "block_cstr p =
     andthen (get_block p) (\<lambda>b.
       case b of B_Bytes bs \<Rightarrow> if 0 \<in> set bs then cret (chars_of bs) else cerr Fault | _ \<Rightarrow> cerr Fault)"

definition obj_cstr :: "vaddr option \<Rightarrow> (vheap, bytes) cfun" where
  "obj_cstr x =
     (case x of
        None \<Rightarrow> cerr Fault
      | Some a \<Rightarrow>
          andthen (get_obj a) (\<lambda>ob.
            if vo_type ob \<noteq> VT_STR \<and> vo_type ob \<noteq> VT_SYM then cerr Panic
            else case vo_data ob of
              U_Str_Inline s \<Rightarrow> if vo_inline_alloc ob \<and> 0 \<in> set s then cret (chars_of s) else cerr Fault
            | U_Str_Ptr p \<Rightarrow> if vo_inline_alloc ob then cerr Fault else block_cstr p
            | _ \<Rightarrow> cerr Fault))"

definition obj_nvl_pairs :: "vaddr \<Rightarrow> (vheap, nat list) cfun" where
  "obj_nvl_pairs a = andthen (get_obj a) (\<lambda>ob. case vo_data ob of U_Nvl ps \<Rightarrow> cret ps | _ \<Rightarrow> cerr Fault)"

definition set_nvl_pairs :: "vaddr \<Rightarrow> nat list \<Rightarrow> (vheap, unit) cfun" where
  "set_nvl_pairs a ps = upd_obj a (\<lambda>ob. ob\<lparr>vo_data := U_Nvl ps\<rparr>)"

primrec obj_find :: "bytes \<Rightarrow> nat list \<Rightarrow> (vheap, nat option) cfun" where
  "obj_find name [] = cret None"
| "obj_find name (p # ps) =
     andthen (get_pair p) (\<lambda>q. andthen (obj_cstr (fst q)) (\<lambda>s.
       if strcmp name s = 0 then cret (Some p) else obj_find name ps))"

text \<open>\<open>__nvpair_alloc\<close>. The name \<open>None\<close> is an error pointer.\<close>

definition obj_nvpair_alloc :: "vaddr option \<Rightarrow> (vheap, nat) cfun" where
  "obj_nvpair_alloc name =
     andthen (on_error (on_heap_mem (cell_alloc sizeof_nvpair)) (if name = None then cerr Fault else val_putref name)) (\<lambda>_ st.
       (Inr (vh_next st),
        st\<lparr>vh_pairs := (vh_pairs st)(vh_next st \<mapsto> (name, Some Val_Null)), vh_next := Suc (vh_next st)\<rparr>))"

text \<open>\<open>name ? name : str_dup(cname)\<close>, where \<open>dup\<close> is the call of \<open>str_dup\<close>; \<open>None\<close> is an error pointer.\<close>

definition obj_pair_name :: "(vheap, vaddr) cfun \<Rightarrow> vaddr option \<Rightarrow> (vheap, vaddr option) cfun" where
  "obj_pair_name dup name st =
     (case name of
        Some n \<Rightarrow> (Inr (Some n), st)
      | None \<Rightarrow>
          (case dup st of
             (Inl (Errno _), st') \<Rightarrow> (Inr None, st')
           | (Inl e, st') \<Rightarrow> (Inl e, st')
           | (Inr n, st') \<Rightarrow> (Inr (Some n), st')))"

text \<open>\<open>rb_add\<close> looks at the name of the new pair, unless the list is empty.\<close>

definition obj_rb_add :: "(nat list \<Rightarrow> nat list) \<Rightarrow> vaddr \<Rightarrow> nat list \<Rightarrow> vaddr option \<Rightarrow> nat \<Rightarrow> (vheap, unit) cfun" where
  "obj_rb_add arr a ps name p =
     (if name = None then cerr (if ps = [] then Stray else Fault) else set_nvl_pairs a (arr (p # ps)))"

definition obj_set_value :: "nat \<Rightarrow> vaddr \<Rightarrow> (vheap, unit) cfun" where
  "obj_set_value p val =
     andthen (get_pair p) (\<lambda>q. andthen (val_putref (snd q)) (\<lambda>_.
     andthen (get_pair p) (\<lambda>q st. (Inr (), st\<lparr>vh_pairs := (vh_pairs st)(p \<mapsto> (fst q, Some val))\<rparr>))))"

definition obj_do_nvl_set ::
    "(nat list \<Rightarrow> nat list) \<Rightarrow> vaddr \<Rightarrow> bytes \<Rightarrow> (vheap, vaddr) cfun \<Rightarrow> vaddr option \<Rightarrow> vaddr \<Rightarrow> (vheap, unit) cfun" where
  "obj_do_nvl_set arr a cname dup name val =
     andthen (obj_nvl_pairs a) (\<lambda>ps. andthen (obj_find cname ps) (\<lambda>pair.
       case pair of
         None \<Rightarrow>
           andthen (obj_pair_name dup name) (\<lambda>nm.
           andthen (on_error (obj_nvpair_alloc nm) (val_putref (Some val))) (\<lambda>p.
           andthen (obj_rb_add arr a ps nm p) (\<lambda>_. obj_set_value p val)))
       | Some p \<Rightarrow> andthen (val_putref name) (\<lambda>_. obj_set_value p val)))"

definition obj_nvl_set :: "(nat list \<Rightarrow> nat list) \<Rightarrow> vaddr \<Rightarrow> baddr \<Rightarrow> vaddr \<Rightarrow> (vheap, unit) cfun" where
  "obj_nvl_set arr a cname val =
     andthen (block_cstr cname) (\<lambda>cs. obj_do_nvl_set arr a cs (obj_strsym_dup (Some cname) VT_STR) None val)"

text \<open>\<open>nvl_set_pair\<close> takes references of its own to the name and the value of the pair.\<close>

definition obj_nvl_set_pair :: "(nat list \<Rightarrow> nat list) \<Rightarrow> vaddr \<Rightarrow> vaddr \<Rightarrow> vaddr \<Rightarrow> (vheap, unit) cfun" where
  "obj_nvl_set_pair arr a name val =
     andthen (obj_cstr (Some name)) (\<lambda>cs. andthen (val_getref (Some name)) (\<lambda>_. andthen (val_getref (Some val)) (\<lambda>_.
       obj_do_nvl_set arr a cs (cerr Panic) (Some name) val)))"

definition obj_pair_type :: "nat \<Rightarrow> (vheap, val_type) cfun" where
  "obj_pair_type p =
     andthen (get_pair p) (\<lambda>q. case snd q of None \<Rightarrow> cerr Fault | Some v \<Rightarrow> andthen (get_obj v) (\<lambda>ob. cret (vo_type ob)))"

definition obj_unset :: "(nat list \<Rightarrow> nat list) \<Rightarrow> vaddr \<Rightarrow> baddr \<Rightarrow> val_type \<Rightarrow> bool \<Rightarrow> (vheap, unit) cfun" where
  "obj_unset arr a name type matchtype =
     andthen (block_cstr name) (\<lambda>cs. andthen (obj_nvl_pairs a) (\<lambda>ps. andthen (obj_find cs ps) (\<lambda>pair.
       case pair of
         None \<Rightarrow> cerr (Errno ENOENT)
       | Some p \<Rightarrow>
           andthen (if matchtype then obj_pair_type p else cret type) (\<lambda>t.
             if t \<noteq> type then cerr (Errno ERANGE)
             else andthen (set_nvl_pairs a (arr (remove1 p ps))) (\<lambda>_. nvpair_free val_putref p)))))"

subsection \<open>Dropping a reference does not look at pairs that stay\<close>

text \<open>
  Where \<open>f\<close> returns and the pair \<open>p\<close> is still there, it was there all the time, and \<open>f\<close> did not depend on what is in it.
\<close>

definition upd_pair :: "nat \<Rightarrow> vaddr option \<times> vaddr option \<Rightarrow> vheap \<Rightarrow> vheap" where
  "upd_pair p q st = st\<lparr>vh_pairs := (vh_pairs st)(p \<mapsto> q)\<rparr>"

definition ignores :: "nat \<Rightarrow> (vheap, 'a) cfun \<Rightarrow> bool" where
  "ignores p f \<longleftrightarrow>
     (\<forall>st r st' q. f st = (Inr r, st') \<longrightarrow> p \<in> dom (vh_pairs st') \<longrightarrow>
       p \<in> dom (vh_pairs st) \<and> f (upd_pair p q st) = (Inr r, upd_pair p q st'))"

named_theorems ignores_intro

lemma ignores_andthen [ignores_intro]: "ignores p f \<Longrightarrow> (\<And>x. ignores p (g x)) \<Longrightarrow> ignores p (andthen f g)"
  unfolding ignores_def
proof (intro allI impI)
  fix st r st' q
  assume f: "\<forall>st r st' q. f st = (Inr r, st') \<longrightarrow> p \<in> dom (vh_pairs st') \<longrightarrow>
      p \<in> dom (vh_pairs st) \<and> f (upd_pair p q st) = (Inr r, upd_pair p q st')"
    and g: "\<And>x. \<forall>st r st' q. g x st = (Inr r, st') \<longrightarrow> p \<in> dom (vh_pairs st') \<longrightarrow>
      p \<in> dom (vh_pairs st) \<and> g x (upd_pair p q st) = (Inr r, upd_pair p q st')"
    and run: "andthen f g st = (Inr r, st')" and p: "p \<in> dom (vh_pairs st')"
  from run obtain x s where x: "f st = (Inr x, s)" "g x s = (Inr r, st')"
    by (auto elim: andthen_InrE)
  have "p \<in> dom (vh_pairs s)" "g x (upd_pair p q s) = (Inr r, upd_pair p q st')"
    using g [of x] x(2) p by blast+
  moreover have "p \<in> dom (vh_pairs st)" "f (upd_pair p q st) = (Inr x, upd_pair p q s)"
    using f x(1) calculation(1) by blast+
  ultimately show "p \<in> dom (vh_pairs st) \<and> andthen f g (upd_pair p q st) = (Inr r, upd_pair p q st')"
    by simp
qed

lemma upd_pair_sel [simp]:
  "vh_objs (upd_pair p q st) = vh_objs st" "vh_blocks (upd_pair p q st) = vh_blocks st" "vh_next (upd_pair p q st) = vh_next st"
  "vh_pairs (upd_pair p q st) = (vh_pairs st)(p \<mapsto> q)" "vh_mem (upd_pair p q st) = vh_mem st"
  "live (upd_pair p q st) = live st" "obj_at (upd_pair p q st) = obj_at st"
  by (simp_all add: upd_pair_def live_def obj_at_def fun_eq_iff)

lemma ignores_basic [ignores_intro]:
  "ignores p (cret x)" "ignores p (cerr e)" "ignores p (get_obj a)" "ignores p (put_obj a ob)" "ignores p (obj_free a)"
  "ignores p (get_block c)" "ignores p (blk_free c)"
  by (auto simp: ignores_def get_obj_def put_obj_def obj_free_def get_block_def upd_pair_def split: option.splits if_splits)
    (cases c; auto split: if_splits)+

lemma ignores_pair [ignores_intro]: "p \<noteq> q \<Longrightarrow> ignores p (get_pair q)" "p \<noteq> q \<Longrightarrow> ignores p (pair_free q)"
  by (auto simp: ignores_def get_pair_def pair_free_def upd_pair_def fun_upd_twist split: option.splits if_splits)

lemma ignores_nvpair_free [ignores_intro]:
  assumes "\<And>x. ignores p (f x)"
  shows "ignores p (nvpair_free f q)"
proof (cases "p = q")
  case True
  then show ?thesis
    by (auto simp: ignores_def nvpair_free_def pair_free_def elim!: andthen_InrE)
next
  case False
  then show ?thesis
    unfolding nvpair_free_def by (intro ignores_intro assms)
qed

lemma ignores_free_pairs [ignores_intro]: "(\<And>x. ignores p (f x)) \<Longrightarrow> ignores p (free_pairs f ps)"
  by (induction ps) (auto intro!: ignores_intro)

lemma ignores_elem [ignores_intro]: "ignores p (get_elem a i)"
  unfolding get_elem_def by (auto intro!: ignores_intro split: vdata.splits block.splits)

lemma ignores_free_elems [ignores_intro]: "(\<And>x. ignores p (f x)) \<Longrightarrow> ignores p (free_elems f a is)"
  by (induction "is") (auto intro!: ignores_intro)

lemma ignores_storage [ignores_intro]: "ignores p (free_storage ob)"
  unfolding free_storage_def by (auto intro!: ignores_intro split: vdata.splits)

lemma ignores_val_free [ignores_intro]:
  assumes "\<And>x. ignores p (f x)"
  shows "ignores p (val_free f a)"
proof -
  have "ignores p (free_cons f a)" "ignores p (free_array f a)" "\<And>ob. ignores p (val_free_nvl f ob)"
    unfolding free_cons_def free_array_def val_free_nvl_def
    by (auto intro!: ignores_intro assms split: vdata.splits)
  then show ?thesis
    unfolding val_free_def by (auto intro!: ignores_intro split: val_type.splits)
qed

lemma ignores_putref_fuel: "ignores p (val_putref_fuel n x)"
  by (induction n arbitrary: x) (auto intro!: ignores_intro split: option.splits)

lemma val_putref_ignores:
  assumes "val_putref x st = (Inr (), st')" and "p \<in> dom (vh_pairs st')"
  shows "val_putref x (upd_pair p q st) = (Inr (), upd_pair p q st')"
  using assms ignores_putref_fuel [of p "Suc (vh_next st)" x]
  unfolding ignores_def val_putref_def upd_pair_sel by blast

subsection \<open>Cycles\<close>

text \<open>Objects and the objects they refer to.\<close>

definition kid_rel :: "vheap \<Rightarrow> (vaddr \<times> vaddr) set" where
  "kid_rel st = {(a, b). a \<in> live st \<and> b \<in># kids st a}"

text \<open>References to objects that do not lead back do not make a cycle.\<close>

lemma ranked_above:
  assumes "ranked st {}"
  shows "\<exists>rank :: vaddr \<Rightarrow> nat. (\<forall>b \<in> live st. \<forall>c \<in># kids st b. rank c < rank b) \<and>
    (\<forall>x \<in># S. (x, a) \<notin> (kid_rel st)\<^sup>* \<longrightarrow> rank x < rank a)"
proof -
  obtain rank :: "vaddr \<Rightarrow> nat" where r: "\<And>b c. b \<in> live st \<Longrightarrow> c \<in># kids st b \<Longrightarrow> rank c < rank b"
    using assms by (auto simp: ranked_def)
  define K where "K = (\<Sum>x \<in># S. Suc (rank x))"
  define rank' where "rank' b = rank b + (if (b, a) \<in> (kid_rel st)\<^sup>* then K else 0)" for b
  have "rank' c < rank' b" if "b \<in> live st" "c \<in># kids st b" for b c
  proof -
    have "(b, c) \<in> kid_rel st"
      using that by (simp add: kid_rel_def)
    then have "(b, a) \<in> (kid_rel st)\<^sup>*" if "(c, a) \<in> (kid_rel st)\<^sup>*"
      using that by (rule converse_rtrancl_into_rtrancl)
    then show ?thesis
      using r [OF that] by (auto simp: rank'_def)
  qed
  moreover have "rank' x < rank' a" if "x \<in># S" "(x, a) \<notin> (kid_rel st)\<^sup>*" for x
  proof -
    have "rank x < K"
      using multi_member_split [OF that(1)] by (auto simp: K_def)
    then show ?thesis
      using that(2) by (simp add: rank'_def)
  qed
  ultimately show ?thesis
    by blast
qed

text \<open>A leaf leads nowhere, and the list is not behind what is in it.\<close>

lemma leaf_no_path: "kids st z = {#} \<Longrightarrow> z \<noteq> a \<Longrightarrow> (z, a) \<notin> (kid_rel st)\<^sup>*"
  by (auto simp: kid_rel_def elim: converse_rtranclE)

lemma kid_no_path:
  assumes "ranked st {}" and "a \<in> live st" and "x \<in># kids st a"
  shows "(x, a) \<notin> (kid_rel st)\<^sup>*"
proof
  assume path: "(x, a) \<in> (kid_rel st)\<^sup>*"
  obtain rank :: "vaddr \<Rightarrow> nat" where r: "\<And>b c. b \<in> live st \<Longrightarrow> c \<in># kids st b \<Longrightarrow> rank c < rank b"
    using assms(1) by (auto simp: ranked_def)
  have "rank a \<le> rank x"
    using path by (induction rule: converse_rtrancl_induct) (auto simp: kid_rel_def dest: r)
  then show False
    using r [OF assms(2,3)] by simp
qed

text \<open>More references in \<open>a\<close> itself do not make another way to \<open>a\<close>.\<close>

lemma path_back:
  assumes "r' \<subseteq> r \<union> {a} \<times> UNIV" and "(x, a) \<in> r'\<^sup>*"
  shows "(x, a) \<in> r\<^sup>*"
  using assms(2)
proof (induction rule: converse_rtrancl_induct)
  case (step y z)
  then show ?case
    using assms(1) by (cases "y = a") (auto intro: converse_rtrancl_into_rtrancl)
qed simp

lemma no_path: "r' \<subseteq> r \<union> {a} \<times> UNIV \<Longrightarrow> (x, a) \<notin> r\<^sup>* \<Longrightarrow> (x, a) \<notin> r'\<^sup>*"
  using path_back [of r' r a x] by blast

lemma list_pairs_dom:
  assumes "vh_inv st D R B P" and "a \<in> live st - D" and "vo_data (obj_at st a) = U_Nvl ps"
  shows "set ps \<subseteq> dom (vh_pairs st)"
proof -
  have "wf_at st a"
    using assms(1,2) by (simp add: vh_inv_def counts_ok_def)
  then show ?thesis
    using assms(3) by (simp add: wf_at_def)
qed

lemma shrinks_kid_rel:
  assumes "shrinks st st'"
  shows "kid_rel st' \<subseteq> kid_rel st"
proof -
  have "b \<in># kids st a" if a: "a \<in> live st'" and b: "b \<in># kids st' a" for a b
  proof -
    have l: "a \<in> live st"
      using a shrinks_live [OF assms] by blast
    have d: "vo_data (obj_at st a) = vo_data (obj_at st' a)"
      using shrinks_obj_at [OF assms] live_obj [OF a] live_obj [OF l] by metis
    have "vh_blocks st' \<subseteq>\<^sub>m vh_blocks st" "vh_pairs st' \<subseteq>\<^sub>m vh_pairs st"
      using assms by (simp_all add: shrinks_def)
    then have bl: "vh_blocks st' p = Some y \<Longrightarrow> vh_blocks st p = Some y" and pr: "vh_pairs st' q = Some z \<Longrightarrow> vh_pairs st q = Some z" for p q y z
      by (auto simp: map_le_def dom_def)
    then have "b \<in># pair_refs st q" if "b \<in># pair_refs st' q" for q
      using that pr [of q] by (auto simp: pair_refs_def split: option.splits)
    then show ?thesis
      using b unfolding kids_def d
      by (cases "vo_data (obj_at st' a)") (auto dest: bl split: option.splits block.splits)
  qed
  then show ?thesis
    using shrinks_live [OF assms] by (auto simp: kid_rel_def)
qed

subsection \<open>Pairs in and out of a list\<close>

text \<open>A list gets other pairs: the references in its pairs and those of the program stay the same together.\<close>

definition with_pairs :: "vaddr \<Rightarrow> nat list \<Rightarrow> vheap \<Rightarrow> vheap" where
  "with_pairs a ps st = st\<lparr>vh_objs := (vh_objs st)(a \<mapsto> (obj_at st a)\<lparr>vo_data := U_Nvl ps\<rparr>)\<rparr>"

lemma with_pairs_sel [simp]:
  "vh_blocks (with_pairs a ps st) = vh_blocks st" "vh_pairs (with_pairs a ps st) = vh_pairs st"
  "vh_next (with_pairs a ps st) = vh_next st" "vh_junk (with_pairs a ps st) = vh_junk st" "vh_mem (with_pairs a ps st) = vh_mem st"
  "obj_at (with_pairs a ps st) b = (if b = a then (obj_at st a)\<lparr>vo_data := U_Nvl ps\<rparr> else obj_at st b)"
  by (simp_all add: with_pairs_def obj_at_def)

lemma with_pairs_with [simp]: "with_pairs a qs (with_pairs a ps st) = with_pairs a qs st"
  by (simp add: with_pairs_def obj_at_def)

lemma with_pairs_same: "vh_objs st a = Some ob \<Longrightarrow> vo_data ob = U_Nvl ps \<Longrightarrow> with_pairs a ps st = st"
  by (simp add: with_pairs_def obj_at_def fun_upd_idem vobj.surjective)

lemma with_pairs_live: "a \<in> live st \<Longrightarrow> live (with_pairs a ps st) = live st"
  using live_obj [of a st] by (auto simp: live_def with_pairs_def)

lemma vh_inv_with_pairs:
  assumes inv: "vh_inv st {} R B P" and a: "a \<in> live st" "vo_data (obj_at st a) = U_Nvl ps" and dom: "set qs \<subseteq> dom (vh_pairs st)"
    and P: "mset qs + P' = mset ps + P" and R: "(\<Sum>p \<in># mset qs. pair_refs st p) + R' = (\<Sum>p \<in># mset ps. pair_refs st p) + R"
    and new: "\<And>x. x \<in># (\<Sum>p \<in># mset qs. pair_refs st p) \<Longrightarrow> x \<in># kids st a \<or> (x, a) \<notin> (kid_rel st)\<^sup>*"
  shows "vh_inv (with_pairs a qs st) {} R' B P'"
proof -
  let ?s = "with_pairs a qs st"
  have f: "fresh_ok st" and ad: "a \<in> live st - {}"
    using inv a(1) by (simp_all add: vh_inv_def)
  have l: "live ?s = live st"
    by (rule with_pairs_live [OF a(1)])
  have k: "kids ?s b = (if b = a then (\<Sum>p \<in># mset qs. pair_refs st p) else kids st b)" for b
    using data_kids_cong [of ?s st] by (simp add: kids_def)
  have ka: "kids st a = (\<Sum>p \<in># mset ps. pair_refs st p)"
    by (simp add: kids_def a(2))
  have o: "own_block ?s = own_block st" "own_pairs ?s b = (if b = a then mset qs else own_pairs st b)" for b
    using a(2) by (auto simp: own_block_def own_pairs_def fun_eq_iff)
  have rest: "(\<Sum>b \<in> live st - {a}. (if b = a then X else g b)) = (\<Sum>b \<in> live st - {a}. g b)" for X and g :: "vaddr \<Rightarrow> 'x multiset"
    by (rule sum.cong) auto
  have refs: "refs ?s {} R' = refs st {} R"
    using R unfolding refs_def l sum_insert_live [OF f ad] k ka by (simp add: rest ac_simps)
  have wf: "wf_at ?s b = wf_at st b" if "b \<in> live st" for b
  proof -
    have "wf_at st a"
      using inv a(1) by (simp add: vh_inv_def counts_ok_def)
    then show ?thesis
      using dom a(2) wf_data_cong [of ?s st] by (simp add: wf_at_def)
  qed
  have "dom (vh_objs ?s) = dom (vh_objs st)"
    using live_obj [OF a(1)] by (auto simp: with_pairs_def)
  then have "counts_ok ?s {} R'"
    using inv wf unfolding vh_inv_def counts_ok_def refs l by auto
  moreover have "storage_ok ?s {} B P'"
    using inv P own_pairs_def [of st a] unfolding vh_inv_def storage_ok_def l o(1) sum_insert_live [OF f ad, of "own_pairs _"] o(2)
    by (simp add: rest a(2) ac_simps) (metis (no_types, lifting) union_assoc union_commute)
  moreover have "ranked ?s {}"
  proof -
    let ?S = "\<Sum>p \<in># mset qs. pair_refs st p"
    obtain rank :: "vaddr \<Rightarrow> nat" where r: "\<forall>b \<in> live st. \<forall>c \<in># kids st b. rank c < rank b"
      "\<forall>x \<in># ?S. (x, a) \<notin> (kid_rel st)\<^sup>* \<longrightarrow> rank x < rank a"
      using inv ranked_above [of st ?S a] by (auto simp: vh_inv_def)
    have "rank c < rank b" if "b \<in> live st" "c \<in># kids ?s b" for b c
    proof (cases "b = a")
      case True
      then have "c \<in># ?S"
        using that(2) k [of b] by simp
      then show ?thesis
        using new [of c] r a(1) True by blast
    next
      case False
      then show ?thesis
        using r(1) that k [of b] by simp
    qed
    then show ?thesis
      unfolding ranked_def l by blast
  qed
  moreover have "fresh_ok ?s"
    using f l live_obj [OF a(1)] by (auto simp: fresh_ok_def) (auto simp: with_pairs_def)
  moreover have "statics_ok ?s"
    using inv live_obj [OF a(1)] by (auto simp: vh_inv_def with_pairs_def elim!: statics_ok_mono split: if_splits)
  ultimately show ?thesis
    by (simp add: vh_inv_def)
qed

lemma vh_inv_upd_pending:
  assumes inv: "vh_inv st D R B (add_mset p P)"
  shows "vh_inv (upd_pair p q st) D R B (add_mset p P)"
proof -
  note pp = pending_pair [OF inv]
  let ?s = "upd_pair p q st"
  have "obj_at ?s a = obj_at st a" for a
    by (simp add: obj_at_def)
  then have k: "kids ?s a = kids st a \<and> wf_at ?s a = wf_at st a" if "a \<in> live st - D" for a
    unfolding kids_def wf_at_def by (simp only:) (intro conjI data_kids_drop; use pp(2) [OF that] in auto)
  note c = counts_ok_drop [of st D ?s, OF k upd_pair_sel(1)]
  have o: "own_block ?s = own_block st" "own_pairs ?s = own_pairs st" "dom (vh_pairs ?s) = dom (vh_pairs st)"
    using pp(1) by (auto simp: fun_eq_iff own_block_def own_pairs_def obj_at_def)
  have "storage_ok ?s D B (add_mset p P)"
    using inv unfolding vh_inv_def storage_ok_def o c(3) by simp
  moreover have "fresh_ok ?s"
    using inv pp(1) c(3) by (auto simp: vh_inv_def fresh_ok_def)
  moreover have "statics_ok ?s"
    using inv by (auto simp: vh_inv_def elim!: statics_ok_mono)
  ultimately show ?thesis
    using inv c by (simp add: vh_inv_def)
qed

definition add_pair :: "vaddr option \<times> vaddr option \<Rightarrow> vheap \<Rightarrow> vheap" where
  "add_pair q st = st\<lparr>vh_pairs := (vh_pairs st)(vh_next st \<mapsto> q), vh_next := Suc (vh_next st)\<rparr>"

lemma add_pair_sel [simp]:
  "vh_objs (add_pair q st) = vh_objs st" "vh_blocks (add_pair q st) = vh_blocks st" "vh_next (add_pair q st) = Suc (vh_next st)"
  "vh_pairs (add_pair q st) = (vh_pairs st)(vh_next st \<mapsto> q)" "vh_mem (add_pair q st) = vh_mem st"
  "obj_at (add_pair q st) = obj_at st" "live (add_pair q st) = live st"
  by (simp_all add: add_pair_def obj_at_def fun_eq_iff live_def)

lemma vh_inv_add_pair:
  assumes inv: "vh_inv st D R B P"
  shows "vh_inv (add_pair q st) D R B (add_mset (vh_next st) P)" "a \<in> live st - D \<Longrightarrow> kids (add_pair q st) a = kids st a"
proof -
  let ?s = "add_pair q st"
  have f: "fresh_ok st"
    using inv by (simp add: vh_inv_def)
  then have n: "vh_pairs st (vh_next st) = None" "vh_next st \<notin> dom (vh_pairs st)"
    by (auto simp: fresh_ok_def)
  have "kids ?s a = kids st a \<and> wf_at ?s a = wf_at st a" if a: "a \<in> live st - D" for a
  proof -
    have "wf_at st a"
      using inv a by (simp add: vh_inv_def counts_ok_def)
    then have "vh_next st \<notin># data_pairs (vo_data (obj_at st a))"
      using n(2) by (cases "vo_data (obj_at st a)") (auto simp: wf_at_def)
    then show ?thesis
      unfolding kids_def wf_at_def by (simp only: add_pair_sel) (intro conjI data_kids_drop; auto)
  qed
  note k = this
  show "kids (add_pair q st) a = kids st a" if "a \<in> live st - D"
    using k that by blast
  note c = counts_ok_drop [of st D ?s, OF k add_pair_sel(1)]
  have o: "own_block ?s = own_block st" "own_pairs ?s = own_pairs st" "dom (vh_pairs ?s) = insert (vh_next st) (dom (vh_pairs st))"
    by (auto simp: fun_eq_iff own_block_def own_pairs_def)
  have "storage_ok ?s D B (add_mset (vh_next st) P)"
    using inv n(2) unfolding vh_inv_def storage_ok_def o c(3) by simp
  moreover have "fresh_ok ?s"
    using f unfolding fresh_ok_def by auto
  moreover have "statics_ok ?s"
    using inv by (auto simp: vh_inv_def elim!: statics_ok_mono)
  ultimately show "vh_inv ?s D R B (add_mset (vh_next st) P)"
    using inv c by (simp add: vh_inv_def)
qed

text \<open>A pair leaves a list: it is the program's, with what it refers to.\<close>

lemma vh_inv_detach:
  assumes "vh_inv st {} R B P" and "a \<in> live st" and "vo_data (obj_at st a) = U_Nvl ps" and "p \<in> set ps" and "mset qs = mset ps - {#p#}"
  shows "vh_inv (with_pairs a qs st) {} (pair_refs st p + R) B (add_mset p P)"
proof -
  have ps: "mset ps = add_mset p (mset qs)"
    using assms(4,5) by simp
  have "set ps \<subseteq> dom (vh_pairs st)"
    using list_pairs_dom [OF assms(1) _ assms(3)] assms(2) by simp
  moreover have "set ps = insert p (set qs)"
    using arg_cong [OF ps, of set_mset] by simp
  ultimately show ?thesis
    using assms(1-3) by (intro vh_inv_with_pairs [where ps = ps]) (auto simp: ps kids_def ac_simps)
qed

text \<open>The value of a pair is replaced.\<close>

lemma vh_inv_upd_value:
  assumes inv: "vh_inv st {} (add_mset x R) B P" and a: "a \<in> live st" "vo_data (obj_at st a) = U_Nvl ps" "p \<in> set ps"
    and p: "vh_pairs st p = Some (n, v)" and x: "(x, a) \<notin> (kid_rel st)\<^sup>*"
  shows "vh_inv (upd_pair p (n, Some x) st) {} (opt_ref v + R) B P"
proof -
  let ?qs = "remove1 p ps"
  let ?s = "with_pairs a ?qs st"
  let ?t = "upd_pair p (n, Some x) ?s"
  have ob: "vh_objs st a = Some (obj_at st a)"
    using live_obj [OF a(1)] by simp
  have m: "mset ps = add_mset p (mset ?qs)"
    using a(3) by simp
  have s: "vh_inv ?s {} (pair_refs st p + add_mset x R) B (add_mset p P)"
    using inv a by (intro vh_inv_detach [where ps = ps]) simp_all
  have t: "vh_inv ?t {} (pair_refs st p + add_mset x R) B (add_mset p P)"
    by (rule vh_inv_upd_pending [OF s])
  have la: "a \<in> live ?t"
    using a(1) with_pairs_live [OF a(1)] by (simp add: live_def)
  have np: "p \<notin> set ?qs"
    using pending_pair(2) [OF s, of a] a(1) with_pairs_live [OF a(1)] by (simp flip: mset_remove1)
  have refs: "pair_refs ?t q = pair_refs st q" if "q \<in> set ?qs" for q
    using that np by (auto simp: pair_refs_def)
  have sum: "(\<Sum>q \<in># mset ?qs. pair_refs ?t q) = (\<Sum>q \<in># mset ?qs. pair_refs st q)"
    using refs by (intro arg_cong [where f = sum_mset] image_mset_cong) (simp del: mset_remove1)
  have kt: "kids ?t b = (if b = a then (\<Sum>q \<in># mset ?qs. pair_refs st q) else kids st b)" if "b \<in> live st" for b
  proof (cases "b = a")
    case True
    then show ?thesis
      using sum by (simp add: kids_def)
  next
    case False
    have "p \<notin># data_pairs (vo_data (obj_at ?s b))"
      using pending_pair(2) [OF s, of b] that with_pairs_live [OF a(1)] by simp
    then have "data_kids ?t (vo_data (obj_at st b)) = data_kids st (vo_data (obj_at st b))"
      using False by (intro data_kids_drop) auto
    then show ?thesis
      using False by (simp add: kids_def)
  qed
  have pt: "pair_refs ?t p = add_mset x (opt_ref n)" "pair_refs st p = opt_ref n + opt_ref v"
    using p by (simp_all add: pair_refs_def)
  have lt: "live ?t = live st"
    using with_pairs_live [OF a(1)] by (simp add: live_def)
  have "(b, c) \<in> kid_rel st" if "(b, c) \<in> kid_rel ?t" "b \<noteq> a" for b c
    using that kt [of b] unfolding kid_rel_def lt by simp
  then have "kid_rel ?t \<subseteq> kid_rel st \<union> {a} \<times> UNIV"
    by (intro subrelI) blast
  note np' = no_path [OF this]
  have "vh_inv (with_pairs a ps ?t) {} (opt_ref v + R) B P"
  proof (rule vh_inv_with_pairs [where ps = ?qs and R = "pair_refs st p + add_mset x R" and P = "add_mset p P"])
    show "set ps \<subseteq> dom (vh_pairs ?t)"
      using list_pairs_dom [OF inv _ a(2)] a(1) by auto
    show "(\<Sum>q \<in># mset ps. pair_refs ?t q) + (opt_ref v + R) = (\<Sum>q \<in># mset ?qs. pair_refs ?t q) + (pair_refs st p + add_mset x R)"
      using pt by (simp add: m sum ac_simps del: mset_remove1)
    fix y
    assume "y \<in># (\<Sum>q \<in># mset ps. pair_refs ?t q)"
    then have "y \<in># pair_refs ?t p \<or> y \<in># (\<Sum>q \<in># mset ?qs. pair_refs st q)"
      by (simp add: m sum del: mset_remove1)
    then consider "y = x" | "y \<in># opt_ref n" | "y \<in># kids ?t a"
      using pt(1) kt [OF a(1)] by auto
    then show "y \<in># kids ?t a \<or> (y, a) \<notin> (kid_rel ?t)\<^sup>*"
    proof cases
      case 2
      then have "y \<in># pair_refs st p"
        by (simp add: pt(2))
      then have "y \<in># kids st a"
        using a(2,3) by (auto simp: kids_def)
      then show ?thesis
        using np' kid_no_path [of st a y] inv a(1) by (simp add: vh_inv_def)
    qed (use np' [OF x] in simp_all)
  qed (use t la m in simp_all)
  moreover have "with_pairs a ps ?t = with_pairs a ps (upd_pair p (n, Some x) st)"
    by (simp add: with_pairs_def upd_pair_def obj_at_def)
  moreover have "\<dots> = upd_pair p (n, Some x) st"
    using ob a(2) by (intro with_pairs_same [where ob = "obj_at st a"]) simp_all
  ultimately show ?thesis
    by simp
qed

subsection \<open>Setting the value of a pair\<close>

lemma nvl_is_live:
  assumes "vh_inv st D R B P" and "vh_objs st a = Some ob" and "vo_data ob = U_Nvl ps"
  shows "a \<in> live st"
proof -
  have "static_data (vo_data ob)" if "vo_static_struct ob"
    using assms(1,2) that by (auto simp: vh_inv_def statics_ok_def)
  then show ?thesis
    using assms(2,3) by (auto simp: live_def)
qed

lemma held_live_shrinks:
  assumes "shrinks st st'" and "vh_inv st' D R B P" and "a \<in># R" and "a \<in> live st"
  shows "a \<in> live st' \<and> vo_data (obj_at st' a) = vo_data (obj_at st a)"
proof -
  have o: "vh_objs st' a = Some (obj_at st' a)"
    using refs_in_dom [OF assms(2,3)] by (auto simp: obj_at_def)
  have "\<exists>r. vh_objs st a = Some ((obj_at st' a)\<lparr>vo_refcnt := r\<rparr>)"
    using assms(1) o unfolding shrinks_def by blast
  then obtain r where "vh_objs st a = Some ((obj_at st' a)\<lparr>vo_refcnt := r\<rparr>)" ..
  then have "obj_at st a = (obj_at st' a)\<lparr>vo_refcnt := r\<rparr>"
    by (simp add: obj_at_def)
  then have "\<not> vo_static_struct (obj_at st' a)" "vo_data (obj_at st' a) = vo_data (obj_at st a)"
    using live_obj [OF assms(4)] by simp_all
  then show ?thesis
    using o by (auto simp: live_def)
qed

lemma obj_set_value_ok:
  assumes inv: "vh_inv st {} (add_mset x R) B P" and a: "a \<in> live st" "vo_data (obj_at st a) = U_Nvl ps" "p \<in> set ps" "a \<in># R"
    and x: "(x, a) \<notin> (kid_rel st)\<^sup>*"
  shows "\<exists>n v st'. vh_pairs st p = Some (n, v) \<and> obj_set_value p x st = (Inr (), st') \<and> vh_inv st' {} R B P \<and>
    shrinks (upd_pair p (n, Some x) st) st'"
proof -
  have "p \<in> dom (vh_pairs st)"
    using list_pairs_dom [OF inv _ a(2)] a(1,3) by auto
  then obtain n v where p: "vh_pairs st p = Some (n, v)"
    by auto
  let ?s = "upd_pair p (n, Some x) st"
  have "vh_inv ?s {} (opt_ref v + R) B P"
    by (rule vh_inv_upd_value [OF inv a(1-3) p x])
  then obtain t where t: "val_putref v ?s = (Inr (), t)" "vh_inv t {} R B P" "shrinks ?s t"
    using val_putref_drops by blast
  have "a \<in> live t \<and> vo_data (obj_at t a) = U_Nvl ps"
    using held_live_shrinks [OF t(3,2) a(4)] a(1,2) by simp
  then have "p \<in> dom (vh_pairs t)"
    using list_pairs_dom [OF t(2), of a ps] a(3) by auto
  moreover have "vh_pairs t \<subseteq>\<^sub>m vh_pairs ?s"
    using t(3) by (simp add: shrinks_def)
  ultimately have pt: "vh_pairs t p = Some (n, Some x)"
    by (auto simp: map_le_def)
  have "upd_pair p (n, v) ?s = st"
    using p by (simp add: upd_pair_def fun_upd_idem)
  then have "val_putref v st = (Inr (), upd_pair p (n, v) t)"
    using val_putref_ignores [OF t(1), of p "(n, v)"] pt by auto
  moreover have "upd_pair p (n, Some x) (upd_pair p (n, v) t) = t"
    using pt by (simp add: upd_pair_def fun_upd_idem)
  ultimately have "obj_set_value p x st = (Inr (), t)"
    using p by (simp add: obj_set_value_def get_pair_def upd_pair_def)
  then show ?thesis
    using p t by blast
qed

subsection \<open>Setting a name\<close>

lemma obj_find_state: "obj_find name ps st = (r, st') \<Longrightarrow> st' = st \<and> (\<forall>p. r = Inr (Some p) \<longrightarrow> p \<in> set ps) \<and> (\<forall>e. r \<noteq> Inl (Errno e))"
proof (induction ps)
  case (Cons q ps)
  have "st' = st \<and> (\<forall>e. r \<noteq> Inl (Errno e))" if "obj_cstr x st = (r, st')" for x and r :: "bytes res" and st'
    using that by (auto simp: obj_cstr_def block_cstr_def andthen_def get_obj_def get_block_def split: option.splits if_splits vdata.splits block.splits)
  then show ?case
    using Cons by (auto simp: andthen_def get_pair_def split: option.splits sum.splits if_splits prod.splits)
qed auto

lemma obj_nvl_pairs_state:
  "obj_nvl_pairs a st = (r, st') \<Longrightarrow> st' = st \<and> (\<forall>ps. r = Inr ps \<longrightarrow> (\<exists>ob. vh_objs st a = Some ob \<and> vo_data ob = U_Nvl ps)) \<and> (\<forall>e. r \<noteq> Inl (Errno e))"
  by (auto simp: obj_nvl_pairs_def andthen_def get_obj_def split: option.splits vdata.splits)

text \<open>A string refers to nothing.\<close>

definition stringy :: "vheap \<Rightarrow> vaddr \<Rightarrow> bool" where
  "stringy st n \<longleftrightarrow> (\<exists>ob. vh_objs st n = Some ob \<and> str_of st (vo_data ob) \<noteq> None)"

lemma stringy_kids: "stringy st n \<Longrightarrow> kids st n = {#}"
  by (auto simp: stringy_def kids_def obj_at_def elim!: str_of.elims)

lemma obj_cstr_stringy: "obj_cstr (Some n) st = (r, st') \<Longrightarrow> st' = st \<and> (\<forall>cs. r = Inr cs \<longrightarrow> stringy st n) \<and> (\<forall>e. r \<noteq> Inl (Errno e))"
  by (auto simp: obj_cstr_def block_cstr_def stringy_def andthen_def get_obj_def get_block_def split: option.splits if_splits vdata.splits block.splits)

lemma block_cstr_state: "block_cstr p st = (r, st') \<Longrightarrow> st' = st \<and> (\<forall>cs. r = Inr cs \<longrightarrow> (\<exists>bs. vh_blocks st p = Some (B_Bytes bs) \<and> 0 \<in> set bs \<and> cs = chars_of bs)) \<and> (\<forall>e. r \<noteq> Inl (Errno e))"
  by (auto simp: block_cstr_def andthen_def get_block_def split: option.splits if_splits block.splits)

lemma stringy_shrinks:
  assumes "stringy st n" and "shrinks st t" and "vh_inv t {} R B P" and "n \<in># R"
  shows "stringy t n"
proof -
  obtain ob where ob: "vh_objs st n = Some ob" "str_of st (vo_data ob) \<noteq> None"
    using assms(1) by (auto simp: stringy_def)
  have "n \<in> dom (vh_objs t) - {}"
    using refs_in_dom [OF assms(3,4)] by simp
  from shrinks_present [OF assms(2) vh_inv_present [OF assms(3)] this ob(1)] obtain ob'
    where "vh_objs t n = Some ob'" "vo_data ob' = vo_data ob" "str_of t (vo_data ob) = str_of st (vo_data ob)"
    by metis
  then show ?thesis
    using ob(2) by (auto simp: stringy_def)
qed

text \<open>A new pair is added to the list, with the value of the new pair set.\<close>

lemma vh_inv_statics:
  assumes "vh_inv st D R B P" and "preset a = Some ob"
  shows "vh_inv st D (add_mset a R) B P"
proof -
  have o: "vh_objs st a = Some ob" "vo_static_struct ob"
    using preset_obj [OF assms] preset_static [OF assms(2)] by simp_all
  then have "a \<notin> live st"
    by (auto simp: live_def)
  then show ?thesis
    using assms(1) o(1) by (auto simp: vh_inv_def counts_ok_def)
qed

lemma add_to_list:
  assumes inv: "vh_inv st {} (add_mset n (add_mset x R)) B P" and a: "a \<in> live st" "vo_data (obj_at st a) = U_Nvl ps" "a \<in># R"
    and x: "(x, a) \<notin> (kid_rel st)\<^sup>*" and n: "stringy st n" and qs: "mset qs = add_mset (vh_next st) (mset ps)"
  defines "s \<equiv> with_pairs a qs (add_pair (Some n, Some Val_Null) st)"
  shows "\<exists>st'. obj_set_value (vh_next st) x s = (Inr (), st') \<and> vh_inv st' {} R B P \<and>
    shrinks (upd_pair (vh_next st) (Some n, Some x) s) st'"
proof -
  let ?p = "vh_next st" and ?t = "add_pair (Some n, Some Val_Null) st"
  have np: "?p \<notin> set ps"
  proof
    assume "?p \<in> set ps"
    then have "?p \<in> dom (vh_pairs st)"
      using list_pairs_dom [OF inv _ a(2)] a(1) by auto
    then show False
      using inv by (auto simp: vh_inv_def fresh_ok_def)
  qed
  have i: "vh_inv ?t {} (add_mset Val_Null (add_mset n (add_mset x R))) B (add_mset ?p P)"
    by (rule vh_inv_add_pair(1) [OF vh_inv_statics [OF inv]]) simp
  have k: "kids ?t b = kids st b" if "b \<in> live st" for b
    using vh_inv_add_pair(2) [OF inv] that by simp
  then have kr: "kid_rel ?t = kid_rel st"
    by (auto simp: kid_rel_def)
  have ne: "n \<noteq> a"
    using n a live_obj [OF a(1)] by (auto simp: stringy_def)
  have kn: "kids ?t n = {#}"
    using n str_of_block [of _ ?t st] by (intro stringy_kids) (simp add: stringy_def)
  have s: "vh_inv s {} (add_mset x R) B P"
    unfolding s_def
  proof (rule vh_inv_with_pairs [OF i, where ps = ps])
    have old: "(\<Sum>p \<in># mset ps. pair_refs ?t p) = (\<Sum>p \<in># mset ps. pair_refs st p)"
      using np by (intro arg_cong [where f = sum_mset] image_mset_cong) (auto simp: pair_refs_def)
    show "(\<Sum>p \<in># mset qs. pair_refs ?t p) + add_mset x R = (\<Sum>p \<in># mset ps. pair_refs ?t p) + add_mset Val_Null (add_mset n (add_mset x R))"
      unfolding qs by (simp add: pair_refs_def)
    have "Val_Null \<notin> live st"
      using preset_obj [OF inv, of Val_Null] preset_static [of Val_Null] by (auto simp: live_def)
    then have "(Val_Null, a) \<notin> (kid_rel st)\<^sup>*"
      using a(1) by (auto simp: kid_rel_def elim: converse_rtranclE)
    moreover have "(n, a) \<notin> (kid_rel ?t)\<^sup>*"
      by (rule leaf_no_path [OF kn ne])
    ultimately show "y \<in># kids ?t a \<or> (y, a) \<notin> (kid_rel ?t)\<^sup>*" if "y \<in># (\<Sum>p \<in># mset qs. pair_refs ?t p)" for y
      using that a(2) unfolding qs kr by (auto simp: pair_refs_def [of _ ?p] kids_def)
    show "set qs \<subseteq> dom (vh_pairs ?t)"
      using arg_cong [OF qs, of set_mset] list_pairs_dom [OF inv _ a(2)] a(1) by auto
  qed (use a qs in simp_all)
  have ls: "a \<in> live s" "vo_data (obj_at s a) = U_Nvl qs" "?p \<in> set qs"
    using a(1) with_pairs_live [of a ?t qs] arg_cong [OF qs, of set_mset] by (simp_all add: s_def)
  have "kids s b = kids st b" if "b \<in> live st" "b \<noteq> a" for b
    using k [OF that(1)] that(2) data_kids_cong [of s ?t] by (simp add: kids_def s_def)
  then have "kid_rel s \<subseteq> kid_rel st \<union> {a} \<times> UNIV"
    using a(1) with_pairs_live [of a ?t qs] by (auto simp: kid_rel_def s_def)
  then have "(x, a) \<notin> (kid_rel s)\<^sup>*"
    by (rule no_path [OF _ x])
  from obj_set_value_ok [OF s ls a(3) this] obtain nm v st' where st': "vh_pairs s ?p = Some (nm, v)"
    "obj_set_value ?p x s = (Inr (), st')" "vh_inv st' {} R B P" "shrinks (upd_pair ?p (nm, Some x) s) st'"
    by blast
  have "vh_pairs s ?p = Some (Some n, Some Val_Null)"
    by (simp add: s_def)
  then have "nm = Some n"
    using st'(1) by simp
  then show ?thesis
    using st'(2-4) by blast
qed

text \<open>A copy of the name is a new string, and nothing else changes.\<close>

definition grown :: "vheap \<Rightarrow> vheap \<Rightarrow> bool" where
  "grown st st' \<longleftrightarrow>
     vh_objs st \<subseteq>\<^sub>m vh_objs st' \<and> vh_blocks st \<subseteq>\<^sub>m vh_blocks st' \<and> vh_pairs st' = vh_pairs st \<and>
     (\<forall>a ob. vh_objs st' a = Some ob \<longrightarrow> vh_objs st a = Some ob \<or> (\<exists>c. vo_data ob = U_Str_Inline c) \<or> (\<exists>p. vo_data ob = U_Str_Ptr p))"

lemma grown_refl [simp]: "grown st st" "grown st (st\<lparr>vh_mem := m\<rparr>)"
  by (simp_all add: grown_def)

lemma grown_trans [trans]: "grown a b \<Longrightarrow> grown b c \<Longrightarrow> grown a c"
  unfolding grown_def by (auto intro: map_le_trans) metis

lemma grown_add_block: "fresh_ok st \<Longrightarrow> grown st (add_block b (st\<lparr>vh_mem := m\<rparr>))"
  by (auto simp: grown_def map_le_def fresh_ok_def)

lemma fresh_add_block: "fresh_ok st \<Longrightarrow> fresh_ok (add_block b (st\<lparr>vh_mem := m\<rparr>))"
  by (auto simp: fresh_ok_def live_def)

lemma str_store_grown:
  assumes "str_store type cs s heap st = (Inr n, st')" and "fresh_ok st" and "heap \<Longrightarrow> \<not> inlinable (length cs)"
  shows "grown st st'"
proof (cases rule: val_alloc_obj_cases [of type st])
  case (ok m)
  have new: "vh_objs st (Dyn (vh_next st)) = None"
    using assms(2) by (simp add: fresh_ok_def)
  obtain ob where "st' = add_obj ob (st\<lparr>vh_mem := m\<rparr>)" "(\<exists>c. vo_data ob = U_Str_Inline c) \<or> (\<exists>p. vo_data ob = U_Str_Ptr p)"
    using assms(1,3) ok by (cases heap; cases "inlinable (length cs)") (auto simp: str_store_def andthen_def on_error_def free_if_def split: option.splits)
  then show ?thesis
    using new by (auto simp: grown_def map_le_def)
next
  case (nomem m)
  then show ?thesis
    using assms(1) by (auto simp: str_store_def andthen_def on_error_def split: sum.splits prod.splits)
qed

lemma dup_grown:
  assumes "obj_strsym_dup s VT_STR st = (Inr n, st')" and f: "fresh_ok st"
  shows "grown st st'"
proof -
  obtain cs where cs: "str_chars s USE_STRLEN st = (Inr cs, st)"
    using assms(1) by (auto simp: obj_strsym_dup_def obj_strsym_gen_def str_chars_def get_block_def andthen_def split: option.splits block.splits)
  show ?thesis
  proof (cases "obj_preallocated VT_STR cs")
    case (Some a)
    then show ?thesis
      using assms(1) cs by (simp add: obj_strsym_dup_def obj_strsym_gen_def free_if_def)
  next
    case None
    show ?thesis
    proof (cases "inlinable (length cs)")
      case True
      then show ?thesis
        using assms(1) cs None by (auto simp: obj_strsym_dup_def obj_strsym_gen_def intro: str_store_grown [OF _ f])
    next
      case False
      then have "andthen (blk_alloc (length cs + 1) (B_Bytes (cs @ [0]))) (\<lambda>tmp. str_store VT_STR cs (Some tmp) True) st = (Inr n, st')"
        using assms(1) cs None by (simp add: obj_strsym_dup_def obj_strsym_gen_def)
      then obtain tmp s1 where s1: "blk_alloc (length cs + 1) (B_Bytes (cs @ [0])) st = (Inr tmp, s1)" "str_store VT_STR cs (Some tmp) True s1 = (Inr n, st')"
        by (auto elim: andthen_InrE)
      obtain m where m: "s1 = add_block (B_Bytes (cs @ [0])) (st\<lparr>vh_mem := m\<rparr>)"
        using s1(1) by (auto simp: blk_alloc_def on_heap_mem_def add_block_def elim!: andthen_InrE split: prod.splits)
      show ?thesis
        using grown_add_block [OF f] str_store_grown [OF s1(2)] fresh_add_block [OF f] False unfolding m by (blast intro: grown_trans)
    qed
  qed
qed

lemma grown_kid_rel:
  assumes g: "grown st st'" and inv: "vh_inv st {} R B P"
  shows "kid_rel st' \<subseteq> kid_rel st" and "a \<in> live st \<Longrightarrow> a \<in> live st' \<and> obj_at st' a = obj_at st a"
proof -
  have same: "obj_at st' a = obj_at st a \<and> vh_objs st' a = vh_objs st a" if "a \<in> dom (vh_objs st)" for a
    using g that by (auto simp: grown_def map_le_def obj_at_def)
  show "a \<in> live st' \<and> obj_at st' a = obj_at st a" if "a \<in> live st"
    using same [of a] that live_obj [OF that] by (auto simp: live_def)
  have "a \<in> live st \<and> b \<in># kids st a" if a: "a \<in> live st'" and b: "b \<in># kids st' a" for a b
  proof -
    have "vh_objs st a = Some (obj_at st' a) \<or> (\<exists>c. vo_data (obj_at st' a) = U_Str_Inline c) \<or> (\<exists>p. vo_data (obj_at st' a) = U_Str_Ptr p)"
      using g live_obj [OF a] by (simp add: grown_def)
    then have oa: "vh_objs st a = Some (obj_at st' a)"
      using b by (auto simp: kids_def)
    then have o: "a \<in> live st" "obj_at st' a = obj_at st a"
      using live_obj [OF a] by (simp_all add: live_def obj_at_def [of st])
    have "wf_at st a"
      using inv o(1) by (simp add: vh_inv_def counts_ok_def)
    then have "vh_blocks st q \<noteq> None" if "data_block (vo_data (obj_at st a)) = Some q" for q
      using that by (cases "vo_data (obj_at st a)") (auto simp: wf_at_def)
    moreover have "vh_blocks st \<subseteq>\<^sub>m vh_blocks st'"
      using g by (simp add: grown_def)
    ultimately have "vh_blocks st' q = vh_blocks st q" if "data_block (vo_data (obj_at st a)) = Some q" for q
      using that by (metis domIff map_le_def)
    then have "kids st' a = kids st a"
      unfolding kids_def o(2) using g by (intro data_kids_drop) (auto simp: grown_def)
    then show ?thesis
      using o b by simp
  qed
  then show "kid_rel st' \<subseteq> kid_rel st"
    by (auto simp: kid_rel_def)
qed

lemma nvpair_alloc_cases:
  assumes inv: "vh_inv st {} (opt_ref name + R) B P" and "name \<noteq> None"
  shows "(\<exists>m. obj_nvpair_alloc name st = (Inr (vh_next st), add_pair (name, Some Val_Null) (st\<lparr>vh_mem := m\<rparr>))) \<or>
    (\<exists>st'. obj_nvpair_alloc name st = (fail ENOMEM, st') \<and> vh_inv st' {} R B P \<and> shrinks (st\<lparr>vh_mem := vh_mem st'\<rparr>) st' \<and> \<not> mem_plenty (vh_mem st))"
proof -
  have y: "yields (cell_alloc sizeof_nvpair) sizeof_nvpair"
    by (rule yields_cell) (simp add: sizeof_nvpair_def bound_simps)
  from y show ?thesis
  proof (cases rule: yields_cases [of _ _ "vh_mem st"])
    case (ok m)
    then show ?thesis
      by (intro disjI1 exI [of _ m]) (simp add: obj_nvpair_alloc_def on_error_def on_heap_mem_def add_pair_def)
  next
    case (nomem m)
    have "vh_inv (st\<lparr>vh_mem := m\<rparr>) {} (opt_ref name + R) B P"
      using inv by simp
    then obtain st' where "val_putref name (st\<lparr>vh_mem := m\<rparr>) = (Inr (), st')" "vh_inv st' {} R B P" "shrinks (st\<lparr>vh_mem := m\<rparr>) st'"
      using val_putref_drops by blast
    moreover have "vh_mem st' = m"
      using calculation(3) by (simp add: shrinks_def)
    ultimately show ?thesis
      using nomem assms(2) by (simp add: obj_nvpair_alloc_def on_error_def on_heap_mem_def)
  qed
qed

lemma kid_rel_mem [simp]: "kid_rel (st\<lparr>vh_mem := m\<rparr>) = kid_rel st"
proof -
  have "kids (st\<lparr>vh_mem := m\<rparr>) a = kids st a" for a
    using data_kids_cong [of "st\<lparr>vh_mem := m\<rparr>" st] by (simp add: kids_def obj_at_def)
  then show ?thesis
    by (simp add: kid_rel_def)
qed

text \<open>
  What \<open>do_nvl_set\<close> does with the references: those to the name and the value are the list's, or have been dropped when
  memory ran out.
\<close>

lemma set_nvl_pairs_with: "a \<in> live st \<Longrightarrow> set_nvl_pairs a ps st = (Inr (), with_pairs a ps st)"
  using live_obj [of a st] by (simp add: set_nvl_pairs_def upd_obj_def get_obj_def put_obj_def with_pairs_def)

definition add_new :: "(nat list \<Rightarrow> nat list) \<Rightarrow> vaddr \<Rightarrow> nat list \<Rightarrow> vaddr \<Rightarrow> vaddr option \<Rightarrow> (vheap, unit) cfun" where
  "add_new arr a ps x nm =
     andthen (on_error (obj_nvpair_alloc nm) (val_putref (Some x))) (\<lambda>p.
       andthen (obj_rb_add arr a ps nm p) (\<lambda>_. obj_set_value p x))"

lemma add_new_ok:
  assumes inv: "vh_inv st {} (add_mset n (add_mset x R)) B P" and a: "a \<in> live st" "vo_data (obj_at st a) = U_Nvl ps" "a \<in># R"
    and x: "(x, a) \<notin> (kid_rel st)\<^sup>*" and n: "stringy st n" and arr: "\<And>ps. mset (arr ps) = mset ps"
  shows "\<exists>r st'. add_new arr a ps x (Some n) st = (r, st') \<and> vh_inv st' {} R B P \<and>
    (case r of
       Inr _ \<Rightarrow> (\<exists>m. shrinks (upd_pair (vh_next st) (Some n, Some x)
         (with_pairs a (arr (vh_next st # ps)) (add_pair (Some n, Some Val_Null) (st\<lparr>vh_mem := m\<rparr>)))) st')
     | Inl e \<Rightarrow> e = Errno ENOMEM \<and> \<not> mem_plenty (vh_mem st) \<and> shrinks (st\<lparr>vh_mem := vh_mem st'\<rparr>) st')"
proof -
  have i: "vh_inv st {} (opt_ref (Some n) + add_mset x R) B P"
    using inv by (simp add: add_mset_commute)
  from nvpair_alloc_cases [OF i] consider
    (ok) m where "obj_nvpair_alloc (Some n) st = (Inr (vh_next st), add_pair (Some n, Some Val_Null) (st\<lparr>vh_mem := m\<rparr>))"
    | (nomem) s where "obj_nvpair_alloc (Some n) st = (fail ENOMEM, s)" "vh_inv s {} (add_mset x R) B P"
      "shrinks (st\<lparr>vh_mem := vh_mem s\<rparr>) s" "\<not> mem_plenty (vh_mem st)"
    by auto
  then show ?thesis
  proof cases
    case (ok m)
    let ?s = "st\<lparr>vh_mem := m\<rparr>" and ?qs = "arr (vh_next st # ps)"
    have o: "obj_at ?s = obj_at st"
      by (simp add: fun_eq_iff obj_at_def)
    have "stringy ?s n"
      using n str_of_block [of _ ?s st] by (simp add: stringy_def)
    then obtain st' where st': "obj_set_value (vh_next st) x (with_pairs a ?qs (add_pair (Some n, Some Val_Null) ?s)) = (Inr (), st')"
      "vh_inv st' {} R B P" "shrinks (upd_pair (vh_next st) (Some n, Some x) (with_pairs a ?qs (add_pair (Some n, Some Val_Null) ?s))) st'"
      using add_to_list [of ?s n x R B P a ps ?qs] inv a x arr o by auto
    have "a \<in> live (add_pair (Some n, Some Val_Null) ?s)"
      using a(1) by simp
    then have "add_new arr a ps x (Some n) st = (Inr (), st')"
      using ok st'(1) by (simp add: add_new_def on_error_def obj_rb_add_def set_nvl_pairs_with)
    then show ?thesis
      using st'(2,3) by auto
  next
    case (nomem s)
    have "vh_inv s {} (opt_ref (Some x) + R) B P"
      using nomem(2) by simp
    then obtain t where t: "val_putref (Some x) s = (Inr (), t)" "vh_inv t {} R B P" "shrinks s t"
      using val_putref_drops by blast
    have "vh_mem t = vh_mem s"
      using t(3) by (simp add: shrinks_def)
    then show ?thesis
      using nomem t shrinks_trans [OF nomem(3) t(3)] by (auto simp: add_new_def on_error_def)
  qed
qed

lemma dup_made:
  assumes "vh_inv st {} R B P" and "cstring_at st s cs"
  shows "\<exists>r st'. obj_strsym_dup s VT_STR st = (r, st') \<and> made st st' R B P r (VStr cs)"
  using obj_strsym_gen_made [of st R False s B P VT_STR True USE_STRLEN cs] cstring_chars [OF assms(2)] assms(1)
  by (simp add: obj_strsym_dup_def mk_strsym_def)

lemma den_str_stringy: "den st n (VStr cs) \<Longrightarrow> stringy st n"
  by (auto simp: stringy_def elim: den.cases)

text \<open>
  What \<open>do_nvl_set\<close> does with the references: those to the name and the value are the list's, or have been dropped when
  memory ran out.
\<close>

lemma obj_do_nvl_set_inv:
  assumes inv: "vh_inv st {} (opt_ref name + add_mset x R) B P" and a: "a \<in># R" and x: "(x, a) \<notin> (kid_rel st)\<^sup>*"
    and n: "\<And>n. name = Some n \<Longrightarrow> stringy st n" and arr: "\<And>ps. mset (arr ps) = mset ps"
    and dup: "name = None \<Longrightarrow> \<exists>s v. dup = obj_strsym_dup s VT_STR \<and> cstring_at st s v"
    and run: "obj_do_nvl_set arr a cname dup name x st = (r, st')" and r: "r \<in> {Inr (), fail ENOMEM}"
  shows "vh_inv st' {} R B P"
proof -
  obtain ps where ps: "obj_nvl_pairs a st = (Inr ps, st)" "vh_objs st a = Some (obj_at st a)" "vo_data (obj_at st a) = U_Nvl ps"
    using run r obj_nvl_pairs_state [of a st]
    by (cases "obj_nvl_pairs a st"; cases "fst (obj_nvl_pairs a st)") (auto simp: obj_do_nvl_set_def obj_at_def)
  have la: "a \<in> live st"
    by (rule nvl_is_live [OF inv ps(2,3)])
  obtain q where q: "obj_find cname ps st = (Inr q, st)"
    using run r ps(1) obj_find_state [of cname ps st]
    by (cases "obj_find cname ps st"; cases "fst (obj_find cname ps st)") (auto simp: obj_do_nvl_set_def)
  show ?thesis
  proof (cases q)
    case (Some p)
    obtain s where s: "val_putref name st = (Inr (), s)" "vh_inv s {} (add_mset x R) B P" "shrinks st s"
      using val_putref_drops [OF inv] by blast
    have l: "a \<in> live s" "vo_data (obj_at s a) = U_Nvl ps"
      using held_live_shrinks [OF s(3,2), of a] a la ps(3) by simp_all
    have p: "p \<in> set ps"
      using obj_find_state [OF q] Some by simp
    have "(x, a) \<notin> (kid_rel s)\<^sup>*"
      using x rtrancl_mono [OF shrinks_kid_rel [OF s(3)]] by blast
    then show ?thesis
      using obj_set_value_ok [OF s(2) l p a] run ps(1) q Some s(1) by (auto simp: obj_do_nvl_set_def)
  next
    case None
    have run': "andthen (obj_pair_name dup name) (add_new arr a ps x) st = (r, st')"
      using run ps(1) q None by (simp add: obj_do_nvl_set_def add_new_def [abs_def])
    show ?thesis
    proof (cases name)
      case (Some n')
      then show ?thesis
        using add_new_ok [OF _ la ps(3) a x _ arr, of n' B P] n [OF Some] inv run' by (auto simp: obj_pair_name_def add_mset_commute)
    next
      case name: None
      obtain s v where d: "dup = obj_strsym_dup s VT_STR" "cstring_at st s v"
        using dup [OF name] by blast
      have "vh_inv st {} (add_mset x R) B P"
        using inv name by simp
      then obtain u t where u: "obj_strsym_dup s VT_STR st = (u, t)" "made st t (add_mset x R) B P u (VStr v)"
        using dup_made d(2) by blast
      show ?thesis
      proof (cases u)
        case (Inr n')
        have t: "vh_inv t {} (add_mset n' (add_mset x R)) B P" "stringy t n'"
          using u(2) Inr den_str_stringy by (auto simp: made_def)
        have g: "grown st t"
          using dup_grown [of s st n' t] u(1) Inr inv by (simp add: vh_inv_def)
        note gk = grown_kid_rel [OF g inv]
        have "(x, a) \<notin> (kid_rel t)\<^sup>*"
          using x rtrancl_mono [OF gk(1)] by blast
        moreover have "a \<in> live t" "vo_data (obj_at t a) = U_Nvl ps"
          using gk(2) [OF la] ps(3) by simp_all
        ultimately show ?thesis
          using add_new_ok [OF t(1) _ _ a _ t(2) arr, of ps] run' u(1) Inr name d(1) by (auto simp: obj_pair_name_def)
      next
        case (Inl e)
        then have t: "vh_inv t {} (opt_ref (Some x) + R) B P" "e = Errno ENOMEM"
          using u(2) by (simp_all add: made_def)
        have "add_new arr a ps x None t = (r, st')"
          using run' u(1) Inl t(2) name d(1) by (simp add: obj_pair_name_def)
        moreover have "fst (add_new arr a ps x None t) \<in> {Inl Fault, Inl Stray}"
        proof -
          have "vh_inv (t\<lparr>vh_mem := m\<rparr>) {} (opt_ref (Some x) + R) B P" for m
            using t(1) by simp
          then have "\<exists>u. val_putref (Some x) (t\<lparr>vh_mem := m\<rparr>) = (Inr (), u)" for m
            using val_putref_drops by blast
          then obtain f where "\<And>m. val_putref (Some x) (t\<lparr>vh_mem := m\<rparr>) = (Inr (), f m)"
            by metis
          then show ?thesis
            by (auto simp: add_new_def on_error_def obj_nvpair_alloc_def on_heap_mem_def obj_rb_add_def andthen_def split: sum.splits prod.splits)
        qed
        ultimately show ?thesis
          using r by auto
      qed
    qed
  qed
qed

lemma obj_nvl_set_inv:
  assumes inv: "vh_inv st {} (add_mset x R) B P" and a: "a \<in># R" and x: "(x, a) \<notin> (kid_rel st)\<^sup>*" and arr: "\<And>ps. mset (arr ps) = mset ps"
    and c: "cstring_at st (Some p) cs" and run: "obj_nvl_set arr a p x st = (r, st')" and r: "r \<in> {Inr (), fail ENOMEM}"
  shows "vh_inv st' {} R B P"
proof -
  have "block_cstr p st = (Inr cs, st)"
    using c by (auto simp: block_cstr_def get_block_def andthen_def cstring_at_def)
  then have "obj_do_nvl_set arr a cs (obj_strsym_dup (Some p) VT_STR) None x st = (r, st')"
    using run by (simp add: obj_nvl_set_def)
  from obj_do_nvl_set_inv [where name = None and B = B and P = P, OF _ a x _ arr _ this r] show ?thesis
    using inv c by auto
qed

lemma getref_refcnt:
  assumes "val_getref (Some a) st = (Inr y, st')"
  shows "unat (vo_refcnt (obj_at st' b)) \<le> Suc (unat (vo_refcnt (obj_at st b)))"
proof -
  have "unat (w + 1) \<le> Suc (unat w)" for w :: u32
    by (simp add: unat_word_ariths)
  then show ?thesis
    using assms by (auto simp: val_getref_def andthen_def get_obj_def put_obj_def obj_at_def split: option.splits if_splits)
qed

lemma obj_nvl_set_pair_inv:
  assumes inv: "vh_inv st {} R B P" and R: "a \<in># R" "n \<in># R" "x \<in># R" and x: "(x, a) \<notin> (kid_rel st)\<^sup>*"
    and lim: "\<And>b. b \<in> live st \<Longrightarrow> b \<in> {n, x} \<Longrightarrow> unat (vo_refcnt (obj_at st b)) + 2 < 2 ^ 32" and arr: "\<And>ps. mset (arr ps) = mset ps"
    and run: "obj_nvl_set_pair arr a n x st = (r, st')" and r: "r \<in> {Inr (), fail ENOMEM}"
  shows "vh_inv st' {} R B P"
proof -
  obtain cs where cs: "obj_cstr (Some n) st = (Inr cs, st)" "stringy st n"
    using run r obj_cstr_stringy [of n st]
    by (cases "obj_cstr (Some n) st"; cases "fst (obj_cstr (Some n) st)") (auto simp: obj_nvl_set_pair_def)
  have small: "w + 1 \<noteq> 0" if "unat w + 1 < 2 ^ 32" for w :: u32
  proof -
    have "unat (w + 1) = unat w + 1"
      using that by (simp add: unat_word_ariths)
    then show ?thesis
      by auto
  qed
  obtain R1 where R1: "R = add_mset n R1"
    using multi_member_split [OF R(2)] by blast
  have "vo_refcnt (obj_at st n) + 1 \<noteq> 0" if "n \<in> live st"
    using lim [OF that] by (intro small) simp
  then obtain s where s: "val_getref (Some n) st = (Inr (Some n), s)" "vh_inv s {} (add_mset n R) B P" "shrinks st s"
    using val_getref_takes [of st n R1 B P] inv R1 by blast
  obtain R2 where R2: "add_mset n R = add_mset x R2"
    using multi_member_split [of x "add_mset n R"] R(3) by auto
  have "vo_refcnt (obj_at s x) + 1 \<noteq> 0" if "x \<in> live s"
  proof (rule small)
    have "x \<in> live st"
      using that shrinks_live [OF s(3)] by blast
    then show "unat (vo_refcnt (obj_at s x)) + 1 < 2 ^ 32"
      using getref_refcnt [OF s(1), of x] lim [of x] by simp
  qed
  then obtain t where t: "val_getref (Some x) s = (Inr (Some x), t)" "vh_inv t {} (add_mset x (add_mset n R)) B P" "shrinks s t"
    using val_getref_takes [of s x R2 B P] s(2) R2 by metis
  have sh: "shrinks st t"
    by (rule shrinks_trans [OF s(3) t(3)])
  have "(x, a) \<notin> (kid_rel t)\<^sup>*"
    using x rtrancl_mono [OF shrinks_kid_rel [OF sh]] by blast
  moreover have "stringy t n"
    by (rule stringy_shrinks [OF cs(2) sh t(2)]) simp
  moreover have "obj_do_nvl_set arr a cs (cerr Panic) (Some n) x t = (r, st')"
    using run cs(1) s(1) t(1) by (simp add: obj_nvl_set_pair_def)
  ultimately show ?thesis
    using obj_do_nvl_set_inv [where name = "Some n" and B = B and P = P, OF _ R(1) _ _ arr _ _ r] t(2) by (auto simp: add_mset_commute)
qed

lemma drops_putref: "drops n D val_putref"
  unfolding drops_def using val_putref_drops by blast

lemma obj_unset_inv:
  assumes inv: "vh_inv st {} R B P" and a: "a \<in># R" and arr: "\<And>ps. mset (arr ps) = mset ps"
    and run: "obj_unset arr a name type matchtype st = (r, st')" and r: "r \<in> {Inr (), fail ENOENT, fail ERANGE}"
  shows "vh_inv st' {} R B P"
proof -
  obtain cs where cs: "block_cstr name st = (Inr cs, st)"
    using run r block_cstr_state [of name st]
    by (cases "block_cstr name st"; cases "fst (block_cstr name st)") (auto simp: obj_unset_def)
  obtain ps where ps: "obj_nvl_pairs a st = (Inr ps, st)" "vh_objs st a = Some (obj_at st a)" "vo_data (obj_at st a) = U_Nvl ps"
    using run r cs obj_nvl_pairs_state [of a st]
    by (cases "obj_nvl_pairs a st"; cases "fst (obj_nvl_pairs a st)") (auto simp: obj_unset_def obj_at_def)
  have la: "a \<in> live st"
    by (rule nvl_is_live [OF inv ps(2,3)])
  obtain q where q: "obj_find cs ps st = (Inr q, st)"
    using run r cs ps(1) obj_find_state [of cs ps st]
    by (cases "obj_find cs ps st"; cases "fst (obj_find cs ps st)") (auto simp: obj_unset_def)
  show ?thesis
  proof (cases q)
    case None
    then show ?thesis
      using run inv cs ps(1) q by (simp add: obj_unset_def)
  next
    case (Some p)
    have p: "p \<in> set ps"
      using obj_find_state [OF q] Some by simp
    let ?s = "with_pairs a (arr (remove1 p ps)) st"
    have "vh_inv ?s {} (pair_refs st p + R) B (add_mset p P)"
      using arr p by (intro vh_inv_detach [OF inv la ps(3)]) simp_all
    then have "vh_inv ?s {} (pair_refs ?s p + R) B (add_mset p P)"
      by (simp add: pair_refs_def)
    then obtain u where u: "nvpair_free val_putref p ?s = (Inr (), u)" "vh_inv u {} R B P"
      using nvpair_free_drop [OF drops_putref, of ?s "{}" p R B P "Suc (card (live ?s))"] by auto
    have tst: "obj_pair_type p st = (v, w) \<Longrightarrow> w = st \<and> (\<forall>e. v \<noteq> Inl (Errno e))" for v w
      by (auto simp: obj_pair_type_def andthen_def get_pair_def get_obj_def split: option.splits)
    show ?thesis
    proof (cases "(if matchtype then obj_pair_type p else cret type) st")
      case (Pair v w)
      then have w: "w = st" "\<And>e. v \<noteq> Inl (Errno e)"
        using tst by (auto split: if_splits)
      show ?thesis
      proof (cases v)
        case (Inl e)
        then show ?thesis
          using run r cs ps(1) q Some Pair w by (auto simp: obj_unset_def)
      next
        case (Inr ty)
        then show ?thesis
          using run cs ps(1) q Some Pair w(1) inv u la by (auto simp: obj_unset_def set_nvl_pairs_with split: if_splits)
      qed
    qed
  qed
qed

end
