(* ===== verification/Val_Refs.thy ===== *)
theory Val_Refs
  imports Val_Pairs
begin

text \<open>
  Programs that use values: sequences of calls that make values, put them into name-value lists and take them out, and take
  and drop references, on a heap and the references and blocks the program holds.
\<close>

subsection \<open>Programs\<close>

text \<open>
  A legal call that makes the value \<open>v\<close>: \<open>val_call st B R0 B0 f v\<close>. It uses up the references \<open>R0\<close> and the blocks \<open>B0\<close> of the
  program, which keeps the blocks \<open>B\<close>.
\<close>

inductive val_call :: "vheap \<Rightarrow> baddr multiset \<Rightarrow> vaddr multiset \<Rightarrow> baddr multiset \<Rightarrow> (vheap, vaddr) cfun \<Rightarrow> val \<Rightarrow> bool" for st B where
  call_int: "val_call st B {#} {#} (obj_int i) (VInt i)"
| call_char: "val_call st B {#} {#} (obj_char i) (VChar i)"
| call_bool: "val_call st B {#} {#} (obj_bool b) (VBool b)"
| call_null: "val_call st B {#} {#} obj_null VNull"
| call_nvl: "val_call st B {#} {#} obj_nvl (VNvl [])"
| call_cons: "rel_option (den st) h vh \<Longrightarrow> rel_option (den st) t vt \<Longrightarrow>
    val_call st B (opt_ref h + opt_ref t) {#} (obj_cons h t) (VCons vh vt)"
| call_blob: "vh_blocks st p = Some (B_Bytes bs) \<Longrightarrow> n \<le> length bs \<Longrightarrow> is_mal p \<Longrightarrow>
    val_call st B {#} {#p#} (obj_blob p n) (VBlob (take n bs))"
| call_blob_dup: "vh_blocks st p = Some (B_Bytes bs) \<Longrightarrow> n \<le> length bs \<Longrightarrow> n \<le> SSIZE_MAX \<Longrightarrow>
    val_call st B {#} {#} (obj_blob_dup p n) (VBlob (take n bs))"
| call_blob_static: "vh_blocks st p = Some (B_Bytes bs) \<Longrightarrow> n \<le> length bs \<Longrightarrow> \<not> is_mal p \<Longrightarrow>
    val_call st B {#} {#} (obj_blob_static p n) (VBlob (take n bs))"
| call_array: "vh_blocks st p = Some (B_Ptrs xs) \<Longrightarrow> n \<le> length xs \<Longrightarrow> is_mal p \<Longrightarrow> take n xs = map Some as \<Longrightarrow> list_all2 (den st) as vs \<Longrightarrow>
    val_call st B (mset as) {#p#} (obj_array p n) (VArray vs)"
| call_array_dup: "vh_blocks st p = Some (B_Ptrs xs) \<Longrightarrow> n \<le> length xs \<Longrightarrow> p \<in># B \<or> \<not> is_mal p \<Longrightarrow> n * sizeof_ptr \<le> SSIZE_MAX \<Longrightarrow>
    take n xs = map Some as \<Longrightarrow> list_all2 (den st) as vs \<Longrightarrow> val_call st B (mset as) {#} (obj_array_dup p n) (VArray vs)"
| call_array_static: "vh_blocks st p = Some (B_Ptrs xs) \<Longrightarrow> n \<le> length xs \<Longrightarrow> \<not> is_mal p \<Longrightarrow> take n xs = map Some as \<Longrightarrow> list_all2 (den st) as vs \<Longrightarrow>
    val_call st B (mset as) {#} (obj_array_static p n) (VArray vs)"
| call_str_dup: "type \<in> {VT_STR, VT_SYM} \<Longrightarrow> cstring_at st s cs \<Longrightarrow>
    val_call st B {#} {#} (obj_strsym_dup s type) (mk_strsym type cs)"
| call_str_dup_len: "type \<in> {VT_STR, VT_SYM} \<Longrightarrow> vh_blocks st p = Some (B_Bytes obj) \<Longrightarrow> strnlen obj len = Some n \<Longrightarrow> n < SSIZE_MAX \<Longrightarrow>
    val_call st B {#} {#} (obj_strsym_dup_len (Some p) len type) (mk_strsym type (take n obj))"
| call_str: "type \<in> {VT_STR, VT_SYM} \<Longrightarrow> cstring_at st s cs \<Longrightarrow> (\<forall>p. s = Some p \<longrightarrow> is_mal p) \<Longrightarrow>
    val_call st B {#} (opt_ref s) (obj_strsym_alloc s type) (mk_strsym type cs)"
| call_str_static: "type \<in> {VT_STR, VT_SYM} \<Longrightarrow> cstring_at st s cs \<Longrightarrow> (\<forall>p. s = Some p \<longrightarrow> \<not> is_mal p) \<Longrightarrow>
    val_call st B {#} {#} (obj_strsym_alloc_static s type) (mk_strsym type cs)"

lemma opt_refs_Some [simp]: "opt_refs (map Some as) = mset as"
  by (induction as) auto

lemma inlinable_nil [simp]: "inlinable 0"
  by (simp add: inlinable_def)

lemma val_call_made:
  assumes "val_call st B R0 B0 f v" and inv: "vh_inv st {} (R0 + R) (B0 + B) P"
  shows "\<exists>r st'. f st = (r, st') \<and> made st st' R B P r v"
  using assms(1)
proof cases
  case (call_cons h vh t vt)
  then show ?thesis
    using obj_cons_made [of st h t R B P] inv by simp
next
  case (call_blob p bs n)
  then show ?thesis
    using obj_blob_gen_made [of st R True p B P bs n] inv by (simp add: obj_blob_def)
next
  case (call_blob_dup p bs n)
  then show ?thesis
    using obj_blob_dup_made [of st R B P p bs n] inv by simp
next
  case (call_blob_static p bs n)
  then show ?thesis
    using obj_blob_gen_made [of st R False p B P bs n] inv by (simp add: obj_blob_static_def)
next
  case (call_array p xs n as vs)
  then show ?thesis
    using obj_array_given_made [of st n xs R True p B P as vs] inv by (simp add: obj_array_def)
next
  case (call_array_dup p xs n as vs)
  then show ?thesis
    using obj_array_dup_made [of st n xs R B P p as vs] inv by simp
next
  case (call_array_static p xs n as vs)
  then show ?thesis
    using obj_array_given_made [of st n xs R False p B P as vs] inv by (simp add: obj_array_static_def)
next
  case (call_str_dup type s cs)
  note c = cstring_chars [OF call_str_dup(6)]
  show ?thesis
    using obj_strsym_gen_made [of st R False s B P type True USE_STRLEN cs] call_str_dup c inv by (simp add: obj_strsym_dup_def)
next
  case (call_str_dup_len type p obj len n)
  note c = strnlen_chars [OF call_str_dup_len(7)]
  have "str_chars (Some p) len st = (Inr (take n obj), st)"
    using call_str_dup_len(6,7) by (simp add: str_chars_def andthen_def get_block_def)
  moreover have "length (take n obj) < SSIZE_MAX"
    using call_str_dup_len(8) by simp
  ultimately show ?thesis
    using obj_strsym_gen_made [of st R False "Some p" B P type True len "take n obj"] call_str_dup_len c(2) inv by (simp add: obj_strsym_dup_len_def)
next
  case (call_str type s cs)
  note c = cstring_chars [OF call_str(6)]
  have "\<exists>p obj. s = Some p \<and> vh_blocks st p = Some (B_Bytes obj) \<and> chars_of obj = cs \<and> 0 \<in> set obj \<and> is_mal p" if "\<not> inlinable (length cs)"
    using c(4) call_str(7) that by (cases cs) auto
  then show ?thesis
    using obj_strsym_gen_made [of st R True s B P type False USE_STRLEN cs] call_str c(1-3) inv by (simp add: obj_strsym_alloc_def)
next
  case (call_str_static type s cs)
  note c = cstring_chars [OF call_str_static(6)]
  have "\<exists>p obj. s = Some p \<and> vh_blocks st p = Some (B_Bytes obj) \<and> chars_of obj = cs \<and> 0 \<in> set obj \<and> \<not> is_mal p" if "\<not> inlinable (length cs)"
    using c(4) call_str_static(7) that by (cases cs) auto
  then show ?thesis
    using obj_strsym_gen_made [of st R False s B P type False USE_STRLEN cs] call_str_static c(1-3) inv by (simp add: obj_strsym_alloc_static_def)
qed (use inv obj_int_made obj_char_made obj_bool_made obj_null_made obj_nvl_made in simp_all)

text \<open>
  The steps of a program that holds the references \<open>R\<close> and the blocks \<open>B\<close>: it makes values with legal calls, takes another
  reference to a value it has, drops a reference, sets and removes names of a name-value list it has, and allocates and frees
  blocks. It does not hold more references to one value than the counter can count, and does not put into a list a value
  that the list is part of. A call of \<open>nvl_set\<close> that fails to copy the name stores an error pointer, and ends the program.
\<close>

inductive val_step :: "vheap \<times> vaddr multiset \<times> baddr multiset \<Rightarrow> vheap \<times> vaddr multiset \<times> baddr multiset \<Rightarrow> bool" where
  make: "val_call st B R0 B0 f v \<Longrightarrow> f st = (r, st') \<Longrightarrow>
    val_step (st, R0 + R, B0 + B) (st', (case r of Inr a \<Rightarrow> {#a#} | Inl _ \<Rightarrow> {#}) + R, B)"
| take: "a \<in># R \<Longrightarrow> (a \<in> live st \<Longrightarrow> vo_refcnt (obj_at st a) + 1 \<noteq> 0) \<Longrightarrow> val_getref (Some a) st = (Inr x, st') \<Longrightarrow>
    val_step (st, R, B) (st', opt_ref x + R, B)"
| drop: "val_putref x st = (Inr (), st') \<Longrightarrow> val_step (st, opt_ref x + R, B) (st', R, B)"
| set: "a \<in># R \<Longrightarrow> (x, a) \<notin> (kid_rel st)\<^sup>* \<Longrightarrow> cstring_at st (Some p) cs \<Longrightarrow> \<forall>ps. mset (arr ps) = mset ps \<Longrightarrow>
    obj_nvl_set arr a p x st = (r, st') \<Longrightarrow> r \<in> {Inr (), fail ENOMEM} \<Longrightarrow> val_step (st, add_mset x R, B) (st', R, B)"
| set_pair: "a \<in># R \<Longrightarrow> n \<in># R \<Longrightarrow> x \<in># R \<Longrightarrow> (x, a) \<notin> (kid_rel st)\<^sup>* \<Longrightarrow>
    (\<And>b. b \<in> live st \<Longrightarrow> b \<in> {n, x} \<Longrightarrow> unat (vo_refcnt (obj_at st b)) + 2 < 2 ^ 32) \<Longrightarrow> \<forall>ps. mset (arr ps) = mset ps \<Longrightarrow>
    obj_nvl_set_pair arr a n x st = (r, st') \<Longrightarrow> r \<in> {Inr (), fail ENOMEM} \<Longrightarrow> val_step (st, R, B) (st', R, B)"
| unset: "a \<in># R \<Longrightarrow> \<forall>ps. mset (arr ps) = mset ps \<Longrightarrow> obj_unset arr a p type matchtype st = (r, st') \<Longrightarrow>
    r \<in> {Inr (), fail ENOENT, fail ERANGE} \<Longrightarrow> val_step (st, R, B) (st', R, B)"
| malloc: "n \<le> SSIZE_MAX \<Longrightarrow> blk_alloc n b st = (Inr p, st') \<Longrightarrow> val_step (st, R, B) (st', R, add_mset p B)"
| free: "blk_free p st = (Inr (), st') \<Longrightarrow> val_step (st, R, add_mset p B) (st', R, B)"

inductive val_reach :: "vheap \<times> vaddr multiset \<times> baddr multiset \<Rightarrow> vheap \<times> vaddr multiset \<times> baddr multiset \<Rightarrow> bool" for s0 where
  init: "val_reach s0 s0"
| step: "val_reach s0 s \<Longrightarrow> val_step s s' \<Longrightarrow> val_reach s0 s'"

fun prog_inv :: "vheap \<times> vaddr multiset \<times> baddr multiset \<Rightarrow> bool" where
  "prog_inv (st, R, B) \<longleftrightarrow> vh_inv st {} R B {#}"

lemma val_step_inv: "val_step s s' \<Longrightarrow> prog_inv s \<Longrightarrow> prog_inv s'"
proof (induction rule: val_step.induct)
  case (make st B R0 B0 f v r st' R)
  then show ?case
    using val_call_made [OF make(1), of R "{#}"] by (auto simp: made_def split: sum.splits)
next
  case (take a R st x st' B)
  obtain R' where "R = add_mset a R'"
    using multi_member_split [OF take(1)] by blast
  then show ?case
    using val_getref_takes [where st = st and a = a and R = R' and P = "{#}"] take by auto
next
  case (drop x st st' R B)
  then show ?case
    using val_putref_drops [of st "{}" x R B "{#}"] by auto
next
  case (set a R x st p cs arr r st' B)
  then show ?case
    using obj_nvl_set_inv [where arr = arr and P = "{#}"] by (metis prog_inv.simps)
next
  case (set_pair a R n x st arr r st' B)
  then show ?case
    using obj_nvl_set_pair_inv [where arr = arr and P = "{#}"] by (metis prog_inv.simps)
next
  case (unset a R arr p type matchtype st r st' B)
  then show ?case
    using obj_unset_inv [where arr = arr and P = "{#}"] by (metis prog_inv.simps)
next
  case (malloc n b st p st' R B)
  from malloc(1) show ?case
  proof (cases rule: blk_alloc_cases [where b = b and st = st])
    case (ok m)
    then show ?thesis
      using malloc after_block(1) by auto
  qed (use malloc in auto)
next
  case (free p st st' R B)
  then show ?case
    using vh_inv_free_block [of st "{}" R p B "{#}"] by auto
qed

lemma val_reach_inv: "val_reach s0 s \<Longrightarrow> prog_inv s0 \<Longrightarrow> prog_inv s"
  by (induction rule: val_reach.induct) (auto dest: val_step_inv)

text \<open>The heap before anything is allocated.\<close>

definition val_heap0 :: "(nat \<rightharpoonup> block) \<Rightarrow> (nat \<Rightarrow> vobj) \<Rightarrow> mem \<Rightarrow> vheap" where
  "val_heap0 consts junk m =
     \<lparr>vh_objs = preset, vh_blocks = (\<lambda>p. case p of Mal _ \<Rightarrow> None | Other n \<Rightarrow> if n = 0 then Some (B_Bytes [0]) else consts n),
      vh_pairs = Map.empty, vh_next = 0, vh_junk = junk, vh_mem = m\<rparr>"

lemma preset_data:
  assumes "preset a = Some ob"
  shows "static_data (vo_data ob)" "wf_data (val_heap0 consts junk m) ob (vo_data ob)"
  using assms by (cases a; auto simp: INIT_STATIC_VAL_def STATIC_CHAR_INITIALIZER_def STATIC_STR_INITIALIZER_def is_mal_def c_string_def
    val_heap0_def split: if_splits)+

lemma val_heap0_inv: "vh_inv (val_heap0 consts junk m) {} {#} {#} {#}"
proof -
  let ?s = "val_heap0 consts junk m"
  have l: "live ?s = {}"
    using preset_static by (auto simp: live_def val_heap0_def)
  have e: "{p \<in> dom (vh_blocks ?s). is_mal p} = {}" "dom (vh_pairs ?s) = {}"
    by (auto simp: val_heap0_def is_mal_def split: baddr.splits)
  have "counts_ok ?s {} {#}" "storage_ok ?s {} {#} {#}" "ranked ?s {}" "fresh_ok ?s"
    unfolding counts_ok_def storage_ok_def ranked_def fresh_ok_def refs_def l e by (simp_all add: val_heap0_def)
  moreover have "statics_ok ?s"
    using preset_static preset_data by (auto simp: statics_ok_def val_heap0_def)
  ultimately show ?thesis
    by (simp add: vh_inv_def)
qed

subsection \<open>Properties\<close>

text \<open>
  C38. Programs that keep to the rules are safe: from a heap with right reference counts, whatever sequence of legal calls ran
  before, dropping a reference that is held ends without touching freed memory and without a failed assertion, a legal
  call makes the value it is meant to make or reports that memory ran out, and so does taking another reference;
  and the values behind all other references that are held stay what they were.
\<close>

theorem val_program_safe:
  assumes "vh_inv st0 {} R0 B0 {#}" and "val_reach (st0, R0, B0) (st, R, B)"
  shows "(\<forall>x R'. R = opt_ref x + R' \<longrightarrow> (\<exists>st'. val_putref x st = (Inr (), st') \<and> keeps st st' R')) \<and>
    (\<forall>R1 B1 R' B' f v. R = R1 + R' \<longrightarrow> B = B1 + B' \<longrightarrow> val_call st B' R1 B1 f v \<longrightarrow>
      (\<exists>r st'. f st = (r, st') \<and> keeps st st' R' \<and>
        (case r of Inr a \<Rightarrow> den st' a v | Inl e \<Rightarrow> e = Errno ENOMEM \<and> \<not> mem_plenty (vh_mem st)))) \<and>
    (\<forall>a. a \<in># R \<longrightarrow> (a \<in> live st \<longrightarrow> vo_refcnt (obj_at st a) + 1 \<noteq> 0) \<longrightarrow>
      (\<exists>st'. val_getref (Some a) st = (Inr (Some a), st') \<and> keeps st st' R))"
proof -
  have inv: "vh_inv st {} R B {#}"
    using val_reach_inv [OF assms(2)] assms(1) by simp
  have "\<exists>st'. val_putref x st = (Inr (), st') \<and> keeps st st' R'" if "R = opt_ref x + R'" for x R'
    using val_putref_drops [of st "{}" x R' B "{#}"] inv that keeps_shrinks by blast
  moreover have "\<exists>r st'. f st = (r, st') \<and> keeps st st' R' \<and>
      (case r of Inr a \<Rightarrow> den st' a v | Inl e \<Rightarrow> e = Errno ENOMEM \<and> \<not> mem_plenty (vh_mem st))"
    if "R = R1 + R'" "B = B1 + B'" "val_call st B' R1 B1 f v" for R1 B1 R' B' f v
    using val_call_made [OF that(3), of R' "{#}"] inv that(1,2) by (fastforce simp: made_def split: sum.splits)
  moreover have "\<exists>st'. val_getref (Some a) st = (Inr (Some a), st') \<and> keeps st st' R"
    if a: "a \<in># R" and l: "a \<in> live st \<longrightarrow> vo_refcnt (obj_at st a) + 1 \<noteq> 0" for a
  proof -
    obtain R' where R: "R = add_mset a R'"
      using multi_member_split [OF a] by blast
    then obtain st' where "val_getref (Some a) st = (Inr (Some a), st')" "vh_inv st' {} (add_mset a (add_mset a R')) B {#}" "shrinks st st'"
      using val_getref_takes [of st a R' B "{#}"] inv l by blast
    then show ?thesis
      using keeps_shrinks R by (fastforce simp: keeps_def)
  qed
  ultimately show ?thesis
    by blast
qed

text \<open>
  C39. Nothing is leaked: when a program that started with nothing allocated, and made values, put values into name-value
  lists, replaced and removed them, took and dropped references, holds no more references, all objects and all pairs of the
  lists have been freed, and of the blocks of memory only those are left that the program holds itself.
\<close>

theorem val_program_no_leak:
  assumes "val_reach (val_heap0 consts junk m, {#}, {#}) (st, {#}, B)"
  shows "live st = {} \<and> vh_pairs st = Map.empty \<and> {p \<in> dom (vh_blocks st). is_mal p} = set_mset B"
proof -
  have inv: "vh_inv st {} {#} B {#}"
    using val_reach_inv [OF assms] val_heap0_inv by simp
  then have "finite {p \<in> dom (vh_blocks st). is_mal p}"
    by (simp add: vh_inv_def storage_ok_def)
  then show ?thesis
    using no_leak [OF inv] by simp
qed

text \<open>A program that makes the number 100 and puts it into a list.\<close>

abbreviation demo_heap :: vheap where
  "demo_heap \<equiv> val_heap0 Map.empty (\<lambda>_. INIT_STATIC_VAL VT_NULL (U_I 0)) plain_mem"

lemma demo_list:
  "\<exists>st a. val_reach (demo_heap, {#}, {#}) (st, {#a#}, {#}) \<and> den st a (VCons (Some (VInt 100)) None)"
proof -
  have i0: "vh_inv demo_heap {} {#} {#} {#}"
    by (rule val_heap0_inv)
  have p0: "mem_plenty (vh_mem demo_heap)"
    by (simp add: val_heap0_def)
  obtain r s where r: "obj_int 100 demo_heap = (r, s)" "made demo_heap s {#} {#} {#} r (VInt 100)"
    using obj_int_made [OF i0] by blast
  then obtain a where a: "r = Inr a" "den s a (VInt 100)" "vh_inv s {} {#a#} {#} {#}"
    using p0 by (auto simp: made_def split: sum.splits)
  have "val_reach (demo_heap, {#}, {#}) (s, {#a#}, {#})"
    using val_reach.step [OF val_reach.init val_step.make [OF call_int r(1), of "{#}" "{#}"]] a(1) by simp
  moreover have p1: "mem_plenty (vh_mem s)"
    using r(1) by (auto simp: obj_int_def obj_int_heap_def val_alloc_obj_def andthen_def on_heap_mem_def val_cell_def cell_alloc_def
      mem_request_def upd_obj_def get_obj_def put_obj_def val_heap0_def sizeof_val_def bound_simps plain_mem_def mem_plenty_def)
  obtain q t where q: "obj_cons (Some a) None s = (q, t)" "made s t {#} {#} {#} q (VCons (Some (VInt 100)) None)"
    using obj_cons_made [of s "Some a" None "{#}" "{#}" "{#}" "Some (VInt 100)" None] a by auto
  then obtain b where b: "q = Inr b" "den t b (VCons (Some (VInt 100)) None)"
    using p1 by (auto simp: made_def split: sum.splits)
  have "val_call s {#} {#a#} {#} (obj_cons (Some a) None) (VCons (Some (VInt 100)) None)"
    using call_cons [of s "Some a" "Some (VInt 100)" None None "{#}"] a(2) by simp
  then have "val_step (s, {#a#}, {#}) (t, {#b#}, {#})"
    using val_step.make [of s "{#}" "{#a#}" "{#}" _ _ q t "{#}"] q(1) b(1) by simp
  ultimately show ?thesis
    using val_reach.step b(2) by blast
qed

theorem val_program_safe_witness:
  "\<exists>st a st'. val_reach (demo_heap, {#}, {#}) (st, {#a#}, {#}) \<and> den st a (VCons (Some (VInt 100)) None) \<and> val_putref (Some a) st = (Inr (), st')"
proof -
  obtain st a where a: "val_reach (demo_heap, {#}, {#}) (st, {#a#}, {#})" "den st a (VCons (Some (VInt 100)) None)"
    using demo_list by blast
  have "{#a#} = opt_ref (Some a) + {#}"
    by simp
  then show ?thesis
    using val_program_safe [OF val_heap0_inv a(1)] a by blast
qed

text \<open>A program that makes a name-value list with the number 100 under the name \<open>kl\<close>.\<close>

abbreviation pair_heap :: vheap where
  "pair_heap \<equiv> val_heap0 [1 \<mapsto> B_Bytes [107, 108, 0]] (\<lambda>_. INIT_STATIC_VAL VT_NULL (U_I 0)) plain_mem"

lemmas heap_eval = andthen_def on_error_def on_heap_mem_def val_cell_def cell_alloc_def mem_request_def plain_mem_def upd_obj_def
  get_obj_def put_obj_def sizeof_val_def sizeof_nvpair_def bound_simps get_pair_def get_block_def block_cstr_def chars_of_def
  val_alloc_obj_def val_heap0_def INIT_STATIC_VAL_def

lemmas set_eval = obj_nvl_set_def obj_do_nvl_set_def obj_nvl_pairs_def obj_strsym_dup_def obj_strsym_gen_def obj_pair_name_def
  str_chars_def strnlen_def obj_preallocated_def inlinable_def str_store_def free_if_def obj_nvpair_alloc_def obj_rb_add_def
  set_nvl_pairs_def obj_set_value_def val_putref_def USE_STRLEN_def STR_INLINE_LEN_def val_isstatic_def

lemma demo_pairs: "\<exists>st a. val_reach (pair_heap, {#}, {#}) (st, {#a#}, {#}) \<and> vh_pairs st \<noteq> Map.empty"
proof -
  obtain s1 where s1: "obj_nvl pair_heap = (Inr (Dyn 0), s1)"
    by (simp add: obj_nvl_def heap_eval)
  obtain s2 where s2: "obj_int 100 s1 = (Inr (Dyn 1), s2)"
    using s1 by (auto simp: obj_nvl_def obj_int_def obj_int_heap_def heap_eval)
  note s12 = s1 [unfolded obj_nvl_def] s2 [unfolded obj_int_def obj_int_heap_def]
  obtain s3 where s3: "obj_nvl_set id (Dyn 0) (Other 1) (Dyn 1) s2 = (Inr (), s3)" "vh_pairs s3 \<noteq> Map.empty"
    using s12 by (auto simp: heap_eval set_eval fun_eq_iff)
  have "val_reach (pair_heap, {#}, {#}) (s1, {#Dyn 0#}, {#})"
    using val_reach.step [OF val_reach.init val_step.make [OF call_nvl s1, of "{#}" "{#}"]] by simp
  moreover have "val_step (s1, {#Dyn 0#}, {#}) (s2, {#Dyn 1, Dyn 0#}, {#})"
    using val_step.make [where R = "{#Dyn 0#}", OF call_int s2, of "{#}"] by (simp add: add_mset_commute)
  moreover have "val_step (s2, {#Dyn 1, Dyn 0#}, {#}) (s3, {#Dyn 0#}, {#})"
  proof (rule val_step.set [OF _ _ _ _ s3(1)])
    have "kids s2 (Dyn 1) = {#}" "cstring_at s2 (Some (Other 1)) [107, 108]"
      using s12 by (auto simp: heap_eval kids_def obj_at_def cstring_at_def)
    then show "(Dyn 1, Dyn 0) \<notin> (kid_rel s2)\<^sup>*" "cstring_at s2 (Some (Other 1)) [107, 108]"
      by (simp_all add: leaf_no_path)
  qed simp_all
  ultimately show ?thesis
    using s3(2) val_reach.step by blast
qed

theorem val_program_no_leak_witness:
  "\<exists>st a st'. val_reach (pair_heap, {#}, {#}) (st, {#a#}, {#}) \<and> vh_pairs st \<noteq> Map.empty \<and>
     val_putref (Some a) st = (Inr (), st') \<and> live st' = {} \<and> vh_pairs st' = Map.empty"
proof -
  obtain st a where a: "val_reach (pair_heap, {#}, {#}) (st, {#a#}, {#})" "vh_pairs st \<noteq> Map.empty"
    using demo_pairs by blast
  have "vh_inv st {} (opt_ref (Some a) + {#}) {#} {#}"
    using val_reach_inv [OF a(1)] val_heap0_inv by simp
  then obtain st' where p: "val_putref (Some a) st = (Inr (), st')"
    using val_putref_drops by blast
  then have "val_step (st, {#a#}, {#}) (st', {#}, {#})"
    using val_step.drop [OF p, of "{#}" "{#}"] by simp
  then have "live st' = {} \<and> vh_pairs st' = Map.empty"
    using val_program_no_leak [OF val_reach.step [OF a(1)]] by blast
  then show ?thesis
    using a p by blast
qed

end
