(* ===== verification/Growable_Array.thy ===== *)
theory Growable_Array
  imports Prelude
begin

text \<open>
  Growable arrays: \<^verbatim>\<open>src/array.c\<close>. The program sees a pointer to the elements; in front of them is a header with the size
  of an element, the number of elements and the number of elements there is memory for. Sizes are computed in 64 bits and
  wrap around.
\<close>

subsection \<open>Data and operations\<close>

record array_hdr =
  a_elem_size :: nat
  a_elem_count :: nat
  a_preallocated :: nat
  a_raw :: bytes

definition sizeof_array :: nat where
  "sizeof_array = 24"

definition total_size :: "nat \<Rightarrow> nat \<Rightarrow> nat" where
  "total_size elem_size cnt = wrap64 (sizeof_array + wrap64 (elem_size * cnt))"

definition get_ptr :: "array_hdr \<Rightarrow> nat \<Rightarrow> nat" where
  "get_ptr a idx = wrap64 (a_elem_size a * idx)"

text \<open>The memory has to hold the header; otherwise filling it in is out of bounds.\<close>

definition array_alloc :: "nat \<Rightarrow> nat \<Rightarrow> mem \<Rightarrow> array_hdr option res \<times> mem" where
  "array_alloc elem_size prealloc_count m =
     (case c_malloc (total_size elem_size prealloc_count) m of
        (None, m') \<Rightarrow> (Inr None, m')
      | (Some d, m') \<Rightarrow>
          if length d < sizeof_array then (Inl Fault, m')
          else (Inr (Some \<lparr>a_elem_size = elem_size, a_elem_count = 0, a_preallocated = prealloc_count, a_raw = drop sizeof_array d\<rparr>), m'))"

text \<open>From the label \<open>clear\<close> on.\<close>

definition array_clear :: "array_hdr \<Rightarrow> nat \<Rightarrow> unit res \<times> array_hdr" where
  "array_clear a new_elem_count =
     (case blk_write (a_raw a) (get_ptr a (a_elem_count a))
         (replicate (wrap64 (total_size (a_elem_size a) new_elem_count + 2 ^ 64 - total_size (a_elem_size a) (a_elem_count a))) 0) of
        None \<Rightarrow> (Inl Fault, a)
      | Some d \<Rightarrow> (Inr (), a\<lparr>a_raw := d, a_elem_count := new_elem_count\<rparr>))"

definition array_truncate :: "array_hdr \<Rightarrow> nat \<Rightarrow> mem \<Rightarrow> (unit res \<times> array_hdr) \<times> mem" where
  "array_truncate a new_elem_count m =
     (if new_elem_count \<le> a_elem_count a then ((Inr (), a\<lparr>a_elem_count := new_elem_count\<rparr>), m)
      else if new_elem_count \<le> a_preallocated a then (array_clear a new_elem_count, m)
      else (case c_realloc (replicate sizeof_array 0 @ a_raw a) (total_size (a_elem_size a) new_elem_count) m of
        (None, m') \<Rightarrow> ((fail ENOMEM, a), m')
      | (Some d, m') \<Rightarrow>
          if length d < sizeof_array then ((Inl Fault, a), m')
          else (array_clear (a\<lparr>a_raw := drop sizeof_array d, a_preallocated := new_elem_count\<rparr>) new_elem_count, m')))"

definition array_size :: "array_hdr option \<Rightarrow> nat" where
  "array_size raw = (case raw of None \<Rightarrow> 0 | Some a \<Rightarrow> a_elem_count a)"

text \<open>The program reads and writes elements through the pointer.\<close>

definition elem_at :: "array_hdr \<Rightarrow> nat \<Rightarrow> bytes" where
  "elem_at a i = take (a_elem_size a) (drop (a_elem_size a * i) (a_raw a))"

definition put_elem :: "array_hdr \<Rightarrow> nat \<Rightarrow> bytes \<Rightarrow> array_hdr" where
  "put_elem a i bs = a\<lparr>a_raw := take (a_elem_size a * i) (a_raw a) @ bs @ drop (a_elem_size a * i + length bs) (a_raw a)\<rparr>"

subsection \<open>Arrays as sequences\<close>

definition array_ok :: "array_hdr \<Rightarrow> bool" where
  "array_ok a \<longleftrightarrow>
     length (a_raw a) = a_elem_size a * a_preallocated a \<and> a_elem_count a \<le> a_preallocated a \<and>
     sizeof_array + a_elem_size a * a_preallocated a \<le> SSIZE_MAX"

definition array_elems :: "array_hdr \<Rightarrow> bytes list" where
  "array_elems a = map (elem_at a) [0..<a_elem_count a]"

lemma total_size_id: "sizeof_array + es * n \<le> SSIZE_MAX \<Longrightarrow> total_size es n = sizeof_array + es * n"
  by (simp add: total_size_def bound_simps sizeof_array_def)

lemma wrap_diff:
  assumes "y \<le> x" and "x < 9223372036854775808"
  shows "wrap64 (k + x + 2 ^ 64 - (k + y)) = x - y"
proof -
  have e: "k + x + 2 ^ 64 - (k + y) = x - y + 2 ^ 64"
    using assms(1) by linarith
  have "wrap64 (k + x + 2 ^ 64 - (k + y)) = (x - y) mod 2 ^ 64"
    unfolding wrap64_def e by (rule mod_add_self2)
  also have "\<dots> = x - y"
    by (rule mod_less) (use assms(2) in simp)
  finally show ?thesis .
qed

text \<open>A slice of \<open>k\<close> bytes at \<open>x\<close> lies in one part of a concatenation.\<close>

lemma slice_before: "x + k \<le> y \<Longrightarrow> y \<le> length d \<Longrightarrow> take k (drop x (take y d @ r)) = take k (drop x d)"
  by (rule nth_equalityI) (auto simp: nth_append)

lemma slice_take: "x + k \<le> y \<Longrightarrow> take k (drop x (take y d)) = take k (drop x d)"
  by (rule nth_equalityI) auto

lemma slice_within: "length p \<le> x \<Longrightarrow> x + k \<le> length p + length q \<Longrightarrow> take k (drop x (p @ q @ r)) = take k (drop (x - length p) q)"
  by simp

lemma slice_after: "y + j \<le> x \<Longrightarrow> x + k \<le> length d \<Longrightarrow> length q = j \<Longrightarrow> take k (drop x (take y d @ q @ drop (y + j) d)) = take k (drop x d)"
  by (rule nth_equalityI) (auto simp: nth_append)

lemma array_elems_eq:
  assumes "a_elem_count b = n" and "a_elem_count a \<le> n" and "a_elem_size b = a_elem_size a"
    and "\<And>i. i < a_elem_count a \<Longrightarrow> elem_at b i = elem_at a i" and "\<And>i. a_elem_count a \<le> i \<Longrightarrow> i < n \<Longrightarrow> elem_at b i = z"
  shows "array_elems b = array_elems a @ replicate (n - a_elem_count a) z"
  using assms by (auto simp: array_elems_def nth_append intro!: nth_equalityI)

lemma array_clear_grows:
  assumes ok: "array_ok a" and n: "a_elem_count a \<le> n" "n \<le> a_preallocated a"
  shows "\<exists>b. array_clear a n = (Inr (), b) \<and> array_ok b \<and> array_elems b = array_elems a @ replicate (n - a_elem_count a) (replicate (a_elem_size a) 0) \<and>
    a_elem_size b = a_elem_size a"
proof -
  let ?es = "a_elem_size a" and ?c = "a_elem_count a" and ?d = "a_raw a"
  have le: "?es * ?c \<le> ?es * n" "?es * n \<le> ?es * a_preallocated a" and len: "length ?d = ?es * a_preallocated a"
    and lim: "sizeof_array + ?es * a_preallocated a \<le> SSIZE_MAX"
    using ok n by (simp_all add: array_ok_def)
  have t: "total_size ?es n = sizeof_array + ?es * n" "total_size ?es ?c = sizeof_array + ?es * ?c"
    using le lim by (intro total_size_id; linarith)+
  have "?es * n < 9223372036854775808"
    using le(2) lim unfolding bound_simps sizeof_array_def by linarith
  then have sz: "wrap64 (total_size ?es n + 2 ^ 64 - total_size ?es ?c) = ?es * n - ?es * ?c"
    unfolding t by (rule wrap_diff [OF le(1)])
  have p: "get_ptr a ?c = ?es * ?c"
    unfolding get_ptr_def using le lim by (intro wrap64_id) (unfold bound_simps sizeof_array_def, linarith)
  let ?b = "a\<lparr>a_raw := take (?es * ?c) ?d @ replicate (?es * n - ?es * ?c) 0 @ drop (?es * n) ?d, a_elem_count := n\<rparr>"
  have e: "array_clear a n = (Inr (), ?b)"
    using le len unfolding array_clear_def sz p by (simp add: blk_write_def)
  have ok': "array_ok ?b"
    using ok n le len by (simp add: array_ok_def)
  have old: "elem_at ?b i = elem_at a i" if "i < ?c" for i
  proof -
    have "?es * Suc i \<le> ?es * ?c"
      using that by (intro mult_le_mono2) simp
    then have "?es * i + ?es \<le> ?es * ?c"
      by simp
    moreover have "?es * ?c \<le> length ?d"
      using le len by linarith
    ultimately show ?thesis
      by (simp add: elem_at_def slice_before slice_take)
  qed
  have new: "elem_at ?b i = replicate ?es 0" if "?c \<le> i" "i < n" for i
  proof -
    have "?es * Suc i \<le> ?es * n" "?es * ?c \<le> ?es * i"
      using that by (intro mult_le_mono2; simp)+
    then have i: "?es * i + ?es \<le> ?es * n" "?es * ?c \<le> ?es * i"
      by simp_all
    have l: "length (take (?es * ?c) ?d) = ?es * ?c"
      using le len by (simp only: length_take min_absorb2)
    have "take ?es (drop (?es * i) (take (?es * ?c) ?d @ replicate (?es * n - ?es * ?c) 0 @ drop (?es * n) ?d)) =
        take ?es (drop (?es * i - ?es * ?c) (replicate (?es * n - ?es * ?c) 0))"
      by (rule slice_within [of "take (?es * ?c) ?d", unfolded l length_replicate]) (simp_all only: i le(1) length_replicate le_add_diff_inverse)
    also have "\<dots> = replicate ?es 0"
      using i unfolding drop_replicate take_replicate by (simp add: min_def)
    finally show ?thesis
      by (simp add: elem_at_def)
  qed
  have "array_elems ?b = array_elems a @ replicate (n - ?c) (replicate ?es 0)"
    by (rule array_elems_eq) (use n old new in auto)
  then show ?thesis
    using e ok' by auto
qed

lemma array_elems_realloc:
  assumes "a_elem_size b = a_elem_size a" and "a_elem_count b = a_elem_count a" and "a_elem_size a * a_elem_count a \<le> k"
    and "take k (a_raw b) = take k (a_raw a)"
  shows "array_elems b = array_elems a"
proof -
  have "elem_at b i = elem_at a i" if "i < a_elem_count a" for i
  proof -
    have "a_elem_size a * Suc i \<le> a_elem_size a * a_elem_count a"
      using that by (intro mult_le_mono2) simp
    then have i: "a_elem_size a * i + a_elem_size a \<le> k"
      using assms(3) by simp
    have "take (a_elem_size a) (drop (a_elem_size a * i) (take k xs)) = take (a_elem_size a) (drop (a_elem_size a * i) xs)" for xs :: bytes
      using i by (simp add: take_drop min_def add.commute)
    then show ?thesis
      using assms(1,4) by (metis elem_at_def)
  qed
  then show ?thesis
    using assms(2) by (simp add: array_elems_def)
qed

lemma array_truncate_cases:
  assumes ok: "array_ok a" and n: "sizeof_array + a_elem_size a * n \<le> SSIZE_MAX"
  shows "\<exists>r b m'. array_truncate a n m = ((r, b), m') \<and> array_ok b \<and> a_elem_size b = a_elem_size a \<and>
    (r = Inr () \<and> array_elems b = take n (array_elems a) @ replicate (n - a_elem_count a) (replicate (a_elem_size a) 0) \<or>
     r = fail ENOMEM \<and> b = a \<and> \<not> mem_plenty m \<and> a_preallocated a < n)"
proof -
  consider (shrink) "n \<le> a_elem_count a" | (fits) "a_elem_count a < n" "n \<le> a_preallocated a" | (grow) "a_preallocated a < n"
    by linarith
  then show ?thesis
  proof cases
    case shrink
    have "array_elems (a\<lparr>a_elem_count := n\<rparr>) = take n (array_elems a)"
      using shrink by (simp add: array_elems_def elem_at_def [abs_def] take_map)
    then show ?thesis
      using shrink ok by (simp add: array_truncate_def array_ok_def)
  next
    case fits
    then show ?thesis
      using array_clear_grows [OF ok, of n] by (auto simp: array_truncate_def array_elems_def)
  next
    case grow
    have c: "a_elem_count a < n"
      using ok grow by (simp add: array_ok_def)
    show ?thesis
    proof (cases "c_realloc (replicate sizeof_array 0 @ a_raw a) (total_size (a_elem_size a) n) m")
      case (Pair d m')
      show ?thesis
      proof (cases d)
        case None
        then have "\<not> mem_plenty m"
          using Pair n c_realloc_plenty [of m "sizeof_array + a_elem_size a * n" "replicate sizeof_array 0 @ a_raw a"] by (auto simp: total_size_id)
        then show ?thesis
          using None Pair grow c ok by (simp add: array_truncate_def)
      next
        case (Some bs)
        note cr = c_realloc_Some [OF Pair [unfolded Some total_size_id [OF n]]]
        let ?b = "a\<lparr>a_raw := drop sizeof_array bs, a_preallocated := n\<rparr>"
        have b: "array_ok ?b"
          using cr(1) n c by (simp add: array_ok_def)
        have m1: "a_elem_size a * a_preallocated a \<le> a_elem_size a * n" "a_elem_size a * a_elem_count a \<le> a_elem_size a * a_preallocated a"
          using grow ok by (simp_all add: array_ok_def)
        have "take (sizeof_array + a_elem_size a * a_preallocated a) bs = replicate sizeof_array 0 @ a_raw a"
        proof -
          have "length (replicate sizeof_array 0 @ a_raw a) = sizeof_array + a_elem_size a * a_preallocated a"
            using ok by (simp add: array_ok_def)
          then show ?thesis
            using cr(2) m1(1) by (metis add_le_cancel_left min.absorb2 take_all)
        qed
        then have "take (a_elem_size a * a_preallocated a) (drop sizeof_array bs) = a_raw a"
          by (simp add: take_drop add.commute)
        then have "array_elems ?b = array_elems a"
          using ok m1(2) by (intro array_elems_realloc [where k = "a_elem_size a * a_preallocated a"]) (simp_all add: array_ok_def)
        then show ?thesis
          using array_clear_grows [OF b, of n] Pair Some cr(1) grow c by (auto simp: array_truncate_def array_elems_def)
      qed
    qed
  qed
qed

text \<open>What a program does with an array: change its length, or write an element.\<close>

datatype array_op = Set_Size nat | Put_Elem nat bytes

fun array_do :: "array_op \<Rightarrow> array_hdr \<times> mem \<Rightarrow> unit res \<times> (array_hdr \<times> mem)" where
  "array_do (Set_Size n) (a, m) = (case array_truncate a n m of ((r, b), m') \<Rightarrow> (r, (b, m')))"
| "array_do (Put_Elem i bs) (a, m) = (Inr (), (put_elem a i bs, m))"

text \<open>The same on a sequence of elements of \<open>es\<close> bytes, when there is memory.\<close>

fun array_seq_do :: "nat \<Rightarrow> array_op \<Rightarrow> bytes list \<Rightarrow> bytes list" where
  "array_seq_do es (Set_Size n) xs = take n xs @ replicate (n - length xs) (replicate es 0)"
| "array_seq_do es (Put_Elem i bs) xs = xs[i := bs]"

text \<open>Sizes have to be such that the memory needed can be addressed, and elements have to be there to be written.\<close>

fun array_legal :: "nat \<Rightarrow> array_op \<Rightarrow> bytes list \<Rightarrow> bool" where
  "array_legal es (Set_Size n) xs \<longleftrightarrow> sizeof_array + es * n \<le> SSIZE_MAX"
| "array_legal es (Put_Elem i bs) xs \<longleftrightarrow> i < length xs \<and> length bs = es"

inductive array_run :: "nat \<Rightarrow> array_hdr \<times> mem \<Rightarrow> bytes list \<Rightarrow> bool" for es where
  start: "array_alloc es n m = (Inr (Some a), m') \<Longrightarrow> sizeof_array + es * n \<le> SSIZE_MAX \<Longrightarrow> array_run es (a, m') []"
| did: "array_run es s xs \<Longrightarrow> array_legal es op xs \<Longrightarrow> array_do op s = (Inr (), s') \<Longrightarrow> array_run es s' (array_seq_do es op xs)"
| failed: "array_run es s xs \<Longrightarrow> array_legal es op xs \<Longrightarrow> array_do op s = (fail e, s') \<Longrightarrow> array_run es s' xs"

lemma length_array_elems [simp]: "length (array_elems a) = a_elem_count a"
  by (simp add: array_elems_def)

lemma put_elem_ok:
  assumes ok: "array_ok a" and i: "i < a_elem_count a" "length bs = a_elem_size a"
  shows "array_ok (put_elem a i bs)" "array_elems (put_elem a i bs) = (array_elems a)[i := bs]" "a_elem_size (put_elem a i bs) = a_elem_size a"
proof -
  let ?es = "a_elem_size a"
  have f: "?es * j + ?es \<le> length (a_raw a)" if "j < a_elem_count a" for j
  proof -
    have "?es * Suc j \<le> ?es * a_preallocated a"
      using that ok by (intro mult_le_mono2) (simp add: array_ok_def)
    then show ?thesis
      using ok by (simp add: array_ok_def)
  qed
  have ord: "?es * j + ?es \<le> ?es * k" if "j < k" for j k
    using mult_le_mono2 [of "Suc j" k ?es] that by simp
  show "array_ok (put_elem a i bs)" "a_elem_size (put_elem a i bs) = a_elem_size a"
    using ok f [OF i(1)] i(2) by (simp_all add: array_ok_def put_elem_def)
  have "elem_at (put_elem a i bs) j = (if j = i then bs else elem_at a j)" if j: "j < a_elem_count a" for j
  proof -
    consider "j < i" | "j = i" | "i < j"
      by linarith
    then show ?thesis
    proof cases
      case 1
      then show ?thesis
        using f [OF i(1)] ord [of j i] by (simp add: elem_at_def put_elem_def slice_before slice_take)
    next
      case 2
      have "?es * i \<le> length (a_raw a)"
        using f [OF i(1)] by linarith
      then show ?thesis
        using 2 i(2) by (simp add: elem_at_def put_elem_def)
    next
      case 3
      then show ?thesis
        using f [OF j] ord [of i j] i(2) by (simp add: elem_at_def put_elem_def slice_after)
    qed
  qed
  then show "array_elems (put_elem a i bs) = (array_elems a)[i := bs]"
    by (auto simp: array_elems_def put_elem_def nth_list_update intro!: nth_equalityI)
qed

lemma array_alloc_ok:
  assumes "array_alloc es n m = (Inr (Some a), m')" and "sizeof_array + es * n \<le> SSIZE_MAX"
  shows "array_ok a" "array_elems a = []" "a_elem_size a = es"
proof -
  obtain d where "c_malloc (total_size es n) m = (Some d, m')" and a: "a = \<lparr>a_elem_size = es, a_elem_count = 0, a_preallocated = n, a_raw = drop sizeof_array d\<rparr>"
    using assms(1) by (auto simp: array_alloc_def split: prod.splits option.splits if_splits)
  then have "length d = sizeof_array + es * n"
    using c_realloc_Some(1) [of "[]" "total_size es n" m d m'] assms(2) by (simp add: c_malloc_def total_size_id)
  then show "array_ok a" "array_elems a = []" "a_elem_size a = es"
    using assms(2) by (simp_all add: a array_ok_def array_elems_def)
qed

lemma array_do_ok:
  assumes "array_ok a" and "array_legal (a_elem_size a) op (array_elems a)"
  shows "\<exists>r b m'. array_do op (a, m) = (r, (b, m')) \<and> array_ok b \<and> a_elem_size b = a_elem_size a \<and>
    (r = Inr () \<and> array_elems b = array_seq_do (a_elem_size a) op (array_elems a) \<or> r = fail ENOMEM \<and> \<not> mem_plenty m \<and> b = a)"
proof (cases op)
  case (Set_Size n)
  then show ?thesis
    using array_truncate_cases [OF assms(1), of n m] assms(2) by auto
next
  case (Put_Elem i bs)
  then show ?thesis
    using put_elem_ok [OF assms(1), of i bs] assms(2) by auto
qed

lemma array_run_ok: "array_run es s xs \<Longrightarrow> array_ok (fst s) \<and> array_elems (fst s) = xs \<and> a_elem_size (fst s) = es"
proof (induction rule: array_run.induct)
  case (start n m a m')
  then show ?case
    using array_alloc_ok by simp
next
  case (did s xs op s')
  then show ?case
    using array_do_ok [of "fst s" op "snd s"] by auto
next
  case (failed s xs op e s')
  then show ?case
    using array_do_ok [of "fst s" op "snd s"] by auto
qed

subsection \<open>Properties\<close>

text \<open>
  C40. An array is the sequence of its elements: after any legal calls and writes its elements are those of the sequence treated
  the same way, where an array that grows gets elements of zeros; its size is the length of the sequence; and the next legal
  call stays inside the memory of the array and succeeds, or reports that memory ran out and leaves the elements alone.
\<close>

theorem array_refines_sequence:
  assumes "array_run es (a, m) xs" and "array_legal es op xs"
  shows "array_elems a = xs \<and> array_size (Some a) = length xs \<and>
    (\<exists>r b m'. array_do op (a, m) = (r, (b, m')) \<and>
      (r = Inr () \<and> array_elems b = array_seq_do es op xs \<or> r = fail ENOMEM \<and> \<not> mem_plenty m \<and> array_elems b = xs))"
proof -
  have a: "array_ok a" "array_elems a = xs" "a_elem_size a = es"
    using array_run_ok [OF assms(1)] by simp_all
  moreover have "\<exists>r b m'. array_do op (a, m) = (r, (b, m')) \<and>
      (r = Inr () \<and> array_elems b = array_seq_do es op xs \<or> r = fail ENOMEM \<and> \<not> mem_plenty m \<and> array_elems b = xs)"
    using array_do_ok [of a op m] a assms(2) by fastforce
  ultimately show ?thesis
    by (auto simp: array_size_def)
qed

text \<open>
  Sizes are not checked: an array of 8-byte elements grows to \<open>2 ^ 61\<close> elements without needing any memory, since the size of
  the block wraps around to that of the header.
\<close>

lemma array_truncate_wraps:
  "\<exists>a m'. array_alloc 8 0 plain_mem = (Inr (Some a), m') \<and>
     (\<exists>b m''. array_truncate a (2 ^ 61) m' = ((Inr (), b), m'') \<and> a_elem_count b = 2 ^ 61 \<and> a_raw b = [])"
proof -
  have t: "total_size 8 (2 ^ 61) = 24" "total_size 8 0 = 24"
    by (simp_all add: total_size_def wrap64_def sizeof_array_def)
  let ?a = "\<lparr>a_elem_size = 8, a_elem_count = 0, a_preallocated = 0, a_raw = []\<rparr>"
  have "array_alloc 8 0 plain_mem = (Inr (Some ?a), plain_mem\<lparr>m_next := 1\<rparr>)"
    by (simp add: array_alloc_def t c_malloc_def c_realloc_def mem_request_def plain_mem_def bound_simps sizeof_array_def)
  moreover have "array_truncate ?a (2 ^ 61) (plain_mem\<lparr>m_next := 1\<rparr>) =
      ((Inr (), ?a\<lparr>a_preallocated := 2 ^ 61, a_elem_count := 2 ^ 61\<rparr>), plain_mem\<lparr>m_next := 2\<rparr>)"
    unfolding array_truncate_def array_clear_def
    by (simp add: t [simplified] c_realloc_def mem_request_def plain_mem_def bound_simps sizeof_array_def get_ptr_def wrap64_def blk_write_def)
  ultimately show ?thesis
    by fastforce
qed

text \<open>An array of two-byte elements.\<close>

lemma demo_array:
  "\<exists>a m. array_run 2 (a, m) [[1, 2]] \<and> mem_plenty m"
proof -
  let ?a0 = "\<lparr>a_elem_size = 2, a_elem_count = 0, a_preallocated = 1, a_raw = [0, 0]\<rparr>"
  have "array_alloc 2 1 plain_mem = (Inr (Some ?a0), plain_mem\<lparr>m_next := 1\<rparr>)"
    by (simp add: array_alloc_def total_size_def c_malloc_def c_realloc_def mem_request_def plain_mem_def bound_simps sizeof_array_def map_replicate_trivial)
      (simp add: numeral_eq_Suc)
  then have r: "array_run 2 (?a0, plain_mem\<lparr>m_next := 1\<rparr>) []"
    by (rule array_run.start) (simp add: sizeof_array_def bound_simps)
  have d: "array_do (Set_Size 1) (?a0, plain_mem\<lparr>m_next := 1\<rparr>) = (Inr (), (?a0\<lparr>a_elem_count := 1\<rparr>, plain_mem\<lparr>m_next := 1\<rparr>))"
    by (simp add: array_truncate_def array_clear_def total_size_def get_ptr_def sizeof_array_def wrap64_def blk_write_def)
      (simp add: numeral_2_eq_2)
  have "array_run 2 (?a0\<lparr>a_elem_count := 1\<rparr>, plain_mem\<lparr>m_next := 1\<rparr>) (array_seq_do 2 (Set_Size 1) [])"
    by (rule array_run.did [OF r _ d]) (simp add: sizeof_array_def bound_simps)
  then have "array_run 2 (put_elem (?a0\<lparr>a_elem_count := 1\<rparr>) 0 [1, 2], plain_mem\<lparr>m_next := 1\<rparr>) [[1, 2]]"
    using array_run.did [of 2 _ _ "Put_Elem 0 [1, 2]"] by fastforce
  moreover have "mem_plenty (plain_mem\<lparr>m_next := 1\<rparr>)"
    by simp
  ultimately show ?thesis
    by blast
qed

theorem array_refines_sequence_witness:
  "\<exists>a m. array_run 2 (a, m) [[1, 2]] \<and> array_elems a = [[1, 2]] \<and>
     (\<exists>b m'. array_do (Set_Size 2) (a, m) = (Inr (), (b, m')) \<and> array_elems b = [[1, 2], [0, 0]])"
proof -
  obtain a m where a: "array_run 2 (a, m) [[1, 2]]" "mem_plenty m"
    using demo_array by blast
  have "array_legal 2 (Set_Size 2) [[1, 2]]"
    by (simp add: sizeof_array_def bound_simps)
  from array_refines_sequence [OF a(1) this] show ?thesis
    using a by (fastforce simp: numeral_2_eq_2)
qed

end
