(* ===== verification/Spec2Isabelle.thy ===== *)
theory Spec2Isabelle
  imports Ints Buffer Base64 Unicode UrlDecode Uuid Nvl ValPack Qstring Nvl_Tree Tree_Destroy Sexpr_Compact Sexpr_Eval Synch_Order Scgi Taskq Val_Refs Growable_Array
begin

text \<open>
  A verification of libjeffpc, a C library of portable systems-programming utilities.

  \<^bold>\<open>The program.\<close> The library is a set of layers. At the bottom are integer helpers
  (\<^verbatim>\<open>src/include/jeffpc/int.h\<close>), the memory allocator wrappers and growable byte buffers with a cursor
  (\<^verbatim>\<open>src/buffer.c\<close> and its implementations for heap memory, a caller's memory, a sink and a \<open>FILE\<close>). On these rest the
  text codecs: base64, UTF-8, hexadecimal dumps, UUIDs and percent-decoding. Intrusive search trees
  (\<^verbatim>\<open>src/tree.c\<close>, \<^verbatim>\<open>src/rbtree.c\<close>, \<^verbatim>\<open>src/bst.c\<close>) hold the pairs of name-value lists (\<^verbatim>\<open>src/nvl.c\<close>), which are one of the
  types of the tagged values of \<^verbatim>\<open>src/val.c\<close>. The serialisers (\<^verbatim>\<open>src/fmt_cbor.c\<close>, \<^verbatim>\<open>src/fmt_json.c\<close>, behind
  \<^verbatim>\<open>src/val_pack.c\<close> and \<^verbatim>\<open>src/val_unpack.c\<close>) write values to buffers and read them back, and the query-string parser
  (\<^verbatim>\<open>src/qstring.c\<close>) fills a name-value list from a URL. S-expressions (\<^verbatim>\<open>src/sexpr.c\<close>, \<^verbatim>\<open>src/sexpr_compact.c\<close>,
  \<^verbatim>\<open>src/sexpr_eval.c\<close>) are values built from cells, which can be compacted and evaluated. Values are reference counted.
  Growable arrays (\<^verbatim>\<open>src/array.c\<close>) and intrusive linked lists (\<^verbatim>\<open>src/list.c\<close>) are further containers. Locks that check the
  order in which they are taken (\<^verbatim>\<open>src/synch.c\<close>) and linked lists carry the task queues (\<^verbatim>\<open>src/taskq.c\<close>), on which services
  run; the SCGI service (\<^verbatim>\<open>src/scgisvc.c\<close>) reads requests with the complete reads and writes of \<^verbatim>\<open>src/io.c\<close> and keeps their
  headers and query strings in name-value lists.

  \<^bold>\<open>The shape of the model.\<close> A C function that works on an object through a pointer is a \<open>('s, 'a) cfun\<close> of the theory
  \<open>Prelude\<close>: from the state before the call to a result and the state after it. The result is \<open>Inr\<close> of the value
  returned or \<open>Inl\<close> of a failure: \<open>Errno e\<close> for a negative errno or an error pointer, \<open>Panic\<close> for a failed
  \<open>ASSERT\<close> or \<open>VERIFY\<close>, \<open>Fault\<close> for an access outside an object or through a null or error pointer, \<open>Stray\<close> for a call
  that returns but has left an error pointer in a data structure, where the run of the model ends, and \<open>Diverged\<close> for a
  loop that uses up its fuel. \<open>andthen\<close> is the sequencing of statements. Integers have the width the LP64 machine gives
  them; sizes and offsets of objects in memory are natural numbers with the conversions written out where C converts.
  The allocator \<open>mem\<close> answers each request with fresh bytes or with a failure, as its state says. The definitions cover
  both answers; a theorem that only speaks about runs with enough memory says so with the hypothesis \<open>mem_plenty\<close>.

  What the code is compared with is defined apart from it: the tables of digits, header names and methods are written
  as texts (\<open>ascii\<close>), grammars and relations between values are inductive definitions, and the contents of containers are
  lists, sorted lists and maps.

  \<^bold>\<open>The theories.\<close>
  \<^item> \<open>Prelude\<close>: integer types, failures, \<open>cfun\<close>, the allocator, shared lemmas.
  \<^item> \<open>Ints\<close> (\<^verbatim>\<open>int.h\<close>): string to integer conversion over a model of \<open>strtoull\<close>, powers of two, byte order. Round
    trips of printing and reading and of stores and loads, and the minimality of \<open>p2roundup\<close>.
  \<^item> \<open>Buffer\<close> (\<^verbatim>\<open>buffer*.c\<close>): the structure with its operations table, as one function per operation and
    implementation. Every legal call keeps the structure consistent and inside its memory; heap buffers refine a
    string of bytes with a cursor, for every sequence of calls.
  \<^item> \<open>Base64\<close>, \<open>Unicode\<close>, \<open>UrlDecode\<close>, \<open>Uuid\<close>: the text codecs, each shown to accept exactly the language it is
    meant to accept, to stay inside the objects it is given, and to be inverse to its counterpart.
  \<^item> \<open>Val\<close> (\<^verbatim>\<open>val.c\<close>, \<^verbatim>\<open>str.c\<close>, \<^verbatim>\<open>val_array.c\<close>, \<^verbatim>\<open>mem_array.c\<close>): tagged values and their constructors.
  \<^item> \<open>Nvl\<close> (\<^verbatim>\<open>nvl.c\<close>, \<^verbatim>\<open>val_nvl.c\<close>, \<^verbatim>\<open>nvl_convert.c\<close>): name-value lists as the sorted sequence of their pairs, used through
    the interface \<open>name_map\<close>. What setting and converting do to the bindings, also when memory runs out.
  \<^item> \<open>Append\<close> and \<open>Source\<close>: the interfaces through which serialisers and parsers use buffers, as locales that
    are interpreted on the buffer operations.
  \<^item> \<open>Cbor_Pack\<close>, \<open>Cbor_Unpack\<close>, \<open>Cbor_Run\<close>, \<open>Cbor\<close> (\<^verbatim>\<open>fmt_cbor.c\<close>): the model of packing, the model of unpacking,
    its behaviour on arbitrary input (no panic, no access out of bounds, termination) and the round trip.
  \<^item> \<open>Json\<close> (\<^verbatim>\<open>fmt_json.c\<close>): packing, and a grammar of JSON with the values its texts denote.
  \<^item> \<open>ValPack\<close> (\<^verbatim>\<open>val_pack.c\<close>, \<^verbatim>\<open>val_unpack.c\<close>): choice of the format, measuring, packing into memory.
  \<^item> \<open>Qstring\<close> (\<^verbatim>\<open>qstring.c\<close>): the one-pass parser refines splitting at separators.
  \<^item> \<open>PTree\<close> (\<^verbatim>\<open>tree.c\<close>, \<^verbatim>\<open>tree_impl.h\<close>, \<^verbatim>\<open>rbtree.c\<close>, \<^verbatim>\<open>bst.c\<close>): the trees as a heap of nodes with child and parent
    pointers, statement by statement. \<open>Tree_Rep\<close> says which tree such a heap represents, \<open>RbTree\<close> and \<open>RbRemove\<close>
    show that insertion and removal keep the red-black conditions, \<open>Tree_Search\<close> and \<open>Tree_Ordered\<close> show that the
    trees refine a sorted list of objects (the locale \<open>ordered_tree\<close>, interpreted for both flavours), and \<open>Nvl_Tree\<close>
    connects them with the sequences of \<open>Nvl\<close>. \<open>Tree_Destroy\<close> is about freeing the nodes of a tree while it is walked.
  \<^item> \<open>Val_Heap\<close> (\<^verbatim>\<open>refcnt.h\<close>, \<^verbatim>\<open>val.c\<close>): values as objects in memory with reference counts, blocks of storage and the pairs
    of name-value lists; dropping a reference and everything it frees, with the invariant that every count is the number
    of references. \<open>Val_Objects\<close> (\<^verbatim>\<open>val.c\<close>, \<^verbatim>\<open>val_array.c\<close>, \<^verbatim>\<open>val_nvl.c\<close>, \<^verbatim>\<open>str.c\<close>) makes objects and says which value of \<open>Val\<close>
    an object stands for, \<open>Val_Pairs\<close> (\<^verbatim>\<open>nvl.c\<close>, \<^verbatim>\<open>val_nvl.c\<close>) puts values into name-value lists and takes them out, and
    \<open>Val_Refs\<close> is about programs made of such calls: no access to freed memory, and no leaks.
  \<^item> \<open>Sexpr\<close> (\<^verbatim>\<open>sexpr.c\<close>): lists, association lists and equality. \<open>Sexpr_Compact\<close> (\<^verbatim>\<open>sexpr_compact.c\<close>): compaction gives what
    an inductive relation says. \<open>Sexpr_Eval\<close> (\<^verbatim>\<open>sexpr_eval.c\<close>): the evaluator and its termination.
  \<^item> \<open>Growable_Array\<close> (\<^verbatim>\<open>array.c\<close>): arrays behind a header, as sequences of elements.
  \<^item> \<open>Linked_List\<close> (\<^verbatim>\<open>list.h\<close>, \<^verbatim>\<open>list.c\<close>): circular lists as a heap of nodes, shown to refine sequences; the interface
    \<open>object_queue\<close> is what the task queue uses of them, and is interpreted on the list operations.
  \<^item> \<open>Synch\<close> (\<^verbatim>\<open>synch.c\<close>): the bookkeeping of lock classes, held locks and dependencies; \<open>Synch_Order\<close> has the threads that
    use it as a step relation and shows that they do not wait in a circle.
  \<^item> \<open>Taskq\<close> (\<^verbatim>\<open>taskq.c\<close>, \<^verbatim>\<open>cstr.c\<close>): workers, dispatchers and waiting threads as a step relation over the sections of code that
    hold the lock; every job is run once, in order, and the workers come to rest.
  \<^item> \<open>Io\<close> (\<^verbatim>\<open>io.c\<close>, \<^verbatim>\<open>io_common.h\<close>): complete reads and writes over system calls that move some of the bytes. \<open>Scgi\<close>
    (\<^verbatim>\<open>scgisvc.c\<close>): requests are read back and answered.

  \<^bold>\<open>Fuel.\<close> Loops over input bytes recurse on the bytes or on a number of remaining bytes. Where a loop or a recursion is
  bounded by an argument of its own, the definition that stands for the C function passes an amount that suffices, and
  the theorems state that the result is a proper one, or that every larger amount gives the same result: the number of
  bytes that remain plus one for unpacking CBOR and for the length and the headers of a netstring, the number of bytes
  asked for in the retry loop of reads and writes, the number of nodes plus one for the loops over a tree, any number above
  the length for the walks over linked lists, the number of lock classes plus two for the search for a path of
  dependencies, the number of objects ever allocated plus one for dropping a reference. The evaluator takes its fuel as
  an argument; the size of the expression plus two suffices.

  \<^bold>\<open>Not modelled.\<close> The sockets below the services (\<^verbatim>\<open>sock.c\<close>, \<^verbatim>\<open>socksvc.c\<close>), the file cache, the creation of threads; the scanner
  and the parser of s-expressions, which are inputs of generators, and printing of s-expressions; \<open>str_cat\<close> and \<open>str_printf\<close>;
  error printing and dumps of values for debugging; object caches, which stand for the allocator; random numbers, time,
  memory-mapped files, start-up; the programs \<^verbatim>\<open>repl.c\<close> and \<^verbatim>\<open>cbor-dumper.c\<close>. The parent pointer and the two extra bits of a
  tree node are kept apart, as in the build without the compact representation. Threads share nothing but locks and
  task queues: reference counts and buffers are used by one thread at a time.
\<close>

end
